(* ===== verification/Vt_Prelude.thy ===== *)
theory Vt_Prelude
  imports Main "HOL-Library.Word" "HOL-Library.Signed_Division"
begin

unbundle bit_operations_syntax

text \<open>
  Shared material of the development: the types that stand for the C types of the
  runtime and of the compiler, the two kinds of failure as values (a panic of the
  running program, a fatal diagnostic of the compiler), sequencing of fallible
  steps, and the generic lemmas on 64-bit words, on lists and on byte ranges that
  the component theories use.
\<close>

section \<open>Types\<close>

text \<open>\<open>int64_t\<close>, \<open>uint64_t\<close> and raw bytes keep their width. An \<open>int64_t\<close> is read
  with \<^term>\<open>sint\<close>, a \<open>uint64_t\<close> with \<^term>\<open>uint\<close> or \<^term>\<open>unat\<close>.\<close>

type_synonym i64 = "64 word"
type_synonym u64 = "64 word"
type_synonym byte = "8 word"

abbreviation INT64_MIN :: i64 where
  "INT64_MIN \<equiv> 0x8000000000000000"

abbreviation INT64_MAX :: i64 where
  "INT64_MAX \<equiv> 0x7FFFFFFFFFFFFFFF"

section \<open>Failures as values\<close>

text \<open>Every runtime failure ends in \<open>vt_panic_c\<close> (message on stderr, exit 101), or
  in \<open>vt_oom\<close> when the host allocator returns NULL.\<close>

datatype rt_err = Panic string | Oom

type_synonym 'a res = "rt_err + 'a"

definition bind_res :: "'e + 'a \<Rightarrow> ('a \<Rightarrow> 'e + 'b) \<Rightarrow> 'e + 'b" where
  "bind_res m f = (case m of Inl e \<Rightarrow> Inl e | Inr x \<Rightarrow> f x)"

lemma bind_res_simps [simp]:
  "bind_res (Inl e) f = Inl e"
  "bind_res (Inr x) f = f x"
  by (simp_all add: bind_res_def)

lemma bind_res_eq_Inr [simp]:
  "bind_res m f = Inr y \<longleftrightarrow> (\<exists>x. m = Inr x \<and> f x = Inr y)"
  by (cases m) auto

lemma bind_res_eq_Inl:
  "bind_res m f = Inl e \<longleftrightarrow> m = Inl e \<or> (\<exists>x. m = Inr x \<and> f x = Inl e)"
  by (cases m) auto

text \<open>A fallible operation repeated over a list of arguments, stopping at the first failure.\<close>

fun run_all :: "('x \<Rightarrow> 'b \<Rightarrow> 'e + 'b) \<Rightarrow> 'x list \<Rightarrow> 'b \<Rightarrow> 'e + 'b" where
  "run_all op [] b = Inr b"
| "run_all op (x # xs) b = bind_res (op x b) (run_all op xs)"

lemma run_all_append: "run_all op (xs @ ys) b = bind_res (run_all op xs b) (run_all op ys)"
  by (induction xs arbitrary: b) (auto simp: bind_res_def split: sum.split)

lemma run_all_concat: "run_all (run_all op) xss b = run_all op (concat xss) b"
  by (induction xss arbitrary: b) (auto simp: run_all_append bind_res_def split: sum.split)

lemma run_all_map: "run_all (\<lambda>x. op (f x)) xs b = run_all op (map f xs) b"
  by (induction xs arbitrary: b) (auto simp: bind_res_def split: sum.split)

text \<open>The contract of a fallible operation on a concrete state that implements a step on an
  abstract one: whenever it returns, it keeps the invariant and follows the step.
  What holds of one operation holds of a sequence of them.\<close>

locale fallible_step =
  fixes ok :: "'b \<Rightarrow> bool" and abs :: "'b \<Rightarrow> 's" and op :: "'x \<Rightarrow> 'b \<Rightarrow> 'e + 'b" and step :: "'x \<Rightarrow> 's \<Rightarrow> 's"
  assumes step_refines: "ok b \<Longrightarrow> op x b = Inr b' \<Longrightarrow> ok b' \<and> abs b' = step x (abs b)"
begin

lemma run_refines: "ok b \<Longrightarrow> run_all op xs b = Inr b' \<Longrightarrow> ok b' \<and> abs b' = fold step xs (abs b)"
  by (induction xs arbitrary: b) (auto dest: step_refines)

end

text \<open>The same contract for an operation that cannot fail from a good state.\<close>

locale total_step = fallible_step +
  assumes step_total: "ok b \<Longrightarrow> \<exists>b'. op x b = Inr b'"
begin

lemma run_total: "ok b \<Longrightarrow> \<exists>b'. run_all op xs b = Inr b' \<and> ok b' \<and> abs b' = fold step xs (abs b)"
proof (induction xs arbitrary: b)
  case (Cons x xs)
  then obtain c where "op x b = Inr c" using step_total by blast
  then show ?case using Cons.IH [of c] Cons.prems step_refines [of b x c] by auto
qed simp

end

section \<open>Collections of facts\<close>

named_theorems vt_word \<open>readings of 64-bit words as integers\<close>
named_theorems vt_inv \<open>preservation of the components' invariants\<close>
named_theorems vt_abs \<open>effect of the operations on the abstract value\<close>

section \<open>Signed 64-bit words\<close>

lemma sint_lower64: "- 9223372036854775808 \<le> sint (w :: i64)"
  using sint_greater_eq [of w] by simp

lemma sint_upper64: "sint (w :: i64) \<le> 9223372036854775807"
  using sint_less [of w] by simp

lemma stb63_in_range:
  "- 9223372036854775808 \<le> x \<Longrightarrow> x \<le> 9223372036854775807 \<Longrightarrow> signed_take_bit 63 (x :: int) = x"
  by (rule signed_take_bit_int_eq_self) simp_all

lemma stb63_period: "signed_take_bit 63 (x + 18446744073709551616 :: int) = signed_take_bit 63 x"
proof -
  have "take_bit (Suc 63) (x + 18446744073709551616) = take_bit (Suc 63) x"
    by (simp add: take_bit_eq_mod)
  then show ?thesis
    by (simp only: signed_take_bit_eq_iff_take_bit_eq)
qed

lemma stb63_above:
  assumes "9223372036854775808 \<le> x" and "x < 27670116110564327424"
  shows "signed_take_bit 63 (x :: int) = x - 18446744073709551616"
  using stb63_period [of "x - 18446744073709551616"] stb63_in_range [of "x - 18446744073709551616"]
    assms by simp

lemma stb63_below:
  assumes "x < - 9223372036854775808" and "- 27670116110564327424 \<le> x"
  shows "signed_take_bit 63 (x :: int) = x + 18446744073709551616"
  using stb63_period [of x] stb63_in_range [of "x + 18446744073709551616"] assms by simp

lemma sint_of_int64:
  "sint (word_of_int x :: i64) = signed_take_bit 63 x"
  by (simp add: sint_sbintrunc')

lemma sint_of_int_eq_iff:
  "sint (word_of_int x :: i64) = x \<longleftrightarrow> - 9223372036854775808 \<le> x \<and> x \<le> 9223372036854775807"
proof
  assume "sint (word_of_int x :: i64) = x"
  then show "- 9223372036854775808 \<le> x \<and> x \<le> 9223372036854775807"
    using sint_lower64 [of "word_of_int x"] sint_upper64 [of "word_of_int x"] by simp
qed (simp add: sint_of_int64 stb63_in_range)

lemma sint_add64: "sint (a + b :: i64) = signed_take_bit 63 (sint a + sint b)"
  by (simp add: sint_word_ariths(1))

lemma sint_sub64: "sint (a - b :: i64) = signed_take_bit 63 (sint a - sint b)"
  by (simp add: sint_word_ariths(2))

lemma sint_mul64: "sint (a * b :: i64) = signed_take_bit 63 (sint a * sint b)"
  by (simp add: sint_word_ariths(3))

lemma sign_bit64: "bit (w :: i64) 63 \<longleftrightarrow> sint w < 0"
  by (simp add: bit_last_iff [symmetric])

lemma uint_sint_mod64: "uint (v :: i64) = sint v mod 18446744073709551616"
  by (simp add: uint_sint take_bit_eq_mod)

lemma uint_of_neg:
  assumes "sint (v :: i64) < 0"
  shows "uint v = sint v + 18446744073709551616"
proof -
  have "uint v = (sint v + 18446744073709551616) mod 18446744073709551616"
    unfolding uint_sint_mod64 by simp
  also have "\<dots> = sint v + 18446744073709551616"
    using assms sint_lower64 [of v] by (intro mod_pos_pos_trivial) linarith+
  finally show ?thesis .
qed

lemma uint_of_nonneg:
  assumes "0 \<le> sint (v :: i64)"
  shows "uint v = sint v"
  unfolding uint_sint_mod64
  using assms sint_upper64 [of v] by (intro mod_pos_pos_trivial) linarith+

lemma uint_minus_neg:
  assumes "sint (v :: i64) < 0"
  shows "uint (- v) = - sint v"
proof -
  have m: "- (sint v + 18446744073709551616) = - sint v - 18446744073709551616" by linarith
  have "uint (- v) = (- uint v) mod 18446744073709551616"
    by (simp add: uint_word_arith_bintrs take_bit_eq_mod)
  also have "\<dots> = (- sint v - 18446744073709551616) mod 18446744073709551616"
    by (simp only: uint_of_neg [OF assms] m)
  also have "\<dots> = (- sint v) mod 18446744073709551616"
    by (rule minus_mod_self2)
  also have "\<dots> = - sint v"
    using assms sint_lower64 [of v] by (intro mod_pos_pos_trivial) linarith+
  finally show ?thesis .
qed

lemma unat_lt64: "unat (w :: u64) < 18446744073709551616"
  using unsigned_less [of w, where ?'a = nat] by simp

lemma unat_of_nat64: "n < 18446744073709551616 \<Longrightarrow> unat (of_nat n :: u64) = n"
  by (simp add: unat_of_nat take_bit_eq_mod)

section \<open>Byte ranges and in-place reversal\<close>

text \<open>\<open>memcmp(xs + i, ys, n) == 0\<close> with \<open>n\<close> the length of \<open>ys\<close>, for a range inside \<open>xs\<close>.\<close>

definition occurs_at :: "'a list \<Rightarrow> 'a list \<Rightarrow> nat \<Rightarrow> bool" where
  "occurs_at ys xs i \<longleftrightarrow> i + length ys \<le> length xs \<and> take (length ys) (drop i xs) = ys"

lemma occurs_at_split: "occurs_at ys xs i \<Longrightarrow> xs = take i xs @ ys @ drop (i + length ys) xs"
  unfolding occurs_at_def by (metis append_take_drop_id drop_drop add.commute)

lemma occurs_at_append: "occurs_at ys (us @ ys @ vs) (length us)"
  by (simp add: occurs_at_def)

text \<open>The two-index swap loop of \<open>vt_str_reverse\<close> and \<open>vt_arr_reverse\<close>.\<close>

definition swap_at :: "'a list \<Rightarrow> nat \<Rightarrow> nat \<Rightarrow> 'a list" where
  "swap_at xs i j = xs[i := xs ! j, j := xs ! i]"

function swap_loop :: "'a list \<Rightarrow> int \<Rightarrow> int \<Rightarrow> 'a list" where
  "swap_loop xs i j = (if i < j then swap_loop (swap_at xs (nat i) (nat j)) (i + 1) (j - 1) else xs)"
  by pat_completeness auto
termination
  by (relation "measure (\<lambda>(xs, i, j). nat (j - i))") auto

declare swap_loop.simps [simp del]

lemma swap_loop_mid:
  "int (length us) = i \<Longrightarrow> j = i + int (length xs) - 1 \<Longrightarrow>
     swap_loop (us @ xs @ vs) i j = us @ rev xs @ vs"
proof (induction "length xs" arbitrary: us xs vs i j rule: less_induct)
  case less
  show ?case
  proof (cases "i < j")
    case False
    then have "length xs \<le> 1" using less.prems by linarith
    then have "rev xs = xs" by (cases xs) auto
    with False show ?thesis by (simp add: swap_loop.simps)
  next
    case True
    then have "2 \<le> length xs" using less.prems by linarith
    then obtain x ys y where xs: "xs = x # ys @ [y]"
      by (metis append_butlast_last_id length_Cons list.exhaust list.size(3) not_less_eq_eq
          numeral_2_eq_2 zero_less_Suc less_eq_nat.simps(1) One_nat_def)
    have i: "nat i = length us" and j: "nat j = Suc (length us + length ys)"
      using less.prems xs by simp_all
    have "swap_at (us @ xs @ vs) (nat i) (nat j) = (us @ [y]) @ ys @ (x # vs)"
      unfolding swap_at_def i j xs
      by (simp add: nth_append list_update_append)
    moreover have "swap_loop ((us @ [y]) @ ys @ (x # vs)) (i + 1) (j - 1) = (us @ [y]) @ rev ys @ (x # vs)"
      by (rule less.hyps) (use less.prems xs in simp_all)
    ultimately show ?thesis
      using True by (subst swap_loop.simps) (simp add: xs)
  qed
qed

lemma swap_loop_rev: "swap_loop xs 0 (int (length xs) - 1) = rev xs"
  using swap_loop_mid [of "[]" 0 "int (length xs) - 1" xs "[]"] by simp

section \<open>Tables of buckets\<close>

text \<open>Chained hash tables: every key is in the bucket its hash names, once. Looking
  a key up in its bucket is looking it up in the whole table.\<close>

definition bucket_ok :: "('k \<Rightarrow> nat) \<Rightarrow> nat \<Rightarrow> ('k \<times> 'v) list \<Rightarrow> bool" where
  "bucket_ok h b c \<longleftrightarrow> distinct (map fst c) \<and> (\<forall>k\<in>fst ` set c. h k = b)"

definition buckets_ok :: "('k \<Rightarrow> nat) \<Rightarrow> ('k \<times> 'v) list list \<Rightarrow> bool" where
  "buckets_ok h bs \<longleftrightarrow> (\<forall>b < length bs. bucket_ok h b (bs ! b))"

lemma map_of_concat_notin: "\<forall>c\<in>set bs. k \<notin> fst ` set c \<Longrightarrow> map_of (concat bs) k = None"
  by (induction bs) (auto simp: map_of_eq_None_iff map_add_def split: option.split)

lemma buckets_lookup_gen:
  "\<forall>b < length bs. \<forall>k\<in>fst ` set (bs ! b). h k = n + b \<Longrightarrow> n \<le> h k \<Longrightarrow> h k < n + length bs \<Longrightarrow>
     map_of (concat bs) k = map_of (bs ! (h k - n)) k"
proof (induction bs arbitrary: n)
  case (Cons c bs)
  have tl: "\<forall>b < length bs. \<forall>k\<in>fst ` set (bs ! b). h k = Suc n + b"
    using Cons.prems(1) by (metis Suc_less_eq add_Suc add_Suc_right length_Cons nth_Cons_Suc)
  have hd: "\<forall>k\<in>fst ` set c. h k = n" using Cons.prems(1) by (metis add.right_neutral length_Cons nth_Cons_0 zero_less_Suc)
  show ?case
  proof (cases "h k = n")
    case True
    have "\<forall>d\<in>set bs. k \<notin> fst ` set d"
      using tl True by (metis Suc_n_not_le_n in_set_conv_nth le_add1)
    then show ?thesis using True map_of_concat_notin [of bs k] by (simp add: map_add_def split: option.split)
  next
    case False
    then have "map_of c k = None" using hd by (auto simp: map_of_eq_None_iff)
    moreover have "h k - n = Suc (h k - Suc n)" using False Cons.prems(2) by simp
    ultimately show ?thesis
      using Cons.IH [OF tl] False Cons.prems(2,3) by (auto simp: map_add_def split: option.split)
  qed
qed simp

lemma buckets_lookup: "buckets_ok h bs \<Longrightarrow> h k < length bs \<Longrightarrow> map_of (concat bs) k = map_of (bs ! h k) k"
  using buckets_lookup_gen [of bs h 0 k] by (simp add: buckets_ok_def bucket_ok_def)

lemma buckets_ok_update:
  "buckets_ok h bs \<Longrightarrow> bucket_ok h b c \<Longrightarrow> buckets_ok h (bs[b := c])"
  unfolding buckets_ok_def by (metis length_list_update nth_list_update_eq nth_list_update_neq)

lemma buckets_distinct_gen:
  "\<forall>b < length bs. distinct (map fst (bs ! b)) \<and> (\<forall>k\<in>fst ` set (bs ! b). h k = n + b) \<Longrightarrow>
     distinct (map fst (concat bs))"
proof (induction bs arbitrary: n)
  case (Cons c bs)
  have tl: "\<forall>b < length bs. distinct (map fst (bs ! b)) \<and> (\<forall>k\<in>fst ` set (bs ! b). h k = Suc n + b)"
    using Cons.prems by (metis Suc_less_eq add_Suc add_Suc_right length_Cons nth_Cons_Suc)
  have hd: "distinct (map fst c)" "\<forall>k\<in>fst ` set c. h k = n"
    using Cons.prems by (metis add.right_neutral length_Cons nth_Cons_0 zero_less_Suc)+
  have "h k \<noteq> n" if k: "k \<in> fst ` set (concat bs)" for k
  proof -
    obtain d where d: "d \<in> set bs" "k \<in> fst ` set d" using k by auto
    then obtain b where "b < length bs" "d = bs ! b" by (metis in_set_conv_nth)
    then have "h k = Suc n + b" using tl d(2) by blast
    then show ?thesis by simp
  qed
  then have "fst ` set c \<inter> fst ` set (concat bs) = {}" using hd(2) by auto
  then show ?case using Cons.IH [OF tl] hd(1) by simp
qed simp

lemma buckets_distinct: "buckets_ok h bs \<Longrightarrow> distinct (map fst (concat bs))"
  by (rule buckets_distinct_gen [where n = 0 and h = h]) (simp add: buckets_ok_def bucket_ok_def)

text \<open>The FNV-1a hash of \<open>map_hash\<close> in the runtime and \<open>fnv1a\<close> in the compiler.\<close>

definition fnv_step :: "u64 \<Rightarrow> char \<Rightarrow> u64" where
  "fnv_step h c = (h XOR of_char c) * 1099511628211"

definition fnv_hash :: "string \<Rightarrow> u64" where
  "fnv_hash s = foldl fnv_step 1469598103934665603 s"

end
