(* ===== verification/Vt_Fmt.thy ===== *)
theory Vt_Fmt
  imports Vt_Prelude
begin

text \<open>
  The runtime's own formatter (\<open>runtime/vyto_rt.c\<close>: \<open>fmt_putc\<close>, \<open>fmt_puts\<close>,
  \<open>fmt_u64\<close>, \<open>fmt_i64\<close>, \<open>vt_snprintf\<close>), the panic path built on it and the helpers
  that build panic messages. A buffer is a list of \<open>char\<close> of the C array's length
  together with the write position; a mismatched argument or a format that ends in
  the middle of a conversion (undefined behaviour in C) is \<open>None\<close>.
  The text that libc prints for \<open>%g\<close> on hosted builds is carried by the argument.
\<close>

section \<open>Model\<close>

type_synonym fmt_st = "char list \<times> nat"

fun fmt_putc :: "nat \<Rightarrow> fmt_st \<Rightarrow> char \<Rightarrow> fmt_st" where
  "fmt_putc n (buf, pos) c = (if pos + 1 < n then buf[pos := c] else buf, pos + 1)"

definition fmt_puts :: "nat \<Rightarrow> fmt_st \<Rightarrow> string option \<Rightarrow> fmt_st" where
  "fmt_puts n st s = foldl (fmt_putc n) st (case s of None \<Rightarrow> ''(null)'' | Some t \<Rightarrow> t)"

text \<open>The digit loop of \<open>fmt_u64\<close> fills \<open>tmp\<close> with the least significant digit first.\<close>

fun u64_tmp :: "nat \<Rightarrow> string" where
  "u64_tmp v = (if v = 0 then [] else char_of (48 + v mod 10) # u64_tmp (v div 10))"

declare u64_tmp.simps [simp del]

definition fmt_u64 :: "nat \<Rightarrow> fmt_st \<Rightarrow> u64 \<Rightarrow> fmt_st" where
  "fmt_u64 n st v =
     (let tmp = (if v = 0 then ''0'' else []) @ u64_tmp (unat v)
      in foldl (fmt_putc n) st (rev tmp))"

definition fmt_i64 :: "nat \<Rightarrow> fmt_st \<Rightarrow> i64 \<Rightarrow> fmt_st" where
  "fmt_i64 n st v =
     (if sint v < 0 then fmt_u64 n (fmt_putc n st (CHR ''-'')) (- (v + 1) + 1)
      else fmt_u64 n st v)"

text \<open>Arguments as \<open>va_arg\<close> reads them: \<open>%s\<close>, \<open>%d\<close> (a C \<open>int\<close>), \<open>%lld\<close>, \<open>%llu\<close>, \<open>%g\<close>.\<close>

datatype fmt_arg = AStr "string option" | AInt "32 word" | ALld i64 | ALlu u64 | AG string

text \<open>The conversion that follows a \<open>%\<close> and the rest of the format after it; \<open>None\<close> when
  the format ends inside the conversion. \<open>CLl\<close> is \<open>%ll\<close> with another letter, which
  consumes its letter and emits nothing; \<open>CRaw\<close> is copied verbatim.\<close>

datatype conv = CPct | CS | CD | CG | CLld | CLlu | CLl | CRaw char

fun next_conv :: "string \<Rightarrow> (conv \<times> string) option" where
  "next_conv [] = None"
| "next_conv (d # f) =
     (if d = CHR ''%'' then Some (CPct, f)
      else if d = CHR ''s'' then Some (CS, f)
      else if d = CHR ''d'' then Some (CD, f)
      else if d = CHR ''g'' then Some (CG, f)
      else if d = CHR ''l'' \<and> f \<noteq> [] \<and> hd f = CHR ''l'' then
        (case tl f of [] \<Rightarrow> None
         | e # r \<Rightarrow> Some (if e = CHR ''d'' then CLld else if e = CHR ''u'' then CLlu else CLl, r))
      else Some (CRaw d, f))"

lemma next_conv_shorter [termination_simp]: "next_conv f = Some (k, r) \<Longrightarrow> length r < length f"
  by (cases f) (auto simp: neq_Nil_conv split: if_splits list.splits)

fun vt_snprintf_loop :: "nat \<Rightarrow> string \<Rightarrow> fmt_arg list \<Rightarrow> fmt_st \<Rightarrow> fmt_st option" where
  "vt_snprintf_loop n [] args st = Some st"
| "vt_snprintf_loop n (c # f) args st =
     (if c \<noteq> CHR ''%'' then vt_snprintf_loop n f args (fmt_putc n st c)
      else case next_conv f of
        None \<Rightarrow> None
      | Some (k, r) \<Rightarrow>
          (case (k, args) of
             (CPct, _) \<Rightarrow> vt_snprintf_loop n r args (fmt_putc n st (CHR ''%''))
           | (CS, AStr s # as) \<Rightarrow> vt_snprintf_loop n r as (fmt_puts n st s)
           | (CD, AInt v # as) \<Rightarrow> vt_snprintf_loop n r as (fmt_i64 n st (scast v))
           | (CG, AG t # as) \<Rightarrow> vt_snprintf_loop n r as (fmt_puts n st (Some t))
           | (CLld, ALld v # as) \<Rightarrow> vt_snprintf_loop n r as (fmt_i64 n st v)
           | (CLlu, ALlu v # as) \<Rightarrow> vt_snprintf_loop n r as (fmt_u64 n st v)
           | (CLl, _) \<Rightarrow> vt_snprintf_loop n r args st
           | (CRaw d, _) \<Rightarrow> vt_snprintf_loop n r args (fmt_putc n (fmt_putc n st (CHR ''%'')) d)
           | _ \<Rightarrow> None))"

definition vt_snprintf :: "char list \<Rightarrow> string \<Rightarrow> fmt_arg list \<Rightarrow> (char list \<times> nat) option" where
  "vt_snprintf buf fmt args =
     (case vt_snprintf_loop (length buf) fmt args (buf, 0) of
        None \<Rightarrow> None
      | Some (b, pos) \<Rightarrow>
          Some (if length buf > 0
                then b[(if pos < length buf then pos else length buf - 1) := CHR 0x00] else b, pos))"

text \<open>The C string a buffer holds, and the message a fixed local buffer receives.\<close>

definition c_str :: "char list \<Rightarrow> string" where
  "c_str b = takeWhile (\<lambda>c. c \<noteq> CHR 0x00) b"

definition fmt_msg :: "nat \<Rightarrow> string \<Rightarrow> fmt_arg list \<Rightarrow> string" where
  "fmt_msg n fmt args =
     (case vt_snprintf (replicate n (CHR 0x00)) fmt args of Some (b, _) \<Rightarrow> c_str b | None \<Rightarrow> [])"

text \<open>\<open>vt_panic_c\<close>: the line that reaches stderr before exit 101.\<close>

definition vt_panic_c :: "string \<Rightarrow> 32 word \<Rightarrow> string \<Rightarrow> string" where
  "vt_panic_c file line msg =
     fmt_msg 256 ''%s:%d: panic: %s\<newline>'' [AStr (Some file), AInt line, AStr (Some msg)]"

definition vt_panic :: "string \<Rightarrow> 32 word \<Rightarrow> string option \<Rightarrow> string" where
  "vt_panic file line msg = vt_panic_c file line (case msg of Some d \<Rightarrow> c_str d | None \<Rightarrow> ''(null)'')"

definition quoted :: "string \<Rightarrow> string" where
  "quoted s = CHR 0x27 # s @ [CHR 0x27]"

definition vt_overflow :: "string \<Rightarrow> rt_err" where
  "vt_overflow op = Panic (fmt_msg 64 (''integer overflow in '' @ quoted ''%s'') [AStr (Some op)])"

definition vt_div_zero :: "string \<Rightarrow> rt_err" where
  "vt_div_zero op = Panic (fmt_msg 64 (''division by zero in '' @ quoted ''%s'') [AStr (Some op)])"

definition vt_bad_shift :: "i64 \<Rightarrow> 32 word \<Rightarrow> rt_err" where
  "vt_bad_shift b bits =
     Panic (fmt_msg 64 ''shift amount %lld out of range [0, %d)'' [ALld b, AInt bits])"

definition vt_ck_enum :: "i64 \<Rightarrow> string \<Rightarrow> rt_err" where
  "vt_ck_enum v ename =
     Panic (fmt_msg 96 (''%lld is not a variant of enum '' @ quoted ''%s'') [ALld v, AStr (Some ename)])"

definition enum_echo_char :: "char \<Rightarrow> char" where
  "enum_echo_char c =
     (if of_char c < (0x20 :: nat) \<or> of_char c = (0x7f :: nat) then CHR ''?'' else c)"

definition enum_echo :: "string option \<Rightarrow> string" where
  "enum_echo s = (case s of None \<Rightarrow> [] | Some d \<Rightarrow> map enum_echo_char (take 63 d))"

definition vt_enum_parse_fail :: "string option \<Rightarrow> string \<Rightarrow> rt_err" where
  "vt_enum_parse_fail s ename =
     Panic (fmt_msg 160 (CHR 0x22 # ''%s'' @ CHR 0x22 # '' is not a variant of enum '' @ quoted ''%s'')
              [AStr (Some (enum_echo s)), AStr (Some ename)])"

section \<open>What the formatter writes\<close>

text \<open>The reference rendering: the whole text a format stands for, with no buffer.\<close>

definition u64_text :: "u64 \<Rightarrow> string" where
  "u64_text v = (if v = 0 then ''0'' else rev (u64_tmp (unat v)))"

definition i64_text :: "i64 \<Rightarrow> string" where
  "i64_text v = (if sint v < 0 then CHR ''-'' # u64_text (- (v + 1) + 1) else u64_text v)"

definition conv_text :: "conv \<Rightarrow> fmt_arg list \<Rightarrow> (string \<times> fmt_arg list) option" where
  "conv_text k args =
     (case (k, args) of
        (CPct, _) \<Rightarrow> Some (''%'', args)
      | (CS, AStr s # as) \<Rightarrow> Some (case s of None \<Rightarrow> ''(null)'' | Some t \<Rightarrow> t, as)
      | (CD, AInt v # as) \<Rightarrow> Some (i64_text (scast v), as)
      | (CG, AG t # as) \<Rightarrow> Some (t, as)
      | (CLld, ALld v # as) \<Rightarrow> Some (i64_text v, as)
      | (CLlu, ALlu v # as) \<Rightarrow> Some (u64_text v, as)
      | (CLl, _) \<Rightarrow> Some ([], args)
      | (CRaw d, _) \<Rightarrow> Some ([CHR ''%'', d], args)
      | _ \<Rightarrow> None)"

fun fmt_render :: "string \<Rightarrow> fmt_arg list \<Rightarrow> string option" where
  "fmt_render [] args = Some []"
| "fmt_render (c # f) args =
     (if c \<noteq> CHR ''%'' then map_option ((#) c) (fmt_render f args)
      else case next_conv f of
        None \<Rightarrow> None
      | Some (k, r) \<Rightarrow>
          (case conv_text k args of
             None \<Rightarrow> None
           | Some (t, as) \<Rightarrow> map_option ((@) t) (fmt_render r as)))"

lemma u64_tmp_0 [simp]: "u64_tmp 0 = []"
  by (simp add: u64_tmp.simps)

lemma fmt_u64_emits: "fmt_u64 n st v = foldl (fmt_putc n) st (u64_text v)"
  by (simp add: fmt_u64_def u64_text_def)

lemma fmt_i64_emits: "fmt_i64 n st v = foldl (fmt_putc n) st (i64_text v)"
  by (simp add: fmt_i64_def i64_text_def fmt_u64_emits)

lemma fmt_puts_emits:
  "fmt_puts n st s = foldl (fmt_putc n) st (case s of None \<Rightarrow> ''(null)'' | Some t \<Rightarrow> t)"
  by (simp add: fmt_puts_def)

lemmas fmt_emits = fmt_u64_emits fmt_i64_emits fmt_puts_emits

lemma vt_snprintf_loop_conv:
  "vt_snprintf_loop n (CHR ''%'' # f) args st =
     (case next_conv f of None \<Rightarrow> None
      | Some (k, r) \<Rightarrow>
          (case conv_text k args of None \<Rightarrow> None
           | Some (t, as) \<Rightarrow> vt_snprintf_loop n r as (foldl (fmt_putc n) st t)))"
  by (simp add: conv_text_def fmt_emits split: option.split prod.split conv.split list.split fmt_arg.split)

lemma vt_snprintf_loop_render:
  "vt_snprintf_loop n fmt args st = map_option (foldl (fmt_putc n) st) (fmt_render fmt args)"
proof (induction fmt args arbitrary: st rule: fmt_render.induct)
  case (2 c f args)
  show ?case
  proof (cases "c = CHR ''%''")
    case False
    with "2.IH"(1) show ?thesis
      by (cases "fmt_render f args") simp_all
  next
    case True
    have "vt_snprintf_loop n r as st' = map_option (foldl (fmt_putc n) st') (fmt_render r as)"
      if "next_conv f = Some (k, r)" and "conv_text k args = Some (t, as)" for k r t as st'
      using "2.IH"(2) that True by blast
    then show ?thesis
      unfolding True vt_snprintf_loop_conv
      by (simp add: option.map_comp comp_def split: option.split prod.split)
  qed
qed simp

section \<open>Buffer contents\<close>

lemma fmt_putc_foldl:
  assumes "length buf = n" "0 < n"
  shows "snd (foldl (fmt_putc n) (buf, 0) out) = length out"
    and "length (fst (foldl (fmt_putc n) (buf, 0) out)) = n"
    and "take (min (length out) (n - 1)) (fst (foldl (fmt_putc n) (buf, 0) out)) = take (n - 1) out"
proof (induction out rule: rev_induct)
  case (snoc c out)
  obtain b pos where st: "foldl (fmt_putc n) (buf, 0) out = (b, pos)" by force
  { case 1 show ?case using snoc(1) by (simp add: st) }
  { case 2 show ?case using snoc(2) by (simp add: st) }
  { case 3
    have pos: "pos = length out" and b: "length b = n"
      and tk: "take (min (length out) (n - 1)) b = take (n - 1) out"
      using snoc by (simp_all add: st)
    show ?case
    proof (cases "length out + 1 < n")
      case True
      then have "take (length out) b = out" using tk by simp
      with True b show ?thesis
        by (simp add: st pos min_def take_update_swap take_Suc_conv_app_nth)
    next
      case False
      then have "min (length out) (n - 1) = n - 1" by simp
      with False tk show ?thesis by (simp add: st pos min_def split: if_splits)
    qed }
qed (use assms in simp_all)

lemma vt_snprintf_contents:
  assumes "fmt_render fmt args = Some out" "0 < length buf"
  obtains b where "vt_snprintf buf fmt args = Some (b, length out)"
    and "length b = length buf"
    and "take (min (length out) (length buf - 1)) b = take (length buf - 1) out"
    and "b ! min (length out) (length buf - 1) = CHR 0x00"
proof -
  obtain b pos where st: "foldl (fmt_putc (length buf)) (buf, 0) out = (b, pos)" by force
  have pos: "pos = length out" and b: "length b = length buf"
    and tk: "take (min (length out) (length buf - 1)) b = take (length buf - 1) out"
    using fmt_putc_foldl [OF refl assms(2), of out] by (simp_all add: st)
  have nul: "(if pos < length buf then pos else length buf - 1) = min (length out) (length buf - 1)"
    using assms(2) unfolding pos by arith
  show thesis
  proof (rule that [of "b[min (length out) (length buf - 1) := CHR 0x00]"])
    show "vt_snprintf buf fmt args = Some (b[min (length out) (length buf - 1) := CHR 0x00], length out)"
      using assms nul by (simp add: vt_snprintf_def vt_snprintf_loop_render st pos [symmetric])
  qed (use assms(2) b tk in \<open>simp_all add: min_less_iff_disj\<close>)
qed

lemma c_str_append: "CHR 0x00 \<notin> set xs \<Longrightarrow> c_str (xs @ CHR 0x00 # ys) = xs"
  by (induction xs) (auto simp: c_str_def)

lemma c_str_terminated:
  assumes "k < length b" "b ! k = CHR 0x00" "CHR 0x00 \<notin> set (take k b)"
  shows "c_str b = take k b"
  using c_str_append [OF assms(3), of "drop (Suc k) b"] id_take_nth_drop [OF assms(1)] assms(2)
  by simp

lemma fmt_msg_render:
  assumes "fmt_render fmt args = Some out" "0 < n" "CHR 0x00 \<notin> set out"
  shows "fmt_msg n fmt args = take (n - 1) out"
proof -
  obtain b where b: "vt_snprintf (replicate n (CHR 0x00)) fmt args = Some (b, length out)"
      "length b = n" "take (min (length out) (n - 1)) b = take (n - 1) out"
      "b ! min (length out) (n - 1) = CHR 0x00"
    using vt_snprintf_contents [OF assms(1), of "replicate n (CHR 0x00)"] assms(2) by auto
  have "CHR 0x00 \<notin> set (take (min (length out) (n - 1)) b)"
    using assms(3) b(3) by (metis in_set_takeD)
  then have "c_str b = take (min (length out) (n - 1)) b"
    using b assms(2) by (intro c_str_terminated) auto
  then show ?thesis using b(1,3) by (simp add: fmt_msg_def)
qed

section \<open>Decimal text\<close>

definition digits_val :: "string \<Rightarrow> nat" where
  "digits_val s = foldl (\<lambda>a c. a * 10 + (of_char c - 48)) 0 s"

definition is_digit :: "char \<Rightarrow> bool" where
  "is_digit c \<longleftrightarrow> (48 :: nat) \<le> of_char c \<and> of_char c \<le> (57 :: nat)"

lemma digits_val_snoc: "digits_val (s @ [c]) = digits_val s * 10 + (of_char c - 48)"
  by (simp add: digits_val_def)

lemma of_char_digit [simp]: "d < 10 \<Longrightarrow> of_char (char_of (48 + d) :: char) = (48 + d :: nat)"
  by simp

lemma digits_val_u64_tmp: "digits_val (rev (u64_tmp v)) = v"
proof (induction v rule: u64_tmp.induct)
  case (1 v)
  then show ?case
    by (cases "v = 0") (simp_all add: u64_tmp.simps [of v] digits_val_snoc digits_val_def)
qed

lemma u64_tmp_digits: "\<forall>c \<in> set (u64_tmp v). is_digit c"
proof (induction v rule: u64_tmp.induct)
  case (1 v)
  then show ?case
    by (cases "v = 0") (auto simp: u64_tmp.simps [of v] is_digit_def)
qed

lemma u64_tmp_length: "v < 10 ^ k \<Longrightarrow> length (u64_tmp v) \<le> k"
proof (induction v arbitrary: k rule: u64_tmp.induct)
  case (1 v)
  show ?case
  proof (cases "v = 0")
    case False
    then obtain j where k: "k = Suc j" using 1(2) by (cases k) auto
    have "v div 10 < 10 ^ j" using 1(2) k by (simp add: less_mult_imp_div_less mult.commute)
    with 1(1) False have "length (u64_tmp (v div 10)) \<le> j" by blast
    with False k show ?thesis by (simp add: u64_tmp.simps [of v])
  qed simp
qed

lemma u64_tmp_ne: "v \<noteq> 0 \<Longrightarrow> u64_tmp v \<noteq> []"
  by (subst u64_tmp.simps) simp

lemma u64_text_digits: "u64_text v \<noteq> []" "\<forall>c \<in> set (u64_text v). is_digit c"
  using u64_tmp_digits [of "unat v"] u64_tmp_ne [of "unat v"]
  by (auto simp: u64_text_def is_digit_def unat_eq_zero)

lemma u64_text_val: "digits_val (u64_text v) = unat v"
  by (cases "v = 0") (simp_all add: u64_text_def digits_val_u64_tmp, simp add: digits_val_def)

text \<open>\<open>(uint64_t)(-(v + 1)) + 1\<close> is the magnitude of every negative \<open>v\<close>, \<open>INT64_MIN\<close> included.\<close>

lemma neg_magnitude:
  assumes "sint (v :: i64) < 0"
  shows "int (unat (- (v + 1) + 1)) = - sint v"
proof -
  have e: "- (v + 1) + 1 = - v" by simp
  show ?thesis unfolding e uint_nat [symmetric] by (rule uint_minus_neg [OF assms])
qed

lemma i64_text_cases:
  obtains (neg) "sint v < 0" "i64_text v = CHR ''-'' # u64_text (- v)" "int (unat (- v)) = - sint v"
  | (pos) "0 \<le> sint v" "i64_text v = u64_text v" "int (unat v) = sint v"
proof (cases "sint v < 0")
  case True
  then show thesis using neg_magnitude [OF True] neg by (simp add: i64_text_def)
next
  case False
  then have "int (unat v) = sint v" by (simp only: uint_nat [symmetric] uint_of_nonneg)
  with False show thesis using pos by (simp add: i64_text_def)
qed

section \<open>Properties\<close>



text \<open>A panic message built from an untrusted name by \<open>vt_enum_parse_fail\<close> echoes at most 63
  bytes of it and no control character.\<close>

theorem enum_echo_clean:
  "length (enum_echo s) \<le> 63 \<and>
   list_all (\<lambda>c. 0x20 \<le> (of_char c :: nat) \<and> of_char c \<noteq> (0x7f :: nat)) (enum_echo s)"
  by (auto simp: enum_echo_def enum_echo_char_def list_all_iff split: option.split)

end
