(* ===== verification/Vt_Num.thy ===== *)
theory Vt_Num
  imports Vt_Fmt
begin

text \<open>
  Checked integer arithmetic of debug builds (\<open>vt_ck_*\<close> in \<open>runtime/vyto_rt.c\<close>) and
  the integer methods (\<open>runtime/vyto_rt_num.c\<close>). Both variants of the overflow test
  are modelled: the compiler builtins and the portable sign tests of the \<open>#else\<close>
  branch. A C division whose behaviour is undefined (zero divisor,
  \<open>INT64_MIN / -1\<close>) is \<open>None\<close>.
\<close>

section \<open>Checked arithmetic\<close>

text \<open>\<open>__builtin_add_overflow(a, b, &r)\<close> and its kin: the wrapped result and whether the
  exact result did not fit.\<close>

definition builtin_overflow :: "int \<Rightarrow> i64 \<Rightarrow> bool \<times> i64" where
  "builtin_overflow exact r = (sint r \<noteq> exact, r)"

definition builtin_add_overflow :: "i64 \<Rightarrow> i64 \<Rightarrow> bool \<times> i64" where
  "builtin_add_overflow a b = builtin_overflow (sint a + sint b) (a + b)"

definition builtin_sub_overflow :: "i64 \<Rightarrow> i64 \<Rightarrow> bool \<times> i64" where
  "builtin_sub_overflow a b = builtin_overflow (sint a - sint b) (a - b)"

definition builtin_mul_overflow :: "i64 \<Rightarrow> i64 \<Rightarrow> bool \<times> i64" where
  "builtin_mul_overflow a b = builtin_overflow (sint a * sint b) (a * b)"

text \<open>C's signed division and remainder on \<open>int64_t\<close>: truncation towards zero, undefined
  on a zero divisor and on \<open>INT64_MIN / -1\<close>.\<close>

definition c_div :: "i64 \<Rightarrow> i64 \<Rightarrow> i64 option" where
  "c_div a b = (if b = 0 \<or> (a = INT64_MIN \<and> b = - 1) then None
                else Some (word_of_int (sint a sdiv sint b)))"

definition c_mod :: "i64 \<Rightarrow> i64 \<Rightarrow> i64 option" where
  "c_mod a b = (if b = 0 \<or> (a = INT64_MIN \<and> b = - 1) then None
                else Some (word_of_int (sint a smod sint b)))"

text \<open>The portable tests.\<close>

definition portable_add_overflow :: "i64 \<Rightarrow> i64 \<Rightarrow> bool \<times> i64" where
  "portable_add_overflow a b =
     (let r = a + b in (sint ((a XOR r) AND (b XOR r)) < 0, r))"

definition portable_sub_overflow :: "i64 \<Rightarrow> i64 \<Rightarrow> bool \<times> i64" where
  "portable_sub_overflow a b =
     (let r = a - b in (sint ((a XOR b) AND (a XOR r)) < 0, r))"

definition portable_mul_overflow :: "i64 \<Rightarrow> i64 \<Rightarrow> (bool \<times> i64) option" where
  "portable_mul_overflow a b =
     (let r = a * b in
      if a \<noteq> 0 then
        (case c_div r a of
           None \<Rightarrow> None
         | Some q \<Rightarrow> Some (q \<noteq> b \<or> (a = - 1 \<and> b = INT64_MIN), r))
      else Some (False, r))"

definition in_range :: "i64 \<Rightarrow> i64 \<Rightarrow> i64 \<Rightarrow> bool" where
  "in_range lo hi r \<longleftrightarrow> \<not> (sint r < sint lo \<or> sint r > sint hi)"

definition vt_ck_add :: "i64 \<Rightarrow> i64 \<Rightarrow> i64 \<Rightarrow> i64 \<Rightarrow> i64 res" where
  "vt_ck_add a b lo hi =
     (let (ovf, r) = builtin_add_overflow a b
      in if ovf \<or> \<not> in_range lo hi r then Inl (vt_overflow ''+'') else Inr r)"

definition vt_ck_sub :: "i64 \<Rightarrow> i64 \<Rightarrow> i64 \<Rightarrow> i64 \<Rightarrow> i64 res" where
  "vt_ck_sub a b lo hi =
     (let (ovf, r) = builtin_sub_overflow a b
      in if ovf \<or> \<not> in_range lo hi r then Inl (vt_overflow ''-'') else Inr r)"

definition vt_ck_mul :: "i64 \<Rightarrow> i64 \<Rightarrow> i64 \<Rightarrow> i64 \<Rightarrow> i64 res" where
  "vt_ck_mul a b lo hi =
     (let (ovf, r) = builtin_mul_overflow a b
      in if ovf \<or> \<not> in_range lo hi r then Inl (vt_overflow ''*'') else Inr r)"

definition vt_ck_neg :: "i64 \<Rightarrow> i64 \<Rightarrow> i64 \<Rightarrow> i64 res" where
  "vt_ck_neg a lo hi =
     (if a = INT64_MIN then Inl (vt_overflow ''-'')
      else let r = - a in if \<not> in_range lo hi r then Inl (vt_overflow ''-'') else Inr r)"

text \<open>In \<open>vt_ck_div\<close> and \<open>vt_ck_mod\<close> the guards run before the C operator, so an
  undefined division would show as the remaining \<open>None\<close> branch.\<close>

definition vt_ck_div :: "i64 \<Rightarrow> i64 \<Rightarrow> i64 \<Rightarrow> i64 \<Rightarrow> i64 res option" where
  "vt_ck_div a b lo hi =
     (if b = 0 then Some (Inl (vt_div_zero ''/''))
      else if b = - 1 \<and> a = INT64_MIN then Some (Inl (vt_overflow ''/''))
      else map_option (\<lambda>r. if \<not> in_range lo hi r then Inl (vt_overflow ''/'') else Inr r) (c_div a b))"

definition vt_ck_mod :: "i64 \<Rightarrow> i64 \<Rightarrow> i64 res option" where
  "vt_ck_mod a b =
     (if b = 0 then Some (Inl (vt_div_zero ''%''))
      else if b = - 1 then Some (Inr 0)
      else map_option Inr (c_mod a b))"

definition vt_ck_udiv :: "u64 \<Rightarrow> u64 \<Rightarrow> u64 res" where
  "vt_ck_udiv a b = (if b = 0 then Inl (vt_div_zero ''/'') else Inr (a div b))"

definition vt_ck_umod :: "u64 \<Rightarrow> u64 \<Rightarrow> u64 res" where
  "vt_ck_umod a b = (if b = 0 then Inl (vt_div_zero ''%'') else Inr (a mod b))"

definition vt_ck_shl :: "i64 \<Rightarrow> i64 \<Rightarrow> 32 word \<Rightarrow> i64 res" where
  "vt_ck_shl a b bits =
     (if sint b < 0 \<or> sint b \<ge> sint bits then Inl (vt_bad_shift b bits)
      else Inr (push_bit (unat b) a))"

definition vt_ck_shr :: "i64 \<Rightarrow> i64 \<Rightarrow> 32 word \<Rightarrow> i64 res" where
  "vt_ck_shr a b bits =
     (if sint b < 0 \<or> sint b \<ge> sint bits then Inl (vt_bad_shift b bits)
      else Inr (signed_drop_bit (unat b) a))"

definition vt_ck_shru :: "u64 \<Rightarrow> i64 \<Rightarrow> 32 word \<Rightarrow> u64 res" where
  "vt_ck_shru a b bits =
     (if sint b < 0 \<or> sint b \<ge> sint bits then Inl (vt_bad_shift b bits)
      else Inr (drop_bit (unat b) a))"

section \<open>Integer methods\<close>

definition vt_int_abs :: "i64 \<Rightarrow> i64 res" where
  "vt_int_abs x =
     (if x = INT64_MIN then Inl (Panic (''integer overflow in '' @ quoted ''abs''))
      else Inr (if sint x < 0 then - x else x))"

definition vt_int_min :: "i64 \<Rightarrow> i64 \<Rightarrow> i64" where
  "vt_int_min a b = (if sint a < sint b then a else b)"

definition vt_int_max :: "i64 \<Rightarrow> i64 \<Rightarrow> i64" where
  "vt_int_max a b = (if sint a > sint b then a else b)"

definition vt_int_clamp :: "i64 \<Rightarrow> i64 \<Rightarrow> i64 \<Rightarrow> i64" where
  "vt_int_clamp x lo hi =
     (let (lo, hi) = (if sint lo > sint hi then (hi, lo) else (lo, hi))
      in if sint x < sint lo then lo else if sint x > sint hi then hi else x)"

definition vt_int_sign :: "i64 \<Rightarrow> i64" where
  "vt_int_sign x = (if sint x > 0 then 1 else 0) - (if sint x < 0 then 1 else 0)"

definition int_pow_mul :: "i64 \<Rightarrow> i64 \<Rightarrow> i64 res" where
  "int_pow_mul a b =
     (let (ovf, r) = builtin_mul_overflow a b
      in if ovf then Inl (Panic (''integer overflow in '' @ quoted ''pow'')) else Inr r)"

text \<open>The \<open>while (exp)\<close> loop of \<open>vt_int_pow\<close>. The exponent is not negative here, so it is
  held as a natural number; \<open>exp >>= 1\<close> halves it.\<close>

function vt_int_pow_loop :: "i64 \<Rightarrow> i64 \<Rightarrow> nat \<Rightarrow> i64 res" where
  "vt_int_pow_loop r base e =
     (if e = 0 then Inr r
      else bind_res (if odd e then int_pow_mul r base else Inr r) (\<lambda>r'.
           let e' = e div 2 in
           if e' = 0 then vt_int_pow_loop r' base e'
           else bind_res (int_pow_mul base base) (\<lambda>base'. vt_int_pow_loop r' base' e')))"
  by pat_completeness auto
termination
  by (relation "measure (\<lambda>(r, base, e). e)") auto

declare vt_int_pow_loop.simps [simp del]

definition vt_int_pow :: "i64 \<Rightarrow> i64 \<Rightarrow> i64 res" where
  "vt_int_pow base e = (if sint e < 0 then Inr 0 else vt_int_pow_loop 1 base (unat e))"

text \<open>The unsigned Euclidean loop of \<open>vt_int_gcd\<close>.\<close>

function vt_int_gcd_loop :: "u64 \<Rightarrow> u64 \<Rightarrow> u64" where
  "vt_int_gcd_loop ua ub = (if ub \<noteq> 0 then vt_int_gcd_loop ub (ua mod ub) else ua)"
  by pat_completeness auto
termination
  by (relation "measure (\<lambda>(ua, ub). unat ub)")
    (auto simp: unat_mod_distrib unat_gt_0 intro!: mod_less_divisor)

declare vt_int_gcd_loop.simps [simp del]

definition u64_magnitude :: "i64 \<Rightarrow> u64" where
  "u64_magnitude a = (if sint a < 0 then - (a + 1) + 1 else a)"

definition vt_int_gcd :: "i64 \<Rightarrow> i64 \<Rightarrow> i64 res" where
  "vt_int_gcd a b =
     (let g = vt_int_gcd_loop (u64_magnitude a) (u64_magnitude b)
      in if g > INT64_MAX then Inl (Panic (''integer overflow in '' @ quoted ''gcd'')) else Inr g)"

section \<open>The two overflow tests agree\<close>

lemma sint_and_xor_neg:
  "sint ((x XOR y) AND (z XOR w) :: i64) < 0 \<longleftrightarrow>
     ((sint x < 0) \<noteq> (sint y < 0)) \<and> ((sint z < 0) \<noteq> (sint w < 0))"
  by (simp add: sign_bit64 [symmetric] bit_simps)

lemma portable_add_eq: "portable_add_overflow a b = builtin_add_overflow a b"
proof -
  let ?s = "sint a + sint b"
  have bounds: "- 18446744073709551616 \<le> ?s" "?s \<le> 18446744073709551614"
    using sint_lower64 [of a] sint_lower64 [of b] sint_upper64 [of a] sint_upper64 [of b] by linarith+
  have "sint ((a XOR (a + b)) AND (b XOR (a + b))) < 0 \<longleftrightarrow> sint (a + b) \<noteq> ?s"
  proof (cases "- 9223372036854775808 \<le> ?s \<and> ?s \<le> 9223372036854775807")
    case True
    then have "sint (a + b) = ?s" by (simp add: sint_add64 stb63_in_range)
    then show ?thesis unfolding sint_and_xor_neg by auto
  next
    case False
    then consider "9223372036854775808 \<le> ?s" | "?s < - 9223372036854775808" by linarith
    then show ?thesis
    proof cases
      case 1
      then have r: "sint (a + b) = ?s - 18446744073709551616"
        unfolding sint_add64 using bounds by (intro stb63_above) linarith+
      show ?thesis unfolding sint_and_xor_neg r
        using 1 sint_upper64 [of a] sint_upper64 [of b] by auto
    next
      case 2
      then have r: "sint (a + b) = ?s + 18446744073709551616"
        unfolding sint_add64 using bounds by (intro stb63_below) linarith+
      show ?thesis unfolding sint_and_xor_neg r
        using 2 sint_lower64 [of a] sint_lower64 [of b] by auto
    qed
  qed
  then show ?thesis
    by (simp add: portable_add_overflow_def builtin_add_overflow_def builtin_overflow_def Let_def)
qed

lemma portable_sub_eq: "portable_sub_overflow a b = builtin_sub_overflow a b"
proof -
  let ?s = "sint a - sint b"
  have bounds: "- 18446744073709551616 \<le> ?s" "?s \<le> 18446744073709551615"
    using sint_lower64 [of a] sint_lower64 [of b] sint_upper64 [of a] sint_upper64 [of b] by linarith+
  have "sint ((a XOR b) AND (a XOR (a - b))) < 0 \<longleftrightarrow> sint (a - b) \<noteq> ?s"
  proof (cases "- 9223372036854775808 \<le> ?s \<and> ?s \<le> 9223372036854775807")
    case True
    then have "sint (a - b) = ?s" by (simp add: sint_sub64 stb63_in_range)
    then show ?thesis unfolding sint_and_xor_neg by auto
  next
    case False
    then consider "9223372036854775808 \<le> ?s" | "?s < - 9223372036854775808" by linarith
    then show ?thesis
    proof cases
      case 1
      then have r: "sint (a - b) = ?s - 18446744073709551616"
        unfolding sint_sub64 using bounds by (intro stb63_above) linarith+
      show ?thesis unfolding sint_and_xor_neg r
        using 1 sint_upper64 [of a] sint_lower64 [of b] by auto
    next
      case 2
      then have r: "sint (a - b) = ?s + 18446744073709551616"
        unfolding sint_sub64 using bounds by (intro stb63_below) linarith+
      show ?thesis unfolding sint_and_xor_neg r
        using 2 sint_lower64 [of a] sint_upper64 [of b] by auto
    qed
  qed
  then show ?thesis
    by (simp add: portable_sub_overflow_def builtin_sub_overflow_def builtin_overflow_def Let_def)
qed

lemma dvd_small_zero: "(d :: int) dvd m \<Longrightarrow> \<bar>m\<bar> < \<bar>d\<bar> \<Longrightarrow> m = 0"
  by (metis abs_dvd_iff dvd_abs_iff abs_ge_zero abs_eq_0 zdvd_not_zless order_le_less)

lemma sdiv_decomp:
  fixes n d :: int
  assumes "d \<noteq> 0"
  obtains m where "n = d * (n sdiv d) + m" and "\<bar>m\<bar> < \<bar>d\<bar>"
proof
  show "n = d * (n sdiv d) + n smod d" by (simp add: mult_sdiv_smod_eq)
  show "\<bar>n smod d\<bar> < \<bar>d\<bar>" using smod_int_range [OF assms, of n] by auto
qed

lemma sdiv_mult_self: "(d :: int) \<noteq> 0 \<Longrightarrow> (d * k) sdiv d = k"
  by (rule sdiv_decomp [of d "d * k"], assumption)
    (metis add_diff_cancel_left' dvd_diff dvd_small_zero dvd_triv_left mult_left_cancel right_minus_eq)

lemma stb63_cong: "18446744073709551616 dvd signed_take_bit 63 (x :: int) - x"
proof -
  have "take_bit 64 (signed_take_bit 63 x) = take_bit 64 x"
    by (simp add: take_bit_signed_take_bit)
  then show ?thesis
    by (simp add: take_bit_eq_mod mod_eq_dvd_iff)
qed

lemma sint_eq_m1: "sint (b :: i64) = - 1 \<longleftrightarrow> b = - 1"
  by (metis signed_word_eqI sint_n1)

lemma sint_eq_min: "sint (b :: i64) = - 9223372036854775808 \<longleftrightarrow> b = INT64_MIN"
proof -
  have "sint INT64_MIN = - 9223372036854775808" by simp
  then show ?thesis by (metis signed_word_eqI)
qed

lemma sint_eq_0: "sint (b :: i64) = 0 \<longleftrightarrow> b = 0"
  by (metis signed_word_eqI signed_0)

lemma sdiv_fits:
  assumes "(b :: i64) \<noteq> 0" "\<not> (a = INT64_MIN \<and> b = - 1)"
  shows "sint (word_of_int (sint a sdiv sint b) :: i64) = sint a sdiv sint b"
proof -
  let ?q = "sint a sdiv sint b"
  have q: "- \<bar>sint a\<bar> \<le> ?q" "?q \<le> \<bar>sint a\<bar>" using sdiv_int_range [of "sint a" "sint b"] by auto
  have "?q \<noteq> 9223372036854775808" if "sint a = - 9223372036854775808"
  proof -
    have "sint b \<noteq> - 1" using that assms(2) sint_eq_m1 sint_eq_min by blast
    then show ?thesis using that int_sdiv_negated_is_minus1 [of "sint a" "sint b"] by simp
  qed
  then have "- 9223372036854775808 \<le> ?q \<and> ?q \<le> 9223372036854775807"
    using q sint_lower64 [of a] sint_upper64 [of a] by linarith
  then show ?thesis by (simp only: sint_of_int_eq_iff)
qed

lemma c_div_Some:
  assumes "b \<noteq> 0" "\<not> (a = INT64_MIN \<and> b = - 1)"
  obtains q where "c_div a b = Some q" and "sint q = sint a sdiv sint b"
  using sdiv_fits [OF assms] assms by (auto simp: c_div_def)

lemma portable_mul_eq:
  assumes "\<not> (a = - 1 \<and> b = INT64_MIN)"
  shows "portable_mul_overflow a b = Some (builtin_mul_overflow a b)"
proof (cases "a = 0")
  case False
  have "- INT64_MIN = INT64_MIN" by simp
  then have guard: "\<not> (a * b = INT64_MIN \<and> a = - 1)"
    using assms by (metis minus_minus mult_minus1)
  obtain q where q: "c_div (a * b) a = Some q" "sint q = sint (a * b) sdiv sint a"
    by (rule c_div_Some [OF False guard])
  have sa: "sint a \<noteq> 0" using False by (simp add: sint_eq_0)
  have "q = b \<longleftrightarrow> sint (a * b) = sint a * sint b"
  proof
    assume "sint (a * b) = sint a * sint b"
    then have "sint q = sint b" using q(2) sa by (simp add: sdiv_mult_self)
    then show "q = b" by (rule signed_word_eqI)
  next
    assume "q = b"
    then have b: "sint b = sint (a * b) sdiv sint a" using q(2) by simp
    obtain m where m: "sint (a * b) = sint a * sint b + m" "\<bar>m\<bar> < \<bar>sint a\<bar>"
      by (rule sdiv_decomp [OF sa, of "sint (a * b)"]) (simp add: b)
    have "18446744073709551616 dvd sint (a * b) - sint a * sint b"
      unfolding sint_mul64 by (rule stb63_cong)
    then have "18446744073709551616 dvd m" using m(1) by simp
    moreover have "\<bar>m\<bar> < \<bar>18446744073709551616\<bar>"
      using m(2) sint_lower64 [of a] sint_upper64 [of a] by linarith
    ultimately have "m = 0" by (rule dvd_small_zero)
    then show "sint (a * b) = sint a * sint b" using m(1) by simp
  qed
  then show ?thesis
    using False assms q(1)
    by (auto simp: portable_mul_overflow_def builtin_mul_overflow_def builtin_overflow_def Let_def)
qed (simp add: portable_mul_overflow_def builtin_mul_overflow_def builtin_overflow_def)

section \<open>The checked operators are exact or panic\<close>

text \<open>The contract every checked operator has: within the target range the exact result,
  outside it the panic.\<close>

definition exact_or_panic :: "rt_err \<Rightarrow> int \<Rightarrow> i64 \<Rightarrow> i64 \<Rightarrow> i64 res \<Rightarrow> bool" where
  "exact_or_panic e x lo hi res \<longleftrightarrow>
     (if sint lo \<le> x \<and> x \<le> sint hi then \<exists>r. res = Inr r \<and> sint r = x else res = Inl e)"

lemma builtin_exact_or_panic:
  assumes "sint r = signed_take_bit 63 x"
  shows "exact_or_panic e x lo hi
    (let (ovf, r) = builtin_overflow x r in if ovf \<or> \<not> in_range lo hi r then Inl e else Inr r)"
proof (cases "- 9223372036854775808 \<le> x \<and> x \<le> 9223372036854775807")
  case True
  then have "sint r = x" using assms by (simp add: stb63_in_range)
  then show ?thesis
    by (auto simp: exact_or_panic_def builtin_overflow_def in_range_def)
next
  case False
  then have "sint r \<noteq> x" using sint_lower64 [of r] sint_upper64 [of r] by linarith
  moreover have "\<not> (sint lo \<le> x \<and> x \<le> sint hi)"
    using False sint_lower64 [of lo] sint_upper64 [of hi] by linarith
  ultimately show ?thesis
    by (simp add: exact_or_panic_def builtin_overflow_def)
qed

lemma vt_ck_add_exact: "exact_or_panic (vt_overflow ''+'') (sint a + sint b) lo hi (vt_ck_add a b lo hi)"
  unfolding vt_ck_add_def builtin_add_overflow_def by (rule builtin_exact_or_panic) (rule sint_add64)

lemma vt_ck_sub_exact: "exact_or_panic (vt_overflow ''-'') (sint a - sint b) lo hi (vt_ck_sub a b lo hi)"
  unfolding vt_ck_sub_def builtin_sub_overflow_def by (rule builtin_exact_or_panic) (rule sint_sub64)

lemma vt_ck_mul_exact: "exact_or_panic (vt_overflow ''*'') (sint a * sint b) lo hi (vt_ck_mul a b lo hi)"
  unfolding vt_ck_mul_def builtin_mul_overflow_def by (rule builtin_exact_or_panic) (rule sint_mul64)

lemma sint_minus64: "a \<noteq> INT64_MIN \<Longrightarrow> sint (- a :: i64) = - sint a"
proof -
  assume "a \<noteq> INT64_MIN"
  then have "- 9223372036854775807 \<le> sint a"
    using sint_eq_min [of a] sint_lower64 [of a] by linarith
  then show ?thesis
    using sint_upper64 [of a] by (simp add: sint_word_ariths(4) stb63_in_range)
qed

lemma vt_ck_neg_exact: "exact_or_panic (vt_overflow ''-'') (- sint a) lo hi (vt_ck_neg a lo hi)"
proof (cases "a = INT64_MIN")
  case True
  then show ?thesis
    using sint_upper64 [of hi] by (auto simp: vt_ck_neg_def exact_or_panic_def)
next
  case False
  then show ?thesis
    using sint_minus64 [OF False] by (auto simp: vt_ck_neg_def exact_or_panic_def in_range_def)
qed

lemma vt_ck_div_exact:
  "b \<noteq> 0 \<Longrightarrow> \<exists>res. vt_ck_div a b lo hi = Some res \<and>
     exact_or_panic (vt_overflow ''/'') (sint a sdiv sint b) lo hi res"
proof -
  assume b: "b \<noteq> 0"
  show ?thesis
  proof (cases "a = INT64_MIN \<and> b = - 1")
    case True
    then show ?thesis
      using sint_upper64 [of hi]
      by (auto simp: vt_ck_div_def exact_or_panic_def signed_divide_int_def)
  next
    case False
    obtain q where "c_div a b = Some q" "sint q = sint a sdiv sint b" by (rule c_div_Some [OF b False])
    then show ?thesis
      using b False by (auto simp: vt_ck_div_def exact_or_panic_def in_range_def)
  qed
qed

lemma vt_ck_mod_exact:
  "b \<noteq> 0 \<Longrightarrow> \<exists>r. vt_ck_mod a b = Some (Inr r) \<and> sint r = sint a smod sint b"
proof -
  assume b: "b \<noteq> 0"
  have "sint b \<noteq> 0" using b by (simp add: sint_eq_0)
  then have m: "- \<bar>sint b\<bar> + 1 \<le> sint a smod sint b" "sint a smod sint b \<le> \<bar>sint b\<bar> - 1"
    using smod_int_range [of "sint b" "sint a"] by auto
  have "sint (word_of_int (sint a smod sint b) :: i64) = sint a smod sint b"
    unfolding sint_of_int_eq_iff using m sint_lower64 [of b] sint_upper64 [of b] by linarith
  moreover have "sint a smod sint b = 0" if "b = - 1"
    using that by (simp add: signed_modulo_int_def)
  ultimately show ?thesis
    using b by (auto simp: vt_ck_mod_def c_mod_def)
qed

section \<open>Exponentiation by squaring\<close>

definition fits64 :: "int \<Rightarrow> bool" where
  "fits64 x \<longleftrightarrow> - 9223372036854775808 \<le> x \<and> x \<le> 9223372036854775807"

abbreviation pow_panic :: rt_err where
  "pow_panic \<equiv> Panic (''integer overflow in '' @ quoted ''pow'')"

text \<open>Exact when the value fits 64 bits, the panic otherwise.\<close>

definition pow_result :: "int \<Rightarrow> i64 res \<Rightarrow> bool" where
  "pow_result x res \<longleftrightarrow> (if fits64 x then \<exists>r. res = Inr r \<and> sint r = x else res = Inl pow_panic)"

lemma int_pow_mul_result: "pow_result (sint a * sint b) (int_pow_mul a b)"
proof (cases "fits64 (sint a * sint b)")
  case True
  then have "sint (a * b) = sint a * sint b"
    by (simp add: sint_mul64 stb63_in_range fits64_def)
  with True show ?thesis
    by (simp add: pow_result_def int_pow_mul_def builtin_mul_overflow_def builtin_overflow_def)
next
  case False
  then have "sint (a * b) \<noteq> sint a * sint b"
    using sint_lower64 [of "a * b"] sint_upper64 [of "a * b"] by (auto simp: fits64_def)
  with False show ?thesis
    by (simp add: pow_result_def int_pow_mul_def builtin_mul_overflow_def builtin_overflow_def)
qed

lemma scaled_not_fits:
  assumes x: "\<not> fits64 x" and k: "1 \<le> k"
  shows "\<not> fits64 (x * k)"
proof (cases "0 \<le> x")
  case True
  then have "x \<le> x * k" using k mult_left_mono [of 1 k x] by simp
  then show ?thesis using x True unfolding fits64_def by linarith
next
  case False
  then have "x * k \<le> x" using k mult_left_mono_neg [of 1 k x] by simp
  then show ?thesis using x False unfolding fits64_def by linarith
qed

text \<open>No square lies exactly on the asymmetric bound \<open>2 ^ 63\<close>.\<close>

lemma square_not_fits:
  assumes "\<not> fits64 (b * b)"
  shows "9223372036854775808 < b * b"
proof -
  have sq: "b * b = \<bar>b\<bar> * \<bar>b\<bar>" by simp
  have "\<not> \<bar>b\<bar> \<le> 3037000499"
  proof
    assume "\<bar>b\<bar> \<le> 3037000499"
    then have "\<bar>b\<bar> * \<bar>b\<bar> \<le> 3037000499 * 3037000499" by (intro mult_mono) auto
    then have "b * b \<le> 9223372030926249001" unfolding sq by simp
    then show False using assms zero_le_square [of b] unfolding fits64_def by linarith
  qed
  then have "3037000500 \<le> \<bar>b\<bar>" by linarith
  then have "3037000500 * 3037000500 \<le> \<bar>b\<bar> * \<bar>b\<bar>" by (intro mult_mono) auto
  then show ?thesis unfolding sq by simp
qed

lemma one_le_square_power: "b \<noteq> 0 \<Longrightarrow> 1 \<le> (b * b :: int) ^ n"
proof -
  assume "b \<noteq> 0"
  then have "0 < b * b" using zero_less_mult_iff [of b b] by auto
  then show ?thesis by (intro one_le_power) simp
qed

lemma big_power_not_fits:
  assumes "9223372036854775808 < s" "x \<noteq> 0" "0 < n"
  shows "\<not> fits64 (x * s ^ n)"
proof -
  have "s \<le> s ^ n" using assms by (intro self_le_power) auto
  also have "\<dots> \<le> \<bar>x\<bar> * s ^ n"
    using mult_right_mono [of 1 "\<bar>x\<bar>" "s ^ n"] assms by simp
  also have "\<dots> = \<bar>x * s ^ n\<bar>" using assms by (simp add: abs_mult)
  finally show ?thesis using assms(1) unfolding fits64_def by linarith
qed

lemma vt_int_pow_loop_0 [simp]: "vt_int_pow_loop r base 0 = Inr r"
  by (simp add: vt_int_pow_loop.simps)

lemma power_split: "(b :: int) ^ e = (if odd e then b else 1) * (b * b) ^ (e div 2)"
proof -
  have "b ^ e = b ^ (e mod 2 + 2 * (e div 2))" by simp
  also have "\<dots> = b ^ (e mod 2) * (b * b) ^ (e div 2)"
    by (simp only: power_add power_mult power2_eq_square)
  finally show ?thesis by (simp add: odd_iff_mod_2_eq_one)
qed

lemma vt_int_pow_loop_result:
  assumes "sint r = 0 \<Longrightarrow> sint base = 0"
  shows "pow_result (sint r * sint base ^ e) (vt_int_pow_loop r base e)"
  using assms
proof (induction r base e rule: vt_int_pow_loop.induct)
  case (1 r base e)
  let ?R = "sint r" and ?B = "sint base"
  let ?m = "if odd e then int_pow_mul r base else Inr r"
  let ?R' = "if odd e then ?R * ?B else ?R"
  note unfold = vt_int_pow_loop.simps [of r base e]
  show ?case
  proof (cases "e = 0")
    case True
    then show ?thesis
      using sint_lower64 [of r] sint_upper64 [of r] by (simp add: unfold pow_result_def fits64_def)
  next
    case e: False
    have split: "?R * ?B ^ e = ?R' * (?B * ?B) ^ (e div 2)"
      unfolding power_split [of ?B e] by simp
    have m: "pow_result ?R' ?m"
      using int_pow_mul_result [of r base] sint_lower64 [of r] sint_upper64 [of r]
      by (auto simp: pow_result_def fits64_def)
    show ?thesis
    proof (cases "fits64 ?R'")
      case False
      have "?B \<noteq> 0" using False sint_lower64 [of r] sint_upper64 [of r]
        by (auto simp: fits64_def split: if_splits)
      then have "\<not> fits64 (?R * ?B ^ e)"
        unfolding split using False by (intro scaled_not_fits one_le_square_power)
      moreover have "?m = Inl pow_panic" using m False by (simp add: pow_result_def)
      ultimately show ?thesis using e by (simp add: unfold pow_result_def del: if_split)
    next
      case True
      then obtain r' where r': "?m = Inr r'" "sint r' = ?R'" using m by (auto simp: pow_result_def)
      show ?thesis
      proof (cases "e div 2 = 0")
        case True
        then have "vt_int_pow_loop r base e = Inr r'"
          using e r' by (simp add: unfold vt_int_pow_loop.simps [of _ _ 0] del: if_split)
        then show ?thesis
          using True split r' \<open>fits64 ?R'\<close> by (simp add: pow_result_def)
      next
        case e': False
        note sq = int_pow_mul_result [of base base]
        show ?thesis
        proof (cases "fits64 (?B * ?B)")
          case False
          then have "?B \<noteq> 0" by (auto simp: fits64_def)
          then have "?R' \<noteq> 0" using 1(3) by auto
          have "\<not> fits64 (?R' * (?B * ?B) ^ (e div 2))"
            using e' \<open>?R' \<noteq> 0\<close> False by (intro big_power_not_fits square_not_fits) auto
          moreover have "int_pow_mul base base = Inl pow_panic" using sq False by (simp add: pow_result_def)
          ultimately show ?thesis
            using e e' r' split by (simp add: unfold pow_result_def del: if_split)
        next
          case True
          then obtain b' where b': "int_pow_mul base base = Inr b'" "sint b' = ?B * ?B"
            using sq by (auto simp: pow_result_def)
          have "sint r' = 0 \<Longrightarrow> sint b' = 0" using 1(3) r' b' by (auto split: if_splits)
          then have "pow_result (sint r' * sint b' ^ (e div 2)) (vt_int_pow_loop r' b' (e div 2))"
            using 1(2) [OF e refl e'] by blast
          moreover have "vt_int_pow_loop r base e = vt_int_pow_loop r' b' (e div 2)"
            using e e' r' b' by (simp add: unfold del: if_split)
          ultimately show ?thesis using split r' b' by simp
        qed
      qed
    qed
  qed
qed

section \<open>Greatest common divisor and ordering methods\<close>

lemma vt_int_gcd_loop_gcd: "unat (vt_int_gcd_loop ua ub) = gcd (unat ua) (unat ub)"
proof (induction ua ub rule: vt_int_gcd_loop.induct)
  case (1 ua ub)
  show ?case
  proof (cases "ub = 0")
    case True
    then show ?thesis by (simp add: vt_int_gcd_loop.simps)
  next
    case False
    then have "unat (vt_int_gcd_loop ua ub) = gcd (unat ub) (unat (ua mod ub))"
      using 1 by (simp add: vt_int_gcd_loop.simps [of ua ub])
    then show ?thesis
      by (simp add: unat_mod_distrib gcd.commute gcd_red_nat [of "unat ua" "unat ub"])
  qed
qed

lemma u64_magnitude_abs: "uint (u64_magnitude a) = \<bar>sint a\<bar>"
proof (cases "sint a < 0")
  case True
  have "u64_magnitude a = - a" using True by (simp add: u64_magnitude_def)
  then show ?thesis using uint_minus_neg [OF True] True by (simp only: abs_of_neg)
next
  case False
  have "u64_magnitude a = a" using False by (simp only: u64_magnitude_def if_False)
  then show ?thesis using uint_of_nonneg [of a] False by (simp only: abs_of_nonneg not_less)
qed

lemma gcd_loop_int: "uint (vt_int_gcd_loop (u64_magnitude a) (u64_magnitude b)) = gcd (sint a) (sint b)"
  unfolding uint_nat vt_int_gcd_loop_gcd gcd_int_int_eq [symmetric]
  unfolding uint_nat [symmetric] u64_magnitude_abs by simp

lemma sint_small:
  assumes "uint (g :: u64) \<le> 9223372036854775807"
  shows "sint g = uint g"
proof -
  have "0 \<le> uint g" by simp
  then have "- 9223372036854775808 \<le> uint g" by linarith
  with assms have "sint (word_of_int (uint g) :: i64) = uint g"
    by (simp only: sint_of_int_eq_iff)
  then show ?thesis by simp
qed

text \<open>The gcd of the mathematical values, or the panic when it is \<open>2 ^ 63\<close>.\<close>

lemma vt_int_gcd_result:
  "if gcd (sint a) (sint b) \<le> 9223372036854775807
   then \<exists>g. vt_int_gcd a b = Inr g \<and> sint g = gcd (sint a) (sint b)
   else vt_int_gcd a b = Inl (Panic (''integer overflow in '' @ quoted ''gcd''))"
proof -
  let ?g = "vt_int_gcd_loop (u64_magnitude a) (u64_magnitude b)"
  have "?g > INT64_MAX \<longleftrightarrow> gcd (sint a) (sint b) > 9223372036854775807"
    unfolding word_less_def gcd_loop_int [symmetric] by simp
  then show ?thesis
    using sint_small [of ?g] by (auto simp: vt_int_gcd_def Let_def gcd_loop_int)
qed

lemma vt_int_pow_result:
  "if sint e < 0 then vt_int_pow base e = Inr 0
   else pow_result (sint base ^ nat (sint e)) (vt_int_pow base e)"
proof (cases "sint e < 0")
  case False
  then have "unat e = nat (sint e)"
    using uint_of_nonneg [of e] by (simp add: unat_eq_nat_uint)
  then show ?thesis
    using False vt_int_pow_loop_result [of 1 base "unat e"] by (simp add: vt_int_pow_def)
qed (simp add: vt_int_pow_def)

lemma vt_int_clamp_result:
  "sint (vt_int_clamp x lo hi) = max (min (sint lo) (sint hi)) (min (max (sint lo) (sint hi)) (sint x))"
  by (auto simp: vt_int_clamp_def min_def max_def)

lemma vt_int_order_result:
  "sint (vt_int_min a b) = min (sint a) (sint b)" "sint (vt_int_max a b) = max (sint a) (sint b)"
  "sint (vt_int_sign x) = sgn (sint x)"
  by (auto simp: vt_int_min_def vt_int_max_def vt_int_sign_def sgn_if)

lemma vt_int_abs_result:
  "vt_int_abs x = (if x = INT64_MIN then Inl (Panic (''integer overflow in '' @ quoted ''abs''))
     else Inr (word_of_int \<bar>sint x\<bar>))"
  by (auto simp: vt_int_abs_def)

section \<open>Properties\<close>


text \<open>Checked division and remainder never reach an undefined C operation: a zero divisor and
  the \<open>INT64_MIN / -1\<close> overflow panic, every other pair gives the truncated result.\<close>

theorem ck_div_mod_defined:
  "(if b = 0 then vt_ck_div a b lo hi = Some (Inl (vt_div_zero ''/''))
    else \<exists>res. vt_ck_div a b lo hi = Some res \<and>
           exact_or_panic (vt_overflow ''/'') (sint a sdiv sint b) lo hi res) \<and>
   (if b = 0 then vt_ck_mod a b = Some (Inl (vt_div_zero ''%''))
    else \<exists>r. vt_ck_mod a b = Some (Inr r) \<and> sint r = sint a smod sint b)"
  using vt_ck_div_exact [of b a lo hi] vt_ck_mod_exact [of b a]
  by (auto simp: vt_ck_div_def vt_ck_mod_def)

text \<open>The portable overflow tests of the build without compiler builtins agree with the
  builtins on every input but one: multiplying \<open>-1\<close> by \<open>INT64_MIN\<close> evaluates
  \<open>INT64_MIN / -1\<close>, which is undefined, before the guard that was meant for it.\<close>

theorem portable_overflow_tests:
  "portable_add_overflow a b = builtin_add_overflow a b \<and>
   portable_sub_overflow a b = builtin_sub_overflow a b \<and>
   portable_mul_overflow a b =
     (if a = - 1 \<and> b = INT64_MIN then None else Some (builtin_mul_overflow a b))"
  using portable_mul_eq [of a b]
  by (auto simp: portable_add_eq portable_sub_eq portable_mul_overflow_def c_div_def)

text \<open>\<open>vt_int_pow\<close> returns the exact power whenever it fits 64 bits and panics otherwise (no
  spurious overflow from squaring the base); a negative exponent gives 0.\<close>

theorem int_pow_exact:
  "if sint e < 0 then vt_int_pow base e = Inr 0
   else pow_result (sint base ^ nat (sint e)) (vt_int_pow base e)"
  by (rule vt_int_pow_result)

text \<open>\<open>vt_int_gcd\<close> returns the greatest common divisor of the two integers; it panics exactly
  when that divisor is \<open>2 ^ 63\<close>, which no \<open>int64_t\<close> holds.\<close>

theorem int_gcd_exact:
  "if gcd (sint a) (sint b) \<le> 9223372036854775807
   then \<exists>g. vt_int_gcd a b = Inr g \<and> sint g = gcd (sint a) (sint b)
   else vt_int_gcd a b = Inl (Panic (''integer overflow in '' @ quoted ''gcd''))"
  by (rule vt_int_gcd_result)

end
