(* ===== verification/Vt_Str.thy ===== *)
theory Vt_Str
  imports Vt_Num "HOL-Library.List_Lexorder" "HOL-Library.Char_ord" "HOL-Library.Sublist"
begin

text \<open>
  Strings: the primitives of \<open>runtime/vyto_rt.c\<close> and the builtin methods of
  \<open>runtime/vyto_rt_str.c\<close>. A \<open>VtString\<close> is its byte list; \<open>len\<close> is the length of the
  list and the terminating NUL is not part of it. A pointer that the code tests
  against NULL is an \<open>option\<close>; the methods dereference their receiver (the emitted
  call site has checked it), so they take the bytes directly. Byte counts are natural
  numbers; an \<open>int64_t\<close> argument that a program can choose freely is an \<open>int\<close>.
\<close>

section \<open>Primitives\<close>

definition str_bytes :: "string option \<Rightarrow> string" where
  "str_bytes s = (case s of None \<Rightarrow> [] | Some d \<Rightarrow> d)"

lemma str_bytes_simps [simp]: "str_bytes None = []" "str_bytes (Some d) = d"
  by (simp_all add: str_bytes_def)

definition vt_str_new :: "string \<Rightarrow> string" where
  "vt_str_new bytes = bytes"

definition vt_str_concat :: "string option \<Rightarrow> string option \<Rightarrow> string" where
  "vt_str_concat a b = str_bytes a @ str_bytes b"

text \<open>\<open>vt_str_join\<close> measures once and copies once: the copy loop writes at offset \<open>d\<close> of a
  buffer of \<open>total\<close> bytes.\<close>

definition memcpy_at :: "'a list \<Rightarrow> nat \<Rightarrow> 'a list \<Rightarrow> 'a list" where
  "memcpy_at dst off src = take off dst @ src @ drop (off + length src) dst"

fun vt_str_join_copy :: "string \<Rightarrow> nat \<Rightarrow> string option list \<Rightarrow> string" where
  "vt_str_join_copy buf d [] = buf"
| "vt_str_join_copy buf d (p # ps) =
     (case p of None \<Rightarrow> vt_str_join_copy buf d ps
      | Some s \<Rightarrow> if s \<noteq> [] then vt_str_join_copy (memcpy_at buf d s) (d + length s) ps
                 else vt_str_join_copy buf d ps)"

definition vt_str_join :: "string option list \<Rightarrow> string" where
  "vt_str_join parts =
     (let total = sum_list (map (\<lambda>p. case p of None \<Rightarrow> 0 | Some s \<Rightarrow> length s) parts)
      in vt_str_join_copy (replicate total (CHR 0x00)) 0 parts)"

definition vt_str_eq :: "string option \<Rightarrow> string option \<Rightarrow> bool" where
  "vt_str_eq a b =
     (case (a, b) of
        (None, None) \<Rightarrow> True
      | (Some x, Some y) \<Rightarrow> length x = length y \<and> x = y
      | _ \<Rightarrow> False)"

definition vt_str_from_int :: "i64 \<Rightarrow> string" where
  "vt_str_from_int v =
     (case vt_snprintf (replicate 32 (CHR 0x00)) ''%lld'' [ALld v] of
        Some (buf, n) \<Rightarrow> take n buf | None \<Rightarrow> [])"

definition vt_str_concat_int :: "string option \<Rightarrow> i64 \<Rightarrow> string" where
  "vt_str_concat_int a v =
     (case vt_snprintf (replicate 32 (CHR 0x00)) ''%lld'' [ALld v] of
        Some (buf, n) \<Rightarrow> str_bytes a @ take n buf | None \<Rightarrow> [])"

definition vt_str_from_bool :: "bool \<Rightarrow> string" where
  "vt_str_from_bool v = (if v then ''true'' else ''false'')"

definition vt_str_from_cstr :: "string option \<Rightarrow> string" where
  "vt_str_from_cstr p = (case p of None \<Rightarrow> [] | Some d \<Rightarrow> c_str d)"

text \<open>\<open>i64_of_int\<close> turns an argument back into the word the message formats.\<close>

definition slice_panic :: "int \<Rightarrow> int \<Rightarrow> nat \<Rightarrow> rt_err" where
  "slice_panic lo hi len =
     Panic (fmt_msg 96 ''slice [%lld, %lld) out of bounds (len %lld)''
       [ALld (word_of_int lo), ALld (word_of_int hi), ALld (of_nat len)])"

definition vt_str_slice :: "string option \<Rightarrow> int \<Rightarrow> int \<Rightarrow> string res" where
  "vt_str_slice s lo hi =
     (case s of None \<Rightarrow> Inl (Panic ''slice of null string'')
      | Some d \<Rightarrow>
          if lo < 0 \<or> hi < lo \<or> hi > int (length d) then Inl (slice_panic lo hi (length d))
          else Inr (vt_str_new (take (nat (hi - lo)) (drop (nat lo) d))))"

definition vt_str_index :: "string option \<Rightarrow> int \<Rightarrow> int res" where
  "vt_str_index s i =
     (case s of None \<Rightarrow> Inl (Panic ''string index out of bounds'')
      | Some d \<Rightarrow>
          if i < 0 \<or> i \<ge> int (length d) then Inl (Panic ''string index out of bounds'')
          else Inr (of_char (d ! nat i)))"

text \<open>\<open>vt_print\<close> writes the bytes and a newline to the host.\<close>

definition vt_print :: "string option \<Rightarrow> string" where
  "vt_print s = str_bytes s @ ''\<newline>''"

text \<open>Unsigned byte comparison as \<open>memcmp\<close> does it, on ranges of equal length.\<close>

fun memcmp_sign :: "string \<Rightarrow> string \<Rightarrow> int" where
  "memcmp_sign (x # xs) (y # ys) =
     (if x = y then memcmp_sign xs ys
      else int (of_char x) - int (of_char y))"
| "memcmp_sign _ _ = 0"

definition vt_byte_comp :: "string option \<Rightarrow> int \<Rightarrow> int \<Rightarrow> string option \<Rightarrow> int \<Rightarrow> int \<Rightarrow> int" where
  "vt_byte_comp a alo ahi b blo bhi =
     (let an = int (length (str_bytes a)); bn = int (length (str_bytes b));
          alo = (if alo < 0 then 0 else alo);
          blo = (if blo < 0 then 0 else blo);
          ahi = (if ahi > an then an else ahi);
          bhi = (if bhi > bn then bn else bhi);
          ahi = (if ahi < alo then alo else ahi);
          bhi = (if bhi < blo then blo else bhi);
          la = ahi - alo; lb = bhi - blo;
          m = (if la < lb then la else lb);
          r = (if m > 0 then memcmp_sign (take (nat m) (drop (nat alo) (str_bytes a)))
                                         (take (nat m) (drop (nat blo) (str_bytes b))) else 0)
      in if r \<noteq> 0 then (if r < 0 then - 1 else 1)
         else if la < lb then - 1 else if la > lb then 1 else 0)"

section \<open>Searching\<close>

definition str_is_space :: "char \<Rightarrow> bool" where
  "str_is_space c \<longleftrightarrow> c = CHR '' '' \<or> c = CHR 0x09 \<or> c = CHR 0x0A \<or> c = CHR 0x0D \<or> c = CHR 0x0C \<or> c = CHR 0x0B"

function str_find_loop :: "string \<Rightarrow> string \<Rightarrow> nat \<Rightarrow> int" where
  "str_find_loop hay ndl i =
     (if i + length ndl \<le> length hay then
        if take (length ndl) (drop i hay) = ndl then int i else str_find_loop hay ndl (i + 1)
      else - 1)"
  by pat_completeness auto
termination
  by (relation "measure (\<lambda>(hay, ndl, i). Suc (length hay) - i)") auto

declare str_find_loop.simps [simp del]

definition str_find :: "string \<Rightarrow> string \<Rightarrow> nat \<Rightarrow> int" where
  "str_find hay ndl from =
     (if length ndl = 0 then (if from \<le> length hay then int from else - 1)
      else if length ndl > length hay then - 1
      else str_find_loop hay ndl from)"

lemma str_find_loop_cases:
  obtains (miss) "str_find_loop hay ndl i = - 1" "\<forall>j \<ge> i. \<not> occurs_at ndl hay j"
  | (hit) k where "str_find_loop hay ndl i = int k" "i \<le> k" "occurs_at ndl hay k"
      "\<forall>j. i \<le> j \<and> j < k \<longrightarrow> \<not> occurs_at ndl hay j"
proof (induction hay ndl i arbitrary: thesis rule: str_find_loop.induct)
  case (1 hay ndl i)
  note unfold = str_find_loop.simps [of hay ndl i]
  show ?case
  proof (cases "occurs_at ndl hay i")
    case True
    then show ?thesis by (intro 1(3) [of i]) (auto simp: unfold occurs_at_def)
  next
    case False
    show ?thesis
    proof (cases "i + length ndl \<le> length hay")
      case True
      with False have ne: "take (length ndl) (drop i hay) \<noteq> ndl" by (simp add: occurs_at_def)
      have next_i: "\<not> occurs_at ndl hay j" if "i \<le> j" "i + 1 \<le> j \<Longrightarrow> \<not> occurs_at ndl hay j" for j
        using that False by (cases "i = j") auto
      show ?thesis
        by (rule 1(1) [OF True ne])
          (use True ne 1(2,3) next_i in \<open>auto simp: unfold\<close>)
    next
      case out: False
      then show ?thesis by (intro 1(2)) (auto simp: unfold occurs_at_def)
    qed
  qed
qed

lemma str_find_cases:
  assumes "ndl \<noteq> []"
  obtains (miss) "str_find hay ndl i = - 1" "\<forall>j \<ge> i. \<not> occurs_at ndl hay j"
  | (hit) k where "str_find hay ndl i = int k" "i \<le> k" "occurs_at ndl hay k"
      "\<forall>j. i \<le> j \<and> j < k \<longrightarrow> \<not> occurs_at ndl hay j"
proof (cases "length ndl > length hay")
  case True
  then show thesis using assms miss by (auto simp: str_find_def occurs_at_def)
next
  case False
  then have "str_find hay ndl i = str_find_loop hay ndl i"
    using assms by (simp add: str_find_def)
  then show thesis using str_find_loop_cases [of hay ndl i] miss hit by metis
qed

definition vt_str_starts_with :: "string \<Rightarrow> string \<Rightarrow> bool" where
  "vt_str_starts_with s p \<longleftrightarrow> length p \<le> length s \<and> take (length p) s = p"

definition vt_str_ends_with :: "string \<Rightarrow> string \<Rightarrow> bool" where
  "vt_str_ends_with s p \<longleftrightarrow> length p \<le> length s \<and> take (length p) (drop (length s - length p) s) = p"

definition vt_str_index_of :: "string \<Rightarrow> string \<Rightarrow> int" where
  "vt_str_index_of s sub = str_find s sub 0"

fun vt_str_last_loop :: "string \<Rightarrow> string \<Rightarrow> nat \<Rightarrow> int" where
  "vt_str_last_loop s sub i =
     (if take (length sub) (drop i s) = sub then int i
      else case i of 0 \<Rightarrow> - 1 | Suc j \<Rightarrow> vt_str_last_loop s sub j)"

declare vt_str_last_loop.simps [simp del]

definition vt_str_last_index_of :: "string \<Rightarrow> string \<Rightarrow> int" where
  "vt_str_last_index_of s sub =
     (if length sub = 0 then int (length s)
      else if length sub > length s then - 1
      else vt_str_last_loop s sub (length s - length sub))"

definition vt_str_contains :: "string \<Rightarrow> string \<Rightarrow> bool" where
  "vt_str_contains s sub \<longleftrightarrow> vt_str_index_of s sub \<ge> 0"

text \<open>The counting and replacing loops advance by the length of the match, or by one.\<close>

function vt_str_count_loop :: "string \<Rightarrow> string \<Rightarrow> nat \<Rightarrow> nat \<Rightarrow> nat" where
  "vt_str_count_loop s sub n i =
     (if sub \<noteq> [] \<and> i + length sub \<le> length s then
        if take (length sub) (drop i s) = sub then vt_str_count_loop s sub (n + 1) (i + length sub)
        else vt_str_count_loop s sub n (i + 1)
      else n)"
  by pat_completeness auto
termination
  by (relation "measure (\<lambda>(s, sub, n, i). Suc (length s) - i)") (auto simp: neq_Nil_conv)

declare vt_str_count_loop.simps [simp del]

definition vt_str_count :: "string \<Rightarrow> string \<Rightarrow> nat" where
  "vt_str_count s sub = (if length sub = 0 then 0 else vt_str_count_loop s sub 0 0)"

section \<open>Building strings\<close>

definition vt_str_char_at :: "string \<Rightarrow> int \<Rightarrow> string res" where
  "vt_str_char_at s i =
     (if i < 0 \<or> i \<ge> int (length s) then Inl (Panic ''char_at index out of bounds'')
      else Inr [s ! nat i])"

definition upper_byte :: "char \<Rightarrow> char" where
  "upper_byte c = (if CHR ''a'' \<le> c \<and> c \<le> CHR ''z'' then char_of (of_char c - (32 :: nat)) else c)"

definition lower_byte :: "char \<Rightarrow> char" where
  "lower_byte c = (if CHR ''A'' \<le> c \<and> c \<le> CHR ''Z'' then char_of (of_char c + (32 :: nat)) else c)"

definition vt_str_to_upper :: "string \<Rightarrow> string" where
  "vt_str_to_upper s = map upper_byte s"

definition vt_str_to_lower :: "string \<Rightarrow> string" where
  "vt_str_to_lower s = map lower_byte s"

definition vt_str_trim_start :: "string \<Rightarrow> string" where
  "vt_str_trim_start s = dropWhile str_is_space s"

fun trim_hi :: "string \<Rightarrow> nat \<Rightarrow> nat \<Rightarrow> nat" where
  "trim_hi s lo hi = (if hi > lo \<and> str_is_space (s ! (hi - 1)) then trim_hi s lo (hi - 1) else hi)"

declare trim_hi.simps [simp del]

definition vt_str_trim_end :: "string \<Rightarrow> string" where
  "vt_str_trim_end s = take (trim_hi s 0 (length s)) s"

definition vt_str_trim :: "string \<Rightarrow> string" where
  "vt_str_trim s =
     (let lo = length (takeWhile str_is_space s); hi = trim_hi s lo (length s)
      in take (hi - lo) (drop lo s))"

definition vt_str_repeat :: "string \<Rightarrow> int \<Rightarrow> string res" where
  "vt_str_repeat s n =
     (if n \<le> 0 \<or> length s = 0 then Inr []
      else if n > 9223372036854775807 div int (length s) then Inl (Panic ''repeat result too large'')
      else Inr (concat (replicate (nat n) s)))"

definition str_pad :: "string \<Rightarrow> int \<Rightarrow> string \<Rightarrow> bool \<Rightarrow> string" where
  "str_pad s w ch at_start =
     (if int (length s) \<ge> w \<or> length ch = 0 then s
      else let padlen = nat (w - int (length s));
               pad = map (\<lambda>i. ch ! (i mod length ch)) [0..<padlen]
           in if at_start then pad @ s else s @ pad)"

definition vt_str_pad_start :: "string \<Rightarrow> int \<Rightarrow> string \<Rightarrow> string" where
  "vt_str_pad_start s w ch = str_pad s w ch True"

definition vt_str_pad_end :: "string \<Rightarrow> int \<Rightarrow> string \<Rightarrow> string" where
  "vt_str_pad_end s w ch = str_pad s w ch False"

text \<open>\<open>vt_str_replace\<close> fills a buffer of exactly \<open>total\<close> bytes; \<open>out\<close> is what it has written.\<close>

function vt_str_replace_loop :: "string \<Rightarrow> string \<Rightarrow> string \<Rightarrow> nat \<Rightarrow> string \<Rightarrow> string" where
  "vt_str_replace_loop s old neu si out =
     (if old \<noteq> [] \<and> si < length s then
        if si + length old \<le> length s \<and> take (length old) (drop si s) = old
        then vt_str_replace_loop s old neu (si + length old) (out @ neu)
        else vt_str_replace_loop s old neu (si + 1) (out @ [s ! si])
      else out)"
  by pat_completeness auto
termination
  by (relation "measure (\<lambda>(s, old, neu, si, out). length s - si)") (auto simp: neq_Nil_conv)

declare vt_str_replace_loop.simps [simp del]

definition replace_total :: "string \<Rightarrow> string \<Rightarrow> string \<Rightarrow> int" where
  "replace_total s old neu =
     int (length s) + int (vt_str_count s old) * (int (length neu) - int (length old))"

definition vt_str_replace :: "string \<Rightarrow> string \<Rightarrow> string \<Rightarrow> string" where
  "vt_str_replace s old neu =
     (if length old = 0 then s
      else if vt_str_count s old = 0 then s
      else take (nat (replace_total s old neu)) (vt_str_replace_loop s old neu 0 []))"

definition vt_str_reverse :: "string \<Rightarrow> string" where
  "vt_str_reverse s = swap_loop s 0 (int (length s) - 1)"

section \<open>Splitting\<close>

text \<open>The loop of \<open>vt_str_split\<close>; the array it pushes to is the result list.\<close>

function vt_str_split_loop :: "string \<Rightarrow> string \<Rightarrow> nat \<Rightarrow> string list" where
  "vt_str_split_loop s sep start =
     (if sep = [] \<or> start > length s then []
      else let hit = str_find s sep start in
        if hit < 0 then [take (length s - start) (drop start s)]
        else take (nat hit - start) (drop start s) # vt_str_split_loop s sep (nat hit + length sep))"
  by pat_completeness auto
termination
proof (relation "measure (\<lambda>(s, sep, start). Suc (length s) - start)", goal_cases)
  case (2 s sep start hit)
  then have "sep \<noteq> []" by simp
  then show ?case
    by (cases rule: str_find_cases [of sep s start]) (use 2 in \<open>auto simp: occurs_at_def neq_Nil_conv\<close>)
qed simp

declare vt_str_split_loop.simps [simp del]

definition vt_str_split :: "string \<Rightarrow> string \<Rightarrow> string list" where
  "vt_str_split s sep = (if length sep = 0 then [s] else vt_str_split_loop s sep 0)"

text \<open>The line loop shared by \<open>vt_str_lines\<close> and \<open>vt_file_lines\<close>: up to the next newline, a
  trailing carriage return dropped, no empty last line after a final newline.\<close>

definition chop_cr :: "string \<Rightarrow> string" where
  "chop_cr l = (if l \<noteq> [] \<and> last l = CHR 0x0D then butlast l else l)"

function vt_str_lines :: "string \<Rightarrow> string list" where
  "vt_str_lines p =
     (if p = [] then []
      else let l = takeWhile (\<lambda>c. c \<noteq> CHR 0x0A) p in
        if length l = length p then [chop_cr l]
        else chop_cr l # vt_str_lines (drop (length l + 1) p))"
  by pat_completeness auto
termination
  by (relation "measure length") auto

declare vt_str_lines.simps [simp del]

section \<open>Parsing integers\<close>

definition is_digit_byte :: "char \<Rightarrow> bool" where
  "is_digit_byte c \<longleftrightarrow> CHR ''0'' \<le> c \<and> c \<le> CHR ''9''"

fun vt_str_to_int_loop :: "u64 \<Rightarrow> u64 \<Rightarrow> string \<Rightarrow> (u64 \<times> string) res" where
  "vt_str_to_int_loop lim v [] = Inr (v, [])"
| "vt_str_to_int_loop lim v (c # cs) =
     (if is_digit_byte c then
        let d = of_nat (of_char c - 48) in
        if v > (lim - d) div 10 then Inl (Panic ''to_int: integer overflow'')
        else vt_str_to_int_loop lim (v * 10 + d) cs
      else Inr (v, c # cs))"

definition vt_str_to_int :: "string \<Rightarrow> i64 res" where
  "vt_str_to_int s =
     (let r = dropWhile str_is_space s;
          neg = (r \<noteq> [] \<and> hd r = CHR ''-'');
          r = (if r \<noteq> [] \<and> (hd r = CHR ''+'' \<or> hd r = CHR ''-'') then tl r else r)
      in if r = [] \<or> \<not> is_digit_byte (hd r) then Inl (Panic ''to_int: not an integer'')
         else let lim = (if neg then INT64_MAX + 1 else INT64_MAX) in
           bind_res (vt_str_to_int_loop lim 0 r) (\<lambda>(v, rest).
             if dropWhile str_is_space rest \<noteq> [] then Inl (Panic ''to_int: trailing characters'')
             else Inr (if neg then (if v = INT64_MAX + 1 then INT64_MIN else - v) else v)))"

section \<open>Splitting, counting and replacing fit together\<close>

text \<open>Reference: the pieces with the separator between them.\<close>

fun join_with :: "'a list \<Rightarrow> 'a list list \<Rightarrow> 'a list" where
  "join_with sep [] = []"
| "join_with sep [x] = x"
| "join_with sep (x # y # xs) = x @ sep @ join_with sep (y # xs)"

lemma join_with_Cons: "xs \<noteq> [] \<Longrightarrow> join_with sep (x # xs) = x @ sep @ join_with sep xs"
  by (cases xs) auto

lemma join_with_hd: "xs \<noteq> [] \<Longrightarrow> join_with sep ((c # hd xs) # tl xs) = c # join_with sep xs"
  by (cases xs; cases "tl xs") auto

lemma length_join_with:
  "xs \<noteq> [] \<Longrightarrow> length (join_with sep xs) = sum_list (map length xs) + (length xs - 1) * length sep"
  by (induction sep xs rule: join_with.induct) auto

lemma split_loop_ne: "sep \<noteq> [] \<Longrightarrow> i \<le> length s \<Longrightarrow> vt_str_split_loop s sep i \<noteq> []"
  by (subst vt_str_split_loop.simps) (simp add: Let_def)

text \<open>The three ways the split loop can go on from an offset.\<close>

lemma split_loop_end:
  assumes "sep \<noteq> []" shows "vt_str_split_loop s sep (length s) = [[]]"
  by (cases rule: str_find_cases [OF assms, of s "length s", case_names miss hit])
    (use assms in \<open>auto simp: vt_str_split_loop.simps occurs_at_def\<close>)

lemma split_loop_hit:
  assumes "occurs_at sep s i" "sep \<noteq> []"
  shows "vt_str_split_loop s sep i = [] # vt_str_split_loop s sep (i + length sep)"
proof -
  have "i \<le> length s" using assms(1) by (simp add: occurs_at_def)
  have "str_find s sep i = int i"
  proof (cases rule: str_find_cases [OF assms(2), of s i, case_names miss hit])
    case (hit k)
    then show ?thesis using assms(1) by (cases "i < k") auto
  qed (use assms(1) in auto)
  then show ?thesis
    using assms(2) \<open>i \<le> length s\<close> by (subst vt_str_split_loop.simps) simp
qed

lemma split_loop_step:
  assumes "\<not> occurs_at sep s i" "sep \<noteq> []" "i < length s"
  shows "vt_str_split_loop s sep i =
    (let r = vt_str_split_loop s sep (Suc i) in (s ! i # hd r) # tl r)"
proof (cases rule: str_find_cases [OF assms(2), of s i, case_names miss hit])
  case miss
  have "str_find s sep (Suc i) = - 1"
    by (cases rule: str_find_cases [OF assms(2), of s "Suc i", case_names miss hit]) (use miss in auto)
  then show ?thesis
    using miss(1) assms by (simp add: vt_str_split_loop.simps [of s sep] Let_def Cons_nth_drop_Suc)
next
  case (hit k)
  then have ik: "i < k" using assms(1) by (cases "i = k") auto
  have k: "k \<le> length s" using hit(3) by (simp add: occurs_at_def)
  have "str_find s sep (Suc i) = int k"
  proof (cases rule: str_find_cases [OF assms(2), of s "Suc i", case_names miss hit])
    case (hit m)
    then show ?thesis using \<open>occurs_at sep s k\<close> ik
        \<open>\<forall>j. i \<le> j \<and> j < k \<longrightarrow> \<not> occurs_at sep s j\<close>
      by (metis Suc_le_eq Suc_leD linorder_neqE_nat)
  qed (use hit ik in auto)
  moreover have "take (k - i) (drop i s) = s ! i # take (k - Suc i) (drop (Suc i) s)"
    using ik assms(3) by (simp add: Cons_nth_drop_Suc [symmetric] take_Cons' )
  ultimately show ?thesis
    using hit(1) assms ik k by (simp add: vt_str_split_loop.simps [of s sep i] vt_str_split_loop.simps [of s sep "Suc i"] Let_def)
qed

lemma offset_cases:
  assumes "i \<le> length s"
  obtains (stop) "i = length s"
  | (hit) "occurs_at sep s i" | (step) "\<not> occurs_at sep s i" "i < length s"
  using assms by (cases "i = length s") auto

lemma join_split_loop:
  assumes "sep \<noteq> []" "i \<le> length s"
  shows "join_with sep (vt_str_split_loop s sep i) = drop i s"
  using assms(2)
proof (induction "length s - i" arbitrary: i rule: less_induct)
  case less
  show ?case
  proof (cases rule: offset_cases [OF less.prems, where sep = sep, case_names stop hit step])
    case hit
    then have le: "i + length sep \<le> length s" and eq: "take (length sep) (drop i s) = sep"
      by (simp_all add: occurs_at_def)
    have "join_with sep (vt_str_split_loop s sep (i + length sep)) = drop (i + length sep) s"
      using assms(1) le by (intro less.hyps) (auto simp: neq_Nil_conv)
    then show ?thesis
      using split_loop_hit [OF hit assms(1)] split_loop_ne [OF assms(1) le] eq
      by (simp add: join_with_Cons) (metis append_take_drop_id drop_drop add.commute)
  next
    case step
    then have "join_with sep (vt_str_split_loop s sep (Suc i)) = drop (Suc i) s"
      by (intro less.hyps) auto
    then show ?thesis
      using split_loop_step [OF step(1) assms(1) step(2)] split_loop_ne [OF assms(1), of "Suc i" s] step
      by (simp add: Let_def join_with_hd Cons_nth_drop_Suc)
  qed (simp add: split_loop_end [OF assms(1)])
qed

lemma replace_loop_split:
  assumes "old \<noteq> []" "i \<le> length s"
  shows "vt_str_replace_loop s old neu i out = out @ join_with neu (vt_str_split_loop s old i)"
  using assms(2)
proof (induction "length s - i" arbitrary: i out rule: less_induct)
  case less
  note unfold = vt_str_replace_loop.simps [of s old neu i out]
  show ?case
  proof (cases rule: offset_cases [OF less.prems, where sep = old, case_names stop hit step])
    case hit
    then have le: "i + length old \<le> length s" by (simp add: occurs_at_def)
    moreover have "i < length s" using le assms(1) by (auto simp: neq_Nil_conv)
    moreover have "vt_str_replace_loop s old neu (i + length old) (out @ neu) =
        (out @ neu) @ join_with neu (vt_str_split_loop s old (i + length old))"
      using assms(1) le by (intro less.hyps) (auto simp: neq_Nil_conv)
    ultimately show ?thesis
      using hit split_loop_hit [OF hit assms(1)] split_loop_ne [OF assms(1) le] assms(1)
      by (simp add: unfold occurs_at_def join_with_Cons)
  next
    case step
    then have "vt_str_replace_loop s old neu (Suc i) (out @ [s ! i]) =
        (out @ [s ! i]) @ join_with neu (vt_str_split_loop s old (Suc i))"
      by (intro less.hyps) auto
    then show ?thesis
      using step split_loop_step [OF step(1) assms(1) step(2)] split_loop_ne [OF assms(1), of "Suc i" s] assms(1)
      by (auto simp: unfold occurs_at_def Let_def join_with_hd)
  qed (simp add: split_loop_end [OF assms(1)] vt_str_replace_loop.simps)
qed

lemma count_loop_split:
  assumes "sub \<noteq> []" "i \<le> length s"
  shows "vt_str_count_loop s sub n i + 1 = n + length (vt_str_split_loop s sub i)"
  using assms(2)
proof (induction "length s - i" arbitrary: i n rule: less_induct)
  case less
  note unfold = vt_str_count_loop.simps [of s sub n i]
  show ?case
  proof (cases rule: offset_cases [OF less.prems, where sep = sub, case_names stop hit step])
    case stop
    then show ?thesis using assms(1) by (simp add: split_loop_end [OF assms(1)] vt_str_count_loop.simps)
  next
    case hit
    then have le: "i + length sub \<le> length s" by (simp add: occurs_at_def)
    moreover have "vt_str_count_loop s sub (n + 1) (i + length sub) + 1 =
        n + 1 + length (vt_str_split_loop s sub (i + length sub))"
      using assms(1) le by (intro less.hyps) (auto simp: neq_Nil_conv)
    ultimately show ?thesis
      using hit split_loop_hit [OF hit assms(1)] assms(1) by (simp add: unfold occurs_at_def)
  next
    case step
    then have IH: "vt_str_count_loop s sub n (Suc i) + 1 = n + length (vt_str_split_loop s sub (Suc i))"
      by (intro less.hyps) auto
    have len: "length (vt_str_split_loop s sub i) = length (vt_str_split_loop s sub (Suc i))"
      using split_loop_step [OF step(1) assms(1) step(2)] split_loop_ne [OF assms(1), of "Suc i" s] step
      by (simp add: Let_def)
    show ?thesis
    proof (cases "i + length sub \<le> length s")
      case True
      then show ?thesis using IH len step assms(1) by (auto simp: unfold occurs_at_def)
    next
      case False
      then have "vt_str_count_loop s sub n (Suc i) = n"
        using assms(1) by (simp add: vt_str_count_loop.simps [of s sub n "Suc i"])
      then show ?thesis using False IH len by (simp add: unfold)
    qed
  qed
qed

lemma split_loop_clean:
  assumes "sep \<noteq> []" "i \<le> length s"
  shows "\<forall>p \<in> set (vt_str_split_loop s sep i). \<forall>j. \<not> occurs_at sep p j"
  using assms(2)
proof (induction "length s - i" arbitrary: i rule: less_induct)
  case less
  note unfold = vt_str_split_loop.simps [of s sep i]
  have piece: "\<not> occurs_at sep (take (k - i) (drop i s)) j"
    if "\<forall>j. i \<le> j \<and> j < k \<longrightarrow> \<not> occurs_at sep s j" for k j
  proof
    assume occ: "occurs_at sep (take (k - i) (drop i s)) j"
    then have "occurs_at sep s (i + j)" and "i + j < k"
      using assms(1) by (auto simp: occurs_at_def drop_take min_def add.commute neq_Nil_conv split: if_splits)
    with that show False by auto
  qed
  show ?case
  proof (cases rule: str_find_cases [OF assms(1), of s i, case_names miss hit])
    case miss
    then show ?thesis using piece [of "length s"] assms(1) less.prems by (simp add: unfold)
  next
    case (hit k)
    then have "k + length sep \<le> length s" by (simp add: occurs_at_def)
    then have "\<forall>p \<in> set (vt_str_split_loop s sep (k + length sep)). \<forall>j. \<not> occurs_at sep p j"
      using assms(1) \<open>i \<le> k\<close> by (intro less.hyps) (auto simp: neq_Nil_conv)
    then show ?thesis using piece [OF hit(4)] assms(1) less.prems hit(1) by (simp add: unfold)
  qed
qed

lemma sum_pieces:
  assumes "sep \<noteq> []"
  shows "sum_list (map length (vt_str_split_loop s sep 0)) + vt_str_count s sep * length sep = length s"
    and "length (vt_str_split_loop s sep 0) = vt_str_count s sep + 1"
proof -
  show k: "length (vt_str_split_loop s sep 0) = vt_str_count s sep + 1"
    using count_loop_split [OF assms, of 0 s 0] assms by (simp add: vt_str_count_def)
  have "length (join_with sep (vt_str_split_loop s sep 0)) = length s"
    by (simp add: join_split_loop [OF assms])
  then show "sum_list (map length (vt_str_split_loop s sep 0)) + vt_str_count s sep * length sep = length s"
    using length_join_with [OF split_loop_ne [OF assms, of 0 s], of sep] by (simp add: k)
qed

text \<open>The buffer of \<open>vt_str_replace\<close> is filled exactly.\<close>

lemma replace_loop_length:
  assumes "old \<noteq> []"
  shows "int (length (vt_str_replace_loop s old neu 0 [])) = replace_total s old neu"
proof -
  have "length (vt_str_replace_loop s old neu 0 []) =
      sum_list (map length (vt_str_split_loop s old 0)) + vt_str_count s old * length neu"
    using replace_loop_split [OF assms, of 0 s neu "[]"] sum_pieces(2) [OF assms, of s]
      length_join_with [OF split_loop_ne [OF assms, of 0 s], of neu] by simp
  moreover have "int (sum_list (map length (vt_str_split_loop s old 0))) =
      int (length s) - int (vt_str_count s old) * int (length old)"
    using arg_cong [OF sum_pieces(1) [OF assms, of s], of int] by simp
  ultimately show ?thesis by (simp add: replace_total_def algebra_simps)
qed

lemma vt_str_replace_loop_all:
  assumes "old \<noteq> []"
  shows "vt_str_replace s old neu = join_with neu (vt_str_split s old)"
proof (cases "vt_str_count s old = 0")
  case True
  then have "length (vt_str_split_loop s old 0) = 1" using sum_pieces(2) [OF assms, of s] by simp
  then obtain p where "vt_str_split_loop s old 0 = [p]" by (auto simp: length_Suc_conv)
  with join_split_loop [OF assms, of 0 s] have "vt_str_split_loop s old 0 = [s]" by simp
  then show ?thesis using True assms by (simp add: vt_str_replace_def vt_str_split_def)
next
  case False
  then show ?thesis
    using assms replace_loop_length [OF assms, of s neu] replace_loop_split [OF assms, of 0 s neu "[]"]
    by (simp add: vt_str_replace_def vt_str_split_def)
qed

section \<open>Printing and parsing integers\<close>

lemma u64_text_length: "length (u64_text v) \<le> 20"
proof -
  have "unat v < 10 ^ 20" using unat_lt64 [of v] by simp
  then show ?thesis using u64_tmp_length [of "unat v" 20] by (simp add: u64_text_def)
qed

lemma i64_text_length: "length (i64_text v) \<le> 21"
  using u64_text_length [of v] u64_text_length [of "- (v + 1) + 1"]
  by (simp add: i64_text_def)

lemma render_lld: "fmt_render ''%lld'' [ALld v] = Some (i64_text v)"
  by (simp add: conv_text_def)

lemma lld_buffer:
  obtains b where "vt_snprintf (replicate 32 (CHR 0x00)) ''%lld'' [ALld v] = Some (b, length (i64_text v))"
    and "take (length (i64_text v)) b = i64_text v"
proof -
  have len: "length (i64_text v) \<le> 21" by (rule i64_text_length)
  show thesis
    by (rule vt_snprintf_contents [OF render_lld, of "replicate 32 (CHR 0x00)" v])
      (use len that in \<open>auto simp: min_def\<close>)
qed

lemma vt_str_from_int_text: "vt_str_from_int v = i64_text v"
  by (rule lld_buffer [of v]) (simp add: vt_str_from_int_def)

lemma is_digit_byte_iff [simp]: "is_digit_byte c = is_digit c"
  by (simp add: is_digit_byte_def is_digit_def less_eq_char_def)

lemma is_digit_not_space: "is_digit c \<Longrightarrow> \<not> str_is_space c"
  by (auto simp: is_digit_def str_is_space_def)

lemma is_digit_not_sign: "is_digit c \<Longrightarrow> c \<noteq> CHR ''+'' \<and> c \<noteq> CHR ''-''"
  by (auto simp: is_digit_def)

abbreviation digit_step :: "nat \<Rightarrow> char \<Rightarrow> nat" where
  "digit_step \<equiv> \<lambda>a c. a * 10 + (of_char c - 48)"

lemma digit_fold_ge: "a \<le> foldl digit_step a ds"
proof (induction ds arbitrary: a)
  case (Cons c ds)
  have "a \<le> digit_step a c" by simp
  also have "\<dots> \<le> foldl digit_step (digit_step a c) ds" by (rule Cons.IH)
  finally show ?case by simp
qed simp

text \<open>The limit test \<open>v > (lim - d) / 10\<close> is exact on unsigned 64-bit values.\<close>

lemma limit_test:
  assumes "d < 10" "9 \<le> unat (lim :: u64)"
  shows "v > (lim - of_nat d) div 10 \<longleftrightarrow> unat v * 10 + d > unat lim"
proof -
  have d: "unat (of_nat d :: u64) = d" using assms(1) by (simp add: unat_of_nat64)
  have "of_nat d \<le> lim" using assms d by (simp add: word_le_nat_alt)
  then have "unat (lim - of_nat d) = unat lim - d" by (simp add: unat_sub d)
  then have "unat ((lim - of_nat d) div 10) = (unat lim - d) div 10"
    by (simp add: unat_div_distrib)
  then have "v > (lim - of_nat d) div 10 \<longleftrightarrow> unat v > (unat lim - d) div 10"
    by (simp add: word_less_nat_alt)
  also have "\<dots> \<longleftrightarrow> unat v * 10 + d > unat lim"
    using assms by (simp add: div_less_iff_less_mult) arith
  finally show ?thesis .
qed

lemma to_int_loop_digits:
  assumes "\<forall>c \<in> set ds. is_digit c" "rest = [] \<or> \<not> is_digit (hd rest)"
    and "9 \<le> unat lim" "unat v \<le> unat lim"
  shows "vt_str_to_int_loop lim v (ds @ rest) =
    (if foldl digit_step (unat v) ds \<le> unat lim
     then Inr (of_nat (foldl digit_step (unat v) ds), rest)
     else Inl (Panic ''to_int: integer overflow''))"
  using assms(1,4)
proof (induction ds arbitrary: v)
  case Nil
  then show ?case using assms(2) by (cases rest) simp_all
next
  case (Cons c ds)
  let ?d = "of_char c - 48 :: nat"
  have d: "?d < 10" and dig: "is_digit c" using Cons.prems(1) by (auto simp: is_digit_def)
  have test: "v > (lim - of_nat ?d) div 10 \<longleftrightarrow> unat v * 10 + ?d > unat lim"
    by (rule limit_test [OF d assms(3)])
  show ?case
  proof (cases "unat v * 10 + ?d > unat lim")
    case True
    then have "foldl digit_step (unat v) (c # ds) > unat lim"
      using digit_fold_ge [of "digit_step (unat v) c" ds] by simp
    then show ?thesis using True test dig by (simp add: Let_def)
  next
    case False
    have "unat v * 10 + ?d < 18446744073709551616"
      using False unat_lt64 [of lim] by linarith
    then have step: "unat (v * 10 + of_nat ?d) = unat v * 10 + ?d"
      by (simp add: unat_word_ariths unat_of_nat take_bit_eq_mod mod_simps)
    then have "vt_str_to_int_loop lim (v * 10 + of_nat ?d) (ds @ rest) =
       (if foldl digit_step (unat v * 10 + ?d) ds \<le> unat lim
        then Inr (of_nat (foldl digit_step (unat v * 10 + ?d) ds), rest)
        else Inl (Panic ''to_int: integer overflow''))"
      using Cons.IH [of "v * 10 + of_nat ?d"] Cons.prems False by simp
    then show ?thesis using False test dig by (simp add: Let_def)
  qed
qed

text \<open>What \<open>vt_str_to_int\<close> accepts: white space, an optional sign, digits, white space.\<close>

definition int_literal :: "string \<Rightarrow> string \<Rightarrow> string \<Rightarrow> string \<Rightarrow> bool" where
  "int_literal sp1 sg ds sp2 \<longleftrightarrow>
     (\<forall>c \<in> set sp1. str_is_space c) \<and> sg \<in> {[], ''+'', ''-''} \<and> ds \<noteq> [] \<and>
     (\<forall>c \<in> set ds. is_digit c) \<and> (\<forall>c \<in> set sp2. str_is_space c)"

definition literal_value :: "string \<Rightarrow> string \<Rightarrow> int" where
  "literal_value sg ds = (if sg = ''-'' then - int (digits_val ds) else int (digits_val ds))"

lemma dropWhile_prefix:
  "\<forall>c \<in> set xs. P c \<Longrightarrow> ys = [] \<or> \<not> P (hd ys) \<Longrightarrow> dropWhile P (xs @ ys) = ys"
  by (induction xs) (cases ys, auto)+

lemma vt_str_to_int_literal:
  assumes "int_literal sp1 sg ds sp2"
  shows "vt_str_to_int (sp1 @ sg @ ds @ sp2) =
    (if fits64 (literal_value sg ds) then Inr (word_of_int (literal_value sg ds))
     else Inl (Panic ''to_int: integer overflow''))"
proof -
  obtain c ds' where ds: "ds = c # ds'" and c: "is_digit c"
    using assms by (cases ds) (auto simp: int_literal_def)
  have sg: "sg = [] \<or> sg = ''+'' \<or> sg = ''-''" using assms by (simp add: int_literal_def)
  have nsp: "\<not> str_is_space (hd (sg @ ds @ sp2))"
  proof (cases "sg = []")
    case True
    then show ?thesis using is_digit_not_space [OF c] by (simp add: ds)
  next
    case False
    then have "sg = ''+'' \<or> sg = ''-''" using sg by simp
    then show ?thesis by (elim disjE) (simp_all add: str_is_space_def)
  qed
  have r: "dropWhile str_is_space (sp1 @ sg @ ds @ sp2) = sg @ ds @ sp2"
    using assms nsp by (intro dropWhile_prefix) (auto simp: int_literal_def)
  have sp2: "\<forall>c \<in> set sp2. str_is_space c" and
    rest: "sp2 = [] \<or> \<not> is_digit (hd sp2)" and digs: "\<forall>c \<in> set ds. is_digit c"
    using assms is_digit_not_space by (cases sp2; auto simp: int_literal_def)+
  define lim :: u64 where "lim = (if sg = ''-'' then INT64_MAX + 1 else INT64_MAX)"
  have lim: "9 \<le> unat lim" by (simp add: lim_def)
  have loop: "vt_str_to_int_loop lim 0 (ds @ sp2) =
    (if digits_val ds \<le> unat lim then Inr (of_nat (digits_val ds), sp2)
     else Inl (Panic ''to_int: integer overflow''))"
    using to_int_loop_digits [OF digs rest lim, of 0] by (simp add: digits_val_def)
  have fits: "digits_val ds \<le> unat lim \<longleftrightarrow> fits64 (literal_value sg ds)"
    by (auto simp: lim_def literal_value_def fits64_def)
  have "vt_str_to_int (sp1 @ sg @ ds @ sp2) =
    bind_res (vt_str_to_int_loop lim 0 (ds @ sp2)) (\<lambda>(v, rest).
      if dropWhile str_is_space rest \<noteq> [] then Inl (Panic ''to_int: trailing characters'')
      else Inr (if sg = ''-'' then (if v = INT64_MAX + 1 then INT64_MIN else - v) else v))"
    using sg is_digit_not_sign [OF c] c unfolding vt_str_to_int_def r
    by (elim disjE) (simp_all add: lim_def ds Let_def split_def del: vt_str_to_int_loop.simps cong: if_cong)
  also have "\<dots> = (if fits64 (literal_value sg ds) then Inr (word_of_int (literal_value sg ds))
     else Inl (Panic ''to_int: integer overflow''))"
    unfolding loop fits by (auto simp: sp2 literal_value_def)
  finally show ?thesis .
qed

lemma to_int_loop_Inr:
  "vt_str_to_int_loop lim v s = Inr (w, rest) \<Longrightarrow> rest = dropWhile is_digit s"
  by (induction lim v s rule: vt_str_to_int_loop.induct) (auto simp: Let_def split: if_splits)

text \<open>Only literals are accepted.\<close>

lemma vt_str_to_int_only:
  assumes "vt_str_to_int s = Inr r"
  obtains sp1 sg ds sp2 where "s = sp1 @ sg @ ds @ sp2" "int_literal sp1 sg ds sp2"
proof -
  define sp1 where "sp1 = takeWhile str_is_space s"
  define t where "t = dropWhile str_is_space s"
  define sg where "sg = (if t \<noteq> [] \<and> (hd t = CHR ''+'' \<or> hd t = CHR ''-'') then [hd t] else [])"
  define u where "u = (if t \<noteq> [] \<and> (hd t = CHR ''+'' \<or> hd t = CHR ''-'') then tl t else t)"
  have t: "t = sg @ u" by (auto simp: sg_def u_def)
  have s: "s = sp1 @ t" by (simp add: sp1_def t_def)
  from assms obtain v rest where u: "u \<noteq> []" "is_digit (hd u)" and
    loop: "vt_str_to_int_loop (if t \<noteq> [] \<and> hd t = CHR ''-'' then INT64_MAX + 1 else INT64_MAX) 0 u = Inr (v, rest)" and
    tail: "dropWhile str_is_space rest = []"
    unfolding vt_str_to_int_def t_def [symmetric] Let_def u_def [symmetric]
    by (auto split: if_splits prod.splits)
  have rest: "rest = dropWhile is_digit u" by (rule to_int_loop_Inr [OF loop])
  show thesis
  proof
    show "s = sp1 @ sg @ takeWhile is_digit u @ rest" by (simp add: s t rest)
    show "int_literal sp1 sg (takeWhile is_digit u) rest"
      using u tail unfolding int_literal_def sp1_def sg_def
      by (cases u) (auto dest: set_takeWhileD simp: dropWhile_eq_Nil_conv)
  qed
qed

lemma vt_str_from_int_literal:
  obtains sg ds where "vt_str_from_int v = sg @ ds" "int_literal [] sg ds []" "literal_value sg ds = sint v"
proof (cases rule: i64_text_cases [of v, case_names neg pos])
  case neg
  then show thesis
    using u64_text_digits [of "- v"] that [of "''-''" "u64_text (- v)"]
    by (simp add: vt_str_from_int_text int_literal_def literal_value_def u64_text_val)
next
  case pos
  then show thesis
    using u64_text_digits [of v] that [of "[]" "u64_text v"]
    by (simp add: vt_str_from_int_text int_literal_def literal_value_def u64_text_val)
qed

section \<open>Further string facts\<close>

lemma vt_str_join_copy_concat:
  "vt_str_join_copy (pre @ replicate (sum_list (map (\<lambda>p. length (str_bytes p)) ps)) z) (length pre) ps =
     pre @ concat (map str_bytes ps)"
proof (induction ps arbitrary: pre)
  case (Cons p ps)
  let ?rest = "replicate (sum_list (map (\<lambda>p. length (str_bytes p)) ps)) z"
  show ?case
  proof (cases "str_bytes p = []")
    case True
    then show ?thesis using Cons.IH [of pre] by (auto simp: str_bytes_def split: option.splits)
  next
    case False
    then obtain s where p: "p = Some s" "s \<noteq> []" by (auto simp: str_bytes_def split: option.splits)
    have "memcpy_at (pre @ replicate (length s) z @ ?rest) (length pre) s = (pre @ s) @ ?rest"
      by (simp add: memcpy_at_def)
    then show ?thesis
      using Cons.IH [of "pre @ s"] p by (simp add: replicate_add)
  qed
qed simp

lemma vt_str_join_concat: "vt_str_join ps = concat (map str_bytes ps)"
proof -
  have "(\<lambda>p. case p of None \<Rightarrow> 0 | Some s \<Rightarrow> length s) = (\<lambda>p. length (str_bytes p))"
    by (rule ext) (simp add: str_bytes_def split: option.split)
  then show ?thesis
    using vt_str_join_copy_concat [of "[]" ps "CHR 0x00"] by (simp add: vt_str_join_def)
qed

text \<open>\<open>memcmp\<close> orders equally long ranges as their unsigned bytes are ordered.\<close>

lemma memcmp_sign_less:
  "length xs = length ys \<Longrightarrow>
     (memcmp_sign xs ys < 0 \<longleftrightarrow> xs < ys) \<and> (memcmp_sign xs ys = 0 \<longleftrightarrow> xs = ys)"
proof (induction xs ys rule: list_induct2)
  case (Cons x xs y ys)
  then show ?case
    using less_char_def [of x y] by (auto simp: inj_on_eq_iff [OF inj_of_char])
qed simp

lemma list_less_take:
  fixes xs ys :: "char list"
  assumes "take m xs \<noteq> take m ys" "m \<le> length xs" "m \<le> length ys"
  shows "xs < ys \<longleftrightarrow> take m xs < take m ys"
  using assms
proof (induction m arbitrary: xs ys)
  case (Suc m)
  then obtain x xs' y ys' where "xs = x # xs'" "ys = y # ys'"
    by (metis Suc_le_length_iff)
  with Suc show ?case by auto
qed simp

lemma list_less_prefix:
  fixes xs ys :: "char list"
  assumes "take (length xs) ys = xs" "length xs < length ys"
  shows "xs < ys"
  using assms
proof (induction xs arbitrary: ys)
  case Nil
  then show ?case by (cases ys) auto
next
  case (Cons x xs)
  then show ?case by (cases ys) auto
qed

definition clamped :: "string option \<Rightarrow> int \<Rightarrow> int \<Rightarrow> string" where
  "clamped s lo hi =
     (let d = str_bytes s; lo = max 0 lo; hi = min (int (length d)) hi
      in take (nat (hi - lo)) (drop (nat lo) d))"

lemma three_way:
  fixes xs ys :: "char list"
  defines "m \<equiv> min (length xs) (length ys)"
  shows "(let r = memcmp_sign (take m xs) (take m ys)
     in if r \<noteq> 0 then (if r < 0 then - 1 else 1)
        else if length xs < length ys then - 1 else if length xs > length ys then 1 else (0 :: int)) =
    (if xs < ys then - 1 else if xs = ys then 0 else 1)"
proof -
  have len: "length (take m xs) = length (take m ys)" by (simp add: m_def)
  note cmp = memcmp_sign_less [OF len]
  show ?thesis
  proof (cases "take m xs = take m ys")
    case False
    then have "xs \<noteq> ys" by auto
    moreover have "xs < ys \<longleftrightarrow> take m xs < take m ys"
      using False by (intro list_less_take) (auto simp: m_def)
    ultimately show ?thesis using cmp False by (auto simp: Let_def)
  next
    case True
    consider "length xs < length ys" | "length ys < length xs" | "length xs = length ys" by linarith
    then show ?thesis
    proof cases
      case 1
      then have "xs < ys" using True by (intro list_less_prefix) (auto simp: m_def)
      then show ?thesis using 1 cmp True by (simp add: Let_def)
    next
      case 2
      then have "ys < xs" using True by (intro list_less_prefix) (auto simp: m_def min_def)
      then show ?thesis using 2 cmp True by (auto simp: Let_def)
    next
      case 3
      then have "xs = ys" using True by (simp add: m_def)
      then show ?thesis using cmp by (simp add: Let_def)
    qed
  qed
qed

lemma vt_byte_comp_lex:
  "vt_byte_comp a alo ahi b blo bhi =
     (if clamped a alo ahi < clamped b blo bhi then - 1
      else if clamped a alo ahi = clamped b blo bhi then 0 else 1)"
proof -
  define span where "span = (\<lambda>s lo hi. max 0 (min (int (length (str_bytes s))) hi - max 0 lo))"
  have len: "int (length (clamped s lo hi)) = span s lo hi" for s lo hi
    by (auto simp: clamped_def span_def Let_def)
  have tk: "take (nat m) (clamped s lo hi) = take (nat m) (drop (nat (max 0 lo)) (str_bytes s))"
    if "m \<le> span s lo hi" for s lo hi m
    using that by (auto simp: clamped_def span_def Let_def min_def)
  let ?m = "min (span a alo ahi) (span b blo bhi)"
  have m: "nat ?m = min (length (clamped a alo ahi)) (length (clamped b blo bhi))"
    unfolding len [symmetric] by simp
  have lo: "(if lo < 0 then 0 else lo) = max 0 lo" for lo :: int by simp
  have sp: "(if min (int (length (str_bytes s))) hi < max 0 lo then max 0 lo
      else min (int (length (str_bytes s))) hi) - max 0 lo = span s lo hi" for s lo hi
    by (auto simp: span_def)
  have mn: "(if x < y then x else y) = min x y" for x y :: int by simp
  have cmp0: "(if k > 0 then memcmp_sign (take (nat k) x) (take (nat k) y) else 0) =
      memcmp_sign (take (nat k) x) (take (nat k) y)" for k x y
    by (cases "k > 0") simp_all
  have "vt_byte_comp a alo ahi b blo bhi =
    (let r = memcmp_sign (take (nat ?m) (drop (nat (max 0 alo)) (str_bytes a)))
                         (take (nat ?m) (drop (nat (max 0 blo)) (str_bytes b)))
     in if r \<noteq> 0 then (if r < 0 then - 1 else 1)
        else if span a alo ahi < span b blo bhi then - 1
        else if span a alo ahi > span b blo bhi then 1 else 0)"
    unfolding vt_byte_comp_def Let_def lo mn sp cmp0 ..
  also have "\<dots> = (let m = min (length (clamped a alo ahi)) (length (clamped b blo bhi));
      r = memcmp_sign (take m (clamped a alo ahi)) (take m (clamped b blo bhi))
     in if r \<noteq> 0 then (if r < 0 then - 1 else 1)
        else if length (clamped a alo ahi) < length (clamped b blo bhi) then - 1
        else if length (clamped a alo ahi) > length (clamped b blo bhi) then 1 else 0)"
    using tk [of ?m a alo ahi] tk [of ?m b blo bhi] unfolding len [symmetric]
    unfolding m [symmetric] by (simp add: m len [symmetric] Let_def)
  finally show ?thesis using three_way [of "clamped a alo ahi" "clamped b blo bhi"] by (simp add: Let_def)
qed

lemma trim_hi_take:
  assumes "lo \<le> hi" "hi \<le> length s"
  shows "lo \<le> trim_hi s lo hi \<and> trim_hi s lo hi \<le> hi \<and>
    (\<forall>c \<in> set (drop (trim_hi s lo hi) (take hi s)). str_is_space c) \<and>
    (trim_hi s lo hi > lo \<longrightarrow> \<not> str_is_space (s ! (trim_hi s lo hi - 1)))"
  using assms
proof (induction s lo hi rule: trim_hi.induct)
  case (1 s lo hi)
  note unfold = trim_hi.simps [of s lo hi]
  show ?case
  proof (cases "hi > lo \<and> str_is_space (s ! (hi - 1))")
    case True
    then have IH: "lo \<le> trim_hi s lo (hi - 1) \<and> trim_hi s lo (hi - 1) \<le> hi - 1 \<and>
      (\<forall>c \<in> set (drop (trim_hi s lo (hi - 1)) (take (hi - 1) s)). str_is_space c) \<and>
      (trim_hi s lo (hi - 1) > lo \<longrightarrow> \<not> str_is_space (s ! (trim_hi s lo (hi - 1) - 1)))"
      using 1(3) by (intro 1(1) [OF True]) auto
    have "take hi s = take (hi - 1) s @ [s ! (hi - 1)]"
      using True 1(3) by (metis Suc_diff_1 Suc_le_eq gr_implies_not_zero gr0I take_Suc_conv_app_nth)
    with IH True show ?thesis by (auto simp: unfold dest: in_set_dropD)
  qed (use 1 in \<open>auto simp: unfold\<close>)
qed

lemma lower_upper_byte: "lower_byte (upper_byte c) = lower_byte c"
  by (auto simp: lower_byte_def upper_byte_def less_eq_char_def)

section \<open>Properties\<close>

text \<open>Parsing what \<open>vt_str_from_int\<close> prints gives the integer back, for every 64-bit value.\<close>

theorem to_int_from_int: "vt_str_to_int (vt_str_from_int v) = Inr v"
proof (rule vt_str_from_int_literal [of v])
  fix sg ds
  assume "vt_str_from_int v = sg @ ds" "int_literal [] sg ds []" "literal_value sg ds = sint v"
  then show ?thesis
    using vt_str_to_int_literal [of "[]" sg ds "[]"] sint_lower64 [of v] sint_upper64 [of v]
    by (simp add: fits64_def)
qed

text \<open>C9: \<open>vt_str_to_int\<close> succeeds exactly on white space, an optional sign, digits and white space
  whose value fits 64 bits, and then returns that value.\<close>

theorem to_int_accepts:
  "vt_str_to_int s = Inr r \<longleftrightarrow>
     (\<exists>sp1 sg ds sp2. s = sp1 @ sg @ ds @ sp2 \<and> int_literal sp1 sg ds sp2 \<and>
        fits64 (literal_value sg ds) \<and> sint r = literal_value sg ds)"
proof
  assume r: "vt_str_to_int s = Inr r"
  then obtain sp1 sg ds sp2 where lit: "s = sp1 @ sg @ ds @ sp2" "int_literal sp1 sg ds sp2"
    by (rule vt_str_to_int_only)
  then have "fits64 (literal_value sg ds) \<and> r = word_of_int (literal_value sg ds)"
    using r vt_str_to_int_literal [OF lit(2)] by (auto split: if_splits)
  then show "\<exists>sp1 sg ds sp2. s = sp1 @ sg @ ds @ sp2 \<and> int_literal sp1 sg ds sp2 \<and>
      fits64 (literal_value sg ds) \<and> sint r = literal_value sg ds"
    using lit by (metis fits64_def sint_of_int_eq_iff)
next
  assume "\<exists>sp1 sg ds sp2. s = sp1 @ sg @ ds @ sp2 \<and> int_literal sp1 sg ds sp2 \<and>
      fits64 (literal_value sg ds) \<and> sint r = literal_value sg ds"
  then obtain sp1 sg ds sp2 where lit: "s = sp1 @ sg @ ds @ sp2" "int_literal sp1 sg ds sp2"
      "fits64 (literal_value sg ds)" and r: "sint r = literal_value sg ds" by blast
  have "r = word_of_int (literal_value sg ds)" unfolding r [symmetric] by simp
  then show "vt_str_to_int s = Inr r"
    using vt_str_to_int_literal [OF lit(2)] lit(1,3) by simp
qed

text \<open>Splitting on a non-empty separator loses nothing: joining the pieces with the separator
  gives the string back, no piece contains the separator, and there is one more piece than
  \<open>vt_str_count\<close> counts.\<close>

theorem split_join_count:
  assumes "sep \<noteq> []"
  shows "join_with sep (vt_str_split s sep) = s \<and>
    (\<forall>p \<in> set (vt_str_split s sep). \<forall>j. \<not> occurs_at sep p j) \<and>
    length (vt_str_split s sep) = vt_str_count s sep + 1"
  using assms join_split_loop [OF assms, of 0 s] split_loop_clean [OF assms, of 0 s]
    sum_pieces(2) [OF assms, of s] by (simp add: vt_str_split_def)

theorem split_join_count_witness:
  "join_with '', '' (vt_str_split ''a, b'' '', '') = ''a, b'' \<and>
   length (vt_str_split ''a, b'' '', '') = vt_str_count ''a, b'' '', '' + 1"
  using split_join_count [of "'', ''" "''a, b''"] by simp



text \<open>\<open>vt_byte_comp\<close> is the three-way lexicographic comparison of the two clamped ranges, so any
  offsets give a defined answer.\<close>

theorem byte_comp_lexicographic:
  "vt_byte_comp a alo ahi b blo bhi =
     (if clamped a alo ahi < clamped b blo bhi then - 1
      else if clamped a alo ahi = clamped b blo bhi then 0 else 1)"
  by (rule vt_byte_comp_lex)

end
