(* ===== verification/Vt_Weak.thy ===== *)
theory Vt_Weak
  imports Vt_Prelude
begin

text \<open>
  The registry of weak references (\<open>runtime/vyto_rt.c\<close>: \<open>weak_hash\<close>, \<open>weak_detach\<close>,
  \<open>weak_attach\<close>, \<open>vt_weak_set\<close>, \<open>vt_weak_drop\<close>, \<open>vt_weak_on_free\<close>). Pointers and
  slot addresses are natural numbers, 0 is NULL. The table has one chain of entries
  per bucket; an entry is a target with the list of slots that hold it. The contents
  of the weak slots are part of the state, because the registry writes them.
\<close>

section \<open>Model\<close>

type_synonym ptr = nat
type_synonym slot = nat
type_synonym chain = "(ptr \<times> slot list) list"

record weak_st =
  w_tab :: "nat \<Rightarrow> chain"
  w_live :: int
  w_slot :: "slot \<Rightarrow> ptr"

definition weak_init :: weak_st where
  "weak_init = \<lparr>w_tab = (\<lambda>_. []), w_live = 0, w_slot = (\<lambda>_. 0)\<rparr>"

definition weak_hash :: "ptr \<Rightarrow> nat" where
  "weak_hash p = (p div 16) mod 1024"

text \<open>The walk of \<open>weak_detach\<close> over one chain; the flag says that a node was freed.\<close>

fun chain_detach :: "slot \<Rightarrow> ptr \<Rightarrow> chain \<Rightarrow> chain \<times> bool" where
  "chain_detach s t [] = ([], False)"
| "chain_detach s t ((u, ss) # es) =
     (if u \<noteq> t then (let (es', r) = chain_detach s t es in ((u, ss) # es', r))
      else let ss' = (if s \<in> set ss then remove1 s ss else ss)
           in (if ss' = [] then es else (u, ss') # es, s \<in> set ss))"

definition weak_detach :: "slot \<Rightarrow> ptr \<Rightarrow> weak_st \<Rightarrow> weak_st" where
  "weak_detach s t w =
     (let (c, removed) = chain_detach s t (w_tab w (weak_hash t))
      in w\<lparr>w_tab := (w_tab w)(weak_hash t := c),
           w_live := (if removed then w_live w - 1 else w_live w)\<rparr>)"

fun chain_push :: "slot \<Rightarrow> ptr \<Rightarrow> chain \<Rightarrow> chain option" where
  "chain_push s t [] = None"
| "chain_push s t ((u, ss) # es) =
     (if u = t then Some ((u, s # ss) # es) else map_option ((#) (u, ss)) (chain_push s t es))"

text \<open>\<open>eo\<close> and \<open>no\<close> say whether the allocations of a new entry and of a new node
  succeed; a failed one ends the program (\<open>vt_oom\<close>).\<close>

definition weak_attach :: "bool \<Rightarrow> bool \<Rightarrow> slot \<Rightarrow> ptr \<Rightarrow> weak_st \<Rightarrow> weak_st res" where
  "weak_attach eo no s t w =
     (let c = w_tab w (weak_hash t); p = chain_push s t c;
          c' = (case p of None \<Rightarrow> (t, [s]) # c | Some c' \<Rightarrow> c')
      in if p = None \<and> \<not> eo then Inl Oom
         else if \<not> no then Inl Oom
         else Inr (w\<lparr>w_tab := (w_tab w)(weak_hash t := c'), w_live := w_live w + 1\<rparr>))"

definition vt_weak_set :: "bool \<Rightarrow> bool \<Rightarrow> slot \<Rightarrow> ptr \<Rightarrow> weak_st \<Rightarrow> weak_st res" where
  "vt_weak_set eo no s t w =
     (let old = w_slot w s in
      if old = t then Inr w
      else let w1 = (if old \<noteq> 0 then weak_detach s old w else w);
               w2 = w1\<lparr>w_slot := (w_slot w1)(s := t)\<rparr>
           in if t \<noteq> 0 then weak_attach eo no s t w2 else Inr w2)"

definition vt_weak_drop :: "slot \<Rightarrow> weak_st \<Rightarrow> weak_st" where
  "vt_weak_drop s w =
     (let old = w_slot w s;
          w1 = (if old \<noteq> 0 then weak_detach s old w else w)
      in w1\<lparr>w_slot := (w_slot w1)(s := 0)\<rparr>)"

fun chain_take :: "ptr \<Rightarrow> chain \<Rightarrow> slot list \<times> chain" where
  "chain_take t [] = ([], [])"
| "chain_take t ((u, ss) # es) =
     (if u \<noteq> t then (let (r, es') = chain_take t es in (r, (u, ss) # es')) else (ss, es))"

definition vt_weak_on_free :: "ptr \<Rightarrow> weak_st \<Rightarrow> weak_st" where
  "vt_weak_on_free t w =
     (let (ss, c) = chain_take t (w_tab w (weak_hash t))
      in w\<lparr>w_tab := (w_tab w)(weak_hash t := c),
           w_live := w_live w - int (length ss),
           w_slot := foldl (\<lambda>m s. m(s := 0)) (w_slot w) ss\<rparr>)"

section \<open>The registry as a set of slots per target\<close>

definition chain_slots :: "ptr \<Rightarrow> chain \<Rightarrow> slot list" where
  "chain_slots t c = (case map_of c t of None \<Rightarrow> [] | Some ss \<Rightarrow> ss)"

definition registered :: "weak_st \<Rightarrow> ptr \<Rightarrow> slot list" where
  "registered w t = chain_slots t (w_tab w (weak_hash t))"

definition chain_ok :: "nat \<Rightarrow> chain \<Rightarrow> bool" where
  "chain_ok b c \<longleftrightarrow> distinct (map fst c) \<and> (\<forall>(t, ss) \<in> set c. weak_hash t = b \<and> ss \<noteq> [] \<and> distinct ss)"

definition weak_inv :: "weak_st \<Rightarrow> bool" where
  "weak_inv w \<longleftrightarrow>
     (\<forall>b. chain_ok b (w_tab w b)) \<and>
     (\<forall>t. set (registered w t) = (if t = 0 then {} else {s. w_slot w s = t})) \<and>
     finite {s. w_slot w s \<noteq> 0} \<and>
     w_live w = int (card {s. w_slot w s \<noteq> 0})"

lemma chain_slots_simps [simp]:
  "chain_slots t [] = []"
  "chain_slots t ((u, ss) # es) = (if u = t then ss else chain_slots t es)"
  by (simp_all add: chain_slots_def)

lemma chain_slots_notin: "t \<notin> fst ` set c \<Longrightarrow> chain_slots t c = []"
  by (induction c) auto

lemma chain_detach_cons:
  "u \<noteq> t \<Longrightarrow> fst (chain_detach s t ((u, ss) # es)) = (u, ss) # fst (chain_detach s t es)"
  "fst (chain_detach s t ((t, ss) # es)) =
     (if remove1 s ss = [] then es else (t, remove1 s ss) # es)"
  by (auto simp: Let_def remove1_idem split: prod.splits)

lemma chain_detach_keys: "e \<in> set (fst (chain_detach s t c)) \<Longrightarrow> fst e \<in> fst ` set c"
proof (induction c)
  case (Cons a es)
  obtain u ss where a: "a = (u, ss)" by force
  show ?case
  proof (cases "u = t")
    case True
    then show ?thesis
      using Cons.prems by (auto simp: a chain_detach_cons simp del: chain_detach.simps split: if_splits)
  next
    case False
    then show ?thesis
      using Cons by (auto simp: a chain_detach_cons simp del: chain_detach.simps)
  qed
qed simp

lemma chain_detach_slots:
  "distinct (map fst c) \<Longrightarrow> chain_slots u (fst (chain_detach s t c)) =
     (if u = t then remove1 s (chain_slots t c) else chain_slots u c)"
  by (induction s t c rule: chain_detach.induct)
    (auto simp: Let_def chain_slots_notin remove1_idem split: prod.splits)

lemma chain_detach_flag: "snd (chain_detach s t c) \<longleftrightarrow> s \<in> set (chain_slots t c)"
  by (induction s t c rule: chain_detach.induct) (auto simp: Let_def split: prod.splits)

lemma chain_ok_Nil [simp]: "chain_ok b []"
  by (simp add: chain_ok_def)

lemma chain_ok_Cons [simp]:
  "chain_ok b ((u, ss) # es) \<longleftrightarrow>
     u \<notin> fst ` set es \<and> weak_hash u = b \<and> ss \<noteq> [] \<and> distinct ss \<and> chain_ok b es"
  by (auto simp: chain_ok_def)

lemma chain_detach_ok: "chain_ok b c \<Longrightarrow> chain_ok b (fst (chain_detach s t c))"
proof (induction c)
  case (Cons a es)
  obtain u ss where a: "a = (u, ss)" by force
  show ?case
  proof (cases "u = t")
    case True
    then show ?thesis
      using Cons.prems by (simp add: a chain_detach_cons distinct_remove1 del: chain_detach.simps)
  next
    case False
    have "u \<notin> fst ` set (fst (chain_detach s t es))"
      using Cons.prems chain_detach_keys by (fastforce simp: a)
    then show ?thesis
      using False Cons by (simp add: a chain_detach_cons del: chain_detach.simps)
  qed
qed simp

lemma chain_push_None: "chain_push s t c = None \<longleftrightarrow> t \<notin> fst ` set c"
  by (induction s t c rule: chain_push.induct) auto

lemma chain_push_Some:
  "chain_push s t c = Some c' \<Longrightarrow> map fst c' = map fst c \<and>
     chain_slots u c' = (if u = t then s # chain_slots t c else chain_slots u c)"
  by (induction s t c arbitrary: c' rule: chain_push.induct) (auto split: if_splits)

lemma chain_push_ok:
  "chain_push s t c = Some c' \<Longrightarrow> chain_ok b c \<Longrightarrow> s \<notin> set (chain_slots t c) \<Longrightarrow> chain_ok b c'"
proof (induction s t c arbitrary: c' rule: chain_push.induct)
  case (2 s t u ss es)
  then show ?case
    using chain_push_Some [of s t es] by (fastforce simp: chain_ok_def split: if_splits)
qed simp

lemma chain_take_eq:
  "distinct (map fst c) \<Longrightarrow> chain_take t c = (chain_slots t c, filter (\<lambda>e. fst e \<noteq> t) c)"
proof (induction c)
  case (Cons a es)
  have "fst a \<notin> fst ` set es \<Longrightarrow> filter (\<lambda>e. fst e \<noteq> fst a) es = es"
    by (induction es) auto
  then show ?case
    using Cons by (cases a) auto
qed simp

lemma chain_slots_filter:
  "chain_slots u (filter (\<lambda>e. fst e \<noteq> t) c) = (if u = t then [] else chain_slots u c)"
  by (induction c) auto

section \<open>Effect of the operations on the registry\<close>

lemma weak_inv_chain: "weak_inv w \<Longrightarrow> chain_ok b (w_tab w b)"
  by (simp add: weak_inv_def)

lemma weak_inv_distinct: "weak_inv w \<Longrightarrow> distinct (map fst (w_tab w b))"
  using weak_inv_chain [of w b] by (simp add: chain_ok_def)

lemma weak_inv_registered:
  "weak_inv w \<Longrightarrow> set (registered w t) = (if t = 0 then {} else {s. w_slot w s = t})"
  by (simp add: weak_inv_def)

lemma registered_distinct: "chain_ok b c \<Longrightarrow> distinct (chain_slots t c)"
  by (induction c) auto

lemma weak_init_inv: "weak_inv weak_init"
  by (simp add: weak_inv_def weak_init_def registered_def)

lemma weak_detach_slot [simp]: "w_slot (weak_detach s t w) = w_slot w"
  by (simp add: weak_detach_def split: prod.splits)

lemma weak_detach_chain:
  "chain_ok b (w_tab w b) \<Longrightarrow> chain_ok b (w_tab (weak_detach s t w) b)"
  using chain_detach_ok [of b "w_tab w b" s t] by (auto simp: weak_detach_def split: prod.splits)

lemma weak_detach_registered:
  assumes "distinct (map fst (w_tab w (weak_hash t)))"
  shows "registered (weak_detach s t w) u =
     (if u = t then remove1 s (registered w t) else registered w u)"
  using chain_detach_slots [OF assms, of u s t]
  by (auto simp: weak_detach_def registered_def split: prod.splits)

lemma weak_detach_live:
  "w_live (weak_detach s t w) = (if s \<in> set (registered w t) then w_live w - 1 else w_live w)"
  using chain_detach_flag [of s t "w_tab w (weak_hash t)"]
  by (auto simp: weak_detach_def registered_def split: prod.splits)

text \<open>Taking a slot out of the registry and clearing it: the common part of
  \<open>vt_weak_set\<close> and \<open>vt_weak_drop\<close>.\<close>

definition slot_cleared :: "slot \<Rightarrow> weak_st \<Rightarrow> weak_st" where
  "slot_cleared s w = (if w_slot w s \<noteq> 0 then weak_detach s (w_slot w s) w else w)
     \<lparr>w_slot := (w_slot w)(s := 0)\<rparr>"

lemma registered_update_slot [simp]: "registered (w\<lparr>w_slot := f\<rparr>) t = registered w t"
  by (simp add: registered_def)

lemma registered_update_live [simp]: "registered (w\<lparr>w_live := n\<rparr>) t = registered w t"
  by (simp add: registered_def)

lemma slot_cleared_inv: assumes inv: "weak_inv w" shows "weak_inv (slot_cleared s w)"
proof (cases "w_slot w s = 0")
  case True
  then have "slot_cleared s w = w"
    by (simp add: slot_cleared_def fun_upd_idem)
  then show ?thesis using inv by simp
next
  case False
  let ?t = "w_slot w s"
  have eq: "slot_cleared s w = weak_detach s ?t w\<lparr>w_slot := (w_slot w)(s := 0)\<rparr>"
    using False by (simp add: slot_cleared_def)
  have dist: "distinct (registered w ?t)"
    using registered_distinct [OF weak_inv_chain [OF inv]] by (simp add: registered_def)
  have reg: "set (registered (slot_cleared s w) u) = (if u = 0 then {} else {r. w_slot (slot_cleared s w) r = u})" for u
    using False weak_inv_registered [OF inv, of u] weak_inv_registered [OF inv, of ?t] dist
    by (auto simp: eq weak_detach_registered [OF weak_inv_distinct [OF inv]] split: if_splits)
  have slots: "{r. w_slot (slot_cleared s w) r \<noteq> 0} = {r. w_slot w r \<noteq> 0} - {s}"
    by (auto simp: eq)
  have fin: "finite {r. w_slot w r \<noteq> 0}" and live: "w_live w = int (card {r. w_slot w r \<noteq> 0})"
    using inv by (simp_all add: weak_inv_def)
  have "card {r. w_slot w r \<noteq> 0} = Suc (card ({r. w_slot w r \<noteq> 0} - {s}))"
    using False fin by (intro card.remove) auto
  moreover have "s \<in> set (registered w ?t)"
    using False weak_inv_registered [OF inv, of ?t] by simp
  ultimately have "w_live (slot_cleared s w) = int (card {r. w_slot (slot_cleared s w) r \<noteq> 0})"
    using live slots by (simp add: eq weak_detach_live)
  moreover have "chain_ok b (w_tab (slot_cleared s w) b)" for b
    using weak_detach_chain [OF weak_inv_chain [OF inv]] by (simp add: eq)
  ultimately show ?thesis
    using reg slots fin unfolding weak_inv_def by auto
qed

lemma vt_weak_drop_eq: "vt_weak_drop s w = slot_cleared s w"
  by (auto simp: vt_weak_drop_def slot_cleared_def)

lemma vt_weak_set_eq:
  "vt_weak_set eo no s t w =
     (if w_slot w s = t then Inr w
      else if t = 0 then Inr (slot_cleared s w)
      else weak_attach eo no s t (slot_cleared s w\<lparr>w_slot := (w_slot w)(s := t)\<rparr>))"
  by (auto simp: vt_weak_set_def slot_cleared_def Let_def)

lemma weak_attach_effect:
  assumes "weak_attach eo no s t w = Inr w'" "chain_ok (weak_hash t) (w_tab w (weak_hash t))"
    "s \<notin> set (registered w t)"
  shows "w_slot w' = w_slot w" "w_live w' = w_live w + 1"
    "registered w' u = (if u = t then s # registered w t else registered w u)"
    "chain_ok b (w_tab w b) \<Longrightarrow> chain_ok b (w_tab w' b)"
proof -
  let ?c = "w_tab w (weak_hash t)"
  define c' where "c' = (case chain_push s t ?c of None \<Rightarrow> (t, [s]) # ?c | Some c' \<Rightarrow> c')"
  have w': "w' = w\<lparr>w_tab := (w_tab w)(weak_hash t := c'), w_live := w_live w + 1\<rparr>"
    using assms(1) by (simp add: weak_attach_def c'_def Let_def split: if_splits)
  have slots: "chain_slots v c' = (if v = t then s # chain_slots t ?c else chain_slots v ?c)" for v
    using chain_push_Some [of s t ?c _ v]
    by (auto simp: c'_def chain_push_None chain_slots_notin split: option.splits)
  have ok: "chain_ok (weak_hash t) c'"
    using assms(2,3) chain_push_ok [of s t ?c]
    by (auto simp: c'_def chain_push_None registered_def split: option.splits)
  show "w_slot w' = w_slot w" "w_live w' = w_live w + 1"
    by (simp_all add: w')
  show "registered w' u = (if u = t then s # registered w t else registered w u)"
    by (auto simp: w' registered_def slots)
  show "chain_ok b (w_tab w b) \<Longrightarrow> chain_ok b (w_tab w' b)"
    using ok by (simp add: w')
qed

lemma slot_cleared_slot [simp]: "w_slot (slot_cleared s w) = (w_slot w)(s := 0)"
  by (simp add: slot_cleared_def)

lemma vt_weak_set_slot: "vt_weak_set eo no s t w = Inr w' \<Longrightarrow> w_slot w' = (w_slot w)(s := t)"
  by (auto simp: vt_weak_set_eq weak_attach_def Let_def fun_upd_idem split: if_splits)

lemma vt_weak_set_inv [vt_inv]:
  assumes inv: "weak_inv w" and set: "vt_weak_set eo no s t w = Inr w'"
  shows "weak_inv w'"
proof (cases "w_slot w s = t \<or> t = 0")
  case True
  then show ?thesis
    using inv set slot_cleared_inv [OF inv, of s] by (auto simp: vt_weak_set_eq split: if_splits)
next
  case False
  let ?v = "slot_cleared s w"
  let ?a = "?v\<lparr>w_slot := (w_slot w)(s := t)\<rparr>"
  have v: "weak_inv ?v" by (rule slot_cleared_inv [OF inv])
  have att: "weak_attach eo no s t ?a = Inr w'"
    using set False by (simp add: vt_weak_set_eq)
  have "s \<notin> set (registered ?v t)"
    using weak_inv_registered [OF v, of t] by auto
  then have eff: "w_slot w' = (w_slot w)(s := t)" "w_live w' = w_live ?v + 1"
    "\<And>u. registered w' u = (if u = t then s # registered ?v t else registered ?v u)"
    "\<And>b. chain_ok b (w_tab w' b)"
    using weak_attach_effect [OF att] weak_inv_chain [OF v] by auto
  have slots: "{r. w_slot w' r \<noteq> 0} = insert s {r. w_slot ?v r \<noteq> 0}"
    using False by (auto simp: eff)
  have fin: "finite {r. w_slot ?v r \<noteq> 0}" and live: "w_live ?v = int (card {r. w_slot ?v r \<noteq> 0})"
    using v by (simp_all add: weak_inv_def)
  have "w_live w' = int (card {r. w_slot w' r \<noteq> 0})"
    unfolding slots using fin live by (simp add: eff)
  moreover have "set (registered w' u) = (if u = 0 then {} else {r. w_slot w' r = u})" for u
    using weak_inv_registered [OF v, of u] weak_inv_registered [OF v, of t] False
    by (auto simp: eff)
  ultimately show ?thesis
    using eff(4) slots fin by (simp add: weak_inv_def)
qed

lemma vt_weak_drop_inv [vt_inv]: "weak_inv w \<Longrightarrow> weak_inv (vt_weak_drop s w)"
  by (simp add: vt_weak_drop_eq slot_cleared_inv)

lemma vt_weak_drop_slot [simp]: "w_slot (vt_weak_drop s w) = (w_slot w)(s := 0)"
  by (simp add: vt_weak_drop_eq)

lemma foldl_clear: "foldl (\<lambda>m s. m(s := 0)) f ss = (\<lambda>r. if r \<in> set ss then 0 else f r)"
  by (induction ss arbitrary: f) auto

lemma vt_weak_on_free_slot:
  assumes "weak_inv w" "t \<noteq> 0"
  shows "w_slot (vt_weak_on_free t w) = (\<lambda>r. if w_slot w r = t then 0 else w_slot w r)"
  using weak_inv_registered [OF assms(1), of t] assms(2)
  by (auto simp: vt_weak_on_free_def chain_take_eq [OF weak_inv_distinct [OF assms(1)]] foldl_clear
      registered_def)

lemma vt_weak_on_free_inv [vt_inv]:
  assumes inv: "weak_inv w" and t: "t \<noteq> 0"
  shows "weak_inv (vt_weak_on_free t w)"
proof -
  let ?w = "vt_weak_on_free t w"
  have eq: "?w = w\<lparr>w_tab := (w_tab w)(weak_hash t := filter (\<lambda>e. fst e \<noteq> t) (w_tab w (weak_hash t))),
      w_live := w_live w - int (length (registered w t)), w_slot := w_slot ?w\<rparr>"
    by (simp add: vt_weak_on_free_def chain_take_eq [OF weak_inv_distinct [OF inv]] registered_def)
  have reg: "registered ?w u = (if u = t then [] else registered w u)" for u
    by (subst eq) (simp add: registered_def chain_slots_filter)
  have chain: "chain_ok b (w_tab ?w b)" for b
    using weak_inv_chain [OF inv, of b]
    by (subst eq) (auto simp: chain_ok_def distinct_map_filter)
  have len: "length (registered w t) = card {r. w_slot w r = t}"
    using registered_distinct [OF weak_inv_chain [OF inv]] weak_inv_registered [OF inv, of t] t
    by (simp add: registered_def flip: distinct_card)
  have fin: "finite {r. w_slot w r \<noteq> 0}" and live: "w_live w = int (card {r. w_slot w r \<noteq> 0})"
    using inv by (simp_all add: weak_inv_def)
  have slots: "{r. w_slot ?w r \<noteq> 0} = {r. w_slot w r \<noteq> 0} - {r. w_slot w r = t}"
    by (auto simp: vt_weak_on_free_slot [OF inv t])
  have sub: "{r. w_slot w r = t} \<subseteq> {r. w_slot w r \<noteq> 0}" using t by auto
  have "w_live ?w = int (card {r. w_slot ?w r \<noteq> 0})"
    unfolding slots card_Diff_subset [OF finite_subset [OF sub fin] sub]
    using card_mono [OF fin sub] by (subst eq) (simp add: live len)
  then show ?thesis
    using reg chain slots fin weak_inv_registered [OF inv] t
    by (auto simp: weak_inv_def vt_weak_on_free_slot [OF inv t] split: if_splits)
qed

lemma weak_live_zero:
  assumes "weak_inv w" "w_live w = 0"
  shows "w_slot w r = 0"
  using assms by (auto simp: weak_inv_def)

text \<open>The shortcut of \<open>vt_release\<close>: with no registered slot the probe is skipped.\<close>

definition weak_probe :: "ptr \<Rightarrow> weak_st \<Rightarrow> weak_st" where
  "weak_probe t w = (if w_live w \<noteq> 0 then vt_weak_on_free t w else w)"

lemma weak_probe_inv [vt_inv]: "weak_inv w \<Longrightarrow> t \<noteq> 0 \<Longrightarrow> weak_inv (weak_probe t w)"
  by (simp add: weak_probe_def vt_weak_on_free_inv)

lemma weak_probe_slot:
  "weak_inv w \<Longrightarrow> t \<noteq> 0 \<Longrightarrow>
     w_slot (weak_probe t w) = (\<lambda>r. if w_slot w r = t then 0 else w_slot w r)"
  using weak_live_zero [of w] by (auto simp: weak_probe_def vt_weak_on_free_slot)

section \<open>Sequences of operations\<close>

text \<open>The abstract weak heap is the contents of the slots alone: an assignment and a
  drop write one slot, the death of an object clears the slots that hold it.\<close>

datatype weak_op = WSet slot ptr | WDrop slot | WFree ptr

fun weak_step :: "weak_op \<Rightarrow> weak_st \<Rightarrow> weak_st res" where
  "weak_step (WSet s t) w = vt_weak_set True True s t w"
| "weak_step (WDrop s) w = Inr (vt_weak_drop s w)"
| "weak_step (WFree t) w = Inr (weak_probe t w)"

fun weak_run :: "weak_op list \<Rightarrow> weak_st \<Rightarrow> weak_st res" where
  "weak_run [] w = Inr w"
| "weak_run (x # xs) w = bind_res (weak_step x w) (weak_run xs)"

fun slot_step :: "weak_op \<Rightarrow> (slot \<Rightarrow> ptr) \<Rightarrow> slot \<Rightarrow> ptr" where
  "slot_step (WSet s t) f = f(s := t)"
| "slot_step (WDrop s) f = f(s := 0)"
| "slot_step (WFree t) f = (\<lambda>r. if f r = t then 0 else f r)"

lemma vt_weak_set_total: "\<exists>w'. vt_weak_set True True s t w = Inr w'"
  by (simp add: vt_weak_set_def weak_attach_def Let_def)

lemma weak_step_refines:
  assumes inv: "weak_inv w" and x: "x \<noteq> WFree 0"
  shows "\<exists>w'. weak_step x w = Inr w' \<and> weak_inv w' \<and> w_slot w' = slot_step x (w_slot w)"
proof (cases x)
  case (WSet s t)
  then show ?thesis
    using vt_weak_set_total [of s t w] vt_weak_set_inv [OF inv] vt_weak_set_slot by fastforce
next
  case (WFree t)
  then show ?thesis
    using x inv by (simp add: vt_inv weak_probe_slot)
qed (simp_all add: inv vt_inv)

lemma weak_run_refines:
  "weak_inv w \<Longrightarrow> WFree 0 \<notin> set xs \<Longrightarrow>
     \<exists>w'. weak_run xs w = Inr w' \<and> weak_inv w' \<and> w_slot w' = fold slot_step xs (w_slot w)"
proof (induction xs arbitrary: w)
  case (Cons x xs)
  then obtain w' where "weak_step x w = Inr w'" "weak_inv w'" "w_slot w' = slot_step x (w_slot w)"
    using weak_step_refines [of w x] by auto
  then show ?case
    using Cons.IH [of w'] Cons.prems by simp
qed simp

section \<open>Properties\<close>

text \<open>C7: The weak-reference registry is exact and auto-zeroing. Any sequence of weak
  assignments, drops and object deaths runs to completion when allocation succeeds; the
  slots then hold what assigning, clearing and zeroing them one by one would give, so
  no slot holds a target that has died since its last assignment; and the side
  table holds, for every target, exactly the slots that point at it, each once, with
  the live counter equal to their number (so that skipping the probe at zero is sound).\<close>

theorem weak_registry_exact:
  assumes "WFree 0 \<notin> set xs"
  shows "\<exists>w. weak_run xs weak_init = Inr w \<and>
     w_slot w = fold slot_step xs (\<lambda>_. 0) \<and>
     (\<forall>t. t \<noteq> 0 \<longrightarrow> set (registered w t) = {s. w_slot w s = t} \<and> distinct (registered w t)) \<and>
     w_live w = int (card {s. w_slot w s \<noteq> 0})"
proof -
  obtain w where run: "weak_run xs weak_init = Inr w" and inv: "weak_inv w"
    and slots: "w_slot w = fold slot_step xs (\<lambda>_. 0)"
    using weak_run_refines [OF weak_init_inv assms] by (auto simp: weak_init_def)
  have "distinct (registered w t)" for t
    using registered_distinct [OF weak_inv_chain [OF inv]] by (simp add: registered_def)
  then show ?thesis
    using run inv slots by (auto simp: weak_inv_def)
qed

theorem weak_registry_exact_witness:
  "WFree 0 \<notin> set [WSet 8 64, WSet 9 64, WSet 10 80, WFree 64] \<and>
   (\<exists>w. weak_run [WSet 8 64, WSet 9 64, WSet 10 80, WFree 64] weak_init = Inr w \<and>
     w_slot w 8 = 0 \<and> w_slot w 9 = 0 \<and> w_slot w 10 = 80)"
proof -
  have "WFree 0 \<notin> set [WSet 8 64, WSet 9 64, WSet 10 80, WFree 64]" by simp
  then show ?thesis
    using weak_registry_exact [of "[WSet 8 64, WSet 9 64, WSet 10 80, WFree 64]"] by auto
qed

end
