(* ===== verification/Vt_RC.thy ===== *)
theory Vt_RC
  imports Vt_Weak Vt_Fmt "HOL-Library.Multiset"
begin

text \<open>
  Reference counting (\<open>runtime/vyto_rt.h\<close>: \<open>VtObj\<close>, \<open>VtType\<close>, \<open>vt_retain\<close>;
  \<open>runtime/vyto_rt.c\<close>: \<open>vt_alloc\<close>, \<open>vt_release\<close>, \<open>vt_free_now\<close>, \<open>vt_isa\<close>,
  \<open>vt_checked_cast\<close>, \<open>arr_deinit\<close>, \<open>map_deinit\<close>, \<open>closure_deinit\<close>, \<open>vt_closure_new\<close>)
  and the destructor that \<open>src/emit.c\<close> generates for a class. The heap is a partial
  map from addresses to objects; touching an address that is not in it is the value
  \<open>UseAfterFree\<close>, freeing it twice \<open>DoubleFree\<close>. A count is an integer: it never
  exceeds the number of references held in memory, so 63 bits are not exhausted.
  User code inside a \<open>deinit\<close> block is not modelled.
\<close>

section \<open>Model\<close>

text \<open>\<open>VtType\<close>: the address of the record stands for its identity, as in \<open>ty == t\<close>.\<close>

datatype vt_type = VtType (ty_id: nat) (ty_name: string) (ty_deinit: bool) (ty_parent: "vt_type option")

text \<open>What an object owns. A class instance has its fields class by class, most
  derived first, as the generated destructors visit them; an array has its owner (0
  for none), its \<open>elem_ref\<close> flag and its element slots; a map its \<open>val_ref\<close> flag and
  its entries in bucket order.\<close>

datatype fval = FPlain | FRef ptr | FWeak slot

datatype body =
    BStr
  | BClosure ptr
  | BArr ptr bool "ptr list"
  | BMap bool "(ptr \<times> ptr) list list"
  | BClass "fval list list"

record obj =
  o_rc :: int
  o_type :: "vt_type option"
  o_body :: body

record rc_st =
  r_heap :: "ptr \<rightharpoonup> obj"
  r_weak :: weak_st

datatype fault = NoFuel | UseAfterFree ptr | DoubleFree ptr | NullType ptr | RtErr rt_err

text \<open>The operations a destructor performs, in order.\<close>

datatype dop = DRelease ptr | DWeak slot

fun field_ops :: "fval \<Rightarrow> dop list" where
  "field_ops FPlain = []"
| "field_ops (FRef p) = [DRelease p]"
| "field_ops (FWeak s) = [DWeak s]"

definition class_deinit :: "fval list list \<Rightarrow> dop list" where
  "class_deinit css = concat (map (\<lambda>fs. concat (map field_ops fs)) css)"

definition arr_deinit :: "ptr \<Rightarrow> bool \<Rightarrow> ptr list \<Rightarrow> dop list" where
  "arr_deinit owner elem_ref es =
     (if owner \<noteq> 0 then [DRelease owner] else if elem_ref then map DRelease es else [])"

definition map_deinit :: "bool \<Rightarrow> (ptr \<times> ptr) list list \<Rightarrow> dop list" where
  "map_deinit val_ref bs =
     concat (map (\<lambda>b. concat (map (\<lambda>(k, v). DRelease k # (if val_ref then [DRelease v] else [])) b)) bs)"

fun body_deinit :: "body \<Rightarrow> dop list" where
  "body_deinit BStr = []"
| "body_deinit (BClosure env) = [DRelease env]"
| "body_deinit (BArr owner er es) = arr_deinit owner er es"
| "body_deinit (BMap vr bs) = map_deinit vr bs"
| "body_deinit (BClass css) = class_deinit css"

definition obj_deinit :: "obj \<Rightarrow> dop list" where
  "obj_deinit o' = (case o_type o' of None \<Rightarrow> [] | Some ty \<Rightarrow> if ty_deinit ty then body_deinit (o_body o') else [])"

text \<open>\<open>vt_alloc\<close>: the host allocator's answer is the first argument.\<close>

definition vt_alloc :: "ptr option \<Rightarrow> vt_type option \<Rightarrow> body \<Rightarrow> rc_st \<Rightarrow> fault + (ptr \<times> rc_st)" where
  "vt_alloc a ty b st =
     (case a of
        None \<Rightarrow> Inl (RtErr Oom)
      | Some p \<Rightarrow> Inr (p, st\<lparr>r_heap := (r_heap st)(p \<mapsto> \<lparr>o_rc = 1, o_type = ty, o_body = b\<rparr>)\<rparr>))"

definition vt_retain :: "ptr \<Rightarrow> rc_st \<Rightarrow> fault + rc_st" where
  "vt_retain p st =
     (if p = 0 then Inr st
      else case r_heap st p of
        None \<Rightarrow> Inl (UseAfterFree p)
      | Some o' \<Rightarrow>
          Inr (if o_rc o' \<ge> 0 then st\<lparr>r_heap := (r_heap st)(p \<mapsto> o'\<lparr>o_rc := o_rc o' + 1\<rparr>)\<rparr> else st))"

definition vt_free_now :: "ptr \<Rightarrow> rc_st \<Rightarrow> fault + rc_st" where
  "vt_free_now p st =
     (if p = 0 then Inr st
      else case r_heap st p of
        None \<Rightarrow> Inl (DoubleFree p)
      | Some _ \<Rightarrow> Inr (st\<lparr>r_heap := (r_heap st)(p := None)\<rparr>))"

text \<open>\<open>vt_release\<close> and the destructors call each other; the fuel bounds the depth of
  the cascade (C stack depth), not the number of objects freed.\<close>

function (sequential) vt_release :: "nat \<Rightarrow> ptr \<Rightarrow> rc_st \<Rightarrow> fault + rc_st"
  and run_deinit :: "nat \<Rightarrow> dop list \<Rightarrow> rc_st \<Rightarrow> fault + rc_st" where
  "vt_release 0 p st = Inl NoFuel"
| "vt_release (Suc n) p st =
     (if p = 0 then Inr st
      else case r_heap st p of
        None \<Rightarrow> Inl (UseAfterFree p)
      | Some o' \<Rightarrow>
          if o_rc o' < 0 then Inr st
          else
            let o1 = o'\<lparr>o_rc := o_rc o' - 1\<rparr>;
                st1 = st\<lparr>r_heap := (r_heap st)(p \<mapsto> o1)\<rparr>
            in if o_rc o1 = 0
               then bind_res (run_deinit n (obj_deinit o1) (st1\<lparr>r_weak := weak_probe p (r_weak st1)\<rparr>))
                      (vt_free_now p)
               else Inr st1)"
| "run_deinit n [] st = Inr st"
| "run_deinit n (DRelease p # ds) st = bind_res (vt_release n p st) (run_deinit n ds)"
| "run_deinit n (DWeak s # ds) st = run_deinit n ds (st\<lparr>r_weak := vt_weak_drop s (r_weak st)\<rparr>)"
  by pat_completeness auto
termination
  by (relation "measures [\<lambda>x. case x of Inl (n, _) \<Rightarrow> n | Inr (n, _) \<Rightarrow> n,
        \<lambda>x. case x of Inl _ \<Rightarrow> 0 | Inr (_, ds, _) \<Rightarrow> Suc (length ds)]") auto

definition vt_closure_new :: "ptr option \<Rightarrow> ptr \<Rightarrow> rc_st \<Rightarrow> fault + (ptr \<times> rc_st)" where
  "vt_closure_new a env st = vt_alloc a (Some (VtType 1 ''closure'' True None)) (BClosure env) st"

definition vt_str_immortal :: "ptr option \<Rightarrow> rc_st \<Rightarrow> fault + (ptr \<times> rc_st)" where
  "vt_str_immortal a st =
     bind_res (vt_alloc a (Some (VtType 2 ''string'' True None)) BStr st) (\<lambda>(p, st1).
       case r_heap st1 p of
         None \<Rightarrow> Inl (UseAfterFree p)
       | Some o' \<Rightarrow> Inr (p, st1\<lparr>r_heap := (r_heap st1)(p \<mapsto> o'\<lparr>o_rc := -1\<rparr>)\<rparr>))"

text \<open>\<open>vt_isa\<close> walks the parent chain.\<close>

fun isa_loop :: "vt_type option \<Rightarrow> vt_type \<Rightarrow> bool" where
  "isa_loop None t = False"
| "isa_loop (Some (VtType i nm d par)) t = (if i = ty_id t then True else isa_loop par t)"

definition vt_isa :: "ptr \<Rightarrow> vt_type \<Rightarrow> rc_st \<Rightarrow> fault + bool" where
  "vt_isa p t st =
     (if p = 0 then Inr False
      else case r_heap st p of
        None \<Rightarrow> Inl (UseAfterFree p)
      | Some o' \<Rightarrow> Inr (isa_loop (o_type o') t))"

definition cast_panic :: "string \<Rightarrow> 32 word \<Rightarrow> string \<Rightarrow> string \<Rightarrow> rt_err" where
  "cast_panic file line from_name to_name =
     Panic (fmt_msg 256 ''%s:%d: panic: invalid cast from %s to %s\<newline>''
       [AStr (Some file), AInt line, AStr (Some from_name), AStr (Some to_name)])"

definition vt_checked_cast :: "ptr \<Rightarrow> vt_type \<Rightarrow> string \<Rightarrow> 32 word \<Rightarrow> rc_st \<Rightarrow> fault + ptr" where
  "vt_checked_cast p t file line st =
     (if p = 0 then Inr 0
      else bind_res (vt_isa p t st) (\<lambda>ok.
        if ok then Inr p
        else case r_heap st p of
          None \<Rightarrow> Inl (UseAfterFree p)
        | Some o' \<Rightarrow>
            (case o_type o' of
               None \<Rightarrow> Inl (NullType p)
             | Some ty \<Rightarrow> Inl (RtErr (cast_panic file line (ty_name ty) (ty_name t))))))"

section \<open>The counting invariant\<close>

text \<open>While a cascade of releases runs, some objects are dying: their count is zero,
  their destructor has started and their memory is not yet freed. \<open>held D L st\<close> is
  the multiset of all destructor operations still owed: those of the pending list \<open>L\<close>
  (the program's own references, and the rest of the destructors that are running)
  and those of every object that is not dying.\<close>

definition live :: "ptr set \<Rightarrow> rc_st \<Rightarrow> ptr set" where
  "live D st = dom (r_heap st) - D"

definition held :: "ptr set \<Rightarrow> dop list \<Rightarrow> rc_st \<Rightarrow> dop multiset" where
  "held D L st = mset L + (\<Sum>q\<in>live D st. mset (obj_deinit (the (r_heap st q))))"

definition rc_inv :: "ptr set \<Rightarrow> dop list \<Rightarrow> rc_st \<Rightarrow> bool" where
  "rc_inv D L st \<longleftrightarrow>
     finite (dom (r_heap st)) \<and> r_heap st 0 = None \<and> weak_inv (r_weak st) \<and>
     (\<forall>p\<in>D. \<exists>o'. r_heap st p = Some o' \<and> o_rc o' = 0) \<and>
     (\<forall>p o'. p \<notin> D \<longrightarrow> r_heap st p = Some o' \<longrightarrow>
        o_rc o' < 0 \<or> (0 < o_rc o' \<and> o_rc o' = int (count (held D L st) (DRelease p)))) \<and>
     (\<forall>p. p \<noteq> 0 \<longrightarrow> DRelease p \<in># held D L st \<longrightarrow> p \<in> live D st) \<and>
     (\<forall>s. w_slot (r_weak st) s \<noteq> 0 \<longrightarrow>
        DWeak s \<in># held D L st \<and> w_slot (r_weak st) s \<in> live D st)"

lemma obj_deinit_rc [simp]: "obj_deinit (o'\<lparr>o_rc := n\<rparr>) = obj_deinit o'"
  by (simp add: obj_deinit_def split: option.split)

lemma held_weak [simp]: "held D L (st\<lparr>r_weak := w\<rparr>) = held D L st"
  by (simp add: held_def live_def)

lemma live_weak [simp]: "live D (st\<lparr>r_weak := w\<rparr>) = live D st"
  by (simp add: live_def)

lemma held_Cons: "held D (d # L) st = add_mset d (held D L st)"
  by (simp add: held_def)

lemma held_append: "held D (ds @ L) st = mset ds + held D L st"
  by (simp add: held_def ac_simps)

text \<open>An update that leaves the destructor of an object as it is, changes nothing held.\<close>

lemma live_update: "p \<in> dom (r_heap st) \<Longrightarrow> live D (st\<lparr>r_heap := (r_heap st)(p \<mapsto> o')\<rparr>) = live D st"
  by (auto simp: live_def)

lemma held_update:
  assumes "r_heap st p = Some o'" "obj_deinit o1 = obj_deinit o'"
  shows "held D L (st\<lparr>r_heap := (r_heap st)(p \<mapsto> o1)\<rparr>) = held D L st"
proof -
  have "live D (st\<lparr>r_heap := (r_heap st)(p \<mapsto> o1)\<rparr>) = live D st"
    using assms(1) by (intro live_update) auto
  then show ?thesis
    unfolding held_def using assms by (auto intro!: sum.cong arg_cong2 [where f = "(+)"])
qed

lemma held_dying:
  assumes "r_heap st p = Some o'" "p \<notin> D" "finite (dom (r_heap st))"
  shows "held (insert p D) (obj_deinit o' @ L) st = held D L st"
proof -
  have "live D st = insert p (live (insert p D) st)" "p \<notin> live (insert p D) st"
    using assms by (auto simp: live_def)
  moreover have "finite (live (insert p D) st)"
    using assms(3) by (simp add: live_def)
  ultimately show ?thesis
    using assms(1) by (simp add: held_def ac_simps)
qed

lemma held_freed: "p \<in> D \<Longrightarrow> held D L (st\<lparr>r_heap := (r_heap st)(p := None)\<rparr>) = held D L st"
  unfolding held_def live_def by (intro arg_cong2 [where f = "(+)"] sum.cong) auto

lemma rc_invD:
  assumes "rc_inv D L st"
  shows "finite (dom (r_heap st))" "r_heap st 0 = None" "weak_inv (r_weak st)"
    "\<And>p. p \<in> D \<Longrightarrow> \<exists>o'. r_heap st p = Some o' \<and> o_rc o' = 0"
    "\<And>p o'. p \<notin> D \<Longrightarrow> r_heap st p = Some o' \<Longrightarrow>
        o_rc o' < 0 \<or> (0 < o_rc o' \<and> o_rc o' = int (count (held D L st) (DRelease p)))"
    "\<And>p. p \<noteq> 0 \<Longrightarrow> DRelease p \<in># held D L st \<Longrightarrow> p \<in> live D st"
    "\<And>s. w_slot (r_weak st) s \<noteq> 0 \<Longrightarrow>
        DWeak s \<in># held D L st \<and> w_slot (r_weak st) s \<in> live D st"
  using assms unfolding rc_inv_def by blast+

lemma rc_invI:
  assumes "finite (dom (r_heap st))" "r_heap st 0 = None" "weak_inv (r_weak st)"
    "\<And>p. p \<in> D \<Longrightarrow> \<exists>o'. r_heap st p = Some o' \<and> o_rc o' = 0"
    "\<And>p o'. p \<notin> D \<Longrightarrow> r_heap st p = Some o' \<Longrightarrow>
        o_rc o' < 0 \<or> (0 < o_rc o' \<and> o_rc o' = int (count (held D L st) (DRelease p)))"
    "\<And>p. p \<noteq> 0 \<Longrightarrow> DRelease p \<in># held D L st \<Longrightarrow> p \<in> live D st"
    "\<And>s. w_slot (r_weak st) s \<noteq> 0 \<Longrightarrow>
        DWeak s \<in># held D L st \<and> w_slot (r_weak st) s \<in> live D st"
  shows "rc_inv D L st"
  using assms unfolding rc_inv_def by blast

section \<open>One step of a cascade\<close>

lemma rc_inv_forget:
  assumes inv: "rc_inv D (DRelease p # L) st"
    and p: "p = 0 \<or> (\<exists>o'. r_heap st p = Some o' \<and> o_rc o' < 0)"
  shows "rc_inv D L st"
proof (rule rc_invI)
  note I = rc_invD [OF inv, unfolded held_Cons]
  show "finite (dom (r_heap st))" "r_heap st 0 = None" "weak_inv (r_weak st)"
    and "\<And>p. p \<in> D \<Longrightarrow> \<exists>o'. r_heap st p = Some o' \<and> o_rc o' = 0"
    by (fact I)+
  show "o_rc o' < 0 \<or> (0 < o_rc o' \<and> o_rc o' = int (count (held D L st) (DRelease q)))"
    if "q \<notin> D" "r_heap st q = Some o'" for q o'
    using I(5) [OF that] p I(2) that by (auto split: if_splits)
  show "q \<in> live D st" if "q \<noteq> 0" "DRelease q \<in># held D L st" for q
    using I(6) [OF that(1)] that(2) by simp
  show "DWeak s \<in># held D L st \<and> w_slot (r_weak st) s \<in> live D st"
    if "w_slot (r_weak st) s \<noteq> 0" for s
    using I(7) [OF that] by simp
qed

lemma rc_inv_dec:
  assumes inv: "rc_inv D (DRelease p # L) st"
    and p: "r_heap st p = Some o'" "p \<notin> D" "o_rc o' > 1"
  shows "rc_inv D L (st\<lparr>r_heap := (r_heap st)(p \<mapsto> o'\<lparr>o_rc := o_rc o' - 1\<rparr>)\<rparr>)" (is "rc_inv D L ?st")
proof (rule rc_invI)
  note I = rc_invD [OF inv, unfolded held_Cons]
  have held: "held D L ?st = held D L st" by (rule held_update [OF p(1)]) simp
  have live: "live D ?st = live D st" using p(1) by (intro live_update) auto
  show "finite (dom (r_heap ?st))" "r_heap ?st 0 = None" "weak_inv (r_weak ?st)"
    using I(1-3) p(1) by (cases "p = 0"; auto)+
  show "\<exists>o'. r_heap ?st q = Some o' \<and> o_rc o' = 0" if "q \<in> D" for q
    using I(4) [OF that] that p(2) by auto
  show "o_rc u < 0 \<or> (0 < o_rc u \<and> o_rc u = int (count (held D L ?st) (DRelease q)))"
    if "q \<notin> D" "r_heap ?st q = Some u" for q u
    using that I(5) [of q "the (r_heap st q)"] p unfolding held by (auto split: if_splits)
  show "q \<in> live D ?st" if "q \<noteq> 0" "DRelease q \<in># held D L ?st" for q
    using I(6) [OF that(1)] that(2) by (simp add: held live)
  show "DWeak s \<in># held D L ?st \<and> w_slot (r_weak ?st) s \<in> live D ?st"
    if "w_slot (r_weak ?st) s \<noteq> 0" for s
    using I(7) [of s] that by (simp add: held live)
qed

lemma rc_inv_kill:
  assumes inv: "rc_inv D (DRelease p # L) st"
    and p: "r_heap st p = Some o'" "p \<notin> D" "o_rc o' = 1"
  shows "rc_inv (insert p D) (obj_deinit o' @ L)
     (st\<lparr>r_heap := (r_heap st)(p \<mapsto> o'\<lparr>o_rc := 0\<rparr>), r_weak := weak_probe p (r_weak st)\<rparr>)"
    (is "rc_inv ?D ?L ?st")
proof (rule rc_invI)
  note I = rc_invD [OF inv, unfolded held_Cons]
  let ?o = "o'\<lparr>o_rc := 0\<rparr>"
  let ?st1 = "st\<lparr>r_heap := (r_heap st)(p \<mapsto> ?o)\<rparr>"
  have p0: "p \<noteq> 0" using I(2) p(1) by (cases "p = 0") auto
  have cnt: "count (held D L st) (DRelease p) = 0"
    using I(5) [OF p(2,1)] p(3) by simp
  have "held ?D (obj_deinit ?o @ L) ?st1 = held D L ?st1"
    using p I(1) by (intro held_dying) auto
  also have "\<dots> = held D L st" by (rule held_update [OF p(1)]) simp
  finally have held: "held ?D ?L ?st = held D L st" by (simp add: held_def live_def)
  have live: "live ?D ?st = live D st - {p}" using p(1) by (auto simp: live_def)
  have slot: "w_slot (r_weak ?st) = (\<lambda>r. if w_slot (r_weak st) r = p then 0 else w_slot (r_weak st) r)"
    using weak_probe_slot [OF I(3) p0] by simp
  show "finite (dom (r_heap ?st))" "r_heap ?st 0 = None" "weak_inv (r_weak ?st)"
    using I(1,2) p0 weak_probe_inv [OF I(3) p0] by auto
  show "\<exists>o'. r_heap ?st q = Some o' \<and> o_rc o' = 0" if "q \<in> ?D" for q
    using I(4) [of q] that p(2) by auto
  show "o_rc u < 0 \<or> (0 < o_rc u \<and> o_rc u = int (count (held ?D ?L ?st) (DRelease q)))"
    if "q \<notin> ?D" "r_heap ?st q = Some u" for q u
    using that I(5) [of q u] unfolding held by auto
  show "q \<in> live ?D ?st" if "q \<noteq> 0" "DRelease q \<in># held ?D ?L ?st" for q
  proof -
    have q: "DRelease q \<in># held D L st" using that(2) by (simp only: held)
    then have "q \<noteq> p" using cnt by (auto simp flip: count_greater_zero_iff)
    then show ?thesis
      unfolding live using I(6) [OF that(1)] q by simp
  qed
  show "DWeak s \<in># held ?D ?L ?st \<and> w_slot (r_weak ?st) s \<in> live ?D ?st"
    if "w_slot (r_weak ?st) s \<noteq> 0" for s
  proof -
    have "w_slot (r_weak st) s \<noteq> p" "w_slot (r_weak st) s \<noteq> 0"
      using that unfolding slot by (auto split: if_splits)
    then show ?thesis
      using I(7) [of s] unfolding held live slot by simp
  qed
qed

lemma rc_inv_free:
  assumes inv: "rc_inv (insert p D) L st" and p: "p \<notin> D"
  shows "rc_inv D L (st\<lparr>r_heap := (r_heap st)(p := None)\<rparr>)" (is "rc_inv D L ?st")
proof (rule rc_invI)
  note I = rc_invD [OF inv]
  have live: "live D ?st = live (insert p D) st" by (auto simp: live_def)
  have held: "held D L ?st = held (insert p D) L st"
    unfolding held_def live by (auto simp: live_def intro!: sum.cong)
  show "finite (dom (r_heap ?st))" "r_heap ?st 0 = None" "weak_inv (r_weak ?st)"
    using I(1-3) by auto
  show "\<exists>o'. r_heap ?st q = Some o' \<and> o_rc o' = 0" if "q \<in> D" for q
    using I(4) [of q] that p by auto
  show "o_rc u < 0 \<or> (0 < o_rc u \<and> o_rc u = int (count (held D L ?st) (DRelease q)))"
    if "q \<notin> D" "r_heap ?st q = Some u" for q u
    using that I(5) [of q u] unfolding held by (auto split: if_splits)
  show "q \<in> live D ?st" if "q \<noteq> 0" "DRelease q \<in># held D L ?st" for q
    using I(6) [OF that(1)] that(2) by (simp add: held live)
  show "DWeak s \<in># held D L ?st \<and> w_slot (r_weak ?st) s \<in> live D ?st"
    if "w_slot (r_weak ?st) s \<noteq> 0" for s
    using I(7) [of s] that by (simp add: held live)
qed

lemma rc_inv_wdrop:
  assumes inv: "rc_inv D (DWeak s # L) st"
  shows "rc_inv D L (st\<lparr>r_weak := vt_weak_drop s (r_weak st)\<rparr>)" (is "rc_inv D L ?st")
proof (rule rc_invI)
  note I = rc_invD [OF inv, unfolded held_Cons]
  show "finite (dom (r_heap ?st))" "r_heap ?st 0 = None" "weak_inv (r_weak ?st)"
    and "\<And>p. p \<in> D \<Longrightarrow> \<exists>o'. r_heap ?st p = Some o' \<and> o_rc o' = 0"
    using I(1-4) by (auto intro: vt_weak_drop_inv)
  show "o_rc u < 0 \<or> (0 < o_rc u \<and> o_rc u = int (count (held D L ?st) (DRelease q)))"
    if "q \<notin> D" "r_heap ?st q = Some u" for q u
    using that I(5) [of q u] by simp
  show "q \<in> live D ?st" if "q \<noteq> 0" "DRelease q \<in># held D L ?st" for q
    using I(6) [OF that(1)] that(2) by simp
  show "DWeak r \<in># held D L ?st \<and> w_slot (r_weak ?st) r \<in> live D ?st"
    if "w_slot (r_weak ?st) r \<noteq> 0" for r
    using I(7) [of r] that by (auto split: if_splits)
qed

section \<open>Cascades\<close>

text \<open>Fuel above the number of live objects is enough: every nested release takes one
  object from the live to the dying.\<close>

lemma live_kill:
  assumes "finite (dom (r_heap st))" "r_heap st p = Some o'" "p \<notin> D"
  shows "card (live (insert p D) (st\<lparr>r_heap := (r_heap st)(p \<mapsto> o1), r_weak := w\<rparr>)) < card (live D st)"
proof -
  have "live (insert p D) (st\<lparr>r_heap := (r_heap st)(p \<mapsto> o1), r_weak := w\<rparr>) = live D st - {p}"
    by (auto simp: live_def)
  moreover have "p \<in> live D st" "finite (live D st)"
    using assms by (auto simp: live_def)
  ultimately show ?thesis by (metis card_Diff1_less)
qed

lemma release_cases [consumes 2, case_names noop dec kill]:
  assumes "rc_inv D (DRelease p # L) st"
    and "card (live D st) < Suc n"
  obtains "p = 0 \<or> (\<exists>o'. r_heap st p = Some o' \<and> o_rc o' < 0)" "vt_release (Suc n) p st = Inr st"
  | o' where "p \<noteq> 0" "r_heap st p = Some o'" "p \<notin> D" "o_rc o' > 1"
      "vt_release (Suc n) p st = Inr (st\<lparr>r_heap := (r_heap st)(p \<mapsto> o'\<lparr>o_rc := o_rc o' - 1\<rparr>)\<rparr>)"
  | o' where "p \<noteq> 0" "r_heap st p = Some o'" "p \<notin> D" "o_rc o' = 1"
      "vt_release (Suc n) p st = bind_res (run_deinit n (obj_deinit o')
         (st\<lparr>r_heap := (r_heap st)(p \<mapsto> o'\<lparr>o_rc := 0\<rparr>), r_weak := weak_probe p (r_weak st)\<rparr>))
         (vt_free_now p)"
proof (cases "p = 0")
  case False
  note I = rc_invD [OF assms(1), unfolded held_Cons]
  have "p \<in> live D st" using I(6) [OF False] by simp
  then obtain o' where o': "r_heap st p = Some o'" "p \<notin> D" by (auto simp: live_def)
  consider "o_rc o' < 0" | "o_rc o' > 1" | "o_rc o' = 1"
    using I(5) [OF o'(2,1)] by linarith
  then show thesis
    using that o' False by cases (auto simp: Let_def)
qed (use that in simp)

lemma cascade_ok:
  shows "rc_inv D (DRelease p # L) st \<Longrightarrow> card (live D st) < n \<Longrightarrow>
      \<exists>st'. vt_release n p st = Inr st' \<and> rc_inv D L st' \<and> live D st' \<subseteq> live D st"
    and "rc_inv D (ds @ L) st \<Longrightarrow> card (live D st) < n \<Longrightarrow>
      \<exists>st'. run_deinit n ds st = Inr st' \<and> rc_inv D L st' \<and> live D st' \<subseteq> live D st"
proof (induction n p st and n ds st arbitrary: D L and D L rule: vt_release_run_deinit.induct)
  case (2 n p st)
  show ?case
    using 2(2,3)
  proof (cases rule: release_cases)
    case noop
    then show ?thesis using rc_inv_forget [OF 2(2)] by auto
  next
    case (dec o')
    then show ?thesis using rc_inv_dec [OF 2(2) dec(2-4)] by (auto simp: live_def)
  next
    case (kill o')
    let ?st1 = "st\<lparr>r_heap := (r_heap st)(p \<mapsto> o'\<lparr>o_rc := 0\<rparr>), r_weak := weak_probe p (r_weak st)\<rparr>"
    have inv1: "rc_inv (insert p D) (obj_deinit o' @ L) ?st1"
      by (rule rc_inv_kill [OF 2(2) kill(2-4)])
    moreover have "card (live (insert p D) ?st1) < n"
      using live_kill [OF rc_invD(1) [OF 2(2)] kill(2,3)] 2(3) less_le_trans less_Suc_eq_le by metis
    ultimately obtain st2 where st2: "run_deinit n (obj_deinit o') ?st1 = Inr st2"
      "rc_inv (insert p D) L st2" "live (insert p D) st2 \<subseteq> live (insert p D) ?st1"
      using 2(1) [OF kill(1,2) _ refl refl, of "insert p D" L] kill(4) by auto
    have "\<exists>u. r_heap st2 p = Some u" using rc_invD(4) [OF st2(2), of p] by auto
    then have "vt_free_now p st2 = Inr (st2\<lparr>r_heap := (r_heap st2)(p := None)\<rparr>)"
      using kill(1) by (auto simp: vt_free_now_def)
    then have "vt_release (Suc n) p st = Inr (st2\<lparr>r_heap := (r_heap st2)(p := None)\<rparr>)"
      unfolding kill(5) st2(1) by simp
    moreover have "live D (st2\<lparr>r_heap := (r_heap st2)(p := None)\<rparr>) \<subseteq> live D st"
      using st2(3) by (auto simp: live_def dom_def)
    ultimately show ?thesis
      using rc_inv_free [OF st2(2) kill(3)] by blast
  qed
next
  case (4 n p ds st)
  obtain st1 where st1: "vt_release n p st = Inr st1" "rc_inv D (ds @ L) st1" "live D st1 \<subseteq> live D st"
    using 4(1) [of D "ds @ L"] 4(3,4) by auto
  moreover have "finite (live D st)"
    using rc_invD(1) [OF 4(3)] by (simp add: live_def)
  then have "card (live D st1) < n"
    using card_mono [OF _ st1(3)] 4(4) by simp
  ultimately show ?case using 4(2) [of D L st1] by auto
next
  case (5 n s ds st)
  show ?case
    using 5(1) [of D L] rc_inv_wdrop [of D s "ds @ L" st] 5(2,3) by auto
qed auto

section \<open>Programs over the heap\<close>

text \<open>What compiled code may do with the heap, as a step relation on a heap and the
  list \<open>R\<close> of references the program itself owns (locals, temporaries, globals).
  \<open>move\<close> stores owned references into the fields, elements or entries of an object and
  takes the old ones out, without touching counts.\<close>

definition zeroed :: "body \<Rightarrow> rc_st \<Rightarrow> bool" where
  "zeroed b st \<longleftrightarrow>
     (\<forall>d\<in>set (body_deinit b). case d of DRelease q \<Rightarrow> q = 0 | DWeak s \<Rightarrow> w_slot (r_weak st) s = 0)"

inductive rc_step :: "rc_st \<times> ptr list \<Rightarrow> rc_st \<times> ptr list \<Rightarrow> bool" where
  alloc: "p \<noteq> 0 \<Longrightarrow> r_heap st p = None \<Longrightarrow> zeroed b st \<Longrightarrow>
     vt_alloc (Some p) ty b st = Inr (p, st') \<Longrightarrow> rc_step (st, R) (st', p # R)"
| immortal: "p \<noteq> 0 \<Longrightarrow> r_heap st p = None \<Longrightarrow>
     vt_str_immortal (Some p) st = Inr (p, st') \<Longrightarrow> rc_step (st, R) (st', p # R)"
| closure: "p \<noteq> 0 \<Longrightarrow> r_heap st p = None \<Longrightarrow> env \<in> set R \<Longrightarrow>
     vt_closure_new (Some p) env st = Inr (p, st') \<Longrightarrow> rc_step (st, R) (st', p # remove1 env R)"
| retain: "p = 0 \<or> p \<in> dom (r_heap st) \<Longrightarrow> vt_retain p st = Inr st' \<Longrightarrow> rc_step (st, R) (st', p # R)"
| release: "p \<in> set R \<Longrightarrow> vt_release (Suc (card (dom (r_heap st)))) p st = Inr st' \<Longrightarrow>
     rc_step (st, R) (st', remove1 p R)"
| move: "r_heap st q = Some o' \<Longrightarrow>
     mset (map DRelease R') + mset (obj_deinit (o'\<lparr>o_body := b\<rparr>)) =
       mset (map DRelease R) + mset (obj_deinit o') \<Longrightarrow>
     st' = st\<lparr>r_heap := (r_heap st)(q \<mapsto> o'\<lparr>o_body := b\<rparr>)\<rparr> \<Longrightarrow> rc_step (st, R) (st', R')"
| weak_set: "r_heap st q = Some o' \<Longrightarrow> DWeak s \<in> set (obj_deinit o') \<Longrightarrow>
     t = 0 \<or> t \<in> dom (r_heap st) \<Longrightarrow> vt_weak_set eo no s t (r_weak st) = Inr w \<Longrightarrow>
     rc_step (st, R) (st\<lparr>r_weak := w\<rparr>, R)"

definition rc_init :: rc_st where
  "rc_init = \<lparr>r_heap = Map.empty, r_weak = weak_init\<rparr>"

abbreviation roots_inv :: "ptr list \<Rightarrow> rc_st \<Rightarrow> bool" where
  "roots_inv R st \<equiv> rc_inv {} (map DRelease R) st"

lemma rc_inv_mset: "mset L = mset L' \<Longrightarrow> rc_inv D L st = rc_inv D L' st"
  by (simp add: rc_inv_def held_def)

lemma rc_init_inv: "roots_inv [] rc_init"
  by (simp add: rc_inv_def rc_init_def held_def live_def weak_init_inv) (simp add: weak_init_def)

lemma held_alloc:
  assumes "r_heap st p = None" "finite (dom (r_heap st))"
  shows "held {} L (st\<lparr>r_heap := (r_heap st)(p \<mapsto> o')\<rparr>) = mset (obj_deinit o') + held {} L st"
proof -
  have "(\<Sum>q\<in>dom (r_heap st). mset (obj_deinit (the (((r_heap st)(p \<mapsto> o')) q)))) =
      (\<Sum>q\<in>dom (r_heap st). mset (obj_deinit (the (r_heap st q))))"
    using assms(1) by (intro sum.cong) auto
  moreover have "p \<notin> dom (r_heap st)" using assms(1) by auto
  ultimately show ?thesis
    using assms(2) by (simp add: held_def live_def)
qed

text \<open>A new object, owning the operations \<open>ds\<close> (up to null references and empty weak slots).\<close>

lemma rc_inv_alloc:
  assumes inv: "rc_inv {} (ds @ L) st" and p: "p \<noteq> 0" "r_heap st p = None"
    and o': "mset (obj_deinit o') = mset ds + N" "DRelease ` {q. q \<noteq> 0} \<inter> set_mset N = {}"
      "o_rc o' = 1 \<or> o_rc o' < 0"
  shows "rc_inv {} (DRelease p # L) (st\<lparr>r_heap := (r_heap st)(p \<mapsto> o')\<rparr>)" (is "rc_inv {} _ ?st")
proof (rule rc_invI)
  note I = rc_invD [OF inv]
  have held: "held {} (DRelease p # L) ?st = add_mset (DRelease p) (held {} (ds @ L) st + N)"
    using held_alloc [OF p(2) I(1), of L o'] o'(1) by (simp add: held_Cons held_append ac_simps)
  have live: "live {} ?st = insert p (live {} st)" by (simp add: live_def)
  have cnt: "count (held {} (DRelease p # L) ?st) (DRelease q) =
      count (held {} (ds @ L) st) (DRelease q) + (if q = p then 1 else 0)" if "q \<noteq> 0" for q
    using o'(2) that by (auto simp: held count_eq_zero_iff)
  have fresh: "count (held {} (ds @ L) st) (DRelease p) = 0"
    using I(6) [OF p(1)] p(2) by (auto simp: live_def count_eq_zero_iff)
  show "finite (dom (r_heap ?st))" "r_heap ?st 0 = None" "weak_inv (r_weak ?st)"
    using I(1-3) p(1) by auto
  show "\<exists>o'. r_heap ?st q = Some o' \<and> o_rc o' = 0" if "q \<in> {}" for q
    using that by simp
  show "o_rc u < 0 \<or> (0 < o_rc u \<and> o_rc u = int (count (held {} (DRelease p # L) ?st) (DRelease q)))"
    if "q \<notin> {}" "r_heap ?st q = Some u" for q u
  proof -
    have "q \<noteq> 0" using that I(2) p(1) by (cases "q = 0") auto
    then show ?thesis
      using cnt [of q] I(5) [of q u] fresh o'(3) that by (auto split: if_splits)
  qed
  show "q \<in> live {} ?st" if "q \<noteq> 0" "DRelease q \<in># held {} (DRelease p # L) ?st" for q
    using I(6) [OF that(1)] that o'(2) unfolding held live by auto
  show "DWeak s \<in># held {} (DRelease p # L) ?st \<and> w_slot (r_weak ?st) s \<in> live {} ?st"
    if "w_slot (r_weak ?st) s \<noteq> 0" for s
    using I(7) [of s] that unfolding held live by auto
qed

lemma rc_inv_retain:
  assumes inv: "rc_inv {} L st" and p: "p = 0 \<or> p \<in> dom (r_heap st)" and r: "vt_retain p st = Inr st'"
  shows "rc_inv {} (DRelease p # L) st'"
proof (rule rc_invI)
  note I = rc_invD [OF inv]
  have held: "held {} K st' = held {} K st" for K
    using r p held_update [of st p "the (r_heap st p)"]
    by (auto simp: vt_retain_def split: if_splits)
  have live: "live {} st' = live {} st"
    using r p by (auto simp: vt_retain_def live_def split: if_splits)
  have w: "r_weak st' = r_weak st" using r by (auto simp: vt_retain_def split: if_splits option.splits)
  have p0: "p \<noteq> 0 \<or> r_heap st' = r_heap st" using r by (auto simp: vt_retain_def)
  show "finite (dom (r_heap st'))" "weak_inv (r_weak st')"
    using I(1,3) live w by (auto simp: live_def)
  show "r_heap st' 0 = None"
    using I(2) live by (metis Diff_empty domIff live_def)
  show "\<exists>o'. r_heap st' q = Some o' \<and> o_rc o' = 0" if "q \<in> {}" for q
    using that by simp
  show "o_rc u < 0 \<or> (0 < o_rc u \<and> o_rc u = int (count (held {} (DRelease p # L) st') (DRelease q)))"
    if "q \<notin> {}" "r_heap st' q = Some u" for q u
  proof (cases "q = p")
    case True
    then have "p \<noteq> 0" using that I(2) p0 by (cases "p = 0") auto
    then show ?thesis
      using True that r p I(5) [of p] unfolding held
      by (auto simp: vt_retain_def held_Cons split: if_splits)
  next
    case False
    then have "r_heap st q = Some u"
      using that r p by (auto simp: vt_retain_def split: if_splits)
    then show ?thesis
      using False I(5) [of q u] unfolding held by (simp add: held_Cons)
  qed
  show "q \<in> live {} st'" if "q \<noteq> 0" "DRelease q \<in># held {} (DRelease p # L) st'" for q
    using I(6) [OF that(1)] that p unfolding held live by (auto simp: held_Cons live_def)
  show "DWeak s \<in># held {} (DRelease p # L) st' \<and> w_slot (r_weak st') s \<in> live {} st'"
    if "w_slot (r_weak st') s \<noteq> 0" for s
    using I(7) [of s] that unfolding held live w by (simp add: held_Cons)
qed

lemma held_body:
  assumes "r_heap st q = Some o'" "finite (dom (r_heap st))"
  shows "held {} L (st\<lparr>r_heap := (r_heap st)(q \<mapsto> o1)\<rparr>) + mset (obj_deinit o') =
     held {} L st + mset (obj_deinit o1)"
proof -
  let ?A = "dom (r_heap st)"
  have q: "q \<in> ?A" using assms(1) by auto
  have "(\<Sum>x\<in>?A - {q}. mset (obj_deinit (the (((r_heap st)(q \<mapsto> o1)) x)))) =
      (\<Sum>x\<in>?A - {q}. mset (obj_deinit (the (r_heap st x))))"
    by (intro sum.cong) auto
  then show ?thesis
    using assms q by (simp add: held_def live_def insert_absorb sum.remove [OF assms(2) q])
qed

lemma rc_inv_move:
  assumes inv: "rc_inv {} L st" and q: "r_heap st q = Some o'"
    and eq: "mset L' + mset (obj_deinit (o'\<lparr>o_body := b\<rparr>)) = mset L + mset (obj_deinit o')"
  shows "rc_inv {} L' (st\<lparr>r_heap := (r_heap st)(q \<mapsto> o'\<lparr>o_body := b\<rparr>)\<rparr>)" (is "rc_inv {} L' ?st")
proof (rule rc_invI)
  note I = rc_invD [OF inv]
  have "held {} L' ?st + mset (obj_deinit o') + mset L = held {} L st + mset (obj_deinit o') + mset L"
    using held_body [OF q I(1), of L' "o'\<lparr>o_body := b\<rparr>"] eq
    by (simp add: held_def ac_simps)
  then have held: "held {} L' ?st = held {} L st" by simp
  have live: "live {} ?st = live {} st" using q by (intro live_update) auto
  show "finite (dom (r_heap ?st))" "weak_inv (r_weak ?st)" "r_heap ?st 0 = None"
    using I(1-3) q by (auto, cases "q = 0", auto)
  show "\<exists>o'. r_heap ?st q = Some o' \<and> o_rc o' = 0" if "q \<in> {}" for q
    using that by simp
  show "o_rc u < 0 \<or> (0 < o_rc u \<and> o_rc u = int (count (held {} L' ?st) (DRelease p)))"
    if "p \<notin> {}" "r_heap ?st p = Some u" for p u
    using that I(5) [of p] q unfolding held by (auto split: if_splits)
  show "p \<in> live {} ?st" if "p \<noteq> 0" "DRelease p \<in># held {} L' ?st" for p
    using I(6) [OF that(1)] that unfolding held live by simp
  show "DWeak s \<in># held {} L' ?st \<and> w_slot (r_weak ?st) s \<in> live {} ?st"
    if "w_slot (r_weak ?st) s \<noteq> 0" for s
    using I(7) [of s] that unfolding held live by simp
qed

lemma rc_inv_weak_set:
  assumes inv: "rc_inv {} L st" and q: "r_heap st q = Some o'" "DWeak s \<in> set (obj_deinit o')"
    and t: "t = 0 \<or> t \<in> dom (r_heap st)" and w: "vt_weak_set eo no s t (r_weak st) = Inr w"
  shows "rc_inv {} L (st\<lparr>r_weak := w\<rparr>)" (is "rc_inv {} L ?st")
proof (rule rc_invI)
  note I = rc_invD [OF inv]
  have "DWeak s \<in># (\<Sum>x\<in>live {} st. mset (obj_deinit (the (r_heap st x))))"
    using q I(1) by (auto simp: live_def set_mset_sum intro!: bexI [of _ q])
  then have s: "DWeak s \<in># held {} L st" by (simp add: held_def)
  show "finite (dom (r_heap ?st))" "r_heap ?st 0 = None" "weak_inv (r_weak ?st)"
    using I(1-3) vt_weak_set_inv [OF _ w] by auto
  show "\<exists>o'. r_heap ?st q = Some o' \<and> o_rc o' = 0" if "q \<in> {}" for q
    using that by simp
  show "o_rc u < 0 \<or> (0 < o_rc u \<and> o_rc u = int (count (held {} L ?st) (DRelease p)))"
    if "p \<notin> {}" "r_heap ?st p = Some u" for p u
    using that I(5) [of p] by simp
  show "p \<in> live {} ?st" if "p \<noteq> 0" "DRelease p \<in># held {} L ?st" for p
    using I(6) [OF that(1)] that by simp
  show "DWeak r \<in># held {} L ?st \<and> w_slot (r_weak ?st) r \<in> live {} ?st"
    if "w_slot (r_weak ?st) r \<noteq> 0" for r
    using I(7) [of r] that t s vt_weak_set_slot [OF w] by (auto simp: live_def split: if_splits)
qed

lemma zeroed_null:
  assumes "zeroed b st" "DRelease q \<in> set (body_deinit b)" shows "q = 0"
  using assms by (force simp: zeroed_def)

lemma mset_roots: "p \<in> set R \<Longrightarrow> mset (map DRelease R) = mset (DRelease p # map DRelease (remove1 p R))"
  by (induction R) auto

lemma rc_inv_release_root:
  assumes inv: "roots_inv R st" and p: "p \<in> set R"
  shows "\<exists>st'. vt_release (Suc (card (dom (r_heap st)))) p st = Inr st' \<and>
     roots_inv (remove1 p R) st' \<and> dom (r_heap st') \<subseteq> dom (r_heap st)"
proof -
  have "rc_inv {} (DRelease p # map DRelease (remove1 p R)) st"
    using inv rc_inv_mset [OF mset_roots [OF p]] by simp
  from cascade_ok(1) [OF this, of "Suc (card (dom (r_heap st)))"] show ?thesis
    by (simp add: live_def del: vt_release.simps)
qed

lemma rc_step_inv: "rc_step c c' \<Longrightarrow> roots_inv (snd c) (fst c) \<Longrightarrow> roots_inv (snd c') (fst c')"
proof (induction rule: rc_step.induct)
  case (alloc p st b ty st' R)
  let ?o = "\<lparr>o_rc = 1, o_type = ty, o_body = b\<rparr>"
  have "DRelease ` {q. q \<noteq> 0} \<inter> set (obj_deinit ?o) = {}"
    using zeroed_null [OF alloc(3)] by (auto simp: obj_deinit_def split: option.splits if_splits)
  then show ?case
    using rc_inv_alloc [of "[]" "map DRelease R" st p ?o "mset (obj_deinit ?o)"] alloc
    by (simp add: vt_alloc_def)
next
  case (immortal p st st' R)
  let ?o = "\<lparr>o_rc = -1, o_type = Some (VtType 2 ''string'' True None), o_body = BStr\<rparr>"
  have "st' = st\<lparr>r_heap := (r_heap st)(p \<mapsto> ?o)\<rparr>"
    using immortal(3) by (simp add: vt_str_immortal_def vt_alloc_def)
  then show ?case
    using rc_inv_alloc [of "[]" "map DRelease R" st p ?o "{#}"] immortal by (simp add: obj_deinit_def)
next
  case (closure p st env R st')
  let ?o = "\<lparr>o_rc = 1, o_type = Some (VtType 1 ''closure'' True None), o_body = BClosure env\<rparr>"
  have "rc_inv {} ([DRelease env] @ map DRelease (remove1 env R)) st"
    using closure(5) rc_inv_mset [OF mset_roots [OF closure(3)]] by simp
  from rc_inv_alloc [OF this closure(1,2), of ?o "{#}"] show ?case
    using closure(4) by (simp add: vt_closure_new_def vt_alloc_def obj_deinit_def)
next
  case (retain p st st' R)
  then show ?case using rc_inv_retain by simp
next
  case (release p R st st')
  then show ?case using rc_inv_release_root [of R st p] by auto
next
  case (move st q o' R' b R st')
  then show ?case using rc_inv_move [of "map DRelease R" st q o' "map DRelease R'" b] by simp
next
  case (weak_set st q o' s t eo no w R)
  then show ?case using rc_inv_weak_set by simp
qed

lemma rc_reachable_inv: "rc_step\<^sup>*\<^sup>* (rc_init, []) (st, R) \<Longrightarrow> roots_inv R st"
proof (induction "(st, R)" arbitrary: st R rule: rtranclp_induct)
  case base
  then show ?case by (rule rc_init_inv)
next
  case (step y)
  then show ?case using rc_step_inv [of y "(st, R)"] by (cases y) auto
qed

section \<open>Subtyping\<close>

inductive ancestor :: "vt_type \<Rightarrow> vt_type \<Rightarrow> bool" where
  self: "ancestor ty ty"
| up: "ty_parent ty = Some par \<Longrightarrow> ancestor par t \<Longrightarrow> ancestor ty t"

inductive_simps ancestor_unfold: "ancestor ty t"

lemma isa_loop_ancestor: "isa_loop (Some ty) t \<longleftrightarrow> (\<exists>u. ancestor ty u \<and> ty_id u = ty_id t)"
proof (induction ty)
  case (VtType i nm d par)
  have "ancestor (VtType i nm d par) u \<longleftrightarrow>
      u = VtType i nm d par \<or> (\<exists>q. par = Some q \<and> ancestor q u)" for u
    by (subst ancestor_unfold) auto
  then show ?case using VtType by (cases par) auto
qed

section \<open>Properties\<close>



text \<open>C2: Releasing never faults. From a reachable heap, releasing any reference the
  program owns terminates (a call depth of one more than the number of objects is
  enough), never touches freed memory and never frees an object twice, leads to
  a heap that satisfies the counting invariant without that reference, frees no
  object that is still referenced and leaves no mortal object unreferenced.\<close>

theorem release_never_faults:
  assumes "rc_step\<^sup>*\<^sup>* (rc_init, []) (st, R)" "p \<in> set R"
  shows "\<exists>st'. vt_release (Suc (card (dom (r_heap st)))) p st = Inr st' \<and>
     roots_inv (remove1 p R) st' \<and> dom (r_heap st') \<subseteq> dom (r_heap st) \<and>
     (\<forall>q. q \<noteq> 0 \<longrightarrow> DRelease q \<in># held {} (map DRelease (remove1 p R)) st' \<longrightarrow> q \<in> dom (r_heap st')) \<and>
     (\<forall>q o'. r_heap st' q = Some o' \<longrightarrow> o_rc o' \<ge> 0 \<longrightarrow>
        DRelease q \<in># held {} (map DRelease (remove1 p R)) st')"
proof -
  obtain st' where st': "vt_release (Suc (card (dom (r_heap st)))) p st = Inr st'"
    "roots_inv (remove1 p R) st'" "dom (r_heap st') \<subseteq> dom (r_heap st)"
    using rc_inv_release_root [OF rc_reachable_inv [OF assms(1)] assms(2)] by blast
  have "\<forall>q o'. r_heap st' q = Some o' \<longrightarrow> o_rc o' \<ge> 0 \<longrightarrow>
      DRelease q \<in># held {} (map DRelease (remove1 p R)) st'"
    using rc_invD(5) [OF st'(2)] by (force simp flip: count_greater_zero_iff)
  moreover have "\<forall>q. q \<noteq> 0 \<longrightarrow> DRelease q \<in># held {} (map DRelease (remove1 p R)) st' \<longrightarrow> q \<in> dom (r_heap st')"
    using rc_invD(6) [OF st'(2)] by (simp add: live_def)
  ultimately show ?thesis using st' by blast
qed

theorem release_never_faults_witness:
  "rc_step\<^sup>*\<^sup>* (rc_init, []) (rc_init\<lparr>r_heap := [16 \<mapsto> \<lparr>o_rc = 1, o_type = None, o_body = BStr\<rparr>]\<rparr>, [16]) \<and>
   16 \<in> set [16 :: nat] \<and>
   (\<exists>st'. vt_release 2 16 (rc_init\<lparr>r_heap := [16 \<mapsto> \<lparr>o_rc = 1, o_type = None, o_body = BStr\<rparr>]\<rparr>) = Inr st' \<and>
      roots_inv [] st')"
proof -
  let ?st = "rc_init\<lparr>r_heap := [16 \<mapsto> \<lparr>o_rc = 1, o_type = None, o_body = BStr\<rparr>]\<rparr>"
  have "rc_step (rc_init, []) (?st, [16])"
    by (rule rc_step.alloc [where b = BStr and ty = None]) (simp_all add: rc_init_def zeroed_def vt_alloc_def)
  then have r: "rc_step\<^sup>*\<^sup>* (rc_init, []) (?st, [16])" by (rule r_into_rtranclp)
  have two: "Suc (card (dom (r_heap ?st))) = 2" by simp
  show ?thesis using r release_never_faults [OF r, of 16, unfolded two] by auto
qed

text \<open>A checked cast returns the object exactly when its type or one of its ancestors
  is the target type (types compared by identity), passes null through, and otherwise
  panics with both type names.\<close>

theorem checked_cast_subtype:
  "r_heap st p = Some o' \<Longrightarrow> p \<noteq> 0 \<Longrightarrow> o_type o' = Some ty \<Longrightarrow>
     vt_checked_cast p t file line st =
       (if \<exists>u. ancestor ty u \<and> ty_id u = ty_id t then Inr p
        else Inl (RtErr (cast_panic file line (ty_name ty) (ty_name t))))"
  by (simp add: vt_checked_cast_def vt_isa_def isa_loop_ancestor)

theorem checked_cast_subtype_witness:
  "vt_checked_cast 16 (VtType 7 ''Shape'' True None) ''a.vt'' 3
     (rc_init\<lparr>r_heap := [16 \<mapsto> \<lparr>o_rc = 1,
        o_type = Some (VtType 8 ''Circle'' True (Some (VtType 7 ''Shape'' True None))), o_body = BClass []\<rparr>]\<rparr>)
   = Inr 16"
proof -
  let ?s = "VtType 7 ''Shape'' True None"
  have "ancestor (VtType 8 ''Circle'' True (Some ?s)) ?s"
    by (rule ancestor.up [OF _ ancestor.self]) simp
  then have "\<exists>u. ancestor (VtType 8 ''Circle'' True (Some ?s)) u \<and> ty_id u = ty_id ?s" by blast
  then show ?thesis
    by (subst checked_cast_subtype [where ty = "VtType 8 ''Circle'' True (Some ?s)"]) auto
qed

end
