(* ===== verification/Vt_Sort.thy ===== *)
theory Vt_Sort
  imports Vt_Prelude Vt_Str "HOL-Library.Multiset"
begin

text \<open>
  \<open>vt_arr_msort\<close> of \<open>runtime/vyto_rt.c\<close>: the bottom-up merge sort between the array's
  buffer and a scratch buffer, and the insertion sort used when the scratch buffer
  cannot be allocated. A buffer is a list of element slots; the comparator is a
  parameter, with the laws of a total preorder as the interface \<open>vt_comparator\<close>.
\<close>

section \<open>Model\<close>

text \<open>The three loops of one merge of \<open>src[lo, mid)\<close> and \<open>src[mid, hi)\<close> into \<open>to\<close>.\<close>

function copy_run :: "'a list \<Rightarrow> nat \<Rightarrow> nat \<Rightarrow> nat \<Rightarrow> 'a list \<Rightarrow> nat \<times> 'a list" where
  "copy_run src hi i k to =
     (if i < hi then copy_run src hi (i + 1) (k + 1) (to[k := src ! i]) else (k, to))"
  by pat_completeness auto
termination by (relation "measure (\<lambda>(src, hi, i, k, to). hi - i)") auto

function merge_run ::
  "('a \<Rightarrow> 'a \<Rightarrow> int) \<Rightarrow> 'a list \<Rightarrow> nat \<Rightarrow> nat \<Rightarrow> nat \<Rightarrow> nat \<Rightarrow> nat \<Rightarrow> 'a list \<Rightarrow> 'a list" where
  "merge_run cmp src mid hi i j k to =
     (if i < mid \<and> j < hi then
        if cmp (src ! j) (src ! i) < 0
        then merge_run cmp src mid hi i (j + 1) (k + 1) (to[k := src ! j])
        else merge_run cmp src mid hi (i + 1) j (k + 1) (to[k := src ! i])
      else let (k1, to1) = copy_run src mid i k to in snd (copy_run src hi j k1 to1))"
  by pat_completeness auto
termination by (relation "measure (\<lambda>(cmp, src, mid, hi, i, j, k, to). (mid - i) + (hi - j))") auto

text \<open>One pass over all pairs of runs of width \<open>w\<close>, and the passes of doubling width; the
  guard \<open>0 < w\<close> always holds, the first width being 1.\<close>

function merge_pass :: "('a \<Rightarrow> 'a \<Rightarrow> int) \<Rightarrow> nat \<Rightarrow> nat \<Rightarrow> nat \<Rightarrow> 'a list \<Rightarrow> 'a list \<Rightarrow> 'a list" where
  "merge_pass cmp n w lo src to =
     (if lo < n \<and> 0 < w then
        let mid = (if lo + w > n then n else lo + w);
            hi = (if lo + 2 * w > n then n else lo + 2 * w)
        in merge_pass cmp n w (lo + 2 * w) src (merge_run cmp src mid hi lo mid lo to)
      else to)"
  by pat_completeness auto
termination by (relation "measure (\<lambda>(cmp, n, w, lo, src, to). n - lo)") auto

function msort_loop :: "('a \<Rightarrow> 'a \<Rightarrow> int) \<Rightarrow> nat \<Rightarrow> nat \<Rightarrow> 'a list \<Rightarrow> 'a list \<Rightarrow> 'a list" where
  "msort_loop cmp n w src to =
     (if w < n \<and> 0 < w then msort_loop cmp n (w * 2) (merge_pass cmp n w 0 src to) src else src)"
  by pat_completeness auto
termination by (relation "measure (\<lambda>(cmp, n, w, src, to). n - w)") auto

declare copy_run.simps [simp del] merge_run.simps [simp del] merge_pass.simps [simp del]
  msort_loop.simps [simp del]

text \<open>The fallback: find the place of element \<open>i\<close> from the right, then rotate it down by
  swaps of neighbours.\<close>

fun ins_pos :: "('a \<Rightarrow> 'a \<Rightarrow> int) \<Rightarrow> 'a list \<Rightarrow> nat \<Rightarrow> nat \<Rightarrow> nat" where
  "ins_pos cmp xs i 0 = 0"
| "ins_pos cmp xs i (Suc j) = (if cmp (xs ! j) (xs ! i) > 0 then ins_pos cmp xs i j else Suc j)"

fun rotate_down :: "nat \<Rightarrow> nat \<Rightarrow> 'a list \<Rightarrow> 'a list" where
  "rotate_down j 0 xs = xs"
| "rotate_down j (Suc k) xs = (if Suc k > j then rotate_down j k (swap_at xs (Suc k) k) else xs)"

function isort_loop :: "('a \<Rightarrow> 'a \<Rightarrow> int) \<Rightarrow> nat \<Rightarrow> nat \<Rightarrow> 'a list \<Rightarrow> 'a list" where
  "isort_loop cmp n i xs =
     (if i < n then
        let j = ins_pos cmp xs i i
        in isort_loop cmp n (i + 1) (if j \<noteq> i then rotate_down j i xs else xs)
      else xs)"
  by pat_completeness auto
termination by (relation "measure (\<lambda>(cmp, n, i, xs). n - i)") auto

declare isort_loop.simps [simp del]

text \<open>\<open>scratch\<close> is the zeroed buffer the host allocator returned, if any.\<close>

definition vt_arr_msort :: "'a list option \<Rightarrow> ('a \<Rightarrow> 'a \<Rightarrow> int) \<Rightarrow> 'a list \<Rightarrow> 'a list" where
  "vt_arr_msort scratch cmp xs =
     (if length xs < 2 then xs
      else case scratch of
        None \<Rightarrow> isort_loop cmp (length xs) 1 xs
      | Some buf \<Rightarrow> msort_loop cmp (length xs) 1 xs buf)"

section \<open>The loops as list functions\<close>

fun merge_lists :: "('a \<Rightarrow> 'a \<Rightarrow> int) \<Rightarrow> 'a list \<Rightarrow> 'a list \<Rightarrow> 'a list" where
  "merge_lists cmp [] ys = ys"
| "merge_lists cmp xs [] = xs"
| "merge_lists cmp (x # xs) (y # ys) =
     (if cmp y x < 0 then y # merge_lists cmp (x # xs) ys else x # merge_lists cmp xs (y # ys))"

function pass_list :: "('a \<Rightarrow> 'a \<Rightarrow> int) \<Rightarrow> nat \<Rightarrow> 'a list \<Rightarrow> 'a list" where
  "pass_list cmp w xs =
     (if xs = [] \<or> w = 0 then []
      else merge_lists cmp (take w xs) (take w (drop w xs)) @ pass_list cmp w (drop (2 * w) xs))"
  by pat_completeness auto
termination by (relation "measure (\<lambda>(cmp, w, xs). length xs)") auto

declare pass_list.simps [simp del]

lemma length_merge_lists [simp]: "length (merge_lists cmp xs ys) = length xs + length ys"
  by (induction cmp xs ys rule: merge_lists.induct) auto

lemma merge_lists_Nil2 [simp]: "merge_lists cmp xs [] = xs"
  by (cases xs) auto

lemma set_merge_lists: "set (merge_lists cmp xs ys) = set xs \<union> set ys"
  by (induction cmp xs ys rule: merge_lists.induct) auto

lemma take_update_snoc: "k < length xs \<Longrightarrow> take (Suc k) (xs[k := v]) = take k xs @ [v]"
  by (simp add: take_Suc_conv_app_nth)

lemma copy_run_eq:
  assumes "i \<le> hi" "hi \<le> length src" "k + (hi - i) \<le> length to"
  shows "copy_run src hi i k to =
     (k + (hi - i), take k to @ drop i (take hi src) @ drop (k + (hi - i)) to)"
  using assms
proof (induction src hi i k to rule: copy_run.induct)
  case (1 src hi i k to)
  show ?case
  proof (cases "i < hi")
    case True
    have "drop i (take hi src) = src ! i # drop (Suc i) (take hi src)"
      using True 1(3) by (subst Cons_nth_drop_Suc [symmetric]) simp_all
    moreover have "take (Suc k) (to[k := src ! i]) = take k to @ [src ! i]"
      using True 1(4) by (intro take_update_snoc) simp
    moreover have "Suc (k + hi - Suc i) = k + hi - i" using True by simp
    ultimately show ?thesis
      using True 1 by (subst copy_run.simps) (simp add: drop_update_cancel)
  next
    case False
    then show ?thesis using 1(2-4) by (subst copy_run.simps) simp
  qed
qed

lemma length_copy_run: "length (snd (copy_run src hi i k to)) = length to"
  by (induction src hi i k to rule: copy_run.induct) (subst copy_run.simps, simp)

lemma merge_run_eq:
  assumes "i \<le> mid" "mid \<le> length src" "j \<le> hi" "hi \<le> length src"
    "k + (mid - i) + (hi - j) \<le> length to"
  shows "merge_run cmp src mid hi i j k to =
     take k to @ merge_lists cmp (drop i (take mid src)) (drop j (take hi src)) @
       drop (k + (mid - i) + (hi - j)) to"
  using assms
proof (induction cmp src mid hi i j k to rule: merge_run.induct)
  case (1 cmp src mid hi i j k to)
  show ?case
  proof (cases "i < mid \<and> j < hi")
    case True
    have di: "drop i (take mid src) = src ! i # drop (Suc i) (take mid src)"
      using True 1(4) by (subst Cons_nth_drop_Suc [symmetric]) simp_all
    have dj: "drop j (take hi src) = src ! j # drop (Suc j) (take hi src)"
      using True 1(6) by (subst Cons_nth_drop_Suc [symmetric]) simp_all
    have tk: "take (Suc k) (to[k := v]) = take k to @ [v]" for v
      using True 1(7) by (intro take_update_snoc) linarith
    show ?thesis
    proof (cases "cmp (src ! j) (src ! i) < 0")
      case lt: True
      have len: "Suc k + (mid - i) + (hi - (j + 1)) = k + (mid - i) + (hi - j)"
        using True by arith
      show ?thesis
        using True lt 1(1) 1(3-7) tk [of "src ! j"] len
        by (subst merge_run.simps) (simp add: di dj drop_update_cancel)
    next
      case ge: False
      have len: "Suc k + (mid - (i + 1)) + (hi - j) = k + (mid - i) + (hi - j)"
        using True by arith
      show ?thesis
        using True ge 1(2) 1(3-7) tk [of "src ! i"] len
        by (subst merge_run.simps) (simp add: di dj drop_update_cancel)
    qed
  next
    case False
    then have nil: "drop i (take mid src) = [] \<or> drop j (take hi src) = []" by auto
    have c1: "copy_run src mid i k to =
        (k + (mid - i), take k to @ drop i (take mid src) @ drop (k + (mid - i)) to)"
      using 1(3-7) by (intro copy_run_eq) auto
    show ?thesis
      using nil False 1(3-7)
      by (subst merge_run.simps) (auto simp: c1 copy_run_eq add.commute)
  qed
qed

lemma merge_pass_eq:
  assumes "length src = n" "length to = n" "0 < w"
  shows "merge_pass cmp n w lo src to = take lo to @ pass_list cmp w (drop lo src)"
  using assms
proof (induction cmp n w lo src to rule: merge_pass.induct)
  case (1 cmp n w lo src to)
  show ?case
  proof (cases "lo < n")
    case True
    define mid where "mid = (if lo + w > n then n else lo + w)"
    define hi where "hi = (if lo + 2 * w > n then n else lo + 2 * w)"
    have b: "lo \<le> mid" "mid \<le> hi" "hi \<le> n" by (auto simp: mid_def hi_def True less_imp_le)
    let ?m = "merge_lists cmp (drop lo (take mid src)) (drop mid (take hi src))"
    have r: "merge_run cmp src mid hi lo mid lo to = take lo to @ ?m @ drop hi to"
      using b 1(2-4) by (subst merge_run_eq) auto
    have m1: "drop lo (take mid src) = take w (drop lo src)"
      using 1(2) True by (auto simp: mid_def drop_take)
    have m2: "drop mid (take hi src) = take w (drop w (drop lo src))"
      using 1(2) True by (auto simp: mid_def hi_def drop_take ac_simps)
    have len: "length (take lo to @ ?m @ drop hi to) = n"
      using b 1(2,3) True by auto
    have "merge_pass cmp n w lo src to = merge_pass cmp n w (lo + 2 * w) src (take lo to @ ?m @ drop hi to)"
      using True 1(4) r unfolding mid_def hi_def by (subst merge_pass.simps) (simp only: Let_def simp_thms if_True)
    also have "\<dots> = take (lo + 2 * w) (take lo to @ ?m @ drop hi to) @ pass_list cmp w (drop (lo + 2 * w) src)"
      using 1(1) [OF _ mid_def hi_def] True 1(2-4) r len by simp
    also have "take (lo + 2 * w) (take lo to @ ?m @ drop hi to) = take lo to @ ?m"
      using b 1(2,3) True by (auto simp: hi_def mid_def split: if_splits)
    finally show ?thesis
      unfolding m1 m2 using True 1(2,4)
      by (subst pass_list.simps) (simp add: ac_simps)
  next
    case False
    then show ?thesis
      using 1(2-4) by (subst merge_pass.simps) (simp add: pass_list.simps)
  qed
qed

lemma length_pass_list [simp]: "0 < w \<Longrightarrow> length (pass_list cmp w xs) = length xs"
proof (induction cmp w xs rule: pass_list.induct)
  case (1 cmp w xs)
  then show ?case by (subst pass_list.simps) (auto simp: min_def)
qed

fun passes :: "('a \<Rightarrow> 'a \<Rightarrow> int) \<Rightarrow> nat \<Rightarrow> nat \<Rightarrow> 'a list \<Rightarrow> 'a list" where
  "passes cmp 0 w xs = xs"
| "passes cmp (Suc m) w xs = passes cmp m (w * 2) (pass_list cmp w xs)"

lemma msort_loop_passes:
  "length src = n \<Longrightarrow> length to = n \<Longrightarrow> 0 < w \<Longrightarrow>
     \<exists>m. msort_loop cmp n w src to = passes cmp m w src \<and> n \<le> w * 2 ^ m"
proof (induction cmp n w src to rule: msort_loop.induct)
  case (1 cmp n w src to)
  show ?case
  proof (cases "w < n")
    case True
    have p: "merge_pass cmp n w 0 src to = pass_list cmp w src"
      using 1(2-4) by (simp add: merge_pass_eq)
    obtain m where "msort_loop cmp n (w * 2) (pass_list cmp w src) src =
        passes cmp m (w * 2) (pass_list cmp w src)" "n \<le> (w * 2) * 2 ^ m"
      using 1(1) True 1(2-4) p by auto
    then show ?thesis
      using True 1(4) p by (subst msort_loop.simps) (auto intro!: exI [of _ "Suc m"])
  next
    case False
    then show ?thesis by (subst msort_loop.simps) (auto intro!: exI [of _ 0])
  qed
qed

lemma merge_induct [case_names left right both]:
  assumes "\<And>ys. P [] ys" "\<And>x xs. P (x # xs) []"
    "\<And>x xs y ys. P (x # xs) ys \<Longrightarrow> P xs (y # ys) \<Longrightarrow> P (x # xs) (y # ys)"
  shows "P xs ys"
  using assms by (induction "length xs + length ys" arbitrary: xs ys) (case_tac xs; case_tac ys; simp)+

lemma rotate_down_eq:
  "j \<le> i \<Longrightarrow> i < length xs \<Longrightarrow>
     rotate_down j i xs = take j xs @ xs ! i # drop j (take i xs) @ drop (Suc i) xs"
proof (induction i arbitrary: xs)
  case 0
  then show ?case by (cases xs) auto
next
  case (Suc i)
  show ?case
  proof (cases "Suc i = j")
    case True
    then show ?thesis using Suc(3) by (auto simp: id_take_nth_drop [symmetric])
  next
    case False
    let ?ys = "swap_at xs (Suc i) i"
    have "rotate_down j (Suc i) xs = take j ?ys @ ?ys ! i # drop j (take i ?ys) @ drop (Suc i) ?ys"
      using False Suc by (simp add: swap_at_def)
    moreover have "take j ?ys = take j xs" "?ys ! i = xs ! Suc i" "take i ?ys = take i xs"
      "drop (Suc i) ?ys = xs ! i # drop (Suc (Suc i)) xs"
      using Suc(2,3) False
      by (auto simp: swap_at_def Cons_nth_drop_Suc [symmetric] drop_update_swap)
    moreover have "drop j (take (Suc i) xs) = drop j (take i xs) @ [xs ! i]"
      using False Suc(2,3) by (simp add: take_Suc_conv_app_nth)
    ultimately show ?thesis by simp
  qed
qed

section \<open>Comparators\<close>

text \<open>The interface of a sort comparator: a total preorder, given by the sign of the result.\<close>

locale vt_comparator =
  fixes cmp :: "'a \<Rightarrow> 'a \<Rightarrow> int"
  assumes cmp_rev: "cmp x y < 0 \<longleftrightarrow> 0 < cmp y x"
    and cmp_trans: "cmp x y \<le> 0 \<Longrightarrow> cmp y z \<le> 0 \<Longrightarrow> cmp x z \<le> 0"
begin

definition ordered :: "'a list \<Rightarrow> bool" where
  "ordered = sorted_wrt (\<lambda>x y. cmp x y \<le> 0)"

abbreviation tied :: "'a \<Rightarrow> 'a \<Rightarrow> bool" where
  "tied c \<equiv> \<lambda>y. cmp c y = 0"

lemma cmp_refl [simp]: "cmp x x = 0"
  using cmp_rev [of x x] by linarith

lemma cmp_le_rev: "cmp x y \<le> 0 \<longleftrightarrow> 0 \<le> cmp y x"
  using cmp_rev [of y x] by linarith

lemma cmp_less_le_trans: "cmp x y < 0 \<Longrightarrow> cmp y z \<le> 0 \<Longrightarrow> cmp x z < 0"
  using cmp_rev cmp_trans [of y z x] cmp_trans [of z x y] cmp_le_rev
  by (metis not_less order_less_imp_le)

lemma tied_cong: "cmp c x = 0 \<Longrightarrow> cmp c y = 0 \<Longrightarrow> cmp x y = 0"
  by (metis cmp_le_rev cmp_trans order_antisym order_refl)

lemma merge_ordered: "ordered xs \<Longrightarrow> ordered ys \<Longrightarrow> ordered (merge_lists cmp xs ys)"
proof (induction xs ys rule: merge_induct)
  case (both x xs y ys)
  have xs: "\<forall>z\<in>set xs. cmp x z \<le> 0" and ys: "\<forall>z\<in>set ys. cmp y z \<le> 0"
    using both(3,4) by (simp_all add: ordered_def)
  have "\<forall>z\<in>set (x # xs). cmp y z \<le> 0" if "cmp y x < 0"
    using xs that cmp_less_le_trans [of y x] by (auto intro: less_imp_le)
  moreover have "\<forall>z\<in>set (y # ys). cmp x z \<le> 0" if "\<not> cmp y x < 0"
    using ys that cmp_trans [of x y] cmp_le_rev [of x y] by auto
  ultimately show ?case
    using both xs ys by (auto simp: ordered_def set_merge_lists)
qed (auto simp: ordered_def)

text \<open>Ties keep the left run in front of the right one.\<close>

lemma merge_tied:
  "ordered xs \<Longrightarrow> filter (tied c) (merge_lists cmp xs ys) = filter (tied c) xs @ filter (tied c) ys"
proof (induction xs ys rule: merge_induct)
  case (both x xs y ys)
  have "\<not> tied c z" if "cmp y x < 0" "tied c y" "z \<in> set (x # xs)" for z
  proof -
    have "cmp x z \<le> 0" using that both(3) by (auto simp: ordered_def)
    then have "cmp y z < 0" using that(1) cmp_less_le_trans by blast
    then show ?thesis using tied_cong [OF that(2), of z] by auto
  qed
  then have "cmp y x < 0 \<Longrightarrow> tied c y \<Longrightarrow> filter (tied c) (x # xs) = []"
    by (auto simp: filter_empty_conv)
  then show ?case
    using both by (auto simp: ordered_def)
qed auto

text \<open>\<open>runs w xs\<close>: every chunk of width \<open>w\<close> is ordered.\<close>

function runs :: "nat \<Rightarrow> 'a list \<Rightarrow> bool" where
  "runs w xs = (if xs = [] \<or> w = 0 then True else ordered (take w xs) \<and> runs w (drop w xs))"
  by pat_completeness auto
termination by (relation "measure (\<lambda>(w, xs). length xs)") auto

declare runs.simps [simp del]

lemma runs_Nil [simp]: "runs w []"
  by (subst runs.simps) simp

lemma runs_step: "0 < w \<Longrightarrow> runs w xs \<longleftrightarrow> ordered (take w xs) \<and> runs w (drop w xs)"
  by (subst runs.simps) (auto simp: ordered_def)

lemma runs_1: "runs 1 xs"
proof (induction xs)
  case (Cons x xs)
  then show ?case using runs_step [of 1 "x # xs"] by (simp add: ordered_def)
qed simp

lemma runs_drop: "0 < w \<Longrightarrow> runs w xs \<Longrightarrow> runs w (drop w xs)"
  and runs_take: "0 < w \<Longrightarrow> runs w xs \<Longrightarrow> ordered (take w xs)"
  using runs_step by blast+

lemma pass_runs: "0 < w \<Longrightarrow> runs w xs \<Longrightarrow> runs (w * 2) (pass_list cmp w xs)"
proof (induction "length xs" arbitrary: xs rule: less_induct)
  case less
  show ?case
  proof (cases "xs = []")
    case False
    let ?m = "merge_lists cmp (take w xs) (take w (drop w xs))"
    let ?r = "pass_list cmp w (drop (2 * w) xs)"
    have eq: "pass_list cmp w xs = ?m @ ?r"
      using False less(2) by (subst pass_list.simps) simp
    have m: "ordered ?m"
      using less(2,3) by (intro merge_ordered runs_take runs_drop) auto
    have r: "runs (w * 2) ?r"
      using less False runs_drop [OF less(2) runs_drop [OF less(2,3)]] by (auto simp: mult_2)
    show ?thesis
    proof (cases "2 * w \<le> length xs")
      case True
      then have "take (w * 2) (?m @ ?r) = ?m" "drop (w * 2) (?m @ ?r) = ?r" by auto
      moreover have "runs (w * 2) (?m @ ?r) \<longleftrightarrow>
          ordered (take (w * 2) (?m @ ?r)) \<and> runs (w * 2) (drop (w * 2) (?m @ ?r))"
        using less(2) by (intro runs_step) simp
      ultimately show ?thesis using m r by (simp only: eq simp_thms)
    next
      case short: False
      then have "?r = []" by (simp add: pass_list.simps)
      moreover have "take (w * 2) ?m = ?m" "drop (w * 2) ?m = []" using short by auto
      ultimately show ?thesis using m less(2) runs_step [of "w * 2" ?m] by (simp add: eq)
    qed
  qed (simp add: pass_list.simps)
qed

lemma pass_tied: "0 < w \<Longrightarrow> runs w xs \<Longrightarrow> filter (tied c) (pass_list cmp w xs) = filter (tied c) xs"
proof (induction "length xs" arbitrary: xs rule: less_induct)
  case less
  show ?case
  proof (cases "xs = []")
    case False
    have "filter (tied c) (pass_list cmp w (drop (2 * w) xs)) = filter (tied c) (drop (2 * w) xs)"
      using less False runs_drop [OF less(2) runs_drop [OF less(2,3)]] by (auto simp: mult_2)
    then have "filter (tied c) (pass_list cmp w xs) =
        filter (tied c) (take w xs @ take w (drop w xs) @ drop (2 * w) xs)"
      using False less(2) merge_tied [OF runs_take [OF less(2,3)], of c "take w (drop w xs)"]
      by (subst pass_list.simps) simp
    also have "take w xs @ take w (drop w xs) @ drop (2 * w) xs = xs"
      by (metis append_take_drop_id drop_drop mult_2)
    finally show ?thesis .
  qed (simp add: pass_list.simps)
qed

lemma passes_ok:
  "0 < w \<Longrightarrow> runs w xs \<Longrightarrow> length xs \<le> w * 2 ^ m \<Longrightarrow>
     ordered (passes cmp m w xs) \<and> filter (tied c) (passes cmp m w xs) = filter (tied c) xs"
proof (induction m arbitrary: w xs)
  case 0
  then show ?case using runs_take [of w xs] by simp
next
  case (Suc m)
  then show ?case
    using pass_runs [of w xs] pass_tied [of w xs c] by (simp add: ac_simps)
qed

text \<open>A stable sorting of a list is determined by the comparator.\<close>

definition stable_sorting :: "'a list \<Rightarrow> 'a list \<Rightarrow> bool" where
  "stable_sorting xs r \<longleftrightarrow> ordered r \<and> (\<forall>c. filter (tied c) r = filter (tied c) xs)"

lemma tied_mset: assumes "\<And>c. filter (tied c) r = filter (tied c) xs" shows "mset r = mset xs"
proof (rule multiset_eqI)
  fix c
  have "count (mset ys) c = count (mset (filter (tied c) ys)) c" for ys
    by (induction ys) auto
  then show "count (mset r) c = count (mset xs) c" using assms [of c] by metis
qed

lemma stable_sorting_unique: "stable_sorting xs r \<Longrightarrow> stable_sorting xs s \<Longrightarrow> r = s"
proof -
  assume "stable_sorting xs r" "stable_sorting xs s"
  then have "ordered r" "ordered s" "\<And>c. filter (tied c) r = filter (tied c) s"
    by (simp_all add: stable_sorting_def)
  then show "r = s"
  proof (induction r arbitrary: s)
    case Nil
    then show ?case using tied_mset [of "[]" s] by auto
  next
    case (Cons x r)
    have eq: "mset (x # r) = mset s" using tied_mset Cons.prems(3) by blast
    then obtain y t where s: "s = y # t" by (cases s) auto
    have set: "x \<in> set (y # t)" "y \<in> set (x # r)" using mset_eq_setD [OF eq] s by auto
    have "cmp y x \<le> 0" using Cons.prems(2) set(1) s by (auto simp: ordered_def)
    moreover have "cmp x y \<le> 0" using Cons.prems(1) set(2) by (auto simp: ordered_def)
    ultimately have t: "cmp x y = 0" using cmp_le_rev [of x y] cmp_le_rev [of y x] by linarith
    then have "y = x" using Cons.prems(3) [of x] s by simp
    moreover have "filter (tied c) r = filter (tied c) t" for c
      using Cons.prems(3) [of c] \<open>y = x\<close> by (auto simp: s split: if_splits)
    then have "r = t" using Cons s by (auto simp: ordered_def)
    ultimately show ?case using s by simp
  qed
qed

lemma msort_loop_stable:
  assumes "length buf = length xs"
  shows "stable_sorting xs (msort_loop cmp (length xs) 1 xs buf)"
  using msort_loop_passes [of xs "length xs" buf 1 cmp] assms passes_ok [OF _ runs_1] runs_1
  by (auto simp: stable_sorting_def)

lemma ins_pos_bounds:
  "ins_pos cmp xs i m \<le> m"
  "\<forall>k. ins_pos cmp xs i m \<le> k \<and> k < m \<longrightarrow> cmp (xs ! k) (xs ! i) > 0"
  "ins_pos cmp xs i m > 0 \<Longrightarrow> cmp (xs ! (ins_pos cmp xs i m - 1)) (xs ! i) \<le> 0"
  by (induction m) (auto simp: less_Suc_eq not_less_eq_eq)

lemma insert_ordered:
  assumes "ordered (as @ bs)" "as = [] \<or> cmp (last as) x \<le> 0" "\<forall>b\<in>set bs. cmp b x > 0"
  shows "ordered (as @ x # bs)"
proof -
  have "cmp a x \<le> 0" if "a \<in> set as" for a
  proof -
    obtain cs d where as: "as = cs @ [d]" using \<open>a \<in> set as\<close> by (cases as rule: rev_cases) auto
    then have "a = last as \<or> cmp a (last as) \<le> 0"
      using assms(1) that by (auto simp: ordered_def sorted_wrt_append)
    then show ?thesis using assms(2) that cmp_trans by auto
  qed
  moreover have "\<forall>b\<in>set bs. cmp x b \<le> 0" using assms(3) cmp_rev by (auto intro: less_imp_le)
  ultimately show ?thesis using assms(1) by (auto simp: ordered_def sorted_wrt_append)
qed

lemma insert_tied: "\<forall>b\<in>set bs. cmp b x > 0 \<Longrightarrow> filter (tied c) (x # bs) = filter (tied c) (bs @ [x])"
proof (cases "tied c x")
  case True
  assume "\<forall>b\<in>set bs. cmp b x > 0"
  then have "filter (tied c) bs = []"
    using tied_cong [of c _ x] True by (force simp: filter_empty_conv)
  then show ?thesis by simp
qed simp

lemma isort_loop_ok:
  "length xs = n \<Longrightarrow> 0 < i \<Longrightarrow> i \<le> n \<Longrightarrow> ordered (take i xs) \<Longrightarrow>
     ordered (isort_loop cmp n i xs) \<and> filter (tied c) (isort_loop cmp n i xs) = filter (tied c) xs"
proof (induction "n - i" arbitrary: i xs)
  case 0
  then show ?case by (subst (1 2) isort_loop.simps) simp
next
  case (Suc m)
  define j where "j = ins_pos cmp xs i i"
  have i: "i < n" using Suc(2) by simp
  have j: "j \<le> i" "\<forall>b\<in>set (drop j (take i xs)). cmp b (xs ! i) > 0"
    using ins_pos_bounds(1,2) [of xs i i] Suc(3) i by (auto simp: j_def in_set_conv_nth)
  have jl: "take j xs = [] \<or> cmp (last (take j xs)) (xs ! i) \<le> 0"
  proof (cases "j = 0")
    case False
    then have "last (take j xs) = xs ! (j - 1)"
      using j(1) i Suc(3) by (subst last_conv_nth) auto
    then show ?thesis using ins_pos_bounds(3) [of xs i i] False by (simp add: j_def)
  qed simp
  let ?ys = "take j xs @ xs ! i # drop j (take i xs) @ drop (Suc i) xs"
  have rot: "(if j \<noteq> i then rotate_down j i xs else xs) = ?ys"
    using j(1) i Suc(3) rotate_down_eq [of j i xs] by (auto simp: id_take_nth_drop)
  have pre: "take j xs @ drop j (take i xs) = take i xs"
    using j(1) by (metis append_take_drop_id min.absorb_iff1 take_take)
  have tk: "take (Suc i) ?ys = take j xs @ xs ! i # drop j (take i xs)"
    using j(1) i Suc(3) by (simp add: Suc_diff_le)
  have ord: "ordered (take (Suc i) ?ys)"
    unfolding tk using Suc(6) jl j(2) by (intro insert_ordered) (simp_all add: pre)
  have "filter (tied c) ?ys =
      filter (tied c) ((take j xs @ drop j (take i xs)) @ xs ! i # drop (Suc i) xs)"
    using insert_tied [OF j(2), of c] by (cases "tied c (xs ! i)") simp_all
  also note pre
  also have "take i xs @ xs ! i # drop (Suc i) xs = xs"
    using i Suc(3) by (simp add: id_take_nth_drop [symmetric])
  finally have flt: "filter (tied c) ?ys = filter (tied c) xs" .
  have "isort_loop cmp n i xs = isort_loop cmp n (Suc i) ?ys"
    using i rot by (subst isort_loop.simps) (simp add: j_def [symmetric] Let_def)
  then show ?case
    using Suc(1) [of "Suc i" ?ys] Suc(2,3) i j(1) ord flt by simp
qed

lemma isort_loop_stable: "0 < length xs \<Longrightarrow> stable_sorting xs (isort_loop cmp (length xs) 1 xs)"
  using isort_loop_ok [of xs "length xs" 1] by (cases xs) (auto simp: stable_sorting_def ordered_def)

lemma vt_arr_msort_stable:
  assumes "\<And>buf. scratch = Some buf \<Longrightarrow> length buf = length xs"
  shows "stable_sorting xs (vt_arr_msort scratch cmp xs)"
proof (cases "length xs < 2")
  case True
  then have "ordered xs" by (cases xs) (auto simp: ordered_def)
  then show ?thesis using True by (simp add: vt_arr_msort_def stable_sorting_def)
next
  case False
  then have "xs \<noteq> []" by auto
  then show ?thesis
    using False assms isort_loop_stable [of xs] msort_loop_stable
    by (auto simp: vt_arr_msort_def split: option.split)
qed

end

text \<open>The runtime's own byte comparison, on whole strings, is a comparator.\<close>

definition str_cmp :: "string \<Rightarrow> string \<Rightarrow> int" where
  "str_cmp a b = vt_byte_comp (Some a) 0 (int (length a)) (Some b) 0 (int (length b))"

lemma str_cmp_lex: "str_cmp a b = (if a < b then - 1 else if a = b then 0 else 1)"
  by (simp add: str_cmp_def vt_byte_comp_lex clamped_def str_bytes_def)

interpretation byte_order: vt_comparator str_cmp
  by unfold_locales (auto simp: str_cmp_lex split: if_splits)

section \<open>Properties\<close>

text \<open>C5: \<open>vt_arr_msort\<close> is a stable sort, with or without scratch memory. For a comparator
  that is a total preorder, the result is ordered, it is a permutation of the
  input, and elements that compare equal keep their order; the merge sort and the
  insertion sort that replaces it when memory is short give the same array.\<close>

theorem msort_stable:
  fixes cmp :: "'a \<Rightarrow> 'a \<Rightarrow> int"
  assumes "\<And>x y. cmp x y < 0 \<longleftrightarrow> 0 < cmp y x"
    and "\<And>x y z. cmp x y \<le> 0 \<Longrightarrow> cmp y z \<le> 0 \<Longrightarrow> cmp x z \<le> 0"
    and "length buf = length xs"
  shows "sorted_wrt (\<lambda>x y. cmp x y \<le> 0) (vt_arr_msort (Some buf) cmp xs) \<and>
     mset (vt_arr_msort (Some buf) cmp xs) = mset xs \<and>
     (\<forall>c. filter (\<lambda>y. cmp c y = 0) (vt_arr_msort (Some buf) cmp xs) = filter (\<lambda>y. cmp c y = 0) xs) \<and>
     vt_arr_msort None cmp xs = vt_arr_msort (Some buf) cmp xs"
proof -
  have c: "vt_comparator cmp" using assms(1,2) by (rule vt_comparator.intro)
  have s: "vt_comparator.stable_sorting cmp xs (vt_arr_msort (Some buf) cmp xs)"
    "vt_comparator.stable_sorting cmp xs (vt_arr_msort None cmp xs)"
    using vt_comparator.vt_arr_msort_stable [OF c] assms(3) by blast+
  have o: "sorted_wrt (\<lambda>x y. cmp x y \<le> 0) (vt_arr_msort (Some buf) cmp xs)"
    and t: "\<And>k. filter (\<lambda>y. cmp k y = 0) (vt_arr_msort (Some buf) cmp xs) = filter (\<lambda>y. cmp k y = 0) xs"
    using s(1) by (simp_all add: vt_comparator.stable_sorting_def [OF c] vt_comparator.ordered_def [OF c])
  show ?thesis
    using o t vt_comparator.tied_mset [OF c t] vt_comparator.stable_sorting_unique [OF c s(2,1)] by blast
qed

theorem msort_stable_witness:
  "vt_arr_msort None str_cmp [''b'', ''a''] = vt_arr_msort (Some [[], []]) str_cmp [''b'', ''a''] \<and>
   mset (vt_arr_msort (Some [[], []]) str_cmp [''b'', ''a'']) = mset [''b'', ''a'']"
  using msort_stable [of str_cmp "[[], []]" "[''b'', ''a'']", OF byte_order.cmp_rev byte_order.cmp_trans]
  by simp

end
