(* ===== verification/Vt_Arr.thy ===== *)
theory Vt_Arr
  imports Vt_Str Vt_Weak "HOL-Library.Multiset"
begin

text \<open>
  Dynamic arrays (\<open>VtArray\<close> of \<open>runtime/vyto_rt.h\<close>, the array part of
  \<open>runtime/vyto_rt.c\<close> and \<open>runtime/vyto_rt_arr.c\<close>). A buffer is the list of its element
  slots, one per element of capacity; a slot that was never written is \<open>None\<close>. The
  type of a slot's contents is a parameter: the raw bytes of a plain element, or the
  pointer of an \<open>elem_ref\<close> array. The counts an operation takes and gives back are
  returned as a log of retains and releases. \<open>mem c\<close> says whether the host allocator
  can provide a buffer of \<open>c\<close> elements; a null array is \<open>None\<close>.
\<close>

section \<open>Model\<close>

record 'v arr =
  a_len :: int
  a_cap :: int
  a_es :: int
  a_ref :: bool
  a_ro :: bool
  a_data :: "'v option list"
  a_owner :: ptr

datatype 'v rc_op = Retain 'v | Release 'v

type_synonym 'v arr_res = "('v arr \<times> 'v rc_op list) res"

definition vt_arr_new :: "int \<Rightarrow> bool \<Rightarrow> 'v arr" where
  "vt_arr_new es ref = \<lparr>a_len = 0, a_cap = 0, a_es = es, a_ref = ref, a_ro = False, a_data = [], a_owner = 0\<rparr>"

definition vt_arr_bytes :: "(int \<Rightarrow> bool) \<Rightarrow> 'v \<Rightarrow> int \<Rightarrow> 'v arr res" where
  "vt_arr_bytes mem zero n =
     (let n = (if n < 0 then 0 else n)
      in if mem n then Inr ((vt_arr_new 1 False)\<lparr>a_data := replicate (nat n) (Some zero), a_len := n, a_cap := n\<rparr>)
         else Inl Oom)"

text \<open>\<open>data\<close> is the borrowed memory (\<open>None\<close> for a null pointer) read as elements.\<close>

definition vt_arr_view ::
  "(int \<Rightarrow> bool) \<Rightarrow> 'v \<Rightarrow> 'v list option \<Rightarrow> int \<Rightarrow> int \<Rightarrow> ptr \<Rightarrow> bool \<Rightarrow> ('v arr \<times> ptr rc_op list) res" where
  "vt_arr_view mem zero data len es owner ro =
     (if es \<le> 0 then Inl (Panic ''array view with a non-positive element size'')
      else if len < 0 then Inl (Panic ''array view with a negative length'')
      else if owner = 0 then Inl (Panic ''array view with no owner (it would dangle)'')
      else if len > 9223372036854775807 div es then Inl (Panic ''array view is too large to index'')
      else case data of
        None \<Rightarrow> if len > 0 then Inl (Panic ''array view over a null pointer'')
                 else bind_res (vt_arr_bytes mem zero 0) (\<lambda>a. Inr (a, []))
      | Some d \<Rightarrow>
          if len = 0 then bind_res (vt_arr_bytes mem zero 0) (\<lambda>a. Inr (a, []))
          else Inr ((vt_arr_new es False)\<lparr>a_data := map Some (take (nat len) d), a_len := len,
                      a_cap := len, a_ro := ro, a_owner := owner\<rparr>, [Retain owner]))"

definition vt_arr_no_resize :: "'v arr \<Rightarrow> string \<Rightarrow> unit res" where
  "vt_arr_no_resize a op =
     (if a_owner a \<noteq> 0
      then Inl (Panic (fmt_msg 96 ''%s on a fixed-length array view'' [AStr (Some op)])) else Inr ())"

definition vt_arr_ro :: rt_err where
  "vt_arr_ro = Panic ''write to a read-only array view''"

definition vt_arr_no_write :: "'v arr \<Rightarrow> unit res" where
  "vt_arr_no_write a = (if a_ro a then Inl vt_arr_ro else Inr ())"

definition vt_null_recv :: "string \<Rightarrow> rt_err" where
  "vt_null_recv what = Panic (fmt_msg 96 ''%s on a null value'' [AStr (Some what)])"

definition vt_null_deref :: "string \<Rightarrow> rt_err" where
  "vt_null_deref what = Panic (fmt_msg 96 ''null reference dereferenced (%s)'' [AStr (Some what)])"

definition vt_ck_recv :: "ptr \<Rightarrow> string \<Rightarrow> ptr res" where
  "vt_ck_recv p what = (if p = 0 then Inl (vt_null_recv what) else Inr p)"

definition vt_ck_ptr :: "ptr \<Rightarrow> string \<Rightarrow> ptr res" where
  "vt_ck_ptr p what = (if p = 0 then Inl (vt_null_deref what) else Inr p)"

text \<open>Growth to the next capacity, shared by push and insert.\<close>

definition realloc_to :: "int \<Rightarrow> 'v arr \<Rightarrow> 'v arr" where
  "realloc_to c a = a\<lparr>a_data := take (nat c) (a_data a) @ replicate (nat c - length (a_data a)) None, a_cap := c\<rparr>"

definition grow_one :: "(int \<Rightarrow> bool) \<Rightarrow> 'v arr \<Rightarrow> 'v arr res" where
  "grow_one mem a =
     (if a_len a = a_cap a then
        let c = (if a_cap a \<noteq> 0 then a_cap a * 2 else 8)
        in if mem c then Inr (realloc_to c a) else Inl Oom
      else Inr a)"

definition retain_if :: "'v arr \<Rightarrow> 'v \<Rightarrow> 'v rc_op list" where
  "retain_if a x = (if a_ref a then [Retain x] else [])"

definition vt_arr_push :: "(int \<Rightarrow> bool) \<Rightarrow> 'v arr \<Rightarrow> 'v \<Rightarrow> 'v arr_res" where
  "vt_arr_push mem a x =
     bind_res (grow_one mem a) (\<lambda>a.
       Inr (a\<lparr>a_data := (a_data a)[nat (a_len a) := Some x], a_len := a_len a + 1\<rparr>, retain_if a x))"

definition vt_arr_push_at :: "(int \<Rightarrow> bool) \<Rightarrow> 'v arr option \<Rightarrow> 'v \<Rightarrow> 'v arr_res" where
  "vt_arr_push_at mem ao x =
     (case ao of
        None \<Rightarrow> Inl (Panic ''push to null array'')
      | Some a \<Rightarrow> bind_res (vt_arr_no_resize a ''push'') (\<lambda>_. vt_arr_push mem a x))"

text \<open>The slot at an index that is in range; an unwritten one would be \<open>None\<close>.\<close>

definition slot_at :: "'v arr \<Rightarrow> int \<Rightarrow> 'v" where
  "slot_at a i = the (a_data a ! nat i)"

definition vt_arr_pop :: "'v arr option \<Rightarrow> (('v \<times> 'v arr) \<times> 'v rc_op list) res" where
  "vt_arr_pop ao =
     (case ao of
        None \<Rightarrow> Inl (Panic ''pop from null array'')
      | Some a \<Rightarrow> bind_res (vt_arr_no_resize a ''pop'') (\<lambda>_.
          if a_len a = 0 then Inl (Panic ''pop from empty array'')
          else Inr ((slot_at a (a_len a - 1), a\<lparr>a_len := a_len a - 1\<rparr>), [])))"

definition vt_arr_oob :: "'v arr option \<Rightarrow> i64 \<Rightarrow> rt_err" where
  "vt_arr_oob ao i =
     (case ao of
        None \<Rightarrow> Panic ''index into null array''
      | Some a \<Rightarrow> Panic (fmt_msg 96 ''array index %lld out of bounds (len %lld)'' [ALld i, ALld (word_of_int (a_len a))]))"

text \<open>\<open>vt_arr_at\<close>, \<open>vt_arr_ati\<close> and \<open>vt_arr_atp\<close> differ only in how the caller scales the
  index: one unsigned comparison, then the slot number. \<open>vt_arr_wr\<close>, \<open>vt_arr_wri\<close> and
  \<open>vt_arr_wrp\<close> add the test for a read-only view.\<close>

definition vt_arr_at :: "'v arr option \<Rightarrow> i64 \<Rightarrow> nat res" where
  "vt_arr_at ao i =
     (case ao of
        None \<Rightarrow> Inl (vt_arr_oob ao i)
      | Some a \<Rightarrow> if uint i \<ge> uint (word_of_int (a_len a) :: u64) then Inl (vt_arr_oob ao i) else Inr (unat i))"

definition vt_arr_wr :: "'v arr option \<Rightarrow> i64 \<Rightarrow> nat res" where
  "vt_arr_wr ao i =
     bind_res (vt_arr_at ao i) (\<lambda>k. bind_res (vt_arr_no_write (the ao)) (\<lambda>_. Inr k))"

definition vt_arr_set :: "'v arr option \<Rightarrow> i64 \<Rightarrow> 'v \<Rightarrow> 'v arr_res" where
  "vt_arr_set ao i x =
     bind_res (vt_arr_at ao i) (\<lambda>k. let a = the ao in
       bind_res (vt_arr_no_write a) (\<lambda>_.
         Inr (a\<lparr>a_data := (a_data a)[k := Some x]\<rparr>,
              if a_ref a then [Retain x, Release (slot_at a (int k))] else [])))"

definition vt_arr_nn :: "'v arr option \<Rightarrow> 'v arr res" where
  "vt_arr_nn ao = (case ao of None \<Rightarrow> Inl (Panic ''method call on null array'') | Some a \<Rightarrow> Inr a)"

definition vt_arr_nth :: "'v arr option \<Rightarrow> i64 \<Rightarrow> nat res" where
  "vt_arr_nth ao i =
     (case ao of
        None \<Rightarrow> Inl (Panic ''index into null array'')
      | Some a \<Rightarrow> vt_arr_at ao (if sint i < 0 then word_of_int (a_len a) + i else i))"

text \<open>Element equality by kind: \<open>deref\<close> reads the string a slot points to, \<open>f64\<close> and
  \<open>f32\<close> are the machine's floating-point equalities on the slot contents.\<close>

datatype eq_kind = VT_EQ_BITS | VT_EQ_STR | VT_EQ_F64 | VT_EQ_F32

fun arr_elem_eq ::
  "('v \<Rightarrow> string option) \<Rightarrow> ('v \<Rightarrow> 'v \<Rightarrow> bool) \<Rightarrow> ('v \<Rightarrow> 'v \<Rightarrow> bool) \<Rightarrow> eq_kind \<Rightarrow> 'v \<Rightarrow> 'v \<Rightarrow> bool" where
  "arr_elem_eq deref f64 f32 VT_EQ_STR s e = vt_str_eq (deref s) (deref e)"
| "arr_elem_eq deref f64 f32 VT_EQ_F64 s e = f64 s e"
| "arr_elem_eq deref f64 f32 VT_EQ_F32 s e = f32 s e"
| "arr_elem_eq deref f64 f32 VT_EQ_BITS s e = (s = e)"

function arr_find_loop :: "('v \<Rightarrow> 'v \<Rightarrow> bool) \<Rightarrow> 'v arr \<Rightarrow> 'v \<Rightarrow> int \<Rightarrow> int" where
  "arr_find_loop eq a x i =
     (if i < a_len a then if eq (slot_at a i) x then i else arr_find_loop eq a x (i + 1) else - 1)"
  by pat_completeness auto
termination by (relation "measure (\<lambda>(eq, a, x, i). nat (a_len a - i))") auto

declare arr_find_loop.simps [simp del]

definition vt_arr_index_of :: "('v \<Rightarrow> 'v \<Rightarrow> bool) \<Rightarrow> 'v arr option \<Rightarrow> 'v \<Rightarrow> int res" where
  "vt_arr_index_of eq ao x =
     (case ao of None \<Rightarrow> Inl (Panic ''index_of on null array'') | Some a \<Rightarrow> Inr (arr_find_loop eq a x 0))"

definition vt_arr_contains :: "('v \<Rightarrow> 'v \<Rightarrow> bool) \<Rightarrow> 'v arr option \<Rightarrow> 'v \<Rightarrow> bool res" where
  "vt_arr_contains eq ao x =
     (case ao of
        None \<Rightarrow> Inl (Panic ''contains on null array'')
      | Some a \<Rightarrow> bind_res (vt_arr_index_of eq ao x) (\<lambda>r. Inr (r \<ge> 0)))"

definition vt_arr_reverse :: "(int \<Rightarrow> bool) \<Rightarrow> 'v arr option \<Rightarrow> 'v arr_res" where
  "vt_arr_reverse mem ao =
     (case ao of
        None \<Rightarrow> Inl (Panic ''reverse on null array'')
      | Some a \<Rightarrow> bind_res (vt_arr_no_write a) (\<lambda>_.
          if a_len a < 2 then Inr (a, [])
          else if \<not> mem 1 then Inl Oom
          else Inr (a\<lparr>a_data := swap_loop (a_data a) 0 (a_len a - 1)\<rparr>, [])))"

definition release_all :: "'v arr \<Rightarrow> 'v rc_op list" where
  "release_all a = (if a_ref a then map (\<lambda>i. Release (slot_at a (int i))) [0..<nat (a_len a)] else [])"

definition vt_arr_clear :: "'v arr option \<Rightarrow> 'v arr_res" where
  "vt_arr_clear ao =
     (case ao of
        None \<Rightarrow> Inl (Panic ''clear on null array'')
      | Some a \<Rightarrow> bind_res (vt_arr_no_resize a ''clear'') (\<lambda>_. Inr (a\<lparr>a_len := 0\<rparr>, release_all a)))"

definition vt_arr_reserve :: "(int \<Rightarrow> bool) \<Rightarrow> 'v arr option \<Rightarrow> int \<Rightarrow> 'v arr_res" where
  "vt_arr_reserve mem ao n =
     (case ao of
        None \<Rightarrow> Inl (Panic ''reserve on null array'')
      | Some a \<Rightarrow>
          if n \<le> a_cap a then Inr (a, [])
          else bind_res (vt_arr_no_resize a ''reserve'') (\<lambda>_.
            if mem n then Inr (realloc_to n a, []) else Inl Oom))"

definition memmove_at :: "'a list \<Rightarrow> nat \<Rightarrow> nat \<Rightarrow> nat \<Rightarrow> 'a list" where
  "memmove_at d dst src n = take dst d @ take n (drop src d) @ drop (dst + n) d"

definition vt_arr_insert :: "(int \<Rightarrow> bool) \<Rightarrow> 'v arr option \<Rightarrow> i64 \<Rightarrow> 'v \<Rightarrow> 'v arr_res" where
  "vt_arr_insert mem ao i x =
     (case ao of
        None \<Rightarrow> Inl (Panic ''insert into null array'')
      | Some a \<Rightarrow> bind_res (vt_arr_no_resize a ''insert'') (\<lambda>_.
          if sint i < 0 \<or> sint i > a_len a then Inl (Panic ''insert index out of bounds'')
          else bind_res (grow_one mem a) (\<lambda>a.
            let k = nat (sint i);
                d = memmove_at (a_data a) (k + 1) k (nat (a_len a) - k)
            in Inr (a\<lparr>a_data := d[k := Some x], a_len := a_len a + 1\<rparr>, retain_if a x))))"

definition vt_arr_remove_at :: "'v arr option \<Rightarrow> i64 \<Rightarrow> (('v \<times> 'v arr) \<times> 'v rc_op list) res" where
  "vt_arr_remove_at ao i =
     (case ao of
        None \<Rightarrow> Inl (Panic ''remove from null array'')
      | Some a \<Rightarrow> bind_res (vt_arr_no_resize a ''remove_at'') (\<lambda>_.
          if sint i < 0 \<or> sint i \<ge> a_len a then Inl (Panic ''remove_at index out of bounds'')
          else let k = nat (sint i)
               in Inr ((slot_at a (sint i),
                        a\<lparr>a_data := memmove_at (a_data a) k (k + 1) (nat (a_len a) - 1 - k),
                          a_len := a_len a - 1\<rparr>), [])))"

text \<open>\<open>vt_arr_extend\<close>: the capacity loop, then one push per element of \<open>o\<close>. \<open>None\<close> as
  the source stands for \<open>a.extend(a)\<close>: the elements are then read from the array that
  is being extended.\<close>

function cap_loop :: "int \<Rightarrow> int \<Rightarrow> int" where
  "cap_loop nc need = (if nc < need \<and> 0 < nc then cap_loop (nc * 2) need else nc)"
  by pat_completeness auto
termination by (relation "measure (\<lambda>(nc, need). nat (need - nc))") auto

declare cap_loop.simps [simp del]

function push_loop :: "(int \<Rightarrow> bool) \<Rightarrow> 'v arr option \<Rightarrow> int \<Rightarrow> int \<Rightarrow> 'v arr \<times> 'v rc_op list \<Rightarrow> 'v arr_res" where
  "push_loop mem src i n al =
     (if i < n then
        bind_res (vt_arr_push mem (fst al) (slot_at (case src of None \<Rightarrow> fst al | Some o' \<Rightarrow> o') i))
          (\<lambda>(a', l). push_loop mem src (i + 1) n (a', snd al @ l))
      else Inr al)"
  by pat_completeness auto
termination by (relation "measure (\<lambda>(mem, src, i, n, al). nat (n - i))") auto

declare push_loop.simps [simp del]

datatype 'v ext_src = ExtNull | ExtSelf | ExtOther "'v arr"

definition vt_arr_extend :: "(int \<Rightarrow> bool) \<Rightarrow> 'v arr option \<Rightarrow> 'v ext_src \<Rightarrow> 'v arr_res" where
  "vt_arr_extend mem ao os =
     (case ao of
        None \<Rightarrow> Inl (Panic ''extend on null array'')
      | Some a \<Rightarrow>
          if os = ExtNull then Inl (Panic ''extend on null array'')
          else bind_res (vt_arr_no_resize a ''extend'') (\<lambda>_.
            let src = (case os of ExtOther o' \<Rightarrow> Some o' | _ \<Rightarrow> None);
                n = a_len (case src of None \<Rightarrow> a | Some o' \<Rightarrow> o')
            in if a_len a + n > a_cap a then
                 let nc = cap_loop (if a_cap a \<noteq> 0 then a_cap a else 8) (a_len a + n)
                 in if mem nc then push_loop mem src 0 n (realloc_to nc a, []) else Inl Oom
               else push_loop mem src 0 n (a, [])))"

definition vt_arr_concat :: "(int \<Rightarrow> bool) \<Rightarrow> 'v arr option \<Rightarrow> 'v arr option \<Rightarrow> 'v arr_res" where
  "vt_arr_concat mem ao oo =
     (case (ao, oo) of
        (Some a, Some o') \<Rightarrow>
          bind_res (push_loop mem (Some a) 0 (a_len a) (vt_arr_new (a_es a) (a_ref a), [])) (\<lambda>rl.
            push_loop mem (Some o') 0 (a_len o') rl)
      | _ \<Rightarrow> Inl (Panic ''concat on null array''))"

definition vt_arr_slice :: "(int \<Rightarrow> bool) \<Rightarrow> 'v arr option \<Rightarrow> i64 \<Rightarrow> i64 \<Rightarrow> 'v arr_res" where
  "vt_arr_slice mem ao lo hi =
     (case ao of
        None \<Rightarrow> Inl (Panic ''slice of null array'')
      | Some a \<Rightarrow>
          if sint lo < 0 \<or> sint hi < sint lo \<or> sint hi > a_len a
          then Inl (Panic (fmt_msg 96 ''slice [%lld, %lld) out of bounds (len %lld)''
                 [ALld lo, ALld hi, ALld (word_of_int (a_len a))]))
          else push_loop mem (Some a) (sint lo) (sint hi) (vt_arr_new (a_es a) (a_ref a), []))"

function fill_loop :: "'v \<Rightarrow> int \<Rightarrow> 'v arr \<times> 'v rc_op list \<Rightarrow> 'v arr \<times> 'v rc_op list" where
  "fill_loop x i al =
     (if i < a_len (fst al) then
        let a = fst al in
        fill_loop x (i + 1)
          (a\<lparr>a_data := (a_data a)[nat i := Some x]\<rparr>,
           snd al @ (if a_ref a then [Retain x, Release (slot_at a i)] else []))
      else al)"
  by pat_completeness auto
termination by (relation "measure (\<lambda>(x, i, al). nat (a_len (fst al) - i))") (auto simp: Let_def)

declare fill_loop.simps [simp del]

definition vt_arr_fill :: "'v arr option \<Rightarrow> 'v \<Rightarrow> 'v arr_res" where
  "vt_arr_fill ao x =
     (case ao of
        None \<Rightarrow> Inl (Panic ''fill on null array'')
      | Some a \<Rightarrow> bind_res (vt_arr_no_write a) (\<lambda>_. Inr (fill_loop x 0 (a, []))))"

text \<open>\<open>vt_arr_join\<close>: measure, then copy separators and strings at increasing offsets.\<close>

fun arr_join_copy :: "string \<Rightarrow> string \<Rightarrow> nat \<Rightarrow> nat \<Rightarrow> string list \<Rightarrow> string" where
  "arr_join_copy sep buf i di [] = buf"
| "arr_join_copy sep buf i di (s # ss) =
     (let (buf1, di1) = (if i \<noteq> 0 \<and> sep \<noteq> [] then (memcpy_at buf di sep, di + length sep) else (buf, di))
      in arr_join_copy sep (memcpy_at buf1 di1 s) (i + 1) (di1 + length s) ss)"

definition elems :: "'v arr \<Rightarrow> 'v list" where
  "elems a = map the (take (nat (a_len a)) (a_data a))"

definition vt_arr_join :: "(int \<Rightarrow> bool) \<Rightarrow> ('v \<Rightarrow> string) \<Rightarrow> 'v arr option \<Rightarrow> string \<Rightarrow> string res" where
  "vt_arr_join mem deref ao sep =
     (case ao of
        None \<Rightarrow> Inl (Panic ''join on null array'')
      | Some a \<Rightarrow>
          if a_len a = 0 then Inr []
          else let ss = map deref (elems a);
                   total = length sep * nat (a_len a - 1) + sum_list (map length ss)
               in if \<not> mem (int (if total \<noteq> 0 then total else 1)) then Inl Oom
                  else Inr (vt_str_new (take total (arr_join_copy sep (replicate (if total \<noteq> 0 then total else 1) (CHR 0x00)) 0 0 ss))))"

text \<open>\<open>vt_args\<close>: the arguments after the program name; the array takes over the only
  reference to each string.\<close>

fun args_loop :: "(int \<Rightarrow> bool) \<Rightarrow> 'v list \<Rightarrow> 'v arr \<times> 'v rc_op list \<Rightarrow> 'v arr_res" where
  "args_loop mem [] al = Inr al"
| "args_loop mem (s # ss) al =
     bind_res (vt_arr_push mem (fst al) s) (\<lambda>(a, l). args_loop mem ss (a, snd al @ l @ [Release s]))"

definition vt_args :: "(int \<Rightarrow> bool) \<Rightarrow> 'v list \<Rightarrow> 'v arr_res" where
  "vt_args mem argv = args_loop mem (tl argv) (vt_arr_new 8 True, [])"

section \<open>Well-formed arrays and their contents\<close>

definition arr_ok :: "'v arr \<Rightarrow> bool" where
  "arr_ok a \<longleftrightarrow>
     0 \<le> a_len a \<and> a_len a \<le> a_cap a \<and> int (length (a_data a)) = a_cap a \<and>
     (\<forall>i < nat (a_len a). a_data a ! i \<noteq> None) \<and>
     (a_owner a \<noteq> 0 \<longrightarrow> a_cap a = a_len a \<and> \<not> a_ref a)"

lemma length_elems: "arr_ok a \<Longrightarrow> length (elems a) = nat (a_len a)"
  by (auto simp: arr_ok_def elems_def)

lemma arr_len: "arr_ok a \<Longrightarrow> a_len a = int (length (elems a))"
  by (simp add: arr_ok_def length_elems)

lemma arr_split:
  assumes "arr_ok a"
  obtains xs rest where "elems a = xs" "a_data a = map Some xs @ rest" "a_len a = int (length xs)"
    "a_cap a = int (length xs + length rest)"
proof
  have "take (nat (a_len a)) (a_data a) = map Some (elems a)"
    using assms by (auto simp: arr_ok_def elems_def intro!: nth_equalityI)
  then show "a_data a = map Some (elems a) @ drop (nat (a_len a)) (a_data a)"
    by (metis append_take_drop_id)
  show "a_len a = int (length (elems a))" by (rule arr_len [OF assms])
  show "a_cap a = int (length (elems a) + length (drop (nat (a_len a)) (a_data a)))"
    using assms length_elems [OF assms] unfolding length_drop arr_ok_def by linarith
qed (rule refl)

lemma arr_okI:
  assumes "a_data a = map Some xs @ rest" "a_len a = int (length xs)"
    "a_cap a = int (length xs + length rest)" "a_owner a = 0 \<or> rest = [] \<and> \<not> a_ref a"
  shows "arr_ok a" "elems a = xs"
proof -
  show "arr_ok a" using assms by (auto simp: arr_ok_def nth_append)
  show "elems a = xs" using assms by (simp add: elems_def map_idI)
qed

lemma slot_elems: "arr_ok a \<Longrightarrow> 0 \<le> i \<Longrightarrow> i < a_len a \<Longrightarrow> slot_at a i = elems a ! nat i"
  by (auto simp: slot_at_def elems_def arr_ok_def)

lemma arr_new_ok [simp]: "arr_ok (vt_arr_new es ref)" "elems (vt_arr_new es ref) = []"
  by (simp_all add: arr_ok_def vt_arr_new_def elems_def)

lemma arr_new_fields [simp]:
  "a_len (vt_arr_new es ref) = 0" "a_cap (vt_arr_new es ref) = 0" "a_owner (vt_arr_new es ref) = 0"
  "a_ref (vt_arr_new es ref) = ref" "a_ro (vt_arr_new es ref) = False" "a_es (vt_arr_new es ref) = es"
  by (simp_all add: vt_arr_new_def)

text \<open>\<open>same_kind\<close>: the flags an operation never changes.\<close>

definition same_kind :: "'v arr \<Rightarrow> 'v arr \<Rightarrow> bool" where
  "same_kind a b \<longleftrightarrow> a_ref a = a_ref b \<and> a_es a = a_es b \<and> a_ro a = a_ro b \<and> a_owner a = a_owner b"

lemma same_kind_refl [simp]: "same_kind a a"
  by (simp add: same_kind_def)

lemma same_kind_trans: "same_kind a b \<Longrightarrow> same_kind b c \<Longrightarrow> same_kind a c"
  by (simp add: same_kind_def)

lemma realloc_ok:
  assumes "arr_ok a" "a_owner a = 0" "a_cap a \<le> c"
  shows "arr_ok (realloc_to c a)" "elems (realloc_to c a) = elems a" "same_kind (realloc_to c a) a"
    "a_len (realloc_to c a) = a_len a" "a_cap (realloc_to c a) = c"
proof -
  obtain xs rest where r: "elems a = xs" "a_data a = map Some xs @ rest" "a_len a = int (length xs)"
    "a_cap a = int (length xs + length rest)" using arr_split [OF assms(1)] .
  let ?rest = "rest @ replicate (nat c - length (a_data a)) None"
  have "a_data (realloc_to c a) = map Some xs @ ?rest" "a_len (realloc_to c a) = int (length xs)"
    "a_cap (realloc_to c a) = int (length xs + length ?rest)" "a_owner (realloc_to c a) = 0"
    using assms(2,3) r(2-4) by (simp_all add: realloc_to_def)
  from arr_okI [OF this(1-3)] this(4) r(1)
  show "arr_ok (realloc_to c a)" "elems (realloc_to c a) = elems a" by auto
qed (simp_all add: realloc_to_def same_kind_def)

lemma grow_one_ok:
  assumes "arr_ok a" "a_owner a = 0" "grow_one mem a = Inr b"
  shows "arr_ok b" "elems b = elems a" "same_kind b a" "a_len b = a_len a" "a_len b < a_cap b"
proof -
  have "a_cap a \<le> (if a_cap a \<noteq> 0 then a_cap a * 2 else 8)" "0 \<le> a_cap a"
    using assms(1) by (auto simp: arr_ok_def)
  note R = realloc_ok [OF assms(1,2) this(1)]
  consider "b = a" "a_len a < a_cap a"
    | "b = realloc_to (if a_cap a \<noteq> 0 then a_cap a * 2 else 8) a" "a_len a = a_cap a"
    using assms(1,3) by (fastforce simp: grow_one_def Let_def arr_ok_def split: if_splits)
  then show "arr_ok b" "elems b = elems a" "same_kind b a" "a_len b = a_len a" "a_len b < a_cap b"
    using assms(1) R \<open>0 \<le> a_cap a\<close> by (cases; auto)+
qed

lemma grow_one_no_oom: "a_len a < a_cap a \<Longrightarrow> grow_one mem a = Inr a"
  by (simp add: grow_one_def)

lemma push_ok:
  assumes "arr_ok a" "a_owner a = 0" "vt_arr_push mem a x = Inr (b, l)"
  shows "arr_ok b" "elems b = elems a @ [x]" "same_kind b a" "l = retain_if a x" "a_len b = a_len a + 1"
    "a_len a < a_cap a \<Longrightarrow> a_cap b = a_cap a"
proof -
  obtain c where c: "grow_one mem a = Inr c"
    and b: "b = c\<lparr>a_data := (a_data c)[nat (a_len c) := Some x], a_len := a_len c + 1\<rparr>" "l = retain_if c x"
    using assms(3) by (auto simp: vt_arr_push_def)
  note G = grow_one_ok [OF assms(1,2) c]
  obtain xs rest where r: "elems c = xs" "a_data c = map Some xs @ rest" "a_len c = int (length xs)"
    "a_cap c = int (length xs + length rest)" using arr_split [OF G(1)] .
  then obtain z rs where z: "rest = z # rs" using G(5) by (cases rest) auto
  have "a_data b = map Some (xs @ [x]) @ rs" "a_len b = int (length (xs @ [x]))"
    "a_cap b = int (length (xs @ [x]) + length rs)" "a_owner b = 0"
    using r(2-4) z G(3) assms(2) by (simp_all add: b list_update_append same_kind_def)
  from arr_okI [OF this(1-3)] this(4) r(1) G(2)
  show "arr_ok b" "elems b = elems a @ [x]" by auto
  show "same_kind b a" "l = retain_if a x" "a_len b = a_len a + 1"
    using G b by (auto simp: same_kind_def retain_if_def)
  show "a_len a < a_cap a \<Longrightarrow> a_cap b = a_cap a"
    using c b by (simp add: grow_one_no_oom)
qed

lemma push_total: "a_len a < a_cap a \<Longrightarrow> \<exists>bl. vt_arr_push mem a x = Inr bl"
  by (simp add: vt_arr_push_def grow_one_no_oom)

lemma push_oom: "vt_arr_push mem a x = Inl e \<Longrightarrow> e = Oom"
  by (auto simp: vt_arr_push_def grow_one_def Let_def bind_res_def split: if_splits sum.splits)

section \<open>Loops of pushes\<close>

definition push_log :: "(int \<Rightarrow> bool) \<Rightarrow> 'v \<Rightarrow> 'v arr \<times> 'v rc_op list \<Rightarrow> 'v arr_res" where
  "push_log mem x al = bind_res (vt_arr_push mem (fst al) x) (\<lambda>(a, l). Inr (a, snd al @ l))"

lemma push_log_Inr:
  "push_log mem x al = Inr z \<longleftrightarrow> (\<exists>b l. vt_arr_push mem (fst al) x = Inr (b, l) \<and> z = (b, snd al @ l))"
  by (auto simp: push_log_def)

abbreviation owned_ok :: "'v arr \<times> 'v rc_op list \<Rightarrow> bool" where
  "owned_ok al \<equiv> arr_ok (fst al) \<and> a_owner (fst al) = 0"

definition push_abs :: "'v \<Rightarrow> 'v list \<times> 'v rc_op list \<times> bool \<Rightarrow> 'v list \<times> 'v rc_op list \<times> bool" where
  "push_abs x = (\<lambda>(xs, l, r). (xs @ [x], l @ (if r then [Retain x] else []), r))"

interpretation arr_push: fallible_step owned_ok
  "\<lambda>al. (elems (fst al), snd al, a_ref (fst al))" "push_log mem" push_abs for mem
proof
  fix b x and b' :: "'v arr \<times> 'v rc_op list"
  assume b: "owned_ok b" and p: "push_log mem x b = Inr b'"
  then obtain l where p': "vt_arr_push mem (fst b) x = Inr (fst b', l)" "snd b' = snd b @ l"
    by (auto simp: push_log_def)
  note P = push_ok [OF _ _ p'(1)]
  show "owned_ok b' \<and> (elems (fst b'), snd b', a_ref (fst b')) = push_abs x (elems (fst b), snd b, a_ref (fst b))"
    using P b p'(2) by (auto simp: push_abs_def same_kind_def retain_if_def)
qed

lemma fold_push_abs:
  "fold push_abs ys (xs, l, r) = (xs @ ys, l @ (if r then map Retain ys else []), r)"
  by (induction ys arbitrary: xs l) (auto simp: push_abs_def)

lemma push_all_ok:
  assumes "owned_ok al" "run_all (push_log mem) ys al = Inr al'"
  shows "owned_ok al'" "elems (fst al') = elems (fst al) @ ys"
    "snd al' = snd al @ (if a_ref (fst al) then map Retain ys else [])" "a_ref (fst al') = a_ref (fst al)"
  using arr_push.run_refines [OF assms] by (auto simp: fold_push_abs)

lemma push_loop_other:
  assumes "arr_ok o'" "0 \<le> i" "n \<le> a_len o'"
  shows "push_loop mem (Some o') i n al =
     run_all (push_log mem) (drop (nat i) (take (nat n) (elems o'))) al"
  using assms
proof (induction mem "Some o'" i n al rule: push_loop.induct)
  case (1 mem i n al)
  show ?case
  proof (cases "i < n")
    case True
    have "drop (nat i) (take (nat n) (elems o')) =
        elems o' ! nat i # drop (nat (i + 1)) (take (nat n) (elems o'))"
      using True 1(2-4) by (subst Cons_nth_drop_Suc [symmetric]) (auto simp: nat_add_distrib length_elems)
    moreover have "slot_at o' i = elems o' ! nat i"
      using True 1(2-4) by (intro slot_elems) auto
    ultimately show ?thesis
      using True 1 by (subst push_loop.simps)
        (auto simp: push_log_def bind_res_def split: sum.split)
  qed (simp add: push_loop.simps)
qed

lemma push_loop_self:
  fixes al :: "'v arr \<times> 'v rc_op list"
  assumes "owned_ok al" "elems (fst al) = xs @ ys" "0 \<le> i" "n = int (length xs)"
  shows "push_loop mem None i n al = run_all (push_log mem) (drop (nat i) xs) al"
  using assms
proof (induction mem "None :: 'v arr option" i n al arbitrary: ys rule: push_loop.induct)
  case (1 mem i n al)
  show ?case
  proof (cases "i < n")
    case True
    have d: "drop (nat i) xs = xs ! nat i # drop (nat (i + 1)) xs"
      using True 1(4,5) by (subst Cons_nth_drop_Suc [symmetric]) (auto simp: nat_add_distrib)
    have "a_len (fst al) = int (length (xs @ ys))"
      using arr_len [of "fst al"] 1(2,3) by simp
    then have s: "slot_at (fst al) i = xs ! nat i"
      using True 1(2-5) by (subst slot_elems) (auto simp: nth_append)
    show ?thesis
    proof (cases "vt_arr_push mem (fst al) (xs ! nat i)")
      case (Inl e)
      then show ?thesis using True by (subst push_loop.simps) (simp add: d s push_log_def)
    next
      case (Inr bl)
      obtain b l where bl: "bl = (b, l)" by force
      note P = push_ok [OF _ _ Inr [unfolded bl]]
      have "push_loop mem None (i + 1) n (b, snd al @ l) = run_all (push_log mem) (drop (nat (i + 1)) xs) (b, snd al @ l)"
        using 1(1) [of b l "ys @ [xs ! nat i]"] True 1(2-5) P Inr bl s by (auto simp: same_kind_def)
      then show ?thesis using True Inr bl by (subst push_loop.simps) (simp add: d s push_log_def)
    qed
  qed (use 1 in \<open>simp add: push_loop.simps\<close>)
qed

section \<open>Arrays as lists\<close>

text \<open>The mutating methods as one interface: each returns the elements it hands out, the
  new array and the log. The list-level meaning is \<open>None\<close> where the method panics.\<close>

datatype 'v arr_op =
    OPush 'v | OPop | OInsert i64 'v | ORemove i64 | OSet i64 'v | OReverse | OClear
  | OReserve int | OExtendSelf | OExtend "'v arr" | OFill 'v

definition no_out :: "'v arr_res \<Rightarrow> (('v list \<times> 'v arr) \<times> 'v rc_op list) res" where
  "no_out r = bind_res r (\<lambda>(a, l). Inr (([], a), l))"

definition one_out :: "(('v \<times> 'v arr) \<times> 'v rc_op list) res \<Rightarrow> (('v list \<times> 'v arr) \<times> 'v rc_op list) res" where
  "one_out r = bind_res r (\<lambda>((x, a), l). Inr (([x], a), l))"

fun arr_exec :: "(int \<Rightarrow> bool) \<Rightarrow> 'v arr_op \<Rightarrow> 'v arr \<Rightarrow> (('v list \<times> 'v arr) \<times> 'v rc_op list) res" where
  "arr_exec mem (OPush x) a = no_out (vt_arr_push_at mem (Some a) x)"
| "arr_exec mem OPop a = one_out (vt_arr_pop (Some a))"
| "arr_exec mem (OInsert i x) a = no_out (vt_arr_insert mem (Some a) i x)"
| "arr_exec mem (ORemove i) a = one_out (vt_arr_remove_at (Some a) i)"
| "arr_exec mem (OSet i x) a = no_out (vt_arr_set (Some a) i x)"
| "arr_exec mem OReverse a = no_out (vt_arr_reverse mem (Some a))"
| "arr_exec mem OClear a = no_out (vt_arr_clear (Some a))"
| "arr_exec mem (OReserve n) a = no_out (vt_arr_reserve mem (Some a) n)"
| "arr_exec mem OExtendSelf a = no_out (vt_arr_extend mem (Some a) ExtSelf)"
| "arr_exec mem (OExtend o') a = no_out (vt_arr_extend mem (Some a) (ExtOther o'))"
| "arr_exec mem (OFill x) a = no_out (vt_arr_fill (Some a) x)"

fun list_exec :: "'v arr_op \<Rightarrow> 'v list \<Rightarrow> ('v list \<times> 'v list) option" where
  "list_exec (OPush x) xs = Some ([], xs @ [x])"
| "list_exec OPop xs = (if xs = [] then None else Some ([last xs], butlast xs))"
| "list_exec (OInsert i x) xs =
     (if 0 \<le> sint i \<and> sint i \<le> int (length xs)
      then Some ([], take (nat (sint i)) xs @ x # drop (nat (sint i)) xs) else None)"
| "list_exec (ORemove i) xs =
     (if 0 \<le> sint i \<and> sint i < int (length xs)
      then Some ([xs ! nat (sint i)], take (nat (sint i)) xs @ drop (Suc (nat (sint i))) xs) else None)"
| "list_exec (OSet i x) xs =
     (if 0 \<le> sint i \<and> sint i < int (length xs) then Some ([], xs[nat (sint i) := x]) else None)"
| "list_exec OReverse xs = Some ([], rev xs)"
| "list_exec OClear xs = Some ([], [])"
| "list_exec (OReserve n) xs = Some ([], xs)"
| "list_exec OExtendSelf xs = Some ([], xs @ xs)"
| "list_exec (OExtend o') xs = Some ([], xs @ elems o')"
| "list_exec (OFill x) xs = Some ([], replicate (length xs) x)"

definition retains :: "'v rc_op list \<Rightarrow> 'v multiset" where
  "retains l = mset (List.map_filter (\<lambda>r. case r of Retain x \<Rightarrow> Some x | _ \<Rightarrow> None) l)"

definition releases :: "'v rc_op list \<Rightarrow> 'v multiset" where
  "releases l = mset (List.map_filter (\<lambda>r. case r of Release x \<Rightarrow> Some x | _ \<Rightarrow> None) l)"

lemma rc_op_simps [simp]:
  "retains [] = {#}" "releases [] = {#}"
  "retains (Retain x # l) = add_mset x (retains l)" "retains (Release x # l) = retains l"
  "releases (Release x # l) = add_mset x (releases l)" "releases (Retain x # l) = releases l"
  by (simp_all add: retains_def releases_def List.map_filter_simps)

lemma rc_op_append [simp]:
  "retains (l @ k) = retains l + retains k" "releases (l @ k) = releases l + releases k"
  by (simp_all add: retains_def releases_def List.map_filter_def)

lemma rc_op_map [simp]:
  "retains (map Retain xs) = mset xs" "releases (map Retain xs) = {#}"
  "retains (map Release xs) = {#}" "releases (map Release xs) = mset xs"
  by (induction xs) simp_all

text \<open>\<open>meets a r s\<close>: the outcome \<open>r\<close> of a method on \<open>a\<close> is what the list-level \<open>s\<close> says, on a
  well-formed array of the same kind, and for an array of references the counts
  balance: what the array and the caller hold afterwards, plus what was released, is
  what the array held before, plus what was retained.\<close>

definition meets ::
  "'v arr \<Rightarrow> (('v list \<times> 'v arr) \<times> 'v rc_op list) res \<Rightarrow> ('v list \<times> 'v list) option \<Rightarrow> bool" where
  "meets a r s =
     (case r of
        Inl e \<Rightarrow> e = Oom \<or> s = None
      | Inr ((out, b), l) \<Rightarrow>
          s = Some (out, elems b) \<and> arr_ok b \<and> same_kind b a \<and>
          (a_ref a \<longrightarrow> mset (elems b) + mset out + releases l = mset (elems a) + retains l) \<and>
          (\<not> a_ref a \<longrightarrow> l = []))"

text \<open>The arrays a program may mutate: well formed, not a view, of a length that fits.\<close>

definition plain_arr :: "'v arr \<Rightarrow> bool" where
  "plain_arr a \<longleftrightarrow> arr_ok a \<and> a_owner a = 0 \<and> \<not> a_ro a \<and> a_len a < 9223372036854775808"

lemma plain_arrD:
  assumes "plain_arr a"
  shows "arr_ok a" "a_owner a = 0" "\<not> a_ro a" "a_len a < 9223372036854775808"
    "vt_arr_no_resize a op = Inr ()" "vt_arr_no_write a = Inr ()"
  using assms by (simp_all add: plain_arr_def vt_arr_no_resize_def vt_arr_no_write_def)

lemma vt_arr_at_bounds:
  assumes "0 \<le> a_len a" "a_len a < 9223372036854775808"
  shows "vt_arr_at (Some a) i =
     (if 0 \<le> sint i \<and> sint i < a_len a then Inr (nat (sint i)) else Inl (vt_arr_oob (Some a) i))"
proof -
  have len: "uint (word_of_int (a_len a) :: u64) = a_len a"
    using assms by (simp add: uint_word_of_int)
  show ?thesis
  proof (cases "sint i < 0")
    case True
    then have "uint i \<ge> 9223372036854775808"
      using uint_of_neg [of i] sint_lower64 [of i] by linarith
    then show ?thesis using True assms len by (simp add: vt_arr_at_def)
  next
    case False
    then have "uint i = sint i" using uint_of_nonneg [of i] by simp
    moreover from this have "unat i = nat (sint i)" by (simp add: unat_eq_nat_uint)
    ultimately show ?thesis using False assms len by (auto simp: vt_arr_at_def)
  qed
qed

lemma meets_push:
  assumes "plain_arr a" shows "meets a (arr_exec mem (OPush x) a) (list_exec (OPush x) (elems a))"
proof (cases "vt_arr_push mem a x")
  case (Inl e)
  then show ?thesis using push_oom [OF Inl] plain_arrD [OF assms]
    by (simp add: vt_arr_push_at_def no_out_def meets_def)
next
  case (Inr bl)
  obtain b l where bl: "bl = (b, l)" by force
  show ?thesis using push_ok [OF plain_arrD(1,2) [OF assms] Inr [unfolded bl]] plain_arrD [OF assms] Inr bl
    by (simp add: vt_arr_push_at_def no_out_def meets_def retain_if_def)
qed

lemma arr_shrink:
  assumes "arr_ok a" "a_owner a = 0" "0 \<le> n" "n \<le> a_len a"
  shows "arr_ok (a\<lparr>a_len := n\<rparr>)" "elems (a\<lparr>a_len := n\<rparr>) = take (nat n) (elems a)"
  using assms by (auto simp: arr_ok_def elems_def take_map min_def)

lemma meets_pop:
  assumes "plain_arr a" shows "meets a (arr_exec mem OPop a) (list_exec OPop (elems a))"
proof (cases "a_len a = 0")
  case True
  then have "elems a = []" using arr_len [OF plain_arrD(1) [OF assms]] by simp
  then show ?thesis using True plain_arrD(5) [OF assms]
    by (simp add: vt_arr_pop_def one_out_def meets_def)
next
  case False
  note P = plain_arrD [OF assms]
  obtain xs y where xs: "elems a = xs @ [y]"
    using False arr_len [OF P(1)] by (cases "elems a" rule: rev_cases) auto
  have len: "a_len a = int (length xs) + 1" using arr_len [OF P(1)] xs by simp
  have "elems (a\<lparr>a_len := a_len a - 1\<rparr>) = xs" "arr_ok (a\<lparr>a_len := a_len a - 1\<rparr>)"
    using arr_shrink [OF P(1,2), of "a_len a - 1"] len xs by simp_all
  moreover have "slot_at a (a_len a - 1) = y"
    using slot_elems [OF P(1), of "a_len a - 1"] len xs by simp
  ultimately show ?thesis
    using False P xs by (simp add: vt_arr_pop_def one_out_def meets_def same_kind_def)
qed

lemma meets_insert:
  assumes "plain_arr a" shows "meets a (arr_exec mem (OInsert i x) a) (list_exec (OInsert i x) (elems a))"
proof (cases "sint i < 0 \<or> sint i > a_len a")
  case True
  then show ?thesis using plain_arrD [OF assms] arr_len [of a]
    by (auto simp: vt_arr_insert_def no_out_def meets_def)
next
  case False
  note P = plain_arrD [OF assms]
  show ?thesis
  proof (cases "grow_one mem a")
    case (Inl e)
    then have "e = Oom" by (auto simp: grow_one_def Let_def split: if_splits)
    then show ?thesis using Inl P False by (simp add: vt_arr_insert_def no_out_def meets_def)
  next
    case (Inr c)
    note G = grow_one_ok [OF P(1,2) Inr]
    obtain xs rest where r: "elems c = xs" "a_data c = map Some xs @ rest" "a_len c = int (length xs)"
      "a_cap c = int (length xs + length rest)" using arr_split [OF G(1)] .
    then obtain z rs where z: "rest = z # rs" using G(5) by (cases rest) auto
    let ?k = "nat (sint i)"
    let ?b = "c\<lparr>a_data := (memmove_at (a_data c) (?k + 1) ?k (nat (a_len c) - ?k))[?k := Some x], a_len := a_len c + 1\<rparr>"
    have k: "?k \<le> length xs" using False r G(4) by auto
    have mv: "memmove_at (a_data c) (?k + 1) ?k (nat (a_len c) - ?k) =
        take (Suc ?k) (a_data c) @ map Some (drop ?k xs) @ rs"
      using k r(2,3) z by (simp add: memmove_at_def drop_map)
    have tk: "take (Suc ?k) (a_data c) = map Some (take ?k xs) @ [a_data c ! ?k]"
    proof -
      have "?k < length (a_data c)" using k r(2) z by simp
      then show ?thesis using k r(2) by (subst take_Suc_conv_app_nth) (simp_all add: take_map)
    qed
    have "a_data ?b = map Some (take ?k xs @ x # drop ?k xs) @ rs"
      "a_len ?b = int (length (take ?k xs @ x # drop ?k xs))"
      "a_cap ?b = int (length (take ?k xs @ x # drop ?k xs) + length rs)" "a_owner ?b = 0"
      using k r(3,4) z G(3) P(2) unfolding mv tk by (auto simp: list_update_append same_kind_def)
    note B = arr_okI [OF this(1-3) disjI1 [OF this(4)]]
    have "mset (take ?k xs) + mset (drop ?k xs) = mset xs"
      by (metis append_take_drop_id mset_append)
    then have "mset (take ?k xs @ x # drop ?k xs) = add_mset x (mset xs)" by simp
    then show ?thesis
      using Inr P False B G r(1) arr_len [OF P(1)]
      by (auto simp: vt_arr_insert_def Let_def no_out_def meets_def same_kind_def retain_if_def)
  qed
qed

lemma meets_remove:
  assumes "plain_arr a" shows "meets a (arr_exec mem (ORemove i) a) (list_exec (ORemove i) (elems a))"
proof (cases "sint i < 0 \<or> sint i \<ge> a_len a")
  case True
  then show ?thesis using plain_arrD [OF assms] arr_len [of a]
    by (auto simp: vt_arr_remove_at_def one_out_def meets_def)
next
  case False
  note P = plain_arrD [OF assms]
  obtain xs rest where r: "elems a = xs" "a_data a = map Some xs @ rest" "a_len a = int (length xs)"
    "a_cap a = int (length xs + length rest)" using arr_split [OF P(1)] .
  let ?k = "nat (sint i)"
  let ?ys = "take ?k xs @ drop (Suc ?k) xs"
  let ?b = "a\<lparr>a_data := memmove_at (a_data a) ?k (?k + 1) (nat (a_len a) - 1 - ?k), a_len := a_len a - 1\<rparr>"
  have k: "?k < length xs" using False r by auto
  have "a_data ?b = map Some ?ys @ drop (length xs - 1) (map Some xs) @ rest" "a_len ?b = int (length ?ys)"
    "a_cap ?b = int (length ?ys + length (drop (length xs - 1) (map Some xs) @ rest))" "a_owner ?b = 0"
    using k r P(2) by (auto simp: memmove_at_def drop_map take_map)
  note B = arr_okI [OF this(1-3) disjI1 [OF this(4)]]
  have "slot_at a (sint i) = xs ! ?k" using slot_elems [OF P(1), of "sint i"] False r by auto
  moreover have "mset ?ys + {#xs ! ?k#} = mset xs"
    using k by (subst (3) id_take_nth_drop [of ?k xs]) auto
  ultimately show ?thesis
    using P False B r by (auto simp: vt_arr_remove_at_def Let_def one_out_def meets_def same_kind_def)
qed

lemma arr_update:
  assumes "arr_ok a" "k < length (elems a)"
  shows "arr_ok (a\<lparr>a_data := (a_data a)[k := Some x]\<rparr>)"
    "elems (a\<lparr>a_data := (a_data a)[k := Some x]\<rparr>) = (elems a)[k := x]"
proof -
  obtain xs rest where r: "elems a = xs" "a_data a = map Some xs @ rest" "a_len a = int (length xs)"
    "a_cap a = int (length xs + length rest)" using arr_split [OF assms(1)] .
  have "a_data (a\<lparr>a_data := (a_data a)[k := Some x]\<rparr>) = map Some (xs[k := x]) @ rest"
    using assms(2) r by (simp add: list_update_append map_update)
  moreover have "a_owner a = 0 \<or> rest = [] \<and> \<not> a_ref a"
    using assms(1) r(3,4) by (auto simp: arr_ok_def)
  ultimately show "arr_ok (a\<lparr>a_data := (a_data a)[k := Some x]\<rparr>)"
    "elems (a\<lparr>a_data := (a_data a)[k := Some x]\<rparr>) = (elems a)[k := x]"
    using arr_okI [of "a\<lparr>a_data := (a_data a)[k := Some x]\<rparr>" "xs[k := x]" rest] r by auto
qed

lemma mset_update_balance: "k < length xs \<Longrightarrow> add_mset (xs ! k) (mset (xs[k := x])) = add_mset x (mset xs)"
  by (simp add: mset_update)

lemma meets_set:
  assumes "plain_arr a" shows "meets a (arr_exec mem (OSet i x) a) (list_exec (OSet i x) (elems a))"
proof -
  note P = plain_arrD [OF assms]
  have at: "vt_arr_at (Some a) i =
     (if 0 \<le> sint i \<and> sint i < a_len a then Inr (nat (sint i)) else Inl (vt_arr_oob (Some a) i))"
    using P by (intro vt_arr_at_bounds) (auto simp: arr_ok_def)
  show ?thesis
  proof (cases "0 \<le> sint i \<and> sint i < a_len a")
    case True
    then have k: "nat (sint i) < length (elems a)" using P(1) by (simp add: length_elems)
    show ?thesis
      using True P at arr_update [OF P(1) k, of x] slot_elems [OF P(1), of "sint i"]
        mset_update_balance [OF k, of x] arr_len [OF P(1)]
      by (simp add: vt_arr_set_def Let_def no_out_def meets_def same_kind_def)
  next
    case False
    then show ?thesis using P at arr_len [OF P(1)] by (auto simp: vt_arr_set_def no_out_def meets_def)
  qed
qed

lemma meets_reverse:
  assumes "plain_arr a" shows "meets a (arr_exec mem OReverse a) (list_exec OReverse (elems a))"
proof (cases "a_len a < 2")
  case True
  note P = plain_arrD [OF assms]
  have "length (elems a) \<le> 1" using True arr_len [OF P(1)] by simp
  then have "rev (elems a) = elems a" by (cases "elems a") auto
  then show ?thesis using True P by (simp add: vt_arr_reverse_def no_out_def meets_def)
next
  case False
  note P = plain_arrD [OF assms]
  obtain xs rest where r: "elems a = xs" "a_data a = map Some xs @ rest" "a_len a = int (length xs)"
    "a_cap a = int (length xs + length rest)" using arr_split [OF P(1)] .
  have "swap_loop (a_data a) 0 (a_len a - 1) = map Some (rev xs) @ rest"
    using swap_loop_mid [of "[]" 0 "a_len a - 1" "map Some xs" rest] r by (simp add: rev_map)
  then have "arr_ok (a\<lparr>a_data := swap_loop (a_data a) 0 (a_len a - 1)\<rparr>)"
    "elems (a\<lparr>a_data := swap_loop (a_data a) 0 (a_len a - 1)\<rparr>) = rev xs"
    using arr_okI [of "a\<lparr>a_data := swap_loop (a_data a) 0 (a_len a - 1)\<rparr>" "rev xs" rest] r P(2) by auto
  then show ?thesis using False P r(1) by (simp add: vt_arr_reverse_def no_out_def meets_def same_kind_def)
qed

lemma release_all_eq: "arr_ok a \<Longrightarrow> release_all a = (if a_ref a then map Release (elems a) else [])"
proof -
  assume a: "arr_ok a"
  have "map (\<lambda>i. slot_at a (int i)) [0..<nat (a_len a)] = elems a"
    using a length_elems [OF a] by (intro nth_equalityI) (auto simp: slot_elems)
  then have "map (\<lambda>i. Release (slot_at a (int i))) [0..<nat (a_len a)] = map Release (elems a)"
    by (metis (no_types, lifting) comp_apply map_eq_conv map_map)
  then show ?thesis by (simp add: release_all_def)
qed

lemma meets_clear:
  assumes "plain_arr a" shows "meets a (arr_exec mem OClear a) (list_exec OClear (elems a))"
  using plain_arrD [OF assms] arr_shrink [of a 0] release_all_eq [of a]
  by (simp add: vt_arr_clear_def no_out_def meets_def same_kind_def arr_ok_def)

lemma meets_reserve:
  assumes "plain_arr a" shows "meets a (arr_exec mem (OReserve n) a) (list_exec (OReserve n) (elems a))"
  using plain_arrD [OF assms] realloc_ok [of a n]
  by (simp add: vt_arr_reserve_def no_out_def meets_def)

lemma cap_loop_ge: "0 < nc \<Longrightarrow> need \<le> cap_loop nc need \<and> nc \<le> cap_loop nc need"
  by (induction nc need rule: cap_loop.induct) (subst (1 2) cap_loop.simps, auto)

text \<open>With room for all of them, a run of pushes never asks the allocator for anything.\<close>

lemma push_all_room:
  assumes "owned_ok al" "a_len (fst al) + int (length ys) \<le> a_cap (fst al)"
  shows "\<exists>al'. run_all (push_log mem) ys al = Inr al' \<and> run_all (push_log mem') ys al = Inr al'"
  using assms
proof (induction ys arbitrary: al)
  case (Cons y ys)
  have room: "a_len (fst al) < a_cap (fst al)" using Cons.prems(2) by simp
  then obtain b l where p: "vt_arr_push mem (fst al) y = Inr (b, l)" "vt_arr_push mem' (fst al) y = Inr (b, l)"
    by (auto simp: vt_arr_push_def grow_one_no_oom)
  have "owned_ok (b, snd al @ l)" "a_len b + int (length ys) \<le> a_cap b"
    using push_ok [OF _ _ p(1)] Cons.prems room by (auto simp: same_kind_def)
  then show ?case using Cons.IH [of "(b, snd al @ l)"] p by (simp add: push_log_def)
qed simp

lemma same_kind_push_all:
  "owned_ok al \<Longrightarrow> run_all (push_log mem) ys al = Inr al' \<Longrightarrow> same_kind (fst al') (fst al)"
proof (induction ys arbitrary: al)
  case (Cons y ys)
  then obtain b l where p: "vt_arr_push mem (fst al) y = Inr (b, l)"
    and r: "run_all (push_log mem) ys (b, snd al @ l) = Inr al'"
    by (auto simp: push_log_Inr)
  note P = push_ok [OF _ _ p]
  have "same_kind (fst al') b"
    using Cons.IH [OF _ r] P Cons.prems(1) by (auto simp: same_kind_def)
  then show ?case using P(3) Cons.prems(1) by (auto simp: same_kind_def)
qed simp

text \<open>\<open>vt_arr_extend\<close> in terms of the elements of its source, whichever array that is.\<close>

definition ext_elems :: "'v arr \<Rightarrow> 'v ext_src \<Rightarrow> 'v list" where
  "ext_elems a os = (case os of ExtOther o' \<Rightarrow> elems o' | _ \<Rightarrow> elems a)"

lemma vt_arr_extend_eq:
  assumes a: "arr_ok a" "a_owner a = 0" and os: "os \<noteq> ExtNull" "\<And>o'. os = ExtOther o' \<Longrightarrow> arr_ok o'"
  shows "\<exists>c. arr_ok c \<and> same_kind c a \<and> elems c = elems a \<and> a_len c = a_len a \<and>
     a_len c + int (length (ext_elems a os)) \<le> a_cap c \<and>
     ((\<exists>k. \<not> mem k) \<and> vt_arr_extend mem (Some a) os = Inl Oom \<or>
      vt_arr_extend mem (Some a) os = run_all (push_log mem) (ext_elems a os) (c, []))"
proof -
  define src where "src = (case os of ExtOther o' \<Rightarrow> Some o' | _ \<Rightarrow> None)"
  define n where "n = a_len (case src of None \<Rightarrow> a | Some o' \<Rightarrow> o')"
  have n: "n = int (length (ext_elems a os))"
    using os arr_len [OF a(1)] arr_len by (cases os) (auto simp: n_def src_def ext_elems_def)
  have loop: "push_loop mem src 0 n (c, []) = run_all (push_log mem) (ext_elems a os) (c, [])"
    if c: "arr_ok c" "a_owner c = 0" "elems c = elems a" for c
  proof (cases os)
    case (ExtOther o')
    have "n = a_len o'" by (simp add: n_def src_def ExtOther)
    then have "push_loop mem (Some o') 0 n (c, []) = run_all (push_log mem) (take (nat n) (elems o')) (c, [])"
      using os(2) [OF ExtOther] by (simp add: push_loop_other)
    then show ?thesis using n by (simp add: src_def ExtOther ext_elems_def)
  next
    case ExtSelf
    then show ?thesis
      using push_loop_self [of "(c, [])" "elems a" "[]" 0 n mem] c n by (simp add: src_def ext_elems_def)
  qed (use os in simp)
  have guard: "vt_arr_no_resize a ''extend'' = Inr ()" using a(2) by (simp add: vt_arr_no_resize_def)
  let ?nc = "cap_loop (if a_cap a \<noteq> 0 then a_cap a else 8) (a_len a + n)"
  have cap0: "0 \<le> a_cap a" using a(1) by (simp add: arr_ok_def)
  have "(0::int) < (if a_cap a \<noteq> 0 then a_cap a else 8)" using cap0 by simp
  note nc = cap_loop_ge [OF this, of "a_len a + n"]
  have ge: "a_cap a \<le> ?nc" using nc cap0 by (cases "a_cap a = 0") simp_all
  note R = realloc_ok [OF a ge]
  show ?thesis
  proof (cases "a_len a + n > a_cap a")
    case True
    have "vt_arr_extend mem (Some a) os = (if mem ?nc then push_loop mem src 0 n (realloc_to ?nc a, []) else Inl Oom)"
      using os(1) guard True by (simp add: vt_arr_extend_def Let_def src_def [symmetric] n_def [symmetric])
    then show ?thesis
      using R nc n loop [of "realloc_to ?nc a"] a(2)
      by (intro exI [of _ "realloc_to ?nc a"]) (auto simp: same_kind_def)
  next
    case False
    have "vt_arr_extend mem (Some a) os = push_loop mem src 0 n (a, [])"
      using os(1) guard False by (simp add: vt_arr_extend_def Let_def src_def [symmetric] n_def [symmetric])
    then show ?thesis
      using False n loop [of a] a by (intro exI [of _ a]) auto
  qed
qed

lemma meets_extend:
  assumes "plain_arr a" and os: "os \<noteq> ExtNull" "\<And>o'. os = ExtOther o' \<Longrightarrow> arr_ok o'"
  shows "meets a (no_out (vt_arr_extend mem (Some a) os)) (Some ([], elems a @ ext_elems a os))"
proof -
  note P = plain_arrD [OF assms(1)]
  obtain c where c: "arr_ok c" "same_kind c a" "elems c = elems a"
    "a_len c + int (length (ext_elems a os)) \<le> a_cap c"
    "(\<exists>k. \<not> mem k) \<and> vt_arr_extend mem (Some a) os = Inl Oom \<or>
     vt_arr_extend mem (Some a) os = run_all (push_log mem) (ext_elems a os) (c, [])"
    using vt_arr_extend_eq [OF P(1,2) os, where mem = mem] by auto
  have own: "owned_ok (c, [])" using c(1,2) P(2) by (simp add: same_kind_def)
  obtain b l where b: "run_all (push_log mem) (ext_elems a os) (c, []) = Inr (b, l)"
    using push_all_room [OF own, of "ext_elems a os" mem] c(4) by force
  note B = push_all_ok [OF own b]
  have "same_kind b a" using same_kind_push_all [OF own b] c(2) by (auto simp: same_kind_def)
  then show ?thesis
    using c(2,3,5) B b by (auto simp: meets_def no_out_def same_kind_def)
qed

lemma fill_loop_ok:
  assumes "arr_ok (fst al)" "0 \<le> i" "i \<le> a_len (fst al)"
  shows "\<exists>b l. fill_loop x i al = (b, snd al @ l) \<and> arr_ok b \<and> same_kind b (fst al) \<and>
     elems b = take (nat i) (elems (fst al)) @ replicate (length (elems (fst al)) - nat i) x \<and>
     (a_ref (fst al) \<longrightarrow> retains l = replicate_mset (length (elems (fst al)) - nat i) x \<and>
        releases l = mset (drop (nat i) (elems (fst al)))) \<and> (\<not> a_ref (fst al) \<longrightarrow> l = [])"
  using assms
proof (induction x i al rule: fill_loop.induct)
  case (1 x i al)
  let ?a = "fst al" and ?k = "nat i"
  show ?case
  proof (cases "i < a_len ?a")
    case True
    have k: "?k < length (elems ?a)" using True 1(2,3) arr_len [OF 1(2)] by simp
    let ?b = "?a\<lparr>a_data := (a_data ?a)[?k := Some x]\<rparr>"
    let ?l = "if a_ref ?a then [Retain x, Release (slot_at ?a i)] else []"
    note U = arr_update [OF 1(2) k, of x]
    have s: "slot_at ?a i = elems ?a ! ?k" using slot_elems [OF 1(2)] True 1(3) by simp
    have nat1: "nat (i + 1) = Suc ?k" using 1(3) by simp
    obtain b l where IH: "fill_loop x (i + 1) (?b, snd al @ ?l) = (b, (snd al @ ?l) @ l)" "arr_ok b"
      "same_kind b ?b" "elems b = take (Suc ?k) ((elems ?a)[?k := x]) @ replicate (length (elems ?a) - Suc ?k) x"
      "a_ref ?a \<Longrightarrow> retains l = replicate_mset (length (elems ?a) - Suc ?k) x \<and>
        releases l = mset (drop (Suc ?k) ((elems ?a)[?k := x]))" "\<not> a_ref ?a \<Longrightarrow> l = []"
      using 1(1) [OF True refl] True 1(3) U nat1 by (auto simp: Let_def)
    have step: "fill_loop x i al = fill_loop x (i + 1) (?b, snd al @ ?l)"
      using True by (subst fill_loop.simps) (simp add: Let_def)
    have len: "length (elems ?a) - ?k = Suc (length (elems ?a) - Suc ?k)" using k by simp
    have tk: "take (Suc ?k) ((elems ?a)[?k := x]) = take ?k (elems ?a) @ [x]"
      using k by (simp add: take_Suc_conv_app_nth)
    have dr: "drop ?k (elems ?a) = elems ?a ! ?k # drop (Suc ?k) (elems ?a)"
      using k by (simp add: Cons_nth_drop_Suc)
    show ?thesis
      using IH k unfolding step len dr
      by (intro exI [of _ b] exI [of _ "?l @ l"]) (auto simp: same_kind_def tk s)
  next
    case False
    then have "i = a_len ?a" using 1(4) by simp
    then have "nat i = length (elems ?a)" using arr_len [OF 1(2)] by simp
    then show ?thesis
      using False 1(2) by (subst fill_loop.simps) (auto intro!: exI [of _ "fst al"] exI [of _ "[]"])
  qed
qed

lemma meets_fill:
  assumes "plain_arr a" shows "meets a (arr_exec mem (OFill x) a) (list_exec (OFill x) (elems a))"
proof -
  note P = plain_arrD [OF assms]
  have "0 \<le> a_len a" using P(1) by (simp add: arr_ok_def)
  then show ?thesis
    using fill_loop_ok [of "(a, [])" 0 x] P
    by (auto simp: vt_arr_fill_def no_out_def meets_def)
qed

lemma extend_oom:
  assumes "plain_arr a" and os: "os \<noteq> ExtNull" "\<And>o'. os = ExtOther o' \<Longrightarrow> arr_ok o'"
    and oom: "vt_arr_extend mem (Some a) os = Inl e"
  shows "\<exists>k. \<not> mem k"
proof -
  note P = plain_arrD [OF assms(1)]
  obtain c where c: "arr_ok c" "same_kind c a" "a_len c + int (length (ext_elems a os)) \<le> a_cap c"
    "(\<exists>k. \<not> mem k) \<or> vt_arr_extend mem (Some a) os = run_all (push_log mem) (ext_elems a os) (c, [])"
    using vt_arr_extend_eq [OF P(1,2) os, where mem = mem] by auto
  then show ?thesis
    using push_all_room [of "(c, [])" "ext_elems a os" mem mem] P(2) oom by (auto simp: same_kind_def)
qed

lemma grow_one_oom: "grow_one mem a = Inl e \<Longrightarrow> \<exists>k. \<not> mem k"
  by (auto simp: grow_one_def Let_def split: if_splits)

lemma arr_exec_oom:
  assumes a: "plain_arr a" "\<And>o'. op = OExtend o' \<Longrightarrow> arr_ok o'" and oom: "arr_exec mem op a = Inl Oom"
  shows "\<exists>k. \<not> mem k"
proof (cases op)
  case (OSet i x)
  then show ?thesis
    using oom by (auto simp: no_out_def bind_res_eq_Inl vt_arr_set_def vt_arr_at_def vt_arr_oob_def
        vt_arr_no_write_def vt_arr_ro_def Let_def split: if_splits)
qed (use oom extend_oom [OF a(1), of ExtSelf] extend_oom [OF a(1), of "ExtOther _"] a(2) in
      \<open>auto simp: no_out_def one_out_def bind_res_eq_Inl vt_arr_push_at_def vt_arr_push_def vt_arr_pop_def
         vt_arr_insert_def vt_arr_remove_at_def vt_arr_reverse_def vt_arr_clear_def vt_arr_reserve_def
         vt_arr_fill_def vt_arr_no_resize_def vt_arr_no_write_def vt_arr_ro_def Let_def
         dest: grow_one_oom split: if_splits prod.splits\<close>)

lemma arr_exec_meets:
  assumes "plain_arr a" "\<And>o'. op = OExtend o' \<Longrightarrow> arr_ok o'"
  shows "meets a (arr_exec mem op a) (list_exec op (elems a))"
  using assms meets_extend [OF assms(1), of "case op of OExtend o' \<Rightarrow> ExtOther o' | _ \<Rightarrow> ExtSelf"]
  by (cases op) (simp_all add: meets_push meets_pop meets_insert meets_remove meets_set meets_reverse
      meets_clear meets_reserve meets_fill ext_elems_def del: arr_exec.simps list_exec.simps
      add: arr_exec.simps(9,10) list_exec.simps(9,10))

section \<open>New arrays from old\<close>

lemma push_all_total: "owned_ok al \<Longrightarrow> \<exists>al'. run_all (push_log (\<lambda>_. True)) ys al = Inr al'"
proof (induction ys arbitrary: al)
  case (Cons y ys)
  obtain b l where p: "vt_arr_push (\<lambda>_. True) (fst al) y = Inr (b, l)"
    by (cases "vt_arr_push (\<lambda>_. True) (fst al) y") (auto simp: vt_arr_push_def grow_one_def Let_def split: if_splits)
  note P = push_ok [OF _ _ p]
  show ?case using Cons.IH [of "(b, snd al @ l)"] P Cons.prems p by (auto simp: push_log_def same_kind_def)
qed simp

lemma copied_ok:
  assumes "run_all (push_log mem) ys (vt_arr_new es ref, []) = Inr (r, l)"
  shows "arr_ok r \<and> elems r = ys \<and> l = (if ref then map Retain ys else []) \<and> a_ref r = ref \<and> a_owner r = 0"
  using push_all_ok [OF _ assms] by simp

lemma fresh_copy:
  "\<exists>r. run_all (push_log (\<lambda>_. True)) ys (vt_arr_new es er, []) =
      Inr (r, if er then map Retain (elems r) else []) \<and> arr_ok r \<and> elems r = ys"
  using push_all_total [of "(vt_arr_new es er, [])" ys] copied_ok [of "\<lambda>_. True" ys es er] by fastforce

lemma vt_arr_slice_eq:
  assumes "arr_ok a" "0 \<le> sint lo" "sint lo \<le> sint hi" "sint hi \<le> a_len a"
  shows "vt_arr_slice mem (Some a) lo hi =
     run_all (push_log mem) (drop (nat (sint lo)) (take (nat (sint hi)) (elems a))) (vt_arr_new (a_es a) (a_ref a), [])"
  using assms by (simp add: vt_arr_slice_def push_loop_other)

lemma vt_arr_concat_eq:
  assumes "arr_ok a" "arr_ok o'"
  shows "vt_arr_concat mem (Some a) (Some o') =
     run_all (push_log mem) (elems a @ elems o') (vt_arr_new (a_es a) (a_ref a), [])"
proof -
  have len: "nat (a_len x) = length (elems x)" if "arr_ok x" for x :: "'a arr"
    using length_elems [OF that] by simp
  have pl: "push_loop mem (Some x) 0 (a_len x) = run_all (push_log mem) (elems x)" if "arr_ok x" for x :: "'a arr"
    using that by (intro ext) (simp add: push_loop_other len)
  show ?thesis
    using assms by (simp add: vt_arr_concat_def pl run_all_append)
qed

lemma arr_join_copy_eq:
  "arr_join_copy sep (pre @ replicate (length (join_with sep ss) + (if i \<noteq> 0 \<and> ss \<noteq> [] then length sep else 0)) z) i (length pre) ss
     = pre @ (if i \<noteq> 0 \<and> ss \<noteq> [] then sep else []) @ join_with sep ss"
proof (induction ss arbitrary: pre i)
  case (Cons s ss)
  let ?p = "pre @ (if i \<noteq> 0 then sep else [])"
  let ?tail = "replicate (length (join_with sep ss) + (if ss \<noteq> [] then length sep else 0)) z"
  have jw: "join_with sep (s # ss) = s @ (if ss \<noteq> [] then sep else []) @ join_with sep ss"
    by (cases ss) simp_all
  have buf: "pre @ replicate (length (join_with sep (s # ss)) + (if i \<noteq> 0 then length sep else 0)) z =
      pre @ replicate (if i \<noteq> 0 then length sep else 0) z @ replicate (length s) z @ ?tail"
    unfolding jw by (simp flip: replicate_add add: ac_simps)
  have "arr_join_copy sep (pre @ replicate (if i \<noteq> 0 then length sep else 0) z @ replicate (length s) z @ ?tail)
        i (length pre) (s # ss) =
      arr_join_copy sep ((?p @ s) @ ?tail) (i + 1) (length (?p @ s)) ss"
    by (auto simp: memcpy_at_def add.assoc)
  also have "\<dots> = (?p @ s) @ (if ss \<noteq> [] then sep else []) @ join_with sep ss"
    using Cons.IH [of "?p @ s" "i + 1"] by simp
  finally show ?case
    unfolding jw using buf jw by simp
qed simp

lemma arr_find_loop_eq:
  assumes "arr_ok a" "0 \<le> i" "i \<le> a_len a"
  shows "arr_find_loop eq a x i =
     (if \<exists>y\<in>set (drop (nat i) (elems a)). eq y x
      then i + int (length (takeWhile (\<lambda>y. \<not> eq y x) (drop (nat i) (elems a)))) else - 1)"
  using assms
proof (induction eq a x i rule: arr_find_loop.induct)
  case (1 eq a x i)
  show ?case
  proof (cases "i < a_len a")
    case True
    have d: "drop (nat i) (elems a) = slot_at a i # drop (nat (i + 1)) (elems a)"
      using True 1(2,3) by (subst Cons_nth_drop_Suc [symmetric])
        (auto simp: slot_elems nat_add_distrib length_elems)
    show ?thesis
      using True 1 unfolding d by (subst arr_find_loop.simps) auto
  next
    case False
    then have "drop (nat i) (elems a) = []" using 1(2-4) by (simp add: length_elems)
    then show ?thesis using False by (subst arr_find_loop.simps) simp
  qed
qed

section \<open>Properties\<close>



text \<open>C6: Element access is memory safe. For any array length that fits in an \<open>int64_t\<close>, the
  single unsigned comparison of \<open>vt_arr_at\<close> lets through exactly the indices of the array,
  a negative index of \<open>vt_arr_nth\<close> counts from the end, and every other index, and every
  write to a read-only view, panics.\<close>

theorem arr_access_checked:
  assumes "arr_ok a" "a_len a < 9223372036854775808"
  shows "vt_arr_at (Some a) i =
      (if 0 \<le> sint i \<and> sint i < a_len a then Inr (nat (sint i)) else Inl (vt_arr_oob (Some a) i)) \<and>
    vt_arr_wr (Some a) i =
      (if \<not> (0 \<le> sint i \<and> sint i < a_len a) then Inl (vt_arr_oob (Some a) i)
       else if a_ro a then Inl vt_arr_ro else Inr (nat (sint i))) \<and>
    (0 \<le> sint i \<longrightarrow> sint i < a_len a \<longrightarrow> nat (sint i) < length (a_data a) \<and> a_data a ! nat (sint i) \<noteq> None) \<and>
    (- a_len a \<le> sint i \<longrightarrow> sint i < 0 \<longrightarrow> vt_arr_nth (Some a) i = Inr (nat (a_len a + sint i)))"
proof -
  have len: "0 \<le> a_len a" using assms(1) by (simp add: arr_ok_def)
  note at = vt_arr_at_bounds [OF len assms(2)]
  have "sint (word_of_int (a_len a) + i) = a_len a + sint i" if "- a_len a \<le> sint i" "sint i < 0"
  proof -
    have l: "sint (word_of_int (a_len a) :: i64) = a_len a"
      using len assms(2) by (simp add: sint_of_int_eq_iff)
    show ?thesis using that l len assms(2) by (subst sint_add64) (simp_all add: stb63_in_range)
  qed
  then have "vt_arr_nth (Some a) i = Inr (nat (a_len a + sint i))" if "- a_len a \<le> sint i" "sint i < 0"
    using that at [of "word_of_int (a_len a) + i"] by (simp add: vt_arr_nth_def)
  then show ?thesis
    using assms(1) by (auto simp: at vt_arr_wr_def vt_arr_no_write_def arr_ok_def)
qed

theorem arr_access_checked_witness:
  "vt_arr_at (Some \<lparr>a_len = 1, a_cap = 1, a_es = 8, a_ref = False, a_ro = True, a_data = [Some (7 :: nat)], a_owner = 5\<rparr>) 0 = Inr 0 \<and>
   vt_arr_wr (Some \<lparr>a_len = 1, a_cap = 1, a_es = 8, a_ref = False, a_ro = True, a_data = [Some (7 :: nat)], a_owner = 5\<rparr>) 0 = Inl vt_arr_ro"
  using arr_access_checked
    [of "\<lparr>a_len = 1, a_cap = 1, a_es = 8, a_ref = False, a_ro = True, a_data = [Some (7 :: nat)], a_owner = 5\<rparr>" 0]
  by (simp add: arr_ok_def)

text \<open>Copies and searches. \<open>slice\<close> and \<open>concat\<close> return fresh arrays with exactly the selected
  elements, each retained once when they are references; \<open>index_of\<close> is the first position
  of an equal element or -1; \<open>join\<close> is the strings with the separator between them, its
  precomputed buffer being exactly filled.\<close>

theorem arr_copies_and_searches:
  assumes "arr_ok a" "arr_ok o'"
  shows "(0 \<le> sint lo \<longrightarrow> sint lo \<le> sint hi \<longrightarrow> sint hi \<le> a_len a \<longrightarrow>
      (\<exists>r. vt_arr_slice (\<lambda>_. True) (Some a) lo hi =
           Inr (r, if a_ref a then map Retain (elems r) else []) \<and> arr_ok r \<and>
         elems r = drop (nat (sint lo)) (take (nat (sint hi)) (elems a)))) \<and>
    (\<exists>r. vt_arr_concat (\<lambda>_. True) (Some a) (Some o') =
         Inr (r, if a_ref a then map Retain (elems r) else []) \<and> arr_ok r \<and> elems r = elems a @ elems o') \<and>
    vt_arr_index_of eq (Some a) x =
      Inr (if \<exists>y\<in>set (elems a). eq y x then int (length (takeWhile (\<lambda>y. \<not> eq y x) (elems a))) else - 1) \<and>
    vt_arr_join (\<lambda>_. True) deref (Some a) sep = Inr (join_with sep (map deref (elems a)))"
proof (intro conjI impI)
  show "\<exists>r. vt_arr_slice (\<lambda>_. True) (Some a) lo hi = Inr (r, if a_ref a then map Retain (elems r) else []) \<and>
      arr_ok r \<and> elems r = drop (nat (sint lo)) (take (nat (sint hi)) (elems a))"
    if "0 \<le> sint lo" "sint lo \<le> sint hi" "sint hi \<le> a_len a"
    unfolding vt_arr_slice_eq [OF assms(1) that] by (rule fresh_copy)
  show "\<exists>r. vt_arr_concat (\<lambda>_. True) (Some a) (Some o') = Inr (r, if a_ref a then map Retain (elems r) else []) \<and>
      arr_ok r \<and> elems r = elems a @ elems o'"
    unfolding vt_arr_concat_eq [OF assms] by (rule fresh_copy)
  have len: "a_len a = int (length (elems a))" by (rule arr_len [OF assms(1)])
  then show "vt_arr_index_of eq (Some a) x =
      Inr (if \<exists>y\<in>set (elems a). eq y x then int (length (takeWhile (\<lambda>y. \<not> eq y x) (elems a))) else - 1)"
    using arr_find_loop_eq [OF assms(1), of 0 eq x] by (simp add: vt_arr_index_of_def)
  show "vt_arr_join (\<lambda>_. True) deref (Some a) sep = Inr (join_with sep (map deref (elems a)))"
  proof (cases "elems a = []")
    case False
    let ?ss = "map deref (elems a)"
    define total where "total = length sep * nat (a_len a - 1) + sum_list (map length ?ss)"
    have total: "total = length (join_with sep ?ss)"
      using False len by (subst length_join_with) (auto simp: total_def ac_simps)
    have l0: "a_len a \<noteq> 0" using False len by simp
    have "vt_arr_join (\<lambda>_. True) deref (Some a) sep =
        Inr (take total (arr_join_copy sep (replicate (if total \<noteq> 0 then total else 1) (CHR 0x00)) 0 0 ?ss))"
      unfolding vt_arr_join_def option.case if_not_P [OF l0] Let_def vt_str_new_def total_def [symmetric]
      by (simp only: not_True_eq_False if_False)
    moreover have "arr_join_copy sep (replicate total (CHR 0x00)) 0 0 ?ss = join_with sep ?ss"
      using arr_join_copy_eq [of sep "[]" ?ss 0 "CHR 0x00"] by (simp add: total)
    ultimately show ?thesis
      using total by (cases "total = 0") simp_all
  qed (use len in \<open>simp add: vt_arr_join_def\<close>)
qed

theorem arr_copies_and_searches_witness:
  "\<exists>r. vt_arr_concat (\<lambda>_. True) (Some (vt_arr_new 8 True :: nat arr)) (Some (vt_arr_new 8 True)) =
     Inr (r, if True then map Retain (elems r) else []) \<and> arr_ok r \<and> elems r = []"
  using arr_copies_and_searches [of "vt_arr_new 8 True :: nat arr" "vt_arr_new 8 True" 0 0 "(=)" 0 "\<lambda>_. []" "[]"]
  by simp

text \<open>Views have a fixed length. A view over a non-empty region reads the borrowed elements,
  retains its owner, and panics on push, pop, insert, remove, clear, extend and on a
  reserve beyond its length; a read-only one panics on set, reverse (of two or more)
  and fill as well. A view of length zero is instead an ordinary empty byte array: it
  retains nothing and a push on it succeeds, whatever the element size asked for.\<close>

theorem arr_view_fixed:
  assumes "0 < es" "owner \<noteq> 0" "0 < len" "len \<le> int (length d)" "len \<le> 9223372036854775807 div es"
  shows "(\<exists>v. vt_arr_view mem zero (Some d) len es owner ro = Inr (v, [Retain owner]) \<and>
      arr_ok v \<and> elems v = take (nat len) d \<and>
      (\<forall>op\<in>{OPush x, OPop, OInsert i x, ORemove i, OClear, OExtendSelf, OExtend o'}.
         \<exists>msg. arr_exec mem' op v = Inl (Panic msg)) \<and>
      (\<forall>n. len < n \<longrightarrow> (\<exists>msg. arr_exec mem' (OReserve n) v = Inl (Panic msg))) \<and>
      (ro \<longrightarrow> (\<forall>op\<in>{OSet i x, OReverse, OFill x}. \<exists>msg. arr_exec mem' op v = Inl (Panic msg)))) \<and>
    (\<exists>e b. vt_arr_view (\<lambda>_. True) zero (Some d) 0 es owner ro = Inr (e, []) \<and> a_es e = 1 \<and> a_owner e = 0 \<and>
      arr_exec (\<lambda>_. True) (OPush x) e = Inr (([], b), []) \<and> elems b = [x])"
proof
  let ?v = "(vt_arr_new es False)\<lparr>a_data := map Some (take (nat len) d), a_len := len,
                      a_cap := len, a_ro := ro, a_owner := owner\<rparr>"
  have v: "vt_arr_view mem zero (Some d) len es owner ro = Inr (?v, [Retain owner])"
    using assms by (simp add: vt_arr_view_def)
  have ok: "arr_ok ?v" "elems ?v = take (nat len) d"
    using arr_okI [of ?v "take (nat len) d" "[]"] assms(3,4) by (auto simp: vt_arr_new_def)
  have fixed: "\<exists>msg. arr_exec mem' op ?v = Inl (Panic msg)"
    if "op \<in> {OPush x, OPop, OInsert i x, ORemove i, OClear, OExtendSelf, OExtend o'}" for op
    using that assms(2) by (auto simp: no_out_def one_out_def vt_arr_push_at_def vt_arr_pop_def vt_arr_insert_def
        vt_arr_remove_at_def vt_arr_clear_def vt_arr_extend_def vt_arr_no_resize_def)
  have reserve: "\<exists>msg. arr_exec mem' (OReserve n) ?v = Inl (Panic msg)" if "len < n" for n
    using that assms(2) by (simp add: no_out_def vt_arr_reserve_def vt_arr_no_resize_def)
  have set: "\<exists>msg. arr_exec mem' (OSet i x) ?v = Inl (Panic msg)" if "ro"
    using that by (cases "vt_arr_at (Some ?v) i")
      (auto simp: no_out_def vt_arr_set_def vt_arr_no_write_def vt_arr_ro_def vt_arr_at_def vt_arr_oob_def
        split: if_splits)
  have rest: "\<exists>msg. arr_exec mem' op ?v = Inl (Panic msg)" if "ro" "op \<in> {OReverse, OFill x}" for op
    using that by (auto simp: no_out_def vt_arr_reverse_def vt_arr_fill_def vt_arr_no_write_def vt_arr_ro_def)
  show "\<exists>v. vt_arr_view mem zero (Some d) len es owner ro = Inr (v, [Retain owner]) \<and>
      arr_ok v \<and> elems v = take (nat len) d \<and>
      (\<forall>op\<in>{OPush x, OPop, OInsert i x, ORemove i, OClear, OExtendSelf, OExtend o'}.
         \<exists>msg. arr_exec mem' op v = Inl (Panic msg)) \<and>
      (\<forall>n. len < n \<longrightarrow> (\<exists>msg. arr_exec mem' (OReserve n) v = Inl (Panic msg))) \<and>
      (ro \<longrightarrow> (\<forall>op\<in>{OSet i x, OReverse, OFill x}. \<exists>msg. arr_exec mem' op v = Inl (Panic msg)))"
    using v ok fixed reserve set rest by (intro exI [of _ ?v]) blast
next
  let ?e = "(vt_arr_new 1 False)\<lparr>a_data := [] :: 'a option list, a_len := 0, a_cap := 0\<rparr>"
  have e: "vt_arr_view (\<lambda>_. True) zero (Some d) 0 es owner ro = Inr (?e, [])"
    using assms by (simp add: vt_arr_view_def vt_arr_bytes_def)
  have ok: "arr_ok ?e" "elems ?e = []" "a_owner ?e = 0" "\<not> a_ref ?e" "a_es ?e = 1"
    by (simp_all add: arr_ok_def elems_def)
  obtain b l where p: "vt_arr_push (\<lambda>_. True) ?e x = Inr (b, l)"
    by (simp add: vt_arr_push_def grow_one_def Let_def)
  have "arr_exec (\<lambda>_. True) (OPush x) ?e = Inr (([], b), [])" "elems b = [x]"
    using p push_ok [OF ok(1,3) p] ok
    by (simp_all add: no_out_def vt_arr_push_at_def vt_arr_no_resize_def retain_if_def)
  then show "\<exists>e b. vt_arr_view (\<lambda>_. True) zero (Some d) 0 es owner ro = Inr (e, []) \<and> a_es e = 1 \<and> a_owner e = 0 \<and>
      arr_exec (\<lambda>_. True) (OPush x) e = Inr (([], b), []) \<and> elems b = [x]"
    using e ok by blast
qed

theorem arr_view_fixed_witness:
  "\<exists>v. vt_arr_view (\<lambda>_. True) 0 (Some [3 :: nat, 4]) 2 8 5 True = Inr (v, [Retain 5]) \<and> elems v = [3, 4]"
  using arr_view_fixed [of 8 5 2 "[3 :: nat, 4]" "\<lambda>_. True" 0 True 0 0 "vt_arr_new 8 False" "\<lambda>_. True"]
  by auto

end
