(* ===== verification/Vt_Map.thy ===== *)
theory Vt_Map
  imports Vt_Arr
begin

text \<open>
  String-keyed maps (\<open>VtMap\<close> of \<open>runtime/vyto_rt.h\<close>, the map part of
  \<open>runtime/vyto_rt.c\<close> and \<open>runtime/vyto_rt_map.c\<close>). A bucket is the list of its entries
  from the head of the chain; an entry has the contents of its key, the key object it
  holds a reference to, and the 8-byte value slot. Retains and releases are logged as
  for arrays; a null map is \<open>None\<close>.
\<close>

section \<open>Model\<close>

type_synonym entry = "string \<times> (ptr \<times> u64)"

record vmap =
  m_len :: int
  m_bk :: "entry list list"
  m_vref :: bool

datatype mref = KeyRef ptr | ValRef u64

type_synonym map_res = "(vmap \<times> mref rc_op list) res"

definition vt_map_new :: "bool \<Rightarrow> bool \<Rightarrow> vmap res" where
  "vt_map_new ok vref = (if ok then Inr \<lparr>m_len = 0, m_bk = replicate 64 [], m_vref = vref\<rparr> else Inl Oom)"

definition map_hash :: "string \<Rightarrow> u64" where
  "map_hash k = fnv_hash k"

abbreviation nbuckets :: "vmap \<Rightarrow> nat" where
  "nbuckets m \<equiv> length (m_bk m)"

definition bucket_of :: "nat \<Rightarrow> string \<Rightarrow> nat" where
  "bucket_of nb k = unat (map_hash k) mod nb"

text \<open>\<open>map_slot\<close>: the entries before the link it returns, and the chain from that link on
  (empty when the link is NULL).\<close>

definition map_slot :: "vmap \<Rightarrow> string \<Rightarrow> entry list \<times> entry list" where
  "map_slot m key =
     (let c = m_bk m ! bucket_of (nbuckets m) key
      in (takeWhile (\<lambda>e. \<not> vt_str_eq (Some (fst e)) (Some key)) c,
          dropWhile (\<lambda>e. \<not> vt_str_eq (Some (fst e)) (Some key)) c))"

definition set_bucket :: "vmap \<Rightarrow> string \<Rightarrow> entry list \<Rightarrow> vmap" where
  "set_bucket m key c = m\<lparr>m_bk := (m_bk m)[bucket_of (nbuckets m) key := c]\<rparr>"

text \<open>Relinking one entry at the head of its new bucket, and all of them bucket by bucket.\<close>

definition relink :: "nat \<Rightarrow> entry \<Rightarrow> entry list list \<Rightarrow> entry list list" where
  "relink nb e bs = bs[bucket_of nb (fst e) := e # bs ! bucket_of nb (fst e)]"

definition map_grow :: "bool \<Rightarrow> vmap \<Rightarrow> vmap" where
  "map_grow ok m =
     (let nb = nbuckets m * 2
      in if \<not> ok then m
         else m\<lparr>m_bk := fold (fold (relink nb)) (m_bk m) (replicate nb [])\<rparr>)"

text \<open>\<open>eo\<close> and \<open>go\<close>: whether a new entry and a larger table can be allocated.\<close>

definition vt_map_set :: "bool \<Rightarrow> bool \<Rightarrow> vmap option \<Rightarrow> ptr \<times> string \<Rightarrow> u64 \<Rightarrow> map_res" where
  "vt_map_set eo go mo kk val =
     (case mo of
        None \<Rightarrow> Inl (Panic ''set on null map'')
      | Some m \<Rightarrow>
          (case map_slot m (snd kk) of
             (pre, (k, (kp, old)) # rest) \<Rightarrow>
               Inr (set_bucket m (snd kk) (pre @ (k, (kp, val)) # rest),
                    if m_vref m then [Retain (ValRef val), Release (ValRef old)] else [])
           | (pre, []) \<Rightarrow>
               if \<not> eo then Inl Oom
               else let m1 = (set_bucket m (snd kk) (pre @ [(snd kk, (fst kk, val))]))\<lparr>m_len := m_len m + 1\<rparr>
                    in Inr (if m_len m1 > int (nbuckets m1) * 4 then map_grow go m1 else m1,
                            Retain (KeyRef (fst kk)) # (if m_vref m then [Retain (ValRef val)] else []))))"

definition vt_map_get :: "vmap option \<Rightarrow> string \<Rightarrow> u64 res" where
  "vt_map_get mo key =
     (case mo of
        None \<Rightarrow> Inl (Panic ''get on null map'')
      | Some m \<Rightarrow>
          (case snd (map_slot m key) of
             [] \<Rightarrow> Inl (Panic (fmt_msg 160 ''map key not found: %s'' [AStr (Some (c_str key))]))
           | e # _ \<Rightarrow> Inr (snd (snd e))))"

definition vt_map_has :: "vmap option \<Rightarrow> string \<Rightarrow> bool res" where
  "vt_map_has mo key =
     (case mo of
        None \<Rightarrow> Inl (Panic ''has on null map'')
      | Some m \<Rightarrow> Inr (snd (map_slot m key) \<noteq> []))"

definition vt_map_remove :: "vmap option \<Rightarrow> string \<Rightarrow> map_res" where
  "vt_map_remove mo key =
     (case mo of
        None \<Rightarrow> Inl (Panic ''remove on null map'')
      | Some m \<Rightarrow>
          (case map_slot m key of
             (pre, []) \<Rightarrow> Inr (m, [])
           | (pre, (k, (kp, v)) # rest) \<Rightarrow>
               Inr ((set_bucket m key (pre @ rest))\<lparr>m_len := m_len m - 1\<rparr>,
                    Release (KeyRef kp) # (if m_vref m then [Release (ValRef v)] else []))))"

definition vt_map_get_or :: "vmap option \<Rightarrow> string \<Rightarrow> u64 \<Rightarrow> u64 res" where
  "vt_map_get_or mo key def =
     (case mo of
        None \<Rightarrow> Inl (Panic ''get_or on null map'')
      | Some m \<Rightarrow> Inr (case snd (map_slot m key) of [] \<Rightarrow> def | e # _ \<Rightarrow> snd (snd e)))"

definition entries :: "vmap \<Rightarrow> entry list" where
  "entries m = concat (m_bk m)"

definition vt_map_keys :: "(int \<Rightarrow> bool) \<Rightarrow> vmap option \<Rightarrow> ptr arr_res" where
  "vt_map_keys mem mo =
     (case mo of
        None \<Rightarrow> Inl (Panic ''keys on null map'')
      | Some m \<Rightarrow> run_all (\<lambda>b. run_all (\<lambda>e. push_log mem (fst (snd e))) b) (m_bk m) (vt_arr_new 8 True, []))"

text \<open>The array takes the low \<open>elem_size\<close> bytes of each value slot.\<close>

definition vt_map_values :: "(int \<Rightarrow> bool) \<Rightarrow> vmap option \<Rightarrow> nat \<Rightarrow> bool \<Rightarrow> u64 arr_res" where
  "vt_map_values mem mo es er =
     (case mo of
        None \<Rightarrow> Inl (Panic ''values on null map'')
      | Some m \<Rightarrow> run_all (\<lambda>b. run_all (\<lambda>e. push_log mem (take_bit (8 * es) (snd (snd e)))) b) (m_bk m)
                   (vt_arr_new (int es) er, []))"

definition entry_release :: "bool \<Rightarrow> entry \<Rightarrow> mref rc_op list" where
  "entry_release vref e = Release (KeyRef (fst (snd e))) # (if vref then [Release (ValRef (snd (snd e)))] else [])"

definition vt_map_clear :: "vmap option \<Rightarrow> map_res" where
  "vt_map_clear mo =
     (case mo of
        None \<Rightarrow> Inl (Panic ''clear on null map'')
      | Some m \<Rightarrow> Inr (m\<lparr>m_bk := map (\<lambda>_. []) (m_bk m), m_len := 0\<rparr>,
                     concat (map (\<lambda>b. concat (map (entry_release (m_vref m)) b)) (m_bk m))))"

text \<open>\<open>vt_map_merge\<close>; \<open>set_log\<close> is one \<open>vt_map_set\<close> with its log appended. In
  \<open>m.merge(m)\<close> the walk is over the map that is being written; writing an entry's own
  value leaves the map as it is (\<open>set_own_entry\<close> below), so reading the entries of \<open>o\<close>
  up front is the same walk.\<close>

definition set_log :: "bool \<Rightarrow> bool \<Rightarrow> entry \<Rightarrow> vmap \<times> mref rc_op list \<Rightarrow> map_res" where
  "set_log eo go e ml =
     bind_res (vt_map_set eo go (Some (fst ml)) (fst (snd e), fst e) (snd (snd e))) (\<lambda>(m, l). Inr (m, snd ml @ l))"

definition vt_map_merge :: "bool \<Rightarrow> bool \<Rightarrow> vmap option \<Rightarrow> vmap option \<Rightarrow> map_res" where
  "vt_map_merge eo go mo oo =
     (case (mo, oo) of
        (Some m, Some o') \<Rightarrow> run_all (\<lambda>b. run_all (set_log eo go) b) (m_bk o') (m, [])
      | _ \<Rightarrow> Inl (Panic ''merge on null map''))"

section \<open>Well-formed maps and what they denote\<close>

definition map_ok :: "vmap \<Rightarrow> bool" where
  "map_ok m \<longleftrightarrow>
     0 < nbuckets m \<and> buckets_ok (bucket_of (nbuckets m)) (m_bk m) \<and> m_len m = int (length (entries m))"

definition map_abs :: "vmap \<Rightarrow> string \<rightharpoonup> u64" where
  "map_abs m s = map_option snd (map_of (entries m) s)"

definition entry_refs :: "bool \<Rightarrow> entry \<Rightarrow> mref multiset" where
  "entry_refs vref e = add_mset (KeyRef (fst (snd e))) (if vref then {#ValRef (snd (snd e))#} else {#})"

definition map_refs :: "vmap \<Rightarrow> mref multiset" where
  "map_refs m = (\<Sum>e\<in>#mset (entries m). entry_refs (m_vref m) e)"

lemma bucket_of_less [simp]: "0 < nb \<Longrightarrow> bucket_of nb k < nb"
  by (simp add: bucket_of_def)

lemma map_okD:
  assumes "map_ok m"
  shows "0 < nbuckets m" "buckets_ok (bucket_of (nbuckets m)) (m_bk m)" "m_len m = int (length (entries m))"
    "distinct (map fst (entries m))"
    "map_of (entries m) k = map_of (m_bk m ! bucket_of (nbuckets m) k) k"
  using assms buckets_distinct buckets_lookup [of "bucket_of (nbuckets m)" "m_bk m" k] bucket_of_less [of "nbuckets m" k]
  by (auto simp: map_ok_def entries_def)

lemma str_eq_iff [simp]: "vt_str_eq (Some a) (Some b) \<longleftrightarrow> a = b"
  by (auto simp: vt_str_eq_def)

lemma map_slot_split:
  assumes "map_slot m key = (pre, post)"
  shows "m_bk m ! bucket_of (nbuckets m) key = pre @ post" "key \<notin> fst ` set pre"
    "post = e # rest \<Longrightarrow> fst e = key"
proof -
  let ?c = "m_bk m ! bucket_of (nbuckets m) key"
  have p: "pre = takeWhile (\<lambda>e. fst e \<noteq> key) ?c" "post = dropWhile (\<lambda>e. fst e \<noteq> key) ?c"
    using assms by (auto simp: map_slot_def Let_def)
  show "?c = pre @ post" by (simp add: p)
  show "key \<notin> fst ` set pre" by (auto simp: p dest: set_takeWhileD)
  show "fst e = key" if "post = e # rest" using that p(2) by (metis (mono_tags, lifting) hd_dropWhile list.distinct(1) list.sel(1))
qed

lemma map_slot_lookup:
  assumes "map_ok m" "map_slot m key = (pre, post)"
  shows "map_of (entries m) key = (case post of [] \<Rightarrow> None | e # _ \<Rightarrow> Some (snd e))"
proof -
  note S = map_slot_split [OF assms(2)]
  have "map_of pre key = None" using S(2) by (simp add: map_of_eq_None_iff)
  then show ?thesis
    using map_okD(5) [OF assms(1), of key] S(1,3)
    by (cases post) (auto simp: map_add_def split: option.splits)
qed

lemma mset_concat_update:
  "b < length bs \<Longrightarrow> mset (concat (bs[b := c])) + mset (bs ! b) = mset (concat bs) + mset c"
proof (induction bs arbitrary: b)
  case (Cons d bs)
  then show ?case by (cases b) (auto simp: ac_simps)
qed simp

lemma set_bucket_simps [simp]:
  "nbuckets (set_bucket m key c) = nbuckets m" "m_vref (set_bucket m key c) = m_vref m"
  "m_len (set_bucket m key c) = m_len m"
  by (simp_all add: set_bucket_def)

lemma entries_set_bucket:
  assumes "map_ok m"
  shows "mset (entries (set_bucket m key c)) + mset (m_bk m ! bucket_of (nbuckets m) key) = mset (entries m) + mset c"
  using mset_concat_update [of "bucket_of (nbuckets m) key" "m_bk m" c] map_okD(1) [OF assms]
  by (simp add: entries_def set_bucket_def)

lemma buckets_set_bucket:
  assumes "map_ok m" "bucket_ok (bucket_of (nbuckets m)) (bucket_of (nbuckets m) key) c"
  shows "buckets_ok (bucket_of (nbuckets m)) (m_bk (set_bucket m key c))"
  using buckets_ok_update [OF map_okD(2) [OF assms(1)] assms(2)] by (simp add: set_bucket_def)

lemma lookup_set_bucket:
  assumes "map_ok m" "bucket_ok (bucket_of (nbuckets m)) (bucket_of (nbuckets m) key) c"
  shows "map_of (entries (set_bucket m key c)) s =
     (if bucket_of (nbuckets m) s = bucket_of (nbuckets m) key then map_of c s else map_of (entries m) s)"
  using buckets_lookup [OF buckets_set_bucket [OF assms], of s] map_okD [OF assms(1)]
  by (auto simp: set_bucket_def entries_def nth_list_update)

text \<open>The bucket a slot lies in, with the entry at the slot replaced, added or removed.\<close>

lemma slot_bucket_ok:
  assumes "map_ok m" "map_slot m key = (pre, post)"
  shows "bucket_ok (bucket_of (nbuckets m)) (bucket_of (nbuckets m) key) (pre @ post)"
  using map_okD(1,2) [OF assms(1)] map_slot_split(1) [OF assms(2)] bucket_of_less [of "nbuckets m" key]
  by (metis buckets_ok_def)

lemma sum_mset_refs_append [simp]:
  "(\<Sum>e\<in>#mset (a @ b). f e) = (\<Sum>e\<in>#mset a. f e) + (\<Sum>e\<in>#mset b. f e)"
  by simp

lemma mset_exchange:
  assumes "X + C = E + c" "c + ds = C + (as :: 'a multiset)" shows "X + ds = E + as"
proof -
  have "X + ds + C = E + (c + ds)" using assms(1) by (simp add: ac_simps)
  also have "\<dots> = E + as + C" using assms(2) by (simp add: ac_simps)
  finally show ?thesis by simp
qed

lemma map_refs_set_bucket:
  assumes "map_ok m" "map_slot m key = (pre, post)" "mset c + mset ds = mset (pre @ post) + mset as"
  shows "map_refs (set_bucket m key c) + (\<Sum>e\<in>#mset ds. entry_refs (m_vref m) e) =
     map_refs m + (\<Sum>e\<in>#mset as. entry_refs (m_vref m) e)"
    and "length (entries (set_bucket m key c)) + length ds = length (entries m) + length as"
proof -
  have e: "mset (entries (set_bucket m key c)) + mset ds = mset (entries m) + mset as"
    using mset_exchange [OF entries_set_bucket [OF assms(1), of key c]] assms(3)
      map_slot_split(1) [OF assms(2)] by simp
  then have "(\<Sum>x\<in>#mset (entries (set_bucket m key c)) + mset ds. entry_refs (m_vref m) x) =
      (\<Sum>x\<in>#mset (entries m) + mset as. entry_refs (m_vref m) x)" by (simp only:)
  then show "map_refs (set_bucket m key c) + (\<Sum>e\<in>#mset ds. entry_refs (m_vref m) e) =
     map_refs m + (\<Sum>e\<in>#mset as. entry_refs (m_vref m) e)"
    by (simp add: map_refs_def)
  show "length (entries (set_bucket m key c)) + length ds = length (entries m) + length as"
    using e by (metis size_mset size_union)
qed

section \<open>Growing the table\<close>

lemma relink_length [simp]: "length (relink nb e bs) = length bs"
  by (simp add: relink_def)

lemma mset_relink: "length bs = nb \<Longrightarrow> 0 < nb \<Longrightarrow> mset (concat (relink nb e bs)) = add_mset e (mset (concat bs))"
  using mset_concat_update [of "bucket_of nb (fst e)" bs "e # bs ! bucket_of nb (fst e)"]
  by (simp add: relink_def)

lemma relink_ok:
  assumes "buckets_ok (bucket_of nb) bs" "length bs = nb" "0 < nb" "fst e \<notin> fst ` set (concat bs)"
  shows "buckets_ok (bucket_of nb) (relink nb e bs)"
proof -
  let ?b = "bucket_of nb (fst e)"
  have b: "?b < length bs" using assms(2,3) by simp
  then have "bucket_ok (bucket_of nb) ?b (bs ! ?b)" using assms(1) by (simp add: buckets_ok_def)
  moreover have "fst e \<notin> fst ` set (bs ! ?b)" using assms(4) nth_mem [OF b] by auto
  ultimately have "bucket_ok (bucket_of nb) ?b (e # bs ! ?b)" by (simp add: bucket_ok_def)
  then show ?thesis unfolding relink_def by (rule buckets_ok_update [OF assms(1)])
qed

lemma relink_all:
  assumes "buckets_ok (bucket_of nb) bs" "length bs = nb" "0 < nb" "distinct (map fst (es @ concat bs))"
  shows "buckets_ok (bucket_of nb) (fold (relink nb) es bs) \<and> length (fold (relink nb) es bs) = nb \<and>
    mset (concat (fold (relink nb) es bs)) = mset es + mset (concat bs)"
  using assms
proof (induction es arbitrary: bs)
  case (Cons e es)
  have "fst e \<notin> fst ` set (concat bs)" using Cons.prems(4) by auto
  then have r: "buckets_ok (bucket_of nb) (relink nb e bs)" by (intro relink_ok Cons.prems(1-3))
  have ms: "mset (concat (relink nb e bs)) = add_mset e (mset (concat bs))"
    by (rule mset_relink [OF Cons.prems(2,3)])
  have "mset (es @ concat (relink nb e bs)) = mset ((e # es) @ concat bs)" using ms by simp
  then have "mset (map fst (es @ concat (relink nb e bs))) = mset (map fst ((e # es) @ concat bs))"
    by (metis mset_map)
  then have "distinct (map fst (es @ concat (relink nb e bs)))"
    using Cons.prems(4) mset_eq_imp_distinct_iff by blast
  then show ?case using Cons.IH [OF r _ Cons.prems(3)] Cons.prems(2) ms by simp
qed auto

lemma fold_fold_concat: "fold (fold f) xss s = fold f (concat xss) s"
  by (induction xss arbitrary: s) auto

lemma map_of_perm:
  "mset xs = mset ys \<Longrightarrow> distinct (map fst xs) \<Longrightarrow> distinct (map fst ys) \<Longrightarrow> map_of xs = map_of ys"
  using map_of_inject_set mset_eq_setD by blast

lemma map_grow_ok:
  assumes "map_ok m"
  shows "map_ok (map_grow ok m)" "map_abs (map_grow ok m) = map_abs m" "map_refs (map_grow ok m) = map_refs m"
    "m_vref (map_grow ok m) = m_vref m"
proof -
  let ?nb = "nbuckets m * 2" and ?m = "map_grow ok m"
  have dist: "distinct (map fst (entries m @ concat (replicate ?nb [])))"
    using map_okD(4) [OF assms] by simp
  have r: "buckets_ok (bucket_of ?nb) (replicate ?nb ([] :: entry list))"
    by (simp add: buckets_ok_def bucket_ok_def)
  have pos: "0 < ?nb" using map_okD(1) [OF assms] by simp
  note R = relink_all [OF r length_replicate pos dist, THEN conjunct1]
    relink_all [OF r length_replicate pos dist, THEN conjunct2, THEN conjunct1]
    relink_all [OF r length_replicate pos dist, THEN conjunct2, THEN conjunct2]
  have ok: "map_ok ?m \<and> mset (entries ?m) = mset (entries m)" if ok
  proof -
    have bk: "m_bk ?m = fold (relink ?nb) (entries m) (replicate ?nb [])" "m_len ?m = m_len m"
      using that by (simp_all add: map_grow_def Let_def fold_fold_concat entries_def)
    have nb: "nbuckets ?m = ?nb" unfolding bk by (rule R(2))
    have ms: "mset (entries ?m) = mset (entries m)" using R(3) by (simp add: entries_def bk)
    then have "length (entries ?m) = length (entries m)" by (metis size_mset)
    then show ?thesis
      using ms R(1) pos map_okD(3) [OF assms] unfolding map_ok_def nb by (simp add: bk)
  qed
  then show okm: "map_ok ?m" using assms by (cases ok) (simp_all add: map_grow_def Let_def)
  have ms: "mset (entries ?m) = mset (entries m)"
    using ok by (cases ok) (simp_all add: map_grow_def Let_def)
  show v: "m_vref ?m = m_vref m" by (simp add: map_grow_def Let_def)
  show "map_abs ?m = map_abs m"
    using map_of_perm [OF ms map_okD(4) [OF okm] map_okD(4) [OF assms]] by (intro ext) (simp add: map_abs_def)
  show "map_refs ?m = map_refs m" unfolding map_refs_def ms v ..
qed

section \<open>The operations on the denoted map\<close>

text \<open>\<open>map_meets m r g\<close>: the outcome \<open>r\<close> of an operation on \<open>m\<close> is a well-formed map that
  denotes \<open>g\<close>, reached with balanced counts.\<close>

definition map_meets :: "vmap \<Rightarrow> vmap \<times> mref rc_op list \<Rightarrow> (string \<rightharpoonup> u64) \<Rightarrow> bool" where
  "map_meets m r g \<longleftrightarrow> map_ok (fst r) \<and> map_abs (fst r) = g \<and> m_vref (fst r) = m_vref m \<and>
     map_refs (fst r) + releases (snd r) = map_refs m + retains (snd r)"

lemma vt_map_set_meets:
  assumes "map_ok m" "vt_map_set eo go (Some m) kk v = Inr r"
  shows "map_meets m r ((map_abs m)(snd kk \<mapsto> v))"
proof -
  obtain pre post where sl: "map_slot m (snd kk) = (pre, post)" by force
  note S = map_slot_split [OF sl] and B = slot_bucket_ok [OF assms(1) sl]
  have pre: "map_of pre (snd kk) = None" using S(2) by (simp add: map_of_eq_None_iff)
  let ?nb = "nbuckets m"
  show ?thesis
  proof (cases post)
    case (Cons e rest)
    obtain kp old where e: "e = (snd kk, (kp, old))" using S(3) [OF Cons] by (cases e) auto
    let ?c = "pre @ (snd kk, (kp, v)) # rest"
    have r: "r = (set_bucket m (snd kk) ?c, if m_vref m then [Retain (ValRef v), Release (ValRef old)] else [])"
      using assms(2) sl by (simp add: vt_map_set_def Cons e)
    have bo: "bucket_ok (bucket_of ?nb) (bucket_of ?nb (snd kk)) ?c"
      using B by (auto simp: Cons e bucket_ok_def)
    have refs: "map_refs (set_bucket m (snd kk) ?c) + entry_refs (m_vref m) e =
        map_refs m + entry_refs (m_vref m) (snd kk, (kp, v))"
      "length (entries (set_bucket m (snd kk) ?c)) = length (entries m)"
      using map_refs_set_bucket [OF assms(1) sl, of ?c "[e]" "[(snd kk, (kp, v))]"] by (simp_all add: Cons)
    have "map_of (entries (set_bucket m (snd kk) ?c)) s =
        (if s = snd kk then Some (kp, v) else map_of (entries m) s)" for s
      using lookup_set_bucket [OF assms(1) bo, of s] map_okD(5) [OF assms(1), of s] S(1) pre
      by (auto simp: Cons e map_add_def split: option.splits)
    then have "map_abs (set_bucket m (snd kk) ?c) = (map_abs m)(snd kk \<mapsto> v)"
      by (intro ext) (simp add: map_abs_def)
    moreover have "map_ok (set_bucket m (snd kk) ?c)"
      using map_okD(1,3) [OF assms(1)] buckets_set_bucket [OF assms(1) bo] refs(2) by (simp add: map_ok_def)
    ultimately show ?thesis
      using refs(1) by (cases "m_vref m") (simp_all add: map_meets_def r entry_refs_def e)
  next
    case Nil
    let ?c = "pre @ [(snd kk, (fst kk, v))]"
    let ?m1 = "(set_bucket m (snd kk) ?c)\<lparr>m_len := m_len m + 1\<rparr>"
    have r: "r = (if m_len ?m1 > int (nbuckets ?m1) * 4 then map_grow go ?m1 else ?m1,
        Retain (KeyRef (fst kk)) # (if m_vref m then [Retain (ValRef v)] else []))"
      using assms(2) sl by (simp add: vt_map_set_def Nil Let_def split: if_splits)
    have bo: "bucket_ok (bucket_of ?nb) (bucket_of ?nb (snd kk)) ?c"
      using B S(2) by (auto simp: Nil bucket_ok_def)
    have refs: "map_refs (set_bucket m (snd kk) ?c) = map_refs m + entry_refs (m_vref m) (snd kk, (fst kk, v))"
      "length (entries (set_bucket m (snd kk) ?c)) = Suc (length (entries m))"
      using map_refs_set_bucket [OF assms(1) sl, of ?c "[]" "[(snd kk, (fst kk, v))]"] by (simp_all add: Nil)
    have "map_of (entries (set_bucket m (snd kk) ?c)) s =
        (if s = snd kk then Some (fst kk, v) else map_of (entries m) s)" for s
      using lookup_set_bucket [OF assms(1) bo, of s] map_okD(5) [OF assms(1), of s] S(1) pre
      by (auto simp: Nil map_add_def split: option.splits)
    then have abs: "map_abs ?m1 = (map_abs m)(snd kk \<mapsto> v)"
      by (intro ext) (simp add: map_abs_def entries_def)
    have ok: "map_ok ?m1"
      using map_okD(1,3) [OF assms(1)] buckets_set_bucket [OF assms(1) bo] refs(2)
      by (simp add: map_ok_def entries_def)
    have "map_refs ?m1 = map_refs m + entry_refs (m_vref m) (snd kk, (fst kk, v))"
      using refs(1) by (simp add: map_refs_def entries_def)
    then show ?thesis
      using abs ok map_grow_ok [OF ok, of go] by (simp add: map_meets_def r entry_refs_def)
  qed
qed

lemma vt_map_set_total: "\<exists>r. vt_map_set True go (Some m) kk v = Inr r"
  by (auto simp: vt_map_set_def Let_def split: prod.split list.split)

lemma set_own_entry:
  assumes "map_ok m" "e \<in> set (entries m)"
  shows "\<exists>l. vt_map_set eo go (Some m) (fst (snd e), fst e) (snd (snd e)) = Inr (m, l)"
proof -
  obtain pre post where sl: "map_slot m (fst e) = (pre, post)" by force
  note S = map_slot_split [OF sl]
  have "map_of (entries m) (fst e) = Some (snd e)"
    using assms(2) map_okD(4) [OF assms(1)] by (simp add: map_of_is_SomeI)
  then obtain f rest where post: "post = f # rest" "snd f = snd e"
    using map_slot_lookup [OF assms(1) sl] by (cases post) auto
  then have "f = e" using S(3) [OF post(1)] by (simp add: prod_eq_iff)
  moreover have "set_bucket m (fst e) (m_bk m ! bucket_of (nbuckets m) (fst e)) = m"
    by (simp add: set_bucket_def)
  then have "set_bucket m (fst e) (pre @ post) = m" unfolding S(1) .
  ultimately show ?thesis
    using sl post(1) by (cases e) (simp add: vt_map_set_def)
qed

lemma vt_map_remove_meets:
  assumes "map_ok m"
  shows "\<exists>r. vt_map_remove (Some m) key = Inr r \<and> map_meets m r ((map_abs m)(key := None))"
proof -
  obtain pre post where sl: "map_slot m key = (pre, post)" by force
  note S = map_slot_split [OF sl] and B = slot_bucket_ok [OF assms(1) sl]
  have pre: "map_of pre key = None" using S(2) by (simp add: map_of_eq_None_iff)
  show ?thesis
  proof (cases post)
    case Nil
    then have "map_abs m key = None"
      using map_slot_lookup [OF assms sl] by (simp add: map_abs_def)
    then show ?thesis
      using assms sl Nil by (simp add: vt_map_remove_def map_meets_def fun_upd_idem)
  next
    case (Cons e rest)
    obtain kp v where e: "e = (key, (kp, v))" using S(3) [OF Cons] by (cases e) auto
    let ?c = "pre @ rest"
    let ?m1 = "(set_bucket m key ?c)\<lparr>m_len := m_len m - 1\<rparr>"
    have bo: "bucket_ok (bucket_of (nbuckets m)) (bucket_of (nbuckets m) key) ?c" "key \<notin> fst ` set rest"
      using B by (auto simp: Cons e bucket_ok_def)
    have rest: "map_of rest key = None" using bo(2) by (simp add: map_of_eq_None_iff)
    have refs: "map_refs (set_bucket m key ?c) + entry_refs (m_vref m) e = map_refs m"
      "Suc (length (entries (set_bucket m key ?c))) = length (entries m)"
      using map_refs_set_bucket [OF assms(1) sl, of ?c "[e]" "[]"] by (simp_all add: Cons)
    have "map_of (entries (set_bucket m key ?c)) s = (if s = key then None else map_of (entries m) s)" for s
      using lookup_set_bucket [OF assms(1) bo(1), of s] map_okD(5) [OF assms(1), of s] S(1) pre rest
      by (auto simp: Cons e map_add_def split: option.splits)
    then have abs: "map_abs ?m1 = (map_abs m)(key := None)"
      by (intro ext) (simp add: map_abs_def entries_def)
    have "map_ok ?m1"
      using map_okD(1,3) [OF assms(1)] buckets_set_bucket [OF assms(1) bo(1)] refs(2)
      by (simp add: map_ok_def entries_def)
    moreover have "map_refs ?m1 + entry_refs (m_vref m) e = map_refs m"
      using refs(1) by (simp add: map_refs_def entries_def)
    ultimately show ?thesis
      using abs sl by (cases "m_vref m") (auto simp: vt_map_remove_def map_meets_def Cons e entry_refs_def)
  qed
qed

lemma releases_entries:
  "releases (concat (map (\<lambda>b. concat (map (entry_release vr) b)) bs)) = (\<Sum>e\<in>#mset (concat bs). entry_refs vr e) \<and>
   retains (concat (map (\<lambda>b. concat (map (entry_release vr) b)) bs)) = {#}"
proof -
  have *: "releases (concat (map (entry_release vr) es)) = (\<Sum>e\<in>#mset es. entry_refs vr e) \<and>
      retains (concat (map (entry_release vr) es)) = {#}" for es
    by (induction es) (auto simp: entry_release_def entry_refs_def)
  have "concat (map (\<lambda>b. concat (map (entry_release vr) b)) bs) = concat (map (entry_release vr) (concat bs))"
    by (induction bs) auto
  then show ?thesis using * [of "concat bs"] by simp
qed

lemma vt_map_clear_meets:
  assumes "map_ok m"
  shows "\<exists>r. vt_map_clear (Some m) = Inr r \<and> map_meets m r Map.empty"
proof -
  have e: "concat (map (\<lambda>_. []) bs) = []" for bs :: "entry list list" by (induction bs) auto
  show ?thesis
    using assms releases_entries [of "m_vref m" "m_bk m"]
    by (auto simp: vt_map_clear_def map_meets_def map_ok_def map_abs_def map_refs_def entries_def e
        buckets_ok_def bucket_ok_def)
qed

definition put_abs :: "entry \<Rightarrow> (string \<rightharpoonup> u64) \<Rightarrow> string \<rightharpoonup> u64" where
  "put_abs e f = f(fst e \<mapsto> snd (snd e))"

lemma balance_trans:
  assumes "B + rl = A + rt" "A + RL = C + (RT :: 'a multiset)"
  shows "B + (RL + rl) = C + (RT + rt)"
proof -
  have "B + (RL + rl) = (A + RL) + rt" using assms(1) by (simp add: ac_simps)
  also have "\<dots> = C + (RT + rt)" unfolding assms(2) by (simp add: ac_simps)
  finally show ?thesis .
qed

lemma set_log_meets:
  assumes "map_meets m0 ml (map_abs (fst ml))" "set_log eo go e ml = Inr ml'"
  shows "map_meets m0 ml' (map_abs (fst ml')) \<and> map_abs (fst ml') = put_abs e (map_abs (fst ml))"
proof -
  obtain l where s: "vt_map_set eo go (Some (fst ml)) (fst (snd e), fst e) (snd (snd e)) = Inr (fst ml', l)"
    "snd ml' = snd ml @ l"
    using assms(2) by (auto simp: set_log_def)
  have "map_meets (fst ml) (fst ml', l) ((map_abs (fst ml))(fst e \<mapsto> snd (snd e)))"
    using vt_map_set_meets [OF _ s(1)] assms(1) by (simp add: map_meets_def)
  then show ?thesis
    using assms(1) s(2) balance_trans [of "map_refs (fst ml')" "releases l" "map_refs (fst ml)" "retains l"
        "releases (snd ml)" "map_refs m0" "retains (snd ml)"]
    by (simp add: map_meets_def put_abs_def)
qed

interpretation map_put: total_step "\<lambda>ml. map_meets m0 ml (map_abs (fst ml))" "\<lambda>ml. map_abs (fst ml)"
  "set_log True go" put_abs for m0 go
proof
  fix b b' :: "vmap \<times> mref rc_op list" and x
  assume b: "map_meets m0 b (map_abs (fst b))"
  show "set_log True go x b = Inr b' \<Longrightarrow> map_meets m0 b' (map_abs (fst b')) \<and> map_abs (fst b') = put_abs x (map_abs (fst b))"
    using b by (rule set_log_meets)
  show "\<exists>b'. set_log True go x b = Inr b'"
    using vt_map_set_total [of go "fst b"] by (fastforce simp: set_log_def)
qed

lemma fold_put_abs:
  "distinct (map fst es) \<Longrightarrow> fold put_abs es f = f ++ (\<lambda>s. map_option snd (map_of es s))"
proof (induction es arbitrary: f)
  case (Cons e es)
  have "map_of es (fst e) = None" using Cons.prems by (simp add: map_of_eq_None_iff)
  then show ?case
    using Cons by (auto simp: put_abs_def map_add_def fun_eq_iff split: option.split)
qed (simp add: map_add_def)

lemma vt_map_merge_meets:
  assumes "map_ok m" "map_ok o'"
  shows "\<exists>r. vt_map_merge True go (Some m) (Some o') = Inr r \<and> map_meets m r (map_abs m ++ map_abs o')"
proof -
  have "map_meets m (m, []) (map_abs m)" using assms(1) by (simp add: map_meets_def)
  then obtain r where r: "run_all (set_log True go) (entries o') (m, []) = Inr r"
    "map_meets m r (map_abs (fst r))" "map_abs (fst r) = fold put_abs (entries o') (map_abs m)"
    using map_put.run_total [of m "(m, [])" go "entries o'"] by auto
  have "map_abs (fst r) = map_abs m ++ map_abs o'"
    unfolding r(3) fold_put_abs [OF map_okD(4) [OF assms(2)]] by (simp add: map_abs_def [abs_def])
  then show ?thesis
    using r by (simp add: vt_map_merge_def run_all_concat entries_def)
qed

lemma vt_map_reads:
  assumes "map_ok m"
  shows "vt_map_has (Some m) key = Inr (key \<in> dom (map_abs m))"
    "vt_map_get_or (Some m) key d = Inr (case map_abs m key of None \<Rightarrow> d | Some v \<Rightarrow> v)"
    "vt_map_get (Some m) key = (case map_abs m key of
        None \<Rightarrow> Inl (Panic (fmt_msg 160 ''map key not found: %s'' [AStr (Some (c_str key))]))
      | Some v \<Rightarrow> Inr v)"
proof -
  obtain pre post where sl: "map_slot m key = (pre, post)" by force
  have abs: "map_abs m key = (case post of [] \<Rightarrow> None | e # _ \<Rightarrow> Some (snd (snd e)))"
    using map_slot_lookup [OF assms sl] by (simp add: map_abs_def split: list.split)
  show "vt_map_has (Some m) key = Inr (key \<in> dom (map_abs m))"
    "vt_map_get_or (Some m) key d = Inr (case map_abs m key of None \<Rightarrow> d | Some v \<Rightarrow> v)"
    "vt_map_get (Some m) key = (case map_abs m key of
        None \<Rightarrow> Inl (Panic (fmt_msg 160 ''map key not found: %s'' [AStr (Some (c_str key))]))
      | Some v \<Rightarrow> Inr v)"
    using abs sl by (auto simp: vt_map_has_def vt_map_get_or_def vt_map_get_def domIff split: list.splits)
qed

lemma map_new_ok: "vt_map_new True vr = Inr m \<Longrightarrow> map_ok m \<and> map_abs m = Map.empty \<and> map_refs m = {#}"
  by (auto simp: vt_map_new_def map_ok_def map_abs_def map_refs_def entries_def buckets_ok_def bucket_ok_def)

section \<open>Properties\<close>

text \<open>C4: The hash map is a finite map. In every well-formed map, whatever the hash values and
  whether or not the larger table can be allocated: \<open>set\<close>, \<open>remove\<close>, \<open>clear\<close> and \<open>merge\<close> have
  the effect of update, deletion, emptying and overriding union on the map it denotes,
  keep it well formed (each key once, in its bucket, the length exact), and retain and
  release keys and values so that the references held match the entries.\<close>

theorem map_implements_map:
  assumes "map_ok m" "map_ok o'"
  shows "(\<exists>r. vt_map_set True go (Some m) kk v = Inr r \<and> map_meets m r ((map_abs m)(snd kk \<mapsto> v))) \<and>
    (\<exists>r. vt_map_remove (Some m) key = Inr r \<and> map_meets m r ((map_abs m)(key := None))) \<and>
    (\<exists>r. vt_map_clear (Some m) = Inr r \<and> map_meets m r Map.empty) \<and>
    (\<exists>r. vt_map_merge True go (Some m) (Some o') = Inr r \<and> map_meets m r (map_abs m ++ map_abs o'))"
  using vt_map_set_total [of go m kk v] vt_map_set_meets [OF assms(1)] vt_map_remove_meets [OF assms(1)]
    vt_map_clear_meets [OF assms(1)] vt_map_merge_meets [OF assms]
  by blast

theorem map_implements_map_witness:
  "\<exists>m. vt_map_new True True = Inr m \<and>
     (\<exists>r. vt_map_set True True (Some m) (16, ''k'') 7 = Inr r \<and> map_abs (fst r) = [''k'' \<mapsto> 7])"
proof -
  obtain m where m: "vt_map_new True True = Inr m" by (simp add: vt_map_new_def)
  then have ok: "map_ok m" "map_abs m = Map.empty" using map_new_ok by blast+
  show ?thesis
    using m ok map_implements_map [OF ok(1) ok(1), of True "(16, ''k'')" 7 "[]"] by (auto simp: map_meets_def)
qed

text \<open>Reads agree with the denoted map: \<open>has\<close> is membership, \<open>get\<close> returns the value or panics
  naming the key, \<open>get_or\<close> falls back to the default; \<open>keys\<close> and \<open>values\<close> list every entry
  once, the key objects retained and the values cut to the element size.\<close>

theorem map_reads:
  assumes "map_ok m"
  shows "vt_map_has (Some m) key = Inr (key \<in> dom (map_abs m)) \<and>
    vt_map_get_or (Some m) key d = Inr (case map_abs m key of None \<Rightarrow> d | Some v \<Rightarrow> v) \<and>
    vt_map_get (Some m) key = (case map_abs m key of
        None \<Rightarrow> Inl (Panic (fmt_msg 160 ''map key not found: %s'' [AStr (Some (c_str key))]))
      | Some v \<Rightarrow> Inr v) \<and>
    (\<exists>ks. vt_map_keys (\<lambda>_. True) (Some m) = Inr (ks, map Retain (elems ks)) \<and> arr_ok ks \<and>
      elems ks = map (\<lambda>e. fst (snd e)) (entries m)) \<and>
    (\<exists>vs. vt_map_values (\<lambda>_. True) (Some m) 8 er = Inr (vs, if er then map Retain (elems vs) else []) \<and>
      arr_ok vs \<and> set (elems vs) = ran (map_abs m) \<and> length (elems vs) = card (dom (map_abs m)))"
proof -
  have keys: "vt_map_keys (\<lambda>_. True) (Some m) =
      run_all (push_log (\<lambda>_. True)) (map (\<lambda>e. fst (snd e)) (entries m)) (vt_arr_new 8 True, [])"
    by (simp add: vt_map_keys_def run_all_concat entries_def
        run_all_map [of "push_log (\<lambda>_. True)" "\<lambda>e. fst (snd e)", symmetric])
  have vals: "vt_map_values (\<lambda>_. True) (Some m) 8 er =
      run_all (push_log (\<lambda>_. True)) (map (\<lambda>e. snd (snd e)) (entries m)) (vt_arr_new 8 er, [])"
    by (simp add: vt_map_values_def run_all_concat entries_def take_bit_word_eq_self
        run_all_map [of "push_log (\<lambda>_. True)" "\<lambda>e. snd (snd e)", symmetric])
  note D = map_okD(4) [OF assms]
  have ran: "(\<lambda>e. snd (snd e)) ` set (entries m) = ran (map_abs m)"
    using D by (force simp: ran_def map_abs_def)
  have "dom (map_abs m) = fst ` set (entries m)"
    by (auto simp: map_abs_def dom_map_of_conv_image_fst dom_def map_of_eq_None_iff)
  then have card: "length (entries m) = card (dom (map_abs m))"
    using distinct_card [OF D] by simp
  obtain vs where "vt_map_values (\<lambda>_. True) (Some m) 8 er = Inr (vs, if er then map Retain (elems vs) else [])"
    "arr_ok vs" "elems vs = map (\<lambda>e. snd (snd e)) (entries m)"
    unfolding vals using fresh_copy by blast
  moreover obtain ks where "vt_map_keys (\<lambda>_. True) (Some m) = Inr (ks, map Retain (elems ks))"
    "arr_ok ks" "elems ks = map (\<lambda>e. fst (snd e)) (entries m)"
    unfolding keys using fresh_copy [of "map (\<lambda>e. fst (snd e)) (entries m)" 8 True] by auto
  ultimately show ?thesis
    using vt_map_reads [OF assms] ran card by auto
qed

theorem map_reads_witness:
  "\<exists>m. vt_map_new True True = Inr m \<and> vt_map_has (Some m) ''k'' = Inr False \<and> vt_map_get_or (Some m) ''k'' 3 = Inr 3"
proof -
  obtain m where m: "vt_map_new True True = Inr m" by (simp add: vt_map_new_def)
  then have ok: "map_ok m" "map_abs m = Map.empty" using map_new_ok by blast+
  show ?thesis using m map_reads [OF ok(1), of "''k''" 3] ok(2) by auto
qed

end
