(* ===== verification/Vt_Vfs.thy ===== *)
theory Vt_Vfs
  imports Vt_Str
begin

text \<open>
  The embedded-asset registry (\<open>runtime/vyto_vfs.c\<close>). An entry is a logical path, the
  bytes of the blob and their number; paths are C strings without their terminator.
\<close>

section \<open>Model\<close>

record vfs_entry =
  logical :: string
  data :: string
  len :: int

record vfs =
  g_vfs :: "vfs_entry list"
  g_vfs_cap :: nat

definition vfs_init :: vfs where
  "vfs_init = \<lparr>g_vfs = [], g_vfs_cap = 0\<rparr>"

text \<open>\<open>ok cap\<close>: whether the table can be reallocated to \<open>cap\<close> entries; if not, the entry is
  dropped silently. \<open>g_vfs_n\<close> is the length of the list.\<close>

definition vt_vfs_register :: "(nat \<Rightarrow> bool) \<Rightarrow> string \<Rightarrow> string \<Rightarrow> int \<Rightarrow> vfs \<Rightarrow> vfs" where
  "vt_vfs_register ok l d n v =
     (let e = \<lparr>logical = l, data = d, len = n\<rparr>;
          cap = (if g_vfs_cap v \<noteq> 0 then g_vfs_cap v * 2 else 16)
      in if length (g_vfs v) = g_vfs_cap v
         then if ok cap then \<lparr>g_vfs = g_vfs v @ [e], g_vfs_cap = cap\<rparr> else v
         else v\<lparr>g_vfs := g_vfs v @ [e]\<rparr>)"

definition vfs_hit :: "string \<Rightarrow> string \<Rightarrow> bool" where
  "vfs_hit key e =
     (let kn = length key; en = length e
      in (kn = en \<and> take en key = e) \<or>
         (kn > en \<and> key ! (kn - en - 1) = CHR ''/'' \<and> drop (kn - en) key = e))"

fun vfs_find :: "string \<Rightarrow> vfs_entry list \<Rightarrow> vfs_entry option" where
  "vfs_find key [] = None"
| "vfs_find key (e # es) = (if vfs_hit key (logical e) then Some e else vfs_find key es)"

definition vt_vfs_get :: "string option \<Rightarrow> vfs \<Rightarrow> (string \<times> int) option" where
  "vt_vfs_get key v =
     (case key of None \<Rightarrow> None | Some k \<Rightarrow> map_option (\<lambda>e. (data e, len e)) (vfs_find k (g_vfs v)))"

definition vt_vfs_has :: "string option \<Rightarrow> vfs \<Rightarrow> bool" where
  "vt_vfs_has key v = (vt_vfs_get key v \<noteq> None)"

definition vt_vfs_ptr :: "string option \<Rightarrow> vfs \<Rightarrow> string option" where
  "vt_vfs_ptr key v = (case vt_vfs_get key v of Some (p, _) \<Rightarrow> Some p | None \<Rightarrow> None)"

definition vt_vfs_size :: "string option \<Rightarrow> vfs \<Rightarrow> int" where
  "vt_vfs_size key v = (case vt_vfs_get key v of Some (_, n) \<Rightarrow> n | None \<Rightarrow> - 1)"

text \<open>\<open>vt_vfs_read\<close> returns the number of bytes and the destination buffer.\<close>

definition vt_vfs_read :: "string option \<Rightarrow> string \<Rightarrow> int \<Rightarrow> vfs \<Rightarrow> int \<times> string" where
  "vt_vfs_read key buf cap v =
     (case vt_vfs_get key v of
        None \<Rightarrow> (- 1, buf)
      | Some (p, n) \<Rightarrow>
          let n = (if n > cap then cap else n)
          in (n, if n > 0 then memcpy_at buf 0 (take (nat n) p) else buf))"

definition vt_vfs_count :: "vfs \<Rightarrow> int" where
  "vt_vfs_count v = int (length (g_vfs v))"

definition vt_vfs_key :: "int \<Rightarrow> vfs \<Rightarrow> string option" where
  "vt_vfs_key i v = (if i \<ge> 0 \<and> i < int (length (g_vfs v)) then Some (logical (g_vfs v ! nat i)) else None)"

section \<open>Lookup\<close>

text \<open>A key names an entry when it is the logical path, possibly after a directory prefix.\<close>

definition names :: "string \<Rightarrow> string \<Rightarrow> bool" where
  "names key e \<longleftrightarrow> key = e \<or> (\<exists>dir. key = dir @ CHR ''/'' # e)"

lemma vfs_hit_names: "vfs_hit key e \<longleftrightarrow> names key e"
proof
  assume "vfs_hit key e"
  then consider "key = e" | "length key > length e" "key ! (length key - length e - 1) = CHR ''/''"
      "drop (length key - length e) key = e"
    by (auto simp: vfs_hit_def Let_def)
  then show "names key e"
  proof cases
    case 2
    let ?k = "length key - length e - 1"
    have "drop ?k key = key ! ?k # drop (Suc ?k) key" using 2(1) by (intro Cons_nth_drop_Suc [symmetric]) simp
    moreover have "Suc ?k = length key - length e" using 2(1) by simp
    ultimately have "key = take ?k key @ CHR ''/'' # e" using 2(2,3) by (metis append_take_drop_id)
    then show ?thesis unfolding names_def by blast
  qed (simp add: names_def)
next
  assume "names key e"
  then show "vfs_hit key e"
    by (auto simp: names_def vfs_hit_def Let_def nth_append)
qed

lemma vfs_find_first:
  "vfs_find key es = List.find (\<lambda>e. names key (logical e)) es"
  by (induction es) (simp_all add: vfs_hit_names)

definition vfs_ok :: "vfs \<Rightarrow> bool" where
  "vfs_ok v \<longleftrightarrow> length (g_vfs v) \<le> g_vfs_cap v"

definition reg_op :: "(nat \<Rightarrow> bool) \<Rightarrow> string \<times> string \<Rightarrow> vfs \<Rightarrow> rt_err + vfs" where
  "reg_op ok e v = Inr (vt_vfs_register ok (fst e) (snd e) (int (length (snd e))) v)"

definition blob :: "string \<times> string \<Rightarrow> vfs_entry" where
  "blob e = \<lparr>logical = fst e, data = snd e, len = int (length (snd e))\<rparr>"

interpretation vfs_reg: total_step vfs_ok g_vfs "reg_op (\<lambda>_. True)" "\<lambda>e es. es @ [blob e]"
  by unfold_locales (auto simp: reg_op_def vt_vfs_register_def vfs_ok_def blob_def Let_def split: if_splits)

lemma fold_snoc: "fold (\<lambda>e es. es @ [f e]) xs ys = ys @ map f xs"
  by (induction xs arbitrary: ys) auto

section \<open>Properties\<close>

text \<open>The registry finds the first registered asset that a key names, the key being its
  logical path or a longer path that ends in a slash and the logical path, and nothing
  else; reading copies exactly the bytes of the blob that fit in the destination and
  leaves the rest of it alone.\<close>

theorem vfs_lookup:
  assumes "run_all (reg_op (\<lambda>_. True)) assets vfs_init = Inr v"
  shows "vt_vfs_get (Some key) v =
      map_option (\<lambda>e. (snd e, int (length (snd e)))) (List.find (\<lambda>e. names key (fst e)) assets) \<and>
    (\<forall>buf. vt_vfs_get (Some key) v \<noteq> None \<longrightarrow>
      (\<exists>l d. (l, d) \<in> set assets \<and> names key l \<and>
         vt_vfs_read (Some key) buf (int (length buf)) v =
           (int (min (length d) (length buf)), take (length buf) d @ drop (length d) buf)))"
proof -
  have v: "g_vfs v = map blob assets"
    using vfs_reg.run_refines [OF _ assms] by (simp add: vfs_init_def vfs_ok_def fold_snoc)
  have find: "List.find (\<lambda>e. names key (logical e)) (map blob es) =
      map_option blob (List.find (\<lambda>e. names key (fst e)) es)" for es
    by (induction es) (simp_all add: blob_def)
  have get: "vt_vfs_get (Some key) v =
      map_option (\<lambda>e. (snd e, int (length (snd e)))) (List.find (\<lambda>e. names key (fst e)) assets)"
    by (simp add: vt_vfs_get_def v vfs_find_first find option.map_comp comp_def blob_def)
  moreover have "\<exists>l d. (l, d) \<in> set assets \<and> names key l \<and>
         vt_vfs_read (Some key) buf (int (length buf)) v =
           (int (min (length d) (length buf)), take (length buf) d @ drop (length d) buf)"
    if some: "vt_vfs_get (Some key) v \<noteq> None" for buf
  proof -
    obtain l d where ld: "List.find (\<lambda>e. names key (fst e)) assets = Some (l, d)"
      using some get by (cases "List.find (\<lambda>e. names key (fst e)) assets") auto
    then have "(l, d) \<in> set assets" "names key l" by (auto simp: find_Some_iff) (metis fst_conv)
    moreover have "vt_vfs_read (Some key) buf (int (length buf)) v =
        (int (min (length d) (length buf)), take (length buf) d @ drop (length d) buf)"
      using get ld by (auto simp: vt_vfs_read_def Let_def memcpy_at_def min_def)
    ultimately show ?thesis by blast
  qed
  ultimately show ?thesis by blast
qed

theorem vfs_lookup_witness:
  "\<exists>v. run_all (reg_op (\<lambda>_. True)) [(''a/x'', ''hi'')] vfs_init = Inr v \<and>
     vt_vfs_get (Some ''/app/a/x'') v = Some (''hi'', 2)"
proof -
  obtain v where v: "run_all (reg_op (\<lambda>_. True)) [(''a/x'', ''hi'')] vfs_init = Inr v"
    by (simp add: reg_op_def)
  have "names ''/app/a/x'' ''a/x''" unfolding names_def by (intro disjI2 exI [of _ "''/app''"]) simp
  then show ?thesis using v vfs_lookup [OF v, of "''/app/a/x''"] by simp
qed

end
