(* ===== verification/Vt_Util.thy ===== *)
theory Vt_Util
  imports Vt_Prelude
begin

text \<open>
  The compiler's utilities (\<open>src/util.c\<close>, \<open>src/util.h\<close>): the arena, the interning
  table, the growable string buffer, the FNV-1a hash and the fatal diagnostics. An
  address inside the arena is a chunk and an offset; interned strings are identified
  by the address \<open>arena_strndup\<close> gave them.
\<close>

section \<open>Diagnostics\<close>

record loc =
  l_file :: "string option"
  l_line :: int
  l_col :: int

text \<open>\<open>fatal_at\<close> and \<open>fatal\<close> print one line and exit with status 1; so does \<open>chunk_new\<close> when
  memory is exhausted. The last two values are not diagnostics: \<open>Undefined\<close> marks an
  array access out of bounds and \<open>OutOfFuel\<close> a recursion deeper than the bound of the
  model; the theorems on the lexer and the parser show that neither arises.\<close>

datatype diag = FatalAt loc string | Fatal string | OutOfMemory | Undefined | OutOfFuel

type_synonym 'a cres = "diag + 'a"

section \<open>The arena\<close>

text \<open>Chunks from the newest to the oldest.\<close>

record arena_chunk =
  c_used :: nat
  c_cap :: nat

type_synonym arena = "arena_chunk list"

definition chunk_new :: "(nat \<Rightarrow> bool) \<Rightarrow> nat \<Rightarrow> arena_chunk cres" where
  "chunk_new mem m = (let cap = (if 1048576 < m then m else 1048576)
     in if mem cap then Inr \<lparr>c_used = 0, c_cap = cap\<rparr> else Inl OutOfMemory)"

definition arena_round :: "nat \<Rightarrow> nat" where
  "arena_round sz = (sz + 15) div 16 * 16"

text \<open>The block: the number of the chunk, counted from the oldest, the offset and the size.\<close>

type_synonym block = "nat \<times> nat \<times> nat"

definition arena_alloc :: "(nat \<Rightarrow> bool) \<Rightarrow> nat \<Rightarrow> arena \<Rightarrow> (block \<times> arena) cres" where
  "arena_alloc mem sz a =
     (let sz = arena_round sz
      in bind_res
           (case a of
              [] \<Rightarrow> bind_res (chunk_new mem sz) (\<lambda>c. Inr [c])
            | h # _ \<Rightarrow> if c_used h + sz > c_cap h then bind_res (chunk_new mem sz) (\<lambda>c. Inr (c # a)) else Inr a)
           (\<lambda>a. Inr ((length a - 1, c_used (hd a), sz), (hd a)\<lparr>c_used := c_used (hd a) + sz\<rparr> # tl a)))"

section \<open>Interning\<close>

definition fnv1a :: "string \<Rightarrow> u64" where
  "fnv1a s = foldl (\<lambda>h c. (h XOR of_char c) * 1099511628211) 1469598103934665603 s"

record intern_st =
  it_tab :: "(string \<times> nat) list list"
  it_fresh :: nat

definition intern_init :: intern_st where
  "intern_init = \<lparr>it_tab = replicate 4096 [], it_fresh = 1\<rparr>"

definition intern_bucket :: "string \<Rightarrow> nat" where
  "intern_bucket s = unat (fnv1a s) mod 4096"

text \<open>The walk over a chain compares lengths and bytes; a miss links a new entry, with a
  fresh address, at the head.\<close>

fun intern_find :: "string \<Rightarrow> (string \<times> nat) list \<Rightarrow> nat option" where
  "intern_find s [] = None"
| "intern_find s ((t, p) # es) = (if length t = length s \<and> t = s then Some p else intern_find s es)"

definition intern_n :: "string \<Rightarrow> intern_st \<Rightarrow> nat \<times> intern_st" where
  "intern_n s st =
     (let h = intern_bucket s
      in case intern_find s (it_tab st ! h) of
           Some p \<Rightarrow> (p, st)
         | None \<Rightarrow> (it_fresh st,
             st\<lparr>it_tab := (it_tab st)[h := (s, it_fresh st) # it_tab st ! h], it_fresh := it_fresh st + 1\<rparr>))"

section \<open>String buffers\<close>

record sbuf =
  sb_data :: string
  sb_len :: nat

abbreviation sb_cap :: "sbuf \<Rightarrow> nat" where
  "sb_cap sb \<equiv> length (sb_data sb)"

text \<open>\<open>junk\<close> is what malloc and realloc leave in bytes that were never written.\<close>

definition sb_init :: "char \<Rightarrow> sbuf" where
  "sb_init junk = \<lparr>sb_data = (replicate 4096 junk)[0 := CHR 0x00], sb_len = 0\<rparr>"

function sb_cap_loop :: "nat \<Rightarrow> nat \<Rightarrow> nat" where
  "sb_cap_loop cap need = (if cap < need \<and> 0 < cap then sb_cap_loop (cap * 2) need else cap)"
  by pat_completeness auto
termination by (relation "measure (\<lambda>(cap, need). need - cap)") auto

declare sb_cap_loop.simps [simp del]

definition sb_grow :: "char \<Rightarrow> nat \<Rightarrow> sbuf \<Rightarrow> sbuf" where
  "sb_grow junk need sb =
     (if sb_len sb + need + 1 \<le> sb_cap sb then sb
      else sb\<lparr>sb_data := sb_data sb @ replicate (sb_cap_loop (sb_cap sb) (sb_len sb + need + 1) - sb_cap sb) junk\<rparr>)"

definition sb_write :: "sbuf \<Rightarrow> string \<Rightarrow> sbuf" where
  "sb_write sb s =
     sb\<lparr>sb_data := (take (sb_len sb) (sb_data sb) @ s @ drop (sb_len sb + length s) (sb_data sb))[sb_len sb + length s := CHR 0x00],
        sb_len := sb_len sb + length s\<rparr>"

definition sb_putc :: "char \<Rightarrow> char \<Rightarrow> sbuf \<Rightarrow> sbuf" where
  "sb_putc junk c sb = sb_write (sb_grow junk 1 sb) [c]"

definition sb_puts :: "char \<Rightarrow> string \<Rightarrow> sbuf \<Rightarrow> sbuf" where
  "sb_puts junk s sb = sb_write (sb_grow junk (length s) sb) s"

text \<open>\<open>sb_printf\<close>: \<open>text\<close> is what \<open>vsnprintf\<close> renders; short texts go through the local
  buffer of 8192 bytes, long ones are rendered a second time in place. Both write the
  same bytes.\<close>

definition sb_printf :: "char \<Rightarrow> string \<Rightarrow> sbuf \<Rightarrow> sbuf" where
  "sb_printf junk txt sb =
     (let n = length txt; sb = sb_grow junk n sb
      in if n < 8192 then sb_write sb (take n txt) else sb_write sb txt)"

section \<open>Arena blocks never overlap\<close>

definition arena_ok :: "arena \<Rightarrow> bool" where
  "arena_ok a \<longleftrightarrow> (\<forall>c\<in>set a. c_used c \<le> c_cap c \<and> 16 dvd c_used c)"

text \<open>A block lies in the used part of its chunk.\<close>

definition block_in :: "arena \<Rightarrow> block \<Rightarrow> bool" where
  "block_in a b \<longleftrightarrow> (case b of (k, off, n) \<Rightarrow> k < length a \<and> off + n \<le> c_used (rev a ! k) \<and> 16 dvd off)"

definition blocks_apart :: "block \<Rightarrow> block \<Rightarrow> bool" where
  "blocks_apart b c \<longleftrightarrow> fst b \<noteq> fst c \<or> fst (snd b) + snd (snd b) \<le> fst (snd c) \<or> fst (snd c) + snd (snd c) \<le> fst (snd b)"

definition alloc_log :: "(nat \<Rightarrow> bool) \<Rightarrow> nat \<Rightarrow> block list \<times> arena \<Rightarrow> (block list \<times> arena) cres" where
  "alloc_log mem sz ba = bind_res (arena_alloc mem sz (snd ba)) (\<lambda>(b, a). Inr (b # fst ba, a))"

definition alloc_inv :: "block list \<times> arena \<Rightarrow> bool" where
  "alloc_inv ba \<longleftrightarrow> arena_ok (snd ba) \<and> (\<forall>b\<in>set (fst ba). block_in (snd ba) b) \<and> sorted_wrt blocks_apart (fst ba)"

lemma arena_round_ge: "sz \<le> arena_round sz" "16 dvd arena_round sz"
proof -
  have "(sz + 15) div 16 * 16 + (sz + 15) mod 16 = sz + 15" by simp
  moreover have "(sz + 15) mod 16 < 16" by simp
  ultimately show "sz \<le> arena_round sz" unfolding arena_round_def by linarith
qed (simp add: arena_round_def)

lemma block_in_push: "block_in a b \<Longrightarrow> block_in (c # a) b"
  by (auto simp: block_in_def nth_append)

lemma bump_head:
  assumes ok: "alloc_inv (bs, h # a)" and fit: "c_used h + n \<le> c_cap h" "16 dvd n"
  shows "alloc_inv ((length a, c_used h, n) # bs, h\<lparr>c_used := c_used h + n\<rparr> # a)"
proof -
  let ?b = "(length a, c_used h, n)" and ?a = "h\<lparr>c_used := c_used h + n\<rparr> # a"
  have old: "block_in ?a b" "blocks_apart ?b b" if "b \<in> set bs" for b
  proof -
    obtain k off m where b: "b = (k, off, m)" by (cases b)
    have "block_in (h # a) b" using ok that by (simp add: alloc_inv_def)
    then show "block_in ?a b" "blocks_apart ?b b"
      by (auto simp: block_in_def blocks_apart_def b nth_append less_Suc_eq split: if_splits)
  qed
  have "16 dvd c_used h" using ok by (simp add: alloc_inv_def arena_ok_def)
  then have "block_in ?a ?b" by (simp add: block_in_def nth_append)
  then show ?thesis
    using ok fit old by (auto simp: alloc_inv_def arena_ok_def)
qed

interpretation arena_step: fallible_step alloc_inv "\<lambda>ba. map (\<lambda>b. snd (snd b)) (fst ba)"
  "alloc_log mem" "\<lambda>sz ns. arena_round sz # ns" for mem
proof
  fix ba ba' :: "block list \<times> arena" and sz
  assume inv: "alloc_inv ba" and r: "alloc_log mem sz ba = Inr ba'"
  let ?n = "arena_round sz"
  have inv2: "alloc_inv (fst ba, snd ba)" using inv by simp
  obtain a where a: "alloc_inv (fst ba, a)" "a \<noteq> []" "c_used (hd a) + ?n \<le> c_cap (hd a)"
    and ba': "ba' = ((length a - 1, c_used (hd a), ?n) # fst ba, (hd a)\<lparr>c_used := c_used (hd a) + ?n\<rparr> # tl a)"
  proof (cases "snd ba = [] \<or> c_used (hd (snd ba)) + ?n > c_cap (hd (snd ba))")
    case True
    then obtain c where c: "chunk_new mem ?n = Inr c"
      and ba': "ba' = ((length (snd ba), c_used c, ?n) # fst ba, c\<lparr>c_used := c_used c + ?n\<rparr> # snd ba)"
      using r by (cases "snd ba") (auto simp: alloc_log_def arena_alloc_def Let_def)
    have "c_used c = 0" "?n \<le> c_cap c" using c by (auto simp: chunk_new_def Let_def split: if_splits)
    then show thesis
      using that [of "c # snd ba"] inv ba' by (auto simp: alloc_inv_def arena_ok_def intro: block_in_push)
  next
    case False
    then show thesis
      using that [of "snd ba"] inv2 r by (cases "snd ba") (auto simp: alloc_log_def arena_alloc_def Let_def)
  qed
  show "alloc_inv ba' \<and> map (\<lambda>b. snd (snd b)) (fst ba') = ?n # map (\<lambda>b. snd (snd b)) (fst ba)"
    using bump_head [of "fst ba" "hd a" "tl a" ?n] a ba' arena_round_ge(2) [of sz] by (cases a) auto
qed

section \<open>Interned strings are identified by their address\<close>

definition intern_ok :: "intern_st \<Rightarrow> bool" where
  "intern_ok st \<longleftrightarrow>
     length (it_tab st) = 4096 \<and> buckets_ok intern_bucket (it_tab st) \<and>
     inj_on (map_of (concat (it_tab st))) (dom (map_of (concat (it_tab st)))) \<and>
     (\<forall>s p. map_of (concat (it_tab st)) s = Some p \<longrightarrow> p < it_fresh st)"

text \<open>What the table denotes: the address of each string interned so far.\<close>

definition interned :: "intern_st \<Rightarrow> string \<rightharpoonup> nat" where
  "interned st = map_of (concat (it_tab st))"

lemma intern_find_map_of: "intern_find s es = map_of es s"
  by (induction s es rule: intern_find.induct) auto

lemma intern_bucket_less [simp]: "intern_bucket s < 4096"
  by (simp add: intern_bucket_def)

lemma intern_lookup: "intern_ok st \<Longrightarrow> intern_find s (it_tab st ! intern_bucket s) = interned st s"
  using buckets_lookup [of intern_bucket "it_tab st" s]
  by (simp add: intern_ok_def intern_find_map_of interned_def)

lemma intern_init_ok: "intern_ok intern_init" "interned intern_init = Map.empty"
  by (simp_all add: intern_ok_def intern_init_def interned_def buckets_ok_def bucket_ok_def)

lemma intern_n_effect:
  assumes ok: "intern_ok st" and r: "intern_n s st = (p, st')"
  shows "intern_ok st' \<and> interned st' = (interned st)(s \<mapsto> p)"
proof (cases "interned st s")
  case (Some q)
  then have "p = q" "st' = st" using r intern_lookup [OF ok, of s] by (auto simp: intern_n_def Let_def)
  then show ?thesis using ok Some by (simp add: fun_upd_idem)
next
  case None
  let ?h = "intern_bucket s" and ?c = "(s, it_fresh st) # it_tab st ! intern_bucket s"
  have p: "p = it_fresh st"
    and st': "st' = st\<lparr>it_tab := (it_tab st)[?h := ?c], it_fresh := it_fresh st + 1\<rparr>"
    using None r intern_lookup [OF ok, of s] by (auto simp: intern_n_def Let_def)
  have len: "length (it_tab st) = 4096" and bk: "buckets_ok intern_bucket (it_tab st)"
    using ok by (simp_all add: intern_ok_def)
  have "map_of (it_tab st ! ?h) s = None"
    using None intern_lookup [OF ok, of s] by (simp add: intern_find_map_of)
  then have "s \<notin> fst ` set (it_tab st ! ?h)" by (simp add: map_of_eq_None_iff)
  then have "bucket_ok intern_bucket ?h ?c"
    using bk len by (simp add: buckets_ok_def bucket_ok_def)
  then have bk': "buckets_ok intern_bucket (it_tab st')"
    using buckets_ok_update [OF bk] by (simp add: st')
  have "interned st' t = ((interned st)(s \<mapsto> p)) t" for t
    using buckets_lookup [OF bk', of t] buckets_lookup [OF bk, of t] len
    by (auto simp: interned_def st' p nth_list_update)
  then have abs: "interned st' = (interned st)(s \<mapsto> p)" by (rule ext)
  have lt: "\<forall>t q. interned st t = Some q \<longrightarrow> q < it_fresh st"
    and inj: "inj_on (interned st) (dom (interned st))"
    using ok by (simp_all add: intern_ok_def interned_def)
  have "inj_on (interned st') (dom (interned st'))"
    unfolding abs using inj lt None by (force simp: inj_on_def p)
  then show ?thesis
    using abs bk' len lt unfolding intern_ok_def interned_def by (auto simp: st' p less_Suc_eq)
qed

fun intern_all :: "string list \<Rightarrow> intern_st \<Rightarrow> nat list \<times> intern_st" where
  "intern_all [] st = ([], st)"
| "intern_all (s # ss) st = (let (p, st1) = intern_n s st; (ps, st2) = intern_all ss st1 in (p # ps, st2))"

lemma intern_all_effect:
  "intern_ok st \<Longrightarrow> intern_all ss st = (ps, st') \<Longrightarrow>
     intern_ok st' \<and> interned st \<subseteq>\<^sub>m interned st' \<and> length ps = length ss \<and>
     (\<forall>i < length ss. interned st' (ss ! i) = Some (ps ! i))"
proof (induction ss arbitrary: st ps)
  case (Cons s ss)
  obtain p st1 ps1 where 1: "intern_n s st = (p, st1)" "intern_all ss st1 = (ps1, st')" "ps = p # ps1"
    using Cons.prems(2) by (auto split: prod.splits)
  note E = intern_n_effect [OF Cons.prems(1) 1(1)]
  have "interned st \<subseteq>\<^sub>m interned st1"
  proof (cases "interned st s")
    case (Some q)
    then have "p = q" using 1(1) intern_lookup [OF Cons.prems(1), of s] by (auto simp: intern_n_def Let_def)
    then show ?thesis using E Some by (simp add: fun_upd_idem)
  qed (use E in \<open>auto simp: map_le_def\<close>)
  moreover have IH: "intern_ok st'" "interned st1 \<subseteq>\<^sub>m interned st'" "length ps1 = length ss"
    "\<forall>i < length ss. interned st' (ss ! i) = Some (ps1 ! i)"
    using Cons.IH [OF _ 1(2)] E by blast+
  moreover have "interned st' s = Some p" using E IH(2) by (auto simp: map_le_def)
  ultimately show ?case
    using map_le_trans by (auto simp: 1(3) less_Suc_eq_0_disj)
qed simp

section \<open>String buffers never overflow\<close>

definition sb_ok :: "sbuf \<Rightarrow> bool" where
  "sb_ok sb \<longleftrightarrow> sb_len sb < sb_cap sb \<and> sb_data sb ! sb_len sb = CHR 0x00"

definition sb_text :: "sbuf \<Rightarrow> string" where
  "sb_text sb = take (sb_len sb) (sb_data sb)"

lemma sb_cap_loop_ge: "0 < cap \<Longrightarrow> need \<le> sb_cap_loop cap need \<and> cap \<le> sb_cap_loop cap need"
  by (induction cap need rule: sb_cap_loop.induct) (subst (1 2) sb_cap_loop.simps, auto)

lemma sb_grow_room:
  assumes "sb_ok sb"
  shows "sb_len (sb_grow junk n sb) = sb_len sb" "sb_len sb + n < sb_cap (sb_grow junk n sb)"
    "sb_text (sb_grow junk n sb) = sb_text sb"
proof -
  have "0 < sb_cap sb" using assms unfolding sb_ok_def by linarith
  then have room: "sb_len sb + n + 1 \<le> sb_cap_loop (sb_cap sb) (sb_len sb + n + 1)"
    using sb_cap_loop_ge by blast
  show "sb_len (sb_grow junk n sb) = sb_len sb" by (simp add: sb_grow_def)
  show "sb_len sb + n < sb_cap (sb_grow junk n sb)" using room by (auto simp: sb_grow_def)
  show "sb_text (sb_grow junk n sb) = sb_text sb"
    using assms by (simp add: sb_grow_def sb_ok_def sb_text_def)
qed

lemma sb_write_ok:
  assumes "sb_len sb + length s < sb_cap sb"
  shows "sb_ok (sb_write sb s) \<and> sb_text (sb_write sb s) = sb_text sb @ s"
  using assms by (auto simp: sb_write_def sb_ok_def sb_text_def min_def)

lemma sb_ops_write:
  "sb_putc junk c sb = sb_write (sb_grow junk (length [c]) sb) [c]"
  "sb_puts junk s sb = sb_write (sb_grow junk (length s) sb) s"
  "sb_printf junk s sb = sb_write (sb_grow junk (length s) sb) s"
  by (simp_all add: sb_putc_def sb_puts_def sb_printf_def Let_def)

datatype sb_op = Putc char | Puts string | Printf string

fun sb_exec :: "char \<Rightarrow> sb_op \<Rightarrow> sbuf \<Rightarrow> diag + sbuf" where
  "sb_exec junk (Putc c) sb = Inr (sb_putc junk c sb)"
| "sb_exec junk (Puts s) sb = Inr (sb_puts junk s sb)"
| "sb_exec junk (Printf s) sb = Inr (sb_printf junk s sb)"

fun op_text :: "sb_op \<Rightarrow> string" where
  "op_text (Putc c) = [c]"
| "op_text (Puts s) = s"
| "op_text (Printf s) = s"

interpretation sbuf_out: total_step sb_ok sb_text "sb_exec junk" "\<lambda>x t. t @ op_text x" for junk
proof
  fix sb sb' :: sbuf and x
  assume ok: "sb_ok sb"
  have eq: "sb_exec junk x sb = Inr (sb_write (sb_grow junk (length (op_text x)) sb) (op_text x))"
    by (cases x) (simp_all add: sb_ops_write)
  have w: "sb_ok (sb_write (sb_grow junk (length (op_text x)) sb) (op_text x)) \<and>
      sb_text (sb_write (sb_grow junk (length (op_text x)) sb) (op_text x)) = sb_text sb @ op_text x"
    using sb_write_ok [of "sb_grow junk (length (op_text x)) sb" "op_text x"] sb_grow_room [OF ok] by simp
  show "sb_exec junk x sb = Inr sb' \<Longrightarrow> sb_ok sb' \<and> sb_text sb' = sb_text sb @ op_text x"
    using eq w by simp
  show "\<exists>sb'. sb_exec junk x sb = Inr sb'" using eq by blast
qed

lemma sb_init_ok: "sb_ok (sb_init junk)" "sb_text (sb_init junk) = []"
  by (simp_all add: sb_ok_def sb_init_def sb_text_def)

lemma fold_append_text: "fold (\<lambda>x t. t @ f x) xs t = t @ concat (map f xs)"
  by (induction xs arbitrary: t) auto

section \<open>Properties\<close>

text \<open>C12: Interning makes pointer comparison string comparison. However many strings have been
  interned, two of them get the same address exactly when they are the same bytes, and
  an address handed out stays the address of its string.\<close>

theorem intern_unique:
  assumes "intern_all ss intern_init = (ps, st)" "i < length ss" "j < length ss"
  shows "(ps ! i = ps ! j \<longleftrightarrow> ss ! i = ss ! j) \<and> intern_n (ss ! i) st = (ps ! i, st)"
proof -
  note E = intern_all_effect [OF intern_init_ok(1) assms(1)]
  have i: "interned st (ss ! i) = Some (ps ! i)" and j: "interned st (ss ! j) = Some (ps ! j)"
    using E assms(2,3) by blast+
  have "inj_on (interned st) (dom (interned st))" using E by (simp add: intern_ok_def interned_def)
  then have "ps ! i = ps ! j \<longleftrightarrow> ss ! i = ss ! j"
    using i j by (metis domI inj_on_eq_iff option.inject)
  moreover have "intern_n (ss ! i) st = (ps ! i, st)"
    using i intern_lookup [of st "ss ! i"] E by (simp add: intern_n_def)
  ultimately show ?thesis by blast
qed

theorem intern_unique_witness:
  "\<exists>ps st. intern_all [''a'', ''b'', ''a''] intern_init = (ps, st) \<and> ps ! 0 = ps ! 2 \<and> ps ! 0 \<noteq> ps ! 1"
proof -
  obtain ps st where r: "intern_all [''a'', ''b'', ''a''] intern_init = (ps, st)" by force
  show ?thesis
    using r intern_unique [OF r, of 0 2] intern_unique [OF r, of 0 1] by auto
qed



text \<open>The emitter's string buffer holds exactly what was written to it. After any sequence of
  \<open>sb_putc\<close>, \<open>sb_puts\<close> and \<open>sb_printf\<close> its text is their concatenation, whatever the uninitialised
  bytes were, with a terminating NUL inside the allocated capacity.\<close>

theorem sbuf_text_exact:
  "\<exists>sb. run_all (sb_exec junk) ops (sb_init junk) = Inr sb \<and> sb_text sb = concat (map op_text ops) \<and>
     sb_len sb = length (concat (map op_text ops)) \<and> sb_len sb < sb_cap sb \<and> sb_data sb ! sb_len sb = CHR 0x00"
proof -
  obtain sb where sb: "run_all (sb_exec junk) ops (sb_init junk) = Inr sb" "sb_ok sb"
    "sb_text sb = concat (map op_text ops)"
    using sbuf_out.run_total [OF sb_init_ok(1) [of junk], of junk ops]
    unfolding sb_init_ok fold_append_text by auto
  have "length (sb_text sb) = sb_len sb" using sb(2) by (simp add: sb_ok_def sb_text_def)
  then show ?thesis using sb by (auto simp: sb_ok_def)
qed

end
