(* ===== verification/Vt_Lex.thy ===== *)
theory Vt_Lex
  imports Vt_Util "HOL-Library.Sublist"
begin

text \<open>
  The lexer (\<open>src/lex.c\<close>, \<open>src/lex.h\<close>). The lexer state is the C struct: the bytes that
  \<open>p\<close> points to (up to the end of the buffer; reading at its end, like reading a NUL
  byte, gives 0), the position, the current token, the one-token lookahead buffer and the
  state of nested template literals. Interned identifiers are represented by their
  bytes, since interning makes pointer equality byte equality; a string buffer that is
  only appended to by its text; a double by the text that \<open>strtod\<close> is given.
\<close>

section \<open>Tokens\<close>

text \<open>The enumeration \<open>TokKind\<close>, in the groups its comments name: literals and identifiers,
  keywords, punctuation, operators, template chunks. \<open>T_FN\<close> and so on are the C names.\<close>

datatype keyword =
    K_FN | K_LET | K_CONST | K_STRUCT | K_CLASS | K_EXTENDS | K_VIRTUAL | K_OVERRIDE
  | K_INIT | K_DEINIT | K_NEW | K_WEAK | K_IMPORT | K_EXPORT | K_FROM | K_EXTERN
  | K_IF | K_ELSE | K_WHILE | K_FOR | K_IN | K_RETURN | K_BREAK | K_CONTINUE
  | K_TRUE | K_FALSE | K_NULL | K_THIS | K_AS | K_SUPER | K_MAP | K_BUILDER
  | K_ARENA | K_SWITCH | K_CASE | K_DEFAULT | K_ENUM | K_STATIC

datatype punct =
    P_LPAREN | P_RPAREN | P_LBRACE | P_RBRACE | P_LBRACKET | P_RBRACKET | P_COMMA | P_SEMI
  | P_COLON | P_DOT | P_DOTDOT | P_ARROW | P_HASH | P_AT | P_QUESTION

datatype oper =
    O_ASSIGN | O_PLUSEQ | O_MINUSEQ | O_STAREQ | O_SLASHEQ | O_PERCENTEQ | O_AMPEQ | O_PIPEEQ
  | O_CARETEQ | O_SHLEQ | O_SHREQ | O_OROR | O_ANDAND | O_EQ | O_NEQ | O_LT
  | O_LE | O_GT | O_GE | O_PLUS | O_MINUS | O_STAR | O_SLASH | O_PERCENT
  | O_NOT | O_AMP | O_PIPE | O_CARET | O_TILDE | O_SHL | O_SHR

datatype tok_kind =
    T_EOF
  | T_IDENT | T_INT | T_FLOAT | T_STRING
  | T_KW keyword | T_PUNCT punct | T_OP oper
  | T_TSTR_START | T_TSTR_MID | T_TSTR_END | T_TSTR_WHOLE

abbreviation "T_FN \<equiv> T_KW K_FN"
abbreviation "T_LET \<equiv> T_KW K_LET"
abbreviation "T_CONST \<equiv> T_KW K_CONST"
abbreviation "T_STRUCT \<equiv> T_KW K_STRUCT"
abbreviation "T_CLASS \<equiv> T_KW K_CLASS"
abbreviation "T_EXTENDS \<equiv> T_KW K_EXTENDS"
abbreviation "T_VIRTUAL \<equiv> T_KW K_VIRTUAL"
abbreviation "T_OVERRIDE \<equiv> T_KW K_OVERRIDE"
abbreviation "T_INIT \<equiv> T_KW K_INIT"
abbreviation "T_DEINIT \<equiv> T_KW K_DEINIT"
abbreviation "T_NEW \<equiv> T_KW K_NEW"
abbreviation "T_WEAK \<equiv> T_KW K_WEAK"
abbreviation "T_IMPORT \<equiv> T_KW K_IMPORT"
abbreviation "T_EXPORT \<equiv> T_KW K_EXPORT"
abbreviation "T_FROM \<equiv> T_KW K_FROM"
abbreviation "T_EXTERN \<equiv> T_KW K_EXTERN"
abbreviation "T_IF \<equiv> T_KW K_IF"
abbreviation "T_ELSE \<equiv> T_KW K_ELSE"
abbreviation "T_WHILE \<equiv> T_KW K_WHILE"
abbreviation "T_FOR \<equiv> T_KW K_FOR"
abbreviation "T_IN \<equiv> T_KW K_IN"
abbreviation "T_RETURN \<equiv> T_KW K_RETURN"
abbreviation "T_BREAK \<equiv> T_KW K_BREAK"
abbreviation "T_CONTINUE \<equiv> T_KW K_CONTINUE"
abbreviation "T_TRUE \<equiv> T_KW K_TRUE"
abbreviation "T_FALSE \<equiv> T_KW K_FALSE"
abbreviation "T_NULL \<equiv> T_KW K_NULL"
abbreviation "T_THIS \<equiv> T_KW K_THIS"
abbreviation "T_AS \<equiv> T_KW K_AS"
abbreviation "T_SUPER \<equiv> T_KW K_SUPER"
abbreviation "T_MAP \<equiv> T_KW K_MAP"
abbreviation "T_BUILDER \<equiv> T_KW K_BUILDER"
abbreviation "T_ARENA \<equiv> T_KW K_ARENA"
abbreviation "T_SWITCH \<equiv> T_KW K_SWITCH"
abbreviation "T_CASE \<equiv> T_KW K_CASE"
abbreviation "T_DEFAULT \<equiv> T_KW K_DEFAULT"
abbreviation "T_ENUM \<equiv> T_KW K_ENUM"
abbreviation "T_STATIC \<equiv> T_KW K_STATIC"

abbreviation "T_LPAREN \<equiv> T_PUNCT P_LPAREN"
abbreviation "T_RPAREN \<equiv> T_PUNCT P_RPAREN"
abbreviation "T_LBRACE \<equiv> T_PUNCT P_LBRACE"
abbreviation "T_RBRACE \<equiv> T_PUNCT P_RBRACE"
abbreviation "T_LBRACKET \<equiv> T_PUNCT P_LBRACKET"
abbreviation "T_RBRACKET \<equiv> T_PUNCT P_RBRACKET"
abbreviation "T_COMMA \<equiv> T_PUNCT P_COMMA"
abbreviation "T_SEMI \<equiv> T_PUNCT P_SEMI"
abbreviation "T_COLON \<equiv> T_PUNCT P_COLON"
abbreviation "T_DOT \<equiv> T_PUNCT P_DOT"
abbreviation "T_DOTDOT \<equiv> T_PUNCT P_DOTDOT"
abbreviation "T_ARROW \<equiv> T_PUNCT P_ARROW"
abbreviation "T_HASH \<equiv> T_PUNCT P_HASH"
abbreviation "T_AT \<equiv> T_PUNCT P_AT"
abbreviation "T_QUESTION \<equiv> T_PUNCT P_QUESTION"

abbreviation "T_ASSIGN \<equiv> T_OP O_ASSIGN"
abbreviation "T_PLUSEQ \<equiv> T_OP O_PLUSEQ"
abbreviation "T_MINUSEQ \<equiv> T_OP O_MINUSEQ"
abbreviation "T_STAREQ \<equiv> T_OP O_STAREQ"
abbreviation "T_SLASHEQ \<equiv> T_OP O_SLASHEQ"
abbreviation "T_PERCENTEQ \<equiv> T_OP O_PERCENTEQ"
abbreviation "T_AMPEQ \<equiv> T_OP O_AMPEQ"
abbreviation "T_PIPEEQ \<equiv> T_OP O_PIPEEQ"
abbreviation "T_CARETEQ \<equiv> T_OP O_CARETEQ"
abbreviation "T_SHLEQ \<equiv> T_OP O_SHLEQ"
abbreviation "T_SHREQ \<equiv> T_OP O_SHREQ"
abbreviation "T_OROR \<equiv> T_OP O_OROR"
abbreviation "T_ANDAND \<equiv> T_OP O_ANDAND"
abbreviation "T_EQ \<equiv> T_OP O_EQ"
abbreviation "T_NEQ \<equiv> T_OP O_NEQ"
abbreviation "T_LT \<equiv> T_OP O_LT"
abbreviation "T_LE \<equiv> T_OP O_LE"
abbreviation "T_GT \<equiv> T_OP O_GT"
abbreviation "T_GE \<equiv> T_OP O_GE"
abbreviation "T_PLUS \<equiv> T_OP O_PLUS"
abbreviation "T_MINUS \<equiv> T_OP O_MINUS"
abbreviation "T_STAR \<equiv> T_OP O_STAR"
abbreviation "T_SLASH \<equiv> T_OP O_SLASH"
abbreviation "T_PERCENT \<equiv> T_OP O_PERCENT"
abbreviation "T_NOT \<equiv> T_OP O_NOT"
abbreviation "T_AMP \<equiv> T_OP O_AMP"
abbreviation "T_PIPE \<equiv> T_OP O_PIPE"
abbreviation "T_CARET \<equiv> T_OP O_CARET"
abbreviation "T_TILDE \<equiv> T_OP O_TILDE"
abbreviation "T_SHL \<equiv> T_OP O_SHL"
abbreviation "T_SHR \<equiv> T_OP O_SHR"

record token =
  kind :: tok_kind
  tloc :: loc
  ident :: string
  ival :: i64
  fval :: string
  sval :: string

record lexer =
  lx_src :: string
  lx_p :: string
  lx_file :: string
  lx_line :: int
  lx_col :: int
  lx_tok :: token
  lx_ahead :: token
  has_ahead :: bool
  tdepth :: int
  tbrace :: "int list"

abbreviation VT_MAX_TEMPLATE_DEPTH :: int where
  "VT_MAX_TEMPLATE_DEPTH \<equiv> 8"

text \<open>What \<open>memset\<close> leaves in a token.\<close>

definition tok0 :: token where
  "tok0 = \<lparr>kind = T_EOF, tloc = \<lparr>l_file = None, l_line = 0, l_col = 0\<rparr>, ident = [], ival = 0, fval = [], sval = []\<rparr>"

definition keyword_table :: "(string \<times> tok_kind) list" where
  "keyword_table = [
    (''fn'', T_FN), (''let'', T_LET), (''const'', T_CONST), (''struct'', T_STRUCT),
    (''class'', T_CLASS), (''extends'', T_EXTENDS), (''virtual'', T_VIRTUAL),
    (''override'', T_OVERRIDE), (''init'', T_INIT), (''deinit'', T_DEINIT),
    (''new'', T_NEW), (''weak'', T_WEAK), (''import'', T_IMPORT), (''export'', T_EXPORT),
    (''from'', T_FROM), (''extern'', T_EXTERN), (''if'', T_IF), (''else'', T_ELSE),
    (''while'', T_WHILE), (''for'', T_FOR), (''in'', T_IN), (''return'', T_RETURN),
    (''break'', T_BREAK), (''continue'', T_CONTINUE), (''true'', T_TRUE),
    (''false'', T_FALSE), (''null'', T_NULL), (''this'', T_THIS), (''as'', T_AS),
    (''super'', T_SUPER), (''Map'', T_MAP), (''builder'', T_BUILDER), (''arena'', T_ARENA),
    (''switch'', T_SWITCH), (''case'', T_CASE), (''default'', T_DEFAULT),
    (''enum'', T_ENUM), (''static'', T_STATIC)]"

section \<open>Characters\<close>

abbreviation NUL :: char where
  "NUL \<equiv> CHR 0x00"

abbreviation code :: "char \<Rightarrow> nat" where
  "code c \<equiv> of_char c"

definition lx_look :: "lexer \<Rightarrow> char" where
  "lx_look lx = (case lx_p lx of [] \<Rightarrow> NUL | c # _ \<Rightarrow> c)"

definition lx_getc :: "lexer \<Rightarrow> char \<times> lexer" where
  "lx_getc lx =
     (if lx_look lx = NUL then (NUL, lx)
      else if lx_look lx = CHR 0x0A
      then (lx_look lx, lx\<lparr>lx_p := tl (lx_p lx), lx_line := lx_line lx + 1, lx_col := 1\<rparr>)
      else (lx_look lx, lx\<lparr>lx_p := tl (lx_p lx), lx_col := lx_col lx + 1\<rparr>))"

definition lx_skip :: "lexer \<Rightarrow> lexer" where
  "lx_skip lx = snd (lx_getc lx)"

definition lx_look2 :: "lexer \<Rightarrow> char" where
  "lx_look2 lx = (if lx_look lx \<noteq> NUL then (case tl (lx_p lx) of [] \<Rightarrow> NUL | c # _ \<Rightarrow> c) else NUL)"

definition lx_loc :: "lexer \<Rightarrow> loc" where
  "lx_loc lx = \<lparr>l_file = Some (lx_file lx), l_line = lx_line lx, l_col = lx_col lx\<rparr>"

definition is_ident_start :: "char \<Rightarrow> bool" where
  "is_ident_start c \<longleftrightarrow> (code c \<ge> 97 \<and> code c \<le> 122) \<or> (code c \<ge> 65 \<and> code c \<le> 90) \<or> c = CHR ''_''"

definition is_dec :: "char \<Rightarrow> bool" where
  "is_dec c \<longleftrightarrow> code c \<ge> 48 \<and> code c \<le> 57"

definition is_ident :: "char \<Rightarrow> bool" where
  "is_ident c \<longleftrightarrow> is_ident_start c \<or> is_dec c"

definition hexval :: "char \<Rightarrow> int" where
  "hexval c =
     (if code c \<ge> 48 \<and> code c \<le> 57 then int (code c) - 48
      else if code c \<ge> 97 \<and> code c \<le> 102 then int (code c) - 97 + 10
      else if code c \<ge> 65 \<and> code c \<le> 70 then int (code c) - 65 + 10
      else - 1)"

text \<open>Lemmas for the termination of the loops: a character other than NUL is consumed.\<close>

lemma lx_look_Cons: "lx_look lx \<noteq> NUL \<Longrightarrow> lx_p lx = lx_look lx # tl (lx_p lx)"
  by (auto simp: lx_look_def split: list.splits)

lemma lx_skip_p: "lx_look lx \<noteq> NUL \<Longrightarrow> lx_p (lx_skip lx) = tl (lx_p lx)"
  by (simp add: lx_skip_def lx_getc_def)

lemma lx_skip_NUL: "lx_look lx = NUL \<Longrightarrow> lx_skip lx = lx"
  by (simp add: lx_skip_def lx_getc_def)

lemma lx_getc_eq: "lx_getc lx = (lx_look lx, lx_skip lx)"
  by (auto simp: lx_skip_def lx_getc_def)

lemma lx_skip_less: "lx_look lx \<noteq> NUL \<Longrightarrow> length (lx_p (lx_skip lx)) < length (lx_p lx)"
  by (cases "lx_p lx") (auto simp: lx_skip_p lx_look_def)

lemma lx_skip_le: "length (lx_p (lx_skip lx)) \<le> length (lx_p lx)"
  by (cases "lx_look lx = NUL") (use lx_skip_less [of lx] in \<open>simp_all add: lx_skip_NUL\<close>)

lemma not_NUL:
  "is_ident c \<Longrightarrow> c \<noteq> NUL" "is_dec c \<Longrightarrow> c \<noteq> NUL" "hexval c \<ge> 0 \<Longrightarrow> c \<noteq> NUL"
  by (auto simp: is_ident_def is_ident_start_def is_dec_def hexval_def)

section \<open>White space and comments\<close>

text \<open>The loops that consume characters while a test that fails at the end of the input holds.\<close>

function lx_while :: "(char \<Rightarrow> bool) \<Rightarrow> lexer \<Rightarrow> lexer" where
  "lx_while P lx = (if lx_look lx \<noteq> NUL \<and> P (lx_look lx) then lx_while P (lx_skip lx) else lx)"
  by pat_completeness auto
termination by (relation "measure (\<lambda>(P, lx). length (lx_p lx))") (auto simp: lx_skip_less)

function skip_block :: "loc \<Rightarrow> lexer \<Rightarrow> lexer cres" where
  "skip_block start lx =
     (if lx_look lx = NUL then Inl (FatalAt start ''unterminated block comment'')
      else if lx_look lx = CHR ''*'' \<and> lx_look2 lx = CHR ''/'' then Inr (lx_skip (lx_skip lx))
      else skip_block start (lx_skip lx))"
  by pat_completeness auto
termination by (relation "measure (\<lambda>(l, lx). length (lx_p lx))") (auto simp: lx_skip_less)

declare lx_while.simps [simp del] skip_block.simps [simp del]

lemma lx_while_le: "length (lx_p (lx_while P lx)) \<le> length (lx_p lx)"
proof (induction P lx rule: lx_while.induct)
  case (1 P lx)
  then show ?case
    by (subst lx_while.simps) (use lx_skip_le [of lx] in \<open>auto intro: order_trans\<close>)
qed

lemma skip_block_le: "skip_block start lx = Inr lx' \<Longrightarrow> length (lx_p lx') \<le> length (lx_p lx)"
proof (induction start lx rule: skip_block.induct)
  case (1 start lx)
  note le = lx_skip_le [of lx] lx_skip_le [of "lx_skip lx"]
  show ?case
    using 1(1,2) le unfolding skip_block.simps [of start lx] by (auto split: if_splits)
qed

definition is_ws :: "char \<Rightarrow> bool" where
  "is_ws c \<longleftrightarrow> c = CHR 0x20 \<or> c = CHR 0x09 \<or> c = CHR 0x0D \<or> c = CHR 0x0A"

function skip_ws :: "lexer \<Rightarrow> lexer cres" where
  "skip_ws lx =
     (let c = lx_look lx
      in if is_ws c then skip_ws (lx_skip lx)
         else if c = CHR ''/'' \<and> lx_look2 lx = CHR ''/'' then skip_ws (lx_while (\<lambda>d. d \<noteq> CHR 0x0A) lx)
         else if c = CHR ''/'' \<and> lx_look2 lx = CHR ''*''
         then (case skip_block (lx_loc lx) (lx_skip (lx_skip lx)) of
                 Inl e \<Rightarrow> Inl e
               | Inr lx \<Rightarrow> skip_ws lx)
         else Inr lx)"
  by pat_completeness auto
termination
proof (relation "measure (\<lambda>lx. length (lx_p lx))", goal_cases)
  case (2 lx c) then show ?case by (auto simp: is_ws_def intro!: lx_skip_less)
next
  case (3 lx c)
  then have "lx_look lx \<noteq> NUL" "lx_while (\<lambda>d. d \<noteq> CHR 0x0A) lx = lx_while (\<lambda>d. d \<noteq> CHR 0x0A) (lx_skip lx)"
    by (auto simp: lx_while.simps [of _ lx])
  then show ?case
    using lx_while_le [of "\<lambda>d. d \<noteq> CHR 0x0A" "lx_skip lx"] lx_skip_less [of lx] by simp
next
  case (4 lx c lx')
  then have "lx_look lx \<noteq> NUL" by auto
  then show ?case
    using skip_block_le [OF 4(5)] lx_skip_less [of lx] lx_skip_le [of "lx_skip lx"] by simp
qed simp

declare skip_ws.simps [simp del]

section \<open>Template literals\<close>

text \<open>\<open>tbrace[d]\<close> read and written with its bounds checked.\<close>

definition brace_get :: "int \<Rightarrow> lexer \<Rightarrow> int cres" where
  "brace_get d lx = (if 0 \<le> d \<and> d < int (length (tbrace lx)) then Inr (tbrace lx ! nat d) else Inl Undefined)"

definition brace_put :: "int \<Rightarrow> int \<Rightarrow> lexer \<Rightarrow> lexer cres" where
  "brace_put d v lx =
     (if 0 \<le> d \<and> d < int (length (tbrace lx)) then Inr (lx\<lparr>tbrace := (tbrace lx)[nat d := v]\<rparr>) else Inl Undefined)"

definition unmatched_brace :: string where
  "unmatched_brace = ''unmatched '' @ [CHR 0x27, CHR 0x7D, CHR 0x27] @ '' in template literal '' @
     [CHR 0xE2, CHR 0x80, CHR 0x94] @ '' write '' @ [CHR 0x27, CHR 0x7D, CHR 0x7D, CHR 0x27] @ '' for a literal '' @
     [CHR 0x27, CHR 0x7D, CHR 0x27] @ '', or close the template with a backtick''"

text \<open>Where a chunk ends: at a hole, which the opening chunk of a template counts, or at the
  closing backtick, which a later chunk uncounts.\<close>

definition tstr_hole :: "token \<Rightarrow> bool \<Rightarrow> string \<Rightarrow> lexer \<Rightarrow> (lexer \<times> token) cres" where
  "tstr_hole t opening sb lx =
     (if opening
      then if tdepth lx \<ge> VT_MAX_TEMPLATE_DEPTH
           then Inl (FatalAt (tloc t) ''template literals nested too deeply (max 8)'')
           else bind_res (brace_put (tdepth lx) 0 lx)
                  (\<lambda>lx. Inr (lx\<lparr>tdepth := tdepth lx + 1\<rparr>, t\<lparr>kind := T_TSTR_START, sval := sb\<rparr>))
      else Inr (lx, t\<lparr>kind := T_TSTR_MID, sval := sb\<rparr>))"

definition tstr_close :: "token \<Rightarrow> bool \<Rightarrow> string \<Rightarrow> lexer \<Rightarrow> (lexer \<times> token) cres" where
  "tstr_close t opening sb lx =
     (if opening then Inr (lx, t\<lparr>kind := T_TSTR_WHOLE, sval := sb\<rparr>)
      else Inr (lx\<lparr>tdepth := tdepth lx - 1\<rparr>, t\<lparr>kind := T_TSTR_END, sval := sb\<rparr>))"

function scan_tstr_chunk :: "token \<Rightarrow> bool \<Rightarrow> string \<Rightarrow> lexer \<Rightarrow> (lexer \<times> token) cres" where
  "scan_tstr_chunk t opening sb lx =
     (let ch = lx_look lx; lx1 = lx_skip lx
      in if ch = NUL then Inl (FatalAt (tloc t) ''unterminated template literal'')
         else if ch = CHR 0x7B
         then if lx_look lx1 = CHR 0x7B then scan_tstr_chunk t opening (sb @ [CHR 0x7B]) (lx_skip lx1)
              else tstr_hole t opening sb lx1
         else if ch = CHR 0x7D
         then if lx_look lx1 = CHR 0x7D then scan_tstr_chunk t opening (sb @ [CHR 0x7D]) (lx_skip lx1)
              else Inl (FatalAt ((lx_loc lx1)\<lparr>l_col := lx_col lx1 - 1\<rparr>) unmatched_brace)
         else if ch = CHR 0x60 then tstr_close t opening sb lx1
         else scan_tstr_chunk t opening (sb @ [ch]) lx1)"
  by pat_completeness auto
termination
proof (relation "measure (\<lambda>(t, op, sb, lx). length (lx_p lx))", goal_cases)
  case (2 t b sb lx ch lx1)
  then show ?case using lx_skip_less [of lx] lx_skip_le [of "lx_skip lx"] by simp
next
  case (3 t b sb lx ch lx1)
  then show ?case using lx_skip_less [of lx] lx_skip_le [of "lx_skip lx"] by simp
next
  case (4 t b sb lx ch lx1)
  then show ?case using lx_skip_less [of lx] by simp
qed simp

section \<open>String and number literals\<close>

definition scan_escape :: "loc \<Rightarrow> lexer \<Rightarrow> (char \<times> lexer) cres" where
  "scan_escape l lx =
     (let e = lx_look lx; lx1 = lx_skip lx
      in if e = CHR ''n'' then Inr (CHR 0x0A, lx1)
         else if e = CHR ''t'' then Inr (CHR 0x09, lx1)
         else if e = CHR ''r'' then Inr (CHR 0x0D, lx1)
         else if e = CHR 0x5C then Inr (CHR 0x5C, lx1)
         else if e = CHR 0x22 then Inr (CHR 0x22, lx1)
         else if e = CHR ''0'' then Inr (NUL, lx1)
         else if e = CHR ''x''
         then let h1 = hexval (lx_look lx1); lx2 = lx_skip lx1; h2 = hexval (lx_look lx2); lx3 = lx_skip lx2
              in if h1 < 0 \<or> h2 < 0 then Inl (FatalAt l (''bad '' @ [CHR 0x5C] @ ''x escape''))
                 else Inr (char_of (nat (h1 * 16 + h2)), lx3)
         else Inl (FatalAt l (''unknown escape '' @ [CHR 0x27, CHR 0x5C, e, CHR 0x27])))"

lemma scan_escape_le: "scan_escape l lx = Inr (c, lx') \<Longrightarrow> length (lx_p lx') \<le> length (lx_p lx)"
  using lx_skip_le [of lx] lx_skip_le [of "lx_skip lx"] lx_skip_le [of "lx_skip (lx_skip lx)"]
  by (auto simp: scan_escape_def Let_def split: if_splits)

function scan_string :: "loc \<Rightarrow> string \<Rightarrow> lexer \<Rightarrow> (string \<times> lexer) cres" where
  "scan_string l sb lx =
     (let ch = lx_look lx; lx1 = lx_skip lx
      in if ch = NUL \<or> ch = CHR 0x0A then Inl (FatalAt l ''unterminated string literal'')
         else if ch = CHR 0x22 then Inr (sb, lx1)
         else if ch = CHR 0x5C
         then (case scan_escape l lx1 of Inl e \<Rightarrow> Inl e | Inr (c, lx2) \<Rightarrow> scan_string l (sb @ [c]) lx2)
         else scan_string l (sb @ [ch]) lx1)"
  by pat_completeness auto
termination
proof (relation "measure (\<lambda>(l, sb, lx). length (lx_p lx))", goal_cases)
  case (2 l sb lx ch lx1 r c lx2)
  then have "lx_look lx \<noteq> NUL" "length (lx_p lx2) \<le> length (lx_p (lx_skip lx))"
    using scan_escape_le by auto
  then show ?case using lx_skip_less [of lx] by simp
next
  case (3 l sb lx ch lx1)
  then show ?case using lx_skip_less [of lx] by simp
qed simp

function scan_hex :: "loc \<Rightarrow> u64 \<Rightarrow> lexer \<Rightarrow> (u64 \<times> lexer) cres" where
  "scan_hex l v lx =
     (let h = hexval (lx_look lx)
      in if h \<ge> 0
         then if v > (0xFFFFFFFFFFFFFFFF - word_of_int h) div 16
              then Inl (FatalAt l ''hex literal too large for 64 bits'')
              else scan_hex l (v * 16 + word_of_int h) (lx_skip lx)
         else Inr (v, lx))"
  by pat_completeness auto
termination
  by (relation "measure (\<lambda>(l, v, lx). length (lx_p lx))") (auto intro!: lx_skip_less dest: not_NUL(3))

declare scan_tstr_chunk.simps [simp del] scan_string.simps [simp del] scan_hex.simps [simp del]

text \<open>\<open>strtoll\<close> on a run of decimal digits: the value, or \<open>ERANGE\<close>.\<close>

definition dec_value :: "string \<Rightarrow> nat" where
  "dec_value s = foldl (\<lambda>v c. v * 10 + (code c - 48)) 0 s"

definition scan_fraction :: "lexer \<Rightarrow> bool \<times> lexer" where
  "scan_fraction lx =
     (if lx_look lx = CHR ''.'' \<and> is_dec (lx_look2 lx) then (True, lx_while is_dec (lx_skip lx)) else (False, lx))"

definition scan_exponent :: "lexer \<Rightarrow> bool \<times> lexer" where
  "scan_exponent lx =
     (if lx_look lx = CHR ''e'' \<or> lx_look lx = CHR ''E''
      then let lx1 = lx_skip lx;
               lx2 = (if lx_look lx1 = CHR ''+'' \<or> lx_look lx1 = CHR ''-'' then lx_skip lx1 else lx1)
           in (True, lx_while is_dec lx2)
      else (False, lx))"

definition scan_number :: "token \<Rightarrow> lexer \<Rightarrow> (lexer \<times> token) cres" where
  "scan_number t lx =
     (if lx_look lx = CHR ''0'' \<and> (lx_look2 lx = CHR ''x'' \<or> lx_look2 lx = CHR ''X'')
      then let lx2 = lx_skip (lx_skip lx)
           in if hexval (lx_look lx2) < 0 then Inl (FatalAt (tloc t) ''hex literal needs at least one digit'')
              else bind_res (scan_hex (tloc t) 0 lx2) (\<lambda>(v, lx'). Inr (lx', t\<lparr>kind := T_INT, ival := v\<rparr>))
      else let lx1 = lx_while is_dec lx;
               (point, lx2) = scan_fraction lx1;
               (ex, lx3) = scan_exponent lx2;
               n = length (lx_p lx) - length (lx_p lx3);
               buf = take n (lx_p lx)
           in if n \<ge> 64 then Inl (FatalAt (tloc t) ''number literal too long'')
              else if point \<or> ex then Inr (lx3, t\<lparr>kind := T_FLOAT, fval := buf\<rparr>)
              else if dec_value buf > 9223372036854775807 then Inl (FatalAt (tloc t) ''integer literal too large'')
              else Inr (lx3, t\<lparr>kind := T_INT, ival := of_nat (dec_value buf)\<rparr>))"

section \<open>Punctuation and operators\<close>

text \<open>One arm of the switch: the current character decides between a longer spelling, which
  consumes it, and the token already read.\<close>

fun lx_alt :: "(char \<times> tok_kind) list \<Rightarrow> tok_kind \<Rightarrow> lexer \<Rightarrow> tok_kind \<times> lexer" where
  "lx_alt [] k lx = (k, lx)"
| "lx_alt ((d, k') # alts) k lx = (if lx_look lx = d then (k', lx_skip lx) else lx_alt alts k lx)"

text \<open>The switch on a character that was consumed; the braces of template holes apart.\<close>

definition scan_punct :: "char \<Rightarrow> lexer \<Rightarrow> (tok_kind \<times> lexer) option" where
  "scan_punct c lx =
     (if c = CHR ''('' then Some (T_LPAREN, lx)
      else if c = CHR '')'' then Some (T_RPAREN, lx)
      else if c = CHR ''['' then Some (T_LBRACKET, lx)
      else if c = CHR '']'' then Some (T_RBRACKET, lx)
      else if c = CHR '','' then Some (T_COMMA, lx)
      else if c = CHR '';'' then Some (T_SEMI, lx)
      else if c = CHR '':'' then Some (T_COLON, lx)
      else if c = CHR ''#'' then Some (T_HASH, lx)
      else if c = CHR ''@'' then Some (T_AT, lx)
      else if c = CHR ''?'' then Some (T_QUESTION, lx)
      else if c = CHR ''.'' then Some (lx_alt [(CHR ''.'', T_DOTDOT)] T_DOT lx)
      else if c = CHR ''='' then Some (lx_alt [(CHR ''='', T_EQ), (CHR ''>'', T_ARROW)] T_ASSIGN lx)
      else if c = CHR ''!'' then Some (lx_alt [(CHR ''='', T_NEQ)] T_NOT lx)
      else if c = CHR ''<''
      then Some (if lx_look lx = CHR ''='' then (T_LE, lx_skip lx)
                 else if lx_look lx = CHR ''<'' then lx_alt [(CHR ''='', T_SHLEQ)] T_SHL (lx_skip lx)
                 else (T_LT, lx))
      else if c = CHR ''>''
      then Some (if lx_look lx = CHR ''='' then (T_GE, lx_skip lx)
                 else if lx_look lx = CHR ''>'' then lx_alt [(CHR ''='', T_SHREQ)] T_SHR (lx_skip lx)
                 else (T_GT, lx))
      else if c = CHR ''+'' then Some (lx_alt [(CHR ''='', T_PLUSEQ)] T_PLUS lx)
      else if c = CHR ''-'' then Some (lx_alt [(CHR ''='', T_MINUSEQ)] T_MINUS lx)
      else if c = CHR ''*'' then Some (lx_alt [(CHR ''='', T_STAREQ)] T_STAR lx)
      else if c = CHR ''/'' then Some (lx_alt [(CHR ''='', T_SLASHEQ)] T_SLASH lx)
      else if c = CHR ''%'' then Some (lx_alt [(CHR ''='', T_PERCENTEQ)] T_PERCENT lx)
      else if c = CHR ''&'' then Some (lx_alt [(CHR ''&'', T_ANDAND), (CHR ''='', T_AMPEQ)] T_AMP lx)
      else if c = CHR 0x7C then Some (lx_alt [(CHR 0x7C, T_OROR), (CHR ''='', T_PIPEEQ)] T_PIPE lx)
      else if c = CHR 0x5E then Some (lx_alt [(CHR ''='', T_CARETEQ)] T_CARET lx)
      else if c = CHR 0x7E then Some (T_TILDE, lx)
      else None)"

section \<open>Tokens\<close>

fun keyword_kind :: "(string \<times> tok_kind) list \<Rightarrow> string \<Rightarrow> tok_kind" where
  "keyword_kind [] s = T_IDENT"
| "keyword_kind ((w, k) # ks) s = (if s = w then k else keyword_kind ks s)"

definition scan_ident :: "token \<Rightarrow> lexer \<Rightarrow> lexer \<times> token" where
  "scan_ident t lx =
     (let lx' = lx_while is_ident lx;
          s = take (length (lx_p lx) - length (lx_p lx')) (lx_p lx)
      in (lx', t\<lparr>ident := s, kind := keyword_kind keyword_table s\<rparr>))"

definition scan_rbrace :: "token \<Rightarrow> lexer \<Rightarrow> (lexer \<times> token) cres" where
  "scan_rbrace t lx =
     (if tdepth lx > 0
      then bind_res (brace_get (tdepth lx - 1) lx)
             (\<lambda>b. if b > 0
                  then bind_res (brace_put (tdepth lx - 1) (b - 1) lx) (\<lambda>lx. Inr (lx, t\<lparr>kind := T_RBRACE\<rparr>))
                  else scan_tstr_chunk t False [] lx)
      else Inr (lx, t\<lparr>kind := T_RBRACE\<rparr>))"

definition scan_lbrace :: "token \<Rightarrow> lexer \<Rightarrow> (lexer \<times> token) cres" where
  "scan_lbrace t lx =
     (if tdepth lx > 0
      then bind_res (brace_get (tdepth lx - 1) lx)
             (\<lambda>b. bind_res (brace_put (tdepth lx - 1) (b + 1) lx) (\<lambda>lx. Inr (lx, t\<lparr>kind := T_LBRACE\<rparr>)))
      else Inr (lx, t\<lparr>kind := T_LBRACE\<rparr>))"

text \<open>\<open>scan\<close> after the white space: \<open>t\<close> has its location.\<close>

definition scan_token :: "token \<Rightarrow> lexer \<Rightarrow> (lexer \<times> token) cres" where
  "scan_token t lx =
     (let c = lx_look lx; lx1 = lx_skip lx
      in if c = NUL then Inr (lx, t\<lparr>kind := T_EOF\<rparr>)
         else if is_ident_start c then Inr (scan_ident t lx)
         else if is_dec c then scan_number t lx
         else if c = CHR 0x22
         then bind_res (scan_string (tloc t) [] lx1) (\<lambda>(s, lx'). Inr (lx', t\<lparr>kind := T_STRING, sval := s\<rparr>))
         else if c = CHR 0x60 then scan_tstr_chunk t True [] lx1
         else if c = CHR 0x7B then scan_lbrace t lx1
         else if c = CHR 0x7D then scan_rbrace t lx1
         else (case scan_punct c lx1 of
                 Some (k, lx') \<Rightarrow> Inr (lx', t\<lparr>kind := k\<rparr>)
               | None \<Rightarrow> Inl (FatalAt (tloc t) (''unexpected character '' @ [CHR 0x27, c, CHR 0x27]))))"

definition scan :: "token \<Rightarrow> lexer \<Rightarrow> (lexer \<times> token) cres" where
  "scan t lx = bind_res (skip_ws lx) (\<lambda>lx. scan_token (t\<lparr>tloc := lx_loc lx\<rparr>) lx)"

definition lex_next :: "lexer \<Rightarrow> lexer cres" where
  "lex_next lx =
     (if has_ahead lx then Inr (lx\<lparr>lx_tok := lx_ahead lx, has_ahead := False\<rparr>)
      else bind_res (scan (lx_tok lx) lx) (\<lambda>(lx, t). Inr (lx\<lparr>lx_tok := t\<rparr>)))"

definition lex_peek :: "lexer \<Rightarrow> (token \<times> lexer) cres" where
  "lex_peek lx =
     (if has_ahead lx then Inr (lx_ahead lx, lx)
      else bind_res (scan (lx_ahead lx) lx) (\<lambda>(lx, t). Inr (t, lx\<lparr>lx_ahead := t, has_ahead := True\<rparr>)))"

definition lex_init :: "string \<Rightarrow> string \<Rightarrow> lexer cres" where
  "lex_init file src =
     lex_next \<lparr>lx_src = src, lx_p = src, lx_file = file, lx_line = 1, lx_col = 1, lx_tok = tok0, lx_ahead = tok0,
       has_ahead = False, tdepth = 0, tbrace = replicate 8 0\<rparr>"

section \<open>Descriptions of tokens\<close>

fun find_kind :: "(string \<times> tok_kind) list \<Rightarrow> tok_kind \<Rightarrow> string option" where
  "find_kind [] k = None"
| "find_kind ((w, k') # ks) k = (if k' = k then Some w else find_kind ks k)"

definition tok_keyword :: "tok_kind \<Rightarrow> string option" where
  "tok_keyword k = find_kind keyword_table k"

definition quoted :: "string \<Rightarrow> string" where
  "quoted s = CHR 0x27 # s @ [CHR 0x27]"

definition tok_desc :: "tok_kind \<Rightarrow> string" where
  "tok_desc k =
     (if k = T_EOF then ''end of file''
      else if k = T_IDENT then ''identifier''
      else if k = T_INT then ''integer literal''
      else if k = T_FLOAT then ''float literal''
      else if k = T_STRING then ''string literal''
      else if k = T_TSTR_START \<or> k = T_TSTR_MID \<or> k = T_TSTR_END \<or> k = T_TSTR_WHOLE then ''template literal''
      else if k = T_LPAREN then quoted ''('' else if k = T_RPAREN then quoted '')''
      else if k = T_LBRACE then quoted [CHR 0x7B] else if k = T_RBRACE then quoted [CHR 0x7D]
      else if k = T_LBRACKET then quoted ''['' else if k = T_RBRACKET then quoted '']''
      else if k = T_COMMA then quoted '','' else if k = T_SEMI then quoted '';''
      else if k = T_COLON then quoted '':'' else if k = T_DOT then quoted ''.''
      else if k = T_DOTDOT then quoted ''..'' else if k = T_ARROW then quoted ''=>''
      else if k = T_ASSIGN then quoted ''='' else if k = T_EQ then quoted ''==''
      else if k = T_FN then quoted ''fn'' else if k = T_LET then quoted ''let''
      else case tok_keyword k of Some kw \<Rightarrow> quoted kw | None \<Rightarrow> ''token'')"

section \<open>Consumed text and positions\<close>

text \<open>The line and column reached after a text.\<close>

fun move :: "string \<Rightarrow> int \<times> int \<Rightarrow> int \<times> int" where
  "move [] lc = lc"
| "move (c # cs) lc = move cs (if c = CHR 0x0A then (fst lc + 1, 1) else (fst lc, snd lc + 1))"

lemma move_append: "move (us @ vs) lc = move vs (move us lc)"
  by (induction us arbitrary: lc) auto

text \<open>\<open>lx'\<close> is \<open>lx\<close> after \<open>us\<close>, which has no NUL byte, was read with \<open>lx_getc\<close>.\<close>

definition ate :: "string \<Rightarrow> lexer \<Rightarrow> lexer \<Rightarrow> bool" where
  "ate us lx lx' \<longleftrightarrow> lx_p lx = us @ lx_p lx' \<and> NUL \<notin> set us \<and>
     lx' = lx\<lparr>lx_p := lx_p lx', lx_line := fst (move us (lx_line lx, lx_col lx)), lx_col := snd (move us (lx_line lx, lx_col lx))\<rparr>"

definition adv :: "lexer \<Rightarrow> lexer \<Rightarrow> bool" where
  "adv lx lx' \<longleftrightarrow> (\<exists>us. ate us lx lx')"

lemma ate_refl [simp]: "ate [] lx lx"
  by (simp add: ate_def)

lemma ate_trans: "ate us a b \<Longrightarrow> ate vs b c \<Longrightarrow> ate (us @ vs) a c"
  unfolding ate_def by (cases a, cases b, cases c) (auto simp: move_append)

lemma ate_skip: "lx_look lx \<noteq> NUL \<Longrightarrow> ate [lx_look lx] lx (lx_skip lx)"
  by (cases "lx_p lx") (auto simp: ate_def lx_skip_def lx_getc_def lx_look_def)

lemma ate_pos: "ate us lx lx' \<Longrightarrow> (lx_line lx', lx_col lx') = move us (lx_line lx, lx_col lx)"
proof -
  assume "ate us lx lx'"
  then obtain p where "lx' = lx\<lparr>lx_p := p, lx_line := fst (move us (lx_line lx, lx_col lx)), lx_col := snd (move us (lx_line lx, lx_col lx))\<rparr>"
    by (auto simp: ate_def)
  then show ?thesis by simp
qed

lemma adv_refl [simp, intro]: "adv lx lx"
  unfolding adv_def using ate_refl by blast

lemma adv_trans: "adv a b \<Longrightarrow> adv b c \<Longrightarrow> adv a c"
  unfolding adv_def using ate_trans by blast

lemma adv_skip [simp, intro]: "adv lx (lx_skip lx)"
  by (cases "lx_look lx = NUL") (auto simp: lx_skip_NUL adv_def intro: ate_skip)

lemma adv_skip2: "adv a b \<Longrightarrow> adv a (lx_skip b)"
  using adv_trans adv_skip by blast

lemma adv_while: "adv lx (lx_while P lx)"
proof (induction P lx rule: lx_while.induct)
  case (1 P lx)
  then show ?case
    by (subst lx_while.simps) (auto intro: adv_trans)
qed

lemma skip_block_adv: "skip_block start lx = Inr lx' \<Longrightarrow> adv lx lx'"
proof (induction start lx rule: skip_block.induct)
  case (1 start lx)
  show ?case
    using 1(1,2) unfolding skip_block.simps [of start lx]
    by (auto split: if_splits intro: adv_trans adv_skip2)
qed

lemma comment_adv: "skip_block start (lx_skip (lx_skip lx)) = Inr lx1 \<Longrightarrow> adv lx1 lx' \<Longrightarrow> adv lx lx'"
  by (meson adv_trans adv_skip skip_block_adv)

lemma skip_ws_adv: "skip_ws lx = Inr lx' \<Longrightarrow> adv lx lx'"
proof (induction lx rule: skip_ws.induct)
  case (1 lx)
  show ?case
    using 1 unfolding skip_ws.simps [of lx]
    by (auto simp: Let_def split: if_splits sum.splits
        intro: adv_trans adv_while comment_adv)
qed

lemma adv_same:
  assumes "adv lx lx'"
  shows "lx_src lx' = lx_src lx" "lx_file lx' = lx_file lx" "lx_tok lx' = lx_tok lx" "lx_ahead lx' = lx_ahead lx"
    "has_ahead lx' = has_ahead lx" "tdepth lx' = tdepth lx" "tbrace lx' = tbrace lx"
proof -
  obtain p l c where "lx' = lx\<lparr>lx_p := p, lx_line := l, lx_col := c\<rparr>" using assms by (auto simp: adv_def ate_def)
  then show "lx_src lx' = lx_src lx" "lx_file lx' = lx_file lx" "lx_tok lx' = lx_tok lx" "lx_ahead lx' = lx_ahead lx"
    "has_ahead lx' = has_ahead lx" "tdepth lx' = tdepth lx" "tbrace lx' = tbrace lx" by simp_all
qed

section \<open>The contract of the scanner\<close>

text \<open>The template state is consistent: at most eight open templates, one counter for each.\<close>

definition lx_ok :: "lexer \<Rightarrow> bool" where
  "lx_ok lx \<longleftrightarrow> 0 \<le> tdepth lx \<and> tdepth lx \<le> VT_MAX_TEMPLATE_DEPTH \<and> length (tbrace lx) = 8"

text \<open>A diagnostic about a place in the file being read.\<close>

definition diag_in :: "string \<Rightarrow> diag \<Rightarrow> bool" where
  "diag_in file e \<longleftrightarrow> (\<exists>l msg. e = FatalAt l msg \<and> l_file l = Some file)"

text \<open>The least number of characters of a token. Two for the shifts, which the parser may
  take apart when they close nested type arguments.\<close>

definition tok_weight :: "tok_kind \<Rightarrow> nat" where
  "tok_weight k = (if k = T_EOF then 0 else if k = T_SHR \<or> k = T_SHREQ then 2 else 1)"

definition consumed :: "nat \<Rightarrow> lexer \<Rightarrow> lexer \<Rightarrow> bool" where
  "consumed n lx lx' \<longleftrightarrow> (\<exists>us. ate us lx lx' \<and> n \<le> length us)"

definition scanned :: "lexer \<Rightarrow> token \<Rightarrow> (lexer \<times> token) cres \<Rightarrow> bool" where
  "scanned lx t r \<longleftrightarrow>
     (case r of
        Inl e \<Rightarrow> diag_in (lx_file lx) e
      | Inr (lx', t') \<Rightarrow> lx_ok lx' \<and> tloc t' = tloc t \<and> (kind t' = T_EOF \<longrightarrow> lx_look lx' = NUL) \<and>
          (\<exists>lx1. consumed (tok_weight (kind t')) lx lx1 \<and> lx' = lx1\<lparr>tdepth := tdepth lx', tbrace := tbrace lx'\<rparr>))"

lemma consumed_0: "adv lx lx' \<Longrightarrow> consumed 0 lx lx'"
  by (auto simp: adv_def consumed_def)

lemma consumed_adv: "consumed n lx lx' \<Longrightarrow> adv lx lx'"
  by (auto simp: adv_def consumed_def)

lemma consumed_skip: "lx_look lx \<noteq> NUL \<Longrightarrow> consumed n (lx_skip lx) lx' \<Longrightarrow> consumed (Suc n) lx lx'"
  unfolding consumed_def using ate_trans [OF ate_skip] by fastforce

lemma consumed_1: "lx_look lx \<noteq> NUL \<Longrightarrow> adv (lx_skip lx) lx' \<Longrightarrow> consumed 1 lx lx'"
  using consumed_skip [OF _ consumed_0] by simp

lemma tok_weight_le: "tok_weight k \<le> 2" "tok_weight T_EOF = 0"
  by (simp_all add: tok_weight_def)

lemma scannedI:
  "consumed (tok_weight (kind t')) lx lx' \<Longrightarrow> lx_ok lx \<Longrightarrow> tloc t' = tloc t \<Longrightarrow>
     kind t' = T_EOF \<longrightarrow> lx_look lx' = NUL \<Longrightarrow> scanned lx t (Inr (lx', t'))"
  using adv_same [OF consumed_adv] by (auto simp: scanned_def lx_ok_def)

lemma scanned_error: "l_file l = Some (lx_file lx) \<Longrightarrow> scanned lx t (Inl (FatalAt l msg))"
  by (simp add: scanned_def diag_in_def)

lemma scanned_tmpl:
  "consumed (tok_weight (kind t')) lx lx1 \<Longrightarrow> 0 \<le> d \<Longrightarrow> d \<le> 8 \<Longrightarrow> length bs = 8 \<Longrightarrow> tloc t' = tloc t \<Longrightarrow>
     kind t' \<noteq> T_EOF \<Longrightarrow> scanned lx t (Inr (lx1\<lparr>tdepth := d, tbrace := bs\<rparr>, t'))"
  by (auto simp: scanned_def lx_ok_def)

lemma tstr_hole_scanned:
  assumes "lx_look lx \<noteq> NUL" "adv (lx_skip lx) lx1" "lx_ok lx" "l_file (tloc t) = Some (lx_file lx)"
  shows "scanned lx t (tstr_hole t b sb lx1)"
proof -
  note S = adv_same [OF adv_trans [OF adv_skip assms(2)]]
  have c: "consumed 1 lx lx1" using assms(1,2) by (rule consumed_1)
  show ?thesis
  proof (cases "b \<and> tdepth lx < 8")
    case True
    then have "tstr_hole t b sb lx1 =
        Inr (lx1\<lparr>tdepth := tdepth lx + 1, tbrace := (tbrace lx)[nat (tdepth lx) := 0]\<rparr>, t\<lparr>kind := T_TSTR_START, sval := sb\<rparr>)"
      using assms(3) by (simp add: tstr_hole_def brace_put_def S lx_ok_def)
    then show ?thesis
      using True c assms(3) by (auto intro!: scanned_tmpl simp: tok_weight_def lx_ok_def)
  next
    case False
    then show ?thesis
      using c assms(3,4) by (auto intro!: scannedI scanned_error simp: tok_weight_def tstr_hole_def S)
  qed
qed

lemma tstr_close_scanned:
  assumes "lx_look lx \<noteq> NUL" "adv (lx_skip lx) lx1" "lx_ok lx" "b \<or> tdepth lx > 0"
  shows "scanned lx t (tstr_close t b sb lx1)"
proof -
  note S = adv_same [OF adv_trans [OF adv_skip assms(2)]]
  have c: "consumed 1 lx lx1" using assms(1,2) by (rule consumed_1)
  show ?thesis
  proof (cases b)
    case False
    have "lx1\<lparr>tdepth := tdepth lx - 1\<rparr> = lx1\<lparr>tdepth := tdepth lx - 1, tbrace := tbrace lx\<rparr>"
      using S(7) by simp
    then have "tstr_close t b sb lx1 =
        Inr (lx1\<lparr>tdepth := tdepth lx - 1, tbrace := tbrace lx\<rparr>, t\<lparr>kind := T_TSTR_END, sval := sb\<rparr>)"
      using False by (simp add: tstr_close_def S)
    then show ?thesis
      using c assms(3,4) False by (auto intro!: scanned_tmpl simp: tok_weight_def lx_ok_def)
  qed (use c assms(3) in \<open>auto intro!: scannedI simp: tok_weight_def tstr_close_def\<close>)
qed

lemma consumed_later: "adv lx lx1 \<Longrightarrow> consumed n lx1 lx2 \<Longrightarrow> consumed n lx lx2"
  unfolding consumed_def adv_def using ate_trans by fastforce

lemma scanned_later: "adv lx lx1 \<Longrightarrow> scanned lx1 t r \<Longrightarrow> scanned lx t r"
proof (cases r)
  case (Inr x)
  assume a: "adv lx lx1" and s: "scanned lx1 t r"
  obtain lx' t' where x: "x = (lx', t')" by (cases x)
  then obtain lx2 where "lx_ok lx'" "tloc t' = tloc t" "kind t' = T_EOF \<longrightarrow> lx_look lx' = NUL" "consumed (tok_weight (kind t')) lx1 lx2"
    "lx' = lx2\<lparr>tdepth := tdepth lx', tbrace := tbrace lx'\<rparr>"
    using s unfolding scanned_def Inr by auto
  then show ?thesis
    unfolding scanned_def Inr x using consumed_later [OF a] by (simp only: sum.case prod.case) blast
qed (simp add: scanned_def adv_same)

lemma scan_tstr_chunk_scanned:
  "lx_ok lx \<Longrightarrow> l_file (tloc t) = Some (lx_file lx) \<Longrightarrow> b \<or> tdepth lx > 0 \<Longrightarrow> scanned lx t (scan_tstr_chunk t b sb lx)"
proof (induction t b sb lx rule: scan_tstr_chunk.induct)
  case (1 t b sb lx)
  let ?lx1 = "lx_skip lx"
  note S = adv_same [OF adv_skip [of lx]]
  have ok1: "adv lx x \<Longrightarrow> lx_ok x \<and> l_file (tloc t) = Some (lx_file x) \<and> (b \<or> tdepth x > 0)" for x
    using 1(4-6) adv_same [of lx x] by (auto simp: lx_ok_def)
  consider "lx_look lx = NUL" | "lx_look lx = CHR 0x7B" "lx_look ?lx1 = CHR 0x7B"
    | "lx_look lx = CHR 0x7B" "lx_look ?lx1 \<noteq> CHR 0x7B"
    | "lx_look lx = CHR 0x7D" "lx_look ?lx1 = CHR 0x7D"
    | "lx_look lx = CHR 0x7D" "lx_look ?lx1 \<noteq> CHR 0x7D"
    | "lx_look lx = CHR 0x60" | "lx_look lx \<notin> {NUL, CHR 0x7B, CHR 0x7D, CHR 0x60}" by blast
  then show ?case
  proof cases
    case 2
    have "scanned (lx_skip ?lx1) t (scan_tstr_chunk t b (sb @ [CHR 0x7B]) (lx_skip ?lx1))"
      using 1(1) [OF refl refl] 2 ok1 [of "lx_skip ?lx1"] by (simp add: adv_skip2)
    then show ?thesis
      using 2 scanned_later [OF adv_skip2 [OF adv_skip]] by (subst scan_tstr_chunk.simps) simp
  next
    case 4
    have "scanned (lx_skip ?lx1) t (scan_tstr_chunk t b (sb @ [CHR 0x7D]) (lx_skip ?lx1))"
      using 1(2) [OF refl refl] 4 ok1 [of "lx_skip ?lx1"] by (simp add: adv_skip2)
    then show ?thesis
      using 4 scanned_later [OF adv_skip2 [OF adv_skip]] by (subst scan_tstr_chunk.simps) simp
  next
    case 7
    have "scanned ?lx1 t (scan_tstr_chunk t b (sb @ [lx_look lx]) ?lx1)"
      using 1(3) [OF refl refl] 7 ok1 [of ?lx1] by simp
    then show ?thesis
      using 7 scanned_later [OF adv_skip] by (subst scan_tstr_chunk.simps) simp
  next
    case 1
    then show ?thesis using ok1 [of lx] by (subst scan_tstr_chunk.simps) (simp add: scanned_error)
  next
    case 5
    then show ?thesis by (subst scan_tstr_chunk.simps) (simp add: scanned_error lx_loc_def S Let_def)
  next
    case 3
    then show ?thesis using ok1 [of lx] by (subst scan_tstr_chunk.simps) (simp add: tstr_hole_scanned)
  next
    case 6
    then show ?thesis using ok1 [of lx] by (subst scan_tstr_chunk.simps) (simp add: tstr_close_scanned)
  qed
qed

lemma scan_escape_adv:
  "scan_escape l lx = Inr (c, lx') \<Longrightarrow> adv lx lx'"
  "scan_escape l lx = Inl e \<Longrightarrow> \<exists>msg. e = FatalAt l msg"
  by (auto simp: scan_escape_def Let_def split: if_splits intro: adv_skip2)

lemma scan_string_adv:
  "(\<forall>s lx'. scan_string l sb lx = Inr (s, lx') \<longrightarrow> adv lx lx') \<and>
   (\<forall>e. scan_string l sb lx = Inl e \<longrightarrow> (\<exists>msg. e = FatalAt l msg))"
proof (induction l sb lx rule: scan_string.induct)
  case (1 l sb lx)
  show ?case
  proof (cases "lx_look lx \<in> {NUL, CHR 0x0A, CHR 0x22}")
    case True
    then show ?thesis by (subst (1 2) scan_string.simps) (auto simp: Let_def)
  next
    case F: False
    show ?thesis
    proof (cases "lx_look lx = CHR 0x5C")
      case False
      then show ?thesis
        using F 1(2) [OF refl refl] by (subst (1 2) scan_string.simps) (auto simp: Let_def intro: adv_trans)
    next
      case True
      show ?thesis
      proof (cases "scan_escape l (lx_skip lx)")
        case (Inl e)
        then show ?thesis
          using F True scan_escape_adv(2) by (subst (1 2) scan_string.simps) (auto simp: Let_def)
      next
        case (Inr r)
        obtain c lx2 where r: "r = (c, lx2)" by (cases r)
        have "adv lx lx2" using scan_escape_adv(1) Inr r adv_trans adv_skip by blast
        then show ?thesis
          using F True Inr r 1(1) [OF refl refl _ _ True Inr r [symmetric]]
          by (subst (1 2) scan_string.simps) (auto simp: Let_def intro: adv_trans)
      qed
    qed
  qed
qed

lemma scan_hex_adv:
  "(\<forall>w lx'. scan_hex l v lx = Inr (w, lx') \<longrightarrow> adv lx lx') \<and>
   (\<forall>e. scan_hex l v lx = Inl e \<longrightarrow> (\<exists>msg. e = FatalAt l msg))"
proof (induction l v lx rule: scan_hex.induct)
  case (1 l v lx)
  then show ?case
    by (subst (1 2) scan_hex.simps) (auto simp: Let_def intro: adv_trans)
qed

lemma scan_fraction_adv: "scan_fraction lx = (f, lx') \<Longrightarrow> adv lx lx'"
  by (auto simp: scan_fraction_def split: if_splits intro: adv_trans [OF adv_skip adv_while])

lemma scan_exponent_adv: "scan_exponent lx = (f, lx') \<Longrightarrow> adv lx lx'"
  by (auto simp: scan_exponent_def Let_def split: if_splits
      intro: adv_trans [OF adv_skip adv_while] adv_trans [OF adv_skip2 [OF adv_skip] adv_while])

lemma scan_number_scanned:
  assumes "is_dec (lx_look lx)" "lx_ok lx" "l_file (tloc t) = Some (lx_file lx)"
  shows "scanned lx t (scan_number t lx)"
proof -
  have nn: "lx_look lx \<noteq> NUL" using assms(1) not_NUL(2) by blast
  have w: "lx_while is_dec lx = lx_while is_dec (lx_skip lx)"
    using assms(1) nn by (subst lx_while.simps) simp
  have c: "adv (lx_while is_dec lx) lx' \<Longrightarrow> consumed 1 lx lx'" for lx'
    unfolding w using consumed_1 [OF nn] adv_trans [OF adv_while] by blast
  let ?lx2 = "lx_skip (lx_skip lx)"
  show ?thesis
  proof (cases "lx_look lx = CHR ''0'' \<and> (lx_look2 lx = CHR ''x'' \<or> lx_look2 lx = CHR ''X'')")
    case True
    have "adv (lx_skip lx) lx' \<Longrightarrow> consumed 1 lx lx'" for lx' using consumed_1 [OF nn] by blast
    then have "scan_hex (tloc t) 0 ?lx2 = Inr (v, lx') \<Longrightarrow> consumed 1 lx lx'" for v lx'
      using scan_hex_adv [of "tloc t" 0 ?lx2] adv_trans [OF adv_skip] by blast
    then show ?thesis
      unfolding scan_number_def if_P [OF True] Let_def
      using scan_hex_adv [of "tloc t" 0 ?lx2] assms(2,3)
      by (cases "scan_hex (tloc t) 0 ?lx2") (auto intro!: scanned_error scannedI simp: tok_weight_def)
  next
    case False
    obtain point lx2 ex lx3 where r: "scan_fraction (lx_while is_dec lx) = (point, lx2)" "scan_exponent lx2 = (ex, lx3)"
      by (cases "scan_fraction (lx_while is_dec lx)", cases "scan_exponent (snd (scan_fraction (lx_while is_dec lx)))") auto
    have "consumed 1 lx lx3"
      using c adv_trans [OF scan_fraction_adv [OF r(1)] scan_exponent_adv [OF r(2)]] by blast
    then show ?thesis
      unfolding scan_number_def if_not_P [OF False] Let_def
      using r assms(2,3) by (simp add: scanned_error scannedI tok_weight_def)
  qed
qed

lemma lx_alt_adv: "lx_alt alts k lx = (k', lx') \<Longrightarrow> adv lx lx' \<and> k' \<in> insert k (snd ` set alts)"
  by (induction alts) (auto split: if_splits)

lemma scan_punct_consumed:
  assumes "scan_punct c lx = Some (k, lx')"
  shows "adv lx lx' \<and> k \<noteq> T_EOF \<and> (k = T_SHR \<or> k = T_SHREQ \<longrightarrow> consumed 1 lx lx')"
  using assms unfolding scan_punct_def
  by (auto split: if_splits intro: consumed_1 [unfolded One_nat_def] adv_skip2)

lemma keyword_kind_weight: "tok_weight (keyword_kind keyword_table s) = 1"
proof -
  have "list_all (\<lambda>(w, k). tok_weight k = 1) ks \<Longrightarrow> tok_weight (keyword_kind ks s) = 1" for ks
    by (induction ks) (auto, simp add: tok_weight_def)
  moreover have "list_all (\<lambda>(w, k). tok_weight k = 1) keyword_table"
    by (simp add: keyword_table_def tok_weight_def)
  ultimately show ?thesis by blast
qed

lemma keyword_kind_not_EOF: "keyword_kind keyword_table s \<noteq> T_EOF"
  using keyword_kind_weight [of s] by (auto simp: tok_weight_def)

lemma scan_ident_scanned:
  assumes "is_ident_start (lx_look lx)" "lx_ok lx"
  shows "scanned lx t (Inr (scan_ident t lx))"
proof -
  have i: "is_ident (lx_look lx)" using assms(1) by (simp add: is_ident_def)
  then have "lx_while is_ident lx = lx_while is_ident (lx_skip lx)"
    using not_NUL(1) by (subst lx_while.simps) simp
  then have "consumed 1 lx (lx_while is_ident lx)"
    using consumed_1 [OF not_NUL(1) [OF i] adv_while] by simp
  then show ?thesis
    using assms(2) by (auto simp: scan_ident_def Let_def keyword_kind_weight keyword_kind_not_EOF intro!: scannedI)
qed

lemma lx_ok_adv: "adv lx lx' \<Longrightarrow> lx_ok lx' = lx_ok lx"
  by (simp add: lx_ok_def adv_same)

lemma brace_scanned:
  assumes "lx_look lx \<noteq> NUL" "lx_ok lx" "l_file (tloc t) = Some (lx_file lx)"
  shows "scanned lx t (scan_lbrace t (lx_skip lx))" "scanned lx t (scan_rbrace t (lx_skip lx))"
proof -
  note S = adv_same [OF adv_skip [of lx]]
  have c: "consumed 1 lx (lx_skip lx)" using consumed_1 [OF assms(1)] by blast
  have put: "scanned lx t (bind_res (brace_put (tdepth lx - 1) v (lx_skip lx)) (\<lambda>lx. Inr (lx, t\<lparr>kind := k\<rparr>)))"
    if "tdepth lx > 0" "tok_weight k = 1" "k \<noteq> T_EOF" for v k
  proof -
    let ?bs = "(tbrace lx)[nat (tdepth lx - 1) := v]"
    have eq: "lx_skip lx\<lparr>tbrace := ?bs\<rparr> = lx_skip lx\<lparr>tdepth := tdepth lx, tbrace := ?bs\<rparr>" using S(6) by simp
    have r: "bind_res (brace_put (tdepth lx - 1) v (lx_skip lx)) (\<lambda>lx. Inr (lx, t\<lparr>kind := k\<rparr>)) =
        Inr (lx_skip lx\<lparr>tbrace := ?bs\<rparr>, t\<lparr>kind := k\<rparr>)"
      using that assms(2) by (simp add: brace_put_def S lx_ok_def)
    show "scanned lx t (bind_res (brace_put (tdepth lx - 1) v (lx_skip lx)) (\<lambda>lx. Inr (lx, t\<lparr>kind := k\<rparr>)))"
      unfolding r eq using that c assms(2) by (intro scanned_tmpl) (simp_all add: lx_ok_def)
  qed
  have get: "tdepth lx > 0 \<Longrightarrow> brace_get (tdepth lx - 1) (lx_skip lx) = Inr (tbrace lx ! nat (tdepth lx - 1))"
    using assms(2) by (simp add: brace_get_def S lx_ok_def)
  have plain: "tok_weight k = 1 \<Longrightarrow> k \<noteq> T_EOF \<Longrightarrow> scanned lx t (Inr (lx_skip lx, t\<lparr>kind := k\<rparr>))" for k
    using c assms(2) by (intro scannedI) simp_all
  have chunk: "tdepth lx > 0 \<Longrightarrow> scanned lx t (scan_tstr_chunk t False [] (lx_skip lx))"
    by (rule scanned_later [OF adv_skip], rule scan_tstr_chunk_scanned)
      (use assms(2,3) in \<open>simp_all add: S lx_ok_adv [OF adv_skip]\<close>)
  show "scanned lx t (scan_lbrace t (lx_skip lx))"
    using put [of T_LBRACE] get plain [of T_LBRACE] by (auto simp: scan_lbrace_def S tok_weight_def)
  show "scanned lx t (scan_rbrace t (lx_skip lx))"
    using put [of T_RBRACE] get plain [of T_RBRACE] chunk by (auto simp: scan_rbrace_def S tok_weight_def)
qed

lemma scan_token_scanned:
  assumes "lx_ok lx" "l_file (tloc t) = Some (lx_file lx)"
  shows "scanned lx t (scan_token t lx)"
proof -
  let ?c = "lx_look lx" and ?lx1 = "lx_skip lx"
  note S = adv_same [OF adv_skip [of lx]]
  have str: "scanned lx t (bind_res (scan_string (tloc t) [] ?lx1) (\<lambda>(s, lx'). Inr (lx', t\<lparr>kind := T_STRING, sval := s\<rparr>)))"
    if "?c \<noteq> NUL"
    using scan_string_adv [of "tloc t" "[]" ?lx1] consumed_1 [OF that] assms
    by (cases "scan_string (tloc t) [] ?lx1") (auto intro!: scannedI scanned_error simp: tok_weight_def)
  have chunk: "scanned lx t (scan_tstr_chunk t True [] ?lx1)"
    by (rule scanned_later [OF adv_skip], rule scan_tstr_chunk_scanned)
      (use assms in \<open>simp_all add: S lx_ok_adv [OF adv_skip]\<close>)
  have punct: "scanned lx t (case scan_punct ?c ?lx1 of Some (k, lx') \<Rightarrow> Inr (lx', t\<lparr>kind := k\<rparr>) | None \<Rightarrow> Inl (FatalAt (tloc t) msg))"
    if nn: "?c \<noteq> NUL" for msg
  proof (cases "scan_punct ?c ?lx1")
    case (Some r)
    obtain k lx' where r: "r = (k, lx')" by (cases r)
    note P = scan_punct_consumed [OF Some [unfolded r]]
    have "consumed (tok_weight k) lx lx'"
      using P consumed_skip [OF nn, of 1 lx'] consumed_1 [OF nn] by (auto simp: tok_weight_def numeral_2_eq_2)
    then show ?thesis using assms Some r P by (simp add: scannedI)
  qed (use assms in \<open>simp add: scanned_error\<close>)
  have eof: "?c = NUL \<Longrightarrow> scanned lx t (Inr (lx, t\<lparr>kind := T_EOF\<rparr>))"
    using assms consumed_0 by (intro scannedI) (simp_all add: tok_weight_def)
  show ?thesis
    unfolding scan_token_def Let_def
    using eof scan_ident_scanned [OF _ assms(1)] scan_number_scanned [OF _ assms] str chunk punct
      brace_scanned [OF _ assms] by simp
qed

text \<open>A token starts where the white space before it ends, and ends where the lexer stands.\<close>

lemma skip_block_error: "skip_block l lx = Inl e \<Longrightarrow> e = FatalAt l ''unterminated block comment''"
proof (induction l lx rule: skip_block.induct)
  case (1 l lx)
  then show ?case unfolding skip_block.simps [of l lx] by (auto split: if_splits)
qed

lemma skip_ws_error: "skip_ws lx = Inl e \<Longrightarrow> diag_in (lx_file lx) e"
proof (induction lx rule: skip_ws.induct)
  case (1 lx)
  note E = 1(4) [unfolded skip_ws.simps [of lx] Let_def]
  consider (ws) "is_ws (lx_look lx)"
    | (line) "\<not> is_ws (lx_look lx)" "lx_look lx = CHR ''/''" "lx_look2 lx = CHR ''/''"
    | (block) "\<not> is_ws (lx_look lx)" "lx_look lx = CHR ''/''" "lx_look2 lx = CHR ''*''"
    using E by (auto split: if_splits)
  then show ?case
  proof cases
    case ws
    then show ?thesis using 1(1) [OF refl] E adv_same(2) [OF adv_skip] by simp
  next
    case line
    then show ?thesis using 1(2) [OF refl] E adv_same(2) [OF adv_while] by simp
  next
    case block
    show ?thesis
    proof (cases "skip_block (lx_loc lx) (lx_skip (lx_skip lx))")
      case (Inl d)
      then have "e = FatalAt (lx_loc lx) ''unterminated block comment''"
        using E block skip_block_error [OF Inl] by simp
      then show ?thesis by (auto simp: diag_in_def lx_loc_def)
    next
      case (Inr lx1)
      have "adv lx lx1" using comment_adv [OF Inr] by blast
      then show ?thesis using 1(3) [OF refl block(1) _ _ Inr] E block Inr adv_same(2) by simp
    qed
  qed
qed

lemma scan_contract:
  assumes ok: "lx_ok lx"
  shows "case scan t lx of
      Inl e \<Rightarrow> diag_in (lx_file lx) e
    | Inr (lx', t') \<Rightarrow> lx_ok lx' \<and> (kind t' = T_EOF \<longrightarrow> lx_look lx' = NUL) \<and> (\<exists>lx0 lx1. adv lx lx0 \<and> tloc t' = lx_loc lx0 \<and>
          consumed (tok_weight (kind t')) lx0 lx1 \<and> lx' = lx1\<lparr>tdepth := tdepth lx', tbrace := tbrace lx'\<rparr>)"
proof (cases "skip_ws lx")
  case (Inl e)
  then show ?thesis using skip_ws_error by (simp add: scan_def)
next
  case (Inr lx0)
  then have a: "adv lx lx0" by (rule skip_ws_adv)
  have "scanned lx0 (t\<lparr>tloc := lx_loc lx0\<rparr>) (scan_token (t\<lparr>tloc := lx_loc lx0\<rparr>) lx0)"
    using ok lx_ok_adv [OF a] by (intro scan_token_scanned) (simp_all add: lx_loc_def)
  then show ?thesis
    using a Inr adv_same(2) [OF a] unfolding scanned_def scan_def
    by (simp split: sum.splits prod.splits) metis
qed

text \<open>What is left to read, counting the current and the buffered token.\<close>

definition lx_size :: "lexer \<Rightarrow> nat" where
  "lx_size lx = length (lx_p lx) + (if has_ahead lx then tok_weight (kind (lx_ahead lx)) else 0) + tok_weight (kind (lx_tok lx))"

lemma consumed_length: "consumed n lx lx' \<Longrightarrow> n + length (lx_p lx') \<le> length (lx_p lx)"
  by (auto simp: consumed_def ate_def)

lemma scan_frame:
  assumes "lx_ok lx" "scan t lx = Inr (lx', t')"
  shows "lx_ok lx'" "lx_tok lx' = lx_tok lx" "lx_ahead lx' = lx_ahead lx" "has_ahead lx' = has_ahead lx"
    "lx_file lx' = lx_file lx" "length (lx_p lx') + tok_weight (kind t') \<le> length (lx_p lx)"
    "l_file (tloc t') = Some (lx_file lx)"
proof -
  obtain lx0 lx1 where o: "lx_ok lx'" "adv lx lx0" "tloc t' = lx_loc lx0" "consumed (tok_weight (kind t')) lx0 lx1"
    and lx': "lx' = lx1\<lparr>tdepth := tdepth lx', tbrace := tbrace lx'\<rparr>"
    using scan_contract [OF assms(1), of t] assms(2) by auto
  have a: "adv lx lx1" using adv_trans [OF o(2) consumed_adv [OF o(4)]] .
  have c: "consumed (tok_weight (kind t')) lx lx1" using consumed_later [OF o(2,4)] .
  show "lx_ok lx'" by fact
  show "lx_tok lx' = lx_tok lx" "lx_ahead lx' = lx_ahead lx" "has_ahead lx' = has_ahead lx" "lx_file lx' = lx_file lx"
    by (subst lx', simp add: adv_same [OF a])+
  show "length (lx_p lx') + tok_weight (kind t') \<le> length (lx_p lx)"
    by (subst lx') (use consumed_length [OF c] in simp)
  show "l_file (tloc t') = Some (lx_file lx)" using o(3) adv_same(2) [OF o(2)] by (simp add: lx_loc_def)
qed

lemma lex_next_contract:
  assumes "lx_ok lx"
  shows "case lex_next lx of
      Inl e \<Rightarrow> diag_in (lx_file lx) e
    | Inr lx' \<Rightarrow> lx_ok lx' \<and> lx_file lx' = lx_file lx \<and> lx_size lx' + tok_weight (kind (lx_tok lx)) \<le> lx_size lx"
proof (cases "has_ahead lx")
  case True
  then show ?thesis using assms by (simp add: lex_next_def lx_size_def lx_ok_def)
next
  case False
  show ?thesis
  proof (cases "scan (lx_tok lx) lx")
    case (Inl e)
    then show ?thesis using False scan_contract [OF assms, of "lx_tok lx"] by (simp add: lex_next_def)
  next
    case (Inr r)
    obtain lx' t' where r: "r = (lx', t')" by (cases r)
    show ?thesis
      using False Inr r scan_frame [OF assms Inr [unfolded r]] by (simp add: lex_next_def lx_size_def lx_ok_def)
  qed
qed

lemma lex_peek_contract:
  assumes "lx_ok lx"
  shows "case lex_peek lx of
      Inl e \<Rightarrow> diag_in (lx_file lx) e
    | Inr (t, lx') \<Rightarrow> lx_ok lx' \<and> lx_file lx' = lx_file lx \<and> lx_size lx' \<le> lx_size lx \<and> lx_tok lx' = lx_tok lx \<and>
        has_ahead lx' \<and> lx_ahead lx' = t"
proof (cases "has_ahead lx")
  case True
  then show ?thesis using assms by (simp add: lex_peek_def)
next
  case False
  show ?thesis
  proof (cases "scan (lx_ahead lx) lx")
    case (Inl e)
    then show ?thesis using False scan_contract [OF assms, of "lx_ahead lx"] by (simp add: lex_peek_def)
  next
    case (Inr r)
    obtain lx' t' where r: "r = (lx', t')" by (cases r)
    show ?thesis
      using False Inr r scan_frame [OF assms Inr [unfolded r]] by (simp add: lex_peek_def lx_size_def lx_ok_def)
  qed
qed

section \<open>Literals\<close>

text \<open>The decoding of string literals: a text and the bytes it stands for.\<close>

inductive str_body :: "string \<Rightarrow> string \<Rightarrow> bool" where
  Nil: "str_body [] []"
| Plain: "c \<notin> {NUL, CHR 0x0A, CHR 0x22, CHR 0x5C} \<Longrightarrow> str_body t s \<Longrightarrow> str_body (c # t) (c # s)"
| Esc: "(e, c) \<in> {(CHR ''n'', CHR 0x0A), (CHR ''t'', CHR 0x09), (CHR ''r'', CHR 0x0D), (CHR 0x5C, CHR 0x5C),
      (CHR 0x22, CHR 0x22), (CHR ''0'', NUL)} \<Longrightarrow> str_body t s \<Longrightarrow> str_body (CHR 0x5C # e # t) (c # s)"
| Hex: "0 \<le> hexval h1 \<Longrightarrow> 0 \<le> hexval h2 \<Longrightarrow> str_body t s \<Longrightarrow>
    str_body (CHR 0x5C # CHR ''x'' # h1 # h2 # t) (char_of (nat (hexval h1 * 16 + hexval h2)) # s)"

lemma look_ate: "lx_p lx = c # cs \<Longrightarrow> c \<noteq> NUL \<Longrightarrow> lx_look lx = c \<and> ate [c] lx (lx_skip lx) \<and> lx_p (lx_skip lx) = cs"
  using ate_skip [of lx] lx_skip_p [of lx] by (simp add: lx_look_def)

lemma scan_string_decodes:
  "str_body t s \<Longrightarrow> lx_p lx = t @ CHR 0x22 # rest \<Longrightarrow>
     \<exists>lx'. scan_string l sb lx = Inr (sb @ s, lx') \<and> ate (t @ [CHR 0x22]) lx lx'"
proof (induction t s arbitrary: lx sb rule: str_body.induct)
  case Nil
  then show ?case
    using look_ate [of lx "CHR 0x22" rest] by (subst scan_string.simps) (auto simp: Let_def)
next
  case (Plain c t s)
  have a: "lx_look lx = c" "ate [c] lx (lx_skip lx)" "lx_p (lx_skip lx) = t @ CHR 0x22 # rest"
    using look_ate [of lx c "t @ CHR 0x22 # rest"] Plain.hyps(1) Plain.prems by auto
  obtain lx' where "scan_string l ((sb @ [c])) (lx_skip lx) = Inr (sb @ [c] @ s, lx')" "ate (t @ [CHR 0x22]) (lx_skip lx) lx'"
    using Plain.IH [OF a(3), of "sb @ [c]"] by auto
  then show ?case
    using Plain.hyps(1) a(1) ate_trans [OF a(2)] by (subst scan_string.simps) (fastforce simp: Let_def)
next
  case (Esc e c t s)
  let ?lx1 = "lx_skip lx" and ?lx2 = "lx_skip (lx_skip lx)"
  have e: "e \<noteq> NUL" using Esc.hyps(1) by auto
  have a: "lx_look lx = CHR 0x5C" "ate [CHR 0x5C] lx ?lx1" "lx_p ?lx1 = e # t @ CHR 0x22 # rest"
    using look_ate [of lx "CHR 0x5C" "e # t @ CHR 0x22 # rest"] Esc.prems by auto
  have b: "lx_look ?lx1 = e" "ate [e] ?lx1 ?lx2" "lx_p ?lx2 = t @ CHR 0x22 # rest"
    using look_ate [OF a(3) e] by auto
  have "scan_escape l ?lx1 = Inr (c, ?lx2)" using Esc.hyps(1) b(1) by (auto simp: scan_escape_def Let_def)
  moreover obtain lx' where "scan_string l (sb @ [c]) ?lx2 = Inr (sb @ [c] @ s, lx')" "ate (t @ [CHR 0x22]) ?lx2 lx'"
    using Esc.IH [OF b(3), of "sb @ [c]"] by auto
  ultimately show ?case
    using a(1) ate_trans [OF a(2) ate_trans [OF b(2)]] by (subst scan_string.simps) (fastforce simp: Let_def)
next
  case (Hex h1 h2 t s)
  let ?lx1 = "lx_skip lx" and ?lx2 = "lx_skip (lx_skip lx)" and ?c = "char_of (nat (hexval h1 * 16 + hexval h2))"
  let ?lx3 = "lx_skip ?lx2" and ?lx4 = "lx_skip (lx_skip ?lx2)"
  note nn = not_NUL(3) [OF Hex.hyps(1)] not_NUL(3) [OF Hex.hyps(2)]
  have a: "lx_look lx = CHR 0x5C" "ate [CHR 0x5C] lx ?lx1" "lx_p ?lx1 = CHR ''x'' # h1 # h2 # t @ CHR 0x22 # rest"
    using look_ate [of lx "CHR 0x5C" "CHR ''x'' # h1 # h2 # t @ CHR 0x22 # rest"] Hex.prems by auto
  have b: "lx_look ?lx1 = CHR ''x''" "ate [CHR ''x''] ?lx1 ?lx2" "lx_p ?lx2 = h1 # h2 # t @ CHR 0x22 # rest"
    using look_ate [OF a(3)] by auto
  note c = look_ate [OF b(3) nn(1)]
  note d = look_ate [OF c [THEN conjunct2, THEN conjunct2] nn(2)]
  have "scan_escape l ?lx1 = Inr (?c, ?lx4)"
    using Hex.hyps(1,2) b(1) c d by (simp add: scan_escape_def Let_def)
  moreover obtain lx' where "scan_string l (sb @ [?c]) ?lx4 = Inr (sb @ [?c] @ s, lx')" "ate (t @ [CHR 0x22]) ?lx4 lx'"
    using Hex.IH [of ?lx4 "sb @ [?c]"] d by auto
  ultimately show ?case
    using a(1) ate_trans [OF a(2) ate_trans [OF b(2) ate_trans [of "[h1]" ?lx2 ?lx3, OF _ ate_trans [of "[h2]" ?lx3 ?lx4]]]] c d
    by (subst scan_string.simps) (fastforce simp: Let_def)
qed

text \<open>A spelling for every byte string: printable characters as they are, the rest in hexadecimal.\<close>

definition hex_digit :: "nat \<Rightarrow> char" where
  "hex_digit n = char_of (if n < 10 then 48 + n else 87 + n)"

definition spell_char :: "char \<Rightarrow> string" where
  "spell_char c =
     (if 32 \<le> code c \<and> code c < 127 \<and> c \<noteq> CHR 0x22 \<and> c \<noteq> CHR 0x5C then [c]
      else [CHR 0x5C, CHR ''x'', hex_digit (code c div 16), hex_digit (code c mod 16)])"

lemma hexval_hex_digit: "n < 16 \<Longrightarrow> hexval (hex_digit n) = int n"
  by (auto simp: hexval_def hex_digit_def)

lemma code_less: "code c < 256"
  using of_char_mod_256 [of c, where ?'a = nat] mod_less_divisor [of 256 "code c"] by simp

lemma spell_char_body: "str_body t s \<Longrightarrow> str_body (spell_char c @ t) (c # s)"
proof (cases "32 \<le> code c \<and> code c < 127 \<and> c \<noteq> CHR 0x22 \<and> c \<noteq> CHR 0x5C")
  case True
  assume b: "str_body t s"
  have "c \<notin> {NUL, CHR 0x0A, CHR 0x22, CHR 0x5C}" using True by auto
  then show ?thesis using str_body.Plain [OF _ b] True by (simp add: spell_char_def)
next
  case False
  assume b: "str_body t s"
  have h: "hexval (hex_digit (code c div 16)) = int (code c div 16)" "hexval (hex_digit (code c mod 16)) = int (code c mod 16)"
    using code_less [of c] by (auto intro!: hexval_hex_digit simp: less_mult_imp_div_less)
  have "nat (hexval (hex_digit (code c div 16)) * 16 + hexval (hex_digit (code c mod 16))) = code c"
    unfolding h using div_mult_mod_eq [of "code c" 16] by (metis nat_int of_nat_add of_nat_mult of_nat_numeral)
  moreover note str_body.Hex [of "hex_digit (code c div 16)" "hex_digit (code c mod 16)", OF _ _ b]
  ultimately have "str_body (CHR 0x5C # CHR ''x'' # hex_digit (code c div 16) # hex_digit (code c mod 16) # t) (char_of (code c) # s)"
    using h by simp
  then show ?thesis unfolding spell_char_def if_not_P [OF False] by simp
qed

lemma spell_body: "str_body (concat (map spell_char s)) s"
  by (induction s) (auto intro: str_body.Nil spell_char_body)

text \<open>Digit runs.\<close>

lemma lx_while_run:
  assumes "lx_p lx = us @ rest" "\<forall>c\<in>set us. P c \<and> c \<noteq> NUL" "rest = [] \<or> hd rest = NUL \<or> \<not> P (hd rest)"
  shows "ate us lx (lx_while P lx) \<and> lx_p (lx_while P lx) = rest"
  using assms
proof (induction us arbitrary: lx)
  case Nil
  then have "lx_look lx = NUL \<or> \<not> P (lx_look lx)" by (cases rest) (auto simp: lx_look_def)
  then have "lx_while P lx = lx" by (subst lx_while.simps) auto
  then show ?case using Nil by simp
next
  case (Cons c us)
  have l: "lx_look lx = c" "ate [c] lx (lx_skip lx)" "lx_p (lx_skip lx) = us @ rest"
    using look_ate [of lx c "us @ rest"] Cons.prems by auto
  have "lx_while P lx = lx_while P (lx_skip lx)" using Cons.prems l(1) by (subst lx_while.simps) simp
  then show ?case using Cons.IH [OF l(3)] Cons.prems ate_trans [OF l(2)] by auto
qed

definition hex_value :: "nat \<Rightarrow> string \<Rightarrow> nat" where
  "hex_value v s = foldl (\<lambda>v c. v * 16 + nat (hexval c)) v s"

lemma hex_value_ge: "v \<le> hex_value v s"
  unfolding hex_value_def
proof (induction s arbitrary: v)
  case (Cons c s)
  show ?case using Cons [of "v * 16 + nat (hexval c)"] by simp
qed simp

lemma hexval_bounds: "hexval c < 16" "- 1 \<le> hexval c"
  by (auto simp: hexval_def)

lemma hex_guard:
  fixes v :: u64
  assumes "0 \<le> h" "h < 16"
  shows "v > (0xFFFFFFFFFFFFFFFF - word_of_int h) div 16 \<longleftrightarrow> 2 ^ 64 \<le> unat v * 16 + nat h"
proof -
  obtain k where k: "h = int k" "k < 16" using assms by (metis nat_int nonneg_int_cases of_nat_less_numeral_iff)
  have u: "unat (word_of_int h :: u64) = k" using k by (simp add: unat_of_nat64)
  have "unat ((0xFFFFFFFFFFFFFFFF :: u64) - word_of_int h) = 18446744073709551615 - k"
    using k u by (subst unat_sub) (simp_all add: word_le_nat_alt)
  then have "unat (((0xFFFFFFFFFFFFFFFF :: u64) - word_of_int h) div 16) = (18446744073709551615 - k) div 16"
    by (simp add: unat_div)
  then have "v > (0xFFFFFFFFFFFFFFFF - word_of_int h) div 16 \<longleftrightarrow> (18446744073709551615 - k) div 16 < unat v"
    by (simp add: word_less_nat_alt)
  also have "\<dots> \<longleftrightarrow> 18446744073709551616 \<le> unat v * 16 + k" using k(2) by linarith
  finally show ?thesis using k by simp
qed

lemma scan_hex_exact:
  assumes "lx_p lx = ds @ rest" "\<forall>c\<in>set ds. 0 \<le> hexval c" "rest = [] \<or> hexval (hd rest) < 0"
  shows "if hex_value (unat v) ds < 2 ^ 64
     then \<exists>lx'. scan_hex l v lx = Inr (of_nat (hex_value (unat v) ds), lx') \<and> ate ds lx lx' \<and> lx_p lx' = rest
     else scan_hex l v lx = Inl (FatalAt l ''hex literal too large for 64 bits'')"
  using assms
proof (induction ds arbitrary: lx v)
  case Nil
  have "hexval (lx_look lx) < 0" using Nil by (cases rest) (auto simp: lx_look_def hexval_def)
  moreover have "unat v < 2 ^ 64" using unat_lt64 [of v] by simp
  ultimately show ?case using Nil by (subst (1 2) scan_hex.simps) (simp add: hex_value_def)
next
  case (Cons c ds)
  have c: "0 \<le> hexval c" "hexval c < 16" "c \<noteq> NUL" using Cons.prems(2) hexval_bounds not_NUL(3) by auto
  have l: "lx_look lx = c" "ate [c] lx (lx_skip lx)" "lx_p (lx_skip lx) = ds @ rest"
    using look_ate [of lx c "ds @ rest"] Cons.prems(1) c(3) by auto
  let ?v = "v * 16 + word_of_int (hexval c)" and ?n = "unat v * 16 + nat (hexval c)"
  have hv: "hex_value (unat v) (c # ds) = hex_value ?n ds" by (simp add: hex_value_def)
  show ?case
  proof (cases "2 ^ 64 \<le> ?n")
    case True
    then have "\<not> hex_value (unat v) (c # ds) < 2 ^ 64" unfolding hv using hex_value_ge [of ?n ds] by linarith
    then show ?thesis
      using True hex_guard [OF c(1,2), of v] c(1) l(1) by (subst (1 2) scan_hex.simps) (simp add: Let_def)
  next
    case False
    have "?v = of_nat ?n" using c(1) by (simp add: of_nat_nat)
    then have "unat ?v = ?n" using False by (simp add: unat_of_nat64 del: of_nat_add of_nat_mult)
    moreover have "scan_hex l v lx = scan_hex l ?v (lx_skip lx)"
      using False hex_guard [OF c(1,2), of v] c(1) l(1) by (subst scan_hex.simps) (simp add: Let_def)
    ultimately show ?thesis
      using Cons.IH [OF l(3), of ?v] Cons.prems(2,3) ate_trans [OF l(2)] unfolding hv by (auto split: if_splits)
  qed
qed

section \<open>Reachable lexers\<close>

text \<open>The states a lexer of a file passes through: created by \<open>lex_init\<close>, moved by \<open>lex_next\<close>
  and \<open>lex_peek\<close>, and, by the parser, put back to an earlier snapshot.\<close>

inductive lex_reach :: "string \<Rightarrow> string \<Rightarrow> lexer \<Rightarrow> bool" for f src where
  Init: "lex_init f src = Inr lx \<Longrightarrow> lex_reach f src lx"
| Next: "lex_reach f src lx \<Longrightarrow> lex_next lx = Inr lx' \<Longrightarrow> lex_reach f src lx'"
| Peek: "lex_reach f src lx \<Longrightarrow> lex_peek lx = Inr (t, lx') \<Longrightarrow> lex_reach f src lx'"

definition lx_start :: "string \<Rightarrow> string \<Rightarrow> lexer" where
  "lx_start f src = \<lparr>lx_src = src, lx_p = src, lx_file = f, lx_line = 1, lx_col = 1, lx_tok = tok0,
     lx_ahead = tok0, has_ahead = False, tdepth = 0, tbrace = replicate 8 0\<rparr>"

lemma lex_init_start: "lex_init f src = lex_next (lx_start f src)" "lx_ok (lx_start f src)" "lx_file (lx_start f src) = f"
  "lx_size (lx_start f src) = length src"
  by (simp_all add: lex_init_def lx_start_def lx_ok_def lx_size_def tok0_def tok_weight_def)

lemma lex_reach_ok: "lex_reach f src lx \<Longrightarrow> lx_ok lx \<and> lx_file lx = f \<and> lx_size lx \<le> length src"
proof (induction rule: lex_reach.induct)
  case (Init lx)
  then show ?case using lex_next_contract [OF lex_init_start(2) [of f src]] by (simp add: lex_init_start)
next
  case (Next lx lx')
  then show ?case using lex_next_contract [of lx] by simp
next
  case (Peek lx t lx')
  then show ?case using lex_peek_contract [of lx] by simp
qed

text \<open>The tokens from the current one to the end of the file, by \<open>n\<close> calls of \<open>lex_next\<close> at most.\<close>

fun lex_rest :: "nat \<Rightarrow> lexer \<Rightarrow> token list cres" where
  "lex_rest 0 lx = Inl OutOfFuel"
| "lex_rest (Suc n) lx =
     (if kind (lx_tok lx) = T_EOF then Inr [lx_tok lx]
      else bind_res (lex_next lx) (\<lambda>lx'. bind_res (lex_rest n lx') (\<lambda>ts. Inr (lx_tok lx # ts))))"

lemma lex_rest_contract:
  "lx_ok lx \<Longrightarrow> lx_size lx < n \<Longrightarrow>
     (\<exists>ts. lex_rest n lx = Inr ts \<and> ts \<noteq> [] \<and> kind (last ts) = T_EOF \<and> length ts \<le> Suc (lx_size lx)) \<or>
     (\<exists>e. lex_rest n lx = Inl e \<and> diag_in (lx_file lx) e)"
proof (induction n arbitrary: lx)
  case (Suc n)
  show ?case
  proof (cases "kind (lx_tok lx) = T_EOF")
    case False
    then have w: "1 \<le> tok_weight (kind (lx_tok lx))" by (simp add: tok_weight_def)
    show ?thesis
    proof (cases "lex_next lx")
      case (Inl e)
      then show ?thesis using False lex_next_contract [OF Suc.prems(1)] by simp
    next
      case (Inr lx')
      have ok: "lx_ok lx'" "lx_file lx' = lx_file lx" and sz: "lx_size lx' + 1 \<le> lx_size lx"
        using lex_next_contract [OF Suc.prems(1)] Inr w by simp_all
      then have "lx_size lx' < n" using Suc.prems(2) by linarith
      from Suc.IH [OF ok(1) this] show ?thesis
      proof
        assume "\<exists>ts. lex_rest n lx' = Inr ts \<and> ts \<noteq> [] \<and> kind (last ts) = T_EOF \<and> length ts \<le> Suc (lx_size lx')"
        then show ?thesis using False Inr sz by fastforce
      qed (use False Inr ok in auto)
    qed
  qed simp
qed simp

section \<open>Properties\<close>



text \<open>C18: Reading a file always ends. From \<open>lex_init\<close> on, calling \<open>lex_next\<close> at most as often as the
  file has characters either reaches the end-of-file token or stops with a diagnostic
  located in that file; the nesting counters of template literals are never accessed out
  of bounds, although they are a fixed array of eight.\<close>

theorem lexing_terminates:
  "(\<exists>lx ts. lex_init f src = Inr lx \<and> lex_rest (Suc (length src)) lx = Inr ts \<and> ts \<noteq> [] \<and>
      kind (last ts) = T_EOF \<and> length ts \<le> Suc (length src)) \<or>
   (\<exists>e l msg. e = FatalAt l msg \<and> l_file l = Some f \<and>
      (lex_init f src = Inl e \<or> (\<exists>lx. lex_init f src = Inr lx \<and> lex_rest (Suc (length src)) lx = Inl e)))"
proof (cases "lex_init f src")
  case (Inl e)
  then show ?thesis
    using lex_next_contract [OF lex_init_start(2) [of f src]] by (auto simp: lex_init_start diag_in_def)
next
  case (Inr lx)
  then have lx: "lx_ok lx" "lx_file lx = f" "lx_size lx \<le> length src"
    using lex_reach_ok [OF lex_reach.Init] by blast+
  then have "lx_size lx < Suc (length src)" by simp
  from lex_rest_contract [OF lx(1) this] show ?thesis
    using Inr lx(2,3) by (fastforce simp: diag_in_def)
qed

text \<open>C19: The template state stays in bounds. In every state a lexer can reach, between zero and
  eight templates are open and each has its counter; no further step of the lexer can
  read or write the counters outside their array.\<close>

theorem template_state_bounded:
  assumes "lex_reach f src lx"
  shows "0 \<le> tdepth lx \<and> tdepth lx \<le> 8 \<and> length (tbrace lx) = 8 \<and>
    lex_next lx \<noteq> Inl Undefined \<and> lex_peek lx \<noteq> Inl Undefined"
proof -
  have ok: "lx_ok lx" using lex_reach_ok [OF assms] by blast
  have "lex_next lx \<noteq> Inl Undefined" using lex_next_contract [OF ok] by (auto simp: diag_in_def)
  moreover have "lex_peek lx \<noteq> Inl Undefined" using lex_peek_contract [OF ok] by (auto simp: diag_in_def)
  ultimately show ?thesis using ok by (simp add: lx_ok_def)
qed

lemma lex_init_empty: "lex_init f [] = Inr (lx_start f []\<lparr>lx_tok := tok0\<lparr>tloc := lx_loc (lx_start f []), kind := T_EOF\<rparr>\<rparr>)"
proof -
  have l: "lx_look (lx_start f []) = NUL" by (simp add: lx_look_def lx_start_def)
  have "skip_ws (lx_start f []) = Inr (lx_start f [])" by (subst skip_ws.simps) (simp add: l is_ws_def Let_def)
  then show ?thesis
    by (simp add: lex_init_start lex_next_def scan_def scan_token_def l) (simp add: lx_start_def)
qed

theorem template_state_bounded_witness:
  "\<exists>lx. lex_reach ''m.vt'' [] lx \<and> tdepth lx \<le> 8 \<and> lex_next lx \<noteq> Inl Undefined"
  using lex_reach.Init [OF lex_init_empty [of "''m.vt''"]] template_state_bounded [OF lex_reach.Init [OF lex_init_empty [of "''m.vt''"]]]
  by blast

text \<open>C20: Every byte string can be written as a string literal and is read back exactly: the
  scanner returns a string token with these bytes, whatever follows, and stops right
  after the closing quote.\<close>

theorem string_literal_roundtrip:
  assumes "lx_p lx = CHR 0x22 # concat (map spell_char s) @ CHR 0x22 # rest"
  shows "\<exists>lx'. scan_token t lx = Inr (lx', t\<lparr>kind := T_STRING, sval := s\<rparr>) \<and> lx_p lx' = rest"
proof -
  have q: "lx_look lx = CHR 0x22" "lx_p (lx_skip lx) = concat (map spell_char s) @ CHR 0x22 # rest"
    using look_ate [OF assms] by auto
  obtain lx' where r: "scan_string (tloc t) [] (lx_skip lx) = Inr ([] @ s, lx')"
    "ate (concat (map spell_char s) @ [CHR 0x22]) (lx_skip lx) lx'"
    using scan_string_decodes [OF spell_body q(2)] by blast
  have "lx_p lx' = rest" using r(2) q(2) by (simp add: ate_def)
  then show ?thesis
    using q(1) r(1) by (simp add: scan_token_def is_ident_start_def is_dec_def)
qed

theorem string_literal_roundtrip_witness:
  "\<exists>lx'. scan_token tok0 (lx_start ''m.vt'' (CHR 0x22 # concat (map spell_char [NUL, CHR ''a'']) @ CHR 0x22 # '';'')) =
     Inr (lx', tok0\<lparr>kind := T_STRING, sval := [NUL, CHR ''a'']\<rparr>) \<and> lx_p lx' = '';''"
  by (rule string_literal_roundtrip) (simp add: lx_start_def)

lemma int_literals:
  assumes "ds \<noteq> []" "rest = [] \<or> hd rest \<in> {NUL, CHR '' '', CHR '';''}"
  shows "lx_p lx = ds @ rest \<Longrightarrow> (\<forall>c\<in>set ds. is_dec c) \<Longrightarrow> length ds < 64 \<Longrightarrow>
      (if dec_value ds < 2 ^ 63
       then \<exists>lx'. scan_number t lx = Inr (lx', t\<lparr>kind := T_INT, ival := of_nat (dec_value ds)\<rparr>) \<and> lx_p lx' = rest
       else scan_number t lx = Inl (FatalAt (tloc t) ''integer literal too large''))"
    and "lx_p lx = CHR ''0'' # CHR ''x'' # ds @ rest \<Longrightarrow> (\<forall>c\<in>set ds. 0 \<le> hexval c) \<Longrightarrow>
      (if hex_value 0 ds < 2 ^ 64
       then \<exists>lx'. scan_number t lx = Inr (lx', t\<lparr>kind := T_INT, ival := of_nat (hex_value 0 ds)\<rparr>) \<and> lx_p lx' = rest
       else scan_number t lx = Inl (FatalAt (tloc t) ''hex literal too large for 64 bits''))"
proof -
  have stop: "rest = [] \<or> hd rest = NUL \<or> \<not> is_dec (hd rest)" "rest = [] \<or> hexval (hd rest) < 0"
    using assms(2) by (auto simp: is_dec_def hexval_def)
  {
    assume p: "lx_p lx = ds @ rest" and d: "\<forall>c\<in>set ds. is_dec c" and n: "length ds < 64"
    define lx1 where "lx1 = lx_while is_dec lx"
    have "ate ds lx lx1" and p1: "lx_p lx1 = rest"
      using lx_while_run [where P = is_dec, OF p _ stop(1)] d not_NUL(2) unfolding lx1_def by blast+
    have "lx_look lx1 \<in> {NUL, CHR '' '', CHR '';''}" using assms(2) p1 by (cases rest) (auto simp: lx_look_def)
    then have fe: "scan_fraction lx1 = (False, lx1)" "scan_exponent lx1 = (False, lx1)"
      by (auto simp: scan_fraction_def scan_exponent_def)
    have nothex: "\<not> (lx_look lx = CHR ''0'' \<and> (lx_look2 lx = CHR ''x'' \<or> lx_look2 lx = CHR ''X''))"
    proof
      assume h: "lx_look lx = CHR ''0'' \<and> (lx_look2 lx = CHR ''x'' \<or> lx_look2 lx = CHR ''X'')"
      obtain c cs where ds: "ds = c # cs" using assms(1) by (cases ds) auto
      show False
      proof (cases cs)
        case Nil
        then show ?thesis using h p ds assms(2) by (cases rest) (auto simp: lx_look2_def lx_look_def split: if_splits)
      next
        case (Cons d' ds')
        then have "is_dec (lx_look2 lx)" using d p ds h by (auto simp: lx_look2_def lx_look_def)
        then show ?thesis using h by (auto simp: is_dec_def)
      qed
    qed
    have "take (length (lx_p lx) - length (lx_p lx1)) (lx_p lx) = ds" by (simp add: p p1)
    then show "if dec_value ds < 2 ^ 63
       then \<exists>lx'. scan_number t lx = Inr (lx', t\<lparr>kind := T_INT, ival := of_nat (dec_value ds)\<rparr>) \<and> lx_p lx' = rest
       else scan_number t lx = Inl (FatalAt (tloc t) ''integer literal too large'')"
      unfolding scan_number_def if_not_P [OF nothex] using fe p p1 n by (simp add: Let_def lx1_def [symmetric])
  next
    assume p: "lx_p lx = CHR ''0'' # CHR ''x'' # ds @ rest" and d: "\<forall>c\<in>set ds. 0 \<le> hexval c"
    have l1: "lx_look lx = CHR ''0''" "lx_p (lx_skip lx) = CHR ''x'' # ds @ rest" using look_ate [OF p] by auto
    have l2: "lx_p (lx_skip (lx_skip lx)) = ds @ rest" using look_ate [OF l1(2)] by auto
    have "lx_look2 lx = CHR ''x''" using p l1 by (simp add: lx_look2_def)
    moreover have "0 \<le> hexval (lx_look (lx_skip (lx_skip lx)))" using l2 assms(1) d by (cases ds) (auto simp: lx_look_def)
    ultimately show "if hex_value 0 ds < 2 ^ 64
       then \<exists>lx'. scan_number t lx = Inr (lx', t\<lparr>kind := T_INT, ival := of_nat (hex_value 0 ds)\<rparr>) \<and> lx_p lx' = rest
       else scan_number t lx = Inl (FatalAt (tloc t) ''hex literal too large for 64 bits'')"
      using scan_hex_exact [OF l2 d stop(2), of 0 "tloc t"] l1(1) by (auto simp: scan_number_def split: if_splits)
  }
qed

lemma keyword_facts:
  shows "tok_keyword k = Some w \<longleftrightarrow> (w, k) \<in> set keyword_table"
    and "lx_p lx = s @ rest \<Longrightarrow> s \<noteq> [] \<Longrightarrow> is_ident_start (hd s) \<Longrightarrow> \<forall>c\<in>set s. is_ident c \<Longrightarrow>
      rest = [] \<or> \<not> is_ident (hd rest) \<Longrightarrow>
      \<exists>lx' k. scan_token t lx = Inr (lx', t\<lparr>ident := s, kind := k\<rparr>) \<and> lx_p lx' = rest \<and>
        (if \<exists>k'. tok_keyword k' = Some s then tok_keyword k = Some s else k = T_IDENT)"
proof -
  have find: "distinct (map snd ks) \<Longrightarrow> find_kind ks k = Some w \<longleftrightarrow> (w, k) \<in> set ks" for ks k w
    by (induction ks) (auto simp: rev_image_eqI split: if_splits)
  have d: "distinct (map snd keyword_table)" by (simp add: keyword_table_def)
  show tab: "tok_keyword k = Some w \<longleftrightarrow> (w, k) \<in> set keyword_table" for k w
    unfolding tok_keyword_def by (rule find [OF d])
  have kk: "if \<exists>k'. (s, k') \<in> set ks then (s, keyword_kind ks s) \<in> set ks else keyword_kind ks s = T_IDENT" for ks s
    by (induction ks) (auto split: if_splits)
  assume p: "lx_p lx = s @ rest" and s: "s \<noteq> []" "is_ident_start (hd s)" "\<forall>c\<in>set s. is_ident c"
    and r: "rest = [] \<or> \<not> is_ident (hd rest)"
  have run: "lx_p (lx_while is_ident lx) = rest"
    using lx_while_run [OF p, of is_ident] s(3) r not_NUL(1) by blast
  have "lx_look lx = hd s" using p s(1) by (cases s) (auto simp: lx_look_def)
  then have "is_ident_start (lx_look lx)" "lx_look lx \<noteq> NUL" using s(2) not_NUL(1) by (auto simp: is_ident_def)
  then have "scan_token t lx = Inr (lx_while is_ident lx, t\<lparr>ident := s, kind := keyword_kind keyword_table s\<rparr>)"
    by (simp add: scan_token_def scan_ident_def run p)
  then show "\<exists>lx' k. scan_token t lx = Inr (lx', t\<lparr>ident := s, kind := k\<rparr>) \<and> lx_p lx' = rest \<and>
        (if \<exists>k'. tok_keyword k' = Some s then tok_keyword k = Some s else k = T_IDENT)"
    unfolding tab using run kk [of s keyword_table] by blast
qed



text \<open>Keywords are recognised by spelling, and only they. The table gives each keyword one
  kind and each of these kinds one spelling, \<open>tok_keyword\<close> inverts it, and an identifier
  scans, up to the first character that cannot continue it, to its bytes with the kind of
  the keyword it spells or to a plain identifier.\<close>

theorem keyword_recognition:
  "(tok_keyword k = Some w \<longleftrightarrow> (w, k) \<in> set keyword_table) \<and>
   (lx_p lx = s @ rest \<and> s \<noteq> [] \<and> is_ident_start (hd s) \<and> list_all is_ident s \<and> (rest = [] \<or> \<not> is_ident (hd rest)) \<longrightarrow>
      (\<exists>lx' k. scan_token t lx = Inr (lx', t\<lparr>ident := s, kind := k\<rparr>) \<and> lx_p lx' = rest \<and>
        (if \<exists>k'. tok_keyword k' = Some s then tok_keyword k = Some s else k = T_IDENT)))"
  using keyword_facts(1) [of k w] keyword_facts(2) [of lx s rest t] by (simp add: list_all_iff)

theorem keyword_recognition_witness:
  "\<exists>lx' k. scan_token tok0 (lx_start ''m.vt'' ''while(x)'') = Inr (lx', tok0\<lparr>ident := ''while'', kind := k\<rparr>) \<and>
     tok_keyword k = Some ''while''"
proof -
  have w: "\<exists>k'. tok_keyword k' = Some ''while''"
    by (rule exI [of _ T_WHILE]) (simp add: tok_keyword_def keyword_table_def)
  have "lx_p (lx_start ''m.vt'' ''while(x)'') = ''while'' @ ''(x)'' \<and> ''while'' \<noteq> [] \<and> is_ident_start (hd ''while'') \<and>
      list_all is_ident ''while'' \<and> (''(x)'' = [] \<or> \<not> is_ident (hd ''(x)''))"
    by (simp add: lx_start_def is_ident_def is_ident_start_def is_dec_def)
  with keyword_recognition [of T_WHILE "''while''" "lx_start ''m.vt'' ''while(x)''" "''while''" "''(x)''" tok0, THEN conjunct2]
  obtain lx' k where r: "scan_token tok0 (lx_start ''m.vt'' ''while(x)'') = Inr (lx', tok0\<lparr>ident := ''while'', kind := k\<rparr>)"
    "if \<exists>k'. tok_keyword k' = Some ''while'' then tok_keyword k = Some ''while'' else k = T_IDENT"
    by blast
  then show ?thesis using w by (intro exI [of _ lx'] exI [of _ k]) simp
qed

end
