(* ===== verification/Vt_Ast.thy ===== *)
theory Vt_Ast
  imports Vt_Lex
begin

text \<open>
  The syntax tree (\<open>src/ast.h\<close>) as the parser builds it. A C struct that serves several
  kinds of node is a datatype with one constructor per kind, holding the fields the
  parser sets for that kind; counts are the lengths of the lists. The fields of an
  expression or a statement that only the checker and the emitter fill, and the back pointers to the module, are left out; the
  back pointer of a method to its class or struct is the name of it.
\<close>

section \<open>Types\<close>

datatype type_kind =
    TY_VOID | TY_INT | TY_FLOAT | TY_BOOL | TY_BYTE
  | TY_I8 | TY_I16 | TY_I32 | TY_I64 | TY_U8 | TY_U16 | TY_U32 | TY_U64 | TY_F32 | TY_F64
  | TY_CLONG | TY_CULONG
  | TY_STRING | TY_CSTRING | TY_RAWPTR | TY_NULL
  | TY_TYPARAM | TY_NAMED | TY_ENUM | TY_STRUCT | TY_CLASS | TY_ARRAY | TY_MAP | TY_FN

text \<open>\<open>sdecl\<close>, \<open>cdecl\<close> and \<open>edecl\<close> point to the declaration the checker resolved the name to; a
  pointer is the address of the node, or none.\<close>

datatype ty = Type
  (ty_kind: type_kind) (ty_weak: bool) (ty_nullable: bool) (ty_from_weak: bool)
  (ty_elem: "ty option") (ty_ret: "ty option") (ty_params: "ty list") (ty_name: "string option") (ty_loc: loc)
  (ty_sdecl: "nat option") (ty_cdecl: "nat option") (ty_edecl: "nat option")

definition type_is_ref :: "ty \<Rightarrow> bool" where
  "type_is_ref t \<longleftrightarrow> ty_kind t \<in> {TY_STRING, TY_CLASS, TY_ARRAY, TY_MAP, TY_FN, TY_NULL}"

definition type_is_int :: "ty \<Rightarrow> bool" where
  "type_is_int t \<longleftrightarrow> ty_kind t \<in> {TY_INT, TY_BYTE, TY_I8, TY_I16, TY_I32, TY_I64, TY_U8, TY_U16, TY_U32, TY_U64,
     TY_CLONG, TY_CULONG}"

definition type_is_float :: "ty \<Rightarrow> bool" where
  "type_is_float t \<longleftrightarrow> ty_kind t = TY_FLOAT \<or> ty_kind t = TY_F32 \<or> ty_kind t = TY_F64"

definition type_is_num :: "ty \<Rightarrow> bool" where
  "type_is_num t \<longleftrightarrow> type_is_int t \<or> type_is_float t"

section \<open>Expressions and statements\<close>

text \<open>The fields of \<open>FnDecl\<close> other than its parameters, return type and body.\<close>

record fn_head =
  fd_name :: "string option"
  fd_loc :: loc
  is_virtual :: bool
  is_override :: bool
  is_extern :: bool
  is_builder :: bool
  is_static :: bool
  fd_owner :: "string option"
  fd_sowner :: "string option"
  vslot :: int
  arrow_id :: nat
  fd_typarams :: "string list"

text \<open>\<open>EX_CALL\<close>: callee (none for a super call), method name of a super call, \<open>is_super_call\<close>,
  type arguments, arguments, labels (none when no argument is named). \<open>EX_NEW\<close>: region name,
  map type, class name, type arguments, arguments, labels.\<close>

datatype expr =
    EX_INT loc i64
  | EX_FLOAT loc string
  | EX_STR loc string
  | EX_BOOL loc bool
  | EX_NULL loc
  | EX_IDENT loc string
  | EX_THIS loc
  | EX_BIN loc tok_kind expr expr
  | EX_UN loc tok_kind expr
  | EX_ASSIGN loc tok_kind expr expr
  | EX_CALL loc "expr option" "string option" bool "ty list" "expr list" "string option list option"
  | EX_INDEX loc expr expr
  | EX_MEMBER loc expr string
  | EX_NEW loc "string option" "ty option" "string option" "ty list" "expr list" "string option list option"
  | EX_ARROW loc fn_decl
  | EX_ARRAYLIT loc "expr list"
  | EX_TSTR loc "expr list"
  | EX_AS loc expr ty
and stmt =
    ST_LET loc string "ty option" expr
  | ST_EXPR loc expr
  | ST_IF loc expr "stmt list" "stmt list"
  | ST_WHILE loc expr "stmt list"
  | ST_FOR_RANGE loc string expr expr "stmt list"
  | ST_FOR_EACH loc string expr "stmt list"
  | ST_RETURN loc "expr option"
  | ST_BREAK loc
  | ST_CONTINUE loc
  | ST_BLOCK loc "stmt list"
  | ST_SWITCH loc expr "switch_arm list"
  | ST_ARENA loc "string option" "stmt list"
and switch_arm = SwitchArm loc bool "expr list" "stmt list"
and param = Param string "ty option" loc "expr option"
and fn_decl = FnDecl fn_head "param list" "ty option" "stmt list"

section \<open>Declarations\<close>

record field =
  f_name :: string
  f_type :: ty
  f_loc :: loc

record enum_variant =
  v_name :: string
  v_init :: "expr option"
  v_loc :: loc

record enum_decl =
  ed_name :: string
  ed_loc :: loc
  ed_variants :: "enum_variant list"

record struct_decl =
  sd_name :: string
  sd_loc :: loc
  sd_fields :: "field list"
  sd_methods :: "fn_decl list"
  sd_extern :: bool
  sd_typarams :: "string list"

record const_decl =
  c_loc :: loc
  c_name :: string
  c_type :: ty
  c_init :: expr

record class_decl =
  cd_name :: string
  cd_loc :: loc
  parent_name :: "string option"
  cd_fields :: "field list"
  cd_methods :: "fn_decl list"
  cd_consts :: "const_decl list"
  ctor :: "fn_decl option"
  deinit_body :: "stmt list"
  cd_typarams :: "string list"

text \<open>\<open>D_IMPORT\<close>: names and module path; \<open>D_LINK\<close>: library and platform condition.\<close>

datatype decl =
    D_FN loc fn_decl
  | D_STRUCT loc struct_decl
  | D_CLASS loc class_decl
  | D_ENUM loc enum_decl
  | D_CONST const_decl
  | D_IMPORT loc "string list" string
  | D_EXTERN_FN loc fn_decl
  | D_LINK loc string "string option"

record module =
  m_name :: string
  m_path :: string
  m_src :: string
  m_decls :: "decl list"
  arrow_counter :: nat
  src_hash :: u64

end
