(* ===== verification/Vt_Parse.thy ===== *)
theory Vt_Parse
  imports Vt_Ast
begin

text \<open>
  The parser (\<open>src/parse.c\<close>). A parsing function takes the parser state and returns a node
  and the new state, or the diagnostic that ended the compilation. Snapshots of the lexer
  are what they are in C: the old value.

  Loops carry the number of characters left to read as a bound, and the recursion through
  expressions, statements and types a depth computed from it; \<open>OutOfFuel\<close> is what exceeding
  one of them would give. The parser never gives it: every iteration and every level of
  nesting consumes a token.
\<close>

section \<open>Parser state\<close>

record parser =
  p_lx :: lexer
  p_arrows :: nat
  p_typarams :: "string list"

type_synonym 'a parse = "parser \<Rightarrow> ('a \<times> parser) cres"

abbreviation psize :: "parser \<Rightarrow> nat" where
  "psize p \<equiv> lx_size (p_lx p)"

definition ploc :: "parser \<Rightarrow> loc" where
  "ploc p = tloc (lx_tok (p_lx p))"

definition cur :: "parser \<Rightarrow> tok_kind" where
  "cur p = kind (lx_tok (p_lx p))"

definition fatal_here :: "parser \<Rightarrow> string \<Rightarrow> 'a cres" where
  "fatal_here p msg = Inl (FatalAt (ploc p) msg)"

definition advance :: "unit parse" where
  "advance p = bind_res (lex_next (p_lx p)) (\<lambda>lx. Inr ((), p\<lparr>p_lx := lx\<rparr>))"

definition accept :: "tok_kind \<Rightarrow> bool parse" where
  "accept k p = (if cur p = k then bind_res (advance p) (\<lambda>(_, p). Inr (True, p)) else Inr (False, p))"

definition expect :: "tok_kind \<Rightarrow> unit parse" where
  "expect k p =
     (if cur p \<noteq> k then fatal_here p (''expected '' @ tok_desc k @ '', got '' @ tok_desc (cur p)) else advance p)"

definition set_kind :: "tok_kind \<Rightarrow> parser \<Rightarrow> parser" where
  "set_kind k p = p\<lparr>p_lx := (p_lx p)\<lparr>lx_tok := (lx_tok (p_lx p))\<lparr>kind := k\<rparr>\<rparr>\<rparr>"

definition expect_gt :: "unit parse" where
  "expect_gt p =
     (if cur p = T_SHR then Inr ((), set_kind T_GT p)
      else if cur p = T_SHREQ then Inr ((), set_kind T_GE p)
      else expect T_GT p)"

definition expect_ident :: "string parse" where
  "expect_ident p =
     (if cur p \<noteq> T_IDENT
      then (case tok_keyword (cur p) of
              Some kw \<Rightarrow> fatal_here p (quoted kw @ '' is a keyword and cannot be used as a name'')
            | None \<Rightarrow> fatal_here p (''expected identifier, got '' @ tok_desc (cur p)))
      else bind_res (advance p) (\<lambda>(_, p'). Inr (ident (lx_tok (p_lx p)), p')))"

definition is_typaram :: "parser \<Rightarrow> string \<Rightarrow> bool" where
  "is_typaram p name \<longleftrightarrow> name \<in> set (p_typarams p)"

section \<open>Loops over lists of items\<close>

text \<open>\<open>while (cur(p) != close) { item; if (!accept(p, T_COMMA)) break; }\<close>\<close>

fun comma_list :: "nat \<Rightarrow> tok_kind \<Rightarrow> 'a parse \<Rightarrow> 'a list parse" where
  "comma_list 0 close item p = Inl OutOfFuel"
| "comma_list (Suc n) close item p =
     (if cur p = close then Inr ([], p)
      else bind_res (item p) (\<lambda>(x, p).
           bind_res (accept T_COMMA p) (\<lambda>(c, p).
           if c then bind_res (comma_list n close item p) (\<lambda>(xs, p). Inr (x # xs, p)) else Inr ([x], p))))"

text \<open>\<open>do { item; } while (accept(p, T_COMMA));\<close>\<close>

fun comma_list1 :: "nat \<Rightarrow> 'a parse \<Rightarrow> 'a list parse" where
  "comma_list1 0 item p = Inl OutOfFuel"
| "comma_list1 (Suc n) item p =
     bind_res (item p) (\<lambda>(x, p).
     bind_res (accept T_COMMA p) (\<lambda>(c, p).
     if c then bind_res (comma_list1 n item p) (\<lambda>(xs, p). Inr (x # xs, p)) else Inr ([x], p)))"

text \<open>\<open>while (cur(p) != close) item;\<close>\<close>

fun until_list :: "nat \<Rightarrow> tok_kind \<Rightarrow> 'a parse \<Rightarrow> 'a list parse" where
  "until_list 0 close item p = Inl OutOfFuel"
| "until_list (Suc n) close item p =
     (if cur p = close then Inr ([], p)
      else bind_res (item p) (\<lambda>(x, p).
           bind_res (until_list n close item p) (\<lambda>(xs, p). Inr (x # xs, p))))"

abbreviation bound :: "parser \<Rightarrow> nat" where
  "bound p \<equiv> Suc (psize p)"

section \<open>Type parameters\<close>

definition prim_names :: "string list" where
  "prim_names = [''int'', ''float'', ''bool'', ''byte'', ''string'', ''cstring'', ''rawptr'', ''void'',
     ''i8'', ''i16'', ''i32'', ''i64'', ''u8'', ''u16'', ''u32'', ''u64'', ''f32'', ''f64'', ''clong'', ''culong'']"

fun typarams_loop :: "nat \<Rightarrow> string list \<Rightarrow> string list parse" where
  "typarams_loop 0 names p = Inl OutOfFuel"
| "typarams_loop (Suc n) names p =
     (let nloc = ploc p
      in bind_res (expect_ident p) (\<lambda>(s, p).
         if cur p = T_COLON then fatal_here p ''type parameter bounds are not supported''
         else if s \<in> set prim_names
         then Inl (FatalAt nloc (''type parameter '' @ quoted s @ '' shadows a primitive type''))
         else if s \<in> set names then Inl (FatalAt nloc (''duplicate type parameter '' @ quoted s))
         else bind_res (accept T_COMMA p) (\<lambda>(c, p).
              if c then typarams_loop n (names @ [s]) p else Inr (names @ [s], p))))"

text \<open>The new list of type parameters is both returned and put in scope.\<close>

definition parse_typarams :: "string list parse" where
  "parse_typarams p =
     (if cur p \<noteq> T_LT then Inr ([], p\<lparr>p_typarams := []\<rparr>)
      else bind_res (advance p) (\<lambda>(_, p).
           if cur p = T_GT then fatal_here p (''empty type parameter list '' @ quoted ''<>'')
           else bind_res (typarams_loop (bound p) [] p) (\<lambda>(names, p).
                bind_res (expect_gt p) (\<lambda>(_, p). Inr (names, p\<lparr>p_typarams := names\<rparr>)))))"

definition parse_type_args :: "ty parse \<Rightarrow> ty list parse" where
  "parse_type_args pt p =
     bind_res (expect T_LT p) (\<lambda>(_, p).
     bind_res (comma_list1 (bound p) pt p) (\<lambda>(ts, p).
     bind_res (expect_gt p) (\<lambda>(_, p). Inr (ts, p))))"

section \<open>Types\<close>

definition loc0 :: loc where
  "loc0 = \<lparr>l_file = None, l_line = 0, l_col = 0\<rparr>"

definition type_new :: "type_kind \<Rightarrow> loc \<Rightarrow> ty" where
  "type_new k l = Type k False False False None None [] None l None None None"

definition prims :: "(string \<times> type_kind) list" where
  "prims = [(''int'', TY_INT), (''float'', TY_FLOAT), (''bool'', TY_BOOL), (''byte'', TY_BYTE),
     (''string'', TY_STRING), (''cstring'', TY_CSTRING), (''rawptr'', TY_RAWPTR),
     (''void'', TY_VOID),
     (''i8'', TY_I8), (''i16'', TY_I16), (''i32'', TY_I32), (''i64'', TY_I64),
     (''u8'', TY_U8), (''u16'', TY_U16), (''u32'', TY_U32), (''u64'', TY_U64),
     (''f32'', TY_F32), (''f64'', TY_F64),
     (''clong'', TY_CLONG), (''culong'', TY_CULONG)]"

fun ty_set_weak :: "ty \<Rightarrow> ty" where
  "ty_set_weak (Type k w n fw e r ps nm l sd cd ed) = Type k True n fw e r ps nm l sd cd ed"

fun ty_set_nullable :: "ty \<Rightarrow> ty" where
  "ty_set_nullable (Type k w n fw e r ps nm l sd cd ed) = Type k w True fw e r ps nm l sd cd ed"

definition optional_type :: "ty parse \<Rightarrow> ty parse" where
  "optional_type pt p =
     bind_res (accept T_COLON p) (\<lambda>(c, p). if c then pt p else Inr (type_new TY_VOID loc0, p))"

definition map_type :: "ty parse \<Rightarrow> loc \<Rightarrow> ty parse" where
  "map_type pt l p =
     bind_res (expect T_LT p) (\<lambda>(_, p).
     bind_res (pt p) (\<lambda>(kt, p).
     if \<not> (ty_kind kt = TY_NAMED \<and> ty_name kt = Some ''string'') \<and> ty_kind kt \<noteq> TY_STRING
     then Inl (FatalAt l (''map keys must be '' @ quoted ''string'' @ '' in v0.1''))
     else bind_res (expect T_COMMA p) (\<lambda>(_, p).
          bind_res (pt p) (\<lambda>(vt, p).
          bind_res (expect_gt p) (\<lambda>(_, p). Inr (Type TY_MAP False False False (Some vt) None [] None l None None None, p))))))"

definition fn_type :: "ty parse \<Rightarrow> loc \<Rightarrow> ty parse" where
  "fn_type pt l p =
     bind_res (expect T_LPAREN p) (\<lambda>(_, p).
     bind_res (comma_list (bound p) T_RPAREN pt p) (\<lambda>(params, p).
     bind_res (expect T_RPAREN p) (\<lambda>(_, p).
     bind_res (optional_type pt p) (\<lambda>(ret, p). Inr (Type TY_FN False False False None (Some ret) params None l None None None, p)))))"

definition named_type :: "ty parse \<Rightarrow> loc \<Rightarrow> ty parse" where
  "named_type pt l p =
     bind_res (expect_ident p) (\<lambda>(name, p).
     case map_of prims name of
       Some k \<Rightarrow> Inr (type_new k l, p)
     | None \<Rightarrow>
         if is_typaram p name then Inr (Type TY_TYPARAM False False False None None [] (Some name) l None None None, p)
         else if cur p = T_LT
         then bind_res (parse_type_args pt p) (\<lambda>(ts, p). Inr (Type TY_NAMED False False False None None ts (Some name) l None None None, p))
         else Inr (Type TY_NAMED False False False None None [] (Some name) l None None None, p))"

text \<open>\<open>weak\<close> recurs on the base type itself; the first number bounds this.\<close>

fun parse_base_type :: "nat \<Rightarrow> ty parse \<Rightarrow> ty parse" where
  "parse_base_type 0 pt p = Inl OutOfFuel"
| "parse_base_type (Suc n) pt p =
     (let l = ploc p
      in bind_res (accept T_WEAK p) (\<lambda>(w, p).
         if w then bind_res (parse_base_type n pt p) (\<lambda>(t, p). Inr (ty_set_weak t, p))
         else bind_res (accept T_MAP p) (\<lambda>(m, p).
         if m then map_type pt l p
         else bind_res (accept T_FN p) (\<lambda>(f, p).
         if f then fn_type pt l p
         else named_type pt l p))))"

definition redundant_weak :: string where
  "redundant_weak = quoted ''weak T?'' @ '' is redundant '' @ [CHR 0xE2, CHR 0x80, CHR 0x94] @
     '' a weak reference is already nullable; write '' @ quoted ''weak T''"

definition accept_question :: "ty \<Rightarrow> ty parse" where
  "accept_question t p =
     (if cur p \<noteq> T_QUESTION then Inr (t, p)
      else if ty_weak t then fatal_here p redundant_weak
      else bind_res (advance p) (\<lambda>(_, p). Inr (ty_set_nullable t, p)))"

text \<open>\<open>lex_peek\<close> is called only on an opening bracket; it fills the lookahead buffer.\<close>

definition peek_kind :: "tok_kind parse" where
  "peek_kind p = bind_res (lex_peek (p_lx p)) (\<lambda>(t, lx). Inr (kind t, p\<lparr>p_lx := lx\<rparr>))"

fun array_suffix :: "nat \<Rightarrow> ty \<Rightarrow> ty parse" where
  "array_suffix 0 t p = Inl OutOfFuel"
| "array_suffix (Suc n) t p =
     (if cur p \<noteq> T_LBRACKET then Inr (t, p)
      else bind_res (peek_kind p) (\<lambda>(k, p).
           if k \<noteq> T_RBRACKET then Inr (t, p)
           else bind_res (advance p) (\<lambda>(_, p).
                bind_res (advance p) (\<lambda>(_, p).
                bind_res (accept_question (Type TY_ARRAY False False False (Some t) None [] None (ty_loc t) None None None) p) (\<lambda>(t, p).
                array_suffix n t p)))))"

fun parse_type_n :: "nat \<Rightarrow> ty parse" where
  "parse_type_n 0 p = Inl OutOfFuel"
| "parse_type_n (Suc n) p =
     bind_res (parse_base_type (bound p) (parse_type_n n) p) (\<lambda>(t, p).
     bind_res (accept_question t p) (\<lambda>(t, p).
     array_suffix (bound p) t p))"

definition parse_type :: "ty parse" where
  "parse_type p = parse_type_n (bound p) p"

section \<open>Speculation\<close>

text \<open>The tests that look ahead on a copy of the lexer: only their answer is kept, except
  that a lexical error in the text they read is fatal.\<close>

definition at_arg_label :: "parser \<Rightarrow> bool cres" where
  "at_arg_label p =
     (if cur p \<noteq> T_IDENT then Inr False
      else bind_res (advance p) (\<lambda>(_, p). Inr (cur p = T_COLON)))"

fun arrow_scan :: "nat \<Rightarrow> parser \<Rightarrow> bool cres" where
  "arrow_scan 0 p = Inl OutOfFuel"
| "arrow_scan (Suc n) p =
     (if cur p \<noteq> T_IDENT then Inr False
      else bind_res (advance p) (\<lambda>(_, p).
           bind_res (accept T_COMMA p) (\<lambda>(c, p).
           if c then arrow_scan n p
           else if cur p = T_RPAREN then bind_res (advance p) (\<lambda>(_, p). Inr (cur p = T_ARROW))
           else Inr False)))"

definition looks_like_arrow :: "parser \<Rightarrow> bool cres" where
  "looks_like_arrow p =
     (if cur p \<noteq> T_LPAREN then Inr False
      else bind_res (advance p) (\<lambda>(_, p).
           if cur p = T_RPAREN then bind_res (advance p) (\<lambda>(_, p). Inr (cur p = T_ARROW))
           else arrow_scan (bound p) p))"

definition in_type_args :: "tok_kind \<Rightarrow> bool" where
  "in_type_args k \<longleftrightarrow> k \<in> {T_IDENT, T_COMMA, T_LBRACKET, T_RBRACKET, T_MAP, T_FN, T_WEAK, T_COLON, T_QUESTION, T_LPAREN, T_RPAREN}"

text \<open>The loop has its own guard of 4096 tokens; running out of it answers no.\<close>

fun type_args_scan :: "nat \<Rightarrow> int \<Rightarrow> parser \<Rightarrow> bool cres" where
  "type_args_scan 0 angle p = Inr False"
| "type_args_scan (Suc guard) angle p =
     (let k = cur p;
          step = (\<lambda>angle. bind_res (advance p) (\<lambda>(_, p).
                    if angle \<le> 0 then Inr (angle = 0 \<and> cur p = T_LPAREN) else type_args_scan guard angle p))
      in if k = T_EOF then Inr False
         else if k = T_LT then step (angle + 1)
         else if k = T_GT then step (angle - 1)
         else if k = T_SHR \<or> k = T_SHREQ then step (angle - 2)
         else if in_type_args k then step angle
         else Inr False)"

definition looks_like_type_args :: "parser \<Rightarrow> bool cres" where
  "looks_like_type_args p =
     (if cur p \<noteq> T_LT then Inr False
      else bind_res (advance p) (\<lambda>(_, p). type_args_scan 4096 1 p))"

section \<open>Expressions\<close>

text \<open>\<open>pe\<close> parses an expression and \<open>pb\<close> a block: the recursive calls.\<close>

definition parse_arg :: "expr parse \<Rightarrow> (string option \<times> expr) parse" where
  "parse_arg pe p =
     bind_res (at_arg_label p) (\<lambda>l.
     if l then bind_res (advance p) (\<lambda>(_, p1).
               bind_res (advance p1) (\<lambda>(_, p2).
               bind_res (pe p2) (\<lambda>(e, p3). Inr ((Some (ident (lx_tok (p_lx p))), e), p3))))
     else bind_res (pe p) (\<lambda>(e, p). Inr ((None, e), p)))"

definition parse_args_named :: "expr parse \<Rightarrow> (expr list \<times> string option list option) parse" where
  "parse_args_named pe p =
     bind_res (expect T_LPAREN p) (\<lambda>(_, p).
     bind_res (comma_list (bound p) T_RPAREN (parse_arg pe) p) (\<lambda>(args, p).
     bind_res (expect T_RPAREN p) (\<lambda>(_, p).
     Inr ((map snd args, if \<exists>a\<in>set args. fst a \<noteq> None then Some (map fst args) else None), p))))"

definition parse_args :: "expr parse \<Rightarrow> expr list parse" where
  "parse_args pe p = bind_res (parse_args_named pe p) (\<lambda>((args, _), p). Inr (args, p))"

definition arrow_param :: "param parse" where
  "arrow_param p = bind_res (expect_ident p) (\<lambda>(name, p'). Inr (Param name None (ploc p) None, p'))"

definition fn_head0 :: "loc \<Rightarrow> fn_head" where
  "fn_head0 l = \<lparr>fd_name = None, fd_loc = l, is_virtual = False, is_override = False, is_extern = False,
     is_builder = False, is_static = False, fd_owner = None, fd_sowner = None, vslot = - 1, arrow_id = 0, fd_typarams = []\<rparr>"

definition parse_arrow :: "expr parse \<Rightarrow> stmt list parse \<Rightarrow> expr parse" where
  "parse_arrow pe pb p =
     (let l = ploc p; h = (fn_head0 l)\<lparr>arrow_id := p_arrows p + 1\<rparr>; p = p\<lparr>p_arrows := p_arrows p + 1\<rparr>
      in bind_res (expect T_LPAREN p) (\<lambda>(_, p).
         bind_res (comma_list (bound p) T_RPAREN arrow_param p) (\<lambda>(params, p).
         bind_res (expect T_RPAREN p) (\<lambda>(_, p).
         bind_res (expect T_ARROW p) (\<lambda>(_, p).
         if cur p = T_LBRACE
         then bind_res (pb p) (\<lambda>(body, p). Inr (EX_ARROW l (FnDecl h params None body), p))
         else bind_res (pe p) (\<lambda>(e, p'). Inr (EX_ARROW l (FnDecl h params None [ST_RETURN (ploc p) (Some e)]), p')))))))"

fun tstr_parts :: "nat \<Rightarrow> expr parse \<Rightarrow> expr list parse" where
  "tstr_parts 0 pe p = Inl OutOfFuel"
| "tstr_parts (Suc n) pe p =
     (let chunk = EX_STR (ploc p) (sval (lx_tok (p_lx p))); final = (cur p = T_TSTR_END)
      in bind_res (advance p) (\<lambda>(_, p).
         if final then Inr ([chunk], p)
         else bind_res (pe p) (\<lambda>(e, p).
              if cur p \<noteq> T_TSTR_MID \<and> cur p \<noteq> T_TSTR_END
              then fatal_here p (''expected '' @ quoted [CHR 0x7D] @ '' to close the template hole, got '' @ tok_desc (cur p))
              else bind_res (tstr_parts n pe p) (\<lambda>(es, p). Inr (chunk # e # es, p)))))"

definition primary_super :: "expr parse \<Rightarrow> expr parse" where
  "primary_super pe p =
     (let l = ploc p
      in bind_res (advance p) (\<lambda>(_, p).
         bind_res (expect T_DOT p) (\<lambda>(_, p).
         bind_res (accept T_INIT p) (\<lambda>(i, p).
         bind_res (if i then Inr (''init'', p) else expect_ident p) (\<lambda>(name, p).
         bind_res (parse_args_named pe p) (\<lambda>((args, names), p).
         Inr (EX_CALL l None (Some name) True [] args names, p)))))))"

definition primary_new :: "expr parse \<Rightarrow> expr parse" where
  "primary_new pe p =
     (let l = ploc p
      in bind_res (advance p) (\<lambda>(_, p).
         bind_res (accept T_AT p) (\<lambda>(a, p).
         bind_res (if a then bind_res (expect_ident p) (\<lambda>(r, p). Inr (Some r, p)) else Inr (None, p)) (\<lambda>(region, p).
         if cur p = T_MAP
         then bind_res (parse_type p) (\<lambda>(t, p).
              bind_res (parse_args pe p) (\<lambda>(args, p).
              if length args \<noteq> 0 then Inl (FatalAt l ''new Map takes no arguments'')
              else Inr (EX_NEW l region (Some t) None [] [] None, p)))
         else bind_res (expect_ident p) (\<lambda>(name, p).
              bind_res (if cur p = T_LT then parse_type_args parse_type p else Inr ([], p)) (\<lambda>(ts, p).
              bind_res (parse_args_named pe p) (\<lambda>((args, names), p).
              Inr (EX_NEW l region None (Some name) ts args names, p))))))))"

definition primary_array :: "expr parse \<Rightarrow> expr parse" where
  "primary_array pe p =
     (let l = ploc p
      in bind_res (advance p) (\<lambda>(_, p).
         bind_res (comma_list (bound p) T_RBRACKET pe p) (\<lambda>(es, p).
         bind_res (expect T_RBRACKET p) (\<lambda>(_, p). Inr (EX_ARRAYLIT l es, p)))))"

definition primary_paren :: "expr parse \<Rightarrow> stmt list parse \<Rightarrow> expr parse" where
  "primary_paren pe pb p =
     bind_res (looks_like_arrow p) (\<lambda>a.
     if a then parse_arrow pe pb p
     else bind_res (advance p) (\<lambda>(_, p).
          bind_res (pe p) (\<lambda>(e, p).
          bind_res (expect T_RPAREN p) (\<lambda>(_, p). Inr (e, p)))))"

definition literal :: "expr \<Rightarrow> expr parse" where
  "literal e p = bind_res (advance p) (\<lambda>(_, p). Inr (e, p))"

definition parse_primary :: "expr parse \<Rightarrow> stmt list parse \<Rightarrow> expr parse" where
  "parse_primary pe pb p =
     (let k = cur p; l = ploc p; tok = lx_tok (p_lx p)
      in if k = T_INT then literal (EX_INT l (ival tok)) p
         else if k = T_FLOAT then literal (EX_FLOAT l (fval tok)) p
         else if k = T_STRING \<or> k = T_TSTR_WHOLE then literal (EX_STR l (sval tok)) p
         else if k = T_TSTR_START then bind_res (tstr_parts (bound p) pe p) (\<lambda>(es, p). Inr (EX_TSTR l es, p))
         else if k = T_TRUE \<or> k = T_FALSE then literal (EX_BOOL l (k = T_TRUE)) p
         else if k = T_NULL then literal (EX_NULL l) p
         else if k = T_THIS then literal (EX_THIS l) p
         else if k = T_SUPER then primary_super pe p
         else if k = T_NEW then primary_new pe p
         else if k = T_IDENT then literal (EX_IDENT l (ident tok)) p
         else if k = T_LBRACKET then primary_array pe p
         else if k = T_LPAREN then primary_paren pe pb p
         else fatal_here p (''expected expression, got '' @ tok_desc k))"

fun is_ident_expr :: "expr \<Rightarrow> bool" where
  "is_ident_expr (EX_IDENT _ _) = True"
| "is_ident_expr _ = False"

definition generic_call :: "expr \<Rightarrow> parser \<Rightarrow> bool cres" where
  "generic_call e p = (if is_ident_expr e \<and> cur p = T_LT then looks_like_type_args p else Inr False)"

fun postfix_loop :: "nat \<Rightarrow> expr parse \<Rightarrow> expr \<Rightarrow> expr parse" where
  "postfix_loop 0 pe e p = Inl OutOfFuel"
| "postfix_loop (Suc n) pe e p =
     bind_res (generic_call e p) (\<lambda>g.
     if g
     then bind_res (parse_type_args parse_type p) (\<lambda>(ts, p1).
          bind_res (parse_args_named pe p1) (\<lambda>((args, names), p1).
          postfix_loop n pe (EX_CALL (ploc p) (Some e) None False ts args names) p1))
     else if cur p = T_LPAREN
     then bind_res (parse_args_named pe p) (\<lambda>((args, names), p1).
          postfix_loop n pe (EX_CALL (ploc p) (Some e) None False [] args names) p1)
     else if cur p = T_LBRACKET
     then bind_res (advance p) (\<lambda>(_, p).
          bind_res (pe p) (\<lambda>(i, p1).
          bind_res (expect T_RBRACKET p1) (\<lambda>(_, p1).
          postfix_loop n pe (EX_INDEX (ploc p) e i) p1)))
     else if cur p = T_DOT
     then bind_res (advance p) (\<lambda>(_, p).
          bind_res (if cur p = T_INIT then bind_res (advance p) (\<lambda>(_, p). Inr (''init'', p)) else expect_ident p) (\<lambda>(name, p1).
          postfix_loop n pe (EX_MEMBER (ploc p) e name) p1))
     else Inr (e, p))"

definition parse_postfix :: "expr parse \<Rightarrow> stmt list parse \<Rightarrow> expr parse" where
  "parse_postfix pe pb p = bind_res (parse_primary pe pb p) (\<lambda>(e, p). postfix_loop (bound p) pe e p)"

definition is_unary_op :: "tok_kind \<Rightarrow> bool" where
  "is_unary_op k \<longleftrightarrow> k = T_NOT \<or> k = T_MINUS \<or> k = T_TILDE \<or> k = T_AMP"

fun parse_unary :: "nat \<Rightarrow> expr parse \<Rightarrow> stmt list parse \<Rightarrow> expr parse" where
  "parse_unary 0 pe pb p = Inl OutOfFuel"
| "parse_unary (Suc n) pe pb p =
     (if is_unary_op (cur p)
      then bind_res (advance p) (\<lambda>(_, p1).
           bind_res (parse_unary n pe pb p1) (\<lambda>(e, p1). Inr (EX_UN (ploc p) (cur p) e, p1)))
      else parse_postfix pe pb p)"

fun as_loop :: "nat \<Rightarrow> expr \<Rightarrow> expr parse" where
  "as_loop 0 e p = Inl OutOfFuel"
| "as_loop (Suc n) e p =
     (if cur p = T_AS
      then bind_res (advance p) (\<lambda>(_, p1).
           bind_res (parse_type p1) (\<lambda>(t, p1). as_loop n (EX_AS (ploc p) e t) p1))
      else Inr (e, p))"

definition parse_as :: "expr parse \<Rightarrow> stmt list parse \<Rightarrow> expr parse" where
  "parse_as pe pb p = bind_res (parse_unary (bound p) pe pb p) (\<lambda>(e, p). as_loop (bound p) e p)"

definition bin_prec :: "tok_kind \<Rightarrow> nat" where
  "bin_prec k =
     (if k \<in> {T_STAR, T_SLASH, T_PERCENT, T_SHL, T_SHR, T_AMP} then 6
      else if k \<in> {T_PLUS, T_MINUS, T_PIPE, T_CARET} then 5
      else if k \<in> {T_LT, T_LE, T_GT, T_GE} then 4
      else if k \<in> {T_EQ, T_NEQ} then 3
      else if k = T_ANDAND then 2
      else if k = T_OROR then 1
      else 0)"

text \<open>\<open>pa\<close> parses an operand (\<open>parse_as\<close>). The number bounds the loop and, since an operator is
  consumed before the right operand, the recursion.\<close>

fun parse_bin :: "nat \<Rightarrow> expr parse \<Rightarrow> nat \<Rightarrow> expr parse"
  and bin_loop :: "nat \<Rightarrow> expr parse \<Rightarrow> nat \<Rightarrow> expr \<Rightarrow> expr parse" where
  "parse_bin 0 pa min_prec p = Inl OutOfFuel"
| "parse_bin (Suc n) pa min_prec p = bind_res (pa p) (\<lambda>(lhs, p). bin_loop n pa min_prec lhs p)"
| "bin_loop 0 pa min_prec lhs p = Inl OutOfFuel"
| "bin_loop (Suc n) pa min_prec lhs p =
     (let prec = bin_prec (cur p)
      in if prec < min_prec \<or> prec = 0 then Inr (lhs, p)
         else bind_res (advance p) (\<lambda>(_, p1).
              bind_res (parse_bin n pa (prec + 1) p1) (\<lambda>(rhs, p1).
              bin_loop n pa min_prec (EX_BIN (ploc p) (cur p) lhs rhs) p1)))"

definition is_assign_op :: "tok_kind \<Rightarrow> bool" where
  "is_assign_op k \<longleftrightarrow> k \<in> {T_ASSIGN, T_PLUSEQ, T_MINUSEQ, T_STAREQ, T_SLASHEQ, T_PERCENTEQ, T_AMPEQ, T_PIPEEQ,
     T_CARETEQ, T_SHLEQ, T_SHREQ}"

definition expr_body :: "expr parse \<Rightarrow> stmt list parse \<Rightarrow> expr parse" where
  "expr_body pe pb p =
     bind_res (parse_bin (2 * bound p) (parse_as pe pb) 1 p) (\<lambda>(lhs, p).
     if is_assign_op (cur p)
     then bind_res (advance p) (\<lambda>(_, p1).
          bind_res (pe p1) (\<lambda>(rhs, p1). Inr (EX_ASSIGN (ploc p) (cur p) lhs rhs, p1)))
     else Inr (lhs, p))"

section \<open>Statements\<close>

text \<open>\<open>ps\<close> parses a statement.\<close>

definition block_body :: "stmt parse \<Rightarrow> stmt list parse" where
  "block_body ps p =
     bind_res (expect T_LBRACE p) (\<lambda>(_, p).
     bind_res (until_list (bound p) T_RBRACE ps p) (\<lambda>(ss, p).
     bind_res (expect T_RBRACE p) (\<lambda>(_, p). Inr (ss, p))))"

definition stmt_let :: "expr parse \<Rightarrow> stmt parse" where
  "stmt_let pe p =
     (let l = ploc p
      in bind_res (advance p) (\<lambda>(_, p).
         bind_res (expect_ident p) (\<lambda>(name, p).
         bind_res (accept T_COLON p) (\<lambda>(c, p).
         bind_res (if c then bind_res (parse_type p) (\<lambda>(t, p). Inr (Some t, p)) else Inr (None, p)) (\<lambda>(t, p).
         bind_res (expect T_ASSIGN p) (\<lambda>(_, p).
         bind_res (pe p) (\<lambda>(e, p).
         bind_res (expect T_SEMI p) (\<lambda>(_, p). Inr (ST_LET l name t e, p)))))))))"

definition paren_expr :: "expr parse \<Rightarrow> expr parse" where
  "paren_expr pe p =
     bind_res (expect T_LPAREN p) (\<lambda>(_, p).
     bind_res (pe p) (\<lambda>(e, p).
     bind_res (expect T_RPAREN p) (\<lambda>(_, p). Inr (e, p))))"

definition stacked_label :: string where
  "stacked_label = ''a switch arm needs a body; write '' @ quoted ''case a, b:'' @ '' to share one (there is no fallthrough)''"

definition arm_values :: "expr parse \<Rightarrow> (bool \<times> expr list) parse" where
  "arm_values pe p =
     bind_res (accept T_DEFAULT p) (\<lambda>(d, p).
     if d then Inr ((True, []), p)
     else bind_res (expect T_CASE p) (\<lambda>(_, p).
          bind_res (comma_list1 (bound p) pe p) (\<lambda>(vals, p). Inr ((False, vals), p))))"

definition switch_arm :: "expr parse \<Rightarrow> stmt parse \<Rightarrow> switch_arm parse" where
  "switch_arm pe ps p =
     (let l = ploc p
      in bind_res (arm_values pe p) (\<lambda>((d, vals), p).
         bind_res (expect T_COLON p) (\<lambda>(_, p).
         if cur p = T_CASE \<or> cur p = T_DEFAULT then fatal_here p stacked_label
         else bind_res (block_body ps p) (\<lambda>(body, p). Inr (SwitchArm l d vals body, p)))))"

definition stmt_switch :: "expr parse \<Rightarrow> stmt parse \<Rightarrow> stmt parse" where
  "stmt_switch pe ps p =
     (let l = ploc p
      in bind_res (advance p) (\<lambda>(_, p).
         bind_res (paren_expr pe p) (\<lambda>(e, p).
         bind_res (expect T_LBRACE p) (\<lambda>(_, p).
         bind_res (until_list (bound p) T_RBRACE (switch_arm pe ps) p) (\<lambda>(arms, p).
         bind_res (expect T_RBRACE p) (\<lambda>(_, p). Inr (ST_SWITCH l e arms, p)))))))"

definition stmt_if :: "expr parse \<Rightarrow> stmt parse \<Rightarrow> stmt parse" where
  "stmt_if pe ps p =
     (let l = ploc p
      in bind_res (advance p) (\<lambda>(_, p).
         bind_res (paren_expr pe p) (\<lambda>(e, p).
         bind_res (block_body ps p) (\<lambda>(body, p).
         bind_res (accept T_ELSE p) (\<lambda>(c, p).
         if \<not> c then Inr (ST_IF l e body [], p)
         else if cur p = T_IF then bind_res (ps p) (\<lambda>(s, p). Inr (ST_IF l e body [s], p))
         else bind_res (block_body ps p) (\<lambda>(els, p). Inr (ST_IF l e body els, p)))))))"

definition stmt_while :: "expr parse \<Rightarrow> stmt parse \<Rightarrow> stmt parse" where
  "stmt_while pe ps p =
     (let l = ploc p
      in bind_res (advance p) (\<lambda>(_, p).
         bind_res (paren_expr pe p) (\<lambda>(e, p).
         bind_res (block_body ps p) (\<lambda>(body, p). Inr (ST_WHILE l e body, p)))))"

definition stmt_for :: "expr parse \<Rightarrow> stmt parse \<Rightarrow> stmt parse" where
  "stmt_for pe ps p =
     (let l = ploc p
      in bind_res (advance p) (\<lambda>(_, p).
         bind_res (expect T_LPAREN p) (\<lambda>(_, p).
         bind_res (expect T_LET p) (\<lambda>(_, p).
         bind_res (expect_ident p) (\<lambda>(name, p).
         bind_res (expect T_IN p) (\<lambda>(_, p).
         bind_res (pe p) (\<lambda>(first, p).
         bind_res (accept T_DOTDOT p) (\<lambda>(c, p).
         bind_res (if c then bind_res (pe p) (\<lambda>(hi, p). Inr (Some hi, p)) else Inr (None, p)) (\<lambda>(hi, p).
         bind_res (expect T_RPAREN p) (\<lambda>(_, p).
         bind_res (block_body ps p) (\<lambda>(body, p).
         Inr (case hi of Some h \<Rightarrow> ST_FOR_RANGE l name first h body | None \<Rightarrow> ST_FOR_EACH l name first body, p))))))))))))"

definition stmt_return :: "expr parse \<Rightarrow> stmt parse" where
  "stmt_return pe p =
     (let l = ploc p
      in bind_res (advance p) (\<lambda>(_, p).
         bind_res (if cur p \<noteq> T_SEMI then bind_res (pe p) (\<lambda>(e, p). Inr (Some e, p)) else Inr (None, p)) (\<lambda>(e, p).
         bind_res (expect T_SEMI p) (\<lambda>(_, p). Inr (ST_RETURN l e, p)))))"

definition stmt_jump :: "(loc \<Rightarrow> stmt) \<Rightarrow> stmt parse" where
  "stmt_jump s p =
     bind_res (advance p) (\<lambda>(_, p1).
     bind_res (expect T_SEMI p1) (\<lambda>(_, p1). Inr (s (ploc p), p1)))"

definition stmt_arena :: "stmt parse \<Rightarrow> stmt parse" where
  "stmt_arena ps p =
     (let l = ploc p
      in bind_res (advance p) (\<lambda>(_, p).
         bind_res (if cur p = T_IDENT then bind_res (expect_ident p) (\<lambda>(n, p). Inr (Some n, p)) else Inr (None, p)) (\<lambda>(name, p).
         bind_res (block_body ps p) (\<lambda>(body, p). Inr (ST_ARENA l name body, p)))))"

definition stmt_expr :: "expr parse \<Rightarrow> stmt parse" where
  "stmt_expr pe p =
     bind_res (pe p) (\<lambda>(e, p1).
     bind_res (expect T_SEMI p1) (\<lambda>(_, p1). Inr (ST_EXPR (ploc p) e, p1)))"

definition stmt_body :: "expr parse \<Rightarrow> stmt parse \<Rightarrow> stmt parse" where
  "stmt_body pe ps p =
     (let k = cur p
      in if k = T_LET then stmt_let pe p
         else if k = T_SWITCH then stmt_switch pe ps p
         else if k = T_IF then stmt_if pe ps p
         else if k = T_WHILE then stmt_while pe ps p
         else if k = T_FOR then stmt_for pe ps p
         else if k = T_RETURN then stmt_return pe p
         else if k = T_BREAK then stmt_jump ST_BREAK p
         else if k = T_CONTINUE then stmt_jump ST_CONTINUE p
         else if k = T_LBRACE then bind_res (block_body ps p) (\<lambda>(body, p1). Inr (ST_BLOCK (ploc p) body, p1))
         else if k = T_ARENA then stmt_arena ps p
         else stmt_expr pe p)"

text \<open>The recursion of expressions and statements, to a depth.\<close>

fun parse_expr_n :: "nat \<Rightarrow> expr parse" and parse_stmt_n :: "nat \<Rightarrow> stmt parse" where
  "parse_expr_n 0 p = Inl OutOfFuel"
| "parse_expr_n (Suc n) p = expr_body (parse_expr_n n) (block_body (parse_stmt_n n)) p"
| "parse_stmt_n 0 p = Inl OutOfFuel"
| "parse_stmt_n (Suc n) p = stmt_body (parse_expr_n n) (parse_stmt_n n) p"

definition parse_expr :: "expr parse" where
  "parse_expr p = parse_expr_n (2 * bound p) p"

definition parse_stmt :: "stmt parse" where
  "parse_stmt p = parse_stmt_n (2 * bound p) p"

definition parse_block :: "stmt list parse" where
  "parse_block p = block_body parse_stmt p"

section \<open>Declarations\<close>

definition parse_param :: "bool \<Rightarrow> param parse" where
  "parse_param seen_default p =
     (let l = ploc p
      in bind_res (expect_ident p) (\<lambda>(name, p).
         bind_res (expect T_COLON p) (\<lambda>(_, p).
         bind_res (parse_type p) (\<lambda>(t, p).
         bind_res (accept T_ASSIGN p) (\<lambda>(d, p).
         if d then bind_res (parse_expr p) (\<lambda>(e, p). Inr (Param name (Some t) l (Some e), p))
         else if seen_default
         then Inl (FatalAt l (''non-default parameter '' @ quoted name @ '' follows a default parameter''))
         else Inr (Param name (Some t) l None, p))))))"

fun param_default :: "param \<Rightarrow> expr option" where
  "param_default (Param n t l d) = d"

fun param_loc :: "param \<Rightarrow> loc" where
  "param_loc (Param n t l d) = l"

fun params_loop :: "nat \<Rightarrow> bool \<Rightarrow> param list parse" where
  "params_loop 0 seen p = Inl OutOfFuel"
| "params_loop (Suc n) seen p =
     (if cur p = T_RPAREN then Inr ([], p)
      else bind_res (parse_param seen p) (\<lambda>(x, p).
           bind_res (accept T_COMMA p) (\<lambda>(c, p).
           if c then bind_res (params_loop n (seen \<or> param_default x \<noteq> None) p) (\<lambda>(xs, p). Inr (x # xs, p))
           else Inr ([x], p))))"

definition parse_params :: "param list parse" where
  "parse_params p =
     bind_res (expect T_LPAREN p) (\<lambda>(_, p).
     bind_res (params_loop (bound p) False p) (\<lambda>(ps, p).
     bind_res (expect T_RPAREN p) (\<lambda>(_, p). Inr (ps, p))))"

text \<open>The first parameter with a default, at which an extern function is rejected.\<close>

fun first_default :: "param list \<Rightarrow> loc option" where
  "first_default [] = None"
| "first_default (x # xs) = (if param_default x \<noteq> None then Some (param_loc x) else first_default xs)"

definition fn_rest :: "bool \<Rightarrow> fn_head \<Rightarrow> fn_decl parse" where
  "fn_rest ext h p =
     bind_res (parse_params p) (\<lambda>(params, p).
     bind_res (optional_type parse_type p) (\<lambda>(ret, p).
     if ext
     then (case first_default params of
             Some l \<Rightarrow> Inl (FatalAt l ''extern functions cannot have default arguments'')
           | None \<Rightarrow> bind_res (expect T_SEMI p) (\<lambda>(_, p). Inr (FnDecl (h\<lparr>is_extern := True\<rparr>) params (Some ret) [], p)))
     else bind_res (parse_block p) (\<lambda>(body, p). Inr (FnDecl h params (Some ret) body, p))))"

definition parse_fn :: "bool \<Rightarrow> fn_decl parse" where
  "parse_fn ext p =
     (let l = ploc p; save = p_typarams p
      in bind_res (expect T_FN p) (\<lambda>(_, p).
         bind_res (expect_ident p) (\<lambda>(name, p).
         bind_res (parse_typarams p) (\<lambda>(tps, p).
         if ext \<and> tps \<noteq> [] then Inl (FatalAt l ''extern functions cannot be generic'')
         else bind_res (fn_rest ext ((fn_head0 l)\<lparr>fd_name := Some name, fd_typarams := tps\<rparr>) p) (\<lambda>(fd, p).
              Inr (fd, p\<lparr>p_typarams := save\<rparr>))))))"

definition parse_variant :: "enum_variant parse" where
  "parse_variant p =
     (let l = ploc p
      in bind_res (expect_ident p) (\<lambda>(name, p).
         bind_res (accept T_ASSIGN p) (\<lambda>(c, p).
         if c then bind_res (parse_expr p) (\<lambda>(e, p). Inr (\<lparr>v_name = name, v_init = Some e, v_loc = l\<rparr>, p))
         else Inr (\<lparr>v_name = name, v_init = None, v_loc = l\<rparr>, p))))"

definition parse_enum :: "enum_decl parse" where
  "parse_enum p =
     (let l = ploc p
      in bind_res (expect T_ENUM p) (\<lambda>(_, p).
         bind_res (expect_ident p) (\<lambda>(name, p).
         bind_res (expect T_LBRACE p) (\<lambda>(_, p).
         bind_res (comma_list (bound p) T_RBRACE parse_variant p) (\<lambda>(vars, p).
         bind_res (expect T_RBRACE p) (\<lambda>(_, p).
         if length vars = 0 then Inl (FatalAt l (''enum '' @ quoted name @ '' has no variants''))
         else Inr (\<lparr>ed_name = name, ed_loc = l, ed_variants = vars\<rparr>, p)))))))"

definition parse_field :: "field parse" where
  "parse_field p =
     (let l = ploc p
      in bind_res (expect_ident p) (\<lambda>(name, p).
         bind_res (expect T_COLON p) (\<lambda>(_, p).
         bind_res (parse_type p) (\<lambda>(t, p).
         bind_res (expect T_SEMI p) (\<lambda>(_, p). Inr (\<lparr>f_name = name, f_type = t, f_loc = l\<rparr>, p))))))"

text \<open>\<open>while (cur(p) != close)\<close> over a declaration that is filled in as its members are read.\<close>

fun fill_until :: "nat \<Rightarrow> tok_kind \<Rightarrow> ('a \<Rightarrow> 'a parse) \<Rightarrow> 'a \<Rightarrow> 'a parse" where
  "fill_until 0 close item a p = Inl OutOfFuel"
| "fill_until (Suc n) close item a p =
     (if cur p = close then Inr (a, p)
      else bind_res (item a p) (\<lambda>(a, p). fill_until n close item a p))"

definition struct_method :: "string \<Rightarrow> fn_decl parse" where
  "struct_method owner p =
     (let h = (fn_head0 (ploc p))\<lparr>fd_sowner := Some owner\<rparr>
      in bind_res (advance p) (\<lambda>(_, p).
         if cur p = T_INIT then fatal_here p ''structs have no init; construct with S(...)''
         else bind_res (expect_ident p) (\<lambda>(name, p). fn_rest False (h\<lparr>fd_name := Some name\<rparr>) p)))"

definition struct_member :: "struct_decl \<Rightarrow> struct_decl parse" where
  "struct_member sd p =
     (if cur p = T_BUILDER \<or> cur p = T_VIRTUAL \<or> cur p = T_OVERRIDE
      then fatal_here p ''struct methods cannot be virtual/override/builder''
      else if cur p = T_DEINIT then fatal_here p ''structs cannot have deinit''
      else if cur p = T_FN
      then bind_res (struct_method (sd_name sd) p) (\<lambda>(m, p). Inr (sd\<lparr>sd_methods := sd_methods sd @ [m]\<rparr>, p))
      else bind_res (parse_field p) (\<lambda>(f, p). Inr (sd\<lparr>sd_fields := sd_fields sd @ [f]\<rparr>, p)))"

definition parse_struct :: "bool \<Rightarrow> struct_decl parse" where
  "parse_struct ext p =
     (let l = ploc p; save = p_typarams p
      in bind_res (expect T_STRUCT p) (\<lambda>(_, p).
         bind_res (expect_ident p) (\<lambda>(name, p).
         bind_res (if ext then Inr ([], p) else parse_typarams p) (\<lambda>(tps, p).
         let sd = \<lparr>sd_name = name, sd_loc = l, sd_fields = [], sd_methods = [], sd_extern = ext,
                   sd_typarams = tps\<rparr>
         in bind_res (expect T_LBRACE p) (\<lambda>(_, p).
            bind_res (fill_until (bound p) T_RBRACE struct_member sd p) (\<lambda>(sd, p).
            bind_res (expect T_RBRACE p) (\<lambda>(_, p). Inr (sd, p\<lparr>p_typarams := save\<rparr>))))))))"

definition parse_const :: "const_decl parse" where
  "parse_const p =
     (let l = ploc p
      in bind_res (advance p) (\<lambda>(_, p).
         bind_res (expect_ident p) (\<lambda>(name, p).
         bind_res (expect T_COLON p) (\<lambda>(_, p).
         bind_res (parse_type p) (\<lambda>(t, p).
         bind_res (expect T_ASSIGN p) (\<lambda>(_, p).
         bind_res (parse_expr p) (\<lambda>(e, p).
         bind_res (expect T_SEMI p) (\<lambda>(_, p). Inr (\<lparr>c_loc = l, c_name = name, c_type = t, c_init = e\<rparr>, p)))))))))"

text \<open>The modifiers of a class member, in the order the code accepts them: static, builder,
  virtual, override.\<close>

definition class_modifiers :: "(bool \<times> bool \<times> bool \<times> bool) parse" where
  "class_modifiers p =
     bind_res (accept T_STATIC p) (\<lambda>(st, p).
     bind_res (accept T_BUILDER p) (\<lambda>(bu, p).
     bind_res (accept T_VIRTUAL p) (\<lambda>(vi, p).
     bind_res (if vi then Inr (False, p) else accept T_OVERRIDE p) (\<lambda>(ov, p).
     if bu \<and> (vi \<or> ov) then fatal_here p ''builder methods cannot be virtual/override''
     else if st \<and> (vi \<or> ov) then fatal_here p ''a static method cannot be virtual/override (it has no receiver to dispatch on)''
     else if st \<and> bu then fatal_here p ''a static method cannot be a builder (it has no receiver to return)''
     else if st \<and> cur p \<noteq> T_FN then fatal_here p (''expected '' @ quoted ''fn'' @ '' after '' @ quoted ''static'')
     else Inr ((st, bu, vi, ov), p)))))"

definition class_deinit_block :: "bool \<times> bool \<times> bool \<times> bool \<Rightarrow> class_decl \<Rightarrow> class_decl parse" where
  "class_deinit_block mods cd p =
     (case mods of (st, bu, vi, ov) \<Rightarrow>
      if bu then fatal_here p ''deinit cannot be a builder''
      else if vi \<or> ov then fatal_here p ''deinit cannot be virtual/override''
      else if deinit_body cd \<noteq> [] then fatal_here p ''duplicate deinit''
      else bind_res (advance p) (\<lambda>(_, p).
           bind_res (parse_block p) (\<lambda>(body, p). Inr (cd\<lparr>deinit_body := body\<rparr>, p))))"

definition class_init :: "bool \<times> bool \<times> bool \<times> bool \<Rightarrow> fn_head \<Rightarrow> class_decl \<Rightarrow> class_decl parse" where
  "class_init mods h cd p =
     (case mods of (st, bu, vi, ov) \<Rightarrow>
      if st then fatal_here p ''init cannot be static''
      else if bu then fatal_here p ''init cannot be a builder''
      else if vi \<or> ov then fatal_here p ''init cannot be virtual/override''
      else bind_res (advance p) (\<lambda>(_, p).
           bind_res (parse_params p) (\<lambda>(params, p).
           bind_res (parse_block p) (\<lambda>(body, p).
           if ctor cd \<noteq> None then Inl (FatalAt (fd_loc h) ''duplicate init'')
           else Inr (cd\<lparr>ctor := Some (FnDecl (h\<lparr>fd_name := Some ''init''\<rparr>) params (Some (type_new TY_VOID loc0)) body)\<rparr>, p)))))"

definition class_method :: "fn_head \<Rightarrow> class_decl \<Rightarrow> class_decl parse" where
  "class_method h cd p =
     bind_res (expect_ident p) (\<lambda>(name, p).
     bind_res (parse_params p) (\<lambda>(params, p).
     bind_res (if is_builder h
               then if cur p = T_COLON
                    then fatal_here p ''builder methods cannot declare a return type (they return the receiver)''
                    else Inr (Type TY_NAMED False False False None None [] (Some (cd_name cd)) (fd_loc h) None None None, p)
               else optional_type parse_type p) (\<lambda>(ret, p).
     bind_res (parse_block p) (\<lambda>(body, p).
     Inr (cd\<lparr>cd_methods := cd_methods cd @ [FnDecl (h\<lparr>fd_name := Some name\<rparr>) params (Some ret) body]\<rparr>, p)))))"

definition class_fn :: "bool \<times> bool \<times> bool \<times> bool \<Rightarrow> class_decl \<Rightarrow> class_decl parse" where
  "class_fn mods cd p =
     (case mods of (st, bu, vi, ov) \<Rightarrow>
      let h = (fn_head0 (ploc p))\<lparr>fd_owner := Some (cd_name cd), is_virtual := vi, is_override := ov,
                is_builder := bu, is_static := st\<rparr>
      in bind_res (advance p) (\<lambda>(_, p).
         if cur p = T_INIT then class_init mods h cd p else class_method h cd p))"

definition class_member :: "class_decl \<Rightarrow> class_decl parse" where
  "class_member cd p =
     (if cur p = T_CONST
      then bind_res (parse_const p) (\<lambda>(c, p). Inr (cd\<lparr>cd_consts := cd_consts cd @ [c]\<rparr>, p))
      else bind_res (class_modifiers p) (\<lambda>(mods, p).
           if cur p = T_DEINIT then class_deinit_block mods cd p
           else if cur p = T_FN then class_fn mods cd p
           else if fst (snd (snd mods)) \<or> snd (snd (snd mods))
           then fatal_here p (''expected '' @ quoted ''fn'' @ '' after virtual/override'')
           else bind_res (parse_field p) (\<lambda>(f, p). Inr (cd\<lparr>cd_fields := cd_fields cd @ [f]\<rparr>, p))))"

definition class_parent :: "string option parse" where
  "class_parent p =
     bind_res (accept T_EXTENDS p) (\<lambda>(c, p).
     if c then bind_res (expect_ident p) (\<lambda>(s, p).
               if cur p = T_LT then fatal_here p ''generic base classes are not supported yet'' else Inr (Some s, p))
     else Inr (None, p))"

definition parse_class :: "class_decl parse" where
  "parse_class p =
     (let l = ploc p; save = p_typarams p
      in bind_res (expect T_CLASS p) (\<lambda>(_, p).
         bind_res (expect_ident p) (\<lambda>(name, p).
         bind_res (parse_typarams p) (\<lambda>(tps, p).
            bind_res (class_parent p) (\<lambda>(parent, p).
            bind_res (expect T_LBRACE p) (\<lambda>(_, p).
            bind_res (fill_until (bound p) T_RBRACE class_member
                        \<lparr>cd_name = name, cd_loc = l, parent_name = parent, cd_fields = [], cd_methods = [], cd_consts = [],
                         ctor = None, deinit_body = [], cd_typarams = tps\<rparr> p) (\<lambda>(cd, p).
            bind_res (expect T_RBRACE p) (\<lambda>(_, p). Inr (cd, p\<lparr>p_typarams := save\<rparr>)))))))))"

section \<open>Modules\<close>

definition parse_link :: "decl parse" where
  "parse_link p =
     (let l = ploc p
      in bind_res (advance p) (\<lambda>(_, p).
         bind_res (expect_ident p) (\<lambda>(kw, p).
         if kw \<noteq> ''link'' then Inl (FatalAt l (''unknown pragma '' @ quoted (CHR ''#'' # kw)))
         else if cur p \<noteq> T_STRING then fatal_here p ''expected library name string after #link''
         else let lib = sval (lx_tok (p_lx p))
              in bind_res (advance p) (\<lambda>(_, p).
                 bind_res (accept T_IF p) (\<lambda>(c, p).
                 if \<not> c then Inr (D_LINK l lib None, p)
                 else if cur p \<noteq> T_STRING then fatal_here p (''expected platform string after '' @ quoted ''if'')
                 else bind_res (advance p) (\<lambda>(_, p'). Inr (D_LINK l lib (Some (sval (lx_tok (p_lx p)))), p')))))))"

definition parse_import :: "decl parse" where
  "parse_import p =
     (let l = ploc p
      in bind_res (advance p) (\<lambda>(_, p).
         bind_res (expect T_LBRACE p) (\<lambda>(_, p).
         bind_res (comma_list (bound p) T_RBRACE expect_ident p) (\<lambda>(names, p).
         bind_res (expect T_RBRACE p) (\<lambda>(_, p).
         bind_res (expect T_FROM p) (\<lambda>(_, p).
         if cur p \<noteq> T_STRING then fatal_here p ''expected module path string''
         else let path = sval (lx_tok (p_lx p))
              in bind_res (advance p) (\<lambda>(_, p).
                 bind_res (expect T_SEMI p) (\<lambda>(_, p). Inr (D_IMPORT l names path, p)))))))))"

definition extern_item :: "decl parse" where
  "extern_item p =
     (let l = ploc p
      in if cur p = T_FN then bind_res (parse_fn True p) (\<lambda>(fd, p). Inr (D_EXTERN_FN l fd, p))
         else if cur p = T_STRUCT then bind_res (parse_struct True p) (\<lambda>(sd, p). Inr (D_STRUCT l sd, p))
         else fatal_here p ''expected fn or struct in extern block'')"

definition parse_extern :: "decl list parse" where
  "parse_extern p =
     bind_res (advance p) (\<lambda>(_, p).
     if cur p \<noteq> T_STRING \<or> sval (lx_tok (p_lx p)) \<noteq> ''C''
     then fatal_here p (''expected '' @ [CHR 0x22, CHR ''C'', CHR 0x22] @ '' after extern'')
     else bind_res (advance p) (\<lambda>(_, p).
          bind_res (expect T_LBRACE p) (\<lambda>(_, p).
          bind_res (until_list (bound p) T_RBRACE extern_item p) (\<lambda>(ds, p).
          bind_res (expect T_RBRACE p) (\<lambda>(_, p). Inr (ds, p))))))"

definition one_decl :: "('a \<Rightarrow> decl) \<Rightarrow> 'a parse \<Rightarrow> decl list parse" where
  "one_decl d f p = bind_res (f p) (\<lambda>(x, p). Inr ([d x], p))"

text \<open>One turn of the loop of \<open>parse_module\<close>: the declarations it adds.\<close>

definition parse_decl :: "decl list parse" where
  "parse_decl p =
     bind_res (accept T_EXPORT p) (\<lambda>(_, p).
     let k = cur p; l = ploc p
     in if k = T_HASH then one_decl (\<lambda>d. d) parse_link p
        else if k = T_IMPORT then one_decl (\<lambda>d. d) parse_import p
        else if k = T_CONST then one_decl D_CONST parse_const p
        else if k = T_FN then one_decl (D_FN l) (parse_fn False) p
        else if k = T_STRUCT then one_decl (D_STRUCT l) (parse_struct False) p
        else if k = T_ENUM then one_decl (D_ENUM l) parse_enum p
        else if k = T_CLASS then one_decl (D_CLASS l) parse_class p
        else if k = T_EXTERN then parse_extern p
        else fatal_here p (''expected declaration, got '' @ tok_desc k))"

text \<open>\<open>parse_module\<close> leaves the fields \<open>typarams\<close> and \<open>ntyparams\<close> of its parser uninitialised;
  \<open>junk\<close> is what they happen to denote.\<close>

definition parse_module :: "string list \<Rightarrow> string \<Rightarrow> string \<Rightarrow> string \<Rightarrow> module cres" where
  "parse_module junk path modname src =
     bind_res (lex_init path src) (\<lambda>lx.
     let p = \<lparr>p_lx = lx, p_arrows = 0, p_typarams = junk\<rparr>
     in bind_res (until_list (bound p) T_EOF parse_decl p) (\<lambda>(ds, p).
        Inr \<lparr>m_name = modname, m_path = path, m_src = src, m_decls = concat ds, arrow_counter = p_arrows p,
             src_hash = fnv1a (takeWhile (\<lambda>c. c \<noteq> NUL) src)\<rparr>))"

section \<open>Well-formed trees\<close>

abbreviation all_true :: "bool list \<Rightarrow> bool" where
  "all_true \<equiv> list_all (\<lambda>b. b)"

abbreviation opt_true :: "bool option \<Rightarrow> bool" where
  "opt_true \<equiv> pred_option (\<lambda>b. b)"

primrec ty_wf :: "ty \<Rightarrow> bool" where
  "ty_wf (Type k w n fw e r ps nm l sd cd ed) \<longleftrightarrow>
     \<not> (w \<and> n) \<and> opt_true (map_option ty_wf e) \<and> opt_true (map_option ty_wf r) \<and> all_true (map ty_wf ps) \<and>
     (e \<noteq> None \<longleftrightarrow> k = TY_ARRAY \<or> k = TY_MAP) \<and> (r \<noteq> None \<longleftrightarrow> k = TY_FN) \<and>
     (nm \<noteq> None \<longleftrightarrow> k = TY_NAMED \<or> k = TY_TYPARAM)"

text \<open>The parts of a template literal: text chunks at both ends and between the holes.\<close>

fun is_str :: "expr \<Rightarrow> bool" where
  "is_str (EX_STR _ _) = True"
| "is_str _ = False"

fun chunks :: "expr list \<Rightarrow> bool" where
  "chunks [c] = is_str c"
| "chunks (c # e # es) = (is_str c \<and> chunks es)"
| "chunks _ = False"

definition labels_ok :: "'a list \<Rightarrow> string option list option \<Rightarrow> bool" where
  "labels_ok args names \<longleftrightarrow> (\<forall>ns. names = Some ns \<longrightarrow> length ns = length args \<and> (\<exists>n\<in>set ns. n \<noteq> None))"

fun defaults_last :: "param list \<Rightarrow> bool" where
  "defaults_last [] = True"
| "defaults_last (x # xs) \<longleftrightarrow> (param_default x \<noteq> None \<longrightarrow> (\<forall>y\<in>set xs. param_default y \<noteq> None)) \<and> defaults_last xs"

definition typarams_ok :: "string list \<Rightarrow> bool" where
  "typarams_ok ns \<longleftrightarrow> distinct ns \<and> set ns \<inter> set prim_names = {}"

definition head_ok :: "fn_head \<Rightarrow> bool" where
  "head_ok h \<longleftrightarrow> vslot h = - 1 \<and> typarams_ok (fd_typarams h) \<and>
     \<not> (is_builder h \<and> (is_virtual h \<or> is_override h)) \<and> \<not> (is_static h \<and> (is_virtual h \<or> is_override h)) \<and>
     \<not> (is_static h \<and> is_builder h) \<and> \<not> (is_virtual h \<and> is_override h)"

primrec expr_wf :: "expr \<Rightarrow> bool" and stmt_wf :: "stmt \<Rightarrow> bool" and arm_wf :: "switch_arm \<Rightarrow> bool"
  and param_wf :: "param \<Rightarrow> bool" and fn_wf :: "fn_decl \<Rightarrow> bool" where
  "expr_wf (EX_INT l i) = True"
| "expr_wf (EX_FLOAT l x) = True"
| "expr_wf (EX_STR l s) = True"
| "expr_wf (EX_BOOL l b) = True"
| "expr_wf (EX_NULL l) = True"
| "expr_wf (EX_IDENT l s) = True"
| "expr_wf (EX_THIS l) = True"
| "expr_wf (EX_BIN l k a b) = (bin_prec k \<noteq> 0 \<and> expr_wf a \<and> expr_wf b)"
| "expr_wf (EX_UN l k a) = (is_unary_op k \<and> expr_wf a)"
| "expr_wf (EX_ASSIGN l k a b) = (is_assign_op k \<and> expr_wf a \<and> expr_wf b)"
| "expr_wf (EX_CALL l c nm su ts args ns) =
     ((su \<longleftrightarrow> c = None) \<and> (su \<longleftrightarrow> nm \<noteq> None) \<and> opt_true (map_option expr_wf c) \<and> list_all ty_wf ts \<and>
      all_true (map expr_wf args) \<and> labels_ok args ns)"
| "expr_wf (EX_INDEX l a b) = (expr_wf a \<and> expr_wf b)"
| "expr_wf (EX_MEMBER l a s) = expr_wf a"
| "expr_wf (EX_NEW l r t nm ts args ns) =
     ((t \<noteq> None \<longleftrightarrow> nm = None) \<and> (t \<noteq> None \<longrightarrow> args = [] \<and> ts = []) \<and> pred_option ty_wf t \<and> list_all ty_wf ts \<and>
      all_true (map expr_wf args) \<and> labels_ok args ns)"
| "expr_wf (EX_ARROW l fd) = fn_wf fd"
| "expr_wf (EX_ARRAYLIT l es) = all_true (map expr_wf es)"
| "expr_wf (EX_TSTR l es) = (chunks es \<and> all_true (map expr_wf es))"
| "expr_wf (EX_AS l a t) = (expr_wf a \<and> ty_wf t)"
| "stmt_wf (ST_LET l s t e) = (pred_option ty_wf t \<and> expr_wf e)"
| "stmt_wf (ST_EXPR l e) = expr_wf e"
| "stmt_wf (ST_IF l e b els) = (expr_wf e \<and> all_true (map stmt_wf b) \<and> all_true (map stmt_wf els))"
| "stmt_wf (ST_WHILE l e b) = (expr_wf e \<and> all_true (map stmt_wf b))"
| "stmt_wf (ST_FOR_RANGE l s lo hi b) = (expr_wf lo \<and> expr_wf hi \<and> all_true (map stmt_wf b))"
| "stmt_wf (ST_FOR_EACH l s e b) = (expr_wf e \<and> all_true (map stmt_wf b))"
| "stmt_wf (ST_RETURN l e) = opt_true (map_option expr_wf e)"
| "stmt_wf (ST_BREAK l) = True"
| "stmt_wf (ST_CONTINUE l) = True"
| "stmt_wf (ST_BLOCK l b) = all_true (map stmt_wf b)"
| "stmt_wf (ST_SWITCH l e arms) = (expr_wf e \<and> all_true (map arm_wf arms))"
| "stmt_wf (ST_ARENA l s b) = all_true (map stmt_wf b)"
| "arm_wf (SwitchArm l d vs b) = ((d \<longleftrightarrow> vs = []) \<and> all_true (map expr_wf vs) \<and> all_true (map stmt_wf b))"
| "param_wf (Param s t l d) = (pred_option ty_wf t \<and> opt_true (map_option expr_wf d))"
| "fn_wf (FnDecl h ps r b) =
     (head_ok h \<and> all_true (map param_wf ps) \<and> defaults_last ps \<and> pred_option ty_wf r \<and> all_true (map stmt_wf b) \<and>
      (is_extern h \<longrightarrow> b = [] \<and> fd_typarams h = [] \<and> first_default ps = None))"

section \<open>The contract of a parsing function\<close>

definition lx_at :: "string \<Rightarrow> lexer \<Rightarrow> bool" where
  "lx_at f lx \<longleftrightarrow> lx_ok lx \<and> lx_file lx = f \<and> l_file (tloc (lx_tok lx)) = Some f \<and>
     (has_ahead lx \<longrightarrow> l_file (tloc (lx_ahead lx)) = Some f)"

definition p_ok :: "string \<Rightarrow> parser \<Rightarrow> bool" where
  "p_ok f p \<longleftrightarrow> lx_at f (p_lx p)"

text \<open>A result with a value in \<open>Q\<close> and a state that has less than \<open>s\<close> left to read, or a
  diagnostic located in the file.\<close>

definition gives :: "string \<Rightarrow> nat \<Rightarrow> ('a \<Rightarrow> bool) \<Rightarrow> ('a \<times> parser) cres \<Rightarrow> bool" where
  "gives f s Q r \<longleftrightarrow> (case r of Inl e \<Rightarrow> diag_in f e | Inr (x, p) \<Rightarrow> p_ok f p \<and> psize p < s \<and> Q x)"

lemma gives_return: "p_ok f p \<Longrightarrow> psize p < s \<Longrightarrow> Q x \<Longrightarrow> gives f s Q (Inr (x, p))"
  by (simp add: gives_def)

lemma gives_fail: "p_ok f p \<Longrightarrow> gives f s Q (fatal_here p msg)"
  by (simp add: gives_def fatal_here_def diag_in_def p_ok_def lx_at_def ploc_def)

lemma gives_fail_at: "l_file l = Some f \<Longrightarrow> gives f s Q (Inl (FatalAt l msg))"
  by (simp add: gives_def diag_in_def)

lemma gives_bind:
  assumes "gives f s Q r" and "\<And>x p. p_ok f p \<Longrightarrow> psize p < s \<Longrightarrow> Q x \<Longrightarrow> gives f s' Q' (g x p)"
  shows "gives f s' Q' (bind_res r (\<lambda>(x, p). g x p))"
  using assms by (cases r) (auto simp: gives_def)

lemma gives_mono: "gives f s Q r \<Longrightarrow> s \<le> s' \<Longrightarrow> (\<And>x. Q x \<Longrightarrow> Q' x) \<Longrightarrow> gives f s' Q' r"
  by (cases r) (auto simp: gives_def)

lemma ploc_file [simp]: "p_ok f p \<Longrightarrow> l_file (ploc p) = Some f"
  by (simp add: p_ok_def lx_at_def ploc_def)

lemma lex_next_at:
  assumes "lx_at f lx"
  shows "case lex_next lx of
      Inl e \<Rightarrow> diag_in f e
    | Inr lx' \<Rightarrow> lx_at f lx' \<and> lx_size lx' + tok_weight (kind (lx_tok lx)) \<le> lx_size lx"
proof (cases "has_ahead lx")
  case True
  then show ?thesis using assms by (simp add: lex_next_def lx_at_def lx_ok_def lx_size_def)
next
  case False
  have ok: "lx_ok lx" "lx_file lx = f" using assms by (simp_all add: lx_at_def)
  show ?thesis
  proof (cases "lex_next lx")
    case (Inl e)
    then show ?thesis using lex_next_contract [OF ok(1)] ok(2) by simp
  next
    case (Inr lx')
    then obtain lx1 t where s: "scan (lx_tok lx) lx = Inr (lx1, t)" and lx': "lx' = lx1\<lparr>lx_tok := t\<rparr>"
      using False by (auto simp: lex_next_def)
    show ?thesis
      using lex_next_contract [OF ok(1)] Inr ok scan_frame [OF ok(1) s] False by (simp add: lx_at_def lx')
  qed
qed

lemma lex_peek_at:
  assumes "lx_at f lx"
  shows "case lex_peek lx of
      Inl e \<Rightarrow> diag_in f e
    | Inr (t, lx') \<Rightarrow> lx_at f lx' \<and> lx_size lx' \<le> lx_size lx \<and> lx_tok lx' = lx_tok lx \<and> has_ahead lx' \<and> lx_ahead lx' = t"
proof (cases "has_ahead lx")
  case True
  then show ?thesis using assms by (simp add: lex_peek_def)
next
  case False
  have ok: "lx_ok lx" "lx_file lx = f" "l_file (tloc (lx_tok lx)) = Some f" using assms by (simp_all add: lx_at_def)
  show ?thesis
  proof (cases "scan (lx_ahead lx) lx")
    case (Inl e)
    then show ?thesis using lex_peek_contract [OF ok(1)] ok(2) False by (simp add: lex_peek_def)
  next
    case (Inr r)
    obtain lx1 t where r: "r = (lx1, t)" by (cases r)
    show ?thesis
      using lex_peek_contract [OF ok(1)] Inr r ok scan_frame [OF ok(1) Inr [unfolded r]] False
      by (simp add: lx_at_def lex_peek_def)
  qed
qed

lemma advance_gives: "p_ok f p \<Longrightarrow> cur p \<noteq> T_EOF \<Longrightarrow> gives f (psize p) (\<lambda>_. True) (advance p)"
  using lex_next_at [of f "p_lx p"]
  by (cases "lex_next (p_lx p)") (auto simp: advance_def gives_def p_ok_def cur_def tok_weight_def split: if_splits)

lemma advance_gives_le: "p_ok f p \<Longrightarrow> gives f (bound p) (\<lambda>_. True) (advance p)"
  using lex_next_at [of f "p_lx p"]
  by (cases "lex_next (p_lx p)") (auto simp: advance_def gives_def p_ok_def)

text \<open>The rules of the calculus: one for each way a parsing function continues.\<close>

named_theorems vt_parse \<open>rules for \<open>gives\<close>\<close>

lemmas [vt_parse] = gives_fail gives_fail_at gives_return

lemma gives_if [vt_parse]:
  "(b \<Longrightarrow> gives f s Q x) \<Longrightarrow> (\<not> b \<Longrightarrow> gives f s Q y) \<Longrightarrow> gives f s Q (if b then x else y)"
  by simp

lemma gives_bind_if [vt_parse]:
  "(b \<Longrightarrow> gives f s Q (bind_res x g)) \<Longrightarrow> (\<not> b \<Longrightarrow> gives f s Q (bind_res y g)) \<Longrightarrow>
     gives f s Q (bind_res (if b then x else y) g)"
  by simp

lemma gives_bind_return [vt_parse]: "gives f s Q (g x p) \<Longrightarrow> gives f s Q (bind_res (Inr (x, p)) (\<lambda>(x, p). g x p))"
  by simp

lemma gives_bind_fail [vt_parse]: "p_ok f p \<Longrightarrow> gives f s Q (bind_res (fatal_here p msg) g)"
  using gives_fail by (simp add: fatal_here_def)

lemma gives_assoc [vt_parse]:
  "gives f s Q (bind_res m (\<lambda>(x, p). bind_res (h x p) g)) \<Longrightarrow> gives f s Q (bind_res (bind_res m (\<lambda>(x, p). h x p)) g)"
  by (cases m) (auto simp: gives_def split: sum.splits)

lemma gives_advance [vt_parse]:
  "p_ok f p \<Longrightarrow> cur p \<noteq> T_EOF \<Longrightarrow> (\<And>p'. p_ok f p' \<Longrightarrow> psize p' < psize p \<Longrightarrow> gives f s Q (g () p')) \<Longrightarrow>
     gives f s Q (bind_res (advance p) (\<lambda>(u, p'). g u p'))"
  by (rule gives_bind [OF advance_gives]) auto

lemma gives_accept [vt_parse]:
  assumes "p_ok f p" "k \<noteq> T_EOF" "\<And>p'. p_ok f p' \<Longrightarrow> psize p' < psize p \<Longrightarrow> gives f s Q (g True p')"
    "cur p \<noteq> k \<Longrightarrow> gives f s Q (g False p)"
  shows "gives f s Q (bind_res (accept k p) (\<lambda>(c, p'). g c p'))"
  using assms by (auto simp: accept_def intro!: gives_assoc gives_advance)

lemma gives_expect [vt_parse]:
  assumes "p_ok f p" "k \<noteq> T_EOF" "\<And>p'. p_ok f p' \<Longrightarrow> psize p' < psize p \<Longrightarrow> gives f s Q (g () p')"
  shows "gives f s Q (bind_res (expect k p) (\<lambda>(u, p'). g u p'))"
  using assms by (auto simp: expect_def intro!: gives_bind_fail gives_advance)

lemma set_kind_ok:
  "p_ok f p \<Longrightarrow> p_ok f (set_kind k p)"
  "tok_weight k < tok_weight (cur p) \<Longrightarrow> psize (set_kind k p) < psize p"
  by (auto simp: p_ok_def lx_at_def set_kind_def lx_ok_def lx_size_def cur_def)

lemma gives_expect_gt [vt_parse]:
  assumes "p_ok f p" "\<And>p'. p_ok f p' \<Longrightarrow> psize p' < psize p \<Longrightarrow> gives f s Q (g () p')"
  shows "gives f s Q (bind_res (expect_gt p) (\<lambda>(u, p'). g u p'))"
proof -
  have "p_ok f p \<Longrightarrow> cur p = T_SHR \<Longrightarrow> gives f s Q (g () (set_kind T_GT p))"
    "p_ok f p \<Longrightarrow> cur p = T_SHREQ \<Longrightarrow> gives f s Q (g () (set_kind T_GE p))"
    by (rule assms(2); simp add: set_kind_ok tok_weight_def)+
  then show ?thesis
    using assms by (auto simp: expect_gt_def intro!: gives_expect)
qed

lemma gives_ident [vt_parse]:
  assumes "p_ok f p" "\<And>x p'. p_ok f p' \<Longrightarrow> psize p' < psize p \<Longrightarrow> gives f s Q (g x p')"
  shows "gives f s Q (bind_res (expect_ident p) (\<lambda>(x, p'). g x p'))"
  using assms unfolding expect_ident_def
  by (auto intro!: gives_assoc gives_advance gives_bind_fail split: option.splits)

lemma p_ok_typarams [simp]: "p_ok f (p\<lparr>p_typarams := ts\<rparr>) = p_ok f p" "p_ok f (p\<lparr>p_arrows := n\<rparr>) = p_ok f p"
  by (simp_all add: p_ok_def)

lemma accept_gives: "p_ok f p \<Longrightarrow> k \<noteq> T_EOF \<Longrightarrow> gives f (bound p) (\<lambda>_. True) (accept k p)"
  by (auto simp: accept_def intro!: vt_parse)

text \<open>The loops over items that satisfy the contract.\<close>

lemma comma_list_gives:
  assumes "\<And>p'. p_ok f p' \<Longrightarrow> psize p' \<le> s \<Longrightarrow> gives f (psize p') Q (item p')"
  shows "p_ok f p \<Longrightarrow> psize p < n \<Longrightarrow> psize p \<le> s \<Longrightarrow> gives f (bound p) (list_all Q) (comma_list n close item p)"
proof (induction n arbitrary: p)
  case (Suc n)
  show ?case
    unfolding comma_list.simps using Suc.prems
    by (intro gives_if gives_return gives_bind [OF assms] gives_accept gives_bind [OF Suc.IH]) auto
qed simp

lemma comma_list1_gives:
  assumes "\<And>p'. p_ok f p' \<Longrightarrow> psize p' \<le> s \<Longrightarrow> gives f (psize p') Q (item p')"
  shows "p_ok f p \<Longrightarrow> psize p < n \<Longrightarrow> psize p \<le> s \<Longrightarrow>
    gives f (psize p) (\<lambda>xs. list_all Q xs \<and> xs \<noteq> []) (comma_list1 n item p)"
proof (induction n arbitrary: p)
  case (Suc n)
  show ?case
    unfolding comma_list1.simps using Suc.prems
    by (intro gives_if gives_return gives_bind [OF assms] gives_accept gives_bind [OF Suc.IH]) auto
qed simp

lemma until_list_gives:
  assumes "\<And>p'. p_ok f p' \<Longrightarrow> psize p' \<le> s \<Longrightarrow> gives f (psize p') Q (item p')"
  shows "p_ok f p \<Longrightarrow> psize p < n \<Longrightarrow> psize p \<le> s \<Longrightarrow> gives f (bound p) (list_all Q) (until_list n close item p)"
proof (induction n arbitrary: p)
  case (Suc n)
  show ?case
    unfolding until_list.simps using Suc.prems
    by (intro gives_if gives_return gives_bind [OF assms] gives_bind [OF Suc.IH]) auto
qed simp

lemma fill_until_gives:
  assumes "\<And>a p'. p_ok f p' \<Longrightarrow> psize p' \<le> s \<Longrightarrow> Q a \<Longrightarrow> gives f (psize p') Q (item a p')"
  shows "p_ok f p \<Longrightarrow> psize p < n \<Longrightarrow> psize p \<le> s \<Longrightarrow> Q a \<Longrightarrow> gives f (bound p) Q (fill_until n close item a p)"
proof (induction n arbitrary: p a)
  case (Suc n)
  show ?case
    unfolding fill_until.simps using Suc.prems
    by (intro gives_if gives_return gives_bind [OF assms] gives_mono [OF Suc.IH]) auto
qed simp

section \<open>Types meet their contract\<close>

lemma typarams_loop_gives:
  "p_ok f p \<Longrightarrow> psize p < n \<Longrightarrow> typarams_ok names \<Longrightarrow> gives f (psize p) typarams_ok (typarams_loop n names p)"
proof (induction n arbitrary: names p)
  case (Suc n)
  show ?case
    unfolding typarams_loop.simps Let_def using Suc.prems
    by (intro vt_parse gives_mono [OF Suc.IH]) (auto simp: typarams_ok_def)
qed simp

lemma parse_typarams_gives: "p_ok f p \<Longrightarrow> gives f (bound p) typarams_ok (parse_typarams p)"
  unfolding parse_typarams_def
  by (intro vt_parse gives_bind [OF typarams_loop_gives]) (auto simp: typarams_ok_def)

lemma map_of_prims: "map_of prims s = Some k \<Longrightarrow> k \<notin> {TY_ARRAY, TY_MAP, TY_FN, TY_NAMED, TY_TYPARAM}"
  by (auto simp: prims_def split: if_splits)

lemma ty_set_wf:
  "ty_wf t \<Longrightarrow> \<not> ty_nullable t \<Longrightarrow> ty_wf (ty_set_weak t)" "ty_wf t \<Longrightarrow> \<not> ty_weak t \<Longrightarrow> ty_wf (ty_set_nullable t)"
  "ty_nullable (ty_set_weak t) = ty_nullable t"
  by (cases t; simp)+

lemma gives_peek:
  assumes "p_ok f p" "\<And>k p'. p_ok f p' \<Longrightarrow> psize p' \<le> psize p \<Longrightarrow> cur p' = cur p \<Longrightarrow> gives f s Q (g k p')"
  shows "gives f s Q (bind_res (peek_kind p) (\<lambda>(k, p'). g k p'))"
proof (cases "lex_peek (p_lx p)")
  case (Inl e)
  then show ?thesis using lex_peek_at [of f "p_lx p"] assms(1) by (simp add: peek_kind_def gives_def p_ok_def)
next
  case (Inr r)
  obtain t lx where r: "r = (t, lx)" by (cases r)
  have "gives f s Q (g (kind t) (p\<lparr>p_lx := lx\<rparr>))"
    using lex_peek_at [of f "p_lx p"] assms(1) Inr r by (intro assms(2)) (auto simp: p_ok_def cur_def)
  then show ?thesis using Inr r by (simp add: peek_kind_def)
qed

lemma advance_then:
  "p_ok f p \<Longrightarrow> (\<And>p'. p_ok f p' \<Longrightarrow> psize p' \<le> psize p \<Longrightarrow> gives f s Q (g () p')) \<Longrightarrow>
     gives f s Q (bind_res (advance p) (\<lambda>(u, p'). g u p'))"
  by (rule gives_bind [OF advance_gives_le]) auto

text \<open>What the functions that are given a parser of types rely on: it meets the contract on
  every input shorter than \<open>n\<close>.\<close>

locale type_parser =
  fixes pt :: "ty parse" and f :: string and n :: nat
  assumes pt_gives: "p_ok f p \<Longrightarrow> psize p < n \<Longrightarrow> gives f (psize p) ty_wf (pt p)"
begin

lemma types_gives: "p_ok f p \<Longrightarrow> psize p < n \<Longrightarrow> gives f (bound p) (list_all ty_wf) (comma_list (bound p) close pt p)"
  by (rule comma_list_gives [where s = "psize p"]) (auto intro: pt_gives)

lemma types1_gives:
  "p_ok f p \<Longrightarrow> psize p < n \<Longrightarrow> gives f (psize p) (\<lambda>xs. list_all ty_wf xs \<and> xs \<noteq> []) (comma_list1 (bound p) pt p)"
  by (rule comma_list1_gives [where s = "psize p"]) (auto intro: pt_gives)

lemma parse_type_args_gives:
  "p_ok f p \<Longrightarrow> psize p \<le> n \<Longrightarrow> gives f (psize p) (\<lambda>ts. list_all ty_wf ts \<and> ts \<noteq> []) (parse_type_args pt p)"
  unfolding parse_type_args_def
  by (intro vt_parse gives_bind [OF types1_gives]) auto

lemma optional_type_gives: "p_ok f p \<Longrightarrow> psize p \<le> n \<Longrightarrow> gives f (bound p) ty_wf (optional_type pt p)"
  unfolding optional_type_def
  by (intro gives_accept gives_if gives_mono [OF pt_gives] gives_return) (auto simp: type_new_def)

lemma map_type_gives:
  "p_ok f p \<Longrightarrow> psize p \<le> n \<Longrightarrow> l_file l = Some f \<Longrightarrow> gives f (psize p) (\<lambda>t. ty_wf t \<and> \<not> ty_nullable t) (map_type pt l p)"
  unfolding map_type_def by (intro vt_parse gives_bind [OF pt_gives]) auto

lemma fn_type_gives:
  "p_ok f p \<Longrightarrow> psize p \<le> n \<Longrightarrow> gives f (psize p) (\<lambda>t. ty_wf t \<and> \<not> ty_nullable t) (fn_type pt l p)"
  unfolding fn_type_def
  by (intro vt_parse gives_bind [OF types_gives] gives_bind [OF optional_type_gives]) (auto simp: list.pred_map comp_def)

lemma named_type_gives:
  "p_ok f p \<Longrightarrow> psize p \<le> n \<Longrightarrow> gives f (psize p) (\<lambda>t. ty_wf t \<and> \<not> ty_nullable t) (named_type pt l p)"
  unfolding named_type_def
  by (rule gives_ident, assumption, split option.split, intro conjI allI impI)
    (intro vt_parse gives_bind [OF parse_type_args_gives], auto simp: type_new_def list.pred_map comp_def dest: map_of_prims)+

lemma parse_base_type_gives:
  "p_ok f p \<Longrightarrow> psize p \<le> n \<Longrightarrow> psize p < m \<Longrightarrow>
     gives f (psize p) (\<lambda>t. ty_wf t \<and> \<not> ty_nullable t) (parse_base_type m pt p)"
proof (induction m arbitrary: p)
  case (Suc m)
  show ?case
    unfolding parse_base_type.simps Let_def using Suc.prems
    by (intro vt_parse gives_bind [OF Suc.IH] gives_mono [OF map_type_gives] gives_mono [OF fn_type_gives]
        gives_mono [OF named_type_gives]) (auto simp: ty_set_wf)
qed simp

lemma accept_question_gives: "p_ok f p \<Longrightarrow> ty_wf t \<Longrightarrow> gives f (bound p) ty_wf (accept_question t p)"
  unfolding accept_question_def by (intro vt_parse) (auto simp: ty_set_wf)

lemma array_suffix_gives:
  "p_ok f p \<Longrightarrow> ty_wf t \<Longrightarrow> psize p < m \<Longrightarrow> gives f (bound p) ty_wf (array_suffix m t p)"
proof (induction m arbitrary: p t)
  case (Suc m)
  show ?case
    unfolding array_suffix.simps
  proof (intro gives_if gives_return gives_peek)
    fix k p1
    assume p1: "p_ok f p1" "psize p1 \<le> psize p" "cur p1 = cur p" "\<not> cur p \<noteq> T_LBRACKET"
    show "gives f (bound p) ty_wf (bind_res (advance p1) (\<lambda>(_, p). bind_res (advance p) (\<lambda>(_, p).
        bind_res (accept_question (Type TY_ARRAY False False False (Some t) None [] None (ty_loc t) None None None) p) (\<lambda>(t, p). array_suffix m t p))))"
      using p1 Suc.prems
      by (intro gives_advance advance_then gives_bind [OF accept_question_gives] gives_mono [OF Suc.IH]) auto
  qed (use Suc.prems in auto)
qed simp

lemma parse_type_step:
  "p_ok f p \<Longrightarrow> psize p \<le> n \<Longrightarrow>
     gives f (psize p) ty_wf (bind_res (parse_base_type (bound p) pt p) (\<lambda>(t, p). bind_res (accept_question t p) (\<lambda>(t, p). array_suffix (bound p) t p)))"
  by (intro gives_bind [OF parse_base_type_gives] gives_bind [OF accept_question_gives] gives_mono [OF array_suffix_gives]) auto

end

lemma type_parser_n: "type_parser (parse_type_n n) f n"
proof (induction n)
  case (Suc n)
  show ?case
    by unfold_locales (simp only: parse_type_n.simps, rule type_parser.parse_type_step [OF Suc], auto)
qed (unfold_locales, simp)

lemma parse_type_gives: "p_ok f p \<Longrightarrow> gives f (psize p) ty_wf (parse_type p)"
  unfolding parse_type_def using type_parser.pt_gives [OF type_parser_n] by blast

interpretation vt_types: type_parser parse_type f n for f n
  by unfold_locales (rule parse_type_gives)

section \<open>Expressions and statements meet their contract\<close>

lemma all_true_map [simp]: "all_true (map P xs) = list_all P xs" "opt_true (map_option P x) = pred_option P x"
  by (simp_all add: list.pred_map option.pred_map comp_def)

text \<open>Speculative questions answer or stop with a diagnostic.\<close>

definition asks :: "string \<Rightarrow> bool cres \<Rightarrow> bool" where
  "asks f r \<longleftrightarrow> (case r of Inl e \<Rightarrow> diag_in f e | Inr _ \<Rightarrow> True)"

lemma asks_return: "asks f (Inr b)"
  by (simp add: asks_def)

lemma asks_bind:
  "gives f s Q r \<Longrightarrow> (\<And>x p. p_ok f p \<Longrightarrow> psize p < s \<Longrightarrow> Q x \<Longrightarrow> asks f (g x p)) \<Longrightarrow> asks f (bind_res r (\<lambda>(x, p). g x p))"
  by (cases r) (auto simp: asks_def gives_def)

lemma asks_if: "(b \<Longrightarrow> asks f x) \<Longrightarrow> (\<not> b \<Longrightarrow> asks f y) \<Longrightarrow> asks f (if b then x else y)"
  by simp

lemma gives_asks:
  "asks f r \<Longrightarrow> (\<And>b. r = Inr b \<Longrightarrow> gives f s Q (g b)) \<Longrightarrow> gives f s Q (bind_res r g)"
  by (cases r) (auto simp: asks_def gives_def)

lemmas asks_rules = asks_if asks_return asks_bind [OF advance_gives_le]

lemma at_arg_label_asks: "p_ok f p \<Longrightarrow> asks f (at_arg_label p)"
  unfolding at_arg_label_def by (intro asks_rules)

lemma at_arg_label_ident: "at_arg_label p = Inr True \<Longrightarrow> cur p = T_IDENT"
  by (auto simp: at_arg_label_def split: if_splits)

lemma arrow_scan_asks: "p_ok f p \<Longrightarrow> psize p < n \<Longrightarrow> asks f (arrow_scan n p)"
proof (induction n arbitrary: p)
  case (Suc n)
  show ?case
    unfolding arrow_scan.simps using Suc.prems
    by (intro asks_if asks_return asks_bind [OF advance_gives] asks_bind [OF accept_gives]
        asks_bind [OF advance_gives_le] Suc.IH) auto
qed simp

lemma looks_like_arrow_asks: "p_ok f p \<Longrightarrow> asks f (looks_like_arrow p)"
  unfolding looks_like_arrow_def by (intro asks_rules arrow_scan_asks) auto

lemma type_args_scan_asks: "p_ok f p \<Longrightarrow> asks f (type_args_scan g angle p)"
proof (induction g arbitrary: angle p)
  case (Suc g)
  show ?case
    unfolding type_args_scan.simps Let_def using Suc.prems by (intro asks_rules Suc.IH)
qed (simp add: asks_return)

lemma generic_call_asks: "p_ok f p \<Longrightarrow> asks f (generic_call e p)"
  unfolding generic_call_def looks_like_type_args_def by (intro asks_rules type_args_scan_asks)

lemma generic_call_lt: "generic_call e p = Inr True \<Longrightarrow> cur p = T_LT"
  by (auto simp: generic_call_def split: if_splits)

text \<open>What the functions that are given parsers of expressions and of statements rely on.\<close>

locale sub_parsers =
  fixes pe :: "expr parse" and ps :: "stmt parse" and f :: string and n :: nat
  assumes pe_gives: "p_ok f p \<Longrightarrow> 2 * psize p < n \<Longrightarrow> gives f (psize p) expr_wf (pe p)"
    and ps_gives: "p_ok f p \<Longrightarrow> 2 * psize p + 1 < n \<Longrightarrow> gives f (psize p) stmt_wf (ps p)"
begin

abbreviation pb :: "stmt list parse" where
  "pb \<equiv> block_body ps"

lemma parse_arg_gives:
  "p_ok f p \<Longrightarrow> 2 * psize p < n \<Longrightarrow> gives f (psize p) (\<lambda>a. expr_wf (snd a)) (parse_arg pe p)"
  unfolding parse_arg_def
  by (intro gives_asks [OF at_arg_label_asks] gives_if gives_advance advance_then gives_bind [OF pe_gives] gives_return)
    (auto dest: at_arg_label_ident)

lemma labels_ok_map: "labels_ok (map snd args) (if \<exists>a\<in>set args. fst a \<noteq> None then Some (map fst args) else None)"
  by (auto simp: labels_ok_def)

lemma parse_args_named_gives:
  "p_ok f p \<Longrightarrow> 2 * psize p \<le> n \<Longrightarrow>
     gives f (psize p) (\<lambda>(args, names). list_all expr_wf args \<and> labels_ok args names) (parse_args_named pe p)"
  unfolding parse_args_named_def
  by (intro gives_expect gives_return gives_bind [OF comma_list_gives [where s = "psize p - 1" and Q = "\<lambda>a. expr_wf (snd a)"]] parse_arg_gives)
    (auto simp: labels_ok_map list.pred_map comp_def simp del: not_None_eq)

lemma gives_args:
  "p_ok f p \<Longrightarrow> 2 * psize p \<le> n \<Longrightarrow>
    (\<And>args names p'. p_ok f p' \<Longrightarrow> psize p' < psize p \<Longrightarrow> list_all expr_wf args \<Longrightarrow> labels_ok args names \<Longrightarrow> gives f s Q (g args names p')) \<Longrightarrow>
    gives f s Q (bind_res (parse_args_named pe p) (\<lambda>((args, names), p'). g args names p'))"
  by (rule gives_bind [OF parse_args_named_gives]) auto

lemma parse_args_gives: "p_ok f p \<Longrightarrow> 2 * psize p \<le> n \<Longrightarrow> gives f (psize p) (list_all expr_wf) (parse_args pe p)"
  unfolding parse_args_def by (intro gives_args gives_return) auto

lemma block_gives: "p_ok f p \<Longrightarrow> 2 * psize p \<le> n \<Longrightarrow> gives f (psize p) (list_all stmt_wf) (pb p)"
  unfolding block_body_def
  by (intro gives_expect gives_return gives_bind [OF until_list_gives [where s = "psize p - 1" and Q = stmt_wf]] ps_gives) auto

lemma arrow_params_gives:
  "p_ok f p \<Longrightarrow> gives f (bound p) (list_all (\<lambda>x. param_wf x \<and> param_default x = None)) (comma_list (bound p) T_RPAREN arrow_param p)"
  by (rule comma_list_gives [where s = "psize p"]) (auto simp: arrow_param_def intro!: vt_parse)

lemma no_defaults: "list_all (\<lambda>x. param_wf x \<and> param_default x = None) xs \<Longrightarrow> list_all param_wf xs \<and> defaults_last xs \<and> first_default xs = None"
  by (induction xs) auto

lemma head0_ok: "head_ok ((fn_head0 l)\<lparr>arrow_id := k\<rparr>)" "\<not> is_extern (fn_head0 l)"
  by (simp_all add: head_ok_def fn_head0_def typarams_ok_def)

lemma parse_arrow_gives: "p_ok f p \<Longrightarrow> 2 * psize p \<le> n \<Longrightarrow> gives f (psize p) expr_wf (parse_arrow pe pb p)"
  unfolding parse_arrow_def Let_def
  by (intro gives_expect gives_bind [OF arrow_params_gives] gives_if gives_bind [OF block_gives] gives_bind [OF pe_gives] gives_return)
    (auto dest: no_defaults simp: head0_ok)

lemma tstr_parts_gives:
  "p_ok f p \<Longrightarrow> 2 * psize p \<le> n \<Longrightarrow> psize p < m \<Longrightarrow> cur p \<noteq> T_EOF \<Longrightarrow>
     gives f (psize p) (\<lambda>es. list_all expr_wf es \<and> chunks es) (tstr_parts m pe p)"
proof (induction m arbitrary: p)
  case (Suc m)
  show ?case
    unfolding tstr_parts.simps Let_def using Suc.prems
    by (intro gives_advance gives_if gives_fail gives_return gives_bind [OF pe_gives] gives_bind [OF Suc.IH]) auto
qed simp

lemma literal_gives: "p_ok f p \<Longrightarrow> cur p \<noteq> T_EOF \<Longrightarrow> expr_wf e \<Longrightarrow> gives f (psize p) expr_wf (literal e p)"
  unfolding literal_def by (intro vt_parse) auto

lemma primary_super_gives:
  "p_ok f p \<Longrightarrow> 2 * psize p \<le> n \<Longrightarrow> cur p = T_SUPER \<Longrightarrow> gives f (psize p) expr_wf (primary_super pe p)"
  unfolding primary_super_def Let_def by (intro vt_parse gives_args) auto

lemma primary_new_gives:
  "p_ok f p \<Longrightarrow> 2 * psize p \<le> n \<Longrightarrow> cur p = T_NEW \<Longrightarrow> gives f (psize p) expr_wf (primary_new pe p)"
  unfolding primary_new_def Let_def
  by (intro vt_parse gives_args gives_bind [OF parse_args_gives] gives_bind [OF parse_type_gives] gives_bind [OF vt_types.parse_type_args_gives])
    (auto simp: labels_ok_def)

lemma primary_array_gives:
  "p_ok f p \<Longrightarrow> 2 * psize p \<le> n \<Longrightarrow> cur p = T_LBRACKET \<Longrightarrow> gives f (psize p) expr_wf (primary_array pe p)"
  unfolding primary_array_def Let_def
  by (intro vt_parse gives_bind [OF comma_list_gives [where s = "psize p - 1" and Q = expr_wf]] pe_gives) auto

lemma primary_paren_gives:
  "p_ok f p \<Longrightarrow> 2 * psize p \<le> n \<Longrightarrow> cur p = T_LPAREN \<Longrightarrow> gives f (psize p) expr_wf (primary_paren pe pb p)"
  unfolding primary_paren_def
  by (intro gives_asks [OF looks_like_arrow_asks] gives_if parse_arrow_gives vt_parse gives_bind [OF pe_gives]) auto

lemma parse_primary_gives: "p_ok f p \<Longrightarrow> 2 * psize p \<le> n \<Longrightarrow> gives f (psize p) expr_wf (parse_primary pe pb p)"
  unfolding parse_primary_def Let_def
  by (intro gives_if literal_gives gives_bind [OF tstr_parts_gives] primary_super_gives primary_new_gives
      primary_array_gives primary_paren_gives gives_fail gives_return) auto

lemma postfix_loop_gives:
  "p_ok f p \<Longrightarrow> 2 * psize p \<le> n \<Longrightarrow> psize p < m \<Longrightarrow> expr_wf e \<Longrightarrow> gives f (bound p) expr_wf (postfix_loop m pe e p)"
proof (induction m arbitrary: p e)
  case (Suc m)
  show ?case
    unfolding postfix_loop.simps using Suc.prems
    by (intro gives_asks [OF generic_call_asks] vt_parse gives_args gives_bind [OF vt_types.parse_type_args_gives]
        gives_bind [OF pe_gives] gives_mono [OF Suc.IH]) auto
qed simp

lemma parse_postfix_gives: "p_ok f p \<Longrightarrow> 2 * psize p \<le> n \<Longrightarrow> gives f (psize p) expr_wf (parse_postfix pe pb p)"
  unfolding parse_postfix_def
  by (intro gives_bind [OF parse_primary_gives] gives_mono [OF postfix_loop_gives]) auto

lemma unary_not_EOF: "is_unary_op k \<Longrightarrow> k \<noteq> T_EOF" "is_assign_op k \<Longrightarrow> k \<noteq> T_EOF" "bin_prec k \<noteq> 0 \<Longrightarrow> k \<noteq> T_EOF"
  by (auto simp: is_unary_op_def is_assign_op_def bin_prec_def)

lemma bin_prec_EOF: "bin_prec T_EOF = 0"
  by (simp add: bin_prec_def)

lemma parse_unary_gives:
  "p_ok f p \<Longrightarrow> 2 * psize p \<le> n \<Longrightarrow> psize p < m \<Longrightarrow> gives f (psize p) expr_wf (parse_unary m pe pb p)"
proof (induction m arbitrary: p)
  case (Suc m)
  show ?case
    unfolding parse_unary.simps using Suc.prems
    by (intro gives_if gives_advance gives_return gives_bind [OF Suc.IH] parse_postfix_gives) (auto dest: unary_not_EOF)
qed simp

lemma as_loop_gives: "p_ok f p \<Longrightarrow> psize p < m \<Longrightarrow> expr_wf e \<Longrightarrow> gives f (bound p) expr_wf (as_loop m e p)"
proof (induction m arbitrary: p e)
  case (Suc m)
  show ?case
    unfolding as_loop.simps using Suc.prems
    by (intro vt_parse gives_bind [OF parse_type_gives] gives_mono [OF Suc.IH]) auto
qed simp

lemma parse_as_gives: "p_ok f p \<Longrightarrow> 2 * psize p \<le> n \<Longrightarrow> gives f (psize p) expr_wf (parse_as pe pb p)"
  unfolding parse_as_def by (intro gives_bind [OF parse_unary_gives] gives_mono [OF as_loop_gives]) auto

lemma parse_bin_gives:
  "p_ok f p \<Longrightarrow> 2 * psize p \<le> n \<Longrightarrow> 2 * psize p < m \<Longrightarrow> gives f (psize p) expr_wf (parse_bin m (parse_as pe pb) k p)"
  "p_ok f p \<Longrightarrow> 2 * psize p \<le> n \<Longrightarrow> 2 * psize p < m \<Longrightarrow> expr_wf lhs \<Longrightarrow>
     gives f (bound p) expr_wf (bin_loop m (parse_as pe pb) k lhs p)"
proof (induction m arbitrary: p k lhs)
  case (Suc m)
  {
    case 1
    then show ?case
      unfolding parse_bin.simps by (intro gives_bind [OF parse_as_gives] gives_mono [OF Suc.IH(2)]) auto
  next
    case 2
    then show ?case
      unfolding bin_loop.simps Let_def
      by (intro gives_if gives_return gives_advance gives_bind [OF Suc.IH(1)] gives_mono [OF Suc.IH(2)])
        (auto simp: bin_prec_EOF)
  }
qed simp_all

lemma expr_body_gives: "p_ok f p \<Longrightarrow> 2 * psize p \<le> n \<Longrightarrow> gives f (psize p) expr_wf (expr_body pe pb p)"
  unfolding expr_body_def
  by (intro gives_bind [OF parse_bin_gives(1)] gives_if gives_return gives_advance gives_bind [OF pe_gives])
    (auto dest: unary_not_EOF)

text \<open>Statements may begin with an expression, which costs one more level.\<close>

lemma paren_expr_gives: "p_ok f p \<Longrightarrow> 2 * psize p \<le> n \<Longrightarrow> gives f (psize p) expr_wf (paren_expr pe p)"
  unfolding paren_expr_def by (intro vt_parse gives_bind [OF pe_gives]) auto

lemma stmt_let_gives:
  "p_ok f p \<Longrightarrow> 2 * psize p \<le> n \<Longrightarrow> cur p = T_LET \<Longrightarrow> gives f (psize p) stmt_wf (stmt_let pe p)"
  unfolding stmt_let_def Let_def
  by (intro vt_parse gives_bind [OF parse_type_gives] gives_bind [OF pe_gives]) auto

lemma arm_values_gives:
  "p_ok f p \<Longrightarrow> 2 * psize p \<le> n \<Longrightarrow>
     gives f (psize p) (\<lambda>(d, vals). (d \<longleftrightarrow> vals = []) \<and> list_all expr_wf vals) (arm_values pe p)"
  unfolding arm_values_def
  by (intro vt_parse gives_bind [OF comma_list1_gives [where s = "psize p - 1" and Q = expr_wf]] pe_gives) auto

lemma switch_arm_gives: "p_ok f p \<Longrightarrow> 2 * psize p \<le> n \<Longrightarrow> gives f (psize p) arm_wf (switch_arm pe ps p)"
  unfolding switch_arm_def Let_def
proof (rule gives_bind [OF arm_values_gives], assumption, assumption)
  fix x p1
  assume a: "p_ok f p" "2 * psize p \<le> n" "p_ok f p1" "psize p1 < psize p" "case x of (d, vals) \<Rightarrow> (d \<longleftrightarrow> vals = []) \<and> list_all expr_wf vals"
  obtain d vals where x: "x = (d, vals)" by (cases x)
  show "gives f (psize p) arm_wf ((case x of (d, vals) \<Rightarrow> \<lambda>p1. bind_res (expect T_COLON p1) (\<lambda>(_, p2).
      if cur p2 = T_CASE \<or> cur p2 = T_DEFAULT then fatal_here p2 stacked_label
      else bind_res (pb p2) (\<lambda>(body, p3). Inr (SwitchArm (ploc p) d vals body, p3)))) p1)"
    unfolding x prod.case using a
    by (intro gives_expect gives_if gives_fail gives_bind [OF block_gives] gives_return) (auto simp: x)
qed

lemma stmt_switch_gives:
  "p_ok f p \<Longrightarrow> 2 * psize p \<le> n \<Longrightarrow> cur p = T_SWITCH \<Longrightarrow> gives f (psize p) stmt_wf (stmt_switch pe ps p)"
  unfolding stmt_switch_def Let_def
  by (intro vt_parse gives_bind [OF paren_expr_gives] gives_bind [OF until_list_gives [where s = "psize p - 1" and Q = arm_wf]]
      switch_arm_gives) auto

lemma stmt_if_gives:
  "p_ok f p \<Longrightarrow> 2 * psize p \<le> n \<Longrightarrow> cur p = T_IF \<Longrightarrow> gives f (psize p) stmt_wf (stmt_if pe ps p)"
  unfolding stmt_if_def Let_def
  by (intro vt_parse gives_bind [OF paren_expr_gives] gives_bind [OF block_gives] gives_bind [OF ps_gives]) auto

lemma stmt_while_gives:
  "p_ok f p \<Longrightarrow> 2 * psize p \<le> n \<Longrightarrow> cur p = T_WHILE \<Longrightarrow> gives f (psize p) stmt_wf (stmt_while pe ps p)"
  unfolding stmt_while_def Let_def
  by (intro vt_parse gives_bind [OF paren_expr_gives] gives_bind [OF block_gives]) auto

lemma stmt_for_gives:
  "p_ok f p \<Longrightarrow> 2 * psize p \<le> n \<Longrightarrow> cur p = T_FOR \<Longrightarrow> gives f (psize p) stmt_wf (stmt_for pe ps p)"
  unfolding stmt_for_def Let_def
  by (intro vt_parse gives_bind [OF pe_gives] gives_bind [OF block_gives]) auto

lemma stmt_return_gives:
  "p_ok f p \<Longrightarrow> 2 * psize p \<le> n \<Longrightarrow> cur p = T_RETURN \<Longrightarrow> gives f (psize p) stmt_wf (stmt_return pe p)"
  unfolding stmt_return_def Let_def by (intro vt_parse gives_bind [OF pe_gives]) auto

lemma stmt_jump_gives:
  "p_ok f p \<Longrightarrow> cur p \<noteq> T_EOF \<Longrightarrow> (\<And>l. stmt_wf (s l)) \<Longrightarrow> gives f (psize p) stmt_wf (stmt_jump s p)"
  unfolding stmt_jump_def by (intro vt_parse) auto

lemma stmt_arena_gives:
  "p_ok f p \<Longrightarrow> 2 * psize p \<le> n \<Longrightarrow> cur p = T_ARENA \<Longrightarrow> gives f (psize p) stmt_wf (stmt_arena ps p)"
  unfolding stmt_arena_def Let_def by (intro vt_parse gives_bind [OF block_gives]) auto

lemma stmt_expr_gives: "p_ok f p \<Longrightarrow> 2 * psize p < n \<Longrightarrow> gives f (psize p) stmt_wf (stmt_expr pe p)"
  unfolding stmt_expr_def by (intro vt_parse gives_bind [OF pe_gives]) auto

lemma stmt_body_gives: "p_ok f p \<Longrightarrow> 2 * psize p < n \<Longrightarrow> gives f (psize p) stmt_wf (stmt_body pe ps p)"
  unfolding stmt_body_def Let_def
  by (intro gives_if stmt_let_gives stmt_switch_gives stmt_if_gives stmt_while_gives stmt_for_gives stmt_return_gives
      stmt_jump_gives gives_bind [OF block_gives] gives_return stmt_arena_gives stmt_expr_gives) auto

end

lemma sub_parsers_n: "sub_parsers (parse_expr_n n) (parse_stmt_n n) f n"
proof (induction n)
  case (Suc n)
  show ?case
    by unfold_locales
      (simp_all only: parse_expr_n.simps parse_stmt_n.simps,
       auto intro!: sub_parsers.expr_body_gives [OF Suc] sub_parsers.stmt_body_gives [OF Suc])
qed (unfold_locales, simp_all)

lemma parse_expr_gives: "p_ok f p \<Longrightarrow> gives f (psize p) expr_wf (parse_expr p)"
  and parse_stmt_gives: "p_ok f p \<Longrightarrow> gives f (psize p) stmt_wf (parse_stmt p)"
  using sub_parsers.pe_gives [OF sub_parsers_n, of f p "2 * bound p"] sub_parsers.ps_gives [OF sub_parsers_n, of f p "2 * bound p"]
  by (simp_all add: parse_expr_def parse_stmt_def)

interpretation vt_parsers: sub_parsers parse_expr parse_stmt f n for f n
  by unfold_locales (simp_all add: parse_expr_gives parse_stmt_gives)

lemma parse_block_gives: "p_ok f p \<Longrightarrow> gives f (psize p) (list_all stmt_wf) (parse_block p)"
  unfolding parse_block_def using vt_parsers.block_gives [of f p "2 * psize p"] by simp

section \<open>Declarations meet their contract\<close>

abbreviation fn_head_of :: "fn_decl \<Rightarrow> fn_head" where
  "fn_head_of fd \<equiv> (case fd of FnDecl h _ _ _ \<Rightarrow> h)"

abbreviation fn_ret_of :: "fn_decl \<Rightarrow> ty option" where
  "fn_ret_of fd \<equiv> (case fd of FnDecl _ _ r _ \<Rightarrow> r)"

definition const_wf :: "const_decl \<Rightarrow> bool" where
  "const_wf c \<longleftrightarrow> ty_wf (c_type c) \<and> expr_wf (c_init c)"

definition enum_wf :: "enum_decl \<Rightarrow> bool" where
  "enum_wf ed \<longleftrightarrow> ed_variants ed \<noteq> [] \<and> list_all (\<lambda>v. pred_option expr_wf (v_init v)) (ed_variants ed)"

text \<open>Members know their owner; a builder returns the class it belongs to.\<close>

definition struct_wf :: "struct_decl \<Rightarrow> bool" where
  "struct_wf sd \<longleftrightarrow> typarams_ok (sd_typarams sd) \<and> (sd_extern sd \<longrightarrow> sd_typarams sd = []) \<and>
     list_all (\<lambda>x. ty_wf (f_type x)) (sd_fields sd) \<and>
     list_all (\<lambda>m. fn_wf m \<and> fd_sowner (fn_head_of m) = Some (sd_name sd) \<and> fd_name (fn_head_of m) \<noteq> None \<and>
       \<not> is_extern (fn_head_of m)) (sd_methods sd)"

definition method_wf :: "string \<Rightarrow> fn_decl \<Rightarrow> bool" where
  "method_wf c m \<longleftrightarrow> fn_wf m \<and> fd_owner (fn_head_of m) = Some c \<and> fd_name (fn_head_of m) \<noteq> None \<and>
     (is_builder (fn_head_of m) \<longrightarrow> (\<exists>t. fn_ret_of m = Some t \<and> ty_kind t = TY_NAMED \<and> ty_name t = Some c))"

definition class_wf :: "class_decl \<Rightarrow> bool" where
  "class_wf cd \<longleftrightarrow> typarams_ok (cd_typarams cd) \<and> list_all (\<lambda>x. ty_wf (f_type x)) (cd_fields cd) \<and>
     list_all (method_wf (cd_name cd)) (cd_methods cd) \<and> list_all const_wf (cd_consts cd) \<and>
     pred_option (\<lambda>m. method_wf (cd_name cd) m \<and> fd_name (fn_head_of m) = Some ''init'' \<and>
       \<not> is_static (fn_head_of m) \<and> \<not> is_virtual (fn_head_of m) \<and> \<not> is_override (fn_head_of m)) (ctor cd) \<and>
     list_all stmt_wf (deinit_body cd)"

fun decl_wf :: "decl \<Rightarrow> bool" where
  "decl_wf (D_FN l fd) = (fn_wf fd \<and> \<not> is_extern (fn_head_of fd))"
| "decl_wf (D_EXTERN_FN l fd) = (fn_wf fd \<and> is_extern (fn_head_of fd))"
| "decl_wf (D_STRUCT l sd) = struct_wf sd"
| "decl_wf (D_CLASS l cd) = class_wf cd"
| "decl_wf (D_ENUM l ed) = enum_wf ed"
| "decl_wf (D_CONST c) = const_wf c"
| "decl_wf (D_IMPORT l ns s) = True"
| "decl_wf (D_LINK l s c) = True"

lemma parse_param_gives:
  "p_ok f p \<Longrightarrow> gives f (psize p) (\<lambda>x. param_wf x \<and> l_file (param_loc x) = Some f \<and> (seen \<longrightarrow> param_default x \<noteq> None)) (parse_param seen p)"
  unfolding parse_param_def Let_def
  by (intro vt_parse gives_bind [OF parse_type_gives] gives_bind [OF parse_expr_gives]) auto

definition params_good :: "string \<Rightarrow> bool \<Rightarrow> param list \<Rightarrow> bool" where
  "params_good f seen xs \<longleftrightarrow> list_all param_wf xs \<and> defaults_last xs \<and> (\<forall>x\<in>set xs. l_file (param_loc x) = Some f) \<and>
     (seen \<longrightarrow> (\<forall>x\<in>set xs. param_default x \<noteq> None))"

lemma params_loop_gives:
  "p_ok f p \<Longrightarrow> psize p < n \<Longrightarrow> gives f (bound p) (params_good f seen) (params_loop n seen p)"
proof (induction n arbitrary: p seen)
  case (Suc n)
  show ?case
    unfolding params_loop.simps using Suc.prems
    by (intro vt_parse gives_bind [OF parse_param_gives] gives_bind [OF Suc.IH]) (auto simp: params_good_def)
qed simp

lemma parse_params_gives: "p_ok f p \<Longrightarrow> gives f (psize p) (params_good f False) (parse_params p)"
  unfolding parse_params_def by (intro vt_parse gives_bind [OF params_loop_gives]) auto

lemma first_default_loc: "params_good f seen xs \<Longrightarrow> first_default xs = Some l \<Longrightarrow> l_file l = Some f"
  unfolding params_good_def by (induction xs) (auto split: if_splits)

lemma fn_rest_gives:
  assumes "p_ok f p" "head_ok h" "\<not> is_extern h" "ext \<Longrightarrow> fd_typarams h = []"
  shows "gives f (psize p) (\<lambda>fd. fn_wf fd \<and> fn_head_of fd = h\<lparr>is_extern := ext\<rparr>) (fn_rest ext h p)"
  unfolding fn_rest_def
proof (rule gives_bind [OF parse_params_gives [OF assms(1)]], rule gives_bind [OF vt_types.optional_type_gives])
  fix ps p1 r p2
  assume a: "p_ok f p1" "psize p1 < psize p" "params_good f False ps" "p_ok f p2" "psize p2 < bound p1" "ty_wf r"
  have ps: "list_all param_wf ps" "defaults_last ps" using a(3) by (simp_all add: params_good_def)
  have h: "h\<lparr>is_extern := False\<rparr> = h" using assms(3) by simp
  show "gives f (psize p) (\<lambda>fd. fn_wf fd \<and> fn_head_of fd = h\<lparr>is_extern := ext\<rparr>)
      (if ext then case first_default ps of Some l \<Rightarrow> Inl (FatalAt l ''extern functions cannot have default arguments'')
           | None \<Rightarrow> bind_res (expect T_SEMI p2) (\<lambda>(_, p). Inr (FnDecl (h\<lparr>is_extern := True\<rparr>) ps (Some r) [], p))
       else bind_res (parse_block p2) (\<lambda>(body, p). Inr (FnDecl h ps (Some r) body, p)))"
  proof (cases ext)
    case True
    show ?thesis
    proof (cases "first_default ps")
      case None
      then show ?thesis
        using True a ps assms by (simp, intro gives_expect gives_return) (auto simp: head_ok_def)
    next
      case (Some l)
      then show ?thesis using True first_default_loc [OF a(3)] by (simp add: gives_fail_at)
    qed
  next
    case False
    then show ?thesis
      using a ps assms h by (simp, intro gives_bind [OF parse_block_gives] gives_return) (auto simp: h)
  qed
qed auto

lemma head0_typarams: "typarams_ok tps \<Longrightarrow> head_ok ((fn_head0 l)\<lparr>fd_name := nm, fd_typarams := tps\<rparr>)"
  "fd_typarams ((fn_head0 l)\<lparr>fd_name := nm, fd_typarams := tps\<rparr>) = tps" "\<not> is_extern (fn_head0 l)"
  by (auto simp: head_ok_def fn_head0_def typarams_ok_def)

lemma parse_fn_gives: "p_ok f p \<Longrightarrow> gives f (psize p) (\<lambda>fd. fn_wf fd \<and> is_extern (fn_head_of fd) = ext) (parse_fn ext p)"
  unfolding parse_fn_def Let_def
  by (intro vt_parse gives_bind [OF parse_typarams_gives] gives_bind [OF fn_rest_gives]) (auto simp: head0_typarams)

lemma parse_field_gives: "p_ok f p \<Longrightarrow> gives f (psize p) (\<lambda>x. ty_wf (f_type x)) (parse_field p)"
  unfolding parse_field_def Let_def by (intro vt_parse gives_bind [OF parse_type_gives]) auto

lemma parse_const_gives: "p_ok f p \<Longrightarrow> cur p \<noteq> T_EOF \<Longrightarrow> gives f (psize p) const_wf (parse_const p)"
  unfolding parse_const_def Let_def
  by (intro vt_parse gives_bind [OF parse_type_gives] gives_bind [OF parse_expr_gives]) (auto simp: const_wf_def)

lemma parse_variant_gives: "p_ok f p \<Longrightarrow> gives f (psize p) (\<lambda>v. pred_option expr_wf (v_init v)) (parse_variant p)"
  unfolding parse_variant_def Let_def by (intro vt_parse gives_bind [OF parse_expr_gives]) auto

lemma parse_enum_gives: "p_ok f p \<Longrightarrow> gives f (psize p) enum_wf (parse_enum p)"
  unfolding parse_enum_def Let_def
  by (intro vt_parse gives_bind [OF comma_list_gives [where s = "psize p" and Q = "\<lambda>v. pred_option expr_wf (v_init v)"]] parse_variant_gives)
    (auto simp: enum_wf_def)

lemma struct_method_gives:
  "p_ok f p \<Longrightarrow> cur p = T_FN \<Longrightarrow>
     gives f (psize p) (\<lambda>m. fn_wf m \<and> fd_sowner (fn_head_of m) = Some c \<and> fd_name (fn_head_of m) \<noteq> None \<and> \<not> is_extern (fn_head_of m))
       (struct_method c p)"
  unfolding struct_method_def Let_def
  by (intro gives_advance gives_if gives_fail gives_ident gives_mono [OF fn_rest_gives])
    (auto simp: head_ok_def fn_head0_def typarams_ok_def)

lemma struct_member_gives:
  "p_ok f p \<Longrightarrow> struct_wf sd \<Longrightarrow> gives f (psize p) struct_wf (struct_member sd p)"
  unfolding struct_member_def
  by (intro gives_if gives_fail gives_bind [OF struct_method_gives] gives_bind [OF parse_field_gives] gives_return)
    (auto simp: struct_wf_def)

lemma parse_struct_gives: "p_ok f p \<Longrightarrow> gives f (psize p) struct_wf (parse_struct ext p)"
  unfolding parse_struct_def Let_def
  by (intro vt_parse gives_bind [OF parse_typarams_gives] gives_bind [OF fill_until_gives [where s = "psize p" and Q = struct_wf]]
      struct_member_gives) (auto simp: struct_wf_def typarams_ok_def)

definition mods_ok :: "bool \<times> bool \<times> bool \<times> bool \<Rightarrow> bool" where
  "mods_ok mods \<longleftrightarrow> (case mods of (st, bu, vi, ov) \<Rightarrow>
     \<not> (bu \<and> (vi \<or> ov)) \<and> \<not> (st \<and> (vi \<or> ov)) \<and> \<not> (st \<and> bu) \<and> \<not> (vi \<and> ov))"

lemma class_modifiers_gives: "p_ok f p \<Longrightarrow> gives f (bound p) mods_ok (class_modifiers p)"
  unfolding class_modifiers_def by (intro vt_parse) (auto simp: mods_ok_def)

lemma class_deinit_gives:
  "p_ok f p \<Longrightarrow> cur p = T_DEINIT \<Longrightarrow> class_wf cd \<Longrightarrow> gives f (psize p) class_wf (class_deinit_block mods cd p)"
  unfolding class_deinit_block_def
  by (cases mods, simp only: prod.case, intro vt_parse gives_bind [OF parse_block_gives]) (auto simp: class_wf_def)

definition class_head :: "bool \<times> bool \<times> bool \<times> bool \<Rightarrow> string \<Rightarrow> fn_head \<Rightarrow> bool" where
  "class_head mods c h \<longleftrightarrow> head_ok h \<and> fd_owner h = Some c \<and> \<not> is_extern h \<and>
     mods = (is_static h, is_builder h, is_virtual h, is_override h)"

lemma class_init_gives:
  assumes "p_ok f p" "cur p = T_INIT" "class_wf cd" "class_head mods (cd_name cd) h" "l_file (fd_loc h) = Some f"
  shows "gives f (psize p) class_wf (class_init mods h cd p)"
proof -
  have m: "mods = (is_static h, is_builder h, is_virtual h, is_override h)" using assms(4) by (simp add: class_head_def)
  show ?thesis
    unfolding class_init_def m prod.case using assms
    by (intro vt_parse gives_bind [OF parse_params_gives] gives_bind [OF parse_block_gives])
      (auto simp: class_wf_def class_head_def method_wf_def head_ok_def params_good_def type_new_def)
qed

lemma class_method_gives:
  assumes "p_ok f p" "class_wf cd" "class_head mods (cd_name cd) h"
  shows "gives f (psize p) class_wf (class_method h cd p)"
  unfolding class_method_def using assms
  by (intro vt_parse gives_bind [OF parse_params_gives] gives_bind [OF parse_block_gives]
      gives_bind [OF vt_types.optional_type_gives])
    (auto simp: class_wf_def class_head_def method_wf_def head_ok_def params_good_def)

lemma class_fn_gives:
  "p_ok f p \<Longrightarrow> cur p = T_FN \<Longrightarrow> class_wf cd \<Longrightarrow> mods_ok mods \<Longrightarrow> gives f (psize p) class_wf (class_fn mods cd p)"
  unfolding class_fn_def
  by (cases mods, simp only: prod.case Let_def,
      intro gives_advance gives_if gives_mono [OF class_init_gives] gives_mono [OF class_method_gives [where mods = mods]])
    (auto simp: mods_ok_def class_head_def head_ok_def fn_head0_def typarams_ok_def)

lemma class_member_gives: "p_ok f p \<Longrightarrow> class_wf cd \<Longrightarrow> gives f (psize p) class_wf (class_member cd p)"
  unfolding class_member_def
  by (intro gives_if gives_fail gives_bind [OF parse_const_gives] gives_bind [OF class_modifiers_gives]
      gives_mono [OF class_deinit_gives] gives_mono [OF class_fn_gives] gives_bind [OF parse_field_gives] gives_return)
    (auto simp: class_wf_def)

lemma class_parent_gives: "p_ok f p \<Longrightarrow> gives f (bound p) (\<lambda>_. True) (class_parent p)"
  unfolding class_parent_def by (intro vt_parse) auto

lemma parse_class_gives: "p_ok f p \<Longrightarrow> gives f (psize p) class_wf (parse_class p)"
  unfolding parse_class_def Let_def
  by (intro vt_parse gives_bind [OF parse_typarams_gives] gives_bind [OF class_parent_gives]
      gives_bind [OF fill_until_gives [where s = "psize p" and Q = class_wf]] class_member_gives)
    (auto simp: class_wf_def)

section \<open>Modules meet their contract\<close>

lemma expect_ident_gives: "p_ok f p \<Longrightarrow> gives f (psize p) (\<lambda>_. True) (expect_ident p)"
  using gives_ident [of f p "psize p" "\<lambda>_. True" "\<lambda>x p. Inr (x, p)"] by (simp add: gives_return bind_res_def split: sum.splits)

lemma parse_link_gives: "p_ok f p \<Longrightarrow> cur p = T_HASH \<Longrightarrow> gives f (psize p) decl_wf (parse_link p)"
  unfolding parse_link_def Let_def by (intro vt_parse) auto

lemma parse_import_gives: "p_ok f p \<Longrightarrow> cur p = T_IMPORT \<Longrightarrow> gives f (psize p) decl_wf (parse_import p)"
  unfolding parse_import_def Let_def
  by (intro vt_parse gives_bind [OF comma_list_gives [where s = "psize p" and Q = "\<lambda>_. True"]] expect_ident_gives) auto

lemma extern_item_gives: "p_ok f p \<Longrightarrow> gives f (psize p) decl_wf (extern_item p)"
  unfolding extern_item_def Let_def
  by (intro vt_parse gives_bind [OF parse_fn_gives] gives_bind [OF parse_struct_gives]) auto

lemma parse_extern_gives: "p_ok f p \<Longrightarrow> cur p = T_EXTERN \<Longrightarrow> gives f (psize p) (list_all decl_wf) (parse_extern p)"
  unfolding parse_extern_def
  by (intro vt_parse gives_bind [OF until_list_gives [where s = "psize p" and Q = decl_wf]] extern_item_gives) auto

lemma one_decl_gives:
  "gives f s Q (g p) \<Longrightarrow> (\<And>x. Q x \<Longrightarrow> decl_wf (d x)) \<Longrightarrow> gives f s (list_all decl_wf) (one_decl d g p)"
  unfolding one_decl_def by (erule gives_bind) (auto intro: gives_return)

lemma parse_decl_gives:
  assumes "p_ok f p"
  shows "gives f (psize p) (list_all decl_wf) (parse_decl p)"
proof -
  have one: "gives f (psize p') (list_all decl_wf) (let k = cur p'; l = ploc p'
     in if k = T_HASH then one_decl (\<lambda>d. d) parse_link p'
        else if k = T_IMPORT then one_decl (\<lambda>d. d) parse_import p'
        else if k = T_CONST then one_decl D_CONST parse_const p'
        else if k = T_FN then one_decl (D_FN l) (parse_fn False) p'
        else if k = T_STRUCT then one_decl (D_STRUCT l) (parse_struct False) p'
        else if k = T_ENUM then one_decl (D_ENUM l) parse_enum p'
        else if k = T_CLASS then one_decl (D_CLASS l) parse_class p'
        else if k = T_EXTERN then parse_extern p'
        else fatal_here p' (''expected declaration, got '' @ tok_desc k))" if "p_ok f p'" for p'
    unfolding Let_def using that
    by (intro gives_if gives_fail parse_extern_gives one_decl_gives [OF parse_link_gives] one_decl_gives [OF parse_import_gives]
        one_decl_gives [OF parse_const_gives] one_decl_gives [OF parse_fn_gives] one_decl_gives [OF parse_struct_gives]
        one_decl_gives [OF parse_enum_gives] one_decl_gives [OF parse_class_gives]) auto
  show ?thesis
    unfolding parse_decl_def using assms by (intro gives_accept gives_mono [OF one]) auto
qed

lemma lex_init_at:
  "case lex_init f src of Inl e \<Rightarrow> diag_in f e | Inr lx \<Rightarrow> lx_at f lx"
proof (cases "lex_init f src")
  case (Inl e)
  then show ?thesis using lex_next_contract [OF lex_init_start(2) [of f src]] by (simp add: lex_init_start)
next
  case (Inr lx)
  have "has_ahead (lx_start f src) = False" by (simp add: lx_start_def)
  then obtain lx1 t where s: "scan (lx_tok (lx_start f src)) (lx_start f src) = Inr (lx1, t)" and lx: "lx = lx1\<lparr>lx_tok := t\<rparr>"
    using Inr by (auto simp: lex_init_start lex_next_def)
  show ?thesis
    using Inr scan_frame [OF lex_init_start(2) s] by (simp add: lx_at_def lx lx_ok_def lex_init_start lx_start_def)
qed

lemma parse_module_gives:
  "case parse_module junk f modname src of Inl e \<Rightarrow> diag_in f e | Inr m \<Rightarrow> list_all decl_wf (m_decls m)"
proof (cases "lex_init f src")
  case (Inl e)
  then show ?thesis using lex_init_at [of f src] by (simp add: parse_module_def)
next
  case (Inr lx)
  let ?p = "\<lparr>p_lx = lx, p_arrows = 0, p_typarams = junk\<rparr>"
  have "p_ok f ?p" using lex_init_at [of f src] Inr by (simp add: p_ok_def)
  then have g: "gives f (bound ?p) (list_all (list_all decl_wf)) (until_list (bound ?p) T_EOF parse_decl ?p)"
    by (intro until_list_gives [where s = "psize ?p"] parse_decl_gives) auto
  then show ?thesis
    using Inr by (cases "until_list (bound ?p) T_EOF parse_decl ?p")
      (auto simp: parse_module_def Let_def gives_def list_all_iff simp del: until_list.simps)
qed

section \<open>Precedence climbing and the grammar of binary operators\<close>

text \<open>The stratified, left-recursive grammar of binary operators: an expression of level \<open>m\<close> is
  an operand, or an expression of level \<open>k \<ge> m\<close>, an operator of precedence \<open>k\<close> and an
  expression of level \<open>k + 1\<close>. The states are those before and after the tokens.\<close>

inductive bin_gram :: "expr parse \<Rightarrow> nat \<Rightarrow> parser \<Rightarrow> expr \<Rightarrow> parser \<Rightarrow> bool" for pa where
  Leaf: "pa p = Inr (e, p') \<Longrightarrow> bin_gram pa m p e p'"
| Node: "bin_gram pa k p l p1 \<Longrightarrow> bin_prec (cur p1) = k \<Longrightarrow> m \<le> k \<Longrightarrow> 0 < k \<Longrightarrow> advance p1 = Inr ((), p2) \<Longrightarrow>
    bin_gram pa (k + 1) p2 r p3 \<Longrightarrow> bin_gram pa m p (EX_BIN (ploc p1) (cur p1) l r) p3"

lemma bin_gram_mono: "bin_gram pa m p e p' \<Longrightarrow> m' \<le> m \<Longrightarrow> bin_gram pa m' p e p'"
  by (induction rule: bin_gram.cases) (auto intro: bin_gram.intros)

lemma parse_bin_sound:
  "parse_bin n pa m p = Inr (e, p') \<Longrightarrow> bin_gram pa m p e p' \<and> (bin_prec (cur p') < m \<or> bin_prec (cur p') = 0)"
  "bin_loop n pa m lhs p = Inr (e, p') \<Longrightarrow> (bin_prec (cur p) \<noteq> 0 \<Longrightarrow> m \<le> bin_prec (cur p) \<Longrightarrow> bin_gram pa (bin_prec (cur p)) p0 lhs p) \<Longrightarrow>
     bin_gram pa m p0 lhs p \<Longrightarrow> bin_gram pa m p0 e p' \<and> (bin_prec (cur p') < m \<or> bin_prec (cur p') = 0)"
proof (induction n arbitrary: m p e p' lhs p0)
  case (Suc n)
  {
    case 1
    then obtain l p1 where l: "pa p = Inr (l, p1)" "bin_loop n pa m l p1 = Inr (e, p')" by auto
    have leaf: "bin_gram pa j p l p1" for j using bin_gram.Leaf [of pa p l p1, OF l(1)] .
    show ?case by (rule Suc.IH(2) [OF l(2)]) (rule leaf)+
  next
    case 2
    let ?k = "bin_prec (cur p)"
    show ?case
    proof (cases "?k < m \<or> ?k = 0")
      case True
      then show ?thesis using 2 by auto
    next
      case False
      then obtain p1 r p2 where s: "advance p = Inr ((), p1)" "parse_bin n pa (?k + 1) p1 = Inr (r, p2)"
        "bin_loop n pa m (EX_BIN (ploc p) (cur p) lhs r) p2 = Inr (e, p')"
        using 2(1) by (auto simp: Let_def)
      have r: "bin_gram pa (?k + 1) p1 r p2" "bin_prec (cur p2) < ?k + 1 \<or> bin_prec (cur p2) = 0"
        using Suc.IH(1) [OF s(2)] by auto
      have node: "j \<le> ?k \<Longrightarrow> bin_gram pa j p0 (EX_BIN (ploc p) (cur p) lhs r) p2" for j
        using bin_gram.Node [OF 2(2) refl _ _ s(1) r(1)] False by auto
      show ?thesis by (rule Suc.IH(2) [OF s(3)]) (use node r(2) False in auto)
    qed
  }
qed simp_all

lemma parse_bin_fuel:
  "parse_bin n pa m p = Inr x \<Longrightarrow> n \<le> n' \<Longrightarrow> parse_bin n' pa m p = Inr x"
  "bin_loop n pa m lhs p = Inr x \<Longrightarrow> n \<le> n' \<Longrightarrow> bin_loop n' pa m lhs p = Inr x"
proof (induction n arbitrary: n' m p x lhs)
  case (Suc n)
  {
    case 1
    obtain k where k: "n' = Suc k" "n \<le> k" using 1(2) by (cases n') auto
    obtain l p1 where l: "pa p = Inr (l, p1)" "bin_loop n pa m l p1 = Inr x" using 1(1) by auto
    show ?case using l(1) Suc.IH(2) [OF l(2) k(2)] by (simp add: k(1))
  next
    case 2
    obtain k where k: "n' = Suc k" "n \<le> k" using 2(2) by (cases n') auto
    show ?case
    proof (cases "bin_prec (cur p) < m \<or> bin_prec (cur p) = 0")
      case True
      then show ?thesis using 2(1) by (simp add: k(1) Let_def)
    next
      case False
      then obtain p1 r p2 where s: "advance p = Inr ((), p1)" "parse_bin n pa (bin_prec (cur p) + 1) p1 = Inr (r, p2)"
        "bin_loop n pa m (EX_BIN (ploc p) (cur p) lhs r) p2 = Inr x"
        using 2(1) by (auto simp: Let_def)
      show ?thesis
        using False s(1) Suc.IH(1) [OF s(2) k(2)] Suc.IH(2) [OF s(3) k(2)] by (simp add: k(1) Let_def)
    qed
  }
qed simp_all

lemma parse_bin_complete:
  "bin_gram pa m p e p' \<Longrightarrow> bin_prec (cur p') \<le> m \<Longrightarrow> m0 \<le> m \<Longrightarrow> bin_loop n pa m0 e p' = Inr x \<Longrightarrow>
     \<exists>n'. parse_bin n' pa m0 p = Inr x"
proof (induction arbitrary: m0 n x rule: bin_gram.induct)
  case (Leaf p e p' m)
  then show ?case by (intro exI [of _ "Suc n"]) simp
next
  case (Node k p l p1 m p2 r p3)
  have "bin_loop (Suc 0) pa (k + 1) r p3 = Inr (r, p3)" using Node.prems(1) Node.hyps(3) by (simp add: Let_def)
  then obtain n1 where n1: "parse_bin n1 pa (k + 1) p2 = Inr (r, p3)"
    using Node.IH(2) [of "k + 1" "Suc 0" "(r, p3)"] Node.prems(1) Node.hyps(3) by auto
  let ?n = "max n n1"
  have "bin_loop (Suc ?n) pa m0 l p1 = Inr x"
    using Node.hyps Node.prems parse_bin_fuel(1) [OF n1, of ?n] parse_bin_fuel(2) [OF Node.prems(3), of ?n]
    by (simp add: Let_def)
  then show ?case using Node.IH(1) [of m0 "Suc ?n" x] Node.hyps(2,3) Node.prems(2) by simp
qed

section \<open>Properties\<close>

text \<open>C14: Parsing always ends, with a module or with one diagnostic located in the file parsed.
  No loop and no recursion of the parser runs longer than the text allows, whatever the
  text, and none of the lexer's counters is accessed out of bounds on the way.\<close>

theorem parse_total:
  "(\<exists>m. parse_module junk path modname src = Inr m) \<or>
   (\<exists>l msg. parse_module junk path modname src = Inl (FatalAt l msg) \<and> l_file l = Some path)"
  using parse_module_gives [where f = path and junk = junk and modname = modname and src = src]
  by (cases "parse_module junk path modname src") (auto simp: diag_in_def)

text \<open>C16: Binary operators are parsed with the precedences and the left associativity of the
  grammar: whatever parses operands, precedence climbing returns a tree and stops at a
  state exactly when the stratified grammar derives that tree for the tokens in between
  and the next token does not continue it.\<close>

theorem precedence_exact:
  assumes "0 < m"
  shows "(\<exists>n. parse_bin n pa m p = Inr (e, p')) \<longleftrightarrow> bin_gram pa m p e p' \<and> bin_prec (cur p') < m"
proof
  assume "\<exists>n. parse_bin n pa m p = Inr (e, p')"
  then show "bin_gram pa m p e p' \<and> bin_prec (cur p') < m" using parse_bin_sound(1) assms by fastforce
next
  assume g: "bin_gram pa m p e p' \<and> bin_prec (cur p') < m"
  then have "bin_loop (Suc 0) pa m e p' = Inr (e, p')" by (simp add: Let_def)
  then show "\<exists>n. parse_bin n pa m p = Inr (e, p')"
    using parse_bin_complete [of pa m p e p' m "Suc 0" "(e, p')"] g by auto
qed

text \<open>C15: What the parser builds is well formed: operators are operators, template literals
  alternate text and holes, labels of named arguments match the arguments, default
  parameters come last, weak types are not also nullable, extern functions have no body,
  no type parameters and no defaults, type parameters are distinct and no primitive names,
  enums are not empty, method modifiers are compatible, and builders return their class.\<close>

theorem parse_module_wf:
  assumes "parse_module junk path modname src = Inr m"
  shows "list_all decl_wf (m_decls m)"
  using parse_module_gives [where f = path and junk = junk and modname = modname and src = src] assms by simp

lemma const_module:
  "case parse_module [] ''m.vt'' ''m'' ''const c:T=x;'' of Inr m \<Rightarrow> length (m_decls m) = 1 | _ \<Rightarrow> False"
  by code_simp

theorem parse_module_wf_witness:
  "\<exists>m. parse_module [] ''m.vt'' ''m'' ''const c:T=x;'' = Inr m \<and> length (m_decls m) = 1 \<and> list_all decl_wf (m_decls m)"
proof (cases "parse_module [] ''m.vt'' ''m'' ''const c:T=x;''")
  case (Inr m)
  then show ?thesis using const_module parse_module_wf [OF Inr] by simp
qed (use const_module in simp)

theorem precedence_exact_witness:
  "(\<exists>n. parse_bin n (\<lambda>p. Inr (EX_NULL loc0, p)) 1 \<lparr>p_lx = lx_start ''m.vt'' [], p_arrows = 0, p_typarams = []\<rparr> =
      Inr (EX_NULL loc0, \<lparr>p_lx = lx_start ''m.vt'' [], p_arrows = 0, p_typarams = []\<rparr>))"
proof -
  let ?p = "\<lparr>p_lx = lx_start ''m.vt'' [], p_arrows = 0, p_typarams = []\<rparr>" and ?pa = "\<lambda>p. Inr (EX_NULL loc0, p)"
  have "bin_gram ?pa 1 ?p (EX_NULL loc0) ?p" by (rule bin_gram.Leaf) simp
  moreover have "bin_prec (cur ?p) < 1" by (simp add: cur_def lx_start_def tok0_def bin_prec_def)
  ultimately show ?thesis using precedence_exact [OF zero_less_one, of ?pa ?p "EX_NULL loc0" ?p] by simp
qed

text \<open>The type parameters that \<open>parse_module\<close> leaves uninitialised are read: what they denote
  decides whether the type of a constant is taken for a type parameter.\<close>

lemma uninitialised_typarams:
  "(case parse_module [] ''m.vt'' ''m'' ''const c:T=x;'' of
      Inr m \<Rightarrow> (case m_decls m of [D_CONST c] \<Rightarrow> ty_kind (c_type c) = TY_NAMED | _ \<Rightarrow> False) | _ \<Rightarrow> False) \<and>
   (case parse_module [''T''] ''m.vt'' ''m'' ''const c:T=x;'' of
      Inr m \<Rightarrow> (case m_decls m of [D_CONST c] \<Rightarrow> ty_kind (c_type c) = TY_TYPARAM | _ \<Rightarrow> False) | _ \<Rightarrow> False)"
  by code_simp

end
