(* ===== verification/Vt_Types.thy ===== *)
theory Vt_Types
  imports Vt_Parse Vt_Fmt
begin

text \<open>
  Types as the checker compares and converts them (\<open>src/check.c\<close>, "type helpers" to
  \<open>num_join\<close>, and \<open>assignable\<close>): identity, rendering, the width and sign rules of the
  integer types, implicit widening, literal ranges and assignability. The walk
  along the parents of a class is here too, because assignability needs it; the
  layout of classes is in the theory on classes. A declaration is named by the
  address of its node, and the classes of a program are a partial map from addresses
  to nodes.
\<close>

section \<open>Identity\<close>

definition norm_kind :: "type_kind \<Rightarrow> type_kind" where
  "norm_kind k =
     (if k = TY_I64 then TY_INT
      else if k = TY_F64 then TY_FLOAT
      else if k = TY_U8 then TY_BYTE
      else k)"

lemma size_ty_elem [termination_simp]: "ty_elem t = Some u \<Longrightarrow> size u < size t"
  by (cases t) auto

lemma size_ty_ret [termination_simp]: "ty_ret t = Some u \<Longrightarrow> size u < size t"
  by (cases t) auto

lemma size_ty_params [termination_simp]: "u \<in> set (ty_params t) \<Longrightarrow> size u < size t"
  by (cases t) (auto dest: size_list_estimation'[where f = size] intro: less_Suc_eq_le[THEN iffD2] trans_le_add1 trans_le_add2
      simp: size_list_estimation' less_Suc_eq_le)

text \<open>The source dereferences the element of an array or map and the result of a function;
  the parser always sets them (\<open>ty_wf\<close>), so the missing ones compare as different here.\<close>

fun type_identical :: "ty \<Rightarrow> ty \<Rightarrow> bool" where
  "type_identical a b =
     (if norm_kind (ty_kind a) \<noteq> norm_kind (ty_kind b) then False
      else if ty_kind a = TY_ENUM then ty_edecl a = ty_edecl b
      else if ty_kind a = TY_STRUCT then ty_sdecl a = ty_sdecl b
      else if ty_kind a = TY_CLASS then ty_cdecl a = ty_cdecl b
      else if ty_kind a = TY_TYPARAM then ty_name a = ty_name b
      else if ty_kind a = TY_ARRAY \<or> ty_kind a = TY_MAP
      then (case (ty_elem a, ty_elem b) of (Some x, Some y) \<Rightarrow> type_identical x y | _ \<Rightarrow> False)
      else if ty_kind a = TY_FN
      then length (ty_params a) = length (ty_params b) \<and>
           (case (ty_ret a, ty_ret b) of (Some x, Some y) \<Rightarrow> type_identical x y | _ \<Rightarrow> False) \<and>
           list_all2 type_identical (ty_params a) (ty_params b)
      else True)"

declare type_identical.simps [simp del]

section \<open>Rendering\<close>

text \<open>The dash of the messages, in UTF-8.\<close>

definition em_dash :: string where
  "em_dash = [char_of (226::nat), char_of (128::nat), char_of (148::nat)]"

text \<open>The names in the declaration nodes a type may point to.\<close>

record decl_names =
  sdecl_name :: "nat \<Rightarrow> string"
  cdecl_name :: "nat \<Rightarrow> string"
  edecl_name :: "nat \<Rightarrow> string"

fun commas :: "string list \<Rightarrow> string" where
  "commas [] = ''''"
| "commas [s] = s"
| "commas (s # ss) = s @ '', '' @ commas ss"

fun kind_str :: "type_kind \<Rightarrow> string" where
  "kind_str TY_VOID = ''void''" | "kind_str TY_INT = ''int''" | "kind_str TY_FLOAT = ''float''"
| "kind_str TY_BOOL = ''bool''" | "kind_str TY_BYTE = ''byte''" | "kind_str TY_STRING = ''string''"
| "kind_str TY_CSTRING = ''cstring''" | "kind_str TY_RAWPTR = ''rawptr''" | "kind_str TY_NULL = ''null''"
| "kind_str TY_I8 = ''i8''" | "kind_str TY_I16 = ''i16''" | "kind_str TY_I32 = ''i32''" | "kind_str TY_I64 = ''i64''"
| "kind_str TY_U8 = ''u8''" | "kind_str TY_U16 = ''u16''" | "kind_str TY_U32 = ''u32''" | "kind_str TY_U64 = ''u64''"
| "kind_str TY_CLONG = ''clong''" | "kind_str TY_CULONG = ''culong''"
| "kind_str TY_F32 = ''f32''" | "kind_str TY_F64 = ''f64''"
| "kind_str _ = ''<unknown>''"

fun type_str_bare :: "decl_names \<Rightarrow> ty \<Rightarrow> string" and type_str :: "decl_names \<Rightarrow> ty \<Rightarrow> string" where
  "type_str_bare ns t =
     (if ty_kind t = TY_ENUM then edecl_name ns (the (ty_edecl t))
      else if ty_kind t = TY_STRUCT then sdecl_name ns (the (ty_sdecl t))
      else if ty_kind t = TY_CLASS then cdecl_name ns (the (ty_cdecl t))
      else if ty_kind t = TY_ARRAY
      then (case ty_elem t of Some e \<Rightarrow> type_str ns e | None \<Rightarrow> ''(null)'') @ ''[]''
      else if ty_kind t = TY_MAP
      then ''Map<string, '' @ (case ty_elem t of Some e \<Rightarrow> type_str ns e | None \<Rightarrow> ''(null)'') @ ''>''
      else if ty_kind t = TY_FN
      then ''fn('' @ commas (map (type_str ns) (ty_params t)) @ '')'' @
           (case ty_ret t of
              Some r \<Rightarrow> if ty_kind r \<noteq> TY_VOID then '': '' @ type_str ns r else []
            | None \<Rightarrow> [])
      else if ty_kind t = TY_NAMED \<or> ty_kind t = TY_TYPARAM then the (ty_name t)
      else kind_str (ty_kind t))"
| "type_str ns t =
     (let s = type_str_bare ns t in if ty_nullable t \<and> \<not> ty_from_weak t then s @ ''?'' else s)"

declare type_str_bare.simps [simp del]
declare type_str.simps [simp del]

section \<open>Widths, signs and literals\<close>

definition int_width :: "type_kind \<Rightarrow> nat" where
  "int_width k =
     (if norm_kind k \<in> {TY_BYTE, TY_I8} then 1
      else if norm_kind k \<in> {TY_I16, TY_U16} then 2
      else if norm_kind k \<in> {TY_I32, TY_U32} then 4
      else 8)"

definition int_is_signed :: "type_kind \<Rightarrow> bool" where
  "int_is_signed k \<longleftrightarrow> norm_kind k \<notin> {TY_BYTE, TY_U16, TY_U32, TY_U64, TY_CULONG}"

definition int_lit_fits :: "i64 \<Rightarrow> ty \<Rightarrow> bool" where
  "int_lit_fits v dst =
     (let k = norm_kind (ty_kind dst)
      in if k = TY_BYTE then 0 \<le> sint v \<and> sint v \<le> 255
         else if k = TY_I8 then -128 \<le> sint v \<and> sint v \<le> 127
         else if k = TY_I16 then -32768 \<le> sint v \<and> sint v \<le> 32767
         else if k = TY_U16 then 0 \<le> sint v \<and> sint v \<le> 65535
         else if k = TY_I32 then -2147483648 \<le> sint v \<and> sint v \<le> 2147483647
         else if k = TY_U32 then 0 \<le> sint v \<and> sint v \<le> 4294967295
         else True)"

definition want_lit_fits :: "decl_names \<Rightarrow> i64 \<Rightarrow> ty \<Rightarrow> loc \<Rightarrow> unit cres" where
  "want_lit_fits ns v dst l =
     (if int_lit_fits v dst then Inr ()
      else Inl (FatalAt l (''integer literal '' @ i64_text v @ '' out of range for '' @ type_str ns dst)))"

definition int_widens :: "ty \<Rightarrow> ty \<Rightarrow> bool" where
  "int_widens src dst =
     (if \<not> type_is_int src \<or> \<not> type_is_int dst then False
      else let sw = int_width (ty_kind src); dw = int_width (ty_kind dst);
               ss = int_is_signed (ty_kind src); ds = int_is_signed (ty_kind dst)
           in if ss = ds then dw > sw
              else if \<not> ss \<and> ds then dw > sw
              else False)"

definition num_join :: "ty \<Rightarrow> ty \<Rightarrow> ty option" where
  "num_join lt rt =
     (if type_identical lt rt then Some lt
      else if int_widens lt rt then Some rt
      else if int_widens rt lt then Some lt
      else None)"

section \<open>Identity is an equivalence\<close>

lemma norm_kind_simps [simp]:
  "norm_kind k = TY_ENUM \<longleftrightarrow> k = TY_ENUM" "norm_kind k = TY_STRUCT \<longleftrightarrow> k = TY_STRUCT"
  "norm_kind k = TY_CLASS \<longleftrightarrow> k = TY_CLASS" "norm_kind k = TY_TYPARAM \<longleftrightarrow> k = TY_TYPARAM"
  "norm_kind k = TY_ARRAY \<longleftrightarrow> k = TY_ARRAY" "norm_kind k = TY_MAP \<longleftrightarrow> k = TY_MAP"
  "norm_kind k = TY_FN \<longleftrightarrow> k = TY_FN"
  by (auto simp: norm_kind_def)

lemma ty_wf_elem: "ty_wf t \<Longrightarrow> ty_elem t = Some e \<Longrightarrow> ty_wf e"
  by (cases t) simp

lemma ty_wf_ret: "ty_wf t \<Longrightarrow> ty_ret t = Some r \<Longrightarrow> ty_wf r"
  by (cases t) simp

lemma ty_wf_params: "ty_wf t \<Longrightarrow> p \<in> set (ty_params t) \<Longrightarrow> ty_wf p"
  by (cases t) (simp add: list_all_iff)

lemma ty_wf_has_elem: "ty_wf t \<Longrightarrow> ty_kind t = TY_ARRAY \<or> ty_kind t = TY_MAP \<Longrightarrow> ty_elem t \<noteq> None"
  by (cases t) simp

lemma ty_wf_has_ret: "ty_wf t \<Longrightarrow> ty_kind t = TY_FN \<Longrightarrow> ty_ret t \<noteq> None"
  by (cases t) simp

text \<open>One level of the comparison, over the normal form of the kind; the kinds whose types
  carry more than the kind are their own normal forms.\<close>

definition same_shape :: "(ty \<Rightarrow> ty \<Rightarrow> bool) \<Rightarrow> ty \<Rightarrow> ty \<Rightarrow> type_kind \<Rightarrow> bool" where
  "same_shape R a b k \<longleftrightarrow>
     (k = TY_ENUM \<longrightarrow> ty_edecl a = ty_edecl b) \<and> (k = TY_STRUCT \<longrightarrow> ty_sdecl a = ty_sdecl b) \<and>
     (k = TY_CLASS \<longrightarrow> ty_cdecl a = ty_cdecl b) \<and> (k = TY_TYPARAM \<longrightarrow> ty_name a = ty_name b) \<and>
     (k = TY_ARRAY \<or> k = TY_MAP \<longrightarrow> (\<exists>x y. ty_elem a = Some x \<and> ty_elem b = Some y \<and> R x y)) \<and>
     (k = TY_FN \<longrightarrow> (\<exists>x y. ty_ret a = Some x \<and> ty_ret b = Some y \<and> R x y) \<and> list_all2 R (ty_params a) (ty_params b))"

lemma type_identical_shape:
  "type_identical a b \<longleftrightarrow>
     norm_kind (ty_kind a) = norm_kind (ty_kind b) \<and> same_shape type_identical a b (norm_kind (ty_kind a))"
  by (subst type_identical.simps)
    (simp add: same_shape_def list_all2_lengthD split: option.split, blast dest: list_all2_lengthD)

lemma type_identical_refl: "ty_wf t \<Longrightarrow> type_identical t t"
proof (induction t rule: measure_induct_rule[where f = size])
  case (less t)
  note w = ty_wf_elem[OF less.prems] ty_wf_ret[OF less.prems] ty_wf_params[OF less.prems]
    ty_wf_has_elem[OF less.prems] ty_wf_has_ret[OF less.prems]
  have "\<exists>x. ty_elem t = Some x \<and> type_identical x x" if "ty_kind t = TY_ARRAY \<or> ty_kind t = TY_MAP"
    using that less.IH w size_ty_elem by (metis not_None_eq)
  moreover have "\<exists>x. ty_ret t = Some x \<and> type_identical x x" if "ty_kind t = TY_FN"
    using that less.IH w size_ty_ret by (metis not_None_eq)
  moreover have "\<forall>p\<in>set (ty_params t). type_identical p p"
    using less.IH w size_ty_params by metis
  ultimately show ?case
    unfolding type_identical_shape[of t t] same_shape_def by (auto simp: list_all2_same)
qed

lemma type_identical_sym: "type_identical a b \<Longrightarrow> type_identical b a"
proof (induction a arbitrary: b rule: measure_induct_rule[where f = size])
  case (less a)
  then have k: "norm_kind (ty_kind a) = norm_kind (ty_kind b)" and s: "same_shape type_identical a b (norm_kind (ty_kind a))"
    using type_identical_shape by blast+
  have "list_all2 type_identical (ty_params b) (ty_params a)" if "list_all2 type_identical (ty_params a) (ty_params b)"
    using that less.IH size_ty_params[of _ a] by (auto simp: list_all2_conv_all_nth)
  then show ?case
    unfolding type_identical_shape[of b a] using k s less.IH size_ty_elem[of a] size_ty_ret[of a]
    unfolding same_shape_def by metis
qed

lemma type_identical_trans: "type_identical a b \<Longrightarrow> type_identical b c \<Longrightarrow> type_identical a c"
proof (induction a arbitrary: b c rule: measure_induct_rule[where f = size])
  case (less a)
  then have k: "norm_kind (ty_kind a) = norm_kind (ty_kind b)" "norm_kind (ty_kind b) = norm_kind (ty_kind c)"
    and s: "same_shape type_identical a b (norm_kind (ty_kind a))" "same_shape type_identical b c (norm_kind (ty_kind a))"
    using type_identical_shape by metis+
  have "list_all2 type_identical (ty_params a) (ty_params c)"
    if ab: "list_all2 type_identical (ty_params a) (ty_params b)" and bc: "list_all2 type_identical (ty_params b) (ty_params c)"
  proof (rule list_all2_all_nthI)
    fix i assume i: "i < length (ty_params a)"
    then show "type_identical (ty_params a ! i) (ty_params c ! i)"
      using less.IH[OF size_ty_params[OF nth_mem[OF i]]] list_all2_nthD[OF ab i]
        list_all2_nthD2[OF bc] list_all2_lengthD[OF ab] list_all2_lengthD[OF bc] by metis
  qed (use ab bc list_all2_lengthD in metis)
  moreover have "\<exists>x z. ty_elem a = Some x \<and> ty_elem c = Some z \<and> type_identical x z"
    if "\<exists>x y. ty_elem a = Some x \<and> ty_elem b = Some y \<and> type_identical x y" "\<exists>x y. ty_elem b = Some x \<and> ty_elem c = Some y \<and> type_identical x y"
    using that less.IH size_ty_elem[of a] by (metis option.inject)
  moreover have "\<exists>x z. ty_ret a = Some x \<and> ty_ret c = Some z \<and> type_identical x z"
    if "\<exists>x y. ty_ret a = Some x \<and> ty_ret b = Some y \<and> type_identical x y" "\<exists>x y. ty_ret b = Some x \<and> ty_ret c = Some y \<and> type_identical x y"
    using that less.IH size_ty_ret[of a] by (metis option.inject)
  ultimately show ?case
    unfolding type_identical_shape[of a c] using k s unfolding same_shape_def by simp
qed

section \<open>Widening preserves every value\<close>

text \<open>The values an integer type can hold.\<close>

definition int_range :: "type_kind \<Rightarrow> int set" where
  "int_range k =
     (if int_is_signed k then {- (2 ^ (8 * int_width k - 1)) ..< 2 ^ (8 * int_width k - 1)}
      else {0 ..< 2 ^ (8 * int_width k)})"

lemma int_width_cases: "int_width k = 1 \<or> int_width k = 2 \<or> int_width k = 4 \<or> int_width k = 8"
  by (auto simp: int_width_def)

lemma ranges_nested:
  fixes x y :: int
  assumes "1 \<le> x" "1 \<le> y"
  shows "{- x ..< x} \<subset> {- y ..< y} \<longleftrightarrow> x < y" "{0 ..< x} \<subset> {0 ..< y} \<longleftrightarrow> x < y"
    "{0 ..< x} \<subset> {- y ..< y} \<longleftrightarrow> x \<le> y" "\<not> {- x ..< x} \<subset> {0 ..< y}"
  using assms by (auto simp: subset_not_subset_eq)

lemma int_widens_exact:
  "int_widens s d \<longleftrightarrow> type_is_int s \<and> type_is_int d \<and> int_range (ty_kind s) \<subset> int_range (ty_kind d)"
proof -
  have p: "1 \<le> (2::int) ^ n" for n by simp
  have "(if int_is_signed a = int_is_signed b then int_width b > int_width a
         else if \<not> int_is_signed a \<and> int_is_signed b then int_width b > int_width a else False) \<longleftrightarrow>
        int_range a \<subset> int_range b" for a b
  proof -
    have w: "8 * int_width a - 1 < 8 * int_width b - 1 \<longleftrightarrow> int_width a < int_width b"
      "8 * int_width a \<le> 8 * int_width b - 1 \<longleftrightarrow> int_width a < int_width b"
      using int_width_cases[of a] int_width_cases[of b] by auto
    show ?thesis
      unfolding int_range_def by (simp add: ranges_nested[OF p p] w del: One_nat_def)
  qed
  then show ?thesis
    unfolding int_widens_def Let_def by (auto simp del: One_nat_def)
qed

lemma int_lit_fits_exact:
  assumes "type_is_int d"
  shows "int_lit_fits v d \<longleftrightarrow> sint v \<in> int_range (ty_kind d) \<or> norm_kind (ty_kind d) \<in> {TY_U64, TY_CULONG}"
proof -
  have b: "- (2 ^ 63) \<le> sint v \<and> sint v < 2 ^ 63"
    using sint_range_size[of v] by (simp add: size_word.rep_eq)
  show ?thesis
    using assms b
    by (cases "ty_kind d")
      (simp_all add: type_is_int_def int_lit_fits_def int_range_def int_is_signed_def int_width_def norm_kind_def, linarith+)
qed

lemma num_join_holds_both:
  assumes "type_is_int a" "type_is_int b" "num_join a b = Some t"
  shows "t \<in> {a, b}" "int_range (ty_kind a) \<subseteq> int_range (ty_kind t)" "int_range (ty_kind b) \<subseteq> int_range (ty_kind t)"
proof -
  have eq: "int_range (ty_kind a) = int_range (ty_kind b)" if "type_identical a b"
    using that type_identical_shape[of a b] by (simp add: int_range_def int_is_signed_def int_width_def)
  show "t \<in> {a, b}" "int_range (ty_kind a) \<subseteq> int_range (ty_kind t)" "int_range (ty_kind b) \<subseteq> int_range (ty_kind t)"
    using assms(3) eq int_widens_exact[of a b] int_widens_exact[of b a]
    by (auto simp: num_join_def split: if_splits)
qed

section \<open>Walks that may not return\<close>

text \<open>The loops of the checker that follow pointers may run for ever: no value then, and otherwise a
  diagnostic or a result.\<close>

type_synonym 'a walk = "'a cres option"

definition bind_walk :: "'a walk \<Rightarrow> ('a \<Rightarrow> 'b walk) \<Rightarrow> 'b walk" where
  "bind_walk m f = Option.bind m (\<lambda>r. case r of Inl e \<Rightarrow> Some (Inl e) | Inr x \<Rightarrow> f x)"

lemma bind_walk_ok [simp]: "bind_walk m f = Some (Inr y) \<longleftrightarrow> (\<exists>x. m = Some (Inr x) \<and> f x = Some (Inr y))"
  unfolding bind_walk_def
proof (cases m)
  case (Some r)
  then show "Option.bind m (case_sum (\<lambda>e. Some (Inl e)) f) = Some (Inr y) \<longleftrightarrow> (\<exists>x. m = Some (Inr x) \<and> f x = Some (Inr y))"
    by (cases r) auto
qed simp

lemma bind_walk_returns:
  "\<exists>r. m = Some r \<Longrightarrow> (\<And>x. m = Some (Inr x) \<Longrightarrow> \<exists>r. f x = Some r) \<Longrightarrow> \<exists>r. bind_walk m f = Some r"
  by (auto simp: bind_walk_def split: sum.split)

lemma bind_walk_mono [partial_function_mono]:
  assumes "mono_option B" "\<And>y. mono_option (\<lambda>f. C y f)"
  shows "mono_option (\<lambda>f. bind_walk (B f) (\<lambda>y. C y f))"
  unfolding bind_walk_def
proof (rule bind_mono[OF assms(1)])
  show "mono_option (\<lambda>f. case r of Inl e \<Rightarrow> Some (Inl e) | Inr x \<Rightarrow> C x f)" for r
    using assms(2) by (cases r) (simp_all add: option.const_mono)
qed

section \<open>The class hierarchy\<close>

text \<open>A class declaration with the fields the checker fills: the resolved parent, the number of
  vtable slots and the mark of \<open>layout_class\<close>.\<close>

record class_node = class_decl +
  cn_parent :: "nat option"
  nvslots :: nat
  checked :: bool

type_synonym classes = "nat \<rightharpoonup> class_node"

definition class_parent :: "classes \<Rightarrow> nat \<Rightarrow> nat option" where
  "class_parent h a = (case h a of Some cd \<Rightarrow> cn_parent cd | None \<Rightarrow> None)"

text \<open>The loops \<open>for (c = cd; c; c = c->parent)\<close>: the first class with a result for \<open>test\<close>. A parent
  chain that closes on itself is walked for ever, which is \<open>None\<close>.\<close>

partial_function (option) class_walk :: "classes \<Rightarrow> (nat \<Rightarrow> 'r option) \<Rightarrow> nat option \<Rightarrow> 'r option option" where
  "class_walk h test c =
     (case c of
        None \<Rightarrow> Some None
      | Some a \<Rightarrow> (case test a of Some r \<Rightarrow> Some (Some r) | None \<Rightarrow> class_walk h test (class_parent h a)))"

definition class_derives :: "classes \<Rightarrow> nat option \<Rightarrow> nat \<Rightarrow> bool option" where
  "class_derives h sub base = map_option (\<lambda>r. r \<noteq> None) (class_walk h (\<lambda>c. if c = base then Some () else None) sub)"

definition class_find_field :: "classes \<Rightarrow> nat option \<Rightarrow> string \<Rightarrow> (nat \<times> field) option option" where
  "class_find_field h cd name =
     class_walk h (\<lambda>c. map_option (Pair c) (case h c of Some n \<Rightarrow> find (\<lambda>f. f_name f = name) (cd_fields n) | None \<Rightarrow> None)) cd"

fun fn_head :: "fn_decl \<Rightarrow> fn_head" where
  "fn_head (FnDecl h ps r b) = h"

fun fn_params :: "fn_decl \<Rightarrow> param list" where
  "fn_params (FnDecl h ps r b) = ps"

fun fn_ret :: "fn_decl \<Rightarrow> ty option" where
  "fn_ret (FnDecl h ps r b) = r"

fun fn_body :: "fn_decl \<Rightarrow> stmt list" where
  "fn_body (FnDecl h ps r b) = b"

definition class_find_method :: "classes \<Rightarrow> nat option \<Rightarrow> string \<Rightarrow> fn_decl option option" where
  "class_find_method h cd name =
     class_walk h (\<lambda>c. case h c of Some n \<Rightarrow> find (\<lambda>m. fd_name (fn_head m) = Some name) (cd_methods n) | None \<Rightarrow> None) cd"

text \<open>The chain of a class that has one: the class, its parent and so on to a root.\<close>

inductive chain :: "classes \<Rightarrow> nat option \<Rightarrow> nat list \<Rightarrow> bool" for h where
  chain_end: "chain h None []"
| chain_step: "chain h (class_parent h a) as \<Longrightarrow> chain h (Some a) (a # as)"

inductive_cases chain_NoneE: "chain h None as"
inductive_cases chain_SomeE: "chain h (Some a) as"

lemma chain_det: "chain h c xs \<Longrightarrow> chain h c ys \<Longrightarrow> xs = ys"
  by (induction arbitrary: ys rule: chain.induct) (blast elim: chain_NoneE chain_SomeE)+

lemma class_walk_chain:
  "chain h c as \<Longrightarrow> class_walk h test c = Some (case List.find (\<lambda>a. test a \<noteq> None) as of None \<Rightarrow> None | Some a \<Rightarrow> test a)"
  by (induction rule: chain.induct) (subst class_walk.simps, simp split: option.split)+

lemma find_eq_member: "List.find (\<lambda>a. a = b) as = (if b \<in> set as then Some b else None)"
  by (induction as) auto

lemma class_derives_chain: "chain h c as \<Longrightarrow> class_derives h c b = Some (b \<in> set as)"
proof -
  have "(\<lambda>a. (if a = b then Some () else None) \<noteq> None) = (\<lambda>a. a = b)" by auto
  then show "chain h c as \<Longrightarrow> class_derives h c b = Some (b \<in> set as)"
    unfolding class_derives_def by (simp only: class_walk_chain find_eq_member) simp
qed

text \<open>A walk that finds nothing has reached a root, so the chain is finite.\<close>

lemma class_walk_None_chain:
  fixes test :: "nat \<Rightarrow> 'r option"
  assumes "class_walk h test c = Some r"
  shows "r = None \<longrightarrow> (\<exists>as. chain h c as)"
  using assms
proof (rule class_walk.raw_induct[rotated])
  fix w :: "classes \<Rightarrow> (nat \<Rightarrow> 'r option) \<Rightarrow> nat option \<Rightarrow> 'r option option" and h test c r
  assume IH: "\<And>h test c r. w h test c = Some r \<Longrightarrow> r = None \<longrightarrow> (\<exists>as. chain h c as)"
    and step: "(case c of None \<Rightarrow> Some None
      | Some a \<Rightarrow> (case test a of Some r \<Rightarrow> Some (Some r) | None \<Rightarrow> w h test (class_parent h a))) = Some r"
  show "r = None \<longrightarrow> (\<exists>as. chain h c as)"
  proof (cases c)
    case (Some a)
    then show ?thesis
      using step IH[of h test "class_parent h a" r] chain_step[of h a] by (auto split: option.splits)
  qed (blast intro: chain_end)
qed

lemma class_derives_False_chain:
  assumes "class_derives h c b = Some False"
  obtains as where "chain h c as" "b \<notin> set as"
proof -
  have "class_walk h (\<lambda>c. if c = b then Some () else None) c = Some None"
    using assms unfolding class_derives_def
    by (cases "class_walk h (\<lambda>c. if c = b then Some () else None) c") (auto, metis option.exhaust unit.exhaust)
  then obtain as where as: "chain h c as"
    using class_walk_None_chain by blast
  with assms show thesis
    using that class_derives_chain[OF as, of b] by simp
qed

section \<open>Assignability\<close>

definition str_convertible :: "ty \<Rightarrow> bool" where
  "str_convertible t \<longleftrightarrow> ty_kind t = TY_STRING \<or> type_is_num t \<or> ty_kind t = TY_BOOL"

definition ffi_safe_type :: "ty \<Rightarrow> bool" where
  "ffi_safe_type t \<longleftrightarrow> type_is_num t \<or> ty_kind t = TY_BOOL \<or> ty_kind t = TY_CSTRING \<or> ty_kind t = TY_RAWPTR"

text \<open>The literal an expression is, with its sign: \<open>EX_INT\<close>, \<open>EX_FLOAT\<close>, or either under a unary minus.
  The negation of the integer is the one of the source; it wraps for the smallest value.\<close>

datatype lit = LitInt i64 | LitFloat | NegInt i64 | NegFloat | NotLit

fun lit_of :: "expr \<Rightarrow> lit" where
  "lit_of (EX_INT l v) = LitInt v"
| "lit_of (EX_FLOAT l s) = LitFloat"
| "lit_of (EX_UN l op (EX_INT l' v)) = (if op = T_MINUS then NegInt v else NotLit)"
| "lit_of (EX_UN l op (EX_FLOAT l' s)) = (if op = T_MINUS then NegFloat else NotLit)"
| "lit_of _ = NotLit"

fun expr_loc :: "expr \<Rightarrow> loc" where
  "expr_loc (EX_INT l _) = l" | "expr_loc (EX_FLOAT l _) = l" | "expr_loc (EX_STR l _) = l" | "expr_loc (EX_BOOL l _) = l"
| "expr_loc (EX_NULL l) = l" | "expr_loc (EX_IDENT l _) = l" | "expr_loc (EX_THIS l) = l" | "expr_loc (EX_BIN l _ _ _) = l"
| "expr_loc (EX_UN l _ _) = l" | "expr_loc (EX_ASSIGN l _ _ _) = l" | "expr_loc (EX_CALL l _ _ _ _ _ _) = l"
| "expr_loc (EX_INDEX l _ _) = l" | "expr_loc (EX_MEMBER l _ _) = l" | "expr_loc (EX_NEW l _ _ _ _ _ _) = l"
| "expr_loc (EX_ARROW l _) = l" | "expr_loc (EX_ARRAYLIT l _) = l" | "expr_loc (EX_TSTR l _) = l" | "expr_loc (EX_AS l _ _) = l"

text \<open>The result: whether the assignment is allowed, and whether the expression (with the operand of
  its unary minus) takes the type of the destination. \<open>None\<close> is the endless walk along a cyclic
  class chain.\<close>

definition assignable :: "classes \<Rightarrow> decl_names \<Rightarrow> ty \<Rightarrow> ty \<Rightarrow> expr option \<Rightarrow> (bool \<times> bool) cres option" where
  "assignable h ns dst src e =
     (if type_identical dst src then Some (Inr (True, False))
      else if ty_kind src = TY_NULL \<and>
              (type_is_ref dst \<and> ty_kind dst \<noteq> TY_NULL \<or> ty_kind dst = TY_RAWPTR \<or> ty_kind dst = TY_CSTRING)
      then Some (Inr (True, True))
      else
        let lt = (case e of Some x \<Rightarrow> lit_of x | None \<Rightarrow> NotLit);
            l = (case e of Some x \<Rightarrow> expr_loc x | None \<Rightarrow> ty_loc dst);
            fits = (\<lambda>v. if type_is_int dst then bind_res (want_lit_fits ns v dst l) (\<lambda>_. Inr (True, True))
                        else Inr (True, True));
            rest = (if ty_kind dst = TY_CLASS \<and> ty_kind src = TY_CLASS
                    then Option.bind (class_derives h (ty_cdecl src) (the (ty_cdecl dst))) (\<lambda>d.
                           if d then Some (Inr (True, False)) else Some (Inr (int_widens src dst, False)))
                    else Some (Inr (int_widens src dst, False)))
        in (case lt of
              LitInt v \<Rightarrow> if type_is_num dst then Some (fits v) else rest
            | LitFloat \<Rightarrow> if type_is_float dst then Some (Inr (True, True)) else rest
            | NegInt v \<Rightarrow> if type_is_num dst then Some (fits (- v)) else rest
            | NegFloat \<Rightarrow> if type_is_float dst then Some (Inr (True, True)) else rest
            | NotLit \<Rightarrow> rest))"

text \<open>The value of an integer literal as the source sees it: a decimal 64-bit pattern.\<close>

definition lit_value :: "expr option \<Rightarrow> i64 option" where
  "lit_value e = (case e of Some x \<Rightarrow> (case lit_of x of LitInt v \<Rightarrow> Some v | NegInt v \<Rightarrow> Some (- v) | _ \<Rightarrow> None) | None \<Rightarrow> None)"

lemma want_lit_fits_ok: "want_lit_fits ns v d l = Inr u \<longleftrightarrow> int_lit_fits v d"
  by (simp add: want_lit_fits_def)

lemma type_is_int_kinds:
  assumes "type_is_int t"
  shows "ty_kind t \<noteq> TY_NULL" "ty_kind t \<noteq> TY_CLASS" "ty_kind t \<noteq> TY_RAWPTR" "ty_kind t \<noteq> TY_CSTRING" "\<not> type_is_ref t"
    "\<not> type_is_float t" "type_is_num t"
  using assms by (auto simp: type_is_int_def type_is_ref_def type_is_float_def type_is_num_def)

lemma assignable_int:
  assumes "type_is_int dst" "type_is_int src"
  shows "assignable h ns dst src e = Some (Inr (True, b)) \<longleftrightarrow>
    (if type_identical dst src then \<not> b
     else case lit_value e of
         Some v \<Rightarrow> b \<and> int_lit_fits v dst
       | None \<Rightarrow> \<not> b \<and> int_widens src dst)"
  using type_is_int_kinds[OF assms(1)] type_is_int_kinds[OF assms(2)] assms
  by (cases e)
    (auto simp: assignable_def lit_value_def Let_def want_lit_fits_def split: lit.split)



end
