(* ===== verification/Vt_Class.thy ===== *)
theory Vt_Class
  imports Vt_Types
begin

text \<open>
  Class layout (\<open>src/check.c\<close>, \<open>fn_sig_identical\<close> and \<open>layout_class\<close>): the checks on inheritance and
  the assignment of vtable slots. \<open>layout_class\<close> recurses to the parent and walks parent
  chains, so it may fail to return on a cyclic hierarchy: its result is \<open>None\<close> then, and
  otherwise a diagnostic or the classes with their slots.
\<close>

section \<open>The checks and the slots\<close>

definition both :: "('a \<Rightarrow> 'b \<Rightarrow> bool) \<Rightarrow> 'a option \<Rightarrow> 'b option \<Rightarrow> bool" where
  "both R x y = (case (x, y) of (Some a, Some b) \<Rightarrow> R a b | _ \<Rightarrow> False)"

fun param_type :: "param \<Rightarrow> ty option" where
  "param_type (Param n t l d) = t"

fun param_def :: "param \<Rightarrow> expr option" where
  "param_def (Param n t l d) = d"

definition fn_sig_identical :: "fn_decl \<Rightarrow> fn_decl \<Rightarrow> bool" where
  "fn_sig_identical a b \<longleftrightarrow>
     length (fn_params a) = length (fn_params b) \<and>
     both type_identical (fn_ret a) (fn_ret b) \<and>
     list_all2 (\<lambda>p q. both type_identical (param_type p) (param_type q)) (fn_params a) (fn_params b)"

abbreviation fn_name :: "fn_decl \<Rightarrow> string" where
  "fn_name m \<equiv> the (fd_name (fn_head m))"

abbreviation fn_virtual :: "fn_decl \<Rightarrow> bool" where
  "fn_virtual m \<equiv> is_virtual (fn_head m) \<or> is_override (fn_head m)"

abbreviation fn_slot :: "fn_decl \<Rightarrow> int" where
  "fn_slot m \<equiv> vslot (fn_head m)"

fun set_vslot :: "int \<Rightarrow> fn_decl \<Rightarrow> fn_decl" where
  "set_vslot k (FnDecl h ps r b) = FnDecl (h\<lparr>vslot := k\<rparr>) ps r b"

text \<open>The first three branches of the loop body: the slot of a method, and the number of slots after it.\<close>

definition method_slot :: "fn_decl option \<Rightarrow> nat \<Rightarrow> fn_decl \<Rightarrow> (nat \<times> fn_decl) cres" where
  "method_slot inherited n m =
     (let l = fd_loc (fn_head m); name = fn_name m
      in if is_override (fn_head m)
         then (case inherited of
                 None \<Rightarrow> Inl (FatalAt l (quoted name @ '' overrides nothing virtual''))
               | Some i \<Rightarrow>
                   if \<not> fn_virtual i then Inl (FatalAt l (quoted name @ '' overrides nothing virtual''))
                   else if \<not> fn_sig_identical m i
                   then Inl (FatalAt l (''override '' @ quoted name @ '' has a different signature''))
                   else Inr (n, set_vslot (fn_slot i) m))
         else if is_virtual (fn_head m)
         then (if inherited \<noteq> None then Inl (FatalAt l (quoted name @ '' hides inherited method; use '' @ quoted ''override''))
               else Inr (n + 1, set_vslot (int n) m))
         else (if inherited \<noteq> None then Inl (FatalAt l (quoted name @ '' hides inherited method''))
               else Inr (n, m)))"

text \<open>The rest of the loop body: no default arguments on virtual methods, no duplicate method,
  no field of that name in the class or above it.\<close>

definition method_rest :: "fn_decl list \<Rightarrow> (nat \<times> field) option \<Rightarrow> fn_decl \<Rightarrow> unit cres" where
  "method_rest before clash m =
     (let l = fd_loc (fn_head m); name = fn_name m
      in case (if fn_virtual m then List.find (\<lambda>d. d \<noteq> None) (map param_def (fn_params m)) else None) of
           Some (Some d) \<Rightarrow> Inl (FatalAt (expr_loc d) ''virtual/override methods cannot have default arguments'')
         | _ \<Rightarrow>
             if \<exists>m'\<in>set before. fd_name (fn_head m') = fd_name (fn_head m)
             then Inl (FatalAt l (''duplicate method '' @ quoted name))
             else if clash \<noteq> None then Inl (FatalAt l (''method '' @ quoted name @ '' collides with a field''))
             else Inr ())"

text \<open>The loop over the methods of \<open>a\<close>: the classes, the methods done with their slots, the number of
  slots so far, the methods to do.\<close>

fun layout_methods :: "classes \<Rightarrow> nat \<Rightarrow> fn_decl list \<Rightarrow> nat \<Rightarrow> fn_decl list \<Rightarrow> (nat \<times> fn_decl list) walk" where
  "layout_methods h a before n [] = Some (Inr (n, before))"
| "layout_methods h a before n (m # ms) =
     bind_walk (map_option Inr (class_find_method h (class_parent h a) (fn_name m))) (\<lambda>inherited.
     bind_walk (Some (method_slot inherited n m)) (\<lambda>(n, m).
     bind_walk (map_option Inr (class_find_field h (Some a) (fn_name m))) (\<lambda>clash.
     bind_walk (Some (method_rest before clash m)) (\<lambda>_.
     layout_methods h a (before @ [m]) n ms))))"

text \<open>No field of the class has the name of an inherited one.\<close>

fun shadow_check :: "classes \<Rightarrow> nat \<Rightarrow> field list \<Rightarrow> unit walk" where
  "shadow_check h p [] = Some (Inr ())"
| "shadow_check h p (f # fs) =
     bind_walk (map_option Inr (class_find_field h (Some p) (f_name f))) (\<lambda>shadow.
       if shadow \<noteq> None
       then Some (Inl (FatalAt (f_loc f) (''field '' @ quoted (f_name f) @ '' shadows inherited field'')))
       else shadow_check h p fs)"

definition layout_own :: "nat \<Rightarrow> nat \<Rightarrow> classes \<Rightarrow> classes walk" where
  "layout_own a n h =
     (case h a of
        None \<Rightarrow> Some (Inl Undefined)
      | Some cd \<Rightarrow> bind_walk (layout_methods h a [] n (cd_methods cd)) (\<lambda>(n, ms).
          Some (Inr (h(a \<mapsto> cd\<lparr>cd_methods := ms, nvslots := n\<rparr>)))))"

definition layout_below :: "nat \<Rightarrow> nat \<Rightarrow> classes \<Rightarrow> classes walk" where
  "layout_below a p h =
     (case (h a, h p) of
        (Some cd, Some pd) \<Rightarrow> bind_walk (shadow_check h p (cd_fields cd)) (\<lambda>_. layout_own a (nvslots pd) h)
      | _ \<Rightarrow> Some (Inl Undefined))"

partial_function (option) layout_class :: "nat \<Rightarrow> classes \<Rightarrow> classes walk" where
  "layout_class a h =
     (case h a of
        None \<Rightarrow> Some (Inl Undefined)
      | Some cd \<Rightarrow>
          if checked cd then Some (Inr h)
          else
            let h = h(a \<mapsto> cd\<lparr>checked := True\<rparr>)
            in (case cn_parent cd of
                  None \<Rightarrow> layout_own a (nvslots cd) h
                | Some p \<Rightarrow> Option.bind (class_derives h (Some p) a) (\<lambda>d.
                    if d then Some (Inl (FatalAt (cd_loc cd) ''inheritance cycle''))
                    else Option.bind (layout_class p h) (\<lambda>r. case r of
                           Inl e \<Rightarrow> Some (Inl e)
                         | Inr h \<Rightarrow> layout_below a p h))))"

section \<open>What a layout promises\<close>

text \<open>One class above whose parent's chain looks methods up by \<open>inh\<close> and has \<open>n0\<close> slots: an override has the
  slot and the signature of a virtual method above, any other method is new, the new
  virtual methods have the next slots in order, and no name occurs twice.\<close>

definition class_ok :: "(string \<Rightarrow> fn_decl option) \<Rightarrow> nat \<Rightarrow> nat \<Rightarrow> fn_decl list \<Rightarrow> bool" where
  "class_ok inh n0 n ms \<longleftrightarrow>
     (\<forall>m\<in>set ms. if is_override (fn_head m)
        then \<exists>i. inh (fn_name m) = Some i \<and> fn_virtual i \<and> fn_slot m = fn_slot i \<and> fn_sig_identical m i
        else inh (fn_name m) = None) \<and>
     distinct (map (\<lambda>m. fd_name (fn_head m)) ms) \<and>
     map fn_slot (filter (\<lambda>m. is_virtual (fn_head m) \<and> \<not> is_override (fn_head m)) ms) = map int [n0..<n] \<and> n0 \<le> n"

definition own_method :: "classes \<Rightarrow> string \<Rightarrow> nat \<Rightarrow> fn_decl option" where
  "own_method h name c =
     (case h c of Some n \<Rightarrow> find (\<lambda>m. fd_name (fn_head m) = Some name) (cd_methods n) | None \<Rightarrow> None)"

fun chain_method :: "classes \<Rightarrow> nat list \<Rightarrow> string \<Rightarrow> fn_decl option" where
  "chain_method h [] name = None"
| "chain_method h (a # as) name = (case own_method h name a of Some m \<Rightarrow> Some m | None \<Rightarrow> chain_method h as name)"

fun chain_slots :: "classes \<Rightarrow> nat list \<Rightarrow> nat" where
  "chain_slots h [] = 0"
| "chain_slots h (a # as) = (case h a of Some cd \<Rightarrow> nvslots cd | None \<Rightarrow> 0)"

fun laid :: "classes \<Rightarrow> nat list \<Rightarrow> bool" where
  "laid h [] = True"
| "laid h (a # as) \<longleftrightarrow>
     laid h as \<and> (\<exists>cd. h a = Some cd \<and> checked cd \<and>
       class_ok (chain_method h as) (chain_slots h as) (nvslots cd) (cd_methods cd))"

lemma class_find_method_chain: "chain h c as \<Longrightarrow> class_find_method h c name = Some (chain_method h as name)"
proof -
  have eq: "(\<lambda>c. case h c of Some n \<Rightarrow> find (\<lambda>m. fd_name (fn_head m) = Some name) (cd_methods n) | None \<Rightarrow> None) = own_method h name"
    by (rule ext) (simp add: own_method_def)
  have "(case find (\<lambda>a. own_method h name a \<noteq> None) as of None \<Rightarrow> None | Some a \<Rightarrow> own_method h name a) = chain_method h as name"
    by (induction as) (auto split: option.split)
  then show "chain h c as \<Longrightarrow> class_find_method h c name = Some (chain_method h as name)"
    unfolding class_find_method_def eq by (simp add: class_walk_chain)
qed

section \<open>The loop over the methods\<close>

lemma set_vslot_simps [simp]:
  "fd_name (fn_head (set_vslot k m)) = fd_name (fn_head m)" "fn_slot (set_vslot k m) = k"
  "is_virtual (fn_head (set_vslot k m)) = is_virtual (fn_head m)" "is_override (fn_head (set_vslot k m)) = is_override (fn_head m)"
  "fn_params (set_vslot k m) = fn_params m" "fn_ret (set_vslot k m) = fn_ret m"
  "fn_sig_identical (set_vslot k m) i = fn_sig_identical m i"
  by (cases m; simp add: fn_sig_identical_def)+

lemma method_slot_ok:
  assumes "method_slot (inh (fn_name m)) n m = Inr (n', m')" "method_rest before clash m' = Inr ()" "class_ok inh n0 n before"
  shows "class_ok inh n0 n' (before @ [m'])"
proof -
  have d: "\<forall>x\<in>set before. fd_name (fn_head x) \<noteq> fd_name (fn_head m')"
    using assms(2) by (auto simp: method_rest_def Let_def split: option.splits if_splits)
  show ?thesis
    using assms(1,3) d
    by (auto simp: method_slot_def class_ok_def Let_def split: if_splits option.splits)
qed

lemma layout_methods_ok:
  assumes "layout_methods h a before n ms = Some (Inr (n', ms'))" "class_ok inh n0 n before"
    and "\<And>name. class_find_method h (class_parent h a) name = Some (inh name)"
  shows "class_ok inh n0 n' ms'"
  using assms(1,2)
proof (induction ms arbitrary: before n)
  case (Cons m ms)
  then obtain n1 m1 clash where "method_slot (inh (fn_name m)) n m = Inr (n1, m1)" "method_rest before clash m1 = Inr ()"
    "layout_methods h a (before @ [m1]) n1 ms = Some (Inr (n', ms'))"
    by (auto simp: assms(3))
  then show ?case
    using Cons.IH method_slot_ok Cons.prems(2) by blast
qed simp

lemma class_ok_Nil: "class_ok inh n0 n0 []"
  by (simp add: class_ok_def)

section \<open>Frame lemmas\<close>

lemma chain_cong: "(\<And>c. class_parent h c = class_parent h' c) \<Longrightarrow> chain h c as \<Longrightarrow> chain h' c as"
proof -
  assume eq: "\<And>c. class_parent h c = class_parent h' c"
  show "chain h c as \<Longrightarrow> chain h' c as"
    by (induction rule: chain.induct) (auto simp: eq intro: chain.intros)
qed

lemma chain_agree: "chain h c as \<Longrightarrow> (\<And>x. x \<in> set as \<Longrightarrow> h' x = h x) \<Longrightarrow> chain h' c as"
proof (induction rule: chain.induct)
  case (chain_step a as)
  then have "class_parent h' a = class_parent h a"
    by (simp add: class_parent_def)
  with chain_step show ?case
    by (metis chain.chain_step list.set_intros(2))
qed (rule chain_end)

lemma chain_method_agree: "(\<And>x. x \<in> set as \<Longrightarrow> h' x = h x) \<Longrightarrow> chain_method h' as = chain_method h as"
  by (induction as) (auto simp: own_method_def fun_eq_iff split: option.split)

lemma chain_slots_agree: "(\<And>x. x \<in> set as \<Longrightarrow> h' x = h x) \<Longrightarrow> chain_slots h' as = chain_slots h as"
  by (cases as) auto

lemma laid_agree: "laid h as \<Longrightarrow> (\<And>x. x \<in> set as \<Longrightarrow> h' x = h x) \<Longrightarrow> laid h' as"
proof (induction as)
  case (Cons a as)
  then show ?case
    using chain_method_agree[of as h' h] chain_slots_agree[of as h' h] by auto
qed simp

lemma laid_checked: "laid h as \<Longrightarrow> a \<in> set as \<Longrightarrow> \<exists>cd. h a = Some cd \<and> checked cd"
  by (induction as) auto

section \<open>Laying out a class\<close>

text \<open>The invariant between the calls: the classes marked \<open>checked\<close>, except those whose layout is still
  under way, have a finite chain that is laid out and holds none of the others; the
  rest have no slots yet.\<close>

definition layout_inv :: "nat set \<Rightarrow> classes \<Rightarrow> bool" where
  "layout_inv S h \<longleftrightarrow>
     (\<forall>c cd. h c = Some cd \<longrightarrow>
        (if checked cd then c \<in> S \<or> (\<exists>as. chain h (Some c) as \<and> laid h as \<and> set as \<inter> S = {}) else nvslots cd = 0 \<and> c \<notin> S))"

definition laid_above :: "nat set \<Rightarrow> nat \<Rightarrow> classes \<Rightarrow> bool" where
  "laid_above S a h \<longleftrightarrow> (\<exists>as. chain h (Some a) as \<and> laid h as \<and> set as \<inter> S = {})"

text \<open>What a call keeps: parents, names and what is already marked.\<close>

definition keeps :: "classes \<Rightarrow> classes \<Rightarrow> bool" where
  "keeps h h' \<longleftrightarrow> (\<forall>c. class_parent h' c = class_parent h c) \<and> (\<forall>c cd. h c = Some cd \<and> checked cd \<longrightarrow> h' c = Some cd)"

lemma layout_own_ok:
  assumes own: "layout_own a (chain_slots h as) h = Some (Inr h')"
    and a: "h a = Some cd" "checked cd" and as: "chain h (class_parent h a) as" "laid h as" "set as \<inter> insert a S = {}"
    and inv: "layout_inv (insert a S) h" and S: "a \<notin> S"
  shows "layout_inv S h'" "laid_above S a h'" "\<And>c. c \<noteq> a \<Longrightarrow> h' c = h c" "\<And>c. class_parent h' c = class_parent h c"
proof -
  obtain n ms where ms: "layout_methods h a [] (chain_slots h as) (cd_methods cd) = Some (Inr (n, ms))"
    and h': "h' = h(a \<mapsto> cd\<lparr>cd_methods := ms, nvslots := n\<rparr>)"
    using own a by (auto simp: layout_own_def)
  show frame: "\<And>c. c \<noteq> a \<Longrightarrow> h' c = h c" and par: "\<And>c. class_parent h' c = class_parent h c"
    using a by (auto simp: h' class_parent_def)
  have agree: "x \<in> set as \<Longrightarrow> h' x = h x" for x
    using as(3) frame by blast
  have "class_ok (chain_method h as) (chain_slots h as) n ms"
    using layout_methods_ok[OF ms class_ok_Nil] class_find_method_chain[OF as(1)] by blast
  then have l: "laid h' (a # as)"
    using laid_agree[OF as(2), of h'] a chain_method_agree[of as h' h] chain_slots_agree[of as h' h] agree
    by (simp add: h')
  have c: "chain h' (Some a) (a # as)"
    using chain_step[of h' a as] chain_agree[OF as(1) agree] par by metis
  show ab: "laid_above S a h'"
    using l c as(3) S unfolding laid_above_def by (metis Int_insert_right disjoint_insert(1) list.simps(15) inf_commute)
  show "layout_inv S h'"
    unfolding layout_inv_def
  proof (intro allI impI)
    fix x xd assume x: "h' x = Some xd"
    show "if checked xd then x \<in> S \<or> (\<exists>as. chain h' (Some x) as \<and> laid h' as \<and> set as \<inter> S = {}) else nvslots xd = 0 \<and> x \<notin> S"
    proof (cases "x = a")
      case True
      then show ?thesis using ab x a by (auto simp: laid_above_def h')
    next
      case False
      then have hx: "h x = Some xd" using x frame by metis
      have "\<exists>bs. chain h' (Some x) bs \<and> laid h' bs \<and> set bs \<inter> S = {}"
        if bs: "chain h (Some x) bs" "laid h bs" "set bs \<inter> insert a S = {}" for bs
      proof -
        have ag: "y \<in> set bs \<Longrightarrow> h' y = h y" for y using bs(3) frame by blast
        show ?thesis using chain_agree[OF bs(1) ag] laid_agree[OF bs(2) ag] bs(3) by blast
      qed
      then show ?thesis
        using inv hx False unfolding layout_inv_def by (metis insert_iff)
    qed
  qed
qed

lemma mark_inv:
  assumes inv: "layout_inv S h" and a: "h a = Some cd" "\<not> checked cd"
  shows "layout_inv (insert a S) (h(a \<mapsto> cd\<lparr>checked := True\<rparr>))"
    and "\<And>c. class_parent (h(a \<mapsto> cd\<lparr>checked := True\<rparr>)) c = class_parent h c"
proof -
  let ?h = "h(a \<mapsto> cd\<lparr>checked := True\<rparr>)"
  show par: "\<And>c. class_parent ?h c = class_parent h c"
    using a by (simp add: class_parent_def)
  have move: "\<exists>bs. chain ?h (Some c) bs \<and> laid ?h bs \<and> set bs \<inter> insert a S = {}"
    if bs: "chain h (Some c) bs" "laid h bs" "set bs \<inter> S = {}" for c bs
  proof -
    have na: "a \<notin> set bs" using laid_checked[OF bs(2)] a by fastforce
    then have "laid ?h bs" using laid_agree[OF bs(2), of ?h] by (metis fun_upd_other)
    then show ?thesis using chain_cong[OF par[symmetric] bs(1)] bs(3) na by blast
  qed
  show "layout_inv (insert a S) ?h"
    unfolding layout_inv_def
  proof (intro allI impI)
    fix c xd assume "?h c = Some xd"
    then show "if checked xd then c \<in> insert a S \<or> (\<exists>bs. chain ?h (Some c) bs \<and> laid ?h bs \<and> set bs \<inter> insert a S = {})
          else nvslots xd = 0 \<and> c \<notin> insert a S"
      using inv move unfolding layout_inv_def by (cases "c = a") (auto, metis+)
  qed
qed

definition layout_post :: "nat \<Rightarrow> classes \<Rightarrow> classes cres \<Rightarrow> bool" where
  "layout_post a h r \<longleftrightarrow>
     (\<forall>S h'. r = Inr h' \<and> layout_inv S h \<and> (\<forall>as. chain h (Some a) as \<longrightarrow> set as \<inter> S = {}) \<and> a \<notin> S \<longrightarrow>
        layout_inv S h' \<and> laid_above S a h' \<and> keeps h h')"

lemma keeps_refl: "keeps h h"
  by (simp add: keeps_def)

lemma layout_root_ok:
  assumes inv: "layout_inv S h" and a: "h a = Some cd" "\<not> checked cd" "cn_parent cd = None" "a \<notin> S"
    and own: "layout_own a (nvslots cd) (h(a \<mapsto> cd\<lparr>checked := True\<rparr>)) = Some (Inr h')"
  shows "layout_inv S h' \<and> laid_above S a h' \<and> keeps h h'"
proof -
  let ?h = "h(a \<mapsto> cd\<lparr>checked := True\<rparr>)"
  have n: "nvslots cd = chain_slots ?h []" using inv a unfolding layout_inv_def by simp
  have "chain ?h (class_parent ?h a) []" using a by (simp add: class_parent_def chain_end)
  note r = layout_own_ok[OF own[unfolded n] _ _ this _ _ mark_inv(1)[OF inv a(1,2)] a(4)]
  then have "layout_inv S h'" "laid_above S a h'" "\<And>c. c \<noteq> a \<Longrightarrow> h' c = ?h c" "\<And>c. class_parent h' c = class_parent ?h c"
    by simp_all
  moreover from this have "keeps h h'"
    unfolding keeps_def using mark_inv(2)[OF inv a(1,2)] a
    by (metis fun_upd_other option.inject)
  ultimately show ?thesis by blast
qed

lemma layout_sub_ok:
  assumes inv: "layout_inv S h" and a: "h a = Some cd" "\<not> checked cd" "cn_parent cd = Some p" "a \<notin> S"
    and S: "\<forall>as. chain h (Some a) as \<longrightarrow> set as \<inter> S = {}"
    and h1: "h1 = h(a \<mapsto> cd\<lparr>checked := True\<rparr>)" and nd: "class_derives h1 (Some p) a = Some False"
    and IH: "layout_post p h1 (Inr h2)" and below: "layout_below a p h2 = Some (Inr h')"
  shows "layout_inv S h' \<and> laid_above S a h' \<and> keeps h h'"
proof -
  note m = mark_inv[OF inv a(1,2), folded h1]
  have pa: "class_parent h1 a = Some p" "class_parent h a = Some p" using a h1 by (simp_all add: class_parent_def)
  obtain as where as: "chain h1 (Some p) as" "a \<notin> set as" by (rule class_derives_False_chain[OF nd])
  have "chain h (Some a) (a # as)" using chain_step[of h a as] chain_cong[OF m(2) as(1)] pa by metis
  then have dis: "set as \<inter> insert a S = {}" using S as(2) by fastforce
  have "p \<in> set as" using as(1) by (auto elim: chain_SomeE)
  then have "p \<notin> insert a S" using dis by blast
  then have h2: "layout_inv (insert a S) h2" "laid_above (insert a S) p h2" "keeps h1 h2"
    using IH m(1) chain_det[OF as(1)] dis unfolding layout_post_def by metis+
  have h2a: "h2 a = Some (cd\<lparr>checked := True\<rparr>)" using h2(3) h1 unfolding keeps_def by simp
  have p2: "class_parent h2 c = class_parent h c" for c using h2(3) m(2) unfolding keeps_def by simp
  obtain bs where bs: "chain h2 (Some p) bs" "laid h2 bs" "set bs \<inter> insert a S = {}"
    using h2(2) unfolding laid_above_def by blast
  then obtain pd where pd: "h2 p = Some pd" "chain_slots h2 bs = nvslots pd"
    by (auto elim!: chain_SomeE)
  then have own: "layout_own a (chain_slots h2 bs) h2 = Some (Inr h')"
    using below h2a by (auto simp: layout_below_def)
  have "chain h2 (class_parent h2 a) bs" using bs(1) p2 pa by simp
  note r = layout_own_ok[OF own h2a _ this bs(2,3) h2(1) a(4)]
  then have res: "layout_inv S h'" "laid_above S a h'" and fr: "\<And>c. c \<noteq> a \<Longrightarrow> h' c = h2 c"
    and par: "\<And>c. class_parent h' c = class_parent h2 c" by simp_all
  have "h' c = Some xd" if "h c = Some xd" "checked xd" for c xd
  proof -
    have "c \<noteq> a" using that a by auto
    moreover from this have "h1 c = Some xd" using that h1 by simp
    ultimately show ?thesis using fr h2(3) that(2) unfolding keeps_def by metis
  qed
  then show ?thesis using res par p2 unfolding keeps_def by simp
qed

lemma layout_class_post:
  assumes "layout_class a h = Some r"
  shows "layout_post a h r"
  using assms
proof (rule layout_class.raw_induct[rotated])
  fix w a h r
  assume IH: "\<And>a h r. w a h = Some r \<Longrightarrow> layout_post a h r"
    and step: "(case h a of
        None \<Rightarrow> Some (Inl Undefined)
      | Some cd \<Rightarrow>
          if checked cd then Some (Inr h)
          else
            let h = h(a \<mapsto> cd\<lparr>checked := True\<rparr>)
            in (case cn_parent cd of
                  None \<Rightarrow> layout_own a (nvslots cd) h
                | Some p \<Rightarrow> Option.bind (class_derives h (Some p) a) (\<lambda>d.
                    if d then Some (Inl (FatalAt (cd_loc cd) ''inheritance cycle''))
                    else Option.bind (w p h) (\<lambda>r. case r of
                           Inl e \<Rightarrow> Some (Inl e)
                         | Inr h \<Rightarrow> layout_below a p h)))) = Some r"
  show "layout_post a h r"
    unfolding layout_post_def
  proof (intro allI impI, elim conjE)
    fix S h' assume r: "r = Inr h'" and inv: "layout_inv S h" "a \<notin> S" "\<forall>as. chain h (Some a) as \<longrightarrow> set as \<inter> S = {}"
    obtain cd where a: "h a = Some cd" using step r by (cases "h a") auto
    show "layout_inv S h' \<and> laid_above S a h' \<and> keeps h h'"
    proof (cases "checked cd")
      case True
      then have "h' = h" using step r a by simp
      with True show ?thesis
        using inv a keeps_refl unfolding layout_inv_def laid_above_def by metis
    next
      case False
      define h1 where "h1 = h(a \<mapsto> cd\<lparr>checked := True\<rparr>)"
      show ?thesis
      proof (cases "cn_parent cd")
        case None
        then have "layout_own a (nvslots cd) h1 = Some (Inr h')" using step r a False by (simp add: h1_def)
        then show ?thesis using layout_root_ok[OF inv(1) a False None inv(2)] by (simp add: h1_def)
      next
        case (Some p)
        then have b: "Option.bind (class_derives h1 (Some p) a) (\<lambda>d.
                    if d then Some (Inl (FatalAt (cd_loc cd) ''inheritance cycle''))
                    else Option.bind (w p h1) (\<lambda>r. case r of
                           Inl e \<Rightarrow> Some (Inl e)
                         | Inr h \<Rightarrow> layout_below a p h)) = Some (Inr h')"
          using step r a False by (simp add: h1_def[symmetric])
        then obtain rr where "class_derives h1 (Some p) a = Some False" "w p h1 = Some rr"
          "(case rr of Inl e \<Rightarrow> Some (Inl e) | Inr h \<Rightarrow> layout_below a p h) = Some (Inr h')"
          by (auto simp: bind_eq_Some_conv split: if_splits)
        moreover from this obtain h2 where "rr = Inr h2" by (cases rr) auto
        ultimately show ?thesis
          using layout_sub_ok[OF inv(1) a False Some inv(2,3) h1_def _ IH] by simp
      qed
    qed
  qed
qed

section \<open>Dispatch\<close>

lemma own_methodD:
  "own_method h name a = Some m \<Longrightarrow> h a = Some cd \<Longrightarrow> m \<in> set (cd_methods cd) \<and> fd_name (fn_head m) = Some name"
  by (auto simp: own_method_def find_Some_iff)

lemma laid_own:
  assumes "laid h (a # as)" "own_method h name a = Some m"
  shows "if is_override (fn_head m)
     then \<exists>i. chain_method h as name = Some i \<and> fn_virtual i \<and> fn_slot m = fn_slot i \<and> fn_sig_identical m i
     else chain_method h as name = None"
proof -
  obtain cd where cd: "h a = Some cd" "class_ok (chain_method h as) (chain_slots h as) (nvslots cd) (cd_methods cd)"
    using assms(1) by auto
  with own_methodD[OF assms(2) cd(1)] show ?thesis
    unfolding class_ok_def by (metis option.sel)
qed

lemma both_trans: "both type_identical x y \<Longrightarrow> both type_identical y z \<Longrightarrow> both type_identical x z"
  by (auto simp: both_def intro: type_identical_trans split: option.splits)

lemma fn_sig_identical_trans: "fn_sig_identical x y \<Longrightarrow> fn_sig_identical y z \<Longrightarrow> fn_sig_identical x z"
  unfolding fn_sig_identical_def
  unfolding list_all2_conv_all_nth by (metis both_trans)

lemma dispatch:
  assumes "laid h (ds @ as)" "chain_method h as name = Some m" "fn_virtual m"
  shows "\<exists>m'. chain_method h (ds @ as) name = Some m' \<and> fn_virtual m' \<and> fn_slot m' = fn_slot m \<and> (m' = m \<or> fn_sig_identical m' m)"
  using assms
proof (induction ds)
  case (Cons d ds)
  then obtain i where i: "chain_method h (ds @ as) name = Some i" "fn_virtual i" "fn_slot i = fn_slot m" "i = m \<or> fn_sig_identical i m"
    by auto
  show ?case
  proof (cases "own_method h name d")
    case (Some m')
    then show ?thesis
      using laid_own[of h d "ds @ as" name m'] Cons.prems(1) i fn_sig_identical_trans by (auto split: if_splits)
  qed (use i in simp)
qed simp

section \<open>Slots are a numbering of the virtual methods\<close>

definition vnames :: "classes \<Rightarrow> nat list \<Rightarrow> string set" where
  "vnames h as = {name. \<exists>m. chain_method h as name = Some m \<and> fn_virtual m}"

definition vslot_of :: "classes \<Rightarrow> nat list \<Rightarrow> string \<Rightarrow> int" where
  "vslot_of h as name = fn_slot (the (chain_method h as name))"

lemma vnames_split:
  assumes "laid h (a # as)" "name \<in> vnames h (a # as)"
  shows "name \<in> vnames h as \<and> vslot_of h (a # as) name = vslot_of h as name \<or>
    name \<notin> vnames h as \<and> (\<exists>m. own_method h name a = Some m \<and> is_virtual (fn_head m) \<and> \<not> is_override (fn_head m) \<and>
      vslot_of h (a # as) name = fn_slot m)"
proof (cases "own_method h name a")
  case None
  then show ?thesis using assms by (simp add: vnames_def vslot_of_def)
next
  case (Some m)
  then show ?thesis
    using laid_own[OF assms(1) Some] assms(2) by (auto simp: vnames_def vslot_of_def split: if_splits)
qed

lemma new_slots:
  assumes "laid h (a # as)" "h a = Some cd" "own_method h name a = Some m" "is_virtual (fn_head m)" "\<not> is_override (fn_head m)"
  shows "fn_slot m \<in> {int (chain_slots h as) ..< int (nvslots cd)}"
    and "own_method h name' a = Some m' \<Longrightarrow> is_virtual (fn_head m') \<Longrightarrow> \<not> is_override (fn_head m') \<Longrightarrow>
      fn_slot m' = fn_slot m \<Longrightarrow> name' = name"
proof -
  let ?new = "filter (\<lambda>m. is_virtual (fn_head m) \<and> \<not> is_override (fn_head m)) (cd_methods cd)"
  have slots: "map fn_slot ?new = map int [chain_slots h as..<nvslots cd]"
    using assms(1,2) by (auto simp: class_ok_def)
  have m: "m \<in> set ?new" "fd_name (fn_head m) = Some name"
    using own_methodD[OF assms(3,2)] assms(4,5) by auto
  then have "fn_slot m \<in> set (map int [chain_slots h as..<nvslots cd])"
    unfolding slots[symmetric] by simp
  then show "fn_slot m \<in> {int (chain_slots h as) ..< int (nvslots cd)}"
    by auto
  have "distinct (map fn_slot ?new)"
    unfolding slots by (simp add: distinct_map)
  then have inj: "inj_on fn_slot (set ?new)"
    using distinct_map by blast
  show "name' = name" if "own_method h name' a = Some m'" "is_virtual (fn_head m')" "\<not> is_override (fn_head m')" "fn_slot m' = fn_slot m"
    using own_methodD[OF that(1) assms(2)] that(2-4) m inj unfolding inj_on_def by fastforce
qed

lemma slots_number:
  "laid h as \<Longrightarrow> inj_on (vslot_of h as) (vnames h as) \<and> vslot_of h as ` vnames h as \<subseteq> {0 ..< int (chain_slots h as)}"
proof (induction as)
  case (Cons a as)
  then obtain cd where cd: "h a = Some cd" "chain_slots h as \<le> nvslots cd" by (auto simp: class_ok_def)
  from Cons have IH: "inj_on (vslot_of h as) (vnames h as)" "\<And>x. x \<in> vnames h as \<Longrightarrow> vslot_of h as x \<in> {0..<int (chain_slots h as)}"
    by auto
  have new: "vslot_of h (a # as) x \<in> {int (chain_slots h as)..<int (nvslots cd)}" if "x \<in> vnames h (a # as)" "x \<notin> vnames h as" for x
    using vnames_split[OF Cons.prems that(1)] that(2) new_slots(1)[OF Cons.prems cd(1)] by auto
  have old: "vslot_of h (a # as) x \<in> {0..<int (chain_slots h as)}" "vslot_of h (a # as) x = vslot_of h as x"
    if "x \<in> vnames h (a # as)" "x \<in> vnames h as" for x
    using vnames_split[OF Cons.prems that(1)] that(2) IH(2)[OF that(2)] by auto
  have "x = y" if xy: "x \<in> vnames h (a # as)" "y \<in> vnames h (a # as)" and eq: "vslot_of h (a # as) x = vslot_of h (a # as) y" for x y
  proof (cases "x \<in> vnames h as \<or> y \<in> vnames h as")
    case True
    have "x \<in> vnames h as \<and> y \<in> vnames h as"
      using True new[OF xy(1)] new[OF xy(2)] old(1)[OF xy(1)] old(1)[OF xy(2)] eq by fastforce
    then show ?thesis using old(2) xy eq IH(1) unfolding inj_on_def by metis
  next
    case False
    then show ?thesis
      using vnames_split[OF Cons.prems xy(1)] vnames_split[OF Cons.prems xy(2)] new_slots(2)[OF Cons.prems cd(1)] eq by metis
  qed
  moreover have "vslot_of h (a # as) x \<in> {0..<int (nvslots cd)}" if "x \<in> vnames h (a # as)" for x
    using new[OF that] old(1)[OF that] cd(2) by (cases "x \<in> vnames h as") auto
  ultimately show ?case using cd(1) by (auto simp: inj_on_def)
qed (simp add: vnames_def)

section \<open>Layout returns on acyclic hierarchies\<close>

lemma find_field_returns: "chain h c as \<Longrightarrow> \<exists>r. map_option Inr (class_find_field h c name) = Some r"
  by (simp add: class_find_field_def class_walk_chain)

lemma layout_methods_returns:
  assumes "chain h (class_parent h a) as"
  shows "\<exists>r. layout_methods h a before n ms = Some r"
proof (induction ms arbitrary: before n)
  case (Cons m ms)
  then show ?case
    using class_find_method_chain[OF assms]
    by (auto intro!: bind_walk_returns find_field_returns[OF chain_step[OF assms]] split: prod.split)
qed simp

lemma shadow_check_returns: "chain h (Some p) as \<Longrightarrow> \<exists>r. shadow_check h p fs = Some r"
  by (induction fs) (auto intro!: bind_walk_returns find_field_returns)

lemma layout_own_returns: "chain h (class_parent h a) as \<Longrightarrow> \<exists>r. layout_own a n h = Some r"
  using layout_methods_returns
  by (auto simp: layout_own_def intro!: bind_walk_returns split: option.split)

lemma layout_below_returns: "chain h (Some p) as \<Longrightarrow> class_parent h a = Some p \<Longrightarrow> \<exists>r. layout_below a p h = Some r"
  using layout_own_returns[of h a as] shadow_check_returns
  by (auto simp: layout_below_def intro!: bind_walk_returns split: option.split)

lemma layout_own_parents: "layout_own a n h = Some (Inr h') \<Longrightarrow> class_parent h' c = class_parent h c"
  by (cases "c = a") (auto simp: layout_own_def class_parent_def split: option.splits)

lemma layout_class_parents:
  assumes "layout_class a h = Some r"
  shows "\<forall>h' c. r = Inr h' \<longrightarrow> class_parent h' c = class_parent h c"
  using assms
proof (rule layout_class.raw_induct[rotated])
  fix w a h r
  assume IH: "\<And>a h r. w a h = Some r \<Longrightarrow> \<forall>h' c. r = Inr h' \<longrightarrow> class_parent h' c = class_parent h c"
    and step: "(case h a of
        None \<Rightarrow> Some (Inl Undefined)
      | Some cd \<Rightarrow>
          if checked cd then Some (Inr h)
          else
            let h = h(a \<mapsto> cd\<lparr>checked := True\<rparr>)
            in (case cn_parent cd of
                  None \<Rightarrow> layout_own a (nvslots cd) h
                | Some p \<Rightarrow> Option.bind (class_derives h (Some p) a) (\<lambda>d.
                    if d then Some (Inl (FatalAt (cd_loc cd) ''inheritance cycle''))
                    else Option.bind (w p h) (\<lambda>r. case r of
                           Inl e \<Rightarrow> Some (Inl e)
                         | Inr h \<Rightarrow> layout_below a p h)))) = Some r"
  have below: "class_parent h3 c = class_parent h2 c" if "layout_below a p h2 = Some (Inr h3)" for p h2 h3 c
    using that layout_own_parents by (fastforce simp: layout_below_def split: option.splits)
  show "\<forall>h' c. r = Inr h' \<longrightarrow> class_parent h' c = class_parent h c"
  proof (intro allI impI)
    fix h' c assume r: "r = Inr h'"
    then obtain cd where cd: "h a = Some cd" using step by (cases "h a") auto
    define h1 where "h1 = h(a \<mapsto> cd\<lparr>checked := True\<rparr>)"
    have "class_parent h1 c = class_parent h c" using cd by (simp add: h1_def class_parent_def)
    moreover have "checked cd \<Longrightarrow> h' = h" using step r cd by simp
    moreover have "class_parent h' c = class_parent h1 c" if "\<not> checked cd" "cn_parent cd = None"
      using step r cd that layout_own_parents[of a "nvslots cd" h1 h'] by (simp add: h1_def[symmetric])
    moreover have "class_parent h' c = class_parent h1 c" if sub: "\<not> checked cd" "cn_parent cd = Some p" for p
    proof -
      obtain rr where "w p h1 = Some rr" "(case rr of Inl e \<Rightarrow> Some (Inl e) | Inr h \<Rightarrow> layout_below a p h) = Some (Inr h')"
        using step r cd sub by (auto simp: h1_def[symmetric] bind_eq_Some_conv split: if_splits)
      moreover from this obtain h2 where "rr = Inr h2" by (cases rr) auto
      ultimately show ?thesis using IH[of p h1 rr] below[of p h2 h'] by simp
    qed
    ultimately show "class_parent h' c = class_parent h c" by (cases "cn_parent cd") auto
  qed
qed

theorem layout_class_returns: "chain h (Some a) as \<Longrightarrow> \<exists>r. layout_class a h = Some r"
proof (induction as arbitrary: a h)
  case (Cons x as)
  then have as: "chain h (class_parent h a) as" by (auto elim: chain_SomeE)
  show ?case
  proof (cases "\<exists>cd. h a = Some cd \<and> \<not> checked cd")
    case True
    then obtain cd where cd: "h a = Some cd" "\<not> checked cd" by blast
    define h1 where "h1 = h(a \<mapsto> cd\<lparr>checked := True\<rparr>)"
    have p1: "class_parent h1 c = class_parent h c" for c using cd by (simp add: h1_def class_parent_def)
    then have as1: "chain h1 (class_parent h1 a) as" using chain_cong[OF p1[symmetric] as] by simp
    show ?thesis
    proof (cases "cn_parent cd")
      case None
      then have "layout_class a h = layout_own a (nvslots cd) h1"
        using cd by (subst layout_class.simps) (simp add: h1_def)
      then show ?thesis using layout_own_returns[OF as1] by simp
    next
      case (Some p)
      then have p: "class_parent h1 a = Some p" using cd by (simp add: h1_def class_parent_def)
      then obtain r where r: "layout_class p h1 = Some r" using Cons.IH[of h1 p] as1 by auto
      have "layout_class a h = (if a \<in> set as then Some (Inl (FatalAt (cd_loc cd) ''inheritance cycle''))
          else case r of Inl e \<Rightarrow> Some (Inl e) | Inr h \<Rightarrow> layout_below a p h)"
        using cd Some class_derives_chain[OF as1[unfolded p], of a] r
        by (subst layout_class.simps) (simp add: h1_def[symmetric])
      moreover have "\<exists>r. layout_below a p h2 = Some r" if "r = Inr h2" for h2
      proof -
        have p2: "class_parent h1 c = class_parent h2 c" for c
          using layout_class_parents[OF r] that by simp
        have as2: "chain h2 (class_parent h2 a) as" using chain_cong[OF p2 as1] p2 by simp
        show ?thesis
          using layout_below_returns[of h2 p as a] as2 p p2 by simp
      qed
      ultimately show ?thesis by (cases r) auto
    qed
  next
    case False
    then show ?thesis by (subst layout_class.simps) (auto split: option.split)
  qed
qed (auto elim: chain_SomeE)

section \<open>An endless walk\<close>

definition no_root :: "classes \<Rightarrow> nat set \<Rightarrow> bool" where
  "no_root h R \<longleftrightarrow> (\<forall>a\<in>R. \<exists>b\<in>R. class_parent h a = Some b)"

lemma class_walk_hits:
  fixes test :: "nat \<Rightarrow> 'r option"
  assumes "class_walk h test c = Some r"
  shows "\<forall>R a. c = Some a \<and> a \<in> R \<and> no_root h R \<longrightarrow> (\<exists>a\<in>R. test a \<noteq> None)"
  using assms
proof (rule class_walk.raw_induct[rotated])
  fix w :: "classes \<Rightarrow> (nat \<Rightarrow> 'r option) \<Rightarrow> nat option \<Rightarrow> 'r option option" and h test c r
  assume IH: "\<And>h test c r. w h test c = Some r \<Longrightarrow> \<forall>R a. c = Some a \<and> a \<in> R \<and> no_root h R \<longrightarrow> (\<exists>a\<in>R. test a \<noteq> None)"
    and step: "(case c of None \<Rightarrow> Some None
      | Some a \<Rightarrow> (case test a of Some r \<Rightarrow> Some (Some r) | None \<Rightarrow> w h test (class_parent h a))) = Some r"
  show "\<forall>R a. c = Some a \<and> a \<in> R \<and> no_root h R \<longrightarrow> (\<exists>a\<in>R. test a \<noteq> None)"
  proof (intro allI impI, elim conjE)
    fix R a assume a: "c = Some a" "a \<in> R" and R: "no_root h R"
    obtain b where b: "b \<in> R" "class_parent h a = Some b" using a R unfolding no_root_def by blast
    show "\<exists>a\<in>R. test a \<noteq> None"
    proof (cases "test a")
      case None
      then have "w h test (Some b) = Some r" using step a b by simp
      then show ?thesis using IH b R by blast
    qed (use a in blast)
  qed
qed

lemma class_derives_endless:
  assumes "a \<in> R" "no_root h R" "b \<notin> R"
  shows "class_derives h (Some a) b = None"
proof (cases "class_walk h (\<lambda>c. if c = b then Some () else None) (Some a)")
  case (Some r)
  show ?thesis
    using class_walk_hits[OF Some] assms by (metis (mono_tags, lifting))
qed (simp add: class_derives_def)

lemma layout_class_endless:
  assumes "h a = Some cd" "\<not> checked cd" "cn_parent cd = Some p" "p \<in> R" "no_root h R" "a \<notin> R"
  shows "layout_class a h = None"
proof -
  let ?h = "h(a \<mapsto> cd\<lparr>checked := True\<rparr>)"
  have "class_parent ?h c = class_parent h c" for c using assms(1) by (simp add: class_parent_def)
  then have "class_derives ?h (Some p) a = None"
    using class_derives_endless[of p R ?h a] assms(4-6) by (simp add: no_root_def)
  then show ?thesis
    using assms(1-3) by (subst layout_class.simps) simp
qed

section \<open>Properties\<close>

lemma chain_suffix: "chain h c as \<Longrightarrow> b \<in> set as \<Longrightarrow> \<exists>ds bs. as = ds @ bs \<and> chain h (Some b) bs"
proof (induction rule: chain.induct)
  case (chain_step a as)
  then show ?case
    using chain.chain_step[of h a as] by (cases "a = b") (force intro: exI[of _ "[]"], metis append_Cons set_ConsD)
qed simp

text \<open>C22: Virtual dispatch is consistent. When \<open>layout_class\<close> accepts a class (the classes laid out before it being
  consistent), all laid-out classes are consistent again, and in the class: two virtual methods of different
  names have different vtable slots, below the number of slots of the class; and for
  every class it derives from, a virtual method found there by name is found in the
  class too, as a virtual method with the same slot and either the same or an identical
  signature, so that a call through the slot of the static class reaches the method the
  dynamic class has for the name.\<close>

theorem vtable_dispatch:
  assumes "layout_inv {} h" and "layout_class a h = Some (Inr h')"
  shows "layout_inv {} h' \<and>
    (\<exists>cd. h' a = Some cd \<and> checked cd \<and>
      (\<forall>x mx. class_find_method h' (Some a) x = Some (Some mx) \<and> fn_virtual mx \<longrightarrow>
         0 \<le> fn_slot mx \<and> fn_slot mx < int (nvslots cd) \<and>
         (\<forall>y my. class_find_method h' (Some a) y = Some (Some my) \<and> fn_virtual my \<and> fn_slot my = fn_slot mx \<longrightarrow> y = x))) \<and>
    (\<forall>b name m. class_derives h' (Some a) b = Some True \<and> class_find_method h' (Some b) name = Some (Some m) \<and> fn_virtual m \<longrightarrow>
       (\<exists>m'. class_find_method h' (Some a) name = Some (Some m') \<and> fn_virtual m' \<and> fn_slot m' = fn_slot m \<and>
             (m' = m \<or> fn_sig_identical m' m)))"
proof -
  have "layout_inv {} h' \<and> laid_above {} a h' \<and> keeps h h'"
    using layout_class_post[OF assms(2)] assms(1) unfolding layout_post_def by blast
  then obtain as where inv: "layout_inv {} h'" and as: "chain h' (Some a) as" "laid h' as"
    unfolding laid_above_def by blast
  obtain bs where bs: "as = a # bs" using as(1) by (auto elim: chain_SomeE)
  then obtain cd where cd: "h' a = Some cd" "checked cd" "chain_slots h' as = nvslots cd" using as(2) by auto
  note fm = class_find_method_chain[OF as(1)]
  have "\<forall>x mx. class_find_method h' (Some a) x = Some (Some mx) \<and> fn_virtual mx \<longrightarrow>
         0 \<le> fn_slot mx \<and> fn_slot mx < int (nvslots cd) \<and>
         (\<forall>y my. class_find_method h' (Some a) y = Some (Some my) \<and> fn_virtual my \<and> fn_slot my = fn_slot mx \<longrightarrow> y = x)"
    using slots_number[OF as(2)] cd(3) unfolding fm inj_on_def vnames_def vslot_of_def by fastforce
  moreover have "\<exists>m'. class_find_method h' (Some a) name = Some (Some m') \<and> fn_virtual m' \<and> fn_slot m' = fn_slot m \<and>
             (m' = m \<or> fn_sig_identical m' m)"
    if "class_derives h' (Some a) b = Some True \<and> class_find_method h' (Some b) name = Some (Some m) \<and> fn_virtual m" for b name m
  proof -
    have "b \<in> set as" using that class_derives_chain[OF as(1)] by simp
    then obtain ds cs where cs: "as = ds @ cs" "chain h' (Some b) cs" using chain_suffix[OF as(1)] by blast
    then show ?thesis
      using dispatch[of h' ds cs name m] as(2) that class_find_method_chain[OF cs(2)] unfolding fm by simp
  qed
  ultimately show ?thesis using inv cd by blast
qed

text \<open>A hierarchy of two classes: the class at 1 overrides the virtual method of the class at 0.\<close>

definition sample_method :: "bool \<Rightarrow> fn_decl" where
  "sample_method ov = FnDecl
     \<lparr>fd_name = Some ''draw'', fd_loc = \<lparr>l_file = None, l_line = 1, l_col = 1\<rparr>, is_virtual = \<not> ov, is_override = ov,
      is_extern = False, is_builder = False, is_static = False, fd_owner = None, fd_sowner = None, vslot = -1,
      arrow_id = 0, fd_typarams = []\<rparr> [] (Some (type_new TY_VOID \<lparr>l_file = None, l_line = 1, l_col = 1\<rparr>)) []"

definition sample_class :: "nat option \<Rightarrow> fn_decl list \<Rightarrow> class_node" where
  "sample_class p ms =
     \<lparr>cd_name = ''Shape'', cd_loc = \<lparr>l_file = None, l_line = 1, l_col = 1\<rparr>, parent_name = None, cd_fields = [], cd_methods = ms,
      cd_consts = [], ctor = None, deinit_body = [], cd_typarams = [], cn_parent = p, nvslots = 0, checked = False\<rparr>"

definition sample_classes :: classes where
  "sample_classes = [0 \<mapsto> sample_class None [sample_method False], 1 \<mapsto> sample_class (Some 0) [sample_method True]]"

inductive_simps chain_NoneI: "chain h None as"
inductive_simps chain_ConsI: "chain h (Some a) (b # as)"

lemma find_field_none:
  "chain h c as \<Longrightarrow> (\<forall>a\<in>set as. \<forall>cd. h a = Some cd \<longrightarrow> cd_fields cd = []) \<Longrightarrow> class_find_field h c name = Some None"
  unfolding class_find_field_def
proof (induction rule: chain.induct)
  case (chain_step a as)
  then show ?case by (subst class_walk.simps) (auto split: option.split)
qed (subst class_walk.simps, simp)

lemmas sample_simps = sample_class_def sample_method_def

lemma sample_layout: "\<exists>h'. layout_class 1 sample_classes = Some (Inr h')"
proof -
  define c0 where "c0 = sample_class None [sample_method False]"
  define c1 where "c1 = sample_class (Some 0) [sample_method True]"
  define h1 where "h1 = sample_classes(1 \<mapsto> c1\<lparr>checked := True\<rparr>)"
  define h1' where "h1' = h1(0 \<mapsto> c0\<lparr>checked := True\<rparr>)"
  define h2 where "h2 = h1(0 \<mapsto> c0\<lparr>checked := True, cd_methods := [set_vslot 0 (sample_method False)], nvslots := 1\<rparr>)"
  have at: "sample_classes 1 = Some c1" "sample_classes 0 = Some c0" "h1 0 = Some c0" "h1' 0 = Some (c0\<lparr>checked := True\<rparr>)"
    "h2 0 = Some (c0\<lparr>checked := True, cd_methods := [set_vslot 0 (sample_method False)], nvslots := 1\<rparr>)"
    "h2 1 = Some (c1\<lparr>checked := True\<rparr>)"
    by (simp_all add: h1_def h1'_def h2_def sample_classes_def c0_def c1_def)
  have c: "chain h1 (Some 0) [0]" "chain h1' (Some 0) [0]" "chain h2 (Some 0) [0]" "chain h2 (Some 1) [1, 0]"
    by (simp_all add: chain_NoneI chain_ConsI at class_parent_def c0_def c1_def sample_simps del: One_nat_def)
  have cc: "cn_parent c0 = None" "cn_parent c1 = Some 0" "\<not> checked c0" "\<not> checked c1" "cd_fields c0 = []" "cd_fields c1 = []"
    "cd_methods c0 = [sample_method False]" "cd_methods c1 = [sample_method True]" "nvslots c0 = 0"
    by (simp_all add: c0_def c1_def sample_simps)
  have ff: "class_find_field h1' (Some 0) n = Some None" "class_find_field h2 (Some 0) n = Some None" "class_find_field h2 (Some 1) n = Some None" for n
    by (rule find_field_none[OF c(2)], simp add: at cc) (rule find_field_none[OF c(3)], simp add: at cc, rule find_field_none[OF c(4)], simp add: at cc del: One_nat_def)
  have slot: "method_slot None 0 (sample_method False) = Inr (1, set_vslot 0 (sample_method False))"
    "method_rest [] None (set_vslot 0 (sample_method False)) = Inr ()"
    by (simp_all add: method_slot_def method_rest_def sample_method_def)
  have fm: "class_find_method h1' None n = Some None" for n
    by (simp add: class_find_method_chain[OF chain_end])
  have own: "layout_own 0 0 h1' = Some (Inr (h1'(0 \<mapsto> c0\<lparr>checked := True, cd_methods := [set_vslot 0 (sample_method False)], nvslots := 1\<rparr>)))"
    by (simp add: layout_own_def at cc class_parent_def fm bind_walk_def slot ff)
  have "layout_class 0 h1 = Some (Inr h2)"
    using own by (subst layout_class.simps) (simp add: at cc h1'_def h2_def)
  moreover have slot1: "\<exists>n m. method_slot (chain_method h2 [0] (fn_name (sample_method True))) 1 (sample_method True) = Inr (n, m) \<and>
      method_rest [] None m = Inr ()"
    by (simp add: own_method_def at method_slot_def method_rest_def sample_method_def fn_sig_identical_def both_def
        type_identical.simps type_new_def)
  have "\<exists>h'. layout_below 1 0 h2 = Some (Inr h')"
    using slot1 class_find_method_chain[OF c(3)]
    by (auto simp: layout_below_def layout_own_def at cc ff class_parent_def simp del: One_nat_def)
  ultimately show ?thesis
    using class_derives_chain[OF c(1), of 1] at(1) cc(2,4)
    by (subst layout_class.simps) (simp add: h1_def[symmetric] del: One_nat_def)
qed

theorem vtable_dispatch_witness:
  "\<exists>h'. layout_class 1 sample_classes = Some (Inr h') \<and> layout_inv {} sample_classes \<and> layout_inv {} h'"
proof -
  have "layout_inv {} sample_classes"
    by (auto simp: layout_inv_def sample_classes_def sample_class_def split: if_splits)
  then show ?thesis
    using sample_layout vtable_dispatch by blast
qed

text \<open>C23: Laying out a class returns, with a diagnostic or the layout, whenever the chain of its parents ends; it
  does not return when the chain runs into a cycle that the class itself is not on, because the
  test for an inheritance cycle walks that cycle for ever.\<close>

theorem layout_terminates:
  "((\<exists>as. chain h (Some a) as) \<longrightarrow> (\<exists>r. layout_class a h = Some r)) \<and>
   (h a = Some cd \<and> \<not> checked cd \<and> cn_parent cd = Some p \<and> p \<in> R \<and> no_root h R \<and> a \<notin> R \<longrightarrow> layout_class a h = None)"
  using layout_class_returns layout_class_endless by blast

theorem layout_terminates_witness:
  "(\<exists>r. layout_class 1 sample_classes = Some r) \<and>
   layout_class 0 [0 \<mapsto> sample_class (Some 1) [], 1 \<mapsto> sample_class (Some 2) [], 2 \<mapsto> sample_class (Some 1) []] = None"
proof -
  have "chain sample_classes (Some 1) [1, 0]"
    by (simp add: chain_NoneI chain_ConsI sample_classes_def sample_class_def class_parent_def)
  then have 1: "\<exists>r. layout_class 1 sample_classes = Some r"
    using layout_terminates by blast
  let ?h = "[0 \<mapsto> sample_class (Some 1) [], 1 \<mapsto> sample_class (Some 2) [], 2 \<mapsto> sample_class (Some 1) []] :: classes"
  have "?h 0 = Some (sample_class (Some 1) [])" "no_root ?h {1, 2}"
    by (simp_all add: no_root_def class_parent_def sample_class_def)
  then have "layout_class 0 ?h = None"
    using layout_terminates[of ?h 0 "sample_class (Some 1) []" 1 "{1, 2}"] by (simp add: sample_class_def)
  with 1 show ?thesis by blast
qed

end
