(* ===== verification/Vt_Flow.thy ===== *)
theory Vt_Flow
  imports Vt_Types
begin

text \<open>
  Control flow in the checker (\<open>src/check.c\<close>): which blocks leave by their last statement
  (\<open>block_exits\<close>), which functions return on every path (\<open>stmt_returns\<close> to \<open>require_returns\<close>),
  and the part of \<open>check_stmt\<close> that follows the loop depth and the stack of arena regions. What the
  checker found out about the nodes before is a parameter: which calls are the builtin
  \<open>panic\<close>, and which enum switches cover every variant. The analyses are compared with the
  ways a statement can end when it is run.
\<close>

section \<open>The analyses\<close>

record annot =
  is_panic :: "expr \<Rightarrow> bool"
  switch_total :: "stmt \<Rightarrow> bool"

fun stmt_exits :: "stmt \<Rightarrow> bool" and block_exits :: "stmt list \<Rightarrow> bool" where
  "stmt_exits (ST_RETURN l e) = True"
| "stmt_exits (ST_BREAK l) = True"
| "stmt_exits (ST_CONTINUE l) = True"
| "stmt_exits (ST_IF l c body els) = (els \<noteq> [] \<and> block_exits body \<and> block_exits els)"
| "stmt_exits (ST_BLOCK l body) = block_exits body"
| "stmt_exits s = False"
| "block_exits [] = False"
| "block_exits [s] = stmt_exits s"
| "block_exits (_ # s # ss) = block_exits (s # ss)"

fun stmt_has_break :: "stmt \<Rightarrow> bool" and block_has_break :: "stmt list \<Rightarrow> bool" and arms_have_break :: "switch_arm list \<Rightarrow> bool" where
  "stmt_has_break (ST_BREAK l) = True"
| "stmt_has_break (ST_IF l c body els) = (block_has_break body \<or> block_has_break els)"
| "stmt_has_break (ST_BLOCK l body) = block_has_break body"
| "stmt_has_break (ST_ARENA l n body) = block_has_break body"
| "stmt_has_break (ST_SWITCH l e arms) = arms_have_break arms"
| "stmt_has_break s = False"
| "block_has_break [] = False"
| "block_has_break (s # ss) = (stmt_has_break s \<or> block_has_break ss)"
| "arms_have_break [] = False"
| "arms_have_break (SwitchArm l d vs body # arms) = (block_has_break body \<or> arms_have_break arms)"

fun literal_true :: "expr \<Rightarrow> bool" where
  "literal_true (EX_BOOL l b) = b"
| "literal_true _ = False"

fun is_call :: "expr \<Rightarrow> bool" where
  "is_call (EX_CALL l c m su ts args ns) = True"
| "is_call _ = False"

fun arm_default :: "switch_arm \<Rightarrow> bool" where
  "arm_default (SwitchArm l d vs body) = d"

fun arm_body :: "switch_arm \<Rightarrow> stmt list" where
  "arm_body (SwitchArm l d vs body) = body"

fun stmt_returns :: "annot \<Rightarrow> stmt \<Rightarrow> bool" and stmts_return :: "annot \<Rightarrow> stmt list \<Rightarrow> bool"
  and arms_return :: "annot \<Rightarrow> switch_arm list \<Rightarrow> bool" where
  "stmt_returns A (ST_RETURN l e) = True"
| "stmt_returns A (ST_EXPR l e) = (is_call e \<and> is_panic A e)"
| "stmt_returns A (ST_IF l c body els) = (els \<noteq> [] \<and> stmts_return A body \<and> stmts_return A els)"
| "stmt_returns A (ST_BLOCK l body) = stmts_return A body"
| "stmt_returns A (ST_ARENA l n body) = stmts_return A body"
| "stmt_returns A (ST_WHILE l c body) = (literal_true c \<and> \<not> block_has_break body)"
| "stmt_returns A (ST_SWITCH l e arms) =
     (arms_return A arms \<and> ((\<exists>a\<in>set arms. arm_default a) \<or> switch_total A (ST_SWITCH l e arms)))"
| "stmt_returns A s = False"
| "stmts_return A [] = False"
| "stmts_return A (s # ss) = (stmt_returns A s \<or> stmts_return A ss)"
| "arms_return A [] = True"
| "arms_return A (SwitchArm l d vs body # arms) = (stmts_return A body \<and> arms_return A arms)"

definition require_returns :: "annot \<Rightarrow> fn_decl \<Rightarrow> unit cres" where
  "require_returns A fd =
     (if \<exists>t. fn_ret fd = Some t \<and> ty_kind t = TY_VOID then Inr ()
      else if \<not> stmts_return A (fn_body fd)
      then Inl (FatalAt (fd_loc (fn_head fd))
             (''function '' @ quoted (case fd_name (fn_head fd) of Some n \<Rightarrow> n | None \<Rightarrow> ''(closure)'') @
              '' must return a value on every path''))
      else Inr ())"

section \<open>How statements end\<close>

datatype outcome = Fall | Brk | Cont | Ret

text \<open>The loops: whether the condition is the literal \<open>true\<close>, and the body.\<close>

fun loop_of :: "stmt \<Rightarrow> (bool \<times> stmt list) option" where
  "loop_of (ST_WHILE l c body) = Some (literal_true c, body)"
| "loop_of (ST_FOR_RANGE l x lo hi body) = Some (False, body)"
| "loop_of (ST_FOR_EACH l x it body) = Some (False, body)"
| "loop_of _ = None"

text \<open>Every way a statement can end, for any values of the conditions that are not the literal
  \<open>true\<close>. A panic and an endless loop do not end. A switch whose subject no arm takes falls
  through; with a default arm, or when the arms cover the enum, there is no such
  subject. A break or continue in an arm is one of the loop around the switch.\<close>

inductive runs :: "annot \<Rightarrow> stmt \<Rightarrow> outcome \<Rightarrow> bool" and runs_block :: "annot \<Rightarrow> stmt list \<Rightarrow> outcome \<Rightarrow> bool" for A where
  r_let: "runs A (ST_LET l x t e) Fall"
| r_expr: "\<not> (is_call e \<and> is_panic A e) \<Longrightarrow> runs A (ST_EXPR l e) Fall"
| r_then: "runs_block A body r \<Longrightarrow> runs A (ST_IF l c body els) r"
| r_else: "runs_block A els r \<Longrightarrow> runs A (ST_IF l c body els) r"
| r_return: "runs A (ST_RETURN l e) Ret"
| r_break: "runs A (ST_BREAK l) Brk"
| r_continue: "runs A (ST_CONTINUE l) Cont"
| r_block: "runs_block A body r \<Longrightarrow> runs A (ST_BLOCK l body) r"
| r_arena: "runs_block A body r \<Longrightarrow> runs A (ST_ARENA l n body) r"
| r_arm: "arm \<in> set arms \<Longrightarrow> runs_block A (arm_body arm) r \<Longrightarrow> runs A (ST_SWITCH l e arms) r"
| r_no_arm: "\<not> (\<exists>a\<in>set arms. arm_default a) \<Longrightarrow> \<not> switch_total A (ST_SWITCH l e arms) \<Longrightarrow> runs A (ST_SWITCH l e arms) Fall"
| r_loop_end: "loop_of s = Some (False, body) \<Longrightarrow> runs A s Fall"
| r_loop_again: "loop_of s = Some (b, body) \<Longrightarrow> runs_block A body r \<Longrightarrow> r = Fall \<or> r = Cont \<Longrightarrow> runs A s r' \<Longrightarrow> runs A s r'"
| r_loop_break: "loop_of s = Some (b, body) \<Longrightarrow> runs_block A body Brk \<Longrightarrow> runs A s Fall"
| r_loop_return: "loop_of s = Some (b, body) \<Longrightarrow> runs_block A body Ret \<Longrightarrow> runs A s Ret"
| rb_nil: "runs_block A [] Fall"
| rb_next: "runs A s Fall \<Longrightarrow> runs_block A ss r \<Longrightarrow> runs_block A (s # ss) r"
| rb_leave: "runs A s r \<Longrightarrow> r \<noteq> Fall \<Longrightarrow> runs_block A (s # ss) r"

lemma arms_have_break_iff: "arms_have_break arms \<longleftrightarrow> (\<exists>a\<in>set arms. block_has_break (arm_body a))"
proof (induction arms)
  case (Cons a arms)
  then show ?case by (cases a) auto
qed simp

lemma arms_return_iff: "arms_return A arms \<longleftrightarrow> (\<forall>a\<in>set arms. stmts_return A (arm_body a))"
proof (induction arms)
  case (Cons a arms)
  then show ?case by (cases a) auto
qed simp

lemma loop_of_cases:
  "loop_of s = Some (b, body) \<Longrightarrow>
     (\<exists>l c. s = ST_WHILE l c body \<and> b = literal_true c) \<or> (\<exists>l x lo hi. s = ST_FOR_RANGE l x lo hi body \<and> \<not> b) \<or>
     (\<exists>l x it. s = ST_FOR_EACH l x it body \<and> \<not> b)"
  by (cases s) auto

lemma break_found:
  "runs A s r \<Longrightarrow> r = Brk \<longrightarrow> stmt_has_break s"
  "runs_block A ss r \<Longrightarrow> r = Brk \<longrightarrow> block_has_break ss"
  by (induction rule: runs_runs_block.inducts) (auto simp: arms_have_break_iff)

lemma returning_never_falls:
  "runs A s r \<Longrightarrow> stmt_returns A s \<longrightarrow> r \<noteq> Fall"
  "runs_block A ss r \<Longrightarrow> stmts_return A ss \<longrightarrow> r \<noteq> Fall"
proof (induction rule: runs_runs_block.inducts)
  case (r_loop_break s b body)
  then show ?case
    using loop_of_cases[OF r_loop_break(1)] break_found(2)[OF r_loop_break(2)] by auto
next
  case (r_loop_end s body)
  then show ?case using loop_of_cases[OF r_loop_end] by auto
qed (auto simp: arms_return_iff)

lemma exiting_never_falls:
  "runs A s r \<Longrightarrow> stmt_exits s \<longrightarrow> r \<noteq> Fall"
  "runs_block A ss r \<Longrightarrow> block_exits ss \<longrightarrow> r \<noteq> Fall"
proof (induction rule: runs_runs_block.inducts)
  case (rb_next s ss r)
  then show ?case by (cases ss) auto
qed (auto dest: loop_of_cases)

section \<open>Loop depth and arenas\<close>

text \<open>The fields of \<open>Ctx\<close> that follow loops and arenas. \<open>rstack\<close> holds the arenas around the current
  statement, the innermost first, each with its id, its name and the loop depth at its entry.\<close>

record region_ctx =
  loop_depth :: nat
  cur_region :: nat
  region_counter :: nat
  region_parent :: "nat \<Rightarrow> nat"
  rstack :: "(nat \<times> string option \<times> nat) list"

definition MAX_REGIONS :: nat where
  "MAX_REGIONS = 256"

definition region_ctx0 :: region_ctx where
  "region_ctx0 = \<lparr>loop_depth = 0, cur_region = 0, region_counter = 0, region_parent = (\<lambda>_. 0), rstack = []\<rparr>"

definition enter_arena :: "loc \<Rightarrow> string option \<Rightarrow> region_ctx \<Rightarrow> region_ctx cres" where
  "enter_arena l name c =
     (if region_counter c + 1 \<ge> MAX_REGIONS
      then Inl (FatalAt l ''too many nested/sequential arenas in one function'')
      else
        let id = region_counter c + 1
        in case name of
             Some n \<Rightarrow>
               if \<exists>(i, m, d)\<in>set (rstack c). m = Some n
               then Inl (FatalAt l (''arena name '' @ quoted n @ '' shadows an enclosing arena''))
               else Inr (c\<lparr>region_counter := id, region_parent := (region_parent c)(id := cur_region c),
                           rstack := (id, name, loop_depth c) # rstack c, cur_region := id\<rparr>)
           | None \<Rightarrow> Inr (c\<lparr>region_counter := id, region_parent := (region_parent c)(id := cur_region c),
                           rstack := (id, name, loop_depth c) # rstack c, cur_region := id\<rparr>))"

definition check_jump :: "loc \<Rightarrow> region_ctx \<Rightarrow> region_ctx cres" where
  "check_jump l c =
     (if loop_depth c = 0 then Inl (FatalAt l ''break/continue outside a loop'')
      else case rstack c of
             (_, _, d) # _ \<Rightarrow>
               if loop_depth c \<le> d then Inl (FatalAt l ''break/continue out of an arena block is not supported yet'')
               else Inr c
           | [] \<Rightarrow> Inr c)"

definition check_return :: "loc \<Rightarrow> region_ctx \<Rightarrow> region_ctx cres" where
  "check_return l c =
     (if cur_region c > 0
      then Inl (FatalAt l ''return inside an arena block is not supported yet; compute a result and return after the block'')
      else Inr c)"

definition enter_loop :: "region_ctx \<Rightarrow> region_ctx" where
  "enter_loop c = c\<lparr>loop_depth := loop_depth c + 1\<rparr>"

definition leave_loop :: "region_ctx \<Rightarrow> region_ctx" where
  "leave_loop c = c\<lparr>loop_depth := loop_depth c - 1\<rparr>"

text \<open>\<open>check_stmt\<close>, as far as these fields go; the diagnostics of the expressions are not part of it.\<close>

fun check_stmt_regions :: "stmt \<Rightarrow> region_ctx \<Rightarrow> region_ctx cres"
  and check_block_regions :: "stmt list \<Rightarrow> region_ctx \<Rightarrow> region_ctx cres"
  and check_arms_regions :: "switch_arm list \<Rightarrow> region_ctx \<Rightarrow> region_ctx cres" where
  "check_stmt_regions (ST_IF l e body els) c = bind_res (check_block_regions body c) (check_block_regions els)"
| "check_stmt_regions (ST_WHILE l e body) c = bind_res (check_block_regions body (enter_loop c)) (\<lambda>c. Inr (leave_loop c))"
| "check_stmt_regions (ST_FOR_RANGE l x lo hi body) c = bind_res (check_block_regions body (enter_loop c)) (\<lambda>c. Inr (leave_loop c))"
| "check_stmt_regions (ST_FOR_EACH l x it body) c = bind_res (check_block_regions body (enter_loop c)) (\<lambda>c. Inr (leave_loop c))"
| "check_stmt_regions (ST_RETURN l e) c = check_return l c"
| "check_stmt_regions (ST_BREAK l) c = check_jump l c"
| "check_stmt_regions (ST_CONTINUE l) c = check_jump l c"
| "check_stmt_regions (ST_BLOCK l body) c = check_block_regions body c"
| "check_stmt_regions (ST_SWITCH l e arms) c = check_arms_regions arms c"
| "check_stmt_regions (ST_ARENA l name body) c =
     bind_res (enter_arena l name c) (\<lambda>c'.
     bind_res (check_block_regions body c') (\<lambda>c''. Inr (c''\<lparr>cur_region := cur_region c, rstack := tl (rstack c'')\<rparr>)))"
| "check_stmt_regions (ST_LET l x t e) c = Inr c"
| "check_stmt_regions (ST_EXPR l e) c = Inr c"
| "check_block_regions [] c = Inr c"
| "check_block_regions (s # ss) c = bind_res (check_stmt_regions s c) (check_block_regions ss)"
| "check_arms_regions [] c = Inr c"
| "check_arms_regions (SwitchArm l d vs body # arms) c = bind_res (check_block_regions body c) (check_arms_regions arms)"

text \<open>\<open>region_outlives\<close>: the walk up the parents ends because a region is made after its parent.\<close>

partial_function (option) region_outlives_from :: "(nat \<Rightarrow> nat) \<Rightarrow> nat \<Rightarrow> nat \<Rightarrow> bool option" where
  "region_outlives_from par a r = (if r = 0 then Some False else if r = a then Some True else region_outlives_from par a (par r))"

definition region_outlives :: "region_ctx \<Rightarrow> nat \<Rightarrow> nat \<Rightarrow> bool option" where
  "region_outlives c a b = (if a = 0 then Some True else region_outlives_from (region_parent c) a b)"

section \<open>The region tree\<close>

text \<open>The ids on the stack are the current region and its ancestors, in order.\<close>

fun region_path :: "(nat \<Rightarrow> nat) \<Rightarrow> nat \<Rightarrow> nat list \<Rightarrow> bool" where
  "region_path par r [] \<longleftrightarrow> r = 0"
| "region_path par r (i # is) \<longleftrightarrow> r = i \<and> 0 < i \<and> par i < i \<and> region_path par (par i) is"

definition region_inv :: "region_ctx \<Rightarrow> bool" where
  "region_inv c \<longleftrightarrow>
     region_path (region_parent c) (cur_region c) (map fst (rstack c)) \<and> (\<forall>i\<in>fst ` set (rstack c). i \<le> region_counter c) \<and>
     (\<forall>i. 0 < i \<longrightarrow> region_parent c i < i) \<and> region_counter c < MAX_REGIONS \<and>
     (\<forall>i > region_counter c. region_parent c i = 0) \<and> (\<forall>(i, n, d)\<in>set (rstack c). d \<le> loop_depth c)"

lemma region_path_agree: "region_path p r is \<Longrightarrow> (\<And>i. i \<in> set is \<Longrightarrow> p' i = p i) \<Longrightarrow> region_path p' r is"
  by (induction "is" arbitrary: r) auto

lemma region_path_le: "region_path p r is \<Longrightarrow> i \<in> set is \<Longrightarrow> i \<le> r"
  by (induction "is" arbitrary: r) fastforce+

lemma region_outlives_from_path: "region_path p r is \<Longrightarrow> region_outlives_from p a r = Some (a \<in> set is)"
proof (induction "is" arbitrary: r)
  case (Cons i js)
  then show ?case by (subst region_outlives_from.simps) auto
qed (subst region_outlives_from.simps, simp)

lemma region_outlives_path:
  assumes "\<forall>i. 0 < i \<longrightarrow> region_parent c i < i"
  shows "\<exists>js. region_path (region_parent c) b js"
proof (induction b rule: less_induct)
  case (less b)
  show ?case
  proof (cases "b = 0")
    case True
    then show ?thesis using region_path.simps(1) by blast
  next
    case False
    then obtain js where "region_path (region_parent c) (region_parent c b) js" using less assms by blast
    then have "region_path (region_parent c) b (b # js)" using False assms by simp
    then show ?thesis by blast
  qed
qed

lemma region_inv0: "region_inv region_ctx0"
  by (simp add: region_inv_def region_ctx0_def MAX_REGIONS_def)

lemma bind_res_Inr: "bind_res m f = Inr y \<longleftrightarrow> (\<exists>x. m = Inr x \<and> f x = Inr y)"
  by (cases m) (auto simp: bind_res_def)

text \<open>What a statement leaves as it was: the depth, the current region and the stack.\<close>

definition region_frame :: "region_ctx \<Rightarrow> region_ctx \<Rightarrow> bool" where
  "region_frame c c' \<longleftrightarrow>
     loop_depth c' = loop_depth c \<and> cur_region c' = cur_region c \<and> rstack c' = rstack c \<and> region_counter c \<le> region_counter c' \<and>
     (\<forall>i \<le> region_counter c. region_parent c' i = region_parent c i) \<and> region_inv c'"

lemma region_frame_refl: "region_inv c \<Longrightarrow> region_frame c c"
  by (simp add: region_frame_def)

lemma region_frame_trans: "region_frame a b \<Longrightarrow> region_frame b c \<Longrightarrow> region_frame a c"
  by (auto simp: region_frame_def)

lemma enter_loop_inv: "region_inv c \<Longrightarrow> region_inv (enter_loop c)"
  by (auto simp: region_inv_def enter_loop_def)

lemma leave_loop_frame: "region_inv c \<Longrightarrow> region_frame (enter_loop c) c' \<Longrightarrow> region_frame c (leave_loop c')"
  by (auto simp: region_frame_def region_inv_def enter_loop_def leave_loop_def)

lemma enter_arena_inv:
  assumes "enter_arena l name c = Inr c'" "region_inv c"
  shows "region_inv c' \<and> rstack c' = (region_counter c + 1, name, loop_depth c) # rstack c \<and> loop_depth c' = loop_depth c \<and>
    region_counter c' = region_counter c + 1 \<and> region_parent c' = (region_parent c)(region_counter c + 1 := cur_region c) \<and>
    cur_region c' = region_counter c + 1"
proof -
  have c': "c' = c\<lparr>region_counter := region_counter c + 1, region_parent := (region_parent c)(region_counter c + 1 := cur_region c),
                 rstack := (region_counter c + 1, name, loop_depth c) # rstack c, cur_region := region_counter c + 1\<rparr>"
    and lim: "region_counter c + 1 < MAX_REGIONS"
    using assms(1) by (auto simp: enter_arena_def Let_def split: if_splits option.splits)
  have path: "region_path (region_parent c) (cur_region c) (map fst (rstack c))" using assms(2) by (simp add: region_inv_def)
  have cur: "cur_region c \<le> region_counter c"
    using path assms(2) by (cases "rstack c") (auto simp: region_inv_def)
  have "region_path ((region_parent c)(region_counter c + 1 := cur_region c)) (cur_region c) (map fst (rstack c))"
    using assms(2) by (intro region_path_agree[OF path]) (fastforce simp: region_inv_def)
  then show ?thesis
    using assms(2) lim cur unfolding c' region_inv_def by auto
qed

lemma leave_arena_frame:
  assumes "region_inv c" "enter_arena l name c = Inr c'" "region_frame c' c''"
  shows "region_frame c (c''\<lparr>cur_region := cur_region c, rstack := tl (rstack c'')\<rparr>)"
proof -
  note e = enter_arena_inv[OF assms(2,1)]
  have f: "loop_depth c'' = loop_depth c" "rstack c'' = (region_counter c + 1, name, loop_depth c) # rstack c"
    "region_counter c + 1 \<le> region_counter c''" "\<forall>i \<le> region_counter c. region_parent c'' i = region_parent c i" "region_inv c''"
    using assms(3) e unfolding region_frame_def by auto
  have "region_path (region_parent c'') (cur_region c) (map fst (rstack c))"
  proof (rule region_path_agree)
    show "region_path (region_parent c) (cur_region c) (map fst (rstack c))"
      using assms(1) unfolding region_inv_def by blast
    show "region_parent c'' i = region_parent c i" if "i \<in> set (map fst (rstack c))" for i
      using that assms(1) f(4) unfolding region_inv_def by (metis set_map)
  qed
  moreover have "\<forall>i\<in>fst ` set (rstack c). i \<le> region_counter c''" "\<forall>(i, n, d)\<in>set (rstack c). d \<le> loop_depth c"
    using assms(1) f(3) unfolding region_inv_def by fastforce+
  ultimately show ?thesis
    using f unfolding region_frame_def region_inv_def by simp
qed

lemma check_jump_frame: "check_jump l c = Inr c' \<Longrightarrow> c' = c"
  by (auto simp: check_jump_def split: if_splits list.splits)

lemma check_return_frame: "check_return l c = Inr c' \<Longrightarrow> c' = c"
  by (auto simp: check_return_def split: if_splits)

lemma check_regions_frame:
  "check_stmt_regions s c = Inr c' \<Longrightarrow> region_inv c \<Longrightarrow> region_frame c c'"
  "check_block_regions ss c = Inr c' \<Longrightarrow> region_inv c \<Longrightarrow> region_frame c c'"
  "check_arms_regions arms c = Inr c' \<Longrightarrow> region_inv c \<Longrightarrow> region_frame c c'"
proof (induction s c and ss c and arms c arbitrary: c' and c' and c'
    rule: check_stmt_regions_check_block_regions_check_arms_regions.induct)
  case (10 l name body c)
  then obtain c1 c2 where e: "enter_arena l name c = Inr c1" "check_block_regions body c1 = Inr c2"
    "c' = c2\<lparr>cur_region := cur_region c, rstack := tl (rstack c2)\<rparr>"
    by (auto simp: bind_res_Inr)
  with 10 show ?case
    using leave_arena_frame enter_arena_inv by blast
qed (auto simp: bind_res_Inr intro: region_frame_refl leave_loop_frame enter_loop_inv
    dest!: check_jump_frame check_return_frame, (metis region_frame_def region_frame_trans)+)

section \<open>Jumps stay inside arenas and loops\<close>

definition jump_ok :: "outcome \<Rightarrow> region_ctx \<Rightarrow> bool" where
  "jump_ok r c \<longleftrightarrow>
     (r = Ret \<longrightarrow> cur_region c = 0) \<and>
     (r = Brk \<or> r = Cont \<longrightarrow> loop_depth c \<noteq> 0 \<and> (\<forall>i n d ds. rstack c = (i, n, d) # ds \<longrightarrow> d < loop_depth c))"

lemma region_frame_inv: "region_frame c c' \<Longrightarrow> region_inv c'"
  by (simp add: region_frame_def)

lemma jump_ok_frame: "region_frame c c' \<Longrightarrow> jump_ok r c' = jump_ok r c"
  by (simp add: region_frame_def jump_ok_def)

lemma check_arms_member:
  "check_arms_regions arms c = Inr c' \<Longrightarrow> region_inv c \<Longrightarrow> arm \<in> set arms \<Longrightarrow>
     \<exists>c1 c2. region_frame c c1 \<and> check_block_regions (arm_body arm) c1 = Inr c2"
proof (induction arms arbitrary: c)
  case (Cons a arms)
  obtain l d vs body where a: "a = SwitchArm l d vs body" by (cases a)
  then obtain c1 where c1: "check_block_regions body c = Inr c1" "check_arms_regions arms c1 = Inr c'"
    using Cons.prems(1) by (auto simp: bind_res_Inr)
  have f: "region_frame c c1" using check_regions_frame(2)[OF c1(1) Cons.prems(2)] .
  show ?case
  proof (cases "arm = a")
    case True
    then show ?thesis using a c1(1) region_frame_refl[OF Cons.prems(2)] by auto
  next
    case False
    then show ?thesis
      using Cons.IH[OF c1(2)] f Cons.prems(3) region_frame_trans[OF f] unfolding region_frame_def[of c c1] by (metis set_ConsD)
  qed
qed simp

lemma loop_check:
  "loop_of s = Some (b, body) \<Longrightarrow> check_stmt_regions s c = bind_res (check_block_regions body (enter_loop c)) (\<lambda>c. Inr (leave_loop c))"
  by (auto dest: loop_of_cases)

lemma jumps_ok:
  "runs A s r \<Longrightarrow> \<forall>c c'. check_stmt_regions s c = Inr c' \<longrightarrow> region_inv c \<longrightarrow> jump_ok r c"
  "runs_block A ss r \<Longrightarrow> \<forall>c c'. check_block_regions ss c = Inr c' \<longrightarrow> region_inv c \<longrightarrow> jump_ok r c"
proof (induction rule: runs_runs_block.inducts)
  case (r_else els r l e body)
  show ?case
  proof (intro allI impI)
    fix c c' assume a: "check_stmt_regions (ST_IF l e body els) c = Inr c'" "region_inv c"
    then obtain c1 where c1: "check_block_regions body c = Inr c1" "check_block_regions els c1 = Inr c'"
      by (auto simp: bind_res_Inr)
    note f = check_regions_frame(2)[OF c1(1) a(2)]
    then show "jump_ok r c"
      using r_else.IH c1(2) region_frame_inv[OF f] jump_ok_frame[OF f] by blast
  qed
next
  case (r_arena body r l n)
  show ?case
  proof (intro allI impI)
    fix c c' assume a: "check_stmt_regions (ST_ARENA l n body) c = Inr c'" "region_inv c"
    then obtain c1 c2 where e: "enter_arena l n c = Inr c1" "check_block_regions body c1 = Inr c2"
      by (auto simp: bind_res_Inr)
    note i = enter_arena_inv[OF e(1) a(2)]
    then have "jump_ok r c1" using r_arena.IH e(2) by blast
    then show "jump_ok r c" using i by (auto simp: jump_ok_def)
  qed
next
  case (r_arm arm arms r l e)
  show ?case
  proof (intro allI impI)
    fix c c' assume a: "check_stmt_regions (ST_SWITCH l e arms) c = Inr c'" "region_inv c"
    then obtain c1 c2 where c1: "region_frame c c1" "check_block_regions (arm_body arm) c1 = Inr c2"
      using check_arms_member[of arms c c' arm] r_arm.hyps by auto
    then show "jump_ok r c"
      using r_arm.IH region_frame_inv[OF c1(1)] jump_ok_frame[OF c1(1)] by blast
  qed
next
  case (r_loop_return s b body)
  show ?case
  proof (intro allI impI)
    fix c c' assume a: "check_stmt_regions s c = Inr c'" "region_inv c"
    then have "jump_ok Ret (enter_loop c)"
      using r_loop_return enter_loop_inv[OF a(2)] by (auto simp: loop_check bind_res_Inr)
    then show "jump_ok Ret c" by (simp add: jump_ok_def enter_loop_def)
  qed
next
  case (rb_next s ss r)
  show ?case
  proof (intro allI impI)
    fix c c' assume a: "check_block_regions (s # ss) c = Inr c'" "region_inv c"
    then obtain c1 where c1: "check_stmt_regions s c = Inr c1" "check_block_regions ss c1 = Inr c'"
      by (auto simp: bind_res_Inr)
    note f = check_regions_frame(1)[OF c1(1) a(2)]
    have "jump_ok r c1"
      using rb_next(4) c1(2) region_frame_inv[OF f] by blast
    then show "jump_ok r c" by (simp only: jump_ok_frame[OF f])
  qed
next
  case (r_loop_again s b body r r')
  show ?case by (rule r_loop_again(6))
next
  case (r_then body r l e els)
  show ?case
  proof (intro allI impI)
    fix c c' assume a: "check_stmt_regions (ST_IF l e body els) c = Inr c'" "region_inv c"
    then obtain c1 where "check_block_regions body c = Inr c1" by (auto simp: bind_res_Inr)
    then show "jump_ok r c" using r_then.IH a(2) by blast
  qed
next
  case (rb_leave s r ss)
  show ?case
  proof (intro allI impI)
    fix c c' assume a: "check_block_regions (s # ss) c = Inr c'" "region_inv c"
    then obtain c1 where "check_stmt_regions s c = Inr c1" by (auto simp: bind_res_Inr)
    then show "jump_ok r c" using rb_leave.IH a(2) by blast
  qed
next
  case (r_return l e)
  then show ?case by (auto simp: jump_ok_def check_return_def split: if_splits)
next
  case (r_break l)
  then show ?case by (auto simp: jump_ok_def check_jump_def split: if_splits list.splits)
next
  case (r_continue l)
  then show ?case by (auto simp: jump_ok_def check_jump_def split: if_splits list.splits)
qed (simp_all add: jump_ok_def)

section \<open>Properties\<close>

text \<open>C25: A function the checker accepts returns a value. When the body of a function with a result
  passes the checks on jumps and \<open>require_returns\<close>, every run of the body that ends, ends in a return:
  it does not fall off the end, and no break or continue leaves it. A block for which
  \<open>block_exits\<close> holds never falls through to the statement after it.\<close>

theorem functions_return:
  "(require_returns A fd = Inr () \<and> (\<forall>t. fn_ret fd = Some t \<longrightarrow> ty_kind t \<noteq> TY_VOID) \<and>
      check_block_regions (fn_body fd) region_ctx0 = Inr c \<and> runs_block A (fn_body fd) r \<longrightarrow> r = Ret) \<and>
   (block_exits body \<and> runs_block A body r \<longrightarrow> r \<noteq> Fall)"
proof (intro conjI impI)
  assume "block_exits body \<and> runs_block A body r"
  then show "r \<noteq> Fall" using exiting_never_falls(2) by blast
next
  assume a: "require_returns A fd = Inr () \<and> (\<forall>t. fn_ret fd = Some t \<longrightarrow> ty_kind t \<noteq> TY_VOID) \<and>
      check_block_regions (fn_body fd) region_ctx0 = Inr c \<and> runs_block A (fn_body fd) r"
  then have "stmts_return A (fn_body fd)"
    by (auto simp: require_returns_def split: if_splits)
  then have "r \<noteq> Fall" using a returning_never_falls(2) by blast
  moreover have "jump_ok r region_ctx0" using a jumps_ok(2) region_inv0 by blast
  ultimately show "r = Ret" by (cases r) (auto simp: jump_ok_def region_ctx0_def)
qed

definition sample_fn :: fn_decl where
  "sample_fn = (let l = \<lparr>l_file = None, l_line = 1, l_col = 1\<rparr> in FnDecl
     \<lparr>fd_name = Some ''abs'', fd_loc = l, is_virtual = False, is_override = False, is_extern = False, is_builder = False,
      is_static = False, fd_owner = None, fd_sowner = None, vslot = -1, arrow_id = 0, fd_typarams = []\<rparr> []
     (Some (type_new TY_INT l))
     [ST_WHILE l (EX_BOOL l True) [ST_IF l (EX_IDENT l ''x'') [ST_RETURN l (Some (EX_INT l 1))] [ST_CONTINUE l]]])"

theorem functions_return_witness:
  "let A = \<lparr>is_panic = \<lambda>_. False, switch_total = \<lambda>_. False\<rparr>
   in require_returns A sample_fn = Inr () \<and> runs_block A (fn_body sample_fn) Ret \<and> \<not> runs_block A (fn_body sample_fn) Fall"
proof -
  let ?A = "\<lparr>is_panic = \<lambda>_. False, switch_total = \<lambda>_. False\<rparr>"
  have 1: "require_returns ?A sample_fn = Inr ()" "\<forall>t. fn_ret sample_fn = Some t \<longrightarrow> ty_kind t \<noteq> TY_VOID"
    "check_block_regions (fn_body sample_fn) region_ctx0 = Inr region_ctx0"
    by (simp_all add: require_returns_def sample_fn_def Let_def type_new_def bind_res_def check_jump_def check_return_def
        region_ctx0_def enter_loop_def leave_loop_def)
  moreover have "runs_block ?A (fn_body sample_fn) Ret"
    unfolding sample_fn_def Let_def fn_body.simps
    by (rule rb_leave[OF r_loop_return[OF loop_of.simps(1)]]) (auto intro: rb_leave r_then r_return)
  ultimately show ?thesis
    unfolding Let_def using functions_return[of ?A sample_fn region_ctx0 Fall] by auto
qed

text \<open>C26: Arena discipline. The bookkeeping of arena regions is invariant under checking a statement: depth, stack and
  current region are as before, the ids on the stack are the current region and its
  ancestors, and every region is younger than its parent. Hence \<open>region_outlives\<close> returns for any
  two regions, and for the current one it holds exactly of the heap and of the arenas
  around it. An arena block the checker accepts ends only by falling off its end, never by a
  return, break or continue, so the release of the region at its end is not skipped.\<close>

theorem arena_discipline:
  assumes "region_inv c"
  shows "(check_stmt_regions s c = Inr c' \<longrightarrow>
      region_inv c' \<and> loop_depth c' = loop_depth c \<and> cur_region c' = cur_region c \<and> rstack c' = rstack c) \<and>
    (\<exists>v. region_outlives c a b = Some v) \<and>
    region_outlives c a (cur_region c) = Some (a = 0 \<or> a \<in> fst ` set (rstack c)) \<and>
    (check_stmt_regions (ST_ARENA l n body) c = Inr c' \<and> runs A (ST_ARENA l n body) r \<longrightarrow> r = Fall)"
proof (intro conjI impI)
  assume "check_stmt_regions s c = Inr c'"
  then have "region_frame c c'" using check_regions_frame(1) assms by blast
  then show "region_inv c'" "loop_depth c' = loop_depth c" "cur_region c' = cur_region c" "rstack c' = rstack c"
    by (simp_all add: region_frame_def)
next
  have "\<forall>i. 0 < i \<longrightarrow> region_parent c i < i" using assms unfolding region_inv_def by blast
  then obtain js where "region_path (region_parent c) b js" using region_outlives_path by blast
  then show "\<exists>v. region_outlives c a b = Some v"
    unfolding region_outlives_def using region_outlives_from_path by fastforce
next
  have "region_path (region_parent c) (cur_region c) (map fst (rstack c))" using assms unfolding region_inv_def by blast
  then show "region_outlives c a (cur_region c) = Some (a = 0 \<or> a \<in> fst ` set (rstack c))"
    unfolding region_outlives_def using region_outlives_from_path by fastforce
next
  assume "check_stmt_regions (ST_ARENA l n body) c = Inr c' \<and> runs A (ST_ARENA l n body) r"
  then obtain c1 c2 where e: "enter_arena l n c = Inr c1" "check_block_regions body c1 = Inr c2" and "runs_block A body r"
    by (auto simp: bind_res_Inr elim: runs.cases)
  then have "jump_ok r c1" using jumps_ok(2) enter_arena_inv[OF e(1) assms] by blast
  then show "r = Fall"
    using enter_arena_inv[OF e(1) assms] by (cases r) (auto simp: jump_ok_def)
qed

theorem arena_discipline_witness:
  "let l = \<lparr>l_file = None, l_line = 1, l_col = 1\<rparr>; A = \<lparr>is_panic = \<lambda>_. False, switch_total = \<lambda>_. False\<rparr>
   in region_inv region_ctx0 \<and>
      (\<exists>c'. check_stmt_regions (ST_ARENA l None [ST_WHILE l (EX_BOOL l True) [ST_BREAK l]]) region_ctx0 = Inr c' \<and> region_inv c') \<and>
      region_outlives region_ctx0 3 0 = Some False \<and>
      \<not> runs A (ST_ARENA l None [ST_WHILE l (EX_BOOL l True) [ST_BREAK l]]) Brk"
proof -
  let ?l = "\<lparr>l_file = None, l_line = 1, l_col = 1\<rparr>" and ?A = "\<lparr>is_panic = \<lambda>_. False, switch_total = \<lambda>_. False\<rparr>"
  let ?s = "ST_ARENA ?l None [ST_WHILE ?l (EX_BOOL ?l True) [ST_BREAK ?l]]"
  have "\<exists>c'. check_stmt_regions ?s region_ctx0 = Inr c'"
    by (simp add: enter_arena_def region_ctx0_def MAX_REGIONS_def bind_res_def check_jump_def enter_loop_def leave_loop_def)
  then obtain c' where c': "check_stmt_regions ?s region_ctx0 = Inr c'" by blast
  note d = arena_discipline[OF region_inv0]
  have "region_inv c'" using d[of ?s c'] c' by blast
  moreover have "\<not> runs ?A ?s Brk" using d[of ?s c' 0 0 ?l None "[ST_WHILE ?l (EX_BOOL ?l True) [ST_BREAK ?l]]" ?A Brk] c' by blast
  moreover have "region_outlives region_ctx0 3 0 = Some False"
    using d[of ?s c' 3] by (simp add: region_ctx0_def)
  ultimately show ?thesis unfolding Let_def using c' region_inv0 by blast
qed

end
