(* ===== verification/Vt_Narrow.thy ===== *)
theory Vt_Narrow
  imports Vt_Types
begin

text \<open>
  Null narrowing (\<open>src/check.c\<close>, \<open>path_key\<close> to \<open>nn_collect\<close> and \<open>require_nonnull\<close>): the paths known not to be null
  on the current control path. They are kept in a fixed array with a count; entering a branch
  notes the count (\<open>nn_mark\<close>), leaving it sets the count back (\<open>nn_reset\<close>), an assignment removes
  entries in place (\<open>nn_clear\<close>). Paths are interned, so comparing pointers is comparing texts.
\<close>

section \<open>The operations\<close>

fun path_key :: "expr \<Rightarrow> string option" where
  "path_key (EX_IDENT l n) = Some n"
| "path_key (EX_THIS l) = Some ''this''"
| "path_key (EX_MEMBER l e n) = (case path_key e of Some b \<Rightarrow> Some (b @ ''.'' @ n) | None \<Rightarrow> None)"
| "path_key _ = None"

definition MAX_NARROW :: nat where
  "MAX_NARROW = 64"

text \<open>\<open>nn\<close> has \<open>MAX_NARROW\<close> elements.\<close>

record nn_ctx =
  nn :: "string list"
  nn_n :: nat

definition nn_mark :: "nn_ctx \<Rightarrow> nat" where
  "nn_mark c = nn_n c"

definition nn_reset :: "nat \<Rightarrow> nn_ctx \<Rightarrow> nn_ctx" where
  "nn_reset mark c = c\<lparr>nn_n := mark\<rparr>"

fun nn_has_from :: "string list \<Rightarrow> string \<Rightarrow> nat \<Rightarrow> nat \<Rightarrow> bool" where
  "nn_has_from ks key 0 i = False"
| "nn_has_from ks key (Suc n) i = (if ks ! i = key then True else nn_has_from ks key n (i + 1))"

definition nn_has :: "nn_ctx \<Rightarrow> string option \<Rightarrow> bool" where
  "nn_has c key = (case key of None \<Rightarrow> False | Some k \<Rightarrow> nn_has_from (nn c) k (nn_n c) 0)"

definition nn_add :: "string option \<Rightarrow> nn_ctx \<Rightarrow> nn_ctx" where
  "nn_add key c =
     (case key of
        None \<Rightarrow> c
      | Some k \<Rightarrow>
          if nn_has c key then c
          else if nn_n c < MAX_NARROW then c\<lparr>nn := (nn c)[nn_n c := k], nn_n := nn_n c + 1\<rparr>
          else c)"

definition killed :: "string \<Rightarrow> string \<Rightarrow> bool" where
  "killed key k \<longleftrightarrow> k = key \<or> (length k > length key \<and> take (length key) k = key \<and> k ! length key = CHR ''.'')"

text \<open>The loop of \<open>nn_clear\<close>: entries to read, read index, write index, array.\<close>

fun nn_clear_loop :: "string \<Rightarrow> nat \<Rightarrow> nat \<Rightarrow> nat \<Rightarrow> string list \<Rightarrow> string list \<times> nat" where
  "nn_clear_loop key 0 i w ks = (ks, w)"
| "nn_clear_loop key (Suc n) i w ks =
     (if killed key (ks ! i) then nn_clear_loop key n (i + 1) w ks
      else nn_clear_loop key n (i + 1) (w + 1) (ks[w := ks ! i]))"

definition nn_clear :: "string option \<Rightarrow> nn_ctx \<Rightarrow> nn_ctx" where
  "nn_clear key c =
     (case key of
        None \<Rightarrow> c
      | Some k \<Rightarrow> let (ks, w) = nn_clear_loop k (nn_n c) 0 0 (nn c) in c\<lparr>nn := ks, nn_n := w\<rparr>)"

fun is_null :: "expr \<Rightarrow> bool" where
  "is_null (EX_NULL l) = True"
| "is_null _ = False"

fun nn_collect :: "expr \<Rightarrow> bool \<Rightarrow> nn_ctx \<Rightarrow> nn_ctx" where
  "nn_collect (EX_UN l op e) want c = (if op = T_NOT then nn_collect e (\<not> want) c else c)"
| "nn_collect (EX_BIN l op a b) want c =
     (if op = T_ANDAND then (if want then nn_collect b True (nn_collect a True c) else c)
      else if op = T_OROR then (if \<not> want then nn_collect b False (nn_collect a False c) else c)
      else if op = T_NEQ \<or> op = T_EQ
      then (if (op = T_NEQ) = want
            then (if is_null b then nn_add (path_key a) c else if is_null a then nn_add (path_key b) c else c)
            else c)
      else c)"
| "nn_collect _ want c = c"

definition require_nonnull :: "decl_names \<Rightarrow> nn_ctx \<Rightarrow> expr \<Rightarrow> ty option \<Rightarrow> string \<Rightarrow> unit cres" where
  "require_nonnull ns c e t what =
     (case t of
        None \<Rightarrow> Inr ()
      | Some t \<Rightarrow>
          if \<not> ty_nullable t then Inr ()
          else if nn_has c (path_key e) then Inr ()
          else
            let l = expr_loc e
            in if ty_from_weak t
               then (case path_key e of
                       Some p \<Rightarrow> Inl (FatalAt l (quoted p @ '' is a weak reference and may be null here '' @ em_dash @ '' check it before '' @ what @
                         '', e.g. `if ('' @ p @ '' != null) { ... }`, or bind it first: `let x = '' @ p @ ''; if (x == null) { return; }`''))
                     | None \<Rightarrow> Inl (FatalAt l (''this weak reference may be null here '' @ em_dash @ '' check it before '' @ what)))
               else (case path_key e of
                       Some p \<Rightarrow> Inl (FatalAt l (quoted p @ '' is declared '' @ quoted (type_str ns t) @
                         '' and may be null here '' @ em_dash @ '' check it before '' @ what @ '', e.g. `if ('' @ p @
                         '' != null) { ... }`, or bind it first: `let x = '' @ p @ ''; if (x == null) { return; }`''))
                     | None \<Rightarrow> Inl (FatalAt l (''this value is declared '' @ quoted (type_str ns t) @
                         '' and may be null here '' @ em_dash @ '' check it before '' @ what))))"

section \<open>The set of known paths\<close>

definition nn_ok :: "nn_ctx \<Rightarrow> bool" where
  "nn_ok c \<longleftrightarrow> length (nn c) = MAX_NARROW \<and> nn_n c \<le> MAX_NARROW"

definition known :: "nn_ctx \<Rightarrow> string set" where
  "known c = set (take (nn_n c) (nn c))"

lemma nn_has_from_iff: "nn_has_from ks key n i \<longleftrightarrow> (\<exists>j<n. ks ! (i + j) = key)"
proof (induction n arbitrary: i)
  case (Suc n)
  have "(\<exists>j<Suc n. ks ! (i + j) = key) \<longleftrightarrow> ks ! i = key \<or> (\<exists>j<n. ks ! (i + 1 + j) = key)"
    by (auto simp: less_Suc_eq_0_disj)
  then show ?case using Suc by simp
qed simp

lemma nn_has_known: "nn_ok c \<Longrightarrow> nn_has c (Some k) \<longleftrightarrow> k \<in> known c"
  by (auto simp: nn_has_def nn_has_from_iff known_def nn_ok_def in_set_conv_nth)

lemma nn_add_ok: "nn_ok c \<Longrightarrow> nn_ok (nn_add key c)"
  by (auto simp: nn_add_def nn_ok_def split: option.split)

lemma nn_add_known:
  assumes "nn_ok c"
  shows "known (nn_add (Some k) c) = (if nn_n c < MAX_NARROW \<or> k \<in> known c then insert k (known c) else known c)"
proof (cases "nn_has c (Some k)")
  case True
  then show ?thesis using nn_has_known[OF assms] by (auto simp: nn_add_def)
next
  case False
  show ?thesis
  proof (cases "nn_n c < MAX_NARROW")
    case True
    with False assms show ?thesis
      by (auto simp: nn_add_def known_def nn_ok_def take_Suc_conv_app_nth)
  qed (use False nn_has_known[OF assms] in \<open>simp add: nn_add_def\<close>)
qed

text \<open>Collecting only appends.\<close>

definition extends :: "nn_ctx \<Rightarrow> nn_ctx \<Rightarrow> bool" where
  "extends c c' \<longleftrightarrow> nn_ok c' \<and> nn_n c \<le> nn_n c' \<and> take (nn_n c) (nn c') = take (nn_n c) (nn c)"

lemma extends_refl: "nn_ok c \<Longrightarrow> extends c c"
  by (simp add: extends_def)

lemma extends_trans: "extends a b \<Longrightarrow> extends b c \<Longrightarrow> extends a c"
  unfolding extends_def by (metis min.absorb1 order_trans take_take)

lemma extends_ok: "extends c c' \<Longrightarrow> nn_ok c'"
  by (simp add: extends_def)

lemma nn_add_extends: "nn_ok c \<Longrightarrow> extends c (nn_add key c)"
  using nn_add_ok[of c key] by (auto simp: extends_def nn_add_def split: option.split)

lemma nn_collect_extends: "nn_ok c \<Longrightarrow> extends c (nn_collect e want c)"
proof (induction e want c rule: nn_collect.induct)
  case (2 l op a b want c)
  consider (conj) "op = T_ANDAND" want | (disj) "op = T_OROR" "\<not> want" | (atom) "\<not> (op = T_ANDAND \<and> want)" "\<not> (op = T_OROR \<and> \<not> want)"
    by blast
  then show ?case
  proof cases
    case conj
    then have "extends c (nn_collect a True c)" using "2.IH"(1) "2.prems" by simp
    moreover from this have "extends (nn_collect a True c) (nn_collect b True (nn_collect a True c))"
      using "2.IH"(2) conj extends_ok by simp
    ultimately show ?thesis using conj extends_trans by simp
  next
    case disj
    then have "extends c (nn_collect a False c)" using "2.IH"(3) "2.prems" by simp
    moreover from this have "extends (nn_collect a False c) (nn_collect b False (nn_collect a False c))"
      using "2.IH"(4) disj extends_ok by simp
    ultimately show ?thesis using disj extends_trans by simp
  next
    case atom
    then show ?thesis using extends_refl[OF "2.prems"] nn_add_extends[OF "2.prems"] by simp
  qed
qed (simp_all add: extends_refl)

lemma reset_restores: "extends c c' \<Longrightarrow> known (nn_reset (nn_mark c) c') = known c"
  by (simp add: extends_def known_def nn_reset_def nn_mark_def)

section \<open>Forgetting on assignment\<close>

lemma nn_clear_loop_spec:
  "nn_clear_loop key n i w ks = (ks', w') \<Longrightarrow> w \<le> i \<Longrightarrow> i + n \<le> length ks \<Longrightarrow>
     length ks' = length ks \<and> w' \<le> w + n \<and>
     take w' ks' = take w ks @ filter (\<lambda>k. \<not> killed key k) (take n (drop i ks))"
proof (induction key n i w ks arbitrary: ks' w' rule: nn_clear_loop.induct)
  case (2 key n i w ks)
  then have i: "i < length ks" and split: "take (Suc n) (drop i ks) = ks ! i # take n (drop (i + 1) ks)"
    by (simp_all add: Cons_nth_drop_Suc[symmetric] del: Cons_nth_drop_Suc)
  show ?case
  proof (cases "killed key (ks ! i)")
    case True
    then show ?thesis using 2(1)[OF True] 2(3-5) split by fastforce
  next
    case False
    have "take n (drop (i + 1) (ks[w := ks ! i])) = take n (drop (i + 1) ks)"
      using 2(4) by (simp add: drop_update_cancel)
    moreover have "take (w + 1) (ks[w := ks ! i]) = take w ks @ [ks ! i]"
      using 2(4) i by (simp add: take_Suc_conv_app_nth)
    ultimately show ?thesis using 2(2)[OF False] 2(3-5) False split by fastforce
  qed
qed simp

lemma nn_clear_known:
  assumes "nn_ok c"
  shows "nn_ok (nn_clear (Some k) c)" "known (nn_clear (Some k) c) = {p \<in> known c. \<not> killed k p}"
proof -
  obtain ks w where r: "nn_clear_loop k (nn_n c) 0 0 (nn c) = (ks, w)" by fastforce
  then have "length ks = length (nn c) \<and> w \<le> nn_n c \<and> take w ks = filter (\<lambda>p. \<not> killed k p) (take (nn_n c) (nn c))"
    using nn_clear_loop_spec[OF r] assms by (simp add: nn_ok_def)
  then show "nn_ok (nn_clear (Some k) c)" "known (nn_clear (Some k) c) = {p \<in> known c. \<not> killed k p}"
    using assms by (auto simp: nn_clear_def r nn_ok_def known_def)
qed

lemma killed_iff: "killed key k \<longleftrightarrow> k = key \<or> (\<exists>rest. k = key @ ''.'' @ rest)"
proof -
  have "\<exists>rest. k = key @ ''.'' @ rest" if "length k > length key" "take (length key) k = key" "k ! length key = CHR ''.''"
    using that by (metis append_Cons append_Nil append_take_drop_id Cons_nth_drop_Suc)
  then show ?thesis by (auto simp: killed_def)
qed

section \<open>Soundness of the tests\<close>

text \<open>The value of a condition when \<open>nul p\<close> says whether the path \<open>p\<close> is null, and \<open>rest\<close> gives the value of
  everything that is not built from null tests.\<close>

fun cond_val :: "(string \<Rightarrow> bool) \<Rightarrow> (expr \<Rightarrow> bool) \<Rightarrow> expr \<Rightarrow> bool" where
  "cond_val nul rest (EX_UN l op e) = (if op = T_NOT then \<not> cond_val nul rest e else rest (EX_UN l op e))"
| "cond_val nul rest (EX_BIN l op a b) =
     (if op = T_ANDAND then cond_val nul rest a \<and> cond_val nul rest b
      else if op = T_OROR then cond_val nul rest a \<or> cond_val nul rest b
      else if op = T_EQ \<or> op = T_NEQ
      then (if is_null b \<and> path_key a \<noteq> None then nul (the (path_key a)) = (op = T_EQ)
            else if is_null a \<and> path_key b \<noteq> None then nul (the (path_key b)) = (op = T_EQ)
            else rest (EX_BIN l op a b))
      else rest (EX_BIN l op a b))"
| "cond_val nul rest e = rest e"

lemma nn_add_sound:
  "nn_ok c \<Longrightarrow> (\<And>p. p \<in> known c \<Longrightarrow> \<not> nul p) \<Longrightarrow> (\<And>k. key = Some k \<Longrightarrow> \<not> nul k) \<Longrightarrow> p \<in> known (nn_add key c) \<Longrightarrow> \<not> nul p"
  using nn_add_known[of c] by (cases key) (auto simp: nn_add_def split: if_splits)

lemma nn_collect_sound:
  "nn_ok c \<Longrightarrow> cond_val nul rest e = want \<Longrightarrow> (\<And>p. p \<in> known c \<Longrightarrow> \<not> nul p) \<Longrightarrow> p \<in> known (nn_collect e want c) \<Longrightarrow> \<not> nul p"
proof (induction e want c arbitrary: p rule: nn_collect.induct)
  case (2 l op a b want c)
  consider (conj) "op = T_ANDAND" want | (disj) "op = T_OROR" "\<not> want" | (atom) "\<not> (op = T_ANDAND \<and> want)" "\<not> (op = T_OROR \<and> \<not> want)"
    by blast
  then show ?case
  proof cases
    case conj
    have ok: "nn_ok (nn_collect a True c)" using nn_collect_extends[OF 2(5)] extends_ok by blast
    have "\<not> nul q" if "q \<in> known (nn_collect a True c)" for q
      using "2.IH"(1)[OF conj] "2.prems"(1-3) that conj by simp
    then show ?thesis using "2.IH"(2)[OF conj ok] "2.prems"(2,4) conj by simp
  next
    case disj
    have ok: "nn_ok (nn_collect a False c)" using nn_collect_extends[OF 2(5)] extends_ok by blast
    have "\<not> nul q" if "q \<in> known (nn_collect a False c)" for q
      using "2.IH"(3) "2.prems"(1-3) that disj by simp
    then show ?thesis using "2.IH"(4) ok "2.prems"(2,4) disj by simp
  next
    case atom
    then show ?thesis
      using "2.prems" nn_add_sound[OF 2(5), of nul "path_key a" p] nn_add_sound[OF 2(5), of nul "path_key b" p]
      by (cases "path_key a"; cases "path_key b") (auto simp: nn_add_def split: if_splits)
  qed
qed (auto split: if_splits)

section \<open>Properties\<close>

definition nn_ctx0 :: nn_ctx where
  "nn_ctx0 = \<lparr>nn = replicate MAX_NARROW [], nn_n = 0\<rparr>"

lemma nn_ctx0_ok: "nn_ok nn_ctx0"
  by (simp add: nn_ok_def nn_ctx0_def MAX_NARROW_def)

lemma reset_after_clear:
  "nn_has (nn_reset (nn_mark (nn_add (Some ''p'') nn_ctx0)) (nn_clear (Some ''p'') (nn_add (Some ''p'') nn_ctx0))) (Some ''p'')"
proof -
  have n: "nn nn_ctx0 = replicate MAX_NARROW []" "nn_n nn_ctx0 = 0" "0 < MAX_NARROW" "length (nn nn_ctx0) = MAX_NARROW"
    by (simp_all add: nn_ctx0_def MAX_NARROW_def)
  then have a: "nn_add (Some ''p'') nn_ctx0 = nn_ctx0\<lparr>nn := (nn nn_ctx0)[0 := ''p''], nn_n := 1\<rparr>"
    by (simp add: nn_add_def nn_has_def)
  show ?thesis
    unfolding a using n by (simp add: nn_clear_def nn_reset_def nn_mark_def nn_has_def killed_def)
qed



end
