(* ===== verification/Vt_Fold.thy ===== *)
theory Vt_Fold
  imports Vt_Types Vt_Num
begin

text \<open>
  Module symbols, constant folding and enum values (\<open>src/check.c\<close>: \<open>mod_lookup_own\<close>, \<open>mod_lookup\<close>,
  \<open>fold_const_expr\<close>, \<open>fold_const_decl\<close>, \<open>resolve_enum\<close>). A declaration is the module it is in and its position there.
  \<open>fold_const_decl\<close> rewrites an initialiser to a literal; here the folded value is kept with the
  folding state of the constant. Double arithmetic is a parameter. A lookup through imports
  and the folding of constants follow references, so both may in principle run for ever: that neither
  does is proved below.
\<close>

unbundle bit_operations_syntax

section \<open>Module symbols\<close>

fun decl_name :: "decl \<Rightarrow> string option" where
  "decl_name (D_FN l f) = fd_name (fn_head f)"
| "decl_name (D_STRUCT l s) = Some (sd_name s)"
| "decl_name (D_CLASS l c) = Some (cd_name c)"
| "decl_name (D_ENUM l e) = Some (ed_name e)"
| "decl_name (D_CONST c) = Some (c_name c)"
| "decl_name (D_EXTERN_FN l f) = fd_name (fn_head f)"
| "decl_name _ = None"

fun import_names :: "decl \<Rightarrow> string list" where
  "import_names (D_IMPORT l ns path) = ns"
| "import_names _ = []"

text \<open>The modules, and the module each import was resolved to.\<close>

record program =
  p_mods :: "nat \<rightharpoonup> module"
  p_import :: "nat \<times> nat \<Rightarrow> nat"

fun first_index :: "('a \<Rightarrow> bool) \<Rightarrow> 'a list \<Rightarrow> nat \<Rightarrow> nat option" where
  "first_index p [] i = None"
| "first_index p (x # xs) i = (if p x then Some i else first_index p xs (i + 1))"

definition mod_decls :: "program \<Rightarrow> nat \<Rightarrow> decl list" where
  "mod_decls P m = (case p_mods P m of Some md \<Rightarrow> m_decls md | None \<Rightarrow> [])"

definition mod_lookup_own :: "program \<Rightarrow> nat \<Rightarrow> string \<Rightarrow> nat option" where
  "mod_lookup_own P m name = first_index (\<lambda>d. decl_name d = Some name) (mod_decls P m) 0"

text \<open>The modules marked \<open>resolving\<close> are those of the calls under way.\<close>

partial_function (option) mod_lookup :: "program \<Rightarrow> nat set \<Rightarrow> nat \<Rightarrow> string \<Rightarrow> (nat \<times> nat) option option" where
  "mod_lookup P resolving m name =
     (case mod_lookup_own P m name of
        Some i \<Rightarrow> Some (Some (m, i))
      | None \<Rightarrow>
          if m \<in> resolving then Some None
          else (case first_index (\<lambda>d. name \<in> set (import_names d)) (mod_decls P m) 0 of
                  Some i \<Rightarrow> mod_lookup P (insert m resolving) (p_import P (m, i)) name
                | None \<Rightarrow> Some None))"

section \<open>Constant folding\<close>

text \<open>Doubles: the value of a literal, the conversion of an integer, the operators, and the test against 0.\<close>

record 'f doubles =
  f_lit :: "string \<Rightarrow> 'f"
  f_of_int :: "i64 \<Rightarrow> 'f"
  f_neg :: "'f \<Rightarrow> 'f"
  f_add :: "'f \<Rightarrow> 'f \<Rightarrow> 'f"
  f_sub :: "'f \<Rightarrow> 'f \<Rightarrow> 'f"
  f_mul :: "'f \<Rightarrow> 'f \<Rightarrow> 'f"
  f_div :: "'f \<Rightarrow> 'f \<Rightarrow> 'f"
  f_is_zero :: "'f \<Rightarrow> bool"

datatype 'f cval = CInt i64 | CFloat 'f | CBool bool

datatype 'f fold_state = Unfolded | Folding | Folded "'f cval"

type_synonym 'f folds = "nat \<times> nat \<Rightarrow> 'f fold_state"

definition fold_un :: "'f doubles \<Rightarrow> loc \<Rightarrow> tok_kind \<Rightarrow> 'f cval \<Rightarrow> 'f cval cres" where
  "fold_un F l op v =
     (if op = T_MINUS then
        (case v of CFloat f \<Rightarrow> Inr (CFloat (f_neg F f)) | CInt i \<Rightarrow> Inr (CInt (- i))
         | CBool _ \<Rightarrow> Inl (FatalAt l ''cannot negate a boolean constant''))
      else if op = T_TILDE then
        (case v of CInt i \<Rightarrow> Inr (CInt (NOT i)) | _ \<Rightarrow> Inl (FatalAt l (quoted ''~'' @ '' requires an integer constant'')))
      else if op = T_NOT then
        (case v of CBool b \<Rightarrow> Inr (CBool (\<not> b)) | _ \<Rightarrow> Inl (FatalAt l (quoted ''!'' @ '' requires a boolean constant'')))
      else Inl (FatalAt l ''unsupported operator in constant expression''))"

definition fold_bits :: "loc \<Rightarrow> tok_kind \<Rightarrow> i64 \<Rightarrow> i64 \<Rightarrow> i64 cres" where
  "fold_bits l op x y =
     (if op = T_AMP then Inr (x AND y)
      else if op = T_PIPE then Inr (x OR y)
      else if op = T_CARET then Inr (x XOR y)
      else if op = T_PERCENT then
        (if y = 0 then Inl (FatalAt l ''modulo by zero in constant expression'')
         else if x = INT64_MIN \<and> y = - 1 then Inl (FatalAt l ''integer overflow in constant expression'')
         else case c_mod x y of Some r \<Rightarrow> Inr r | None \<Rightarrow> Inl Undefined)
      else
        (if sint y < 0 \<or> sint y \<ge> 64 then Inl (FatalAt l ''shift amount out of range in constant'')
         else Inr (if op = T_SHL then push_bit (unat y) x else signed_drop_bit (unat y) x)))"

definition fold_float :: "'f doubles \<Rightarrow> loc \<Rightarrow> tok_kind \<Rightarrow> 'f \<Rightarrow> 'f \<Rightarrow> 'f cres" where
  "fold_float F l op x y =
     (if op = T_PLUS then Inr (f_add F x y)
      else if op = T_MINUS then Inr (f_sub F x y)
      else if op = T_STAR then Inr (f_mul F x y)
      else if op = T_SLASH then
        (if f_is_zero F y then Inl (FatalAt l ''division by zero in constant expression'') else Inr (f_div F x y))
      else Inl (FatalAt l ''unsupported operator in constant expression''))"

definition fold_int :: "loc \<Rightarrow> tok_kind \<Rightarrow> i64 \<Rightarrow> i64 \<Rightarrow> i64 cres" where
  "fold_int l op x y =
     (if op = T_PLUS then Inr (x + y)
      else if op = T_MINUS then Inr (x - y)
      else if op = T_STAR then Inr (x * y)
      else if op = T_SLASH then
        (if y = 0 then Inl (FatalAt l ''division by zero in constant expression'')
         else if x = INT64_MIN \<and> y = - 1 then Inl (FatalAt l ''integer overflow in constant expression'')
         else case c_div x y of Some r \<Rightarrow> Inr r | None \<Rightarrow> Inl Undefined)
      else Inl (FatalAt l ''unsupported operator in constant expression''))"

definition as_float :: "'f doubles \<Rightarrow> 'f cval \<Rightarrow> 'f" where
  "as_float F v = (case v of CFloat f \<Rightarrow> f | CInt i \<Rightarrow> f_of_int F i | CBool _ \<Rightarrow> f_of_int F 0)"

definition fold_bin :: "'f doubles \<Rightarrow> loc \<Rightarrow> tok_kind \<Rightarrow> 'f cval \<Rightarrow> 'f cval \<Rightarrow> 'f cval cres" where
  "fold_bin F l op a b =
     (if op \<in> {T_AMP, T_PIPE, T_CARET, T_SHL, T_SHR, T_PERCENT} then
        (case (a, b) of
           (CInt x, CInt y) \<Rightarrow> bind_res (fold_bits l op x y) (\<lambda>r. Inr (CInt r))
         | _ \<Rightarrow> Inl (FatalAt l ''this operator requires integer constants''))
      else (case (a, b) of
          (CBool _, _) \<Rightarrow> Inl (FatalAt l ''arithmetic on a boolean constant'')
        | (_, CBool _) \<Rightarrow> Inl (FatalAt l ''arithmetic on a boolean constant'')
        | (CInt x, CInt y) \<Rightarrow> bind_res (fold_int l op x y) (\<lambda>r. Inr (CInt r))
        | _ \<Rightarrow> bind_res (fold_float F l op (as_float F a) (as_float F b)) (\<lambda>r. Inr (CFloat r))))"

definition const_at :: "program \<Rightarrow> (nat \<times> nat) option \<Rightarrow> ((nat \<times> nat) \<times> const_decl) option" where
  "const_at P d =
     (case d of
        Some (m, i) \<Rightarrow>
          (case (if i < length (mod_decls P m) then Some (mod_decls P m ! i) else None) of
             Some (D_CONST c) \<Rightarrow> Some ((m, i), c)
           | _ \<Rightarrow> None)
      | None \<Rightarrow> None)"

text \<open>\<open>what\<close> is \<open>g_fold_what\<close>. The case of an identifier contains \<open>fold_const_decl\<close>.\<close>

partial_function (option) fold_const_expr ::
  "program \<Rightarrow> 'f doubles \<Rightarrow> string \<Rightarrow> nat \<Rightarrow> expr \<Rightarrow> 'f folds \<Rightarrow> ('f cval \<times> 'f folds) walk" where
  "fold_const_expr P F what m e st =
     (case e of
        EX_INT l v \<Rightarrow> Some (Inr (CInt v, st))
      | EX_FLOAT l s \<Rightarrow> Some (Inr (CFloat (f_lit F s), st))
      | EX_BOOL l b \<Rightarrow> Some (Inr (CBool b, st))
      | EX_IDENT l name \<Rightarrow>
          Option.bind (mod_lookup P {} m name) (\<lambda>d.
            case const_at P d of
              None \<Rightarrow> Some (Inl (FatalAt l (what @ '' may only reference constants'')))
            | Some (k, c) \<Rightarrow>
                (case st k of
                   Folded v \<Rightarrow> Some (Inr (v, st))
                 | Folding \<Rightarrow> Some (Inl (FatalAt (expr_loc (c_init c)) (''constant '' @ quoted (c_name c) @ '' has a cyclic definition'')))
                 | Unfolded \<Rightarrow>
                     bind_walk (fold_const_expr P F what (fst k) (c_init c) (st(k := Folding))) (\<lambda>(v, st).
                       Some (Inr (v, st(k := Folded v))))))
      | EX_UN l op a \<Rightarrow>
          bind_walk (fold_const_expr P F what m a st) (\<lambda>(v, st).
          bind_walk (Some (fold_un F l op v)) (\<lambda>r. Some (Inr (r, st))))
      | EX_BIN l op a b \<Rightarrow>
          bind_walk (fold_const_expr P F what m a st) (\<lambda>(v, st).
          bind_walk (fold_const_expr P F what m b st) (\<lambda>(w, st).
          bind_walk (Some (fold_bin F l op v w)) (\<lambda>r. Some (Inr (r, st)))))
      | _ \<Rightarrow> Some (Inl (FatalAt (expr_loc e) (what @ '' must be a constant expression''))))"

definition fold_const_decl ::
  "program \<Rightarrow> 'f doubles \<Rightarrow> string \<Rightarrow> nat \<times> nat \<Rightarrow> const_decl \<Rightarrow> 'f folds \<Rightarrow> ('f cval \<times> 'f folds) walk" where
  "fold_const_decl P F what k c st =
     (case st k of
        Folded v \<Rightarrow> Some (Inr (v, st))
      | Folding \<Rightarrow> Some (Inl (FatalAt (expr_loc (c_init c)) (''constant '' @ quoted (c_name c) @ '' has a cyclic definition'')))
      | Unfolded \<Rightarrow>
          bind_walk (fold_const_expr P F what (fst k) (c_init c) (st(k := Folding))) (\<lambda>(v, st).
            Some (Inr (v, st(k := Folded v)))))"

section \<open>Lookups return\<close>

lemma mod_lookup_returns:
  assumes fin: "finite (dom (p_mods P))"
  shows "\<exists>r. mod_lookup P R m name = Some r"
proof (induction "card (dom (p_mods P) - R)" arbitrary: R m rule: less_induct)
  case less
  let ?ix = "first_index (\<lambda>d. name \<in> set (import_names d)) (mod_decls P m) 0"
  have rec: "\<exists>r. mod_lookup P (insert m R) x name = Some r" if "m \<notin> R" "?ix = Some i" for x i
  proof -
    have "m \<in> dom (p_mods P)" using that(2) by (auto simp: mod_decls_def split: option.splits)
    then have "dom (p_mods P) - insert m R \<subset> dom (p_mods P) - R" using that(1) by blast
    then have "card (dom (p_mods P) - insert m R) < card (dom (p_mods P) - R)" using fin by (intro psubset_card_mono) auto
    then show ?thesis by (rule less)
  qed
  show ?case
  proof (cases "mod_lookup_own P m name")
    case None
    then show ?thesis
      using rec by (cases ?ix; cases "m \<in> R") (simp_all add: mod_lookup.simps[of P R])
  qed (simp add: mod_lookup.simps[of P R])
qed

section \<open>What constants mean\<close>

inductive const_val :: "program \<Rightarrow> 'f doubles \<Rightarrow> nat \<Rightarrow> expr \<Rightarrow> 'f cval \<Rightarrow> bool" for P F where
  cv_int: "const_val P F m (EX_INT l i) (CInt i)"
| cv_float: "const_val P F m (EX_FLOAT l s) (CFloat (f_lit F s))"
| cv_bool: "const_val P F m (EX_BOOL l b) (CBool b)"
| cv_ident: "mod_lookup P {} m name = Some d \<Longrightarrow> const_at P d = Some (k, c) \<Longrightarrow> const_val P F (fst k) (c_init c) v \<Longrightarrow>
    const_val P F m (EX_IDENT l name) v"
| cv_un: "const_val P F m a v \<Longrightarrow> fold_un F l op v = Inr r \<Longrightarrow> const_val P F m (EX_UN l op a) r"
| cv_bin: "const_val P F m a v \<Longrightarrow> const_val P F m b w \<Longrightarrow> fold_bin F l op v w = Inr r \<Longrightarrow> const_val P F m (EX_BIN l op a b) r"

inductive_cases const_val_intE: "const_val P F m (EX_INT l i) v"
inductive_cases const_val_floatE: "const_val P F m (EX_FLOAT l s) v"
inductive_cases const_val_boolE: "const_val P F m (EX_BOOL l b) v"
inductive_cases const_val_identE: "const_val P F m (EX_IDENT l name) v"
inductive_cases const_val_unE: "const_val P F m (EX_UN l op a) v"
inductive_cases const_val_binE: "const_val P F m (EX_BIN l op a b) v"

lemma const_val_det: "const_val P F m e v \<Longrightarrow> const_val P F m e w \<Longrightarrow> v = w"
proof (induction arbitrary: w rule: const_val.induct)
  case (cv_ident m name d k c v l)
  show ?case
  proof (rule const_val_identE[OF cv_ident.prems])
    fix d' k' c' assume "mod_lookup P {} m name = Some d'" "const_at P d' = Some (k', c')" "const_val P F (fst k') (c_init c') w"
    then show "v = w" using cv_ident.hyps(1,2) cv_ident.IH by simp
  qed
next
  case (cv_un m a v l op r)
  show ?case
    by (rule const_val_unE[OF cv_un.prems]) (use cv_un.hyps cv_un.IH in force)
next
  case (cv_bin m a v b u l op r)
  show ?case
    by (rule const_val_binE[OF cv_bin.prems]) (use cv_bin.hyps cv_bin.IH in force)
qed (auto elim: const_val_intE const_val_floatE const_val_boolE)

definition folds_ok :: "program \<Rightarrow> 'f doubles \<Rightarrow> 'f folds \<Rightarrow> bool" where
  "folds_ok P F st \<longleftrightarrow>
     (\<forall>k v. st k = Folded v \<longrightarrow> (\<exists>c. const_at P (Some k) = Some (k, c) \<and> const_val P F (fst k) (c_init c) v))"

definition progress :: "'f folds \<Rightarrow> 'f folds \<Rightarrow> bool" where
  "progress st st' \<longleftrightarrow> (\<forall>k. (st' k = Unfolded \<longrightarrow> st k = Unfolded) \<and> (st' k = Folding \<longleftrightarrow> st k = Folding))"

lemma progress_trans: "progress a b \<Longrightarrow> progress b c \<Longrightarrow> progress a c"
  by (simp add: progress_def)

lemma progress_refl: "progress a a"
  by (simp add: progress_def)

lemma const_at_key: "const_at P d = Some (k, c) \<Longrightarrow> d = Some k \<and> const_at P (Some k) = Some (k, c)"
  by (auto simp: const_at_def split: option.splits if_splits decl.splits)

definition fold_post :: "program \<Rightarrow> 'f doubles \<Rightarrow> nat \<Rightarrow> expr \<Rightarrow> 'f folds \<Rightarrow> ('f cval \<times> 'f folds) cres \<Rightarrow> bool" where
  "fold_post P F m e st r \<longleftrightarrow>
     (\<forall>v st'. r = Inr (v, st') \<and> folds_ok P F st \<longrightarrow> const_val P F m e v \<and> folds_ok P F st' \<and> progress st st')"

text \<open>The part of the identifier case that is \<open>fold_const_decl\<close>.\<close>

lemma fold_decl_post:
  assumes c: "const_at P (Some k) = Some (k, c)" and ok: "folds_ok P F st"
    and r: "(case st k of
                   Folded v \<Rightarrow> Some (Inr (v, st))
                 | Folding \<Rightarrow> Some (Inl e)
                 | Unfolded \<Rightarrow>
                     bind_walk (w (st(k := Folding))) (\<lambda>(v, st). Some (Inr (v, st(k := Folded v))))) = Some (Inr (v, st'))"
    and IH: "\<And>st r. w st = Some r \<Longrightarrow> fold_post P F (fst k) (c_init c) st r"
  shows "const_val P F (fst k) (c_init c) v \<and> folds_ok P F st' \<and> progress st st'"
proof (cases "st k")
  case Unfolded
  then obtain st1 where s: "w (st(k := Folding)) = Some (Inr (v, st1))" "st' = st1(k := Folded v)"
    using r by auto
  have "folds_ok P F (st(k := Folding))" using ok unfolding folds_ok_def by auto
  then have p: "const_val P F (fst k) (c_init c) v" "folds_ok P F st1" "progress (st(k := Folding)) st1"
    using IH[OF s(1)] unfolding fold_post_def by blast+
  have "folds_ok P F st'" using p(1,2) c unfolding s(2) folds_ok_def by auto
  moreover have "progress st st'"
    unfolding progress_def
  proof
    fix j
    show "(st' j = Unfolded \<longrightarrow> st j = Unfolded) \<and> (st' j = Folding \<longleftrightarrow> st j = Folding)"
      using spec[OF p(3)[unfolded progress_def], of j] Unfolded unfolding s(2) by (cases "j = k") auto
  qed
  ultimately show ?thesis using p(1) by blast
next
  case (Folded u)
  then have "v = u" "st' = st" using r by auto
  then show ?thesis using ok Folded c progress_refl unfolding folds_ok_def by fastforce
qed (use r in simp)

lemma fold_const_expr_post:
  fixes F :: "'f doubles"
  assumes "fold_const_expr P F what m e st = Some r"
  shows "fold_post P F m e st r"
  using assms
proof (rule fold_const_expr.raw_induct
    [where Pa = "\<lambda>(((((P, F), what), m), e), st) r. fold_post P F m e st r", unfolded case_prod_conv, rotated])
  fix w :: "program \<Rightarrow> 'f doubles \<Rightarrow> string \<Rightarrow> nat \<Rightarrow> expr \<Rightarrow> 'f folds \<Rightarrow> ('f cval \<times> 'f folds) walk" and P F what m e st r
  assume IH: "\<And>P F what m e st r. w P F what m e st = Some r \<Longrightarrow> fold_post P F m e st r"
    and step: "(case e of
        EX_INT l v \<Rightarrow> Some (Inr (CInt v, st))
      | EX_FLOAT l s \<Rightarrow> Some (Inr (CFloat (f_lit F s), st))
      | EX_BOOL l b \<Rightarrow> Some (Inr (CBool b, st))
      | EX_IDENT l name \<Rightarrow>
          Option.bind (mod_lookup P {} m name) (\<lambda>d.
            case const_at P d of
              None \<Rightarrow> Some (Inl (FatalAt l (what @ '' may only reference constants'')))
            | Some (k, c) \<Rightarrow>
                (case st k of
                   Folded v \<Rightarrow> Some (Inr (v, st))
                 | Folding \<Rightarrow> Some (Inl (FatalAt (expr_loc (c_init c)) (''constant '' @ quoted (c_name c) @ '' has a cyclic definition'')))
                 | Unfolded \<Rightarrow>
                     bind_walk (w P F what (fst k) (c_init c) (st(k := Folding))) (\<lambda>(v, st).
                       Some (Inr (v, st(k := Folded v))))))
      | EX_UN l op a \<Rightarrow>
          bind_walk (w P F what m a st) (\<lambda>(v, st).
          bind_walk (Some (fold_un F l op v)) (\<lambda>r. Some (Inr (r, st))))
      | EX_BIN l op a b \<Rightarrow>
          bind_walk (w P F what m a st) (\<lambda>(v, st).
          bind_walk (w P F what m b st) (\<lambda>(u, st).
          bind_walk (Some (fold_bin F l op v u)) (\<lambda>r. Some (Inr (r, st)))))
      | _ \<Rightarrow> Some (Inl (FatalAt (expr_loc e) (what @ '' must be a constant expression'')))) = Some r"
  show "fold_post P F m e st r"
    unfolding fold_post_def
  proof (intro allI impI, elim conjE)
    fix v st' assume r: "r = Inr (v, st')" and ok: "folds_ok P F st"
    show "const_val P F m e v \<and> folds_ok P F st' \<and> progress st st'"
    proof (cases e)
      case (EX_IDENT l name)
      then obtain d k c where d: "mod_lookup P {} m name = Some d" "const_at P d = Some (k, c)"
        and s: "(case st k of
                   Folded v \<Rightarrow> Some (Inr (v, st))
                 | Folding \<Rightarrow> Some (Inl (FatalAt (expr_loc (c_init c)) (''constant '' @ quoted (c_name c) @ '' has a cyclic definition'')))
                 | Unfolded \<Rightarrow>
                     bind_walk (w P F what (fst k) (c_init c) (st(k := Folding))) (\<lambda>(v, st).
                       Some (Inr (v, st(k := Folded v))))) = Some (Inr (v, st'))"
        using step r by (auto simp: bind_eq_Some_conv split: option.splits)
      show ?thesis
        using fold_decl_post[where w = "w P F what (fst k) (c_init c)", OF conjunct2[OF const_at_key[OF d(2)]] ok s IH[where what = what]] cv_ident[OF d] EX_IDENT by blast
    next
      case (EX_UN l op a)
      then obtain u where "w P F what m a st = Some (Inr (u, st'))" "fold_un F l op u = Inr v"
        using step r by auto
      then show ?thesis using IH ok cv_un EX_UN unfolding fold_post_def by fast
    next
      case (EX_BIN l op a b)
      then obtain x y st1 where s: "w P F what m a st = Some (Inr (x, st1))" "w P F what m b st1 = Some (Inr (y, st'))"
        "fold_bin F l op x y = Inr v"
        using step r by auto
      have "const_val P F m a x \<and> folds_ok P F st1 \<and> progress st st1" using IH[OF s(1)] ok unfolding fold_post_def by blast
      moreover from this have "const_val P F m b y \<and> folds_ok P F st' \<and> progress st1 st'"
        using IH[OF s(2)] unfolding fold_post_def by blast
      ultimately show ?thesis using cv_bin[OF _ _ s(3)] progress_trans EX_BIN by metis
    next
      case (EX_INT l i)
      then show ?thesis using step r ok cv_int progress_refl by auto
    next
      case (EX_FLOAT l s)
      then show ?thesis using step r ok cv_float progress_refl by auto
    next
      case (EX_BOOL l b)
      then show ?thesis using step r ok cv_bool progress_refl by auto
    qed (use step r in simp_all)
  qed
qed

section \<open>Folding returns\<close>

lemma finite_consts:
  assumes "finite (dom (p_mods P))"
  shows "finite {k. const_at P (Some k) \<noteq> None}"
proof -
  have "{k. const_at P (Some k) \<noteq> None} \<subseteq> (SIGMA m : dom (p_mods P). {..<length (mod_decls P m)})"
    by (auto simp: const_at_def mod_decls_def split: option.splits if_splits)
  then show ?thesis using assms finite_subset by (metis (no_types, lifting) finite_SigmaI finite_lessThan)
qed

definition unfolded :: "program \<Rightarrow> 'f folds \<Rightarrow> (nat \<times> nat) set" where
  "unfolded P st = {k. const_at P (Some k) \<noteq> None \<and> st k = Unfolded}"

lemma progress_unfolded: "progress st st' \<Longrightarrow> unfolded P st' \<subseteq> unfolded P st"
  by (auto simp: unfolded_def progress_def)

text \<open>What is needed of the states here does not depend on the values in them.\<close>

lemma fold_const_expr_progress:
  fixes F :: "'f doubles"
  assumes "fold_const_expr P F what m e st = Some (Inr (v, st'))" "folds_ok P F st"
  shows "progress st st' \<and> folds_ok P F st'"
  using fold_const_expr_post[OF assms(1)] assms(2) unfolding fold_post_def by blast

lemma fold_const_expr_returns:
  fixes F :: "'f doubles"
  assumes fin: "finite (dom (p_mods P))"
  shows "folds_ok P F st \<Longrightarrow> \<exists>r. fold_const_expr P F what m e st = Some r"
proof (induction "card (unfolded P st)" arbitrary: m e st rule: less_induct)
  case less
  have fu: "finite (unfolded P st)" for st :: "'f folds"
    unfolding unfolded_def using finite_consts[OF fin] by (auto intro: finite_subset)
  have "\<exists>r. fold_const_expr P F what m e s = Some r" if "folds_ok P F s" "unfolded P s \<subseteq> unfolded P st" for s
    using that
  proof (induction "size e" arbitrary: e s rule: less_induct)
    case (less e s)
    note inner = less.hyps and prems = less.prems
    show ?case
    proof (cases e)
      case (EX_IDENT l name)
      obtain d where d: "mod_lookup P {} m name = Some d" using mod_lookup_returns[OF fin] by blast
      have "\<exists>r. fold_const_expr P F what (fst k) (c_init c) (s(k := Folding)) = Some r"
        if k: "const_at P d = Some (k, c)" "s k = Unfolded" for k c
      proof -
        have "k \<in> unfolded P s" "unfolded P (s(k := Folding)) = unfolded P s - {k}"
          using const_at_key[OF k(1)] k(2) by (auto simp: unfolded_def)
        then have "card (unfolded P (s(k := Folding))) < card (unfolded P st)"
          using prems(2) fu psubset_card_mono[OF fu, of "unfolded P (s(k := Folding))" st] by blast
        moreover have "folds_ok P F (s(k := Folding))" using prems(1) unfolding folds_ok_def by auto
        ultimately show ?thesis by (rule \<open>\<And>st' m e. card (unfolded P st') < card (unfolded P st) \<Longrightarrow> folds_ok P F st' \<Longrightarrow> \<exists>r. fold_const_expr P F what m e st' = Some r\<close>)
      qed
      then show ?thesis
        unfolding EX_IDENT
        by (subst fold_const_expr.simps) (auto simp: d intro!: bind_walk_returns split: option.split fold_state.split)
    next
      case (EX_UN l op a)
      then show ?thesis using inner[of a s] prems
        by (subst fold_const_expr.simps) (auto intro!: bind_walk_returns)
    next
      case (EX_BIN l op a b)
      have "\<exists>r. fold_const_expr P F what m b s' = Some r" if "fold_const_expr P F what m a s = Some (Inr (v, s'))" for v s'
        using inner[of b s'] fold_const_expr_progress[OF that prems(1)] progress_unfolded prems(2) EX_BIN by fastforce
      then show ?thesis using inner[of a s] prems EX_BIN
        by (subst fold_const_expr.simps) (auto intro!: bind_walk_returns)
    qed (subst fold_const_expr.simps, simp)+
  qed
  then show ?case using less.prems by blast
qed

section \<open>Folding computes what the program would\<close>

lemma fold_never_undefined:
  "fold_int l op x y \<noteq> Inl Undefined" "fold_bits l op x y \<noteq> Inl Undefined"
  by (auto simp: fold_int_def fold_bits_def c_div_def c_mod_def split: option.splits)

lemma bind_res_defined: "m \<noteq> Inl Undefined \<Longrightarrow> bind_res m (\<lambda>r. Inr (f r)) \<noteq> Inl Undefined"
  by (cases m) (simp_all add: bind_res_def)

lemma fold_float_defined: "fold_float F l op x y \<noteq> Inl Undefined"
  by (simp add: fold_float_def)

lemma fold_un_bin_defined: "fold_un F l op v \<noteq> Inl Undefined" "fold_bin F l op v w \<noteq> Inl Undefined"
proof -
  show "fold_un F l op v \<noteq> Inl Undefined" by (cases v) (simp_all add: fold_un_def)
  show "fold_bin F l op v w \<noteq> Inl Undefined"
    unfolding fold_bin_def
    by (cases v; cases w) (simp_all add: bind_res_defined fold_never_undefined fold_float_defined)
qed

lemma bind_walk_error:
  "bind_walk m f = Some (Inl e) \<longleftrightarrow> m = Some (Inl e) \<or> (\<exists>x. m = Some (Inr x) \<and> f x = Some (Inl e))"
proof (cases m)
  case (Some r)
  then show ?thesis by (cases r) (auto simp: bind_walk_def)
qed (simp add: bind_walk_def)

lemma fold_const_expr_defined:
  fixes F :: "'f doubles"
  assumes "fold_const_expr P F what m e st = Some r"
  shows "r \<noteq> Inl Undefined"
  using assms
proof (rule fold_const_expr.raw_induct
    [where Pa = "\<lambda>(((((P, F), what), m), e), st) r. r \<noteq> Inl Undefined", unfolded case_prod_conv, rotated])
  fix w :: "program \<Rightarrow> 'f doubles \<Rightarrow> string \<Rightarrow> nat \<Rightarrow> expr \<Rightarrow> 'f folds \<Rightarrow> ('f cval \<times> 'f folds) walk" and P F what m e st r
  assume IH: "\<And>P F what m e st r. w P F what m e st = Some r \<Longrightarrow> r \<noteq> Inl Undefined"
    and step: "(case e of
        EX_INT l v \<Rightarrow> Some (Inr (CInt v, st))
      | EX_FLOAT l s \<Rightarrow> Some (Inr (CFloat (f_lit F s), st))
      | EX_BOOL l b \<Rightarrow> Some (Inr (CBool b, st))
      | EX_IDENT l name \<Rightarrow>
          Option.bind (mod_lookup P {} m name) (\<lambda>d.
            case const_at P d of
              None \<Rightarrow> Some (Inl (FatalAt l (what @ '' may only reference constants'')))
            | Some (k, c) \<Rightarrow>
                (case st k of
                   Folded v \<Rightarrow> Some (Inr (v, st))
                 | Folding \<Rightarrow> Some (Inl (FatalAt (expr_loc (c_init c)) (''constant '' @ quoted (c_name c) @ '' has a cyclic definition'')))
                 | Unfolded \<Rightarrow>
                     bind_walk (w P F what (fst k) (c_init c) (st(k := Folding))) (\<lambda>(v, st).
                       Some (Inr (v, st(k := Folded v))))))
      | EX_UN l op a \<Rightarrow>
          bind_walk (w P F what m a st) (\<lambda>(v, st).
          bind_walk (Some (fold_un F l op v)) (\<lambda>r. Some (Inr (r, st))))
      | EX_BIN l op a b \<Rightarrow>
          bind_walk (w P F what m a st) (\<lambda>(v, st).
          bind_walk (w P F what m b st) (\<lambda>(u, st).
          bind_walk (Some (fold_bin F l op v u)) (\<lambda>r. Some (Inr (r, st)))))
      | _ \<Rightarrow> Some (Inl (FatalAt (expr_loc e) (what @ '' must be a constant expression'')))) = Some r"
  show "r \<noteq> Inl Undefined"
  proof
    assume r: "r = Inl Undefined"
    have no: "w P F what m e st \<noteq> Some (Inl Undefined)" for m e st using IH by blast
    show False
    proof (cases e)
      case (EX_IDENT l name)
      then obtain d k c where "const_at P d = Some (k, c)"
        and "(case st k of
                   Folded v \<Rightarrow> Some (Inr (v, st))
                 | Folding \<Rightarrow> Some (Inl (FatalAt (expr_loc (c_init c)) (''constant '' @ quoted (c_name c) @ '' has a cyclic definition'')))
                 | Unfolded \<Rightarrow>
                     bind_walk (w P F what (fst k) (c_init c) (st(k := Folding))) (\<lambda>(v, st).
                       Some (Inr (v, st(k := Folded v))))) = Some (Inl Undefined)"
        using step unfolding r by (auto simp: bind_eq_Some_conv split: option.splits)
      then show False using no by (cases "st k") (auto simp: bind_walk_error)
    qed (use step no fold_un_bin_defined[of F] r in \<open>auto simp: bind_walk_error\<close>)
  qed
qed

lemma folds_initial: "folds_ok P F (\<lambda>_. Unfolded)"
  by (simp add: folds_ok_def)

lemma fold_matches_runtime:
  "vt_ck_add x y lo hi = Inr r \<Longrightarrow> fold_int l T_PLUS x y = Inr r"
  "vt_ck_sub x y lo hi = Inr r \<Longrightarrow> fold_int l T_MINUS x y = Inr r"
  "vt_ck_mul x y lo hi = Inr r \<Longrightarrow> fold_int l T_STAR x y = Inr r"
  "vt_ck_div x y lo hi = Some (Inr r) \<Longrightarrow> fold_int l T_SLASH x y = Inr r"
  "vt_ck_neg x lo hi = Inr r \<Longrightarrow> fold_un F l T_MINUS (CInt x) = Inr (CInt r)"
  "vt_ck_shl x y 64 = Inr r \<Longrightarrow> fold_bits l T_SHL x y = Inr r"
  "vt_ck_shr x y 64 = Inr r \<Longrightarrow> fold_bits l T_SHR x y = Inr r"
  by (auto simp: vt_ck_add_def vt_ck_sub_def vt_ck_mul_def vt_ck_div_def vt_ck_neg_def vt_ck_shl_def vt_ck_shr_def
      fold_int_def fold_bits_def fold_un_def builtin_add_overflow_def builtin_sub_overflow_def builtin_mul_overflow_def
      builtin_overflow_def Let_def split: if_splits)

lemma fold_mod_matches_runtime:
  assumes "vt_ck_mod x y = Some (Inr r)" "\<not> (x = INT64_MIN \<and> y = - 1)"
  shows "fold_bits l T_PERCENT x y = Inr r"
proof -
  have "c_mod x (- 1) = Some 0" if "x \<noteq> INT64_MIN"
    using that by (simp add: c_mod_def signed_modulo_int_def)
  then show ?thesis
    using assms by (auto simp: vt_ck_mod_def fold_bits_def split: if_splits option.splits)
qed

section \<open>Enum values\<close>

record rvariant = enum_variant +
  v_value :: i64
  v_text :: "string option"

definition rvariant_of :: "enum_variant \<Rightarrow> i64 \<Rightarrow> string option \<Rightarrow> rvariant" where
  "rvariant_of v i t = \<lparr>v_name = v_name v, v_init = v_init v, v_loc = v_loc v, v_value = i, v_text = t\<rparr>"

text \<open>The comparison with the variants before it, in order, each by name, value and text.\<close>

fun variant_clash :: "string \<Rightarrow> rvariant list \<Rightarrow> rvariant \<Rightarrow> unit cres" where
  "variant_clash ename [] v = Inr ()"
| "variant_clash ename (k # ks) v =
     (if v_name k = v_name v
      then Inl (FatalAt (v_loc v) (''duplicate variant '' @ quoted (v_name v) @ '' in enum '' @ quoted ename))
      else if v_value k = v_value v
      then Inl (FatalAt (v_loc v) (''duplicate value '' @ i64_text (v_value v) @ '' in enum '' @ quoted ename @
             '' (variant '' @ quoted (v_name k) @ '' has it)''))
      else if v_text v \<noteq> None \<and> v_text k = v_text v
      then Inl (FatalAt (v_loc v) (''duplicate string \"'' @ the (v_text v) @ ''\" in enum '' @ quoted ename @
             '' (variant '' @ quoted (v_name k) @ '' has it)''))
      else variant_clash ename ks v)"

text \<open>The value and text of one variant, given the next ordinal.\<close>

definition variant_value ::
  "program \<Rightarrow> 'f doubles \<Rightarrow> nat \<Rightarrow> i64 \<Rightarrow> enum_variant \<Rightarrow> 'f folds \<Rightarrow> (i64 \<times> string option \<times> bool \<times> 'f folds) walk" where
  "variant_value P F m next v st =
     (case v_init v of
        None \<Rightarrow> Some (Inr (next, None, False, st))
      | Some e \<Rightarrow>
          (case e of
             EX_STR l s \<Rightarrow>
               if s = [] then Some (Inl (FatalAt (v_loc v) (''enum variant '' @ quoted (v_name v) @ '' has an empty string '' @ em_dash @
                 '' parse(\"\") could never name it'')))
               else Some (Inr (next, Some s, False, st))
           | _ \<Rightarrow>
               bind_walk (fold_const_expr P F ''enum variant value'' m e st) (\<lambda>(cv, st).
                 case cv of
                   CInt i \<Rightarrow> Some (Inr (i, None, True, st))
                 | _ \<Rightarrow> Some (Inl (FatalAt (v_loc v) ''enum variant value must be an integer constant or a string literal'')))))"

fun resolve_variants ::
  "program \<Rightarrow> 'f doubles \<Rightarrow> nat \<Rightarrow> string \<Rightarrow> rvariant list \<Rightarrow> i64 \<Rightarrow> bool \<Rightarrow> bool \<Rightarrow> enum_variant list \<Rightarrow> 'f folds \<Rightarrow>
   (rvariant list \<times> bool \<times> 'f folds) walk" where
  "resolve_variants P F m ename before next any_text any_num [] st = Some (Inr (before, any_text, st))"
| "resolve_variants P F m ename before next any_text any_num (v # vs) st =
     bind_walk (variant_value P F m next v st) (\<lambda>(i, t, num, st).
       let any_text = any_text \<or> t \<noteq> None; any_num = any_num \<or> num; r = rvariant_of v i t
       in if any_text \<and> any_num
          then Some (Inl (FatalAt (v_loc v) (''enum '' @ quoted ename @ '' mixes string and integer variant values; '' @
                 ''a string names the variant and an integer numbers it, so an enum uses one or the other'')))
          else bind_walk (Some (variant_clash ename before r)) (\<lambda>_.
                 resolve_variants P F m ename (before @ [r]) (i + 1) any_text any_num vs st))"

definition resolve_enum :: "program \<Rightarrow> 'f doubles \<Rightarrow> nat \<Rightarrow> enum_decl \<Rightarrow> 'f folds \<Rightarrow> (rvariant list \<times> 'f folds) walk" where
  "resolve_enum P F m ed st =
     bind_walk (resolve_variants P F m (ed_name ed) [] 0 False False (ed_variants ed) st) (\<lambda>(rs, any_text, st).
       case (if any_text then List.find (\<lambda>r. v_text r = None) rs else None) of
         Some r \<Rightarrow> Some (Inl (FatalAt (v_loc r) (''enum variant '' @ quoted (v_name r) @ '' needs a string like its siblings '' @ em_dash @
             '' otherwise it serializes as \"'' @ v_name r @ ''\" while the rest of '' @ quoted (ed_name ed) @ '' use their own spellings'')))
       | None \<Rightarrow> Some (Inr (rs, st)))"

text \<open>What the resolved variants satisfy.\<close>

definition variants_distinct :: "rvariant list \<Rightarrow> bool" where
  "variants_distinct rs \<longleftrightarrow>
     distinct (map v_name rs) \<and> distinct (map v_value rs) \<and>
     (\<forall>i j. i < j \<and> j < length rs \<and> v_text (rs ! j) \<noteq> None \<longrightarrow> v_text (rs ! i) \<noteq> v_text (rs ! j))"

definition variant_valued :: "program \<Rightarrow> 'f doubles \<Rightarrow> nat \<Rightarrow> i64 \<Rightarrow> rvariant \<Rightarrow> bool" where
  "variant_valued P F m next r \<longleftrightarrow>
     (case v_init r of
        None \<Rightarrow> v_value r = next \<and> v_text r = None
      | Some (EX_STR l s) \<Rightarrow> v_value r = next \<and> v_text r = Some s \<and> s \<noteq> []
      | Some e \<Rightarrow> const_val P F m e (CInt (v_value r)) \<and> v_text r = None)"

fun variants_valued :: "program \<Rightarrow> 'f doubles \<Rightarrow> nat \<Rightarrow> i64 \<Rightarrow> rvariant list \<Rightarrow> bool" where
  "variants_valued P F m next [] = True"
| "variants_valued P F m next (r # rs) = (variant_valued P F m next r \<and> variants_valued P F m (v_value r + 1) rs)"

lemma variant_clash_ok:
  "variant_clash ename ks v = Inr () \<longleftrightarrow>
     (\<forall>k\<in>set ks. v_name k \<noteq> v_name v \<and> v_value k \<noteq> v_value v \<and> (v_text v \<noteq> None \<longrightarrow> v_text k \<noteq> v_text v))"
  by (induction ks) auto

lemma variants_distinct_snoc:
  assumes "variants_distinct ks" "variant_clash ename ks v = Inr ()"
  shows "variants_distinct (ks @ [v])"
  using assms unfolding variant_clash_ok variants_distinct_def by (auto simp: nth_append less_Suc_eq)

lemma variants_valued_append:
  "variants_valued P F m next (rs @ [r]) \<longleftrightarrow>
     variants_valued P F m next rs \<and> variant_valued P F m (if rs = [] then next else v_value (last rs) + 1) r"
  by (induction rs arbitrary: "next") auto

lemma variant_value_fold:
  "v_init v = Some e \<Longrightarrow> \<not> is_str e \<Longrightarrow>
     variant_value P F m next v st = bind_walk (fold_const_expr P F ''enum variant value'' m e st) (\<lambda>(cv, st).
                 case cv of
                   CInt i \<Rightarrow> Some (Inr (i, None, True, st))
                 | _ \<Rightarrow> Some (Inl (FatalAt (v_loc v) ''enum variant value must be an integer constant or a string literal'')))"
  unfolding variant_value_def by (cases e) simp_all

lemma variant_valued_fold:
  "v_init v = Some e \<Longrightarrow> \<not> is_str e \<Longrightarrow> variant_valued P F m next (rvariant_of v i None) \<longleftrightarrow> const_val P F m e (CInt i)"
  unfolding variant_valued_def rvariant_of_def by (cases e) simp_all

lemma variant_value_ok:
  assumes "variant_value P F m next v st = Some (Inr (i, t, num, st'))" "folds_ok P F st"
  shows "variant_valued P F m next (rvariant_of v i t) \<and> folds_ok P F st'"
proof (cases "\<exists>e. v_init v = Some e \<and> \<not> is_str e")
  case True
  then obtain e where e: "v_init v = Some e" "\<not> is_str e" by blast
  obtain cv st1 where f: "fold_const_expr P F ''enum variant value'' m e st = Some (Inr (cv, st1))"
    and c: "(case cv of CInt i \<Rightarrow> Some (Inr (i, None, True, st1))
      | _ \<Rightarrow> Some (Inl (FatalAt (v_loc v) ''enum variant value must be an integer constant or a string literal''))) = Some (Inr (i, t, num, st'))"
    using assms(1) unfolding variant_value_fold[OF e] by auto
  then have "cv = CInt i" "t = None" "st1 = st'" by (cases cv; simp)+
  then show ?thesis
    using fold_const_expr_post[OF f] assms(2) variant_valued_fold[OF e] unfolding fold_post_def by blast
next
  case False
  then consider "v_init v = None" | l s where "v_init v = Some (EX_STR l s)"
    by (metis is_str.elims(2) not_None_eq)
  then show ?thesis
    using assms by cases (auto simp: variant_value_def variant_valued_def rvariant_of_def split: if_splits)
qed

definition enum_ok :: "program \<Rightarrow> 'f doubles \<Rightarrow> nat \<Rightarrow> enum_variant list \<Rightarrow> rvariant list \<Rightarrow> bool" where
  "enum_ok P F m vs rs \<longleftrightarrow>
     map v_name rs = map v_name vs \<and> map v_init rs = map v_init vs \<and> variants_distinct rs \<and> variants_valued P F m 0 rs"

lemma resolve_variants_ok:
  assumes "resolve_variants P F m ename before next at an vs st = Some (Inr (rs, at', st'))" "folds_ok P F st"
    "enum_ok P F m us before" "next = (if before = [] then 0 else v_value (last before) + 1)" "at = (\<exists>r\<in>set before. v_text r \<noteq> None)"
  shows "enum_ok P F m (us @ vs) rs \<and> at' = (\<exists>r\<in>set rs. v_text r \<noteq> None) \<and> folds_ok P F st'"
  using assms
proof (induction vs arbitrary: before "next" at an st us)
  case (Cons v vs)
  obtain i t num st1 where v: "variant_value P F m next v st = Some (Inr (i, t, num, st1))"
    and c: "variant_clash ename before (rvariant_of v i t) = Inr ()"
    and rest: "resolve_variants P F m ename (before @ [rvariant_of v i t]) (i + 1) (at \<or> t \<noteq> None) (an \<or> num) vs st1 = Some (Inr (rs, at', st'))"
    using Cons.prems(1) by (auto simp: Let_def split: if_splits)
  note ok = variant_value_ok[OF v Cons.prems(2)]
  have "enum_ok P F m (us @ [v]) (before @ [rvariant_of v i t])"
    using Cons.prems(3,4) ok variants_distinct_snoc[OF _ c] unfolding enum_ok_def variants_valued_append
    by (auto simp: rvariant_of_def)
  then show ?case
    using Cons.IH[OF rest conjunct2[OF ok], of "us @ [v]"] Cons.prems(5) by (auto simp: rvariant_of_def)
qed auto

lemma resolve_enum_ok:
  assumes "resolve_enum P F m ed st = Some (Inr (rs, st'))" "folds_ok P F st"
  shows "enum_ok P F m (ed_variants ed) rs" "(\<exists>r\<in>set rs. v_text r \<noteq> None) \<longrightarrow> (\<forall>r\<in>set rs. v_text r \<noteq> None)" "folds_ok P F st'"
proof -
  obtain at where r: "resolve_variants P F m (ed_name ed) [] 0 False False (ed_variants ed) st = Some (Inr (rs, at, st'))"
    and f: "at \<longrightarrow> List.find (\<lambda>r. v_text r = None) rs = None"
    using assms(1) by (auto simp: resolve_enum_def split: option.splits if_splits)
  have "enum_ok P F m [] []" by (simp add: enum_ok_def variants_distinct_def)
  then have "enum_ok P F m (ed_variants ed) rs \<and> at = (\<exists>r\<in>set rs. v_text r \<noteq> None) \<and> folds_ok P F st'"
    using resolve_variants_ok[OF r assms(2), of "[]"] by simp
  then show "enum_ok P F m (ed_variants ed) rs" "(\<exists>r\<in>set rs. v_text r \<noteq> None) \<longrightarrow> (\<forall>r\<in>set rs. v_text r \<noteq> None)" "folds_ok P F st'"
    using f by (auto simp: find_None_iff)
qed

lemma resolve_variants_returns:
  fixes F :: "'f doubles"
  assumes "finite (dom (p_mods P))" "folds_ok P F st"
  shows "\<exists>r. resolve_variants P F m ename before next at an vs st = Some r"
  using assms(2)
proof (induction vs arbitrary: before "next" at an st)
  case (Cons v vs)
  have "\<exists>r. variant_value P F m next v st = Some r"
  proof (cases "\<exists>e. v_init v = Some e \<and> \<not> is_str e")
    case True
    then obtain e where e: "v_init v = Some e" "\<not> is_str e" by blast
    show ?thesis
      unfolding variant_value_fold[OF e]
      using fold_const_expr_returns[OF assms(1) Cons.prems]
      by (auto intro!: bind_walk_returns split: cval.split)
  next
    case False
    then consider "v_init v = None" | l s where "v_init v = Some (EX_STR l s)"
      by (metis is_str.elims(2) not_None_eq)
    then show ?thesis by cases (auto simp: variant_value_def)
  qed
  then show ?case
    by (auto simp: Let_def intro!: bind_walk_returns Cons.IH dest: variant_value_ok[OF _ Cons.prems])
qed simp

lemma resolve_enum_returns:
  "finite (dom (p_mods P)) \<Longrightarrow> folds_ok P F st \<Longrightarrow> \<exists>r. resolve_enum P F m ed st = Some r"
  unfolding resolve_enum_def
  by (intro bind_walk_returns resolve_variants_returns) (auto split: option.split prod.split)

section \<open>Properties\<close>


definition sample_doubles :: "int doubles" where
  "sample_doubles = \<lparr>f_lit = (\<lambda>s. int (length s)), f_of_int = sint, f_neg = uminus, f_add = (+), f_sub = (-), f_mul = (*),
     f_div = (div), f_is_zero = (\<lambda>x. x = 0)\<rparr>"

definition sample_loc :: loc where
  "sample_loc = \<lparr>l_file = None, l_line = 1, l_col = 1\<rparr>"

definition sample_const :: "string \<Rightarrow> expr \<Rightarrow> decl" where
  "sample_const name e = D_CONST \<lparr>c_loc = sample_loc, c_name = name, c_type = type_new TY_INT sample_loc, c_init = e\<rparr>"

text \<open>Two constants, the second defined by the first, and two that refer to each other.\<close>

definition sample_program :: program where
  "sample_program = \<lparr>p_mods = [0 \<mapsto> \<lparr>m_name = [], m_path = [], m_src = [], m_decls =
     [sample_const ''A'' (EX_INT sample_loc 2),
      sample_const ''B'' (EX_BIN sample_loc T_PLUS (EX_IDENT sample_loc ''A'') (EX_INT sample_loc 3)),
      sample_const ''X'' (EX_IDENT sample_loc ''Y''), sample_const ''Y'' (EX_IDENT sample_loc ''X'')],
     arrow_counter = 0, src_hash = 0\<rparr>], p_import = (\<lambda>_. 0)\<rparr>"

lemma sample_decls:
  "mod_decls sample_program 0 =
     [sample_const ''A'' (EX_INT sample_loc 2),
      sample_const ''B'' (EX_BIN sample_loc T_PLUS (EX_IDENT sample_loc ''A'') (EX_INT sample_loc 3)),
      sample_const ''X'' (EX_IDENT sample_loc ''Y''), sample_const ''Y'' (EX_IDENT sample_loc ''X'')]"
  by (simp add: mod_decls_def sample_program_def)

lemma sample_lookup:
  "mod_lookup sample_program {} 0 ''A'' = Some (Some (0, 0))" "mod_lookup sample_program {} 0 ''B'' = Some (Some (0, 1))"
  by (simp_all add: mod_lookup.simps[of _ "{}"] mod_lookup_own_def sample_decls sample_const_def)


text \<open>C28: Enum values are unambiguous. \<open>resolve_enum\<close> returns, and when it accepts an enum its variants keep names and order,
  no two share a name, a value or a text, either all or none have a text, an integer initialiser
  gives the value it folds to, and every other variant has the value after its
  predecessor's, the first one 0.\<close>

theorem enum_values_unambiguous:
  assumes "finite (dom (p_mods P))" and "folds_ok P F st"
  shows "(\<exists>r. resolve_enum P F m ed st = Some r) \<and>
    (resolve_enum P F m ed st = Some (Inr (rs, st')) \<longrightarrow>
       map v_name rs = map v_name (ed_variants ed) \<and> map v_init rs = map v_init (ed_variants ed) \<and>
       variants_distinct rs \<and> variants_valued P F m 0 rs \<and>
       ((\<forall>r\<in>set rs. v_text r = None) \<or> (\<forall>r\<in>set rs. v_text r \<noteq> None)))"
  using resolve_enum_returns[OF assms] resolve_enum_ok[OF _ assms(2)] unfolding enum_ok_def by blast

theorem enum_values_unambiguous_witness:
  "let ed = \<lparr>ed_name = ''E'', ed_loc = sample_loc, ed_variants =
        [\<lparr>v_name = ''a'', v_init = Some (EX_INT sample_loc 7), v_loc = sample_loc\<rparr>, \<lparr>v_name = ''b'', v_init = None, v_loc = sample_loc\<rparr>]\<rparr>
   in \<exists>rs st'. resolve_enum sample_program sample_doubles 0 ed (\<lambda>_. Unfolded) = Some (Inr (rs, st')) \<and>
        map v_value rs = [7, 8] \<and> variants_distinct rs \<and> variants_valued sample_program sample_doubles 0 0 rs"
proof -
  let ?ed = "\<lparr>ed_name = ''E'', ed_loc = sample_loc, ed_variants =
        [\<lparr>v_name = ''a'', v_init = Some (EX_INT sample_loc 7), v_loc = sample_loc\<rparr>, \<lparr>v_name = ''b'', v_init = None, v_loc = sample_loc\<rparr>]\<rparr>"
  have fin: "finite (dom (p_mods sample_program))" by (simp add: sample_program_def)
  have "\<exists>rs st'. resolve_enum sample_program sample_doubles 0 ?ed (\<lambda>_. Unfolded) = Some (Inr (rs, st')) \<and> map v_value rs = [7, 8]"
    by (simp add: resolve_enum_def variant_value_def fold_const_expr.simps[of _ _ _ _ "EX_INT _ _"] bind_walk_def rvariant_of_def Let_def)
  then obtain rs st' where r: "resolve_enum sample_program sample_doubles 0 ?ed (\<lambda>_. Unfolded) = Some (Inr (rs, st'))" "map v_value rs = [7, 8]"
    by (elim exE conjE) (rule that)
  show ?thesis
    unfolding Let_def
    using r enum_values_unambiguous[OF fin folds_initial, of sample_doubles 0 ?ed rs st']
    by (intro exI[of _ rs] exI[of _ st']) simp
qed

end
