(* ===== verification/Vt_Calls.thy ===== *)
theory Vt_Calls
  imports Vt_Flow Vt_Fold
begin

text \<open>
  Calls, scopes, arena stores and switches in \<open>src/check.c\<close>: the binding of positional, named and default arguments
  (\<open>check_args_against\<close>), the scope chain and the C names of locals (\<open>scope_find\<close>, \<open>define_local\<close>), the rules on
  arena values (\<open>region_of\<close>, \<open>region_check_store\<close>, \<open>region_check_object_store\<close>) and the values and the exhaustiveness of a
  switch (\<open>check_switch\<close>). The recursive calls of the checker on subexpressions and blocks are arguments. The checker rewrites
  nodes in place, so a call returns the node as it is afterwards (an enum member or a numeric constant has become a literal), its type, its region and the next state.
\<close>

section \<open>Arguments\<close>

fun par_name :: "param \<Rightarrow> string" where
  "par_name (Param n t l d) = n"

fun par_type :: "param \<Rightarrow> ty option" where
  "par_type (Param n t l d) = t"

text \<open>The first parameter with the label's name.\<close>

definition param_index :: "string \<Rightarrow> param list \<Rightarrow> nat option" where
  "param_index label ps = first_index (\<lambda>p. par_name p = label) ps 0"

definition wrong_count :: "string \<Rightarrow> nat \<Rightarrow> nat \<Rightarrow> string" where
  "wrong_count nm want got =
     quoted nm @ '' expects '' @ u64_text (of_nat want) @ '' argument(s), got '' @ u64_text (of_nat got)"

text \<open>The loop over the arguments given, from the \<open>i\<close>-th on, with their labels; the slots filled so far.\<close>

fun place_args :: "string \<Rightarrow> param list \<Rightarrow> loc \<Rightarrow> nat \<Rightarrow> nat \<Rightarrow> bool \<Rightarrow> (string option \<times> expr) list \<Rightarrow> expr option list \<Rightarrow>
    expr option list cres" where
  "place_args nm ps l n i seen_named [] slots = Inr slots"
| "place_args nm ps l n i seen_named ((Some label, a) # as) slots =
     (case param_index label ps of
        None \<Rightarrow> Inl (FatalAt (expr_loc a) (quoted nm @ '' has no parameter named '' @ quoted label))
      | Some idx \<Rightarrow>
          if slots ! idx \<noteq> None then Inl (FatalAt (expr_loc a) (''duplicate argument '' @ quoted label))
          else place_args nm ps l n (i + 1) True as (slots[idx := Some a]))"
| "place_args nm ps l n i seen_named ((None, a) # as) slots =
     (if seen_named then Inl (FatalAt (expr_loc a) ''positional argument follows a named argument'')
      else if i \<ge> length ps then Inl (FatalAt l (wrong_count nm (length ps) n))
      else place_args nm ps l n (i + 1) False as (slots[i := Some a]))"

fun fill_defaults :: "string \<Rightarrow> loc \<Rightarrow> param list \<Rightarrow> expr option list \<Rightarrow> expr list cres" where
  "fill_defaults nm l (p # ps) (s # ss) =
     (case (s, param_default p) of
        (Some a, _) \<Rightarrow> bind_res (fill_defaults nm l ps ss) (\<lambda>xs. Inr (a # xs))
      | (None, Some d) \<Rightarrow> bind_res (fill_defaults nm l ps ss) (\<lambda>xs. Inr (d # xs))
      | (None, None) \<Rightarrow> Inl (FatalAt l (quoted nm @ '' missing argument for '' @ quoted (par_name p))))"
| "fill_defaults nm l _ _ = Inr []"

definition labels_of :: "string option list option \<Rightarrow> expr list \<Rightarrow> string option list" where
  "labels_of names args = (case names of Some ls \<Rightarrow> ls | None \<Rightarrow> replicate (length args) None)"

text \<open>The part of \<open>check_args_against\<close> that rewrites the arguments to one per parameter.\<close>

definition call_args :: "string \<Rightarrow> loc \<Rightarrow> param list \<Rightarrow> string option list option \<Rightarrow> expr list \<Rightarrow> expr list cres" where
  "call_args nm l ps names args =
     (if names \<noteq> None \<or> length args < length ps
      then bind_res (place_args nm ps l (length args) 0 False (zip (labels_of names args) args) (replicate (length ps) None))
             (fill_defaults nm l ps)
      else if length args \<noteq> length ps then Inl (FatalAt l (wrong_count nm (length ps) (length args)))
      else Inr args)"

text \<open>The check of one argument against its parameter; \<open>chk\<close> is \<open>check_expr\<close> followed by \<open>want\<close>.\<close>

type_synonym 's checker = "expr \<Rightarrow> ty option \<Rightarrow> 's \<Rightarrow> (expr \<times> ty \<times> nat \<times> 's) cres"

definition check_arg :: "'s checker \<Rightarrow> string \<Rightarrow> expr \<Rightarrow> param \<Rightarrow> 's \<Rightarrow> (expr \<times> 's) cres" where
  "check_arg chk nm a p st =
     bind_res (chk a (par_type p) st) (\<lambda>(a, t, r, st).
     if type_is_ref t \<and> r > 0
     then Inl (FatalAt (expr_loc a) (''cannot pass an arena value to '' @ quoted nm @ '' yet (consume it inside the arena block)''))
     else Inr (a, st))"

fun check_each_arg :: "'s checker \<Rightarrow> string \<Rightarrow> expr list \<Rightarrow> param list \<Rightarrow> 's \<Rightarrow> (expr list \<times> 's) cres" where
  "check_each_arg chk nm (a # as) (p # ps) st =
     bind_res (check_arg chk nm a p st) (\<lambda>(a, st).
     bind_res (check_each_arg chk nm as ps st) (\<lambda>(as, st). Inr (a # as, st)))"
| "check_each_arg chk nm _ _ st = Inr ([], st)"

definition check_args_against ::
  "'s checker \<Rightarrow> string \<Rightarrow> loc \<Rightarrow> param list \<Rightarrow> string option list option \<Rightarrow> expr list \<Rightarrow> 's \<Rightarrow> (expr list \<times> 's) cres" where
  "check_args_against chk nm l ps names args st =
     bind_res (call_args nm l ps names args) (\<lambda>args. check_each_arg chk nm args ps st)"

section \<open>What binding arguments means\<close>

text \<open>The parameter each argument goes to: a positional one by its place, a labelled one by its label.\<close>

definition target :: "param list \<Rightarrow> nat \<Rightarrow> string option \<Rightarrow> nat option" where
  "target ps i label = (case label of None \<Rightarrow> if i < length ps then Some i else None | Some s \<Rightarrow> param_index s ps)"

fun targets :: "param list \<Rightarrow> nat \<Rightarrow> string option list \<Rightarrow> nat option list" where
  "targets ps i [] = []"
| "targets ps i (x # xs) = target ps i x # targets ps (i + 1) xs"

text \<open>No positional argument after a labelled one.\<close>

fun positional_first :: "bool \<Rightarrow> string option list \<Rightarrow> bool" where
  "positional_first seen [] = True"
| "positional_first seen (None # xs) = (\<not> seen \<and> positional_first False xs)"
| "positional_first seen (Some _ # xs) = positional_first True xs"

definition well_called :: "param list \<Rightarrow> string option list \<Rightarrow> bool" where
  "well_called ps labels \<longleftrightarrow>
     positional_first False labels \<and> None \<notin> set (targets ps 0 labels) \<and> distinct (targets ps 0 labels) \<and>
     (\<forall>j < length ps. Some j \<in> set (targets ps 0 labels) \<or> param_default (ps ! j) \<noteq> None)"

definition arg_for :: "param list \<Rightarrow> string option list \<Rightarrow> expr list \<Rightarrow> nat \<Rightarrow> expr" where
  "arg_for ps labels args j =
     (case map_of (zip (targets ps 0 labels) args) (Some j) of Some a \<Rightarrow> a | None \<Rightarrow> the (param_default (ps ! j)))"

lemma first_index_bounds: "first_index p xs i = Some j \<Longrightarrow> i \<le> j \<and> j < i + length xs"
  by (induction xs arbitrary: i) (fastforce split: if_splits)+

lemma param_index_less: "param_index s ps = Some j \<Longrightarrow> j < length ps"
  using first_index_bounds[of _ ps 0 j] by (simp add: param_index_def)

lemma target_less: "target ps i x = Some j \<Longrightarrow> j < length ps"
  by (auto simp: target_def param_index_less split: option.splits if_splits)

lemma length_targets [simp]: "length (targets ps i xs) = length xs"
  by (induction xs arbitrary: i) simp_all

text \<open>The slots hold what an association list of places and arguments says.\<close>

definition slots_of :: "nat \<Rightarrow> (nat option \<times> expr) list \<Rightarrow> expr option list" where
  "slots_of n al = map (\<lambda>j. map_of al (Some j)) [0..<n]"

lemma slots_of_put: "j < n \<Longrightarrow> (slots_of n al)[j := Some a] = slots_of n ((Some j, a) # al)"
  by (rule nth_equalityI) (auto simp: slots_of_def nth_list_update)

lemma slots_of_nth: "j < n \<Longrightarrow> slots_of n al ! j = map_of al (Some j)"
  by (simp add: slots_of_def)

lemma place_args_step:
  "place_args nm ps l n i seen ((x, a) # as) (slots_of (length ps) al) = Inr slots \<longleftrightarrow>
   (x = None \<longrightarrow> \<not> seen) \<and>
   (\<exists>j. target ps i x = Some j \<and> (x \<noteq> None \<longrightarrow> Some j \<notin> fst ` set al) \<and>
        place_args nm ps l n (i + 1) (x \<noteq> None) as (slots_of (length ps) ((Some j, a) # al)) = Inr slots)"
proof (cases x)
  case None
  then show ?thesis by (auto simp: target_def slots_of_put)
next
  case (Some s)
  show ?thesis
  proof (cases "param_index s ps")
    case None
    then show ?thesis using Some by (simp add: target_def)
  next
    case j: (Some j)
    have "slots_of (length ps) al ! j = None \<longleftrightarrow> Some j \<notin> fst ` set al"
      using slots_of_nth[OF param_index_less[OF j]] by (simp add: map_of_eq_None_iff)
    then show ?thesis using Some j slots_of_put[OF param_index_less[OF j]] by (auto simp: target_def)
  qed
qed

lemma place_args_exact:
  assumes "length xs = length as" "\<not> seen \<Longrightarrow> fst ` set al = Some ` {..<i}"
  shows "place_args nm ps l n i seen (zip xs as) (slots_of (length ps) al) = Inr slots \<longleftrightarrow>
    positional_first seen xs \<and> None \<notin> set (targets ps i xs) \<and> distinct (targets ps i xs) \<and>
    set (targets ps i xs) \<inter> fst ` set al = {} \<and> slots = slots_of (length ps) (rev (zip (targets ps i xs) as) @ al)"
  using assms
proof (induction xs as arbitrary: i seen al rule: list_induct2')
  case (4 x xs a as)
  have len: "length xs = length as" using 4(2) by simp
  show ?case
  proof (cases "target ps i x")
    case None
    then show ?thesis by (simp add: place_args_step)
  next
    case (Some j)
    let ?al = "(Some j, a) # al"
    have inv: "fst ` set ?al = Some ` {..<i + 1} \<and> Some j \<notin> fst ` set al" if "x = None" "\<not> seen"
      using 4(3)[OF that(2)] Some that(1) by (auto simp: target_def split: if_splits)
    show ?thesis
    proof (cases "x = None \<and> seen")
      case True
      then show ?thesis by (simp add: place_args_step)
    next
      case False
      have IH: "place_args nm ps l n (i + 1) (x \<noteq> None) (zip xs as) (slots_of (length ps) ?al) = Inr slots \<longleftrightarrow>
          positional_first (x \<noteq> None) xs \<and> None \<notin> set (targets ps (i + 1) xs) \<and> distinct (targets ps (i + 1) xs) \<and>
          set (targets ps (i + 1) xs) \<inter> fst ` set ?al = {} \<and> slots = slots_of (length ps) (rev (zip (targets ps (i + 1) xs) as) @ ?al)"
        by (rule 4(1)[OF len]) (use inv False in auto)
      have first: "positional_first seen (x # xs) \<longleftrightarrow> positional_first (x \<noteq> None) xs" using False by (cases x) auto
      have "place_args nm ps l n i seen (zip (x # xs) (a # as)) (slots_of (length ps) al) = Inr slots \<longleftrightarrow>
          Some j \<notin> fst ` set al \<and> place_args nm ps l n (i + 1) (x \<noteq> None) (zip xs as) (slots_of (length ps) ?al) = Inr slots"
        using False Some inv by (auto simp: place_args_step)
      then show ?thesis unfolding IH first using Some by auto
    qed
  qed
qed auto

lemma fill_defaults_exact:
  "length ss = length ps \<Longrightarrow> fill_defaults nm l ps ss = Inr xs \<longleftrightarrow>
     (\<forall>j < length ps. ss ! j \<noteq> None \<or> param_default (ps ! j) \<noteq> None) \<and>
     xs = map (\<lambda>j. case ss ! j of Some a \<Rightarrow> a | None \<Rightarrow> the (param_default (ps ! j))) [0..<length ps]"
proof (induction ps arbitrary: ss xs)
  case (Cons p ps)
  obtain s ss' where ss: "ss = s # ss'" "length ss' = length ps" using Cons.prems by (cases ss) auto
  have split: "(\<forall>j < length (p # ps). Q j) \<longleftrightarrow> Q 0 \<and> (\<forall>j < length ps. Q (Suc j))" for Q
    by (simp add: All_less_Suc2)
  have up: "map f [0..<length (p # ps)] = f 0 # map (\<lambda>j. f (Suc j)) [0..<length ps]" for f :: "nat \<Rightarrow> expr"
    by (simp add: map_upt_Suc del: upt_Suc)
  show ?case unfolding ss(1) split up using Cons.IH[OF ss(2)] by (auto split: option.splits)
qed auto

lemma map_of_rev_distinct: "distinct (map fst al) \<Longrightarrow> map_of (rev al) = map_of al"
proof
  fix k assume d: "distinct (map fst al)"
  then have d': "distinct (map fst (rev al))" by (simp add: rev_map[symmetric])
  show "map_of (rev al) k = map_of al k"
  proof (cases "map_of al k")
    case None
    then have "k \<notin> fst ` set (rev al)" by (simp add: map_of_eq_None_iff)
    then show ?thesis using None by (metis map_of_eq_None_iff)
  next
    case (Some v)
    then show ?thesis using d d' by (simp add: map_of_eq_Some_iff)
  qed
qed

lemma targets_none: "targets ps i (replicate k None) = map (\<lambda>j. if j < length ps then Some j else None) [i..<i + k]"
  by (induction k arbitrary: i) (simp_all add: target_def upt_conv_Cons)

lemma positional_none: "positional_first False (replicate k None)"
  by (induction k) simp_all

section \<open>Scopes and the names of locals\<close>

text \<open>A local of the function being checked, by the position in the list \<open>fn->locals\<close> from its end.\<close>

record local =
  lo_name :: string
  lo_type :: ty
  lo_is_param :: bool
  lo_region :: nat
  lo_cname :: string

text \<open>The scopes from the innermost outwards, each with its newest entry first; an entry names a local.\<close>

record scope_ctx =
  sc_mod :: nat
  sc_scopes :: "(string \<times> nat) list list"
  sc_locals :: "local list"
  local_counter :: nat

definition scope_push :: "scope_ctx \<Rightarrow> scope_ctx" where
  "scope_push c = c\<lparr>sc_scopes := [] # sc_scopes c\<rparr>"

definition scope_pop :: "scope_ctx \<Rightarrow> scope_ctx" where
  "scope_pop c = c\<lparr>sc_scopes := tl (sc_scopes c)\<rparr>"

fun scope_find :: "(string \<times> nat) list list \<Rightarrow> string \<Rightarrow> nat option" where
  "scope_find [] nm = None"
| "scope_find (s # ss) nm = (case map_of s nm of Some i \<Rightarrow> Some i | None \<Rightarrow> scope_find ss nm)"

definition is_const_decl :: "program \<Rightarrow> (nat \<times> nat) option \<Rightarrow> bool" where
  "is_const_decl P d = (const_at P d \<noteq> None)"

definition local_cname :: "bool \<Rightarrow> string \<Rightarrow> nat \<Rightarrow> string" where
  "local_cname is_param nm k = (if is_param then ''p_'' @ nm else ''l_'' @ nm @ ''_'' @ u64_text (of_nat k))"

definition define_local :: "program \<Rightarrow> string \<Rightarrow> ty \<Rightarrow> bool \<Rightarrow> loc \<Rightarrow> scope_ctx \<Rightarrow> (nat \<times> scope_ctx) walk" where
  "define_local P nm t is_param l c =
     (case sc_scopes c of
        [] \<Rightarrow> Some (Inl Undefined)
      | s # ss \<Rightarrow>
          if nm \<in> fst ` set s then Some (Inl (FatalAt l (''duplicate name '' @ quoted nm @ '' in this scope'')))
          else Option.bind (mod_lookup P {} (sc_mod c) nm) (\<lambda>d.
               if is_const_decl P d then Some (Inl (FatalAt l (''cannot shadow constant '' @ quoted nm)))
               else let k = (if is_param then local_counter c else local_counter c + 1);
                        i = length (sc_locals c)
                    in Some (Inr (i, c\<lparr>sc_locals := sc_locals c @ [\<lparr>lo_name = nm, lo_type = t, lo_is_param = is_param, lo_region = 0,
                                                                   lo_cname = local_cname is_param nm k\<rparr>],
                                       sc_scopes := ((nm, i) # s) # ss, local_counter := k\<rparr>))))"

text \<open>The locals behind a loop over an object with \<open>len\<close> and \<open>at\<close>; their names cannot be written in a source.\<close>

definition hidden_local :: "program \<Rightarrow> string \<Rightarrow> ty \<Rightarrow> string \<Rightarrow> loc \<Rightarrow> scope_ctx \<Rightarrow> (nat \<times> scope_ctx) walk" where
  "hidden_local P nm t pfx l c =
     bind_walk (define_local P nm t False l c) (\<lambda>(i, c).
       let k = local_counter c + 1
       in Some (Inr (i, c\<lparr>sc_locals := (sc_locals c)[i := (sc_locals c ! i)\<lparr>lo_cname := pfx @ u64_text (of_nat k)\<rparr>], local_counter := k\<rparr>)))"

section \<open>Arena values\<close>

text \<open>What the checker has recorded at the nodes of an expression: the region of a \<open>new\<close>, the region of the local an identifier
  stands for, if it is one, and the type.\<close>

record node_notes =
  an_new :: "expr \<Rightarrow> nat"
  an_local :: "expr \<Rightarrow> nat option"
  an_type :: "expr \<Rightarrow> ty"

fun region_of :: "node_notes \<Rightarrow> expr \<Rightarrow> nat" where
  "region_of A (EX_NEW l r m c tys as ns) = an_new A (EX_NEW l r m c tys as ns)"
| "region_of A (EX_IDENT l nm) = (case an_local A (EX_IDENT l nm) of Some r \<Rightarrow> r | None \<Rightarrow> 0)"
| "region_of A (EX_MEMBER l e nm) = region_of A e"
| "region_of A (EX_INDEX l e i) = region_of A e"
| "region_of A (EX_AS l e t) = region_of A e"
| "region_of A _ = 0"

definition region_check_store :: "node_notes \<Rightarrow> region_ctx \<Rightarrow> nat \<Rightarrow> expr \<Rightarrow> string \<Rightarrow> unit walk" where
  "region_check_store A c loc_region rhs what =
     (if \<not> type_is_ref (an_type A rhs) then Some (Inr ())
      else Option.bind (region_outlives c (region_of A rhs) loc_region) (\<lambda>ok.
           if ok then Some (Inr ())
           else Some (Inl (FatalAt (expr_loc rhs) (''arena value would outlive its arena via '' @ what @
                  '' (it is freed when its arena block ends)'')))))"

fun is_null :: "expr \<Rightarrow> bool" where
  "is_null (EX_NULL l) = True"
| "is_null _ = False"

definition region_check_object_store :: "node_notes \<Rightarrow> nat \<Rightarrow> expr \<Rightarrow> string \<Rightarrow> unit cres" where
  "region_check_object_store A obj_region rhs what =
     (if is_null rhs then Inr ()
      else if obj_region \<noteq> 0 \<and> type_is_ref (an_type A rhs) \<and> region_of A rhs = 0
      then Inl (FatalAt (expr_loc rhs) (''cannot store a heap reference into an arena object via '' @ what @
             '' (it would leak when the arena is freed)''))
      else Inr ())"

section \<open>Switches\<close>

text \<open>The string behind a case value; \<open>is_const_ref\<close> tells whether the checker resolved an identifier to a constant.\<close>

definition case_str :: "program \<Rightarrow> nat \<Rightarrow> (expr \<Rightarrow> bool) \<Rightarrow> expr \<Rightarrow> string option option" where
  "case_str P m is_const_ref e =
     (case e of
        EX_STR l s \<Rightarrow> Some (Some s)
      | EX_IDENT l nm \<Rightarrow>
          if is_const_ref e
          then Option.bind (mod_lookup P {} m nm) (\<lambda>d.
                 case const_at P d of
                   Some (k, c) \<Rightarrow> (case c_init c of EX_STR l s \<Rightarrow> Some (Some s) | _ \<Rightarrow> Some None)
                 | None \<Rightarrow> Some None)
          else Some None
      | _ \<Rightarrow> Some None)"

text \<open>The values seen so far, with the state of the rest of the checker and of the constants.\<close>

record ('s, 'f) sw_state =
  sw_ints :: "i64 list"
  sw_strs :: "string list"
  sw_st :: 's
  sw_folds :: "'f folds"

definition str_case :: "program \<Rightarrow> nat \<Rightarrow> (expr \<Rightarrow> bool) \<Rightarrow> expr \<Rightarrow> ('s, 'f) sw_state \<Rightarrow> (expr \<times> ('s, 'f) sw_state) walk" where
  "str_case P m cr v s =
     Option.bind (case_str P m cr v) (\<lambda>r.
       case r of
         None \<Rightarrow> Some (Inl (FatalAt (expr_loc v) ''case value must be a string literal or a string constant''))
       | Some sv \<Rightarrow>
           if sv \<in> set (sw_strs s)
           then Some (Inl (FatalAt (expr_loc v) (''duplicate case value '' @ [CHR 0x22] @ takeWhile (\<lambda>ch. ch \<noteq> CHR 0x00) sv @ [CHR 0x22])))
           else Some (Inr (v, s\<lparr>sw_strs := sw_strs s @ [sv]\<rparr>)))"

text \<open>The value is folded and its node becomes the literal.\<close>

definition int_case :: "program \<Rightarrow> 'f doubles \<Rightarrow> nat \<Rightarrow> expr \<Rightarrow> ('s, 'f) sw_state \<Rightarrow> (expr \<times> ('s, 'f) sw_state) walk" where
  "int_case P F m v s =
     bind_walk (fold_const_expr P F ''case value'' m v (sw_folds s)) (\<lambda>(cv, folds).
       case cv of
         CInt i \<Rightarrow>
           if i \<in> set (sw_ints s) then Some (Inl (FatalAt (expr_loc v) (''duplicate case value '' @ i64_text i)))
           else Some (Inr (EX_INT (expr_loc v) i, s\<lparr>sw_ints := sw_ints s @ [i], sw_folds := folds\<rparr>))
       | _ \<Rightarrow> Some (Inl (FatalAt (expr_loc v) ''case value must be an integer constant'')))"

definition sw_value :: "program \<Rightarrow> 'f doubles \<Rightarrow> nat \<Rightarrow> (expr \<Rightarrow> bool) \<Rightarrow> 's checker \<Rightarrow> ty \<Rightarrow> expr \<Rightarrow> ('s, 'f) sw_state \<Rightarrow>
    (expr \<times> ('s, 'f) sw_state) walk" where
  "sw_value P F m cr chk t v s =
     bind_walk (Some (chk v (Some t) (sw_st s))) (\<lambda>(v, _, _, st).
       let s = s\<lparr>sw_st := st\<rparr>
       in if ty_kind t = TY_STRING then str_case P m cr v s else int_case P F m v s)"

fun walk_map :: "('x \<Rightarrow> 's \<Rightarrow> ('y \<times> 's) walk) \<Rightarrow> 'x list \<Rightarrow> 's \<Rightarrow> ('y list \<times> 's) walk" where
  "walk_map f [] s = Some (Inr ([], s))"
| "walk_map f (x # xs) s = bind_walk (f x s) (\<lambda>(y, s). bind_walk (walk_map f xs s) (\<lambda>(ys, s). Some (Inr (y # ys, s))))"

text \<open>One arm; whether a default was seen before it.\<close>

definition sw_arm :: "program \<Rightarrow> 'f doubles \<Rightarrow> nat \<Rightarrow> (expr \<Rightarrow> bool) \<Rightarrow> 's checker \<Rightarrow> (stmt list \<Rightarrow> 's \<Rightarrow> (stmt list \<times> 's) cres) \<Rightarrow> ty \<Rightarrow>
    switch_arm \<Rightarrow> bool \<times> ('s, 'f) sw_state \<Rightarrow> (switch_arm \<times> bool \<times> ('s, 'f) sw_state) walk" where
  "sw_arm P F m cr chk blk t arm = (\<lambda>(seen_default, s).
     case arm of SwitchArm l is_default values body \<Rightarrow>
       if is_default \<and> seen_default then Some (Inl (FatalAt l ''switch already has a default arm''))
       else bind_walk (walk_map (sw_value P F m cr chk t) values s) (\<lambda>(values, s).
            bind_walk (Some (blk body (sw_st s))) (\<lambda>(body, st).
            Some (Inr (SwitchArm l is_default values body, seen_default \<or> is_default, s\<lparr>sw_st := st\<rparr>)))))"

definition missing_variants :: "rvariant list \<Rightarrow> i64 list \<Rightarrow> rvariant list" where
  "missing_variants vs ints = filter (\<lambda>v. v_value v \<notin> set ints) vs"

definition missing_text :: "string \<Rightarrow> rvariant list \<Rightarrow> string" where
  "missing_text en ms =
     (let shown = take 8 ms
      in (case shown of [] \<Rightarrow> [] | v # vs \<Rightarrow> en @ ''.'' @ v_name v @ concat (map (\<lambda>v. '', '' @ en @ ''.'' @ v_name v) vs)) @
         (if length ms > length shown then '', and '' @ u64_text (of_nat (length ms - length shown)) @ '' more'' else []))"

definition check_exhaustive :: "loc \<Rightarrow> string \<times> rvariant list \<Rightarrow> i64 list \<Rightarrow> unit cres" where
  "check_exhaustive l ed ints =
     (let ms = missing_variants (snd ed) ints
      in if ms = [] then Inr ()
         else Inl (FatalAt l (''switch on enum '' @ quoted (fst ed) @ '' does not handle '' @ missing_text (fst ed) ms @ '' '' @
                [CHR 0xE2, CHR 0x80, CHR 0x94] @ '' add the arm(s), or a '' @ quoted ''default'')))"

text \<open>\<open>enum\<close> gives the name and the resolved variants of an enum declaration. \<open>blk\<close> checks the body of an arm in a scope of its own. The
  result is the field \<open>switch_total\<close>, the expression and the arms as they are afterwards and the state.\<close>

definition check_switch :: "program \<Rightarrow> 'f doubles \<Rightarrow> decl_names \<Rightarrow> (nat \<Rightarrow> string \<times> rvariant list) \<Rightarrow> nat \<Rightarrow> (expr \<Rightarrow> bool) \<Rightarrow> 's checker \<Rightarrow>
    (stmt list \<Rightarrow> 's \<Rightarrow> (stmt list \<times> 's) cres) \<Rightarrow> loc \<Rightarrow> expr \<Rightarrow> switch_arm list \<Rightarrow> 's \<Rightarrow> 'f folds \<Rightarrow>
    (bool \<times> expr \<times> switch_arm list \<times> ('s, 'f) sw_state) walk" where
  "check_switch P F dn enum m cr chk blk l e arms st folds =
     bind_walk (Some (chk e None st)) (\<lambda>(e, t, _, st).
       if ty_kind t = TY_BOOL then Some (Inl (FatalAt (expr_loc e) ''switch on a bool: use if/else''))
       else if ty_kind t \<noteq> TY_STRING \<and> ty_kind t \<noteq> TY_ENUM \<and> \<not> type_is_int t
       then Some (Inl (FatalAt (expr_loc e) (''switch needs an int, a string or an enum (got '' @ type_str dn t @ '')'')))
       else if arms = [] then Some (Inl (FatalAt l ''switch has no arms''))
       else bind_walk (walk_map (sw_arm P F m cr chk blk t) arms (False, \<lparr>sw_ints = [], sw_strs = [], sw_st = st, sw_folds = folds\<rparr>))
         (\<lambda>(arms, seen_default, s).
            if ty_kind t = TY_ENUM \<and> \<not> seen_default
            then bind_walk (Some (check_exhaustive l (enum (the (ty_edecl t))) (sw_ints s))) (\<lambda>_. Some (Inr (True, e, arms, s)))
            else Some (Inr (False, e, arms, s))))"

section \<open>Facts on the checks\<close>

lemma slots_of_none: "replicate n None = slots_of n []"
  by (rule nth_equalityI) (simp_all add: slots_of_def)

lemma arg_for_slot:
  assumes "length labels = length args" "distinct (targets ps 0 labels)" "j < length ps"
  shows "(case slots_of (length ps) (rev (zip (targets ps 0 labels) args)) ! j of Some a \<Rightarrow> a | None \<Rightarrow> the (param_default (ps ! j))) =
    arg_for ps labels args j"
  using assms by (simp add: slots_of_nth arg_for_def map_of_rev_distinct)

lemma placed_and_filled:
  assumes len: "length labels = length args"
  shows "bind_res (place_args nm ps l n 0 False (zip labels args) (replicate (length ps) None)) (fill_defaults nm l ps) = Inr xs \<longleftrightarrow>
    well_called ps labels \<and> xs = map (arg_for ps labels args) [0..<length ps]"
proof -
  let ?T = "targets ps 0 labels"
  let ?S = "slots_of (length ps) (rev (zip ?T args))"
  have place: "place_args nm ps l n 0 False (zip labels args) (replicate (length ps) None) = Inr slots \<longleftrightarrow>
      positional_first False labels \<and> None \<notin> set ?T \<and> distinct ?T \<and> slots = ?S" for slots
    using place_args_exact[OF len, of False "[]" 0 nm ps l n slots] by (simp add: slots_of_none)
  have filled: "?S ! j \<noteq> None \<longleftrightarrow> Some j \<in> set ?T" if "j < length ps" "distinct ?T" for j
  proof -
    have keys: "map fst (zip ?T args) = ?T" using len by simp
    have "map_of (rev (zip ?T args)) = map_of (zip ?T args)" by (rule map_of_rev_distinct) (simp only: keys that(2))
    then have "?S ! j = map_of (zip ?T args) (Some j)" using slots_of_nth[OF that(1)] by simp
    then show ?thesis by (simp only: map_of_eq_None_iff flip: set_map) (simp only: keys not_not)
  qed
  have fill: "fill_defaults nm l ps ?S = Inr xs \<longleftrightarrow>
      (\<forall>j < length ps. Some j \<in> set ?T \<or> param_default (ps ! j) \<noteq> None) \<and> xs = map (arg_for ps labels args) [0..<length ps]" if "distinct ?T"
  proof -
    have "length ?S = length ps" by (simp add: slots_of_def)
    then have "fill_defaults nm l ps ?S = Inr xs \<longleftrightarrow>
        (\<forall>j < length ps. ?S ! j \<noteq> None \<or> param_default (ps ! j) \<noteq> None) \<and>
        xs = map (\<lambda>j. case ?S ! j of Some a \<Rightarrow> a | None \<Rightarrow> the (param_default (ps ! j))) [0..<length ps]"
      by (rule fill_defaults_exact)
    moreover have "map (\<lambda>j. case ?S ! j of Some a \<Rightarrow> a | None \<Rightarrow> the (param_default (ps ! j))) [0..<length ps] =
        map (arg_for ps labels args) [0..<length ps]"
      by (rule map_cong[OF refl]) (simp add: arg_for_slot[OF len that])
    moreover have "(\<forall>j < length ps. ?S ! j \<noteq> None \<or> param_default (ps ! j) \<noteq> None) \<longleftrightarrow>
        (\<forall>j < length ps. Some j \<in> set ?T \<or> param_default (ps ! j) \<noteq> None)"
      using filled[OF _ that] by blast
    ultimately show ?thesis by simp
  qed
  show ?thesis unfolding bind_res_eq_Inr place well_called_def using fill by blast
qed

lemma exact_positional:
  assumes "length args = length ps"
  shows "well_called ps (replicate (length args) None) \<and> map (arg_for ps (replicate (length args) None) args) [0..<length ps] = args"
proof -
  let ?L = "replicate (length args) None"
  have T: "targets ps 0 ?L = map Some [0..<length ps]" using targets_none[of ps 0 "length args"] assms by simp
  have d: "distinct (targets ps 0 ?L)" unfolding T by (simp add: distinct_map)
  have "arg_for ps ?L args j = args ! j" if "j < length ps" for j
  proof -
    have "(Some j, args ! j) \<in> set (zip (targets ps 0 ?L) args)"
      unfolding T in_set_zip using that assms by (intro exI[of _ j]) simp
    then have "map_of (zip (targets ps 0 ?L) args) (Some j) = Some (args ! j)" using d by simp
    then show ?thesis by (simp add: arg_for_def)
  qed
  then have "map (arg_for ps ?L args) [0..<length ps] = args" using assms by (intro nth_equalityI) simp_all
  moreover have "well_called ps ?L" unfolding well_called_def T using d positional_none unfolding T by auto
  ultimately show ?thesis by blast
qed

lemma too_many_positional: "length ps < k \<Longrightarrow> \<not> well_called ps (replicate k None)"
proof -
  assume k: "length ps < k"
  have "None \<in> set (targets ps 0 (replicate k None))" unfolding targets_none using k by (auto intro!: image_eqI[of _ _ "length ps"])
  then show ?thesis by (simp add: well_called_def)
qed

text \<open>Regions: the enclosing regions of an enclosing region enclose too.\<close>

lemma region_path_tail: "region_path p b js \<Longrightarrow> a \<in> set js \<Longrightarrow> \<exists>ks. region_path p a ks \<and> set ks \<subseteq> set js"
proof (induction js arbitrary: b)
  case (Cons i js)
  show ?case
  proof (cases "a = i")
    case True
    then have "region_path p a (i # js)" using Cons.prems by simp
    then show ?thesis by (intro exI[of _ "i # js"]) simp
  next
    case False
    then obtain ks where "region_path p a ks" "set ks \<subseteq> set js" using Cons.IH[of "p i"] Cons.prems by auto
    then show ?thesis by (intro exI[of _ ks]) auto
  qed
qed simp

lemma outlives_up:
  assumes "region_inv c" "region_outlives c a b = Some True" "region_outlives c r a = Some True" "r \<noteq> 0"
  shows "region_outlives c r b = Some True"
proof -
  have "\<forall>i. 0 < i \<longrightarrow> region_parent c i < i" using assms(1) unfolding region_inv_def by blast
  from region_outlives_path[OF this, of b] obtain js where b: "region_path (region_parent c) b js" by blast
  show ?thesis
  proof (cases "a = 0")
    case True
    then show ?thesis using assms(3,4) region_outlives_from_path[of "region_parent c" 0 "[]" r] by (simp add: region_outlives_def)
  next
    case False
    then have "a \<in> set js" using assms(2) region_outlives_from_path[OF b, of a] by (simp add: region_outlives_def)
    then obtain ks where k: "region_path (region_parent c) a ks" "set ks \<subseteq> set js" using region_path_tail[OF b] by blast
    have "r \<in> set ks" using assms(3,4) region_outlives_from_path[OF k(1), of r] by (simp add: region_outlives_def)
    then have "r \<in> set js" using k(2) by blast
    then show ?thesis using assms(4) region_outlives_from_path[OF b, of r] by (simp add: region_outlives_def)
  qed
qed

lemma region_path_ancestor:
  assumes "region_path p b js" "a \<noteq> 0"
  shows "a \<in> set js \<longleftrightarrow> (\<lambda>x y. x \<noteq> 0 \<and> y = p x)\<^sup>*\<^sup>* b a"
  using assms(1)
proof (induction js arbitrary: b)
  case Nil
  then show ?case using assms(2) by (auto elim: converse_rtranclpE)
next
  case (Cons i js)
  then have b: "b = i" "i \<noteq> 0" "region_path p (p i) js" by auto
  show ?case unfolding b(1) using Cons.IH[OF b(3)] b(2) by (auto elim: converse_rtranclpE intro: converse_rtranclp_into_rtranclp)
qed

lemma region_outlives_ancestor:
  assumes "region_inv c" "a \<noteq> 0"
  shows "region_outlives c a b = Some ((\<lambda>x y. x \<noteq> 0 \<and> y = region_parent c x)\<^sup>*\<^sup>* b a)"
proof -
  have "\<forall>i. 0 < i \<longrightarrow> region_parent c i < i" using assms(1) unfolding region_inv_def by blast
  from region_outlives_path[OF this, of b] obtain js where b: "region_path (region_parent c) b js" by blast
  then show ?thesis using region_outlives_from_path[OF b] region_path_ancestor[OF b assms(2)] assms(2) by (simp add: region_outlives_def)
qed

text \<open>What a walk over a list keeps.\<close>

lemma walk_map_keeps:
  assumes "\<And>xs ys x s y s'. I xs ys s \<Longrightarrow> f x s = Some (Inr (y, s')) \<Longrightarrow> I (xs @ [x]) (ys @ [y]) s'"
  shows "walk_map f xs s = Some (Inr (ys, s')) \<Longrightarrow> I xs0 ys0 s \<Longrightarrow> I (xs0 @ xs) (ys0 @ ys) s'"
proof (induction xs arbitrary: s xs0 ys0 ys)
  case (Cons x xs)
  obtain y s1 ys1 where w: "f x s = Some (Inr (y, s1))" "walk_map f xs s1 = Some (Inr (ys1, s'))" "ys = y # ys1" using Cons.prems(1) by auto
  show ?case using Cons.IH[OF w(2) assms[OF Cons.prems(2) w(1)]] unfolding w(3) by simp
qed simp

definition checked_as :: "'s checker \<Rightarrow> ty \<Rightarrow> expr \<Rightarrow> expr \<Rightarrow> bool" where
  "checked_as chk t v v' \<longleftrightarrow> (\<exists>st t' r st'. chk v (Some t) st = Inr (v', t', r, st'))"

definition is_int_case :: "program \<Rightarrow> 'f doubles \<Rightarrow> nat \<Rightarrow> 's checker \<Rightarrow> ty \<Rightarrow> expr \<Rightarrow> i64 \<Rightarrow> bool" where
  "is_int_case P F m chk t v i \<longleftrightarrow> (\<exists>v' f f'. checked_as chk t v v' \<and> fold_const_expr P F ''case value'' m v' f = Some (Inr (CInt i, f')))"

definition is_str_case :: "program \<Rightarrow> nat \<Rightarrow> (expr \<Rightarrow> bool) \<Rightarrow> 's checker \<Rightarrow> ty \<Rightarrow> expr \<Rightarrow> string \<Rightarrow> bool" where
  "is_str_case P m cr chk t v sv \<longleftrightarrow> (\<exists>v'. checked_as chk t v v' \<and> case_str P m cr v' = Some (Some sv))"

text \<open>The values recorded are those of the case expressions, in order and pairwise different, and integers have replaced them as literals.\<close>

definition sw_ok :: "program \<Rightarrow> 'f doubles \<Rightarrow> nat \<Rightarrow> (expr \<Rightarrow> bool) \<Rightarrow> 's checker \<Rightarrow> ty \<Rightarrow> expr list \<Rightarrow> expr list \<Rightarrow> ('s, 'f) sw_state \<Rightarrow> bool" where
  "sw_ok P F m cr chk t vs vs' s \<longleftrightarrow> distinct (sw_ints s) \<and> distinct (sw_strs s) \<and>
     (if ty_kind t = TY_STRING
      then sw_ints s = [] \<and> list_all2 (is_str_case P m cr chk t) vs (sw_strs s) \<and> list_all2 (\<lambda>v sv. case_str P m cr v = Some (Some sv)) vs' (sw_strs s)
      else sw_strs s = [] \<and> list_all2 (is_int_case P F m chk t) vs (sw_ints s) \<and> list_all2 (\<lambda>v i. \<exists>l. v = EX_INT l i) vs' (sw_ints s))"

lemma str_case_ok:
  assumes "str_case P m cr v s = Some (Inr (v', s'))"
  shows "\<exists>sv. case_str P m cr v = Some (Some sv) \<and> sv \<notin> set (sw_strs s) \<and> v' = v \<and> s' = s\<lparr>sw_strs := sw_strs s @ [sv]\<rparr>"
  using assms by (auto simp: str_case_def bind_eq_Some_conv split: if_splits option.splits)

lemma int_case_ok:
  assumes "int_case P F m v s = Some (Inr (v', s'))"
  shows "\<exists>i f. fold_const_expr P F ''case value'' m v (sw_folds s) = Some (Inr (CInt i, f)) \<and> i \<notin> set (sw_ints s) \<and>
    v' = EX_INT (expr_loc v) i \<and> s' = s\<lparr>sw_ints := sw_ints s @ [i], sw_folds := f\<rparr>"
proof -
  obtain cv f where r: "fold_const_expr P F ''case value'' m v (sw_folds s) = Some (Inr (cv, f))" using assms by (auto simp: int_case_def)
  then show ?thesis using assms by (cases cv) (auto simp: int_case_def bind_walk_def split: if_splits)
qed

lemma sw_value_keeps:
  assumes "sw_ok P F m cr chk t vs vs' s" "sw_value P F m cr chk t v s = Some (Inr (v', s'))"
  shows "sw_ok P F m cr chk t (vs @ [v]) (vs' @ [v']) s'"
proof -
  obtain w t' r st where chk: "chk v (Some t) (sw_st s) = Inr (w, t', r, st)" using assms(2) by (auto simp: sw_value_def)
  then have as: "checked_as chk t v w" unfolding checked_as_def by blast
  show ?thesis
  proof (cases "ty_kind t = TY_STRING")
    case True
    then have "str_case P m cr w (s\<lparr>sw_st := st\<rparr>) = Some (Inr (v', s'))" using assms(2) chk by (simp add: sw_value_def Let_def)
    from str_case_ok[OF this] obtain sv where sv: "case_str P m cr w = Some (Some sv)" "sv \<notin> set (sw_strs s)" "v' = w"
      "s' = s\<lparr>sw_st := st, sw_strs := sw_strs s @ [sv]\<rparr>" by auto
    have "is_str_case P m cr chk t v sv" using as sv(1) unfolding is_str_case_def by blast
    then show ?thesis using assms(1) True sv by (auto simp: sw_ok_def list_all2_appendI)
  next
    case False
    then have "int_case P F m w (s\<lparr>sw_st := st\<rparr>) = Some (Inr (v', s'))" using assms(2) chk by (simp add: sw_value_def Let_def)
    from int_case_ok[OF this] obtain i f where i: "fold_const_expr P F ''case value'' m w (sw_folds s) = Some (Inr (CInt i, f))"
      "i \<notin> set (sw_ints s)" "v' = EX_INT (expr_loc w) i" "s' = s\<lparr>sw_st := st, sw_ints := sw_ints s @ [i], sw_folds := f\<rparr>" by auto
    have "is_int_case P F m chk t v i" using as i(1) unfolding is_int_case_def by blast
    then show ?thesis using assms(1) False i by (auto simp: sw_ok_def list_all2_appendI)
  qed
qed

fun arm_cases :: "switch_arm \<Rightarrow> expr list" where
  "arm_cases (SwitchArm l d vs body) = vs"

definition all_cases :: "switch_arm list \<Rightarrow> expr list" where
  "all_cases arms = concat (map arm_cases arms)"

definition arms_ok :: "program \<Rightarrow> 'f doubles \<Rightarrow> nat \<Rightarrow> (expr \<Rightarrow> bool) \<Rightarrow> 's checker \<Rightarrow> ty \<Rightarrow> switch_arm list \<Rightarrow> switch_arm list \<Rightarrow>
    bool \<times> ('s, 'f) sw_state \<Rightarrow> bool" where
  "arms_ok P F m cr chk t arms arms' = (\<lambda>(d, s). sw_ok P F m cr chk t (all_cases arms) (all_cases arms') s \<and>
     length (filter arm_default arms) = (if d then 1 else 0) \<and> map arm_default arms' = map arm_default arms)"

lemma sw_arm_keeps:
  assumes "arms_ok P F m cr chk t arms arms' q" "sw_arm P F m cr chk blk t arm q = Some (Inr (arm', q'))"
  shows "arms_ok P F m cr chk t (arms @ [arm]) (arms' @ [arm']) q'"
proof -
  obtain d s where q: "q = (d, s)" by (cases q)
  obtain l df vs body where arm: "arm = SwitchArm l df vs body" by (cases arm)
  obtain vs' s1 st body' where w: "walk_map (sw_value P F m cr chk t) vs s = Some (Inr (vs', s1))" "\<not> (df \<and> d)"
    "arm' = SwitchArm l df vs' body'" "q' = (d \<or> df, s1\<lparr>sw_st := st\<rparr>)"
    using assms(2) unfolding q arm by (auto simp: sw_arm_def split: if_splits)
  have before: "sw_ok P F m cr chk t (all_cases arms) (all_cases arms') s" using assms(1) by (simp add: q arms_ok_def)
  have "sw_ok P F m cr chk t (all_cases arms @ vs) (all_cases arms' @ vs') s1"
    by (rule walk_map_keeps[where I = "sw_ok P F m cr chk t", OF _ w(1) before]) (rule sw_value_keeps)
  then show ?thesis using assms(1) w(2) unfolding w(3,4) q arm by (auto simp: arms_ok_def sw_ok_def all_cases_def)
qed

lemma sw_arms_keep:
  assumes "walk_map (sw_arm P F m cr chk blk t) arms (False, \<lparr>sw_ints = [], sw_strs = [], sw_st = st, sw_folds = folds\<rparr>) = Some (Inr (arms', q))"
  shows "arms_ok P F m cr chk t arms arms' q"
proof -
  have before: "arms_ok P F m cr chk t [] [] (False, \<lparr>sw_ints = [], sw_strs = [], sw_st = st, sw_folds = folds\<rparr>)" by (simp add: arms_ok_def sw_ok_def all_cases_def)
  have "arms_ok P F m cr chk t ([] @ arms) ([] @ arms') q"
    by (rule walk_map_keeps[where I = "arms_ok P F m cr chk t", OF _ assms before]) (rule sw_arm_keeps)
  then show ?thesis by simp
qed

text \<open>What the checker does with scopes while it checks a function.\<close>

inductive scope_run :: "program \<Rightarrow> scope_ctx \<Rightarrow> bool" for P where
  start: "scope_run P \<lparr>sc_mod = m, sc_scopes = [[]], sc_locals = [], local_counter = 0\<rparr>"
| push: "scope_run P c \<Longrightarrow> scope_run P (scope_push c)"
| pop: "scope_run P c \<Longrightarrow> scope_run P (scope_pop c)"
| local: "scope_run P c \<Longrightarrow> define_local P nm t is_param l c = Some (Inr (i, c')) \<Longrightarrow> scope_run P c'"
| hidden: "scope_run P c \<Longrightarrow> hidden_local P nm t pfx l c = Some (Inr (i, c')) \<Longrightarrow> pfx \<in> {''_fc'', ''_fi''} \<Longrightarrow> scope_run P c'"

definition own_locals :: "scope_ctx \<Rightarrow> local list" where
  "own_locals c = filter (\<lambda>l. \<not> lo_is_param l) (sc_locals c)"

text \<open>The number in the C name of a local.\<close>

definition numbered :: "local \<Rightarrow> nat \<Rightarrow> bool" where
  "numbered l k \<longleftrightarrow> lo_cname l = local_cname False (lo_name l) k \<or> lo_cname l \<in> {''_fc'' @ u64_text (of_nat k), ''_fi'' @ u64_text (of_nat k)}"

definition scope_inv :: "scope_ctx \<Rightarrow> bool" where
  "scope_inv c \<longleftrightarrow>
     (\<exists>ks. list_all2 numbered (own_locals c) ks \<and> sorted_wrt (<) ks \<and> (\<forall>k \<in> set ks. k \<le> local_counter c)) \<and>
     (\<forall>l \<in> set (sc_locals c). lo_is_param l \<longrightarrow> lo_cname l = local_cname True (lo_name l) 0) \<and>
     (\<forall>s \<in> set (sc_scopes c). \<forall>(nm, i) \<in> set s. i < length (sc_locals c) \<and> lo_name (sc_locals c ! i) = nm)"

lemma add_local_inv:
  assumes "scope_inv c" "sc_scopes c = s # ss" "lo_name new = nm" "local_counter c \<le> k'"
    "lo_is_param new \<Longrightarrow> lo_cname new = local_cname True nm 0" "\<not> lo_is_param new \<Longrightarrow> numbered new k \<and> local_counter c < k \<and> k \<le> k'"
  shows "scope_inv (c\<lparr>sc_locals := sc_locals c @ [new], sc_scopes := ((nm, length (sc_locals c)) # s) # ss, local_counter := k'\<rparr>)" (is "scope_inv ?c")
proof -
  obtain ks where ks: "list_all2 numbered (own_locals c) ks" "sorted_wrt (<) ks" "\<forall>k \<in> set ks. k \<le> local_counter c"
    using assms(1) unfolding scope_inv_def by blast
  have "\<exists>ks. list_all2 numbered (own_locals ?c) ks \<and> sorted_wrt (<) ks \<and> (\<forall>k \<in> set ks. k \<le> local_counter ?c)"
  proof (cases "lo_is_param new")
    case True
    then show ?thesis using ks assms(4) by (intro exI[of _ ks]) (auto simp: own_locals_def)
  next
    case False
    have "list_all2 numbered (own_locals ?c) (ks @ [k])"
      using ks(1) assms(6)[OF False] False by (simp add: own_locals_def list_all2_appendI)
    moreover have "sorted_wrt (<) (ks @ [k])" using ks(2,3) assms(6)[OF False] by (auto simp: sorted_wrt_append)
    ultimately show ?thesis using ks(3) assms(4) assms(6)[OF False] by (intro exI[of _ "ks @ [k]"]) auto
  qed
  moreover have "\<forall>s \<in> set (sc_scopes ?c). \<forall>(nm, i) \<in> set s. i < length (sc_locals ?c) \<and> lo_name (sc_locals ?c ! i) = nm"
    using assms(1,3) unfolding scope_inv_def assms(2) by (fastforce simp: nth_append)
  ultimately show ?thesis using assms(1,3,5) unfolding scope_inv_def by simp
qed

lemma define_local_ok:
  assumes "define_local P nm t is_param l c = Some (Inr (i, c'))"
  obtains s ss k where "sc_scopes c = s # ss" "nm \<notin> fst ` set s" "i = length (sc_locals c)"
    "k = (if is_param then local_counter c else local_counter c + 1)"
    "c' = c\<lparr>sc_locals := sc_locals c @ [\<lparr>lo_name = nm, lo_type = t, lo_is_param = is_param, lo_region = 0, lo_cname = local_cname is_param nm k\<rparr>],
            sc_scopes := ((nm, i) # s) # ss, local_counter := k\<rparr>"
  using assms by (auto simp: define_local_def bind_eq_Some_conv Let_def split: list.splits if_splits)

lemma define_local_inv:
  assumes "scope_inv c" "define_local P nm t is_param l c = Some (Inr (i, c'))"
  shows "scope_inv c'"
  by (rule define_local_ok[OF assms(2)], simp only:)
    (rule add_local_inv[OF assms(1), where k = "local_counter c + 1"], auto simp: numbered_def local_cname_def)

lemma hidden_local_inv:
  assumes "scope_inv c" "hidden_local P nm t pfx l c = Some (Inr (i, c'))" "pfx \<in> {''_fc'', ''_fi''}"
  shows "scope_inv c'"
proof -
  obtain c1 where c1: "define_local P nm t False l c = Some (Inr (i, c1))"
    "c' = c1\<lparr>sc_locals := (sc_locals c1)[i := (sc_locals c1 ! i)\<lparr>lo_cname := pfx @ u64_text (of_nat (local_counter c1 + 1))\<rparr>],
             local_counter := local_counter c1 + 1\<rparr>"
    using assms(2) by (auto simp: hidden_local_def Let_def)
  obtain s ss where d: "sc_scopes c = s # ss" "i = length (sc_locals c)"
    "c1 = c\<lparr>sc_locals := sc_locals c @ [\<lparr>lo_name = nm, lo_type = t, lo_is_param = False, lo_region = 0,
             lo_cname = local_cname False nm (local_counter c + 1)\<rparr>],
            sc_scopes := ((nm, i) # s) # ss, local_counter := local_counter c + 1\<rparr>"
    by (rule define_local_ok[OF c1(1)]) simp
  let ?new = "\<lparr>lo_name = nm, lo_type = t, lo_is_param = False, lo_region = 0, lo_cname = pfx @ u64_text (of_nat (local_counter c + 2))\<rparr>"
  have "c' = c\<lparr>sc_locals := sc_locals c @ [?new], sc_scopes := ((nm, length (sc_locals c)) # s) # ss, local_counter := local_counter c + 2\<rparr>"
    unfolding c1(2) d(3) d(2) by simp
  moreover have "numbered ?new (local_counter c + 2)" using assms(3) unfolding numbered_def by auto
  ultimately show ?thesis using add_local_inv[OF assms(1) d(1), of ?new nm "local_counter c + 2" "local_counter c + 2"] by simp
qed

lemma scope_run_inv: "scope_run P c \<Longrightarrow> scope_inv c"
proof (induction rule: scope_run.induct)
  case (pop c)
  then show ?case by (cases "sc_scopes c") (auto simp: scope_inv_def scope_pop_def own_locals_def)
next
  case (local c nm t is_param l i c')
  then show ?case using define_local_inv by blast
next
  case (hidden c nm t pfx l i c')
  then show ?case using hidden_local_inv by blast
qed (auto simp: scope_inv_def scope_push_def own_locals_def)

text \<open>The number is what follows the last underscore, or the prefix.\<close>

lemma number_unique: "u64_text (of_nat j) = u64_text (of_nat k) \<Longrightarrow> j < 2 ^ 31 \<Longrightarrow> k < 2 ^ 31 \<Longrightarrow> j = k"
proof -
  assume "u64_text (of_nat j) = u64_text (of_nat k)" and less: "j < 2 ^ 31" "k < 2 ^ 31"
  then have "unat (of_nat j :: u64) = unat (of_nat k :: u64)" by (metis u64_text_val)
  then show ?thesis using less by (simp add: unat_of_nat)
qed

lemma local_cname_number:
  assumes "local_cname False a j = local_cname False b k"
  shows "u64_text (of_nat j) = u64_text (of_nat k)"
proof -
  have tail: "takeWhile (\<lambda>ch. ch \<noteq> CHR ''_'') (rev (''l_'' @ x @ ''_'' @ u64_text v)) = rev (u64_text v)" for x v
    using u64_text_digits(2)[of v] by (subst rev_append, subst rev_append) (auto simp: takeWhile_tail is_digit_def)
  show ?thesis using assms tail[of a "of_nat j"] tail[of b "of_nat k"] unfolding local_cname_def by simp
qed

lemma not_hidden: "local_cname False a j \<noteq> CHR ''_'' # x"
  by (simp add: local_cname_def)

lemma numbered_not_param: "numbered l k \<Longrightarrow> lo_cname l \<noteq> local_cname True nm j"
  unfolding numbered_def by (elim disjE insertE) (simp_all add: local_cname_def)

lemma numbered_unique:
  assumes "numbered l j" "numbered l' k" "lo_cname l = lo_cname l'" "j < 2 ^ 31" "k < 2 ^ 31"
  shows "j = k"
proof -
  have "u64_text (of_nat j) = u64_text (of_nat k)"
    using assms(1-3) local_cname_number[of "lo_name l" j "lo_name l'" k] unfolding numbered_def
    by (elim disjE insertE) (simp_all add: not_hidden not_hidden[symmetric])
  then show ?thesis using number_unique assms(4,5) by blast
qed

lemma own_names_distinct:
  assumes "scope_inv c" "local_counter c < 2 ^ 31"
  shows "distinct (map lo_cname (own_locals c))"
proof -
  obtain ks where ks: "list_all2 numbered (own_locals c) ks" "sorted_wrt (<) ks" "\<forall>k \<in> set ks. k \<le> local_counter c"
    using assms(1) unfolding scope_inv_def by blast
  have "distinct ks" using ks(2) by (simp add: strict_sorted_iff)
  show ?thesis unfolding distinct_conv_nth
  proof (intro allI impI notI)
    fix i j assume ij: "i < length (map lo_cname (own_locals c))" "j < length (map lo_cname (own_locals c))" "i \<noteq> j"
      "map lo_cname (own_locals c) ! i = map lo_cname (own_locals c) ! j"
    then have n: "numbered (own_locals c ! i) (ks ! i)" "numbered (own_locals c ! j) (ks ! j)" "i < length ks" "j < length ks"
      using ks(1) by (auto simp: list_all2_conv_all_nth)
    have "ks ! i \<le> local_counter c" "ks ! j \<le> local_counter c" using ks(3) nth_mem[OF n(3)] nth_mem[OF n(4)] by blast+
    then have "ks ! i < 2 ^ 31" "ks ! j < 2 ^ 31" using assms(2) by (blast intro: le_less_trans)+
    then have "ks ! i = ks ! j" using numbered_unique[OF n(1,2)] ij by simp
    then show False using \<open>distinct ks\<close> ij(3) n(3,4) by (simp add: nth_eq_iff_index_eq)
  qed
qed

lemma scope_find_named: "scope_find ss nm = Some i \<Longrightarrow> \<exists>s \<in> set ss. (nm, i) \<in> set s"
  by (induction ss) (auto split: option.splits dest: map_of_SomeD)

section \<open>Properties\<close>

text \<open>C29: Arguments reach their parameters. \<open>check_args_against\<close> accepts a list of arguments exactly when no positional argument
  follows a labelled one, every argument has a parameter, no parameter gets two and one that gets none has a default value; the
  list it puts in the call then has, for each parameter in order, the argument given for it or else its default.\<close>

theorem call_args_exact:
  assumes "pred_option (\<lambda>ls. length ls = length args) names"
  shows "call_args nm l ps names args = Inr xs \<longleftrightarrow>
    well_called ps (labels_of names args) \<and> xs = map (arg_for ps (labels_of names args) args) [0..<length ps]"
proof (cases "names \<noteq> None \<or> length args < length ps")
  case True
  have "length (labels_of names args) = length args" using assms by (cases names) (auto simp: labels_of_def)
  then show ?thesis using True placed_and_filled by (simp add: call_args_def)
next
  case False
  then have L: "labels_of names args = replicate (length args) None" by (simp add: labels_of_def)
  show ?thesis
  proof (cases "length args = length ps")
    case True
    then show ?thesis using False exact_positional[OF True] unfolding L by (auto simp: call_args_def)
  next
    case False': False
    then show ?thesis using False too_many_positional[of ps "length args"] unfolding L by (auto simp: call_args_def)
  qed
qed

theorem call_args_exact_witness:
  "let l = \<lparr>l_file = None, l_line = 1, l_col = 1\<rparr>; i = (\<lambda>k. EX_INT l k);
       ps = [Param ''a'' None l None, Param ''b'' None l (Some (i 7)), Param ''c'' None l (Some (i 8))]
   in pred_option (\<lambda>ls. length ls = length [i 1, i 2]) (Some [None, Some ''c'']) \<and>
      call_args ''f'' l ps (Some [None, Some ''c'']) [i 1, i 2] = Inr [i 1, i 7, i 2]"
proof -
  let ?l = "\<lparr>l_file = None, l_line = 1, l_col = 1\<rparr>"
  let ?ps = "[Param ''a'' None ?l None, Param ''b'' None ?l (Some (EX_INT ?l 7)), Param ''c'' None ?l (Some (EX_INT ?l 8))]"
  have names: "pred_option (\<lambda>ls. length ls = length [EX_INT ?l 1, EX_INT ?l 2]) (Some [None, Some ''c''])" by simp
  have T: "targets ?ps 0 [None, Some ''c''] = [Some 0, Some 2]" by (simp add: target_def param_index_def)
  have "\<forall>j < length ?ps. Some j \<in> set [Some 0, Some 2] \<or> param_default (?ps ! j) \<noteq> None"
    by (simp add: less_Suc_eq)
  then have "well_called ?ps [None, Some ''c'']" unfolding well_called_def T by simp
  moreover have "map (arg_for ?ps [None, Some ''c''] [EX_INT ?l 1, EX_INT ?l 2]) [0..<length ?ps] = [EX_INT ?l 1, EX_INT ?l 7, EX_INT ?l 2]"
    by (simp add: arg_for_def target_def param_index_def upt_rec)
  ultimately show ?thesis using call_args_exact[OF names, of "''f''" ?l ?ps] names by (simp add: labels_of_def Let_def)
qed

text \<open>Names mean what scoping says. In every state the checker reaches inside a function the C names of its own variables
  are pairwise different and differ from those of its parameters; a name that is found stands for a
  local of that name; and defining a name makes it stand for the new local, leaves the other names alone, and leaving the scope gives every name
  its old meaning.\<close>

theorem scoping_exact:
  assumes "scope_run P c" "local_counter c < 2 ^ 31"
  shows "distinct (map lo_cname (own_locals c)) \<and>
    (\<forall>l \<in> set (sc_locals c). lo_is_param l \<longrightarrow> lo_cname l \<notin> set (map lo_cname (own_locals c))) \<and>
    (scope_find (sc_scopes c) nm = Some i \<longrightarrow> i < length (sc_locals c) \<and> lo_name (sc_locals c ! i) = nm) \<and>
    (define_local P nm t is_param l c = Some (Inr (i, c')) \<longrightarrow>
       scope_find (sc_scopes c') nm = Some i \<and> (\<forall>other. other \<noteq> nm \<longrightarrow> scope_find (sc_scopes c') other = scope_find (sc_scopes c) other) \<and>
       sc_scopes (scope_pop c') = sc_scopes (scope_pop c))"
proof (intro conjI)
  note inv = scope_run_inv[OF assms(1)]
  show "distinct (map lo_cname (own_locals c))" using own_names_distinct[OF inv assms(2)] .
  have own: "\<exists>l' k. numbered l' k \<and> lo_cname l' = x" if x: "x \<in> set (map lo_cname (own_locals c))" for x
  proof -
    obtain l' where "l' \<in> set (own_locals c)" "lo_cname l' = x" using x by auto
    moreover obtain ks where "list_all2 numbered (own_locals c) ks" using inv unfolding scope_inv_def by blast
    ultimately show ?thesis unfolding list_all2_conv_all_nth in_set_conv_nth by blast
  qed
  have "\<forall>l \<in> set (sc_locals c). lo_is_param l \<longrightarrow> lo_cname l = local_cname True (lo_name l) 0" using inv unfolding scope_inv_def by blast
  then show "\<forall>l \<in> set (sc_locals c). lo_is_param l \<longrightarrow> lo_cname l \<notin> set (map lo_cname (own_locals c))"
    using own numbered_not_param by metis
  show "scope_find (sc_scopes c) nm = Some i \<longrightarrow> i < length (sc_locals c) \<and> lo_name (sc_locals c ! i) = nm"
    using inv scope_find_named[of "sc_scopes c" nm i] unfolding scope_inv_def by fastforce
  show "define_local P nm t is_param l c = Some (Inr (i, c')) \<longrightarrow>
       scope_find (sc_scopes c') nm = Some i \<and> (\<forall>other. other \<noteq> nm \<longrightarrow> scope_find (sc_scopes c') other = scope_find (sc_scopes c) other) \<and>
       sc_scopes (scope_pop c') = sc_scopes (scope_pop c)"
    by (auto elim!: define_local_ok simp: scope_pop_def)
qed

text \<open>Arena stores are safe. In a reachable state of the region tree the test of a store returns; it accepts a value
  exactly when it is no reference, is on the heap, or lives in the region of the location or one around it, so that it is freed no earlier than the location; and the test of a
  store into an object of an arena accepts a reference only from an arena, or \<open>null\<close>.\<close>

theorem arena_stores_safe:
  assumes "region_inv c"
  shows "(\<exists>r. region_check_store A c loc_region rhs what = Some r \<and>
      (r = Inr () \<longleftrightarrow> \<not> type_is_ref (an_type A rhs) \<or> region_of A rhs = 0 \<or>
        (\<lambda>x y. x \<noteq> 0 \<and> y = region_parent c x)\<^sup>*\<^sup>* loc_region (region_of A rhs))) \<and>
    (region_check_object_store A obj_region rhs what = Inr () \<longleftrightarrow>
      is_null rhs \<or> obj_region = 0 \<or> \<not> type_is_ref (an_type A rhs) \<or> region_of A rhs \<noteq> 0)"
proof (rule conjI)
  show "\<exists>r. region_check_store A c loc_region rhs what = Some r \<and>
      (r = Inr () \<longleftrightarrow> \<not> type_is_ref (an_type A rhs) \<or> region_of A rhs = 0 \<or>
        (\<lambda>x y. x \<noteq> 0 \<and> y = region_parent c x)\<^sup>*\<^sup>* loc_region (region_of A rhs))"
    using region_outlives_ancestor[OF assms, of "region_of A rhs" loc_region]
    by (cases "region_of A rhs = 0") (simp_all add: region_check_store_def region_outlives_def)
qed (auto simp: region_check_object_store_def)

text \<open>C30: Accepted switches are exhaustive and unambiguous. The case values of an accepted switch are constants, recorded in
  order and pairwise different, and the integers among them stand in the arms as literals afterwards; there is at most one default; and the switch is marked
  total exactly when it is on an enum and has no default, and then some case value of it is the value of each variant.\<close>

theorem switch_exhaustive:
  assumes "check_switch P F dn enum m cr chk blk l e arms st folds = Some (Inr (tot, e', arms', s))"
  shows "\<exists>t r st'. chk e None st = Inr (e', t, r, st') \<and> sw_ok P F m cr chk t (all_cases arms) (all_cases arms') s \<and>
    length (filter arm_default arms) \<le> 1 \<and> map arm_default arms' = map arm_default arms \<and>
    (tot \<longleftrightarrow> ty_kind t = TY_ENUM \<and> filter arm_default arms = []) \<and>
    (tot \<longrightarrow> (\<forall>v \<in> set (snd (enum (the (ty_edecl t)))). \<exists>e \<in> set (all_cases arms). is_int_case P F m chk t e (v_value v)))"
proof -
  obtain t r st' where chk: "chk e None st = Inr (e', t, r, st')" using assms by (auto simp: check_switch_def split: if_splits)
  obtain d where w: "walk_map (sw_arm P F m cr chk blk t) arms (False, \<lparr>sw_ints = [], sw_strs = [], sw_st = st', sw_folds = folds\<rparr>) =
      Some (Inr (arms', d, s))"
    and tot: "tot \<longleftrightarrow> ty_kind t = TY_ENUM \<and> \<not> d"
    and miss: "tot \<longrightarrow> missing_variants (snd (enum (the (ty_edecl t)))) (sw_ints s) = []"
    using assms chk by (auto simp: check_switch_def check_exhaustive_def Let_def split: if_splits)
  note ok = sw_arms_keep[OF w]
  have d: "d \<longleftrightarrow> filter arm_default arms \<noteq> []" using ok by (auto simp: arms_ok_def split: if_splits)
  have "\<exists>e \<in> set (all_cases arms). is_int_case P F m chk t e (v_value v)" if "tot" "v \<in> set (snd (enum (the (ty_edecl t))))" for v
  proof -
    have "v_value v \<in> set (sw_ints s)" using that miss by (auto simp: missing_variants_def filter_empty_conv)
    moreover have "list_all2 (is_int_case P F m chk t) (all_cases arms) (sw_ints s)" using ok that(1) tot by (simp add: arms_ok_def sw_ok_def)
    ultimately show ?thesis by (metis in_set_conv_nth list_all2_conv_all_nth nth_mem)
  qed
  then show ?thesis using chk ok tot d by (intro exI[of _ t] exI[of _ r] exI[of _ st']) (simp add: arms_ok_def)
qed

theorem switch_exhaustive_witness:
  "let t = Type TY_ENUM False False False None None [] (Some ''E'') sample_loc None None (Some 0);
       vs = [rvariant_of \<lparr>v_name = ''a'', v_init = None, v_loc = sample_loc\<rparr> 0 None, rvariant_of \<lparr>v_name = ''b'', v_init = None, v_loc = sample_loc\<rparr> 1 None];
       arms = [SwitchArm sample_loc False [EX_INT sample_loc 1, EX_INT sample_loc 0] []]
   in \<exists>s. check_switch sample_program sample_doubles \<lparr>sdecl_name = (\<lambda>_. []), cdecl_name = (\<lambda>_. []), edecl_name = (\<lambda>_. ''E'')\<rparr> (\<lambda>_. (''E'', vs)) 0 (\<lambda>_. False) (\<lambda>e _ st. Inr (e, t, 0, st)) (\<lambda>b st. Inr (b, st)) sample_loc
          (EX_IDENT sample_loc ''x'') arms () (\<lambda>_. Unfolded) = Some (Inr (True, EX_IDENT sample_loc ''x'', arms, s)) \<and>
        sw_ints s = [1, 0] \<and> (\<exists>e \<in> set (all_cases arms). is_int_case sample_program sample_doubles 0 (\<lambda>e _ (st::unit). Inr (e, t, 0, st)) t e 1)"
proof -
  let ?t = "Type TY_ENUM False False False None None [] (Some ''E'') sample_loc None None (Some 0)"
  let ?vs = "[rvariant_of \<lparr>v_name = ''a'', v_init = None, v_loc = sample_loc\<rparr> 0 None, rvariant_of \<lparr>v_name = ''b'', v_init = None, v_loc = sample_loc\<rparr> 1 None]"
  let ?arms = "[SwitchArm sample_loc False [EX_INT sample_loc 1, EX_INT sample_loc 0] []]"
  let ?s = "\<lparr>sw_ints = [1, 0], sw_strs = [], sw_st = (), sw_folds = (\<lambda>_. Unfolded)\<rparr>"
  have run: "check_switch sample_program sample_doubles \<lparr>sdecl_name = (\<lambda>_. []), cdecl_name = (\<lambda>_. []), edecl_name = (\<lambda>_. ''E'')\<rparr> (\<lambda>_. (''E'', ?vs)) 0 (\<lambda>_. False) (\<lambda>e _ st. Inr (e, ?t, 0, st)) (\<lambda>b st. Inr (b, st)) sample_loc
      (EX_IDENT sample_loc ''x'') ?arms () (\<lambda>_. Unfolded) = Some (Inr (True, EX_IDENT sample_loc ''x'', ?arms, ?s))"
    by (simp add: check_switch_def sw_arm_def sw_value_def int_case_def fold_const_expr.simps[of _ _ _ _ "EX_INT _ _"] bind_walk_def
        check_exhaustive_def missing_variants_def rvariant_of_def)
  have "\<exists>e \<in> set (all_cases ?arms). is_int_case sample_program sample_doubles 0 (\<lambda>e _ (st::unit). Inr (e, ?t, 0, st)) ?t e 1"
    using switch_exhaustive[OF run] by (simp add: rvariant_of_def)
  then show ?thesis using run unfolding Let_def by (intro exI[of _ ?s]) (simp only: sw_state.simps simp_thms)
qed

end
