(* ===== verification/Vt_Pool.thy ===== *)
theory Vt_Pool
  imports Vt_Prelude
begin

text \<open>
  The pool allocator under the runtime's host hooks (\<open>runtime/vyto_rt.c\<close>, \<open>pool_class_of\<close>, \<open>vt_host_alloc\<close>,
  \<open>vt_host_free\<close>, \<open>vt_host_realloc\<close>): small requests are served from slots of ten size classes carved out of chunks,
  with a free list threaded through the slots; large ones go to the C library. Addresses are
  natural numbers. Memory is the word at the start of each block, which holds the header or the link of
  the free list, and the bytes of the payloads. The state has the blocks the C library has handed out;
  what \<open>calloc\<close> and \<open>realloc\<close> return is an argument, and the documented behaviour of the library a
  hypothesis: a block it returns is not null, lies in the address space and overlaps no other.
\<close>

unbundle bit_operations_syntax

section \<open>State and operations\<close>

record pool_class =
  freelist :: nat
  bump :: nat
  bend :: nat

record pool =
  word0 :: "nat \<Rightarrow> u64"
  bytes :: "nat \<Rightarrow> 8 word"
  g_pool :: "nat \<Rightarrow> pool_class"
  libc :: "nat \<rightharpoonup> nat"

definition VT_HDR :: nat where "VT_HDR = 8"

definition VT_CHUNK :: nat where "VT_CHUNK = 65536"

definition VT_LARGE_TAG :: u64 where "VT_LARGE_TAG = 0xFF"

definition pool_slot :: "nat list" where
  "pool_slot = [16, 32, 48, 64, 96, 128, 192, 256, 384, 512]"

definition VT_POOL_MAX :: nat where "VT_POOL_MAX = 512"

text \<open>The loop over the classes; \<open>None\<close> stands for -1.\<close>

fun class_from :: "nat list \<Rightarrow> nat \<Rightarrow> nat \<Rightarrow> nat option" where
  "class_from [] i tot = None"
| "class_from (s # ss) i tot = (if tot \<le> s then Some i else class_from ss (i + 1) tot)"

definition pool_class_of :: "nat \<Rightarrow> nat option" where
  "pool_class_of tot = class_from pool_slot 0 tot"

definition class_for :: "u64 \<Rightarrow> nat option" where
  "class_for tot = (if unat tot \<le> VT_POOL_MAX then pool_class_of (unat tot) else None)"

text \<open>\<open>memset(p, 0, k)\<close> on the bytes, and \<open>memcpy(d, s, k)\<close>.\<close>

definition zero_bytes :: "nat \<Rightarrow> nat \<Rightarrow> (nat \<Rightarrow> 8 word) \<Rightarrow> nat \<Rightarrow> 8 word" where
  "zero_bytes p k b = (\<lambda>x. if p \<le> x \<and> x < p + k then 0 else b x)"

definition copy_bytes :: "nat \<Rightarrow> nat \<Rightarrow> nat \<Rightarrow> (nat \<Rightarrow> 8 word) \<Rightarrow> nat \<Rightarrow> 8 word" where
  "copy_bytes d s k b = (\<lambda>x. if d \<le> x \<and> x < d + k then b (s + (x - d)) else b x)"

definition large_hdr :: "u64 \<Rightarrow> u64" where
  "large_hdr n = push_bit 8 n OR VT_LARGE_TAG"

definition alloc_large :: "nat option \<Rightarrow> u64 \<Rightarrow> pool \<Rightarrow> nat option \<times> pool" where
  "alloc_large cal n st =
     (case cal of
        None \<Rightarrow> (None, st)
      | Some h \<Rightarrow>
          (Some (h + VT_HDR),
           st\<lparr>libc := (libc st)(h \<mapsto> unat (n + of_nat VT_HDR)),
              bytes := zero_bytes h (unat (n + of_nat VT_HDR)) (bytes st),
              word0 := (word0 st)(h := large_hdr n)\<rparr>))"

definition set_class :: "nat \<Rightarrow> pool_class \<Rightarrow> pool \<Rightarrow> pool" where
  "set_class c pc st = st\<lparr>g_pool := (g_pool st)(c := pc)\<rparr>"

definition take_slot :: "nat \<Rightarrow> nat \<Rightarrow> pool \<Rightarrow> nat option \<times> pool" where
  "take_slot c slot st = (Some (slot + VT_HDR), st\<lparr>word0 := (word0 st)(slot := of_nat c)\<rparr>)"

definition alloc_free :: "nat \<Rightarrow> pool \<Rightarrow> nat option \<times> pool" where
  "alloc_free c st =
     (let pc = g_pool st c; slot = freelist pc
      in take_slot c slot
           ((set_class c (pc\<lparr>freelist := unat (word0 st slot)\<rparr>) st)\<lparr>bytes := zero_bytes slot (pool_slot ! c) (bytes st)\<rparr>))"

text \<open>A fresh chunk, when the current one has no room for another slot.\<close>

definition new_chunk :: "nat \<Rightarrow> nat \<Rightarrow> pool \<Rightarrow> pool" where
  "new_chunk c b st =
     (set_class c ((g_pool st c)\<lparr>bump := b, bend := b + VT_CHUNK\<rparr>) st)
       \<lparr>libc := (libc st)(b \<mapsto> VT_CHUNK), bytes := zero_bytes b VT_CHUNK (bytes st)\<rparr>"

definition alloc_bump :: "nat \<Rightarrow> pool \<Rightarrow> nat option \<times> pool" where
  "alloc_bump c st =
     (let pc = g_pool st c; slot = bump pc
      in take_slot c slot (set_class c (pc\<lparr>bump := bump pc + pool_slot ! c\<rparr>) st))"

definition vt_host_alloc :: "nat option \<Rightarrow> u64 \<Rightarrow> pool \<Rightarrow> nat option \<times> pool" where
  "vt_host_alloc cal n st =
     (let n = (if n = 0 then 1 else n); tot = n + of_nat VT_HDR
      in case class_for tot of
           None \<Rightarrow> alloc_large cal n st
         | Some c \<Rightarrow>
             let pc = g_pool st c
             in if freelist pc \<noteq> 0 then alloc_free c st
                else if bump pc + pool_slot ! c > bend pc
                then (case cal of None \<Rightarrow> (None, st) | Some b \<Rightarrow> alloc_bump c (new_chunk c b st))
                else alloc_bump c st)"

definition vt_host_free :: "nat \<Rightarrow> pool \<Rightarrow> pool" where
  "vt_host_free p st =
     (if p = 0 then st
      else
        let h = p - VT_HDR; hv = word0 st h
        in if hv AND 0xFF = VT_LARGE_TAG then st\<lparr>libc := (libc st)(h := None)\<rparr>
           else
             let c = unat hv; pc = g_pool st c
             in (set_class c (pc\<lparr>freelist := h\<rparr>) st)\<lparr>word0 := (word0 st)(h := of_nat (freelist pc))\<rparr>)"

text \<open>The copy of \<open>vt_host_realloc\<close> to a new block.\<close>

definition realloc_copy :: "nat option \<Rightarrow> nat \<Rightarrow> u64 \<Rightarrow> nat \<Rightarrow> pool \<Rightarrow> nat option \<times> pool" where
  "realloc_copy cal p n oldn st =
     (case vt_host_alloc cal n st of
        (None, st) \<Rightarrow> (None, st)
      | (Some np, st) \<Rightarrow>
          (Some np, vt_host_free p (st\<lparr>bytes := copy_bytes np p (if oldn < unat n then oldn else unat n) (bytes st)\<rparr>)))"

text \<open>\<open>realloc(h, k)\<close> of the C library: the block may move, and its bytes move with it.\<close>

definition realloc_large :: "nat option \<Rightarrow> nat \<Rightarrow> u64 \<Rightarrow> pool \<Rightarrow> nat option \<times> pool" where
  "realloc_large cal h n st =
     (case cal of
        None \<Rightarrow> (None, st)
      | Some nh \<Rightarrow>
          let k = unat (n + of_nat VT_HDR); old = (case libc st h of Some o' \<Rightarrow> o' | None \<Rightarrow> 0)
          in (Some (nh + VT_HDR),
              st\<lparr>libc := ((libc st)(h := None))(nh \<mapsto> k),
                 bytes := copy_bytes nh h (min old k) (bytes st),
                 word0 := (word0 st)(nh := large_hdr n)\<rparr>))"

definition vt_host_realloc :: "nat option \<Rightarrow> nat \<Rightarrow> u64 \<Rightarrow> pool \<Rightarrow> nat option \<times> pool" where
  "vt_host_realloc cal p n st =
     (if p = 0 then vt_host_alloc cal n st
      else if n = 0 then (None, vt_host_free p st)
      else
        let h = p - VT_HDR; hv = word0 st h; newc = class_for (n + of_nat VT_HDR)
        in if hv AND 0xFF = VT_LARGE_TAG
           then let oldn = unat (drop_bit 8 hv)
                in if newc = None then realloc_large cal h n st else realloc_copy cal p n oldn st
           else
             let c = unat hv
             in if newc = Some c then (Some p, st)
                else realloc_copy cal p n (pool_slot ! c - VT_HDR) st)"

section \<open>Classes and headers\<close>

lemma pool_slot_facts: "c < 10 \<Longrightarrow> 16 \<le> pool_slot ! c \<and> pool_slot ! c \<le> 512"
  by (auto simp: pool_slot_def less_Suc_eq numeral_eq_Suc nth_Cons')

lemma class_for_Some: "class_for t = Some c \<Longrightarrow> c < 10 \<and> unat t \<le> pool_slot ! c"
  by (auto simp: class_for_def pool_class_of_def pool_slot_def split: if_splits)

lemma class_for_None: "class_for t = None \<Longrightarrow> 512 < unat t"
  by (auto simp: class_for_def pool_class_of_def pool_slot_def VT_POOL_MAX_def split: if_splits)

lemma unat_small: "c < 10 \<Longrightarrow> unat (of_nat c :: u64) = c"
  by (simp add: unat_of_nat take_bit_eq_mod)

lemma unat_addr: "a < 2 ^ 64 \<Longrightarrow> unat (of_nat a :: u64) = a"
  by (simp add: unat_of_nat take_bit_eq_mod)

lemma small_hdr: "c < 10 \<Longrightarrow> (of_nat c :: u64) AND 0xFF \<noteq> VT_LARGE_TAG"
proof
  assume c: "c < 10" and eq: "(of_nat c :: u64) AND 0xFF = VT_LARGE_TAG"
  have "unat ((of_nat c :: u64) AND 0xFF) \<le> unat (of_nat c :: u64)"
    by (simp add: word_le_nat_alt[symmetric] word_and_le2)
  then show False using c by (simp add: eq unat_small VT_LARGE_TAG_def)
qed

lemma large_hdr_tag: "large_hdr n AND 0xFF = VT_LARGE_TAG"
proof -
  have "(push_bit 8 n OR 0xFF) AND 0xFF = (0xFF :: u64)"
    by (rule bit_word_eqI) (auto simp: bit_simps)
  then show ?thesis by (simp add: large_hdr_def VT_LARGE_TAG_def)
qed

lemma large_hdr_size: "unat n < 2 ^ 56 \<Longrightarrow> unat (drop_bit 8 (large_hdr n)) = unat n"
proof -
  assume n: "unat n < 2 ^ 56"
  have "\<not> bit n i" if "56 \<le> i" for i
  proof -
    have "int (unat n) < int (2 ^ 56)" using n of_nat_less_iff by blast
    then have "uint n < 2 ^ 56" by simp
    then have "take_bit 56 (uint n) = uint n" by (simp add: take_bit_int_eq_self_iff)
    then have "\<not> bit (uint n) i" using that by (metis bit_take_bit_iff not_le)
    then show ?thesis using bit_imp_le_length[of n i] unfolding bit_uint_iff by blast
  qed
  then have "drop_bit 8 (large_hdr n) = n"
    by (intro bit_word_eqI) (auto simp: large_hdr_def VT_LARGE_TAG_def bit_simps, meson not_le)
  then show ?thesis by simp
qed

section \<open>The invariant\<close>

text \<open>What the allocator has done so far, beside its state: the slots carved out for each class, the free ones
  among them in the order of the free list, the chunks, and the large blocks in use.\<close>

record pool_log =
  slots :: "nat \<Rightarrow> nat set"
  frees :: "nat \<Rightarrow> nat list"
  chunks :: "nat set"
  larges :: "nat set"

definition apart :: "nat \<Rightarrow> nat \<Rightarrow> nat \<Rightarrow> nat \<Rightarrow> bool" where
  "apart a k b m \<longleftrightarrow> a + k \<le> b \<or> b + m \<le> a"

fun flist :: "(nat \<Rightarrow> u64) \<Rightarrow> nat \<Rightarrow> nat list \<Rightarrow> bool" where
  "flist w a [] \<longleftrightarrow> a = 0"
| "flist w a (x # xs) \<longleftrightarrow> a = x \<and> x \<noteq> 0 \<and> flist w (unat (w x)) xs"

abbreviation slot_size :: "nat \<Rightarrow> nat" where
  "slot_size c \<equiv> pool_slot ! c"

abbreviation room :: "pool \<Rightarrow> nat \<Rightarrow> nat" where
  "room st c \<equiv> bend (g_pool st c) - bump (g_pool st c)"

definition libc_ok :: "pool \<Rightarrow> bool" where
  "libc_ok st \<longleftrightarrow>
     (\<forall>b k. libc st b = Some k \<longrightarrow> 0 < b \<and> 0 < k \<and> b + k \<le> 2 ^ 64) \<and>
     (\<forall>b k b' k'. libc st b = Some k \<and> libc st b' = Some k' \<and> b \<noteq> b' \<longrightarrow> apart b k b' k')"

definition blocks_ok :: "pool_log \<Rightarrow> pool \<Rightarrow> bool" where
  "blocks_ok g st \<longleftrightarrow>
     chunks g \<inter> larges g = {} \<and> (\<forall>b\<in>chunks g. libc st b = Some VT_CHUNK) \<and>
     (\<forall>h\<in>larges g. \<exists>n. libc st h = Some (unat n + VT_HDR) \<and> word0 st h = large_hdr n \<and> unat n < 2 ^ 56)"

definition in_chunk :: "pool_log \<Rightarrow> nat \<Rightarrow> nat \<Rightarrow> bool" where
  "in_chunk g a k \<longleftrightarrow> (\<exists>b\<in>chunks g. b \<le> a \<and> a + k \<le> b + VT_CHUNK)"

definition slots_ok :: "pool_log \<Rightarrow> bool" where
  "slots_ok g \<longleftrightarrow>
     (\<forall>c<10. \<forall>s\<in>slots g c. in_chunk g s (slot_size c)) \<and>
     (\<forall>c<10. \<forall>c'<10. \<forall>s\<in>slots g c. \<forall>s'\<in>slots g c'. (c, s) \<noteq> (c', s') \<longrightarrow> apart s (slot_size c) s' (slot_size c'))"

definition bump_ok :: "pool_log \<Rightarrow> pool \<Rightarrow> bool" where
  "bump_ok g st \<longleftrightarrow>
     (\<forall>c<10. let b = bump (g_pool st c); r = room st c
        in b \<le> bend (g_pool st c) \<and> (r = 0 \<or> in_chunk g b r) \<and> (\<forall>x. b \<le> x \<and> x < b + r \<longrightarrow> bytes st x = 0) \<and>
           (r \<noteq> 0 \<longrightarrow> (\<forall>c'<10. \<forall>s\<in>slots g c'. apart s (slot_size c') b r)) \<and>
           (\<forall>c'<10. c' \<noteq> c \<and> r \<noteq> 0 \<and> room st c' \<noteq> 0 \<longrightarrow> apart b r (bump (g_pool st c')) (room st c')))"

definition free_ok :: "pool_log \<Rightarrow> pool \<Rightarrow> bool" where
  "free_ok g st \<longleftrightarrow>
     (\<forall>c<10. flist (word0 st) (freelist (g_pool st c)) (frees g c) \<and> distinct (frees g c) \<and> set (frees g c) \<subseteq> slots g c \<and>
        (\<forall>s\<in>slots g c - set (frees g c). word0 st s = of_nat c))"

definition pool_inv :: "pool_log \<Rightarrow> pool \<Rightarrow> bool" where
  "pool_inv g st \<longleftrightarrow> libc_ok st \<and> blocks_ok g st \<and> slots_ok g \<and> bump_ok g st \<and> free_ok g st"

text \<open>The pointers in the hands of the program, and how many bytes each may use.\<close>

definition small_in_use :: "pool_log \<Rightarrow> nat \<Rightarrow> nat set" where
  "small_in_use g c = slots g c - set (frees g c)"

definition in_use :: "pool_log \<Rightarrow> nat set" where
  "in_use g = {p. \<exists>c<10. \<exists>s\<in>small_in_use g c. p = s + VT_HDR} \<union> {p. \<exists>h\<in>larges g. p = h + VT_HDR}"

definition usable :: "pool \<Rightarrow> nat \<Rightarrow> nat" where
  "usable st p =
     (let hv = word0 st (p - VT_HDR)
      in if hv AND 0xFF = VT_LARGE_TAG then unat (drop_bit 8 hv) else slot_size (unat hv) - VT_HDR)"

lemma flist_upd: "a \<notin> set xs \<Longrightarrow> flist (w(a := v)) x xs = flist w x xs"
  by (induction xs arbitrary: x) auto

lemma apart_sym: "apart a k b m \<longleftrightarrow> apart b m a k"
  by (auto simp: apart_def)

lemma apart_sub: "apart a k b m \<Longrightarrow> a \<le> a' \<Longrightarrow> a' + k' \<le> a + k \<Longrightarrow> b \<le> b' \<Longrightarrow> b' + m' \<le> b + m \<Longrightarrow> apart a' k' b' m'"
  by (auto simp: apart_def)

lemma usable_small: "pool_inv g st \<Longrightarrow> c < 10 \<Longrightarrow> s \<in> small_in_use g c \<Longrightarrow> usable st (s + VT_HDR) = slot_size c - VT_HDR"
  by (simp add: usable_def pool_inv_def free_ok_def small_in_use_def small_hdr unat_small)

lemma usable_large:
  assumes "pool_inv g st" "h \<in> larges g"
  shows "libc st h = Some (usable st (h + VT_HDR) + VT_HDR)" "word0 st h AND 0xFF = VT_LARGE_TAG"
    "usable st (h + VT_HDR) < 2 ^ 56" "word0 st h = large_hdr (of_nat (usable st (h + VT_HDR)))"
proof -
  obtain n where n: "libc st h = Some (unat n + VT_HDR)" "word0 st h = large_hdr n" "unat n < 2 ^ 56"
    using assms by (auto simp: pool_inv_def blocks_ok_def)
  then have "usable st (h + VT_HDR) = unat n"
    by (simp add: usable_def large_hdr_tag large_hdr_size)
  with n show "libc st h = Some (usable st (h + VT_HDR) + VT_HDR)" "word0 st h AND 0xFF = VT_LARGE_TAG"
    "usable st (h + VT_HDR) < 2 ^ 56" "word0 st h = large_hdr (of_nat (usable st (h + VT_HDR)))"
    by (simp_all add: large_hdr_tag)
qed

lemma slot_in_libc:
  "pool_inv g st \<Longrightarrow> in_chunk g a k \<Longrightarrow> \<exists>b. libc st b = Some VT_CHUNK \<and> b \<in> chunks g \<and> b \<notin> larges g \<and> b \<le> a \<and> a + k \<le> b + VT_CHUNK"
  by (auto simp: pool_inv_def blocks_ok_def in_chunk_def)

lemma chunk_apart_large:
  assumes "pool_inv g st" "in_chunk g a k" "h \<in> larges g"
  shows "apart a k h (usable st (h + VT_HDR) + VT_HDR)"
proof -
  obtain b where b: "libc st b = Some VT_CHUNK" "b \<notin> larges g" "b \<le> a" "a + k \<le> b + VT_CHUNK"
    using slot_in_libc[OF assms(1,2)] by blast
  have "apart b VT_CHUNK h (usable st (h + VT_HDR) + VT_HDR)"
    using assms(1,3) b(1,2) usable_large(1)[OF assms(1,3)] unfolding pool_inv_def libc_ok_def by metis
  then show ?thesis by (rule apart_sub) (use b in auto)
qed

lemma slots_in_chunk: "pool_inv g st \<Longrightarrow> c < 10 \<Longrightarrow> s \<in> slots g c \<Longrightarrow> in_chunk g s (slot_size c)"
  by (simp add: pool_inv_def slots_ok_def)

lemma slots_apart:
  "pool_inv g st \<Longrightarrow> c < 10 \<Longrightarrow> s \<in> slots g c \<Longrightarrow> c' < 10 \<Longrightarrow> s' \<in> slots g c' \<Longrightarrow> (c, s) \<noteq> (c', s') \<Longrightarrow> apart s (slot_size c) s' (slot_size c')"
  by (auto simp: pool_inv_def slots_ok_def)

text \<open>Blocks in use, with their headers, never overlap.\<close>

lemma live_apart:
  assumes inv: "pool_inv g st" and pq: "p \<in> in_use g" "q \<in> in_use g" "p \<noteq> q"
  shows "apart (p - VT_HDR) (usable st p + VT_HDR) (q - VT_HDR) (usable st q + VT_HDR)"
proof -
  have sz: "usable st (s + VT_HDR) + VT_HDR = slot_size c" if "c < 10" "s \<in> small_in_use g c" for c s
    using usable_small[OF inv that] pool_slot_facts[OF that(1)] by (simp add: VT_HDR_def)
  have sm: "s \<in> slots g c" if "s \<in> small_in_use g c" for c s using that by (simp add: small_in_use_def)
  have mix: "apart s (slot_size c) h (usable st (h + VT_HDR) + VT_HDR)" if "c < 10" "s \<in> small_in_use g c" "h \<in> larges g" for c s h
    using chunk_apart_large[OF inv slots_in_chunk[OF inv that(1) sm[OF that(2)]] that(3)] .
  consider (ss) c s c' s' where "c < 10" "s \<in> small_in_use g c" "p = s + VT_HDR" "c' < 10" "s' \<in> small_in_use g c'" "q = s' + VT_HDR"
    | (sl) c s h where "c < 10" "s \<in> small_in_use g c" "p = s + VT_HDR" "h \<in> larges g" "q = h + VT_HDR"
    | (ls) c s h where "c < 10" "s \<in> small_in_use g c" "q = s + VT_HDR" "h \<in> larges g" "p = h + VT_HDR"
    | (ll) h h' where "h \<in> larges g" "p = h + VT_HDR" "h' \<in> larges g" "q = h' + VT_HDR"
    using pq(1,2) unfolding in_use_def by blast
  then show ?thesis
  proof cases
    case ss
    then show ?thesis using slots_apart[OF inv ss(1) sm[OF ss(2)] ss(4) sm[OF ss(5)]] sz pq(3) by auto
  next
    case sl
    then show ?thesis using mix[OF sl(1,2,4)] sz by simp
  next
    case ls
    then show ?thesis using mix[OF ls(1,2,4)] sz by (simp add: apart_sym)
  next
    case ll
    then have "h \<noteq> h'" using pq(3) by auto
    then show ?thesis
      using usable_large(1)[OF inv ll(1)] usable_large(1)[OF inv ll(3)] inv ll unfolding pool_inv_def libc_ok_def by (metis diff_add_inverse2)
  qed
qed

section \<open>Allocation\<close>

text \<open>What the C library promises of a block of \<open>k\<close> bytes it returns.\<close>

definition fresh_block :: "pool \<Rightarrow> nat \<Rightarrow> nat \<Rightarrow> bool" where
  "fresh_block st h k \<longleftrightarrow> 0 < h \<and> 0 < k \<and> h + k \<le> 2 ^ 64 \<and> (\<forall>b m. libc st b = Some m \<longrightarrow> apart h k b m)"

text \<open>Other blocks keep their sizes and contents.\<close>

definition undisturbed :: "nat set \<Rightarrow> pool \<Rightarrow> pool \<Rightarrow> bool" where
  "undisturbed L st st' \<longleftrightarrow>
     (\<forall>q\<in>L. usable st' q = usable st q \<and> (\<forall>i<usable st q. bytes st' (q + i) = bytes st (q + i)))"

definition alloc_post :: "pool_log \<Rightarrow> pool \<Rightarrow> nat \<Rightarrow> nat \<Rightarrow> pool_log \<Rightarrow> pool \<Rightarrow> bool" where
  "alloc_post g st n p g' st' \<longleftrightarrow>
     pool_inv g' st' \<and> 0 < p \<and> p \<notin> in_use g \<and> in_use g' = insert p (in_use g) \<and> n \<le> usable st' p \<and>
     (\<forall>i<usable st' p. bytes st' (p + i) = 0) \<and> undisturbed (in_use g) st st'"

lemma fresh_block_new: "fresh_block st h k \<Longrightarrow> libc_ok st \<Longrightarrow> libc st h = None"
  unfolding fresh_block_def libc_ok_def apart_def by (cases "libc st h") (fastforce)+

lemma libc_ok_insert: "libc_ok st \<Longrightarrow> fresh_block st h k \<Longrightarrow> libc st' = (libc st)(h \<mapsto> k) \<Longrightarrow> libc_ok st'"
  unfolding libc_ok_def fresh_block_def by (auto simp: apart_sym)

text \<open>A block lies in one of the library's, so a fresh one is apart from it.\<close>

lemma live_in_libc:
  assumes "pool_inv g st" "p \<in> in_use g"
  shows "VT_HDR < p" "\<exists>b k. libc st b = Some k \<and> b \<le> p - VT_HDR \<and> p + usable st p \<le> b + k"
proof -
  have inv: "libc_ok st" using assms(1) by (simp add: pool_inv_def)
  have "VT_HDR < p \<and> (\<exists>b k. libc st b = Some k \<and> b \<le> p - VT_HDR \<and> p + usable st p \<le> b + k)"
  proof (cases "\<exists>h\<in>larges g. p = h + VT_HDR")
    case True
    then obtain h where h: "h \<in> larges g" "p = h + VT_HDR" by blast
    note u = usable_large(1)[OF assms(1) h(1)]
    then have "0 < h" using inv unfolding libc_ok_def by blast
    then show ?thesis using u h(2) by (intro conjI exI[of _ h] exI[of _ "usable st (h + VT_HDR) + VT_HDR"]) auto
  next
    case False
    then obtain c s where s: "c < 10" "s \<in> small_in_use g c" "p = s + VT_HDR" using assms(2) unfolding in_use_def by blast
    then obtain b where b: "libc st b = Some VT_CHUNK" "b \<le> s" "s + slot_size c \<le> b + VT_CHUNK"
      using slot_in_libc[OF assms(1) slots_in_chunk[OF assms(1) s(1)]] by (auto simp: small_in_use_def)
    then have "0 < b" using inv unfolding libc_ok_def by blast
    moreover have "p + usable st p = s + slot_size c"
      using usable_small[OF assms(1) s(1,2)] s(3) pool_slot_facts[OF s(1)] by (simp add: VT_HDR_def)
    ultimately show ?thesis using b s(3) by (intro conjI exI[of _ b] exI[of _ VT_CHUNK]) auto
  qed
  then show "VT_HDR < p" "\<exists>b k. libc st b = Some k \<and> b \<le> p - VT_HDR \<and> p + usable st p \<le> b + k" by blast+
qed

lemma fresh_apart_live:
  assumes "pool_inv g st" "fresh_block st h k" "p \<in> in_use g"
  shows "apart h k (p - VT_HDR) (usable st p + VT_HDR)"
proof -
  obtain b m where b: "libc st b = Some m" "b \<le> p - VT_HDR" "p + usable st p \<le> b + m"
    using live_in_libc(2)[OF assms(1,3)] by blast
  then have "apart h k b m" using assms(2) unfolding fresh_block_def by blast
  then show ?thesis by (rule apart_sub) (use b live_in_libc(1)[OF assms(1,3)] in auto)
qed

text \<open>Writing outside a block and its header leaves it undisturbed.\<close>

lemma undisturbedI:
  assumes inv: "pool_inv g st"
    and out: "\<And>q. q \<in> in_use g \<Longrightarrow> apart a k (q - VT_HDR) (usable st q + VT_HDR)"
    and w: "\<And>x. \<not> (a \<le> x \<and> x < a + k) \<Longrightarrow> word0 st' x = word0 st x"
    and b: "\<And>x. \<not> (a \<le> x \<and> x < a + k) \<Longrightarrow> bytes st' x = bytes st x"
  shows "undisturbed (in_use g) st st'"
  unfolding undisturbed_def
proof (intro ballI)
  fix q assume q: "q \<in> in_use g"
  have "VT_HDR < q" using live_in_libc(1)[OF inv q] .
  then have ne: "\<not> (a \<le> q - VT_HDR \<and> q - VT_HDR < a + k)" "\<forall>i<usable st q. \<not> (a \<le> q + i \<and> q + i < a + k)"
    using out[OF q] unfolding apart_def by (auto simp: VT_HDR_def)
  then show "usable st' q = usable st q \<and> (\<forall>i<usable st q. bytes st' (q + i) = bytes st (q + i))"
    using w[OF ne(1)] b by (auto simp: usable_def)
qed

lemma bump_ok_keep:
  assumes ok: "bump_ok g st" and g: "slots g' = slots g" "chunks g \<subseteq> chunks g'"
    and c: "\<And>c. bump (g_pool st' c) = bump (g_pool st c) \<and> bend (g_pool st' c) = bend (g_pool st c)"
    and z: "\<And>x. bytes st x = 0 \<Longrightarrow> bytes st' x = 0"
  shows "bump_ok g' st'"
proof -
  have "in_chunk g a k \<Longrightarrow> in_chunk g' a k" for a k using g(2) by (auto simp: in_chunk_def)
  then show ?thesis
    using ok z unfolding bump_ok_def Let_def c[THEN conjunct1] c[THEN conjunct2] g(1) by meson
qed

lemma alloc_large_post:
  assumes inv: "pool_inv g st" and fresh: "fresh_block st h (unat (n + of_nat VT_HDR))" and n: "unat n < 2 ^ 56"
  shows "alloc_post g st (unat n) (h + VT_HDR) (g\<lparr>larges := insert h (larges g)\<rparr>) (snd (alloc_large (Some h) n st))"
    (is "alloc_post g st _ ?p ?g ?st")
proof -
  have k: "unat (n + of_nat VT_HDR) = unat n + VT_HDR"
    using n by (simp add: unat_word_ariths VT_HDR_def)
  have lib: "libc_ok st" "blocks_ok g st" "slots_ok g" "bump_ok g st" "free_ok g st" using inv by (simp_all add: pool_inv_def)
  have new: "libc st h = None" using fresh_block_new[OF fresh lib(1)] .
  have st': "word0 ?st = (word0 st)(h := large_hdr n)" "bytes ?st = zero_bytes h (unat n + VT_HDR) (bytes st)"
    "libc ?st = (libc st)(h \<mapsto> unat n + VT_HDR)" "g_pool ?st = g_pool st"
    by (simp_all add: alloc_large_def k)
  have hc: "h \<notin> chunks g" "h \<notin> larges g" using lib(2) new unfolding blocks_ok_def by auto
  have in_ch: "apart h (unat n + VT_HDR) a m" if ch: "in_chunk g a m" for a m
  proof -
    obtain b where "libc st b = Some VT_CHUNK" "b \<le> a" "a + m \<le> b + VT_CHUNK" using slot_in_libc[OF inv ch] by blast
    moreover from this have "apart h (unat n + VT_HDR) b VT_CHUNK" using fresh k unfolding fresh_block_def by metis
    ultimately show ?thesis using apart_sub by blast
  qed
  have hs: "h \<notin> slots g c" if "c < 10" for c
    using in_ch[OF slots_in_chunk[OF inv that]] pool_slot_facts[OF that] by (fastforce simp: apart_def VT_HDR_def)
  have "blocks_ok ?g ?st"
    using lib(2) hc n unfolding blocks_ok_def st' by (auto intro!: exI[of _ n])
  moreover have "bump_ok ?g ?st"
    using lib(4) by (rule bump_ok_keep) (auto simp: st' zero_bytes_def)
  moreover have "free_ok ?g ?st"
    unfolding free_ok_def st'
  proof (intro allI impI)
    fix c :: nat assume c: "c < 10"
    have "flist (word0 st) (freelist (g_pool st c)) (frees g c)" "distinct (frees g c)" "set (frees g c) \<subseteq> slots g c"
      "\<forall>s\<in>slots g c - set (frees g c). word0 st s = of_nat c"
      using lib(5) c unfolding free_ok_def by blast+
    moreover from this have "h \<notin> set (frees g c)" using hs[OF c] by blast
    ultimately show "flist ((word0 st)(h := large_hdr n)) (freelist (g_pool st c)) (frees ?g c) \<and> distinct (frees ?g c) \<and>
        set (frees ?g c) \<subseteq> slots ?g c \<and> (\<forall>s\<in>slots ?g c - set (frees ?g c). ((word0 st)(h := large_hdr n)) s = of_nat c)"
      using hs[OF c] by (auto simp: flist_upd)
  qed
  moreover have "slots_ok ?g" using lib(3) by (simp add: slots_ok_def in_chunk_def)
  moreover have "libc_ok ?st" using libc_ok_insert[OF lib(1) fresh] st'(3) k by simp
  ultimately have inv': "pool_inv ?g ?st" by (simp add: pool_inv_def)
  have u: "usable ?st ?p = unat n" using large_hdr_size[OF n] by (simp add: usable_def st' large_hdr_tag)
  have np: "?p \<notin> in_use g"
    using hs hc by (auto simp: in_use_def small_in_use_def)
  have "undisturbed (in_use g) st ?st"
    using fresh_apart_live[OF inv fresh] k by (intro undisturbedI[OF inv, of h "unat n + VT_HDR"]) (auto simp: st' zero_bytes_def VT_HDR_def)
  moreover have "in_use ?g = insert ?p (in_use g)" by (auto simp: in_use_def small_in_use_def)
  ultimately show ?thesis
    using inv' u np by (auto simp: alloc_post_def st' zero_bytes_def VT_HDR_def)
qed

lemma slot_unique:
  "pool_inv g st \<Longrightarrow> c < 10 \<Longrightarrow> s \<in> slots g c \<Longrightarrow> c' < 10 \<Longrightarrow> s \<in> slots g c' \<Longrightarrow> c' = c"
  using slots_apart[of g st c s c' s] pool_slot_facts[of c] pool_slot_facts[of c'] by (auto simp: apart_def)

lemma slot_not_large:
  assumes inv: "pool_inv g st" and c: "c < 10" "s \<in> slots g c"
  shows "s \<notin> larges g"
  using chunk_apart_large[OF inv slots_in_chunk[OF inv c], of s] pool_slot_facts[OF c(1)] by (auto simp: apart_def VT_HDR_def)

text \<open>A slot that is not in use is apart from the blocks that are.\<close>

lemma slot_apart_live:
  assumes inv: "pool_inv g st" and s: "c < 10" "s \<in> slots g c" "s \<notin> small_in_use g c" and q: "q \<in> in_use g"
  shows "apart s (slot_size c) (q - VT_HDR) (usable st q + VT_HDR)"
proof (cases "\<exists>h\<in>larges g. q = h + VT_HDR")
  case True
  then show ?thesis using chunk_apart_large[OF inv slots_in_chunk[OF inv s(1,2)]] by auto
next
  case False
  then obtain c' s' where s': "c' < 10" "s' \<in> small_in_use g c'" "q = s' + VT_HDR" using q unfolding in_use_def by blast
  then have "(c, s) \<noteq> (c', s')" "s' \<in> slots g c'" using s(3) by (auto simp: small_in_use_def)
  then show ?thesis
    using slots_apart[OF inv s(1,2) s'(1)] usable_small[OF inv s'(1,2)] pool_slot_facts[OF s'(1)] s'(3) by (simp add: VT_HDR_def)
qed

lemma small_live_frees:
  "frees g c = s # xs \<Longrightarrow> distinct (s # xs) \<Longrightarrow> s \<in> slots g c \<Longrightarrow>
     small_in_use (g\<lparr>frees := (frees g)(c := xs)\<rparr>) c' = (if c' = c then insert s (small_in_use g c) else small_in_use g c')"
  by (auto simp: small_in_use_def)

lemma live_insert:
  assumes "c < 10" "\<And>c'. c' < 10 \<Longrightarrow> small_in_use g' c' = (if c' = c then insert s (small_in_use g c) else small_in_use g c')" "larges g' = larges g"
  shows "in_use g' = insert (s + VT_HDR) (in_use g)"
  using assms unfolding in_use_def by (auto split: if_splits)

lemma new_pointer:
  assumes inv: "pool_inv g st" and s: "c < 10" "s \<in> slots g c" "s \<notin> small_in_use g c"
  shows "s + VT_HDR \<notin> in_use g"
proof
  assume q: "s + VT_HDR \<in> in_use g"
  show False
    using slot_apart_live[OF inv s q] pool_slot_facts[OF s(1)] by (simp add: apart_def VT_HDR_def)
qed

lemma alloc_free_post:
  assumes inv: "pool_inv g st" and c: "c < 10" and f: "freelist (g_pool st c) \<noteq> 0" and n: "n + VT_HDR \<le> slot_size c"
  shows "\<exists>g' p. fst (alloc_free c st) = Some p \<and> alloc_post g st n p g' (snd (alloc_free c st))"
proof -
  have lib: "libc_ok st" "blocks_ok g st" "slots_ok g" "bump_ok g st" "free_ok g st" using inv by (simp_all add: pool_inv_def)
  have fl: "flist (word0 st) (freelist (g_pool st c)) (frees g c)" "distinct (frees g c)" "set (frees g c) \<subseteq> slots g c"
    using lib(5) c unfolding free_ok_def by blast+
  then obtain s xs where s: "frees g c = s # xs" "freelist (g_pool st c) = s" "s \<noteq> 0" "flist (word0 st) (unat (word0 st s)) xs"
    using f by (cases "frees g c") auto
  have ss: "s \<in> slots g c" "s \<notin> small_in_use g c" "s \<notin> set xs" using fl s by (auto simp: small_in_use_def)
  let ?g = "g\<lparr>frees := (frees g)(c := xs)\<rparr>" and ?st = "snd (alloc_free c st)"
  have st': "word0 ?st = (word0 st)(s := of_nat c)" "bytes ?st = zero_bytes s (slot_size c) (bytes st)" "libc ?st = libc st"
    "g_pool ?st = (g_pool st)(c := (g_pool st c)\<lparr>freelist := unat (word0 st s)\<rparr>)"
    by (simp_all add: alloc_free_def take_slot_def set_class_def s Let_def)
  have "blocks_ok ?g ?st"
    using lib(2) slot_not_large[OF inv c ss(1)] unfolding blocks_ok_def st' by auto
  moreover have "bump_ok ?g ?st"
    using lib(4) by (rule bump_ok_keep) (auto simp: st' zero_bytes_def)
  moreover have "free_ok ?g ?st"
    unfolding free_ok_def
  proof (intro allI impI)
    fix d :: nat assume d: "d < 10"
    have fd: "flist (word0 st) (freelist (g_pool st d)) (frees g d)" "distinct (frees g d)" "set (frees g d) \<subseteq> slots g d"
      "\<forall>x\<in>slots g d - set (frees g d). word0 st x = of_nat d"
      using lib(5) d unfolding free_ok_def by blast+
    have nd: "s \<notin> slots g d \<and> s \<notin> set (frees g d)" if "d \<noteq> c"
      using slot_unique[OF inv c ss(1) d] that fd(3) by blast
    then show "flist (word0 ?st) (freelist (g_pool ?st d)) (frees ?g d) \<and> distinct (frees ?g d) \<and> set (frees ?g d) \<subseteq> slots ?g d \<and>
        (\<forall>x\<in>slots ?g d - set (frees ?g d). word0 ?st x = of_nat d)"
      using fd s ss by (cases "d = c") (auto simp: st' flist_upd)
  qed
  moreover have "slots_ok ?g" using lib(3) by (simp add: slots_ok_def in_chunk_def)
  moreover have "libc_ok ?st" using lib(1) by (simp add: libc_ok_def st')
  ultimately have inv': "pool_inv ?g ?st" by (simp add: pool_inv_def)
  have sl: "small_in_use ?g c' = (if c' = c then insert s (small_in_use g c) else small_in_use g c')" for c'
    using small_live_frees[OF s(1)] fl s(1) ss(1) by simp
  have u: "usable ?st (s + VT_HDR) = slot_size c - VT_HDR"
    using usable_small[OF inv' c, of s] sl[of c] by simp
  have "undisturbed (in_use g) st ?st"
    using slot_apart_live[OF inv c ss(1,2)] pool_slot_facts[OF c]
    by (intro undisturbedI[OF inv, of s "slot_size c"]) (auto simp: st' zero_bytes_def)
  moreover have "in_use ?g = insert (s + VT_HDR) (in_use g)" using live_insert[OF c, where g = g and g' = ?g and s = s] sl by simp
  moreover have "fst (alloc_free c st) = Some (s + VT_HDR)" by (simp add: alloc_free_def take_slot_def s Let_def)
  ultimately show ?thesis
    using inv' u n new_pointer[OF inv c ss(1,2)] pool_slot_facts[OF c]
    by (intro exI[of _ ?g] exI[of _ "s + VT_HDR"]) (auto simp: alloc_post_def st' zero_bytes_def VT_HDR_def)
qed

lemma new_chunk_inv:
  assumes inv: "pool_inv g st" and c: "c < 10" and fresh: "fresh_block st b VT_CHUNK"
  shows "pool_inv (g\<lparr>chunks := insert b (chunks g)\<rparr>) (new_chunk c b st)" (is "pool_inv ?g ?st")
    and "undisturbed (in_use g) st (new_chunk c b st)"
proof -
  have lib: "libc_ok st" "blocks_ok g st" "slots_ok g" "bump_ok g st" "free_ok g st" using inv by (simp_all add: pool_inv_def)
  have st': "word0 ?st = word0 st" "bytes ?st = zero_bytes b VT_CHUNK (bytes st)" "libc ?st = (libc st)(b \<mapsto> VT_CHUNK)"
    "g_pool ?st = (g_pool st)(c := (g_pool st c)\<lparr>bump := b, bend := b + VT_CHUNK\<rparr>)"
    by (simp_all add: new_chunk_def set_class_def)
  have new: "libc st b = None" using fresh_block_new[OF fresh lib(1)] .
  have bc: "b \<notin> larges g" using lib(2) new unfolding blocks_ok_def by auto
  have in_ch: "apart a m b VT_CHUNK" if "in_chunk g a m" for a m
  proof -
    obtain b' where b': "libc st b' = Some VT_CHUNK" "b' \<le> a" "a + m \<le> b' + VT_CHUNK" using slot_in_libc[OF inv \<open>in_chunk g a m\<close>] by blast
    then have "apart b' VT_CHUNK b VT_CHUNK" using fresh unfolding fresh_block_def by (metis apart_sym)
    then show ?thesis by (rule apart_sub) (use b' in auto)
  qed
  have mono: "in_chunk g a k \<Longrightarrow> in_chunk ?g a k" for a k by (auto simp: in_chunk_def)
  have "bump_ok ?g ?st"
    unfolding bump_ok_def Let_def
  proof (intro allI impI)
    fix d :: nat assume d: "d < 10"
    have old: "bump (g_pool st e) \<le> bend (g_pool st e)" "room st e = 0 \<or> in_chunk g (bump (g_pool st e)) (room st e)"
      "\<forall>x. bump (g_pool st e) \<le> x \<and> x < bump (g_pool st e) + room st e \<longrightarrow> bytes st x = 0"
      "room st e \<noteq> 0 \<longrightarrow> (\<forall>c'<10. \<forall>s\<in>slots g c'. apart s (slot_size c') (bump (g_pool st e)) (room st e))"
      "\<forall>c'<10. c' \<noteq> e \<and> room st e \<noteq> 0 \<and> room st c' \<noteq> 0 \<longrightarrow> apart (bump (g_pool st e)) (room st e) (bump (g_pool st c')) (room st c')"
      if "e < 10" for e using lib(4) that unfolding bump_ok_def Let_def by blast+
    have self: "in_chunk ?g b VT_CHUNK" by (auto simp: in_chunk_def)
    have sl: "\<forall>c'<10. \<forall>s\<in>slots g c'. apart s (slot_size c') b VT_CHUNK" using in_ch slots_in_chunk[OF inv] by blast
    have bumps: "apart (bump (g_pool st e)) (room st e) b VT_CHUNK" if "e < 10" "room st e \<noteq> 0" for e
      using in_ch old(2)[OF that(1)] that(2) by blast
    show "bump (g_pool ?st d) \<le> bend (g_pool ?st d) \<and> (room ?st d = 0 \<or> in_chunk ?g (bump (g_pool ?st d)) (room ?st d)) \<and>
        (\<forall>x. bump (g_pool ?st d) \<le> x \<and> x < bump (g_pool ?st d) + room ?st d \<longrightarrow> bytes ?st x = 0) \<and>
        (room ?st d \<noteq> 0 \<longrightarrow> (\<forall>c'<10. \<forall>s\<in>slots ?g c'. apart s (slot_size c') (bump (g_pool ?st d)) (room ?st d))) \<and>
        (\<forall>c'<10. c' \<noteq> d \<and> room ?st d \<noteq> 0 \<and> room ?st c' \<noteq> 0 \<longrightarrow>
           apart (bump (g_pool ?st d)) (room ?st d) (bump (g_pool ?st c')) (room ?st c'))"
    proof (cases "d = c")
      case True
      then show ?thesis
        using self sl bumps by (auto simp: st' zero_bytes_def apart_sym)
    next
      case False
      then show ?thesis
        using old[OF d] bumps[OF d] mono by (auto simp: st' zero_bytes_def)
    qed
  qed
  moreover have "blocks_ok ?g ?st" using lib(2) bc new unfolding blocks_ok_def st' by fastforce
  moreover have "slots_ok ?g" using lib(3) mono unfolding slots_ok_def by simp
  moreover have "free_ok ?g ?st" using lib(5) unfolding free_ok_def st' by auto
  moreover have "libc_ok ?st" using libc_ok_insert[OF lib(1) fresh] st'(3) by simp
  ultimately show "pool_inv ?g ?st" by (simp add: pool_inv_def)
  show "undisturbed (in_use g) st ?st"
    using fresh_apart_live[OF inv fresh] by (intro undisturbedI[OF inv, of b VT_CHUNK]) (auto simp: st' zero_bytes_def)
qed

text \<open>The part of \<open>bump_ok\<close> for one class.\<close>

lemma bump_okD:
  assumes "pool_inv g st" "c < 10"
  shows "bump (g_pool st c) \<le> bend (g_pool st c)" "room st c \<noteq> 0 \<Longrightarrow> in_chunk g (bump (g_pool st c)) (room st c)"
    "bump (g_pool st c) \<le> x \<Longrightarrow> x < bump (g_pool st c) + room st c \<Longrightarrow> bytes st x = 0"
    "room st c \<noteq> 0 \<Longrightarrow> c' < 10 \<Longrightarrow> s \<in> slots g c' \<Longrightarrow> apart s (slot_size c') (bump (g_pool st c)) (room st c)"
    "c' < 10 \<Longrightarrow> c' \<noteq> c \<Longrightarrow> room st c \<noteq> 0 \<Longrightarrow> room st c' \<noteq> 0 \<Longrightarrow>
       apart (bump (g_pool st c)) (room st c) (bump (g_pool st c')) (room st c')"
proof -
  have "bump (g_pool st c) \<le> bend (g_pool st c) \<and> (room st c = 0 \<or> in_chunk g (bump (g_pool st c)) (room st c)) \<and>
      (\<forall>x. bump (g_pool st c) \<le> x \<and> x < bump (g_pool st c) + room st c \<longrightarrow> bytes st x = 0) \<and>
      (room st c \<noteq> 0 \<longrightarrow> (\<forall>c'<10. \<forall>s\<in>slots g c'. apart s (slot_size c') (bump (g_pool st c)) (room st c))) \<and>
      (\<forall>c'<10. c' \<noteq> c \<and> room st c \<noteq> 0 \<and> room st c' \<noteq> 0 \<longrightarrow>
         apart (bump (g_pool st c)) (room st c) (bump (g_pool st c')) (room st c'))"
    using assms unfolding pool_inv_def bump_ok_def Let_def by simp
  then show "bump (g_pool st c) \<le> bend (g_pool st c)" "room st c \<noteq> 0 \<Longrightarrow> in_chunk g (bump (g_pool st c)) (room st c)"
    "bump (g_pool st c) \<le> x \<Longrightarrow> x < bump (g_pool st c) + room st c \<Longrightarrow> bytes st x = 0"
    "room st c \<noteq> 0 \<Longrightarrow> c' < 10 \<Longrightarrow> s \<in> slots g c' \<Longrightarrow> apart s (slot_size c') (bump (g_pool st c)) (room st c)"
    "c' < 10 \<Longrightarrow> c' \<noteq> c \<Longrightarrow> room st c \<noteq> 0 \<Longrightarrow> room st c' \<noteq> 0 \<Longrightarrow>
       apart (bump (g_pool st c)) (room st c) (bump (g_pool st c')) (room st c')"
    by simp_all
qed

lemma slots_ok_insert:
  assumes ok: "slots_ok g" and ch: "in_chunk g s (slot_size c)"
    and ap: "\<And>d x. d < 10 \<Longrightarrow> x \<in> slots g d \<Longrightarrow> apart x (slot_size d) s (slot_size c)"
  shows "slots_ok (g\<lparr>slots := (slots g)(c := insert s (slots g c))\<rparr>)" (is "slots_ok ?g")
  unfolding slots_ok_def
proof (intro conjI allI impI ballI)
  fix d x assume d: "d < 10" and x: "x \<in> slots ?g d"
  consider "d = c" "x = s" | "x \<in> slots g d" using x by (auto split: if_splits)
  then have "in_chunk g x (slot_size d)" by cases (use ch ok d in \<open>auto simp: slots_ok_def\<close>)
  then show "in_chunk ?g x (slot_size d)" by (simp add: in_chunk_def)
  fix e y assume e: "e < 10" and y: "y \<in> slots ?g e" and ne: "(d, x) \<noteq> (e, y)"
  consider "d = c" "x = s" "y \<in> slots g e" | "e = c" "y = s" "x \<in> slots g d" | "x \<in> slots g d" "y \<in> slots g e"
    using x y ne by (auto split: if_splits)
  then show "apart x (slot_size d) y (slot_size e)"
  proof cases
    case 1
    then show ?thesis using ap[OF e] apart_sym by blast
  next
    case 2
    then show ?thesis using ap[OF d] by blast
  next
    case 3
    then show ?thesis using ok d e ne unfolding slots_ok_def by blast
  qed
qed

text \<open>A piece of the room of a class is apart from the blocks in use.\<close>

lemma bump_apart_live:
  assumes inv: "pool_inv g st" and c: "c < 10" and r: "room st c \<noteq> 0" and q: "q \<in> in_use g"
  shows "apart (bump (g_pool st c)) (room st c) (q - VT_HDR) (usable st q + VT_HDR)"
proof (cases "\<exists>h\<in>larges g. q = h + VT_HDR")
  case True
  then show ?thesis using chunk_apart_large[OF inv bump_okD(2)[OF inv c r]] by auto
next
  case False
  then obtain c' s' where s': "c' < 10" "s' \<in> small_in_use g c'" "q = s' + VT_HDR" using q unfolding in_use_def by blast
  then have "s' \<in> slots g c'" by (simp add: small_in_use_def)
  then show ?thesis
    using bump_okD(4)[OF inv c r s'(1)] usable_small[OF inv s'(1,2)] pool_slot_facts[OF s'(1)] s'(3)
    by (simp add: VT_HDR_def apart_sym)
qed

lemma alloc_bump_post:
  assumes inv: "pool_inv g st" and c: "c < 10" and r: "bump (g_pool st c) + slot_size c \<le> bend (g_pool st c)"
    and n: "n + VT_HDR \<le> slot_size c"
  shows "\<exists>g' p. fst (alloc_bump c st) = Some p \<and> alloc_post g st n p g' (snd (alloc_bump c st))"
proof -
  define s where "s = bump (g_pool st c)"
  have sz: "16 \<le> slot_size c" using pool_slot_facts[OF c] by simp
  then have room: "room st c \<noteq> 0" "slot_size c \<le> room st c" using r by auto
  let ?g = "g\<lparr>slots := (slots g)(c := insert s (slots g c))\<rparr>" and ?st = "snd (alloc_bump c st)"
  have st': "word0 ?st = (word0 st)(s := of_nat c)" "bytes ?st = bytes st" "libc ?st = libc st"
    "g_pool ?st = (g_pool st)(c := (g_pool st c)\<lparr>bump := s + slot_size c\<rparr>)"
    by (simp_all add: alloc_bump_def take_slot_def set_class_def s_def Let_def)
  have lib: "libc_ok st" "blocks_ok g st" "slots_ok g" "bump_ok g st" "free_ok g st" using inv by (simp_all add: pool_inv_def)
  have ch: "in_chunk g s (room st c)" using bump_okD(2)[OF inv c room(1)] s_def by simp
  then have chs: "in_chunk g s (slot_size c)" using room(2) unfolding in_chunk_def by force
  have ch': "in_chunk ?g = in_chunk g" by (simp add: in_chunk_def fun_eq_iff)
  have ap: "apart x (slot_size d) s (slot_size c)" if "d < 10" "x \<in> slots g d" for x d
    using bump_okD(4)[OF inv c room(1) that] by (rule apart_sub) (use room(2) s_def in auto)
  have hs: "s \<notin> slots g d" if "d < 10" for d
    using ap[OF that] sz pool_slot_facts[OF that] by (fastforce simp: apart_def)
  have nl: "s \<notin> larges g" using chunk_apart_large[OF inv ch, of s] room by (auto simp: apart_def VT_HDR_def)
  have "blocks_ok ?g ?st" using lib(2) nl unfolding blocks_ok_def st' by auto
  moreover have "slots_ok ?g"
    using slots_ok_insert[OF lib(3) chs ap] by simp
  moreover have "bump_ok ?g ?st"
    unfolding bump_ok_def Let_def
  proof (intro allI impI conjI ballI)
    fix d :: nat assume d: "d < 10"
    note old = bump_okD[OF inv d]
    have sub: "room st e \<noteq> 0 \<and> bump (g_pool st e) \<le> bump (g_pool ?st e) \<and>
        bump (g_pool ?st e) + room ?st e \<le> bump (g_pool st e) + room st e" if "room ?st e \<noteq> 0" for e
      using that r by (auto simp: st' s_def)
    show "bump (g_pool ?st d) \<le> bend (g_pool ?st d)" using old(1) r by (simp add: st' s_def)
    show "room ?st d = 0 \<or> in_chunk ?g (bump (g_pool ?st d)) (room ?st d)"
      using sub[of d] old(2) unfolding ch' in_chunk_def by (meson le_trans)
    show "bytes ?st x = 0" if "bump (g_pool ?st d) \<le> x \<and> x < bump (g_pool ?st d) + room ?st d" for x
    proof -
      have "room ?st d \<noteq> 0" using that by linarith
      from sub[OF this] that have "bump (g_pool st d) \<le> x" "x < bump (g_pool st d) + room st d" by linarith+
      then show ?thesis unfolding st'(2) by (rule old(3))
    qed
    show "apart x (slot_size e) (bump (g_pool ?st d)) (room ?st d)"
      if rd: "room ?st d \<noteq> 0" and e: "e < 10" and x: "x \<in> slots ?g e" for x e
    proof (cases "x \<in> slots g e")
      case True
      show ?thesis by (rule apart_sub[OF old(4)[OF _ e True]]) (use sub[OF rd] in auto)
    next
      case False
      then have xs: "e = c" "x = s" using x by (auto split: if_splits)
      show ?thesis
      proof (cases "d = c")
        case True
        then show ?thesis using xs by (simp add: apart_def st')
      next
        case False
        have "apart s (room st c) (bump (g_pool st d)) (room st d)"
          unfolding s_def using bump_okD(5)[OF inv c d False room(1)] sub[OF rd] by blast
        then show ?thesis unfolding xs by (rule apart_sub) (use sub[OF rd] room(2) in auto)
      qed
    qed
    show "apart (bump (g_pool ?st d)) (room ?st d) (bump (g_pool ?st e)) (room ?st e)"
      if e: "e < 10" and ne: "e \<noteq> d \<and> room ?st d \<noteq> 0 \<and> room ?st e \<noteq> 0" for e
      by (rule apart_sub[OF old(5)[OF e]]) (use sub ne in auto)
  qed
  moreover have "free_ok ?g ?st"
    unfolding free_ok_def
  proof (intro allI impI)
    fix d :: nat assume d: "d < 10"
    have fd: "flist (word0 st) (freelist (g_pool st d)) (frees g d)" "distinct (frees g d)" "set (frees g d) \<subseteq> slots g d"
      "\<forall>x\<in>slots g d - set (frees g d). word0 st x = of_nat d"
      using lib(5) d unfolding free_ok_def by blast+
    have "s \<notin> set (frees g d)" using hs[OF d] fd(3) by blast
    then show "flist (word0 ?st) (freelist (g_pool ?st d)) (frees ?g d) \<and> distinct (frees ?g d) \<and> set (frees ?g d) \<subseteq> slots ?g d \<and>
        (\<forall>x\<in>slots ?g d - set (frees ?g d). word0 ?st x = of_nat d)"
      using fd hs[OF d] by (auto simp: st' flist_upd)
  qed
  moreover have "libc_ok ?st" using lib(1) by (simp add: libc_ok_def st')
  ultimately have inv': "pool_inv ?g ?st" by (simp add: pool_inv_def)
  have sl: "small_in_use ?g c' = (if c' = c then insert s (small_in_use g c) else small_in_use g c')" for c'
    using hs[OF c] lib(5) c by (auto simp: small_in_use_def free_ok_def)
  have u: "usable ?st (s + VT_HDR) = slot_size c - VT_HDR"
    using usable_small[OF inv' c, of s] sl[of c] by simp
  have apl: "apart s (slot_size c) (q - VT_HDR) (usable st q + VT_HDR)" if "q \<in> in_use g" for q
    using bump_apart_live[OF inv c room(1) that] by (rule apart_sub) (use room(2) s_def in auto)
  then have "undisturbed (in_use g) st ?st"
    using sz by (intro undisturbedI[OF inv, of s "slot_size c"]) (auto simp: st')
  moreover have "in_use ?g = insert (s + VT_HDR) (in_use g)" using live_insert[OF c, where g = g and g' = ?g and s = s] sl by simp
  moreover have "s + VT_HDR \<notin> in_use g" using apl[of "s + VT_HDR"] sz by (auto simp: apart_def VT_HDR_def)
  moreover have "fst (alloc_bump c st) = Some (s + VT_HDR)" by (simp add: alloc_bump_def take_slot_def s_def Let_def)
  moreover have "bytes st (s + VT_HDR + i) = 0" if "i < slot_size c - VT_HDR" for i
    using bump_okD(3)[OF inv c, of "s + VT_HDR + i"] that room(2) by (simp add: s_def)
  ultimately show ?thesis
    using inv' u n sz
    by (intro exI[of _ ?g] exI[of _ "s + VT_HDR"]) (auto simp: alloc_post_def st' VT_HDR_def)
qed

text \<open>The size of the block asked of \<open>calloc\<close>, and what the library promises of what it returns.\<close>

definition calloc_size :: "u64 \<Rightarrow> nat" where
  "calloc_size n =
     (let tot = (if n = 0 then 1 else n) + of_nat VT_HDR in if class_for tot = None then unat tot else VT_CHUNK)"

definition calloc_ok :: "nat option \<Rightarrow> u64 \<Rightarrow> pool \<Rightarrow> bool" where
  "calloc_ok cal n st \<longleftrightarrow> (\<forall>b. cal = Some b \<longrightarrow> fresh_block st b (calloc_size n))"

lemma undisturbed_trans:
  "undisturbed L st st1 \<Longrightarrow> undisturbed L st1 st2 \<Longrightarrow> undisturbed L st st2"
  by (auto simp: undisturbed_def)

lemma undisturbed_mono: "undisturbed L st st' \<Longrightarrow> M \<subseteq> L \<Longrightarrow> undisturbed M st st'"
  by (auto simp: undisturbed_def)

lemma chunk_alloc_post:
  assumes inv: "pool_inv g st" and c: "c < 10" and fresh: "fresh_block st b VT_CHUNK" and n: "n + VT_HDR \<le> slot_size c"
  shows "\<exists>g' p. fst (alloc_bump c (new_chunk c b st)) = Some p \<and> alloc_post g st n p g' (snd (alloc_bump c (new_chunk c b st)))"
proof -
  let ?g = "g\<lparr>chunks := insert b (chunks g)\<rparr>"
  note nc = new_chunk_inv[OF inv c fresh]
  have "bump (g_pool (new_chunk c b st) c) + slot_size c \<le> bend (g_pool (new_chunk c b st) c)"
    using pool_slot_facts[OF c] by (simp add: new_chunk_def set_class_def VT_CHUNK_def)
  then obtain g' p where p: "fst (alloc_bump c (new_chunk c b st)) = Some p"
    "alloc_post ?g (new_chunk c b st) n p g' (snd (alloc_bump c (new_chunk c b st)))"
    using alloc_bump_post[OF nc(1) c _ n] by blast
  have "in_use ?g = in_use g" by (simp add: in_use_def small_in_use_def)
  then have "alloc_post g st n p g' (snd (alloc_bump c (new_chunk c b st)))"
    using p(2) undisturbed_trans[OF nc(2)] by (simp add: alloc_post_def)
  then show ?thesis using p(1) by blast
qed

lemma unat_request: "unat (n :: u64) < 2 ^ 56 \<Longrightarrow> unat ((if n = 0 then 1 else n) + of_nat VT_HDR) = unat (if n = 0 then 1 else n) + VT_HDR"
  by (simp add: unat_word_ariths VT_HDR_def)

lemma vt_host_alloc_post:
  assumes inv: "pool_inv g st" and n: "unat n < 2 ^ 56" and cal: "calloc_ok cal n st"
  shows "case vt_host_alloc cal n st of
           (None, st') \<Rightarrow> st' = st \<and> cal = None
         | (Some p, st') \<Rightarrow> \<exists>g'. alloc_post g st (unat (if n = 0 then 1 else n)) p g' st'"
proof -
  define m where "m = (if n = 0 then 1 else n)"
  have m: "unat m < 2 ^ 56" using n by (simp add: m_def)
  have tot: "unat (m + of_nat VT_HDR) = unat m + VT_HDR" using unat_request[OF n] unfolding m_def .
  show ?thesis
  proof (cases "class_for (m + of_nat VT_HDR)")
    case None
    then have "vt_host_alloc cal n st = alloc_large cal m st"
      by (simp add: vt_host_alloc_def m_def[symmetric] Let_def)
    moreover have "fresh_block st h (unat (m + of_nat VT_HDR))" if "cal = Some h" for h
      using cal that None by (simp add: calloc_ok_def calloc_size_def m_def[symmetric] Let_def)
    ultimately show ?thesis
      using alloc_large_post[OF inv _ m] unfolding m_def[symmetric]
      by (cases cal) (auto simp: alloc_large_def)
  next
    case (Some c)
    then have c: "c < 10" "unat m + VT_HDR \<le> slot_size c" using class_for_Some[OF Some] tot by auto
    have fr: "fresh_block st b VT_CHUNK" if "cal = Some b" for b
      using cal that Some by (simp add: calloc_ok_def calloc_size_def m_def[symmetric] Let_def)
    have eq: "vt_host_alloc cal n st =
        (if freelist (g_pool st c) \<noteq> 0 then alloc_free c st
         else if bump (g_pool st c) + slot_size c > bend (g_pool st c)
         then (case cal of None \<Rightarrow> (None, st) | Some b \<Rightarrow> alloc_bump c (new_chunk c b st))
         else alloc_bump c st)"
      using Some by (simp add: vt_host_alloc_def m_def[symmetric] Let_def)
    have res: "case r of (None, st') \<Rightarrow> st' = st \<and> cal = None | (Some p, st') \<Rightarrow> \<exists>g'. alloc_post g st (unat m) p g' st'"
      if "\<exists>g' p. fst r = Some p \<and> alloc_post g st (unat m) p g' (snd r)" for r
      using that by (cases r) auto
    show ?thesis
      using res[OF alloc_free_post[OF inv c(1) _ c(2)]] res[OF alloc_bump_post[OF inv c(1) _ c(2)]]
        res[OF chunk_alloc_post[OF inv c(1) fr c(2)]]
      unfolding eq m_def[symmetric] by (cases cal) auto
  qed
qed

section \<open>Release\<close>

definition free_post :: "pool_log \<Rightarrow> pool \<Rightarrow> nat \<Rightarrow> pool_log \<Rightarrow> pool \<Rightarrow> bool" where
  "free_post g st p g' st' \<longleftrightarrow> pool_inv g' st' \<and> in_use g' = in_use g - {p} \<and> undisturbed (in_use g - {p}) st st'"

lemma free_large_post:
  assumes inv: "pool_inv g st" and h: "h \<in> larges g"
  shows "free_post g st (h + VT_HDR) (g\<lparr>larges := larges g - {h}\<rparr>) (vt_host_free (h + VT_HDR) st)" (is "free_post g st ?p ?g ?st")
proof -
  have st': "?st = st\<lparr>libc := (libc st)(h := None)\<rparr>"
    using usable_large(2)[OF inv h] by (simp add: vt_host_free_def Let_def VT_HDR_def)
  have lib: "libc_ok st" "blocks_ok g st" "slots_ok g" "bump_ok g st" "free_ok g st" using inv by (simp_all add: pool_inv_def)
  have "libc_ok ?st" using lib(1) unfolding st' libc_ok_def by (auto split: if_splits)
  moreover have "blocks_ok ?g ?st" using lib(2) h unfolding st' blocks_ok_def by auto
  moreover have "slots_ok ?g" using lib(3) by (simp add: slots_ok_def in_chunk_def)
  moreover have "bump_ok ?g ?st" using lib(4) by (rule bump_ok_keep) (auto simp: st')
  moreover have "free_ok ?g ?st" using lib(5) by (simp add: free_ok_def st')
  ultimately have "pool_inv ?g ?st" by (simp add: pool_inv_def)
  moreover have "in_use ?g = in_use g - {?p}"
    using slot_not_large[OF inv] h by (auto simp: in_use_def small_in_use_def)
  ultimately show ?thesis by (simp add: free_post_def undisturbed_def usable_def st')
qed

lemma free_small_post:
  assumes inv: "pool_inv g st" and c: "c < 10" and s: "s \<in> small_in_use g c"
  shows "free_post g st (s + VT_HDR) (g\<lparr>frees := (frees g)(c := s # frees g c)\<rparr>) (vt_host_free (s + VT_HDR) st)"
    (is "free_post g st ?p ?g ?st")
proof -
  have lib: "libc_ok st" "blocks_ok g st" "slots_ok g" "bump_ok g st" "free_ok g st" using inv by (simp_all add: pool_inv_def)
  have sc: "s \<in> slots g c" "s \<notin> set (frees g c)" using s by (auto simp: small_in_use_def)
  have w: "word0 st s = of_nat c" using lib(5) c sc by (simp add: free_ok_def)
  have st': "word0 ?st = (word0 st)(s := of_nat (freelist (g_pool st c)))" "bytes ?st = bytes st" "libc ?st = libc st"
    "g_pool ?st = (g_pool st)(c := (g_pool st c)\<lparr>freelist := s\<rparr>)"
    using small_hdr[OF c] unat_small[OF c] w by (simp_all add: vt_host_free_def set_class_def Let_def VT_HDR_def)
  have pos: "0 < s" using live_in_libc(1)[OF inv, of ?p] c s by (auto simp: in_use_def VT_HDR_def)
  have small: "flist w a xs \<Longrightarrow> set xs \<subseteq> slots g c \<Longrightarrow> a < 2 ^ 64" for w a xs
  proof (cases xs)
    case (Cons x ys)
    assume "flist w a xs" "set xs \<subseteq> slots g c"
    then have "a \<in> slots g c" using Cons by auto
    then obtain b where "libc st b = Some VT_CHUNK" "a + slot_size c \<le> b + VT_CHUNK"
      using slot_in_libc[OF inv slots_in_chunk[OF inv c]] by blast
    then show ?thesis using lib(1) pool_slot_facts[OF c] unfolding libc_ok_def by fastforce
  qed auto
  have "blocks_ok ?g ?st"
    using lib(2) slot_not_large[OF inv c sc(1)] unfolding blocks_ok_def st' by auto
  moreover have "bump_ok ?g ?st" using lib(4) by (rule bump_ok_keep) (auto simp: st')
  moreover have "free_ok ?g ?st"
    unfolding free_ok_def
  proof (intro allI impI)
    fix d :: nat assume d: "d < 10"
    have fd: "flist (word0 st) (freelist (g_pool st d)) (frees g d)" "distinct (frees g d)" "set (frees g d) \<subseteq> slots g d"
      "\<forall>x\<in>slots g d - set (frees g d). word0 st x = of_nat d"
      using lib(5) d unfolding free_ok_def by blast+
    have nd: "s \<notin> slots g d \<and> s \<notin> set (frees g d)" if "d \<noteq> c"
      using slot_unique[OF inv c sc(1) d] that fd(3) by blast
    show "flist (word0 ?st) (freelist (g_pool ?st d)) (frees ?g d) \<and> distinct (frees ?g d) \<and> set (frees ?g d) \<subseteq> slots ?g d \<and>
        (\<forall>x\<in>slots ?g d - set (frees ?g d). word0 ?st x = of_nat d)"
    proof (cases "d = c")
      case True
      then show ?thesis using fd sc pos unat_addr[OF small[OF fd(1)]] by (auto simp: st' flist_upd)
    next
      case False
      then show ?thesis using fd nd by (auto simp: st' flist_upd)
    qed
  qed
  moreover have "slots_ok ?g" using lib(3) by (simp add: slots_ok_def in_chunk_def)
  moreover have "libc_ok ?st" using lib(1) by (simp add: libc_ok_def st')
  ultimately have inv': "pool_inv ?g ?st" by (simp add: pool_inv_def)
  have "in_use g = insert ?p (in_use ?g)"
    by (rule live_insert[OF c]) (use sc in \<open>auto simp: small_in_use_def\<close>)
  then have "in_use ?g = in_use g - {?p}" using new_pointer[OF inv' c, of s] sc by (auto simp: small_in_use_def)
  moreover have "undisturbed (in_use g - {?p}) st ?st"
    unfolding undisturbed_def
  proof (intro ballI conjI allI impI)
    fix q i assume q: "q \<in> in_use g - {?p}"
    then have "q - VT_HDR \<noteq> s" using live_in_libc(1)[OF inv, of q] by auto
    then show "usable ?st q = usable st q" by (simp add: usable_def st')
  qed (simp add: st')
  ultimately show ?thesis using inv' by (simp add: free_post_def)
qed

lemma vt_host_free_post:
  assumes inv: "pool_inv g st" and p: "p \<in> in_use g"
  shows "\<exists>g'. free_post g st p g' (vt_host_free p st)"
  using p free_large_post[OF inv] free_small_post[OF inv] unfolding in_use_def by blast

section \<open>Writing and growing a block\<close>

text \<open>Writes inside a block in use touch neither the other blocks nor the zero bytes still to be carved out.\<close>

lemma write_post:
  assumes inv: "pool_inv g st" and p: "p \<in> in_use g"
    and out: "\<And>x. \<not> (p - VT_HDR \<le> x \<and> x < p + usable st p) \<Longrightarrow> b x = bytes st x"
  shows "pool_inv g (st\<lparr>bytes := b\<rparr>)" "usable (st\<lparr>bytes := b\<rparr>) = usable st" "undisturbed (in_use g - {p}) st (st\<lparr>bytes := b\<rparr>)"
proof -
  have hp: "VT_HDR < p" using live_in_libc(1)[OF inv p] .
  show u: "usable (st\<lparr>bytes := b\<rparr>) = usable st" by (simp add: usable_def fun_eq_iff)
  have "b x = 0" if c: "c < 10" and x: "bump (g_pool st c) \<le> x" "x < bump (g_pool st c) + room st c" for c x
  proof -
    have "room st c \<noteq> 0" using x by linarith
    then have "\<not> (p - VT_HDR \<le> x \<and> x < p + usable st p)"
      using bump_apart_live[OF inv c _ p] x hp by (auto simp: apart_def)
    then show ?thesis using out bump_okD(3)[OF inv c x] by simp
  qed
  then have "bump_ok g (st\<lparr>bytes := b\<rparr>)" using inv unfolding pool_inv_def bump_ok_def Let_def by simp
  then show "pool_inv g (st\<lparr>bytes := b\<rparr>)" using inv by (simp add: pool_inv_def libc_ok_def blocks_ok_def free_ok_def)
  show "undisturbed (in_use g - {p}) st (st\<lparr>bytes := b\<rparr>)"
    unfolding undisturbed_def u
  proof (intro ballI conjI allI impI refl)
    fix q i assume q: "q \<in> in_use g - {p}" and i: "i < usable st q"
    then have "apart (p - VT_HDR) (usable st p + VT_HDR) (q - VT_HDR) (usable st q + VT_HDR)"
      using live_apart[OF inv p] by blast
    then have "\<not> (p - VT_HDR \<le> q + i \<and> q + i < p + usable st p)"
      using hp i by (auto simp: apart_def)
    then show "bytes (st\<lparr>bytes := b\<rparr>) (q + i) = bytes st (q + i)" using out by simp
  qed
qed

definition realloc_post :: "pool_log \<Rightarrow> pool \<Rightarrow> nat \<Rightarrow> nat \<Rightarrow> nat \<Rightarrow> pool_log \<Rightarrow> pool \<Rightarrow> bool" where
  "realloc_post g st p n q g' st' \<longleftrightarrow>
     pool_inv g' st' \<and> 0 < q \<and> q \<notin> in_use g - {p} \<and> in_use g' = insert q (in_use g - {p}) \<and> n \<le> usable st' q \<and>
     (\<forall>i. i < usable st p \<and> i < n \<longrightarrow> bytes st' (q + i) = bytes st (p + i)) \<and> undisturbed (in_use g - {p}) st st'"

text \<open>What the library promises of the block the call obtains: of \<open>realloc\<close>, that it overlaps none but
  the one it replaces.\<close>

definition realloc_ok :: "nat option \<Rightarrow> nat \<Rightarrow> u64 \<Rightarrow> pool \<Rightarrow> bool" where
  "realloc_ok cal p n st \<longleftrightarrow>
     (if word0 st (p - VT_HDR) AND 0xFF = VT_LARGE_TAG \<and> class_for (n + of_nat VT_HDR) = None
      then \<forall>b. cal = Some b \<longrightarrow>
             fresh_block (st\<lparr>libc := (libc st)(p - VT_HDR := None)\<rparr>) b (unat (n + of_nat VT_HDR))
      else calloc_ok cal n st)"

lemma realloc_copy_post:
  assumes inv: "pool_inv g st" and p: "p \<in> in_use g" and n: "n \<noteq> 0" "unat n < 2 ^ 56" and cal: "calloc_ok cal n st"
  shows "case realloc_copy cal p n (usable st p) st of
           (None, st') \<Rightarrow> st' = st \<and> cal = None
         | (Some q, st') \<Rightarrow> \<exists>g'. realloc_post g st p (unat n) q g' st'"
proof -
  obtain r st1 where r: "vt_host_alloc cal n st = (r, st1)" by fastforce
  note al = vt_host_alloc_post[OF inv n(2) cal, unfolded r, simplified n(1) if_False split]
  show ?thesis
  proof (cases r)
    case None
    then have "realloc_copy cal p n (usable st p) st = (None, st1)" by (simp add: realloc_copy_def r del: if_split)
    then show ?thesis using al None by simp
  next
    case (Some q)
    then obtain g1 where g1: "alloc_post g st (unat n) q g1 st1" using al by auto
    let ?k = "if usable st p < unat n then usable st p else unat n"
    let ?b = "copy_bytes q p ?k (bytes st1)"
    have inv1: "pool_inv g1 st1" and q: "0 < q" "q \<notin> in_use g" "in_use g1 = insert q (in_use g)" "unat n \<le> usable st1 q"
      and und: "undisturbed (in_use g) st st1" using g1 by (auto simp: alloc_post_def)
    have up: "usable st1 p = usable st p" "\<forall>i<usable st p. bytes st1 (p + i) = bytes st (p + i)"
      using und p by (auto simp: undisturbed_def)
    have out: "?b x = bytes st1 x" if "\<not> (q - VT_HDR \<le> x \<and> x < q + usable st1 q)" for x
      using that q(4) by (auto simp: copy_bytes_def)
    have ql: "q \<in> in_use g1" using q(3) by simp
    note w = write_post[OF inv1 ql out]
    obtain g2 where g2: "free_post g1 (st1\<lparr>bytes := ?b\<rparr>) p g2 (vt_host_free p (st1\<lparr>bytes := ?b\<rparr>))"
      using vt_host_free_post[OF w(1)] p q(3) by blast
    let ?st = "vt_host_free p (st1\<lparr>bytes := ?b\<rparr>)"
    have inv2: "pool_inv g2 ?st" "in_use g2 = in_use g1 - {p}" "undisturbed (in_use g1 - {p}) (st1\<lparr>bytes := ?b\<rparr>) ?st"
      using g2 by (auto simp: free_post_def)
    have qp: "q \<noteq> p" using q(2) p by blast
    have lg: "in_use g2 = insert q (in_use g - {p})" using inv2(2) q(3) qp by auto
    have "q \<in> in_use g1 - {p}" using q(3) qp by blast
    then have uq: "usable ?st q = usable st1 q" "\<forall>i<usable st1 q. bytes ?st (q + i) = ?b (q + i)"
      using inv2(3) w(2) unfolding undisturbed_def by auto
    have "bytes ?st (q + i) = bytes st (p + i)" if "i < usable st p \<and> i < unat n" for i
    proof -
      have "bytes ?st (q + i) = ?b (q + i)" using uq(2) that q(4) by simp
      also have "\<dots> = bytes st1 (p + i)" using that by (auto simp: copy_bytes_def)
      finally show ?thesis using up(2) that by simp
    qed
    moreover have "undisturbed (in_use g - {p}) st ?st"
    proof (rule undisturbed_trans[OF undisturbed_mono[OF und]], blast)
      have "in_use g - {p} \<subseteq> in_use g1 - {q}" "in_use g - {p} \<subseteq> in_use g1 - {p}" using q(2,3) by auto
      then show "undisturbed (in_use g - {p}) st1 ?st"
        using undisturbed_trans[OF undisturbed_mono[OF w(3)] undisturbed_mono[OF inv2(3)]] by blast
    qed
    ultimately have "realloc_post g st p (unat n) q g2 ?st"
      using inv2(1) lg q uq(1) by (simp add: realloc_post_def)
    then show ?thesis unfolding Some by (auto simp: realloc_copy_def r Some)
  qed
qed

lemma realloc_large_post:
  assumes inv: "pool_inv g st" and h: "h \<in> larges g" and n: "unat n < 2 ^ 56"
    and fresh: "fresh_block (st\<lparr>libc := (libc st)(h := None)\<rparr>) nh (unat (n + of_nat VT_HDR))"
  shows "\<exists>g'. realloc_post g st (h + VT_HDR) (unat n) (nh + VT_HDR) g' (snd (realloc_large (Some nh) h n st))"
proof -
  let ?p = "h + VT_HDR" and ?q = "nh + VT_HDR" and ?st = "snd (realloc_large (Some nh) h n st)"
  define st1 where "st1 = st\<lparr>libc := (libc st)(h := None)\<rparr>"
  obtain g1 where "free_post g st ?p g1 st1"
    using free_large_post[OF inv h] usable_large(2)[OF inv h] by (auto simp: st1_def vt_host_free_def Let_def VT_HDR_def)
  then have g1: "pool_inv g1 st1" "in_use g1 = in_use g - {?p}" by (simp_all add: free_post_def)
  define st2 where "st2 = snd (alloc_large (Some nh) n st1)"
  obtain g2 where "alloc_post g1 st1 (unat n) ?q g2 st2"
    using alloc_large_post[OF g1(1) fresh[folded st1_def] n] unfolding st2_def by blast
  then have g2: "pool_inv g2 st2" "?q \<notin> in_use g1" "in_use g2 = insert ?q (in_use g1)" "unat n \<le> usable st2 ?q" "undisturbed (in_use g1) st1 st2"
    by (simp_all add: alloc_post_def)
  have k: "unat (n + of_nat VT_HDR) = unat n + VT_HDR" using n by (simp add: unat_word_ariths VT_HDR_def)
  have old: "libc st h = Some (usable st ?p + VT_HDR)" using usable_large(1)[OF inv h] .
  let ?b = "copy_bytes nh h (min (usable st ?p + VT_HDR) (unat n + VT_HDR)) (bytes st)"
  have st': "?st = st2\<lparr>bytes := ?b\<rparr>"
    by (simp add: realloc_large_def st2_def st1_def alloc_large_def Let_def old k)
  have "?b x = bytes st2 x" if "\<not> (?q - VT_HDR \<le> x \<and> x < ?q + usable st2 ?q)" for x
    using that g2(4) by (auto simp: copy_bytes_def st2_def alloc_large_def st1_def zero_bytes_def k)
  note w = write_post[OF g2(1) _ this]
  have w: "pool_inv g2 ?st" "usable ?st = usable st2" "undisturbed (in_use g2 - {?q}) st2 ?st"
    using w g2(3) unfolding st' by blast+
  have "undisturbed (in_use g1) st ?st"
    using undisturbed_trans[OF g2(5) undisturbed_mono[OF w(3)]] g2(2,3)
    by (auto simp: undisturbed_def st1_def usable_def)
  moreover have "bytes ?st (?q + i) = bytes st (?p + i)" if "i < usable st ?p \<and> i < unat n" for i
    using that by (simp add: st' copy_bytes_def ac_simps)
  ultimately have "realloc_post g st ?p (unat n) ?q g2 ?st"
    unfolding realloc_post_def using w g2 g1(2) by (simp add: VT_HDR_def)
  then show ?thesis by blast
qed

lemma usable_hdr:
  "word0 st (p - VT_HDR) AND 0xFF = VT_LARGE_TAG \<Longrightarrow> usable st p = unat (drop_bit 8 (word0 st (p - VT_HDR)))"
  "word0 st (p - VT_HDR) AND 0xFF \<noteq> VT_LARGE_TAG \<Longrightarrow> usable st p = slot_size (unat (word0 st (p - VT_HDR))) - VT_HDR"
  by (simp_all add: usable_def)

lemma live_header:
  assumes inv: "pool_inv g st" and p: "p \<in> in_use g"
  shows "word0 st (p - VT_HDR) AND 0xFF = VT_LARGE_TAG \<Longrightarrow> p - VT_HDR \<in> larges g \<and> VT_HDR < p"
    "word0 st (p - VT_HDR) AND 0xFF \<noteq> VT_LARGE_TAG \<Longrightarrow>
       unat (word0 st (p - VT_HDR)) < 10 \<and> p - VT_HDR \<in> small_in_use g (unat (word0 st (p - VT_HDR)))"
proof -
  have sm: "word0 st s = of_nat c" if "c < 10" "s \<in> small_in_use g c" for c s
    using inv that by (simp add: pool_inv_def free_ok_def small_in_use_def)
  note big = usable_large(2)[OF inv]
  show "word0 st (p - VT_HDR) AND 0xFF = VT_LARGE_TAG \<Longrightarrow> p - VT_HDR \<in> larges g \<and> VT_HDR < p"
    using p sm small_hdr live_in_libc(1)[OF inv p] unfolding in_use_def by fastforce
  show "word0 st (p - VT_HDR) AND 0xFF \<noteq> VT_LARGE_TAG \<Longrightarrow>
       unat (word0 st (p - VT_HDR)) < 10 \<and> p - VT_HDR \<in> small_in_use g (unat (word0 st (p - VT_HDR)))"
    using p sm big unat_small unfolding in_use_def by fastforce
qed

lemma vt_host_realloc_post:
  assumes inv: "pool_inv g st" and p: "p \<in> in_use g" and n: "n \<noteq> 0" "unat n < 2 ^ 56" and cal: "realloc_ok cal p n st"
  shows "case vt_host_realloc cal p n st of
           (None, st') \<Rightarrow> st' = st \<and> cal = None
         | (Some q, st') \<Rightarrow> \<exists>g'. realloc_post g st p (unat n) q g' st'"
proof -
  have hp: "VT_HDR < p" using live_in_libc(1)[OF inv p] .
  define hv where "hv = word0 st (p - VT_HDR)"
  define newc where "newc = class_for (n + of_nat VT_HDR)"
  have eq: "vt_host_realloc cal p n st =
      (if hv AND 0xFF = VT_LARGE_TAG \<and> newc = None then realloc_large cal (p - VT_HDR) n st
       else if hv AND 0xFF \<noteq> VT_LARGE_TAG \<and> newc = Some (unat hv) then (Some p, st)
       else realloc_copy cal p n (usable st p) st)"
    using hp n(1) by (simp add: vt_host_realloc_def hv_def newc_def Let_def usable_hdr)
  consider (grow) "hv AND 0xFF = VT_LARGE_TAG" "newc = None"
    | (stay) "hv AND 0xFF \<noteq> VT_LARGE_TAG" "newc = Some (unat hv)"
    | (move) "\<not> (hv AND 0xFF = VT_LARGE_TAG \<and> newc = None)" "\<not> (hv AND 0xFF \<noteq> VT_LARGE_TAG \<and> newc = Some (unat hv))"
    by blast
  then show ?thesis
  proof cases
    case grow
    then have e: "vt_host_realloc cal p n st = realloc_large cal (p - VT_HDR) n st" unfolding eq by simp
    have "p - VT_HDR \<in> larges g" using live_header(1)[OF inv p] grow(1) by (simp add: hv_def)
    moreover have "fresh_block (st\<lparr>libc := (libc st)(p - VT_HDR := None)\<rparr>) b (unat (n + of_nat VT_HDR))" if "cal = Some b" for b
      using cal grow that unfolding realloc_ok_def hv_def newc_def by auto
    ultimately have "\<exists>g'. realloc_post g st p (unat n) (b + VT_HDR) g' (snd (realloc_large (Some b) (p - VT_HDR) n st))"
      if "cal = Some b" for b using realloc_large_post[OF inv, of "p - VT_HDR" n b] n(2) that hp by simp
    then show ?thesis unfolding e by (cases cal) (auto simp: realloc_large_def Let_def)
  next
    case stay
    then have e: "vt_host_realloc cal p n st = (Some p, st)" unfolding eq by simp
    have "unat (n + of_nat VT_HDR) = unat n + VT_HDR" using n(2) by (simp add: unat_word_ariths VT_HDR_def)
    then have "unat n \<le> usable st p"
      using class_for_Some[of "n + of_nat VT_HDR" "unat hv"] stay usable_hdr(2)[of st p] by (auto simp: newc_def hv_def)
    then have "realloc_post g st p (unat n) p g st"
      using inv p hp by (auto simp: realloc_post_def undisturbed_def)
    then show ?thesis unfolding e by auto
  next
    case move
    then have e: "vt_host_realloc cal p n st = realloc_copy cal p n (usable st p) st" unfolding eq by auto
    have "calloc_ok cal n st" using cal move(1) unfolding realloc_ok_def hv_def newc_def by auto
    then show ?thesis unfolding e by (rule realloc_copy_post[OF inv p n])
  qed
qed

section \<open>Refinement of an abstract heap\<close>

text \<open>The abstract heap maps each pointer in use to the bytes of its block, as long as was asked for. A state
  represents it when the blocks hold these bytes.\<close>

type_synonym heap = "nat \<rightharpoonup> 8 word list"

definition holds_heap :: "pool_log \<Rightarrow> pool \<Rightarrow> heap \<Rightarrow> bool" where
  "holds_heap g st H \<longleftrightarrow>
     pool_inv g st \<and> dom H = in_use g \<and>
     (\<forall>p bs. H p = Some bs \<longrightarrow> length bs \<le> usable st p \<and> (\<forall>i<length bs. bytes st (p + i) = bs ! i))"

definition represents :: "pool \<Rightarrow> heap \<Rightarrow> bool" where
  "represents st H \<longleftrightarrow> (\<exists>g. holds_heap g st H)"

lemma holds_heap_old:
  assumes H: "holds_heap g st H" and u: "undisturbed (in_use g - {p}) st st'" and x: "H x = Some bs" "x \<noteq> p"
  shows "length bs \<le> usable st' x \<and> (\<forall>i<length bs. bytes st' (x + i) = bs ! i)"
proof -
  have "x \<in> in_use g - {p}" and h: "length bs \<le> usable st x" "\<forall>i<length bs. bytes st (x + i) = bs ! i"
    using H x by (auto simp: holds_heap_def)
  then have "usable st' x = usable st x" "\<forall>i<usable st x. bytes st' (x + i) = bytes st (x + i)"
    using u unfolding undisturbed_def by blast+
  then show ?thesis using h by simp
qed

lemma holds_heap_step:
  assumes H: "holds_heap g st H" and inv: "pool_inv g' st'" and dom: "in_use g' = insert q (in_use g - {p})"
    and u: "undisturbed (in_use g - {p}) st st'" and q: "length cs \<le> usable st' q" "\<forall>i<length cs. bytes st' (q + i) = cs ! i"
  shows "holds_heap g' st' ((H(p := None))(q \<mapsto> cs))"
  unfolding holds_heap_def
proof (intro conjI allI impI)
  show "dom ((H(p := None))(q \<mapsto> cs)) = in_use g'" using H dom by (auto simp: holds_heap_def)
  fix x bs assume x: "((H(p := None))(q \<mapsto> cs)) x = Some bs"
  have "length bs \<le> usable st' x \<and> (\<forall>i<length bs. bytes st' (x + i) = bs ! i)"
    using x q holds_heap_old[OF H u] by (cases "x = q") (auto split: if_splits)
  then show "length bs \<le> usable st' x" "\<And>i. i < length bs \<Longrightarrow> bytes st' (x + i) = bs ! i" by blast+
qed (rule inv)

lemma represents_alloc:
  assumes "represents st H" and n: "unat n < 2 ^ 56" and cal: "calloc_ok cal n st" and r: "vt_host_alloc cal n st = (r, st')"
  shows "case r of None \<Rightarrow> st' = st \<and> cal = None
    | Some p \<Rightarrow> H p = None \<and> represents st' (H(p \<mapsto> replicate (unat n) 0))"
proof -
  obtain g where g: "holds_heap g st H" using assms(1) unfolding represents_def by blast
  then have inv: "pool_inv g st" and dom: "dom H = in_use g" by (simp_all add: holds_heap_def)
  note post = vt_host_alloc_post[OF inv n cal, unfolded r split]
  show ?thesis
  proof (cases r)
    case (Some p)
    then obtain g' where "alloc_post g st (unat (if n = 0 then 1 else n)) p g' st'" using post by auto
    then have p: "pool_inv g' st'" "p \<notin> in_use g" "in_use g' = insert p (in_use g - {p})" "unat n \<le> usable st' p"
      "\<forall>i<usable st' p. bytes st' (p + i) = 0" "undisturbed (in_use g - {p}) st st'"
      unfolding alloc_post_def by (auto split: if_splits)
    have "H p = None" using p(2) dom by blast
    moreover have "holds_heap g' st' ((H(p := None))(p \<mapsto> replicate (unat n) 0))"
      by (rule holds_heap_step[OF g p(1,3,6)]) (use p(4,5) in auto)
    ultimately show ?thesis using Some unfolding represents_def by auto
  qed (use post in simp)
qed

lemma represents_free: "represents st H \<Longrightarrow> p \<in> dom H \<Longrightarrow> represents (vt_host_free p st) (H(p := None))"
proof -
  assume "represents st H" "p \<in> dom H"
  then obtain g where g: "pool_inv g st" "dom H = in_use g" "holds_heap g st H" "p \<in> in_use g" by (auto simp: represents_def holds_heap_def)
  then obtain g' where g': "pool_inv g' (vt_host_free p st)" "in_use g' = in_use g - {p}" "undisturbed (in_use g - {p}) st (vt_host_free p st)"
    using vt_host_free_post[OF g(1,4)] unfolding free_post_def by blast
  have "holds_heap g' (vt_host_free p st) (H(p := None))"
    unfolding holds_heap_def
  proof (intro conjI allI impI)
    fix x bs assume x: "(H(p := None)) x = Some bs"
    then have "length bs \<le> usable (vt_host_free p st) x \<and> (\<forall>i<length bs. bytes (vt_host_free p st) (x + i) = bs ! i)"
      using holds_heap_old[OF g(3) g'(3)] by (auto split: if_splits)
    then show "length bs \<le> usable (vt_host_free p st) x" "\<And>i. i < length bs \<Longrightarrow> bytes (vt_host_free p st) (x + i) = bs ! i" by blast+
  qed (use g g' in auto)
  then show ?thesis unfolding represents_def by blast
qed

lemma represents_write:
  assumes "represents st H" and p: "H p = Some bs" and len: "length cs = length bs"
    and b: "\<forall>i<length bs. b (p + i) = cs ! i" "\<And>x. \<not> (p \<le> x \<and> x < p + length bs) \<Longrightarrow> b x = bytes st x"
  shows "represents (st\<lparr>bytes := b\<rparr>) (H(p \<mapsto> cs))"
proof -
  obtain g where g: "holds_heap g st H" using assms(1) unfolding represents_def by blast
  then have inv: "pool_inv g st" "p \<in> in_use g" "length bs \<le> usable st p" using p by (auto simp: holds_heap_def)
  have out: "b x = bytes st x" if "\<not> (p - VT_HDR \<le> x \<and> x < p + usable st p)" for x
    by (rule b(2)) (use that inv(3) in linarith)
  note w = write_post[OF inv(1,2) out]
  have "holds_heap g (st\<lparr>bytes := b\<rparr>) ((H(p := None))(p \<mapsto> cs))"
    by (rule holds_heap_step[OF g w(1) _ w(3)]) (use inv b(1) len w(2) in auto)
  then show ?thesis unfolding represents_def by auto
qed

text \<open>The contents of a block after \<open>vt_host_realloc\<close>: what fits of the old bytes, then bytes that are unspecified.\<close>

definition regrown :: "8 word list \<Rightarrow> nat \<Rightarrow> (nat \<Rightarrow> 8 word) \<Rightarrow> nat \<Rightarrow> 8 word list" where
  "regrown bs q b n = take n bs @ map (\<lambda>i. b (q + i)) [length bs..<n]"

lemma represents_realloc:
  assumes "represents st H" and p: "H p = Some bs" and n: "n \<noteq> 0" "unat n < 2 ^ 56" and cal: "realloc_ok cal p n st"
    and r: "vt_host_realloc cal p n st = (r, st')"
  shows "case r of None \<Rightarrow> st' = st \<and> cal = None
    | Some q \<Rightarrow> (H(p := None)) q = None \<and> represents st' ((H(p := None))(q \<mapsto> regrown bs q (bytes st') (unat n)))"
proof -
  obtain g where g: "holds_heap g st H" using assms(1) unfolding represents_def by blast
  then have inv: "pool_inv g st" and dom: "dom H = in_use g" and pl: "p \<in> in_use g" and bs: "length bs \<le> usable st p"
    "\<forall>i<length bs. bytes st (p + i) = bs ! i" using p by (auto simp: holds_heap_def)
  note post = vt_host_realloc_post[OF inv pl n cal, unfolded r split]
  show ?thesis
  proof (cases r)
    case (Some q)
    then obtain g' where "realloc_post g st p (unat n) q g' st'" using post by auto
    then have q: "pool_inv g' st'" "q \<notin> in_use g - {p}" "in_use g' = insert q (in_use g - {p})" "unat n \<le> usable st' q"
      "\<forall>i. i < usable st p \<and> i < unat n \<longrightarrow> bytes st' (q + i) = bytes st (p + i)" "undisturbed (in_use g - {p}) st st'"
      unfolding realloc_post_def by auto
    have len: "length (regrown bs q (bytes st') (unat n)) = unat n" by (simp add: regrown_def)
    have "(H(p := None)) q = None" using q(2) dom by auto
    moreover have "holds_heap g' st' ((H(p := None))(q \<mapsto> regrown bs q (bytes st') (unat n)))"
      by (rule holds_heap_step[OF g q(1,3,6)], unfold len) (use q(4,5) bs in \<open>auto simp: regrown_def nth_append\<close>)
    ultimately show ?thesis using Some unfolding represents_def by auto
  qed (use post in simp)
qed

lemma represents_apart:
  assumes "represents st H" "H p = Some bs" "H q = Some cs" "p \<noteq> q"
  shows "apart (p - VT_HDR) (length bs + VT_HDR) (q - VT_HDR) (length cs + VT_HDR)"
proof -
  obtain g where g: "holds_heap g st H" using assms(1) unfolding represents_def by blast
  then have "apart (p - VT_HDR) (usable st p + VT_HDR) (q - VT_HDR) (usable st q + VT_HDR)"
    using live_apart[of g st p q] assms by (auto simp: holds_heap_def)
  then show ?thesis by (rule apart_sub) (use g assms in \<open>auto simp: holds_heap_def\<close>)
qed

lemma represents_block:
  "represents st H \<Longrightarrow> H p = Some bs \<Longrightarrow> VT_HDR < p \<and> (\<forall>i<length bs. bytes st (p + i) = bs ! i)"
  using live_in_libc(1) unfolding represents_def holds_heap_def by blast

text \<open>The contract of a host allocator towards the runtime above it.\<close>

locale host_heap =
  fixes rep :: "'s \<Rightarrow> heap \<Rightarrow> bool"
    and ready :: "'c \<Rightarrow> u64 \<Rightarrow> 's \<Rightarrow> bool"
    and alloc :: "'c \<Rightarrow> u64 \<Rightarrow> 's \<Rightarrow> nat option \<times> 's"
    and release :: "nat \<Rightarrow> 's \<Rightarrow> 's"
  assumes alloc_law:
      "rep st H \<Longrightarrow> unat n < 2 ^ 56 \<Longrightarrow> ready cal n st \<Longrightarrow> alloc cal n st = (Some p, st') \<Longrightarrow>
         H p = None \<and> rep st' (H(p \<mapsto> replicate (unat n) 0))"
    and release_law: "rep st H \<Longrightarrow> p \<in> dom H \<Longrightarrow> rep (release p st) (H(p := None))"
begin

lemma alloc_release:
  assumes "rep st H" "unat n < 2 ^ 56" "ready cal n st" "alloc cal n st = (Some p, st')"
  shows "rep (release p st') H"
proof -
  have "H p = None" "rep st' (H(p \<mapsto> replicate (unat n) 0))" using alloc_law[OF assms] by blast+
  then show ?thesis using release_law[of st' "H(p \<mapsto> replicate (unat n) 0)" p] by (simp add: fun_upd_idem)
qed

lemma release_all:
  "rep st H \<Longrightarrow> distinct ps \<Longrightarrow> set ps \<subseteq> dom H \<Longrightarrow> rep (fold release ps st) (H |` (- set ps))"
proof (induction ps arbitrary: st H)
  case Nil
  then show ?case by (simp add: restrict_map_def)
next
  case (Cons p ps)
  have "rep (fold release ps (release p st)) (H(p := None) |` (- set ps))"
    by (rule Cons.IH[OF release_law]) (use Cons.prems in auto)
  moreover have "H(p := None) |` (- set ps) = H |` (- set (p # ps))" by (auto simp: restrict_map_def)
  ultimately show ?case by simp
qed

end

interpretation pool_heap: host_heap represents calloc_ok vt_host_alloc vt_host_free
  by unfold_locales (auto dest: represents_alloc represents_free)

text \<open>Runs of the program over the allocator: it asks for blocks, writes inside those in use, grows them and gives
  them back. The memory at the start is arbitrary.\<close>

definition pool_start :: "(nat \<Rightarrow> u64) \<Rightarrow> (nat \<Rightarrow> 8 word) \<Rightarrow> pool" where
  "pool_start w b =
     \<lparr>word0 = w, bytes = b, g_pool = (\<lambda>c. \<lparr>freelist = 0, bump = 0, bend = 0\<rparr>), libc = Map.empty\<rparr>"

inductive pool_reach :: "pool \<Rightarrow> heap \<Rightarrow> bool" where
  start: "pool_reach (pool_start w b) Map.empty"
| alloc: "pool_reach st H \<Longrightarrow> unat n < 2 ^ 56 \<Longrightarrow> calloc_ok cal n st \<Longrightarrow> vt_host_alloc cal n st = (Some p, st') \<Longrightarrow>
    pool_reach st' (H(p \<mapsto> replicate (unat n) 0))"
| alloc_null: "pool_reach st H \<Longrightarrow> unat n < 2 ^ 56 \<Longrightarrow> calloc_ok cal n st \<Longrightarrow> vt_host_alloc cal n st = (None, st') \<Longrightarrow>
    pool_reach st' H"
| store: "pool_reach st H \<Longrightarrow> H p = Some bs \<Longrightarrow> i < length bs \<Longrightarrow>
    pool_reach (st\<lparr>bytes := (bytes st)(p + i := v)\<rparr>) (H(p \<mapsto> bs[i := v]))"
| release: "pool_reach st H \<Longrightarrow> p \<in> dom H \<Longrightarrow> pool_reach (vt_host_free p st) (H(p := None))"
| release_null: "pool_reach st H \<Longrightarrow> pool_reach (vt_host_free 0 st) H"
| grow: "pool_reach st H \<Longrightarrow> H p = Some bs \<Longrightarrow> n \<noteq> 0 \<Longrightarrow> unat n < 2 ^ 56 \<Longrightarrow> realloc_ok cal p n st \<Longrightarrow>
    vt_host_realloc cal p n st = (Some q, st') \<Longrightarrow>
    pool_reach st' ((H(p := None))(q \<mapsto> regrown bs q (bytes st') (unat n)))"
| grow_null: "pool_reach st H \<Longrightarrow> H p = Some bs \<Longrightarrow> n \<noteq> 0 \<Longrightarrow> unat n < 2 ^ 56 \<Longrightarrow> realloc_ok cal p n st \<Longrightarrow>
    vt_host_realloc cal p n st = (None, st') \<Longrightarrow> pool_reach st' H"

lemma represents_start: "represents (pool_start w b) Map.empty"
proof -
  define g where "g = \<lparr>slots = (\<lambda>c. {}), frees = (\<lambda>c. []), chunks = {}, larges = {}\<rparr>"
  have "holds_heap g (pool_start w b) Map.empty"
    by (simp add: holds_heap_def pool_inv_def libc_ok_def blocks_ok_def slots_ok_def bump_ok_def free_ok_def in_use_def small_in_use_def
        pool_start_def g_def)
  then show ?thesis unfolding represents_def by blast
qed

lemma pool_reach_represents: "pool_reach st H \<Longrightarrow> represents st H"
proof (induction rule: pool_reach.induct)
  case (alloc st H n cal p st')
  show ?case using represents_alloc[OF alloc.IH alloc.hyps(2,3,4), unfolded option.case] alloc.IH by blast
next
  case (alloc_null st H n cal st')
  show ?case using represents_alloc[OF alloc_null.IH alloc_null.hyps(2,3,4), unfolded option.case] alloc_null.IH by blast
next
  case (store st H p bs i v)
  show ?case by (rule represents_write[OF store.IH store.hyps(2)]) (use store.hyps(3) represents_block[OF store.IH store.hyps(2)] in \<open>auto simp: nth_list_update\<close>)
next
  case (grow st H p bs n cal q st')
  show ?case using represents_realloc[OF grow.IH grow.hyps(2,3,4,5,6), unfolded option.case] grow.IH by blast
next
  case (grow_null st H p bs n cal st')
  show ?case using represents_realloc[OF grow_null.IH grow_null.hyps(2,3,4,5,6), unfolded option.case] grow_null.IH by blast
next
  case (release st H p)
  show ?case by (rule represents_free[OF release.IH release.hyps(2)])
qed (simp_all add: represents_start vt_host_free_def)

text \<open>C32: In every run, each block the allocator has handed out and that was not given back holds exactly what
  the program last wrote there (zeros before that, and what fits of the old bytes after a resize), and no two blocks overlap, with
  their headers.\<close>

theorem pool_refines_heap:
  assumes "pool_reach st H" and "H p = Some bs"
  shows "VT_HDR < p \<and> (\<forall>i<length bs. bytes st (p + i) = bs ! i) \<and>
    (\<forall>q cs. H q = Some cs \<and> p \<noteq> q \<longrightarrow> apart (p - VT_HDR) (length bs + VT_HDR) (q - VT_HDR) (length cs + VT_HDR))"
proof -
  have r: "represents st H" by (rule pool_reach_represents[OF assms(1)])
  then show ?thesis using represents_block[OF r assms(2)] represents_apart[OF r assms(2)] by blast
qed

text \<open>A run: a small block from a fresh chunk, then a large one.\<close>

theorem pool_refines_heap_witness:
  "\<exists>st H. pool_reach st H \<and> H 100008 = Some (replicate 24 0) \<and> H 500008 = Some (replicate 600 0) \<and>
     apart 100000 32 500000 608"
proof -
  define st0 where "st0 = pool_start (\<lambda>x. 7) (\<lambda>x. 9)"
  define st1 where "st1 = snd (vt_host_alloc (Some 100000) 24 st0)"
  define st2 where "st2 = snd (vt_host_alloc (Some 500000) 600 st1)"
  note ev = vt_host_alloc_def class_for_def pool_class_of_def pool_slot_def VT_HDR_def VT_POOL_MAX_def VT_CHUNK_def alloc_bump_def
    new_chunk_def take_slot_def set_class_def alloc_large_def pool_start_def st0_def st1_def st2_def
  have r1: "vt_host_alloc (Some 100000) 24 st0 = (Some 100008, st1)" by (simp add: ev)
  have r2: "vt_host_alloc (Some 500000) 600 st1 = (Some 500008, st2)" by (simp add: ev)
  have l1: "libc st1 = [100000 \<mapsto> 65536]" by (simp add: ev)
  have "pool_reach st0 Map.empty" unfolding st0_def by (rule pool_reach.start)
  then have "pool_reach st1 (Map.empty(100008 \<mapsto> replicate (unat (24 :: u64)) 0))"
    by (rule pool_reach.alloc[OF _ _ _ r1]) (simp_all add: calloc_ok_def fresh_block_def calloc_size_def ev)
  then have s2: "pool_reach st2 ((Map.empty(100008 \<mapsto> replicate (unat (24 :: u64)) 0))(500008 \<mapsto> replicate (unat (600 :: u64)) 0))"
    by (rule pool_reach.alloc[OF _ _ _ r2])
      (simp_all add: calloc_ok_def fresh_block_def calloc_size_def l1 apart_def class_for_def VT_HDR_def VT_POOL_MAX_def)
  define H :: heap where "H = (Map.empty(100008 \<mapsto> replicate (unat (24 :: u64)) 0))(500008 \<mapsto> replicate (unat (600 :: u64)) (0 :: 8 word))"
  have H: "pool_reach st2 H" "H 100008 = Some (replicate 24 0)" "H 500008 = Some (replicate 600 0)"
    using s2 by (simp_all add: H_def)
  then have "apart 100000 32 500000 608"
    using pool_refines_heap[OF H(1,2)] by (fastforce simp: VT_HDR_def)
  then show ?thesis using H by blast
qed

end
