(* ===== verification/Vt_Region.thy ===== *)
theory Vt_Region
  imports Vt_Pool
begin

text \<open>
  Regions (\<open>runtime/vyto_rt.c\<close>: \<open>vt_region_open\<close>, \<open>region_grow\<close>, \<open>vt_ralloc\<close>, \<open>vt_region_close\<close>): arenas of objects
  carved out of chunks of the host allocator. The chunks are linked through their first word, in the memory the allocator
  hands out. Running out of memory, where the code aborts in \<open>vt_oom\<close>, is \<open>None\<close>. The debug build's
  scribbling over a chunk before it is freed is not modelled.
\<close>

unbundle bit_operations_syntax

section \<open>Operations\<close>

text \<open>Storing and reading an eight-byte word, least significant byte first.\<close>

definition put64 :: "nat \<Rightarrow> u64 \<Rightarrow> (nat \<Rightarrow> 8 word) \<Rightarrow> nat \<Rightarrow> 8 word" where
  "put64 p v b = (\<lambda>x. if p \<le> x \<and> x < p + 8 then ucast (drop_bit (8 * (x - p)) v) else b x)"

fun read_le :: "nat \<Rightarrow> (nat \<Rightarrow> 8 word) \<Rightarrow> nat \<Rightarrow> u64" where
  "read_le 0 b p = 0"
| "read_le (Suc k) b p = ucast (b p) OR push_bit 8 (read_le k b (p + 1))"

definition get64 :: "(nat \<Rightarrow> 8 word) \<Rightarrow> nat \<Rightarrow> u64" where
  "get64 b p = read_le 8 b p"

record region =
  rbump :: nat
  rend :: nat
  rchunks :: nat

definition vt_region_open :: region where
  "vt_region_open = \<lparr>rbump = 0, rend = 0, rchunks = 0\<rparr>"

definition VT_REGION_CHUNK :: u64 where "VT_REGION_CHUNK = 65536"

definition region_csz :: "u64 \<Rightarrow> u64" where
  "region_csz need = (if need + 8 > VT_REGION_CHUNK then need + 8 else VT_REGION_CHUNK)"

definition region_grow :: "nat option \<Rightarrow> u64 \<Rightarrow> region \<Rightarrow> pool \<Rightarrow> (region \<times> pool) option" where
  "region_grow cal need r st =
     (case vt_host_alloc cal (region_csz need) st of
        (None, st1) \<Rightarrow> None
      | (Some c, st1) \<Rightarrow>
          Some (\<lparr>rbump = c + 8, rend = c + unat (region_csz need), rchunks = c\<rparr>,
                st1\<lparr>bytes := put64 c (of_nat (rchunks r)) (bytes st1)\<rparr>))"

definition round8 :: "u64 \<Rightarrow> u64" where
  "round8 sz = (sz + 7) AND NOT 7"

definition VT_RC_REGION :: i64 where "VT_RC_REGION = - 2"

definition vt_ralloc :: "nat option \<Rightarrow> u64 \<Rightarrow> u64 \<Rightarrow> region \<Rightarrow> pool \<Rightarrow> (nat \<times> region \<times> pool) option" where
  "vt_ralloc cal sz ty r st =
     (let sz = round8 sz
      in case (if rbump r + unat sz > rend r then region_grow cal sz r st else Some (r, st)) of
           None \<Rightarrow> None
         | Some (r, st) \<Rightarrow>
             let a = rbump r
             in Some (a, r\<lparr>rbump := a + unat sz\<rparr>, st\<lparr>bytes := put64 (a + 8) ty (put64 a VT_RC_REGION (bytes st))\<rparr>))"

partial_function (option) close_loop :: "nat \<Rightarrow> pool \<Rightarrow> pool option" where
  [code]: "close_loop c st =
     (if c = 0 then Some st else close_loop (unat (get64 (bytes st) c)) (vt_host_free c st))"

definition vt_region_close :: "region \<Rightarrow> pool \<Rightarrow> (region \<times> pool) option" where
  "vt_region_close r st =
     (case close_loop (rchunks r) st of None \<Rightarrow> None | Some st \<Rightarrow> Some (vt_region_open, st))"

section \<open>Words in memory, rounding\<close>

lemma read_le_bytes: "(\<And>i. i < k \<Longrightarrow> b (p + i) = ucast (drop_bit (8 * i) v)) \<Longrightarrow> read_le k b p = take_bit (8 * k) v"
proof (induction k arbitrary: p v)
  case (Suc k)
  have "read_le k b (p + 1) = take_bit (8 * k) (drop_bit 8 v)"
    by (rule Suc.IH) (use Suc.prems[of "Suc _"] in \<open>simp add: add.commute\<close>)
  moreover have "b p = ucast v" using Suc.prems[of 0] by simp
  moreover have "ucast (ucast v :: 8 word) OR push_bit 8 (take_bit (8 * k) (drop_bit 8 v)) = take_bit (8 * Suc k) v"
    by (rule bit_word_eqI) (auto simp: bit_simps)
  ultimately show ?case by simp
qed simp

lemma read_le_cong: "(\<And>i. i < k \<Longrightarrow> b (p + i) = b' (p + i)) \<Longrightarrow> read_le k b p = read_le k b' p"
proof (induction k arbitrary: p)
  case (Suc k)
  have "read_le k b (p + 1) = read_le k b' (p + 1)" by (rule Suc.IH) (use Suc.prems[of "Suc _"] in simp)
  moreover have "b p = b' p" using Suc.prems[of 0] by simp
  ultimately show ?case by simp
qed simp

lemma get_put64: "get64 (put64 p v b) p = v"
  using read_le_bytes[of 8 "put64 p v b" p v] by (simp add: get64_def put64_def take_bit_word_eq_self)

lemma get64_cong: "(\<And>i. i < 8 \<Longrightarrow> b (p + i) = b' (p + i)) \<Longrightarrow> get64 b p = get64 b' p"
  unfolding get64_def by (rule read_le_cong)

lemma put64_out: "\<not> (p \<le> x \<and> x < p + 8) \<Longrightarrow> put64 p v b x = b x"
  by (auto simp: put64_def)

lemma round8_ge:
  assumes "unat sz < 2 ^ 55"
  shows "unat sz \<le> unat (round8 sz)" "unat (round8 sz) < 2 ^ 55 + 8"
proof -
  have m: "(7 :: u64) = mask 3" by (simp add: mask_eq_exp_minus_1)
  have e: "round8 sz + take_bit 3 (sz + 7) = sz + 7"
  proof -
    have "(sz + 7) AND NOT (mask 3) = push_bit 3 (drop_bit 3 (sz + 7))"
      by (rule bit_word_eqI) (auto simp: bit_simps)
    then show ?thesis unfolding round8_def m using bits_ident[of 3 "sz + mask 3"] by simp
  qed
  have s: "unat (sz + 7) = unat sz + 7" using assms by (simp add: unat_word_ariths)
  have t: "unat (take_bit 3 (sz + 7)) \<le> 7"
    by (simp add: take_bit_eq_mod unat_mod flip: word_le_nat_alt)
  have "round8 sz \<le> sz + 7" unfolding round8_def by (simp add: word_and_le2)
  then have "unat (round8 sz) \<le> unat sz + 7" using s by (simp add: word_le_nat_alt)
  moreover from this have "unat (round8 sz + take_bit 3 (sz + 7)) = unat (round8 sz) + unat (take_bit 3 (sz + 7))"
    using t assms by (simp add: unat_word_ariths)
  ultimately show "unat sz \<le> unat (round8 sz)" "unat (round8 sz) < 2 ^ 55 + 8"
    using e s t assms by simp_all
qed

section \<open>Blocks by size\<close>

text \<open>The blocks in use and how many bytes were asked for.\<close>

definition sized :: "pool \<Rightarrow> (nat \<rightharpoonup> nat) \<Rightarrow> bool" where
  "sized st S \<longleftrightarrow> (\<exists>H. represents st H \<and> S = (\<lambda>p. map_option length (H p)))"

lemma sized_alloc:
  assumes S: "sized st S" and n: "unat n < 2 ^ 56" and cal: "calloc_ok cal n st" and r: "vt_host_alloc cal n st = (Some p, st')"
  shows "S p = None" "sized st' (S(p \<mapsto> unat n))" "i < unat n \<Longrightarrow> bytes st' (p + i) = 0"
    "S q = Some m \<Longrightarrow> i < m \<Longrightarrow> bytes st' (q + i) = bytes st (q + i)"
proof -
  obtain H where H: "represents st H" "S = (\<lambda>p. map_option length (H p))" using S unfolding sized_def by blast
  note al = pool_heap.alloc_law[OF H(1) n cal r]
  then show p: "S p = None" using H(2) by simp
  have rp: "represents st' (H(p \<mapsto> replicate (unat n) 0))" using al by blast
  moreover have "S(p \<mapsto> unat n) = (\<lambda>q. map_option length ((H(p \<mapsto> replicate (unat n) 0)) q))" using H(2) by auto
  ultimately show "sized st' (S(p \<mapsto> unat n))" unfolding sized_def by blast
  show "bytes st' (p + i) = 0" if "i < unat n"
    using represents_block[OF rp, of p "replicate (unat n) 0"] that by simp
  show "bytes st' (q + i) = bytes st (q + i)" if q: "S q = Some m" "i < m"
  proof -
    obtain bs where bs: "H q = Some bs" "length bs = m" using q(1) H(2) by auto
    moreover have "q \<noteq> p" using p q(1) by auto
    ultimately show ?thesis
      using represents_block[OF rp, of q bs] represents_block[OF H(1) bs(1)] q(2) by simp
  qed
qed

lemma sized_write:
  assumes S: "sized st S" and p: "S p = Some m" and b: "\<And>x. \<not> (p \<le> x \<and> x < p + m) \<Longrightarrow> b x = bytes st x"
  shows "sized (st\<lparr>bytes := b\<rparr>) S"
proof -
  obtain H where H: "represents st H" "S = (\<lambda>p. map_option length (H p))" using S unfolding sized_def by blast
  then obtain bs where bs: "H p = Some bs" "length bs = m" using p by auto
  define cs where "cs = map (\<lambda>i. b (p + i)) [0..<m]"
  have "represents (st\<lparr>bytes := b\<rparr>) (H(p \<mapsto> cs))"
    by (rule represents_write[OF H(1) bs(1)]) (use bs b in \<open>auto simp: cs_def\<close>)
  moreover have "S = (\<lambda>q. map_option length ((H(p \<mapsto> cs)) q))" using H(2) bs by (auto simp: cs_def)
  ultimately show ?thesis unfolding sized_def by blast
qed

lemma sized_apart: "sized st S \<Longrightarrow> S p = Some m \<Longrightarrow> S q = Some k \<Longrightarrow> p \<noteq> q \<Longrightarrow> apart p m q k \<and> VT_HDR < p"
proof -
  assume "sized st S" "S p = Some m" "S q = Some k" "p \<noteq> q"
  then obtain H bs cs where H: "represents st H" "H p = Some bs" "length bs = m" "H q = Some cs" "length cs = k"
    unfolding sized_def by auto
  have "VT_HDR < p" "VT_HDR < q" using represents_block[OF H(1)] H(2,4) by blast+
  then show ?thesis using represents_apart[OF H(1,2,4) \<open>p \<noteq> q\<close>] H(3,5) by (auto simp: apart_def)
qed

lemma sized_pos: "sized st S \<Longrightarrow> S p = Some m \<Longrightarrow> VT_HDR < p"
  using represents_block unfolding sized_def by fastforce

lemma sized_free_all:
  assumes "sized st S" "distinct ps" "set ps \<subseteq> dom S"
  shows "sized (fold vt_host_free ps st) (S |` (- set ps))"
proof -
  obtain H where H: "represents st H" "S = (\<lambda>p. map_option length (H p))" using assms(1) unfolding sized_def by blast
  have "set ps \<subseteq> dom H" using assms(3) H(2) by auto
  then have "represents (fold vt_host_free ps st) (H |` (- set ps))" using pool_heap.release_all[OF H(1) assms(2)] by blast
  moreover have "S |` (- set ps) = (\<lambda>p. map_option length ((H |` (- set ps)) p))" using H(2) by (auto simp: restrict_map_def)
  ultimately show ?thesis unfolding sized_def by blast
qed

lemma sized_addr:
  assumes "sized st S" "S p = Some m" "0 < m"
  shows "p < 2 ^ 64"
proof -
  obtain g H bs where g: "holds_heap g st H" "H p = Some bs" "length bs = m"
    using assms unfolding sized_def represents_def by auto
  then have u: "pool_inv g st" "p \<in> in_use g" "m \<le> usable st p" by (auto simp: holds_heap_def)
  then obtain b k where b: "libc st b = Some k" "p + usable st p \<le> b + k" using live_in_libc(2) by blast
  have "libc_ok st" using u(1) by (simp add: pool_inv_def)
  then have "b + k \<le> 2 ^ 64" using b(1) unfolding libc_ok_def by blast
  then show ?thesis using b u(3) assms(3) by linarith
qed

section \<open>The invariant of a region\<close>

text \<open>The chunks of a region as the links give them.\<close>

fun chunk_list :: "(nat \<Rightarrow> 8 word) \<Rightarrow> nat \<Rightarrow> nat list \<Rightarrow> bool" where
  "chunk_list b c [] \<longleftrightarrow> c = 0"
| "chunk_list b c (d # ds) \<longleftrightarrow> c = d \<and> chunk_list b (unat (get64 b d)) ds"

text \<open>An object is given by its address and size. It lies in a chunk, past the link, and below the next free byte when the chunk is
  the one in use.\<close>

definition obj_in :: "region \<Rightarrow> nat list \<Rightarrow> (nat \<rightharpoonup> nat) \<Rightarrow> nat \<times> nat \<Rightarrow> bool" where
  "obj_in r cs S x \<longleftrightarrow>
     (\<exists>c\<in>set cs. \<exists>m. S c = Some m \<and> c + 8 \<le> fst x \<and> fst x + snd x \<le> c + m \<and> (c = rchunks r \<longrightarrow> fst x + snd x \<le> rbump r))"

definition region_inv :: "region \<Rightarrow> nat list \<Rightarrow> (nat \<times> nat) list \<Rightarrow> pool \<Rightarrow> (nat \<rightharpoonup> nat) \<Rightarrow> bool" where
  "region_inv r cs os st S \<longleftrightarrow>
     sized st S \<and> chunk_list (bytes st) (rchunks r) cs \<and> distinct cs \<and> (\<forall>c\<in>set cs. \<exists>m. S c = Some m \<and> 8 \<le> m) \<and>
     (cs = [] \<longrightarrow> rbump r = 0 \<and> rend r = 0) \<and>
     (cs \<noteq> [] \<longrightarrow> rchunks r + 8 \<le> rbump r \<and> rbump r \<le> rend r \<and> S (rchunks r) = Some (rend r - rchunks r) \<and>
        (\<forall>x. rbump r \<le> x \<and> x < rend r \<longrightarrow> bytes st x = 0)) \<and>
     (\<forall>x\<in>set os. obj_in r cs S x) \<and> sorted_wrt (\<lambda>x y. apart (fst x) (snd x) (fst y) (snd y)) os"

lemma chunk_list_cong:
  "(\<And>c i. c \<in> set cs \<Longrightarrow> i < 8 \<Longrightarrow> b (c + i) = b' (c + i)) \<Longrightarrow> chunk_list b a cs = chunk_list b' a cs"
proof (induction cs arbitrary: a)
  case (Cons c cs)
  have "get64 b c = get64 b' c" by (rule get64_cong) (use Cons.prems in simp)
  then show ?case using Cons by simp
qed simp

text \<open>Closing walks the links, each read before its chunk is given back.\<close>

lemma vt_host_free_bytes [simp]: "bytes (vt_host_free p st) = bytes st"
  by (simp add: vt_host_free_def set_class_def Let_def)

lemma close_loop_fold:
  "chunk_list (bytes st) c cs \<Longrightarrow> \<forall>c\<in>set cs. c \<noteq> 0 \<Longrightarrow> close_loop c st = Some (fold vt_host_free cs st)"
proof (induction cs arbitrary: c st)
  case (Cons d ds)
  then show ?case using Cons.IH[of "vt_host_free d st"] by (subst close_loop.simps) simp
qed (simp add: close_loop.simps)

lemma region_invD:
  assumes "region_inv r cs os st S"
  shows "sized st S" "chunk_list (bytes st) (rchunks r) cs" "distinct cs" "c \<in> set cs \<Longrightarrow> \<exists>m. S c = Some m \<and> 8 \<le> m"
    "x \<in> set os \<Longrightarrow> obj_in r cs S x"
  using assms unfolding region_inv_def by blast+

lemma region_open_inv: "sized st S \<Longrightarrow> region_inv vt_region_open [] [] st S"
  by (simp add: region_inv_def vt_region_open_def)

lemma region_csz_ge:
  assumes "unat need < 2 ^ 55 + 8"
  shows "unat need + 8 \<le> unat (region_csz need)" "unat (region_csz need) < 2 ^ 56" "8 \<le> unat (region_csz need)"
proof -
  have e: "unat (need + 8) = unat need + 8" using assms by (simp add: unat_word_ariths)
  then show "unat need + 8 \<le> unat (region_csz need)" by (simp add: region_csz_def VT_REGION_CHUNK_def word_less_nat_alt)
  then show "8 \<le> unat (region_csz need)" by simp
  show "unat (region_csz need) < 2 ^ 56" using e assms by (simp add: region_csz_def VT_REGION_CHUNK_def)
qed

lemma region_grow_inv:
  assumes inv: "region_inv r cs os st S" and need: "unat need < 2 ^ 55 + 8" and cal: "calloc_ok cal (region_csz need) st"
    and g: "region_grow cal need r st = Some (r', st')"
  shows "region_inv r' (rchunks r' # cs) os st' (S(rchunks r' \<mapsto> rend r' - rchunks r'))" "S (rchunks r') = None"
    "rbump r' + unat need \<le> rend r'" "S q = Some m \<Longrightarrow> i < m \<Longrightarrow> bytes st' (q + i) = bytes st (q + i)"
proof -
  note sz = region_csz_ge[OF need]
  obtain c st1 where al: "vt_host_alloc cal (region_csz need) st = (Some c, st1)"
    and r': "r' = \<lparr>rbump = c + 8, rend = c + unat (region_csz need), rchunks = c\<rparr>"
    and st': "st' = st1\<lparr>bytes := put64 c (of_nat (rchunks r)) (bytes st1)\<rparr>"
    using g unfolding region_grow_def by (auto split: prod.splits option.splits)
  note S1 = sized_alloc[OF region_invD(1)[OF inv] sz(2) cal al]
  let ?S = "S(c \<mapsto> unat (region_csz need))"
  have S': "sized st' ?S"
    unfolding st' by (rule sized_write[OF S1(2), of c]) (use sz in \<open>auto simp: put64_def\<close>)
  show new: "S (rchunks r') = None" using S1(1) by (simp add: r')
  show keep: "bytes st' (q + i) = bytes st (q + i)" if q: "S q = Some m" "i < m" for q m i
  proof -
    have "q \<noteq> c" using q(1) S1(1) by auto
    then have "apart q m c (unat (region_csz need))" using sized_apart[OF S1(2), of q m c] q(1) by simp
    then have "\<not> (c \<le> q + i \<and> q + i < c + 8)" using q(2) sz by (auto simp: apart_def)
    then show ?thesis using S1(4)[OF q] by (simp add: st' put64_out)
  qed
  have link: "unat (get64 (bytes st') c) = rchunks r"
  proof -
    have "rchunks r < 2 ^ 64"
    proof (cases cs)
      case Nil
      then show ?thesis using region_invD(2)[OF inv] by simp
    next
      case (Cons d ds)
      then show ?thesis using region_invD(2)[OF inv] region_invD(4)[OF inv, of d] sized_addr[OF region_invD(1)[OF inv]] by fastforce
    qed
    then show ?thesis by (simp add: st' get_put64 unat_addr)
  qed
  have "chunk_list (bytes st') (rchunks r) cs = chunk_list (bytes st) (rchunks r) cs"
    by (rule chunk_list_cong) (use keep region_invD(4)[OF inv] in fastforce)
  then have cl: "chunk_list (bytes st') c (c # cs)" using link region_invD(2)[OF inv] by simp
  have nc: "c \<notin> set cs" using region_invD(4)[OF inv] S1(1) by fastforce
  have "bytes st' x = 0" if "c + 8 \<le> x" "x < c + unat (region_csz need)" for x
    using S1(3)[of "x - c"] that by (auto simp: st' put64_def)
  then have "\<forall>x. c + 8 \<le> x \<and> x < c + unat (region_csz need) \<longrightarrow> bytes st' x = 0" by blast
  moreover have "\<forall>x\<in>set os. obj_in r' (c # cs) ?S x"
    using region_invD(5)[OF inv] nc unfolding obj_in_def r' by fastforce
  moreover have "\<forall>d\<in>set cs. \<exists>m. ?S d = Some m \<and> 8 \<le> m" using region_invD(4)[OF inv] nc by auto
  moreover have "sorted_wrt (\<lambda>x y. apart (fst x) (snd x) (fst y) (snd y)) os" using inv by (simp add: region_inv_def)
  ultimately show "region_inv r' (rchunks r' # cs) os st' (S(rchunks r' \<mapsto> rend r' - rchunks r'))"
    unfolding region_inv_def using S' cl nc sz region_invD(3)[OF inv] by (simp add: r')
  show "rbump r' + unat need \<le> rend r'" using sz by (simp add: r')
qed

text \<open>An object in a chunk is apart from the free part of the current one.\<close>

lemma obj_below_bump:
  assumes inv: "region_inv r cs os st S" and cs: "cs \<noteq> []" and x: "obj_in r cs S x"
  shows "apart (rbump r) (rend r - rbump r) (fst x) (snd x)"
proof -
  obtain c m where c: "c \<in> set cs" "S c = Some m" "c + 8 \<le> fst x" "fst x + snd x \<le> c + m" "c = rchunks r \<longrightarrow> fst x + snd x \<le> rbump r"
    using x unfolding obj_in_def by blast
  have r: "rchunks r + 8 \<le> rbump r" "rbump r \<le> rend r" "S (rchunks r) = Some (rend r - rchunks r)"
    using inv cs unfolding region_inv_def by blast+
  show ?thesis
  proof (cases "c = rchunks r")
    case True
    then show ?thesis using c by (simp add: apart_def)
  next
    case False
    then have "apart (rchunks r) (rend r - rchunks r) c m" using sized_apart[OF region_invD(1)[OF inv] r(3) c(2)] by simp
    then show ?thesis using c r by (auto simp: apart_def)
  qed
qed

lemma carve_inv:
  assumes inv: "region_inv r cs os st S" and cs: "cs \<noteq> []" and k: "16 \<le> k" "rbump r + k \<le> rend r"
    and b: "\<And>x. \<not> (rbump r \<le> x \<and> x < rbump r + 16) \<Longrightarrow> b x = bytes st x"
  shows "region_inv (r\<lparr>rbump := rbump r + k\<rparr>) cs ((rbump r, k) # os) (st\<lparr>bytes := b\<rparr>) S" (is "region_inv ?r cs ?os ?st S")
    and "16 \<le> i \<Longrightarrow> i < k \<Longrightarrow> b (rbump r + i) = 0"
    and "x \<in> set os \<Longrightarrow> j < snd x \<Longrightarrow> b (fst x + j) = bytes st (fst x + j)"
proof -
  have r: "rchunks r + 8 \<le> rbump r" "rbump r \<le> rend r" "S (rchunks r) = Some (rend r - rchunks r)"
    "\<And>x. rbump r \<le> x \<Longrightarrow> x < rend r \<Longrightarrow> bytes st x = 0"
    using inv cs unfolding region_inv_def by blast+
  have rc: "rchunks r \<in> set cs" using region_invD(2)[OF inv] cs by (cases cs) auto
  have "sized ?st S"
    by (rule sized_write[OF region_invD(1)[OF inv] r(3) b]) (use r k in linarith)
  moreover have "chunk_list b (rchunks r) cs = chunk_list (bytes st) (rchunks r) cs"
  proof (rule chunk_list_cong)
    fix c and i :: nat assume c: "c \<in> set cs" and i: "i < 8"
    have "\<not> (rbump r \<le> c + i \<and> c + i < rbump r + 16)"
    proof (cases "c = rchunks r")
      case False
      obtain m where m: "S c = Some m" "8 \<le> m" using region_invD(4)[OF inv c] by blast
      have "apart (rchunks r) (rend r - rchunks r) c m" using sized_apart[OF region_invD(1)[OF inv] r(3) m(1)] False by simp
      then show ?thesis using i m r(1,2) k by (auto simp: apart_def)
    qed (use i r in auto)
    then show "b (c + i) = bytes st (c + i)" by (rule b)
  qed
  moreover have ap: "apart (rbump r) k (fst x) (snd x)" if "x \<in> set os" for x
    using obj_below_bump[OF inv cs region_invD(5)[OF inv that]] by (rule apart_sub) (use k in auto)
  moreover have "\<forall>x\<in>set os. obj_in ?r cs S x"
    using region_invD(5)[OF inv] unfolding obj_in_def by fastforce
  moreover have "obj_in ?r cs S (rbump r, k)" using rc r k by (auto simp: obj_in_def intro!: bexI[of _ "rchunks r"])
  moreover have "\<forall>x. rbump r + k \<le> x \<and> x < rend r \<longrightarrow> b x = 0" using b r(4) k by auto
  ultimately show "region_inv ?r cs ?os ?st S"
    using inv cs r k unfolding region_inv_def by simp
  show "b (rbump r + i) = 0" if "16 \<le> i" "i < k" using b[of "rbump r + i"] r(4)[of "rbump r + i"] that k by simp
  show "b (fst x + j) = bytes st (fst x + j)" if "x \<in> set os" "j < snd x"
    by (rule b) (use ap[OF that(1)] that(2) k in \<open>auto simp: apart_def\<close>)
qed

lemma obj_bytes_kept:
  assumes inv: "region_inv r cs os st S" and keep: "\<And>q m i. S q = Some m \<Longrightarrow> i < m \<Longrightarrow> b (q + i) = bytes st (q + i)"
    and x: "x \<in> set os" "j < snd x"
  shows "b (fst x + j) = bytes st (fst x + j)"
proof -
  obtain c m where "S c = Some m" "c + 8 \<le> fst x" "fst x + snd x \<le> c + m"
    using region_invD(5)[OF inv x(1)] unfolding obj_in_def by blast
  then show ?thesis using keep[of c m "fst x - c + j"] x(2) by simp
qed

text \<open>What a call of \<open>vt_ralloc\<close> does to the chunks and blocks.\<close>

definition grown :: "region \<Rightarrow> region \<Rightarrow> nat list \<Rightarrow> nat list" where
  "grown r r' cs = (if rchunks r' = rchunks r then cs else rchunks r' # cs)"

definition grown_blocks :: "region \<Rightarrow> region \<Rightarrow> (nat \<rightharpoonup> nat) \<Rightarrow> nat \<rightharpoonup> nat" where
  "grown_blocks r r' S = (if rchunks r' = rchunks r then S else S(rchunks r' \<mapsto> rend r' - rchunks r'))"

definition object_made :: "(nat \<Rightarrow> 8 word) \<Rightarrow> nat \<Rightarrow> u64 \<Rightarrow> nat \<Rightarrow> bool" where
  "object_made b a ty k \<longleftrightarrow>
     get64 b a = VT_RC_REGION \<and> get64 b (a + 8) = ty \<and> (\<forall>i. 16 \<le> i \<and> i < k \<longrightarrow> b (a + i) = 0)"

lemma vt_ralloc_inv:
  assumes inv: "region_inv r cs os st S" and sz: "16 \<le> unat sz" "unat sz < 2 ^ 55"
    and cal: "calloc_ok cal (region_csz (round8 sz)) st" and ra: "vt_ralloc cal sz ty r st = Some (a, r', st')"
  shows "region_inv r' (grown r r' cs) ((a, unat (round8 sz)) # os) st' (grown_blocks r r' S)"
    "object_made (bytes st') a ty (unat (round8 sz))"
    "x \<in> set os \<Longrightarrow> j < snd x \<Longrightarrow> bytes st' (fst x + j) = bytes st (fst x + j)"
proof -
  define k where "k = unat (round8 sz)"
  have k: "16 \<le> k" "k < 2 ^ 55 + 8" using round8_ge[OF sz(2)] sz(1) by (simp_all add: k_def)
  obtain r1 st1 where g: "(if rbump r + k > rend r then region_grow cal (round8 sz) r st else Some (r, st)) = Some (r1, st1)"
    and a: "a = rbump r1" and r': "r' = r1\<lparr>rbump := rbump r1 + k\<rparr>"
    and st': "st' = st1\<lparr>bytes := put64 (rbump r1 + 8) ty (put64 (rbump r1) VT_RC_REGION (bytes st1))\<rparr>"
    using ra unfolding vt_ralloc_def Let_def k_def[symmetric] by (auto split: option.splits)
  have grow: "region_inv r1 (grown r r1 cs) os st1 (grown_blocks r r1 S) \<and> grown r r1 cs \<noteq> [] \<and> rbump r1 + k \<le> rend r1 \<and>
      (\<forall>x\<in>set os. \<forall>j < snd x. bytes st1 (fst x + j) = bytes st (fst x + j))"
  proof (cases "rbump r + k > rend r")
    case True
    then have g: "region_grow cal (round8 sz) r st = Some (r1, st1)" using g by simp
    note gi = region_grow_inv[OF inv k(2)[unfolded k_def] cal g]
    have "rchunks r1 \<noteq> rchunks r"
    proof
      assume e: "rchunks r1 = rchunks r"
      have "cs = []" using gi(2) inv unfolding e region_inv_def by (cases cs) auto
      then have "rchunks r = 0" using region_invD(2)[OF inv] by simp
      moreover have "0 < rchunks r1" using region_invD(4)[OF gi(1), of "rchunks r1"] sized_pos[OF region_invD(1)[OF gi(1)]] by fastforce
      ultimately show False using e by simp
    qed
    then show ?thesis
      using gi(1,3) obj_bytes_kept[OF inv gi(4)] by (auto simp: grown_def grown_blocks_def k_def)
  next
    case False
    then have "r1 = r" "st1 = st" "cs \<noteq> []" using g k(1) inv unfolding region_inv_def by auto
    then show ?thesis using inv False by (simp add: grown_def grown_blocks_def)
  qed
  have out: "bytes st' x = bytes st1 x" if "\<not> (rbump r1 \<le> x \<and> x < rbump r1 + 16)" for x
    using that by (auto simp: st' put64_def)
  have same: "st' = st1\<lparr>bytes := bytes st'\<rparr>" by (simp add: st')
  have gr: "grown r r' cs = grown r r1 cs" "grown_blocks r r' S = grown_blocks r r1 S" by (simp_all add: grown_def grown_blocks_def r')
  note ci = carve_inv[OF grow[THEN conjunct1] _ k(1) _ out]
  show "region_inv r' (grown r r' cs) ((a, unat (round8 sz)) # os) st' (grown_blocks r r' S)"
    unfolding gr unfolding a k_def[symmetric] r' by (subst same, rule ci(1)) (use grow in auto)
  have "get64 (bytes st') (rbump r1 + 8) = ty" by (simp add: st' get_put64)
  moreover have "get64 (bytes st') (rbump r1) = get64 (put64 (rbump r1) VT_RC_REGION (bytes st1)) (rbump r1)"
    by (rule get64_cong) (simp add: st' put64_out)
  ultimately show "object_made (bytes st') a ty (unat (round8 sz))"
    using ci(2) grow unfolding object_made_def a k_def[symmetric] by (simp add: get_put64)
  show "bytes st' (fst x + j) = bytes st (fst x + j)" if "x \<in> set os" "j < snd x"
    using ci(3)[where x = x and j = j] grow that by auto
qed

lemma vt_region_close_ok:
  assumes inv: "region_inv r cs os st S"
  shows "\<exists>st'. vt_region_close r st = Some (vt_region_open, st') \<and> sized st' (S |` (- set cs))"
proof -
  have pos: "\<forall>c\<in>set cs. c \<noteq> 0" using region_invD(4)[OF inv] sized_pos[OF region_invD(1)[OF inv]] by fastforce
  have "close_loop (rchunks r) st = Some (fold vt_host_free cs st)"
    by (rule close_loop_fold[OF region_invD(2)[OF inv] pos])
  moreover have "sized (fold vt_host_free cs st) (S |` (- set cs))"
    by (rule sized_free_all[OF region_invD(1,3)[OF inv]]) (use region_invD(4)[OF inv] in auto)
  ultimately show ?thesis by (simp add: vt_region_close_def)
qed

section \<open>Runs\<close>

text \<open>The life of a region: opened in a reachable state of the allocator, objects taken from it and written to, while the rest of
  the program uses the allocator without touching the region's chunks.\<close>

inductive region_reach :: "region \<Rightarrow> nat list \<Rightarrow> (nat \<times> nat) list \<Rightarrow> pool \<Rightarrow> (nat \<rightharpoonup> nat) \<Rightarrow> bool" where
  opened: "pool_reach st H \<Longrightarrow> region_reach vt_region_open [] [] st (\<lambda>p. map_option length (H p))"
| ralloc: "region_reach r cs os st S \<Longrightarrow> 16 \<le> unat sz \<Longrightarrow> unat sz < 2 ^ 55 \<Longrightarrow>
    calloc_ok cal (region_csz (round8 sz)) st \<Longrightarrow> vt_ralloc cal sz ty r st = Some (a, r', st') \<Longrightarrow>
    region_reach r' (grown r r' cs) ((a, unat (round8 sz)) # os) st' (grown_blocks r r' S)"
| store: "region_reach r cs os st S \<Longrightarrow> x \<in> set os \<Longrightarrow> i < snd x \<Longrightarrow>
    region_reach r cs os (st\<lparr>bytes := (bytes st)(fst x + i := v)\<rparr>) S"
| other: "region_reach r cs os st S \<Longrightarrow> sized st' S' \<Longrightarrow>
    (\<And>c m i. c \<in> set cs \<Longrightarrow> S c = Some m \<Longrightarrow> S' c = Some m \<and> (i < m \<longrightarrow> bytes st' (c + i) = bytes st (c + i))) \<Longrightarrow>
    region_reach r cs os st' S'"

lemma region_inv_store:
  assumes inv: "region_inv r cs os st S" and x: "x \<in> set os" "i < snd x"
  shows "region_inv r cs os (st\<lparr>bytes := (bytes st)(fst x + i := v)\<rparr>) S"
proof -
  obtain c m where c: "c \<in> set cs" "S c = Some m" "c + 8 \<le> fst x" "fst x + snd x \<le> c + m"
    using region_invD(5)[OF inv x(1)] unfolding obj_in_def by blast
  have "sized (st\<lparr>bytes := (bytes st)(fst x + i := v)\<rparr>) S"
    by (rule sized_write[OF region_invD(1)[OF inv] c(2)]) (use c x in auto)
  moreover have "chunk_list ((bytes st)(fst x + i := v)) (rchunks r) cs = chunk_list (bytes st) (rchunks r) cs"
  proof (rule chunk_list_cong)
    fix d and j :: nat assume d: "d \<in> set cs" "j < 8"
    obtain n where n: "S d = Some n" "8 \<le> n" using region_invD(4)[OF inv d(1)] by blast
    have "d + j \<noteq> fst x + i"
      using sized_apart[OF region_invD(1)[OF inv] c(2) n(1)] c x d n by (cases "d = c") (auto simp: apart_def)
    then show "((bytes st)(fst x + i := v)) (d + j) = bytes st (d + j)" by simp
  qed
  moreover have "((bytes st)(fst x + i := v)) y = bytes st y" if "cs \<noteq> []" "rbump r \<le> y" "y < rend r" for y
    using obj_below_bump[OF inv that(1) region_invD(5)[OF inv x(1)]] that x by (auto simp: apart_def)
  ultimately show ?thesis using inv unfolding region_inv_def by simp
qed

lemma region_inv_other:
  assumes inv: "region_inv r cs os st S" and S': "sized st' S'"
    and keep: "\<And>c m i. c \<in> set cs \<Longrightarrow> S c = Some m \<Longrightarrow> S' c = Some m \<and> (i < m \<longrightarrow> bytes st' (c + i) = bytes st (c + i))"
  shows "region_inv r cs os st' S'"
proof -
  have "chunk_list (bytes st') (rchunks r) cs = chunk_list (bytes st) (rchunks r) cs"
    by (rule chunk_list_cong) (use region_invD(4)[OF inv] keep in fastforce)
  moreover have "bytes st' y = 0 \<and> S' (rchunks r) = Some (rend r - rchunks r)" if y: "cs \<noteq> []" "rbump r \<le> y" "y < rend r" for y
  proof -
    have r: "rchunks r + 8 \<le> rbump r" "S (rchunks r) = Some (rend r - rchunks r)" "bytes st y = 0"
      using inv y unfolding region_inv_def by blast+
    have "rchunks r \<in> set cs" using region_invD(2)[OF inv] y(1) by (cases cs) auto
    then show ?thesis using keep[of "rchunks r" "rend r - rchunks r" "y - rchunks r"] r y by simp
  qed
  moreover have "S' (rchunks r) = Some (rend r - rchunks r)" if "cs \<noteq> []"
    using keep[of "rchunks r"] region_invD(2)[OF inv] inv that unfolding region_inv_def by (cases cs) auto
  moreover have "obj_in r cs S x \<Longrightarrow> obj_in r cs S' x" for x using keep unfolding obj_in_def by blast
  moreover have "\<forall>c\<in>set cs. \<exists>m. S' c = Some m \<and> 8 \<le> m" using region_invD(4)[OF inv] keep by blast
  ultimately show ?thesis using inv S' unfolding region_inv_def by simp
qed

lemma region_reach_inv: "region_reach r cs os st S \<Longrightarrow> region_inv r cs os st S"
proof (induction rule: region_reach.induct)
  case (opened st H)
  then show ?case using region_open_inv pool_reach_represents unfolding sized_def by blast
next
  case (ralloc r cs os st S sz cal ty a r' st')
  show ?case by (rule vt_ralloc_inv(1)[OF ralloc.IH ralloc.hyps(2,3,4,5)])
next
  case (store r cs os st S x i v)
  show ?case by (rule region_inv_store[OF store.IH store.hyps(2,3)])
next
  case (other r cs os st S st' S')
  show ?case by (rule region_inv_other[OF other.IH other.hyps(2,3)])
qed

text \<open>C33: An object taken from a region is as large as asked for, overlaps no other object of the region, has the reference count
  that makes it immortal and its type in its header and zeros after it; the
  objects taken before keep their contents.\<close>

theorem vt_ralloc_fresh:
  assumes "region_reach r cs os st S" "16 \<le> unat sz" "unat sz < 2 ^ 55" "calloc_ok cal (region_csz (round8 sz)) st"
    and "vt_ralloc cal sz ty r st = Some (a, r', st')"
  shows "unat sz \<le> unat (round8 sz) \<and> object_made (bytes st') a ty (unat (round8 sz)) \<and>
    (\<forall>x\<in>set os. apart a (unat (round8 sz)) (fst x) (snd x) \<and> (\<forall>j < snd x. bytes st' (fst x + j) = bytes st (fst x + j)))"
proof -
  note ra = vt_ralloc_inv[OF region_reach_inv[OF assms(1)] assms(2-5)]
  have "\<forall>x\<in>set os. apart a (unat (round8 sz)) (fst x) (snd x)" using ra(1) unfolding region_inv_def by simp
  then show ?thesis using ra(2,3) round8_ge(1)[OF assms(3)] by blast
qed

text \<open>Closing a region ends, leaves it as freshly opened, and gives back exactly its chunks: the blocks of the rest of the program are
  in use as before.\<close>

theorem vt_region_close_releases:
  assumes "region_reach r cs os st S"
  shows "\<exists>st'. vt_region_close r st = Some (vt_region_open, st') \<and> sized st' (S |` (- set cs))"
  by (rule vt_region_close_ok[OF region_reach_inv[OF assms]])

text \<open>Two objects of a region over a fresh allocator; the first takes a chunk.\<close>

definition region_demo0 :: pool where
  "region_demo0 = pool_start (\<lambda>x. 7) (\<lambda>x. 9)"

definition region_demo1 :: pool where
  "region_demo1 = (case vt_ralloc (Some 100000) 24 3 vt_region_open region_demo0 of Some (a, r, st) \<Rightarrow> st | None \<Rightarrow> region_demo0)"

lemmas ralloc_eval = vt_ralloc_def region_grow_def vt_host_alloc_def round8_def region_csz_def VT_REGION_CHUNK_def
  class_for_def VT_POOL_MAX_def VT_HDR_def alloc_large_def Let_def

lemma region_demo:
  "vt_ralloc (Some 100000) 24 3 vt_region_open region_demo0 =
     Some (100016, \<lparr>rbump = 100040, rend = 165544, rchunks = 100008\<rparr>, region_demo1)"
  "region_reach \<lparr>rbump = 100040, rend = 165544, rchunks = 100008\<rparr> [100008] [(100016, 24)] region_demo1 [100008 \<mapsto> 65536]"
proof -
  show ra: "vt_ralloc (Some 100000) 24 3 vt_region_open region_demo0 =
     Some (100016, \<lparr>rbump = 100040, rend = 165544, rchunks = 100008\<rparr>, region_demo1)"
    by (simp add: region_demo1_def vt_region_open_def ralloc_eval)
  have "region_reach vt_region_open [] [] region_demo0 (\<lambda>p. map_option length (Map.empty p :: 8 word list option))"
    unfolding region_demo0_def by (rule region_reach.opened[OF pool_reach.start])
  from region_reach.ralloc[OF this _ _ _ ra]
  show "region_reach \<lparr>rbump = 100040, rend = 165544, rchunks = 100008\<rparr> [100008] [(100016, 24)] region_demo1 [100008 \<mapsto> 65536]"
    by (simp add: calloc_ok_def fresh_block_def calloc_size_def region_demo0_def pool_start_def grown_def grown_blocks_def vt_region_open_def
        ralloc_eval fun_upd_def)
qed

theorem vt_ralloc_fresh_witness:
  "\<exists>r' st'. vt_ralloc None 16 5 \<lparr>rbump = 100040, rend = 165544, rchunks = 100008\<rparr> region_demo1 = Some (100040, r', st') \<and>
     object_made (bytes st') 100040 5 16 \<and> apart 100040 16 100016 24"
proof -
  define st where "st = snd (snd (the (vt_ralloc None 16 5 \<lparr>rbump = 100040, rend = 165544, rchunks = 100008\<rparr> region_demo1)))"
  have r: "vt_ralloc None 16 5 \<lparr>rbump = 100040, rend = 165544, rchunks = 100008\<rparr> region_demo1 =
      Some (100040, \<lparr>rbump = 100056, rend = 165544, rchunks = 100008\<rparr>, st)"
    by (simp add: ralloc_eval st_def)
  show ?thesis
    using vt_ralloc_fresh[OF region_demo(2) _ _ _ r] r by (simp add: calloc_ok_def round8_def)
qed

theorem vt_region_close_releases_witness:
  "\<exists>st'. vt_region_close \<lparr>rbump = 100040, rend = 165544, rchunks = 100008\<rparr> region_demo1 = Some (vt_region_open, st') \<and>
     sized st' ([100008 \<mapsto> 65536] |` (- {100008}))"
  using vt_region_close_releases[OF region_demo(2)] by simp

end
