(* ===== verification/Vt_Names.thy ===== *)
theory Vt_Names
  imports Vt_Types
begin

text \<open>
  Names and literals of the generated C (\<open>src/emit.c\<close>: \<open>mangle_into\<close>, \<open>inst_suffix\<close>, \<open>struct_cname\<close>, \<open>class_cname\<close>, \<open>c_type\<close>,
  \<open>fn_cname\<close>, \<open>c_escape\<close>, \<open>int_bounds\<close>, \<open>type_bits\<close>, \<open>type_unsigned_int\<close>). Declarations are the nodes a type points to, by number. The
  memoised names of instances are recomputed. Mangling follows the type arguments of
  instances through the declarations, so it is a walk: no value if it does not end, or the fatal error of the code.
  A pointer that is null where the code follows it is \<open>Undefined\<close>.
\<close>

section \<open>Integer types\<close>

definition int_bounds :: "type_kind \<Rightarrow> (string \<times> string) option" where
  "int_bounds k =
     (if k = TY_INT \<or> k = TY_I64 then Some (''INT64_MIN'', ''INT64_MAX'')
      else if k = TY_I32 then Some (''INT32_MIN'', ''INT32_MAX'')
      else if k = TY_I16 then Some (''INT16_MIN'', ''INT16_MAX'')
      else if k = TY_I8 then Some (''INT8_MIN'', ''INT8_MAX'')
      else None)"

definition type_bits :: "type_kind \<Rightarrow> nat" where
  "type_bits k =
     (if k \<in> {TY_BYTE, TY_U8, TY_I8} then 8
      else if k \<in> {TY_I16, TY_U16} then 16
      else if k \<in> {TY_I32, TY_U32} then 32
      else 64)"

definition type_unsigned_int :: "type_kind \<Rightarrow> bool" where
  "type_unsigned_int k \<longleftrightarrow> k \<in> {TY_BYTE, TY_U8, TY_U16, TY_U32, TY_U64, TY_CULONG}"

section \<open>Mangling\<close>

text \<open>A struct or class declaration: an instance points to the generic declaration it comes from.\<close>

record decl_node =
  dn_name :: string
  dn_module :: string
  dn_extern :: bool
  dn_ntyparams :: nat
  dn_origin :: "nat option"
  dn_args :: "ty list"

record decl_env =
  de_structs :: "nat \<rightharpoonup> decl_node"
  de_classes :: "nat \<rightharpoonup> decl_node"
  de_enums :: "nat \<rightharpoonup> string"

fun walk_all :: "('a \<Rightarrow> 'b walk) \<Rightarrow> 'a list \<Rightarrow> 'b list walk" where
  "walk_all f [] = Some (Inr [])"
| "walk_all f (x # xs) = bind_walk (f x) (\<lambda>y. bind_walk (walk_all f xs) (\<lambda>ys. Some (Inr (y # ys))))"

lemma walk_all_mono [partial_function_mono]:
  assumes "\<And>x. mono_option (\<lambda>f. F x f)"
  shows "mono_option (\<lambda>f. walk_all (\<lambda>x. F x f) xs)"
proof (induction xs)
  case (Cons x xs)
  then show ?case unfolding walk_all.simps by (intro bind_walk_mono assms option.const_mono)
qed (simp add: option.const_mono)

lemma walk_all_ok: "walk_all f xs = Some (Inr ys) \<longleftrightarrow> list_all2 (\<lambda>x y. f x = Some (Inr y)) xs ys"
  by (induction xs arbitrary: ys) (auto simp: list_all2_Cons1)

fun base_mangle :: "type_kind \<Rightarrow> string option" where
  "base_mangle TY_VOID = Some ''void''"
| "base_mangle TY_INT = Some ''int''" | "base_mangle TY_I64 = Some ''int''"
| "base_mangle TY_FLOAT = Some ''flt''" | "base_mangle TY_F64 = Some ''flt''"
| "base_mangle TY_BOOL = Some ''bool''"
| "base_mangle TY_BYTE = Some ''byte''" | "base_mangle TY_U8 = Some ''byte''"
| "base_mangle TY_I8 = Some ''i8''" | "base_mangle TY_I16 = Some ''i16''" | "base_mangle TY_I32 = Some ''i32''"
| "base_mangle TY_U16 = Some ''u16''" | "base_mangle TY_U32 = Some ''u32''" | "base_mangle TY_U64 = Some ''u64''"
| "base_mangle TY_CLONG = Some ''cl''" | "base_mangle TY_CULONG = Some ''cul''"
| "base_mangle TY_F32 = Some ''f32''"
| "base_mangle TY_STRING = Some ''str''" | "base_mangle TY_CSTRING = Some ''cstr''"
| "base_mangle TY_RAWPTR = Some ''ptr''" | "base_mangle TY_NULL = Some ''ptr''"
| "base_mangle _ = None"

text \<open>\<open>%d\<close> of a count.\<close>

definition dec_nat :: "nat \<Rightarrow> string" where
  "dec_nat n = (if n = 0 then ''0'' else rev (u64_tmp n))"

definition unders :: "string list \<Rightarrow> string" where
  "unders ss = concat (map (\<lambda>s. CHR ''_'' # s) ss)"

definition follow :: "'a option \<Rightarrow> ('a \<Rightarrow> 'b walk) \<Rightarrow> 'b walk" where
  "follow p f = (case p of None \<Rightarrow> Some (Inl Undefined) | Some x \<Rightarrow> f x)"

lemma follow_mono [partial_function_mono]:
  "(\<And>x. mono_option (\<lambda>f. F x f)) \<Longrightarrow> mono_option (\<lambda>f. follow p (\<lambda>x. F x f))"
  by (cases p) (simp_all add: follow_def option.const_mono)

lemma follow_ok [simp]: "follow p f = Some (Inr y) \<longleftrightarrow> (\<exists>x. p = Some x \<and> f x = Some (Inr y))"
  by (cases p) (auto simp: follow_def)

text \<open>The struct and class cases share their text, written twice in the code.\<close>

definition mangle_decl :: "(nat \<rightharpoonup> decl_node) \<Rightarrow> (ty \<Rightarrow> string walk) \<Rightarrow> nat \<Rightarrow> string walk" where
  "mangle_decl D mangle d =
     follow (D d) (\<lambda>n.
       case dn_origin n of
         Some g \<Rightarrow>
           follow (D g) (\<lambda>gn.
             bind_walk (walk_all mangle (take (dn_ntyparams gn) (dn_args n)))
               (\<lambda>ss. Some (Inr (dn_module gn @ ''_'' @ dn_name gn @ ''_I'' @ unders ss @ ''_E''))))
       | None \<Rightarrow> Some (Inr (dn_module n @ ''_'' @ dn_name n)))"

lemma mangle_decl_mono [partial_function_mono]:
  assumes "\<And>x. mono_option (\<lambda>f. F x f)"
  shows "mono_option (\<lambda>f. mangle_decl D (\<lambda>x. F x f) d)"
  unfolding mangle_decl_def
proof (rule follow_mono)
  fix n :: decl_node
  show "mono_option (\<lambda>f. case dn_origin n of
      Some g \<Rightarrow> follow (D g) (\<lambda>gn. bind_walk (walk_all (\<lambda>x. F x f) (take (dn_ntyparams gn) (dn_args n)))
        (\<lambda>ss. Some (Inr (dn_module gn @ ''_'' @ dn_name gn @ ''_I'' @ unders ss @ ''_E''))))
    | None \<Rightarrow> Some (Inr (dn_module n @ ''_'' @ dn_name n)))"
    by (cases "dn_origin n") (simp_all add: option.const_mono follow_mono bind_walk_mono walk_all_mono assms)
qed

partial_function (option) mangle_into :: "decl_env \<Rightarrow> ty \<Rightarrow> string walk" where
  "mangle_into D t =
     (case base_mangle (ty_kind t) of
        Some s \<Rightarrow> Some (Inr s)
      | None \<Rightarrow>
          if ty_kind t = TY_ARRAY
          then follow (ty_elem t) (\<lambda>e. bind_walk (mangle_into D e) (\<lambda>s. Some (Inr (''arr_'' @ s @ ''_E''))))
          else if ty_kind t = TY_MAP
          then follow (ty_elem t) (\<lambda>e. bind_walk (mangle_into D e) (\<lambda>s. Some (Inr (''map_'' @ s @ ''_E''))))
          else if ty_kind t = TY_FN
          then bind_walk (walk_all (mangle_into D) (ty_params t))
                 (\<lambda>ps. follow (ty_ret t) (\<lambda>r. bind_walk (mangle_into D r)
                   (\<lambda>s. Some (Inr (''fn'' @ dec_nat (length (ty_params t)) @ unders ps @ ''_r_'' @ s @ ''_E'')))))
          else if ty_kind t = TY_ENUM then follow (ty_edecl t) (\<lambda>d. follow (de_enums D d) (\<lambda>n. Some (Inr (''e_'' @ n))))
          else if ty_kind t = TY_STRUCT then follow (ty_sdecl t) (mangle_decl (de_structs D) (mangle_into D))
          else if ty_kind t = TY_CLASS then follow (ty_cdecl t) (mangle_decl (de_classes D) (mangle_into D))
          else Some (Inl (Fatal ''internal: cannot mangle unresolved type'')))"

definition inst_suffix :: "decl_env \<Rightarrow> ty list \<Rightarrow> string walk" where
  "inst_suffix D ts =
     bind_walk (walk_all (mangle_into D) ts)
       (\<lambda>ss. Some (Inr (''__'' @ (case ss of [] \<Rightarrow> [] | s # ss \<Rightarrow> s @ unders ss))))"

definition inst_cname :: "decl_env \<Rightarrow> string \<Rightarrow> string \<Rightarrow> ty list \<Rightarrow> string walk" where
  "inst_cname D modl name ts = bind_walk (inst_suffix D ts) (\<lambda>x. Some (Inr (''v_'' @ modl @ ''_'' @ name @ x)))"

definition plain_cname :: "string \<Rightarrow> string \<Rightarrow> string" where
  "plain_cname modl name = ''v_'' @ modl @ ''_'' @ name"

definition struct_cname :: "decl_env \<Rightarrow> nat \<Rightarrow> string walk" where
  "struct_cname D d =
     follow (de_structs D d) (\<lambda>sd.
       if dn_extern sd then Some (Inr (dn_name sd))
       else case dn_origin sd of
              Some g \<Rightarrow> follow (de_structs D g) (\<lambda>gd.
                inst_cname D (dn_module gd) (dn_name gd) (take (dn_ntyparams gd) (dn_args sd)))
            | None \<Rightarrow> Some (Inr (plain_cname (dn_module sd) (dn_name sd))))"

definition class_cname :: "decl_env \<Rightarrow> nat \<Rightarrow> string walk" where
  "class_cname D d =
     follow (de_classes D d) (\<lambda>cd.
       case dn_origin cd of
         Some g \<Rightarrow> follow (de_classes D g) (\<lambda>gd.
           inst_cname D (dn_module gd) (dn_name gd) (take (dn_ntyparams gd) (dn_args cd)))
       | None \<Rightarrow> Some (Inr (plain_cname (dn_module cd) (dn_name cd))))"

fun base_c_type :: "type_kind \<Rightarrow> string option" where
  "base_c_type TY_VOID = Some ''void''"
| "base_c_type TY_INT = Some ''int64_t''" | "base_c_type TY_I64 = Some ''int64_t''"
| "base_c_type TY_FLOAT = Some ''double''" | "base_c_type TY_F64 = Some ''double''"
| "base_c_type TY_BOOL = Some ''bool''"
| "base_c_type TY_BYTE = Some ''uint8_t''" | "base_c_type TY_U8 = Some ''uint8_t''"
| "base_c_type TY_I8 = Some ''int8_t''" | "base_c_type TY_I16 = Some ''int16_t''" | "base_c_type TY_I32 = Some ''int32_t''"
| "base_c_type TY_U16 = Some ''uint16_t''" | "base_c_type TY_U32 = Some ''uint32_t''" | "base_c_type TY_U64 = Some ''uint64_t''"
| "base_c_type TY_CLONG = Some ''long''" | "base_c_type TY_CULONG = Some ''unsigned long''"
| "base_c_type TY_F32 = Some ''float''"
| "base_c_type TY_STRING = Some ''VtString*''" | "base_c_type TY_CSTRING = Some ''const char*''"
| "base_c_type TY_RAWPTR = Some ''void*''" | "base_c_type TY_NULL = Some ''void*''"
| "base_c_type TY_ARRAY = Some ''VtArray*''" | "base_c_type TY_MAP = Some ''VtMap*''" | "base_c_type TY_FN = Some ''VtClosure*''"
| "base_c_type TY_ENUM = Some ''int64_t''"
| "base_c_type _ = None"

definition c_type :: "decl_env \<Rightarrow> ty \<Rightarrow> string walk" where
  "c_type D t =
     (case base_c_type (ty_kind t) of
        Some s \<Rightarrow> Some (Inr s)
      | None \<Rightarrow>
          if ty_kind t = TY_STRUCT then follow (ty_sdecl t) (struct_cname D)
          else if ty_kind t = TY_CLASS then follow (ty_cdecl t) (\<lambda>d. bind_walk (class_cname D d) (\<lambda>s. Some (Inr (s @ ''*''))))
          else Some (Inl (Fatal ''internal: unresolved type in emitter'')))"

text \<open>A function or method; \<open>fn_from\<close> is the module, name and number of type parameters of the generic function it is an instance of.\<close>

record fn_node =
  fnn_name :: string
  fnn_module :: string
  fnn_extern :: bool
  fnn_owner :: "nat option"
  fnn_sowner :: "nat option"
  fnn_from :: "(string \<times> string \<times> nat) option"
  fnn_args :: "ty list"

definition fn_cname :: "decl_env \<Rightarrow> fn_node \<Rightarrow> string walk" where
  "fn_cname D fd =
     (if fnn_extern fd then Some (Inr (''vx_'' @ fnn_name fd))
      else case fnn_owner fd of
        Some c \<Rightarrow> bind_walk (class_cname D c) (\<lambda>s. Some (Inr (s @ ''_'' @ fnn_name fd)))
      | None \<Rightarrow>
          (case fnn_sowner fd of
             Some d \<Rightarrow> bind_walk (struct_cname D d) (\<lambda>s. Some (Inr (s @ ''_'' @ fnn_name fd)))
           | None \<Rightarrow>
               (case fnn_from fd of
                  Some (m, g, n) \<Rightarrow> inst_cname D m g (take n (fnn_args fd))
                | None \<Rightarrow> Some (Inr (plain_cname (fnn_module fd) (fnn_name fd))))))"

section \<open>String literals\<close>

text \<open>\<open>%03o\<close> of a byte.\<close>

definition octal3 :: "nat \<Rightarrow> string" where
  "octal3 b = [char_of (48 + b div 64), char_of (48 + b div 8 mod 8), char_of (48 + b mod 8)]"

definition escape_char :: "char \<Rightarrow> string" where
  "escape_char c =
     (if c = CHR 0x22 \<or> c = CHR 0x5C then [CHR 0x5C, c]
      else if 32 \<le> (of_char c :: nat) \<and> (of_char c :: nat) < 127 then [c]
      else CHR 0x5C # octal3 (of_char c))"

definition c_escape :: "string \<Rightarrow> string" where
  "c_escape s = concat (map escape_char s)"

text \<open>The characters between the quotes of a C string literal, read back: an escaped quote or backslash, an octal escape of one to three
  digits, taking as many as there are, or a printable character. Other
  escapes do not occur.\<close>

definition octal_digit :: "char \<Rightarrow> bool" where
  "octal_digit c \<longleftrightarrow> 48 \<le> (of_char c :: nat) \<and> (of_char c :: nat) < 56"

definition octal_val :: "string \<Rightarrow> nat" where
  "octal_val s = foldl (\<lambda>a c. a * 8 + (of_char c - 48)) 0 s"

function c_read :: "string \<Rightarrow> string option" where
  "c_read [] = Some []"
| "c_read (c # cs) =
     (if c = CHR 0x5C
      then (case cs of
              [] \<Rightarrow> None
            | d # ds \<Rightarrow>
                if d = CHR 0x22 \<or> d = CHR 0x5C then map_option (Cons d) (c_read ds)
                else let ods = takeWhile octal_digit (take 3 cs)
                     in if ods = [] \<or> 256 \<le> octal_val ods then None
                        else map_option (Cons (char_of (octal_val ods))) (c_read (drop (length ods) cs)))
      else if c = CHR 0x22 \<or> (of_char c :: nat) < 32 \<or> 127 \<le> (of_char c :: nat) then None
      else map_option (Cons c) (c_read cs))"
  by pat_completeness auto
termination by (relation "measure length") auto

lemma octal_char [simp]: "(d :: nat) < 8 \<Longrightarrow> of_char (char_of (48 + d) :: char) = (48 + d :: nat)"
  by simp

lemma octal_digit_char [simp]: "(d :: nat) < 8 \<Longrightarrow> octal_digit (char_of (48 + d))"
  by (simp add: octal_digit_def)

lemma octal3_digits:
  assumes "b < 256"
  shows "takeWhile octal_digit (take 3 (octal3 b @ r)) = octal3 b" "octal_val (octal3 b) = b" "length (octal3 b) = 3"
proof -
  have d: "b div 64 < 8" "b div 8 mod 8 < 8" "b mod 8 < 8" using assms by auto
  then show "takeWhile octal_digit (take 3 (octal3 b @ r)) = octal3 b" by (simp add: octal3_def)
  have "b div 64 = b div 8 div 8" by (simp add: div_mult2_eq[symmetric])
  then have "(b div 64 * 8 + b div 8 mod 8) * 8 + b mod 8 = b" by simp
  then show "octal_val (octal3 b) = b" unfolding octal_val_def octal3_def by (simp only: octal_char[OF d(1)] octal_char[OF d(2)] octal_char[OF d(3)] foldl.simps) simp
  show "length (octal3 b) = 3" by (simp add: octal3_def)
qed

lemma octal3_head:
  assumes "b < 256"
  shows "\<exists>d ds. octal3 b = d # ds \<and> d \<noteq> CHR 0x22 \<and> d \<noteq> CHR 0x5C"
proof -
  have d: "b div 64 < 8" using assms by auto
  have "char_of (48 + b div 64) \<noteq> c" if "\<not> octal_digit c" for c using octal_digit_char[OF d] that by blast
  then have "char_of (48 + b div 64) \<noteq> CHR 0x22" "char_of (48 + b div 64) \<noteq> CHR 0x5C" by (simp_all add: octal_digit_def)
  then show ?thesis by (simp add: octal3_def)
qed

lemma c_read_octal:
  assumes "cs = d # ds" "d \<noteq> CHR 0x22" "d \<noteq> CHR 0x5C" "takeWhile octal_digit (take 3 cs) = ods" "ods \<noteq> []" "octal_val ods < 256"
  shows "c_read (CHR 0x5C # cs) = map_option (Cons (char_of (octal_val ods))) (c_read (drop (length ods) cs))"
  unfolding c_read.simps(2) using assms by (simp add: Let_def del: c_read.simps)

lemma c_read_escape_char: "c_read (escape_char c @ r) = map_option (Cons c) (c_read r)"
proof -
  let ?b = "of_char c :: nat"
  have b: "?b < 256" by (rule nat_of_char_less_256)
  consider "c = CHR 0x22 \<or> c = CHR 0x5C" | "c \<noteq> CHR 0x22" "c \<noteq> CHR 0x5C" "32 \<le> ?b" "?b < 127"
    | "c \<noteq> CHR 0x22" "c \<noteq> CHR 0x5C" "\<not> (32 \<le> ?b \<and> ?b < 127)" by blast
  then show ?thesis
  proof cases
    case 3
    obtain d ds where h: "octal3 ?b = d # ds" "d \<noteq> CHR 0x22" "d \<noteq> CHR 0x5C" using octal3_head[OF b] by blast
    have e: "escape_char c = CHR 0x5C # octal3 ?b" using 3 by (auto simp: escape_char_def)
    have "c_read (CHR 0x5C # octal3 ?b @ r) = map_option (Cons (char_of (octal_val (octal3 ?b)))) (c_read (drop (length (octal3 ?b)) (octal3 ?b @ r)))"
      by (rule c_read_octal[of _ d "ds @ r"]) (use h octal3_digits[OF b] b in \<open>simp_all del: takeWhile.simps take_append\<close>)
    then show ?thesis unfolding e by (simp add: octal3_digits(2)[OF b])
  qed (auto simp: escape_char_def)
qed

lemma c_escape_read: "c_read (c_escape s @ r) = map_option ((@) s) (c_read r)"
proof (induction s)
  case Nil
  then show ?case by (cases "c_read r") (simp_all add: c_escape_def)
next
  case (Cons c s)
  have "c_escape (c # s) = escape_char c @ c_escape s" by (simp add: c_escape_def)
  then show ?case using Cons by (cases "c_read r") (simp_all add: c_read_escape_char)
qed

text \<open>C37: Whatever its bytes, the C string literal the emitter writes for a string denotes exactly that string: no quote or
  control character ends it early, and no octal escape runs into the digits that
  follow, also when literals are put side by side.\<close>

theorem c_escape_roundtrip: "c_read (c_escape s @ c_escape r) = Some (s @ r)"
  using c_escape_read[of s "c_escape r"] c_escape_read[of r "[]"] by simp

section \<open>The shape of a mangled type\<close>

datatype shape =
    SBase string | SArr shape | SMap shape | SFn "shape list" shape | SEnum string
  | SDecl string string | SInst string string "shape list"

text \<open>The words of a mangled name, between the underscores.\<close>

fun toks :: "shape \<Rightarrow> string list" where
  "toks (SBase b) = [b]"
| "toks (SArr s) = ''arr'' # toks s @ [''E'']"
| "toks (SMap s) = ''map'' # toks s @ [''E'']"
| "toks (SFn ps r) = (''fn'' @ dec_nat (length ps)) # concat (map toks ps) @ ''r'' # toks r @ [''E'']"
| "toks (SEnum n) = [''e'', n]"
| "toks (SDecl m n) = [m, n]"
| "toks (SInst m n ss) = m # n # ''I'' # concat (map toks ss) @ [''E'']"

definition joined :: "string list \<Rightarrow> string" where
  "joined ws = drop 1 (unders ws)"

lemma unders_append [simp]: "unders (a @ b) = unders a @ unders b"
  by (simp add: unders_def)

lemma unders_Cons [simp]: "unders (a # b) = CHR ''_'' # a @ unders b"
  by (simp add: unders_def)

lemma unders_Nil [simp]: "unders [] = []"
  by (simp add: unders_def)

lemma joined_Cons [simp]: "joined (w # ws) = w @ unders ws"
  by (simp add: joined_def)

lemma toks_ne: "toks s \<noteq> []"
  by (cases s) auto

lemma unders_joined: "CHR ''_'' # joined (toks s) = unders (toks s)"
  using toks_ne[of s] by (cases "toks s") auto

lemma unders_toks: "unders (map (joined \<circ> toks) ss) = unders (concat (map toks ss))"
  by (induction ss) (simp_all add: unders_joined[symmetric])

text \<open>Which shape a type has.\<close>

inductive has_shape :: "decl_env \<Rightarrow> ty \<Rightarrow> shape \<Rightarrow> bool" for D where
  base: "base_mangle (ty_kind t) = Some b \<Longrightarrow> has_shape D t (SBase b)"
| arr: "ty_kind t = TY_ARRAY \<Longrightarrow> ty_elem t = Some e \<Longrightarrow> has_shape D e s \<Longrightarrow> has_shape D t (SArr s)"
| mapt: "ty_kind t = TY_MAP \<Longrightarrow> ty_elem t = Some e \<Longrightarrow> has_shape D e s \<Longrightarrow> has_shape D t (SMap s)"
| fnt: "ty_kind t = TY_FN \<Longrightarrow> list_all2 (has_shape D) (ty_params t) ss \<Longrightarrow> ty_ret t = Some r \<Longrightarrow> has_shape D r s \<Longrightarrow>
    has_shape D t (SFn ss s)"
| enumt: "ty_kind t = TY_ENUM \<Longrightarrow> ty_edecl t = Some d \<Longrightarrow> de_enums D d = Some n \<Longrightarrow> has_shape D t (SEnum n)"
| structp: "ty_kind t = TY_STRUCT \<Longrightarrow> ty_sdecl t = Some d \<Longrightarrow> de_structs D d = Some n \<Longrightarrow> dn_origin n = None \<Longrightarrow>
    has_shape D t (SDecl (dn_module n) (dn_name n))"
| structi: "ty_kind t = TY_STRUCT \<Longrightarrow> ty_sdecl t = Some d \<Longrightarrow> de_structs D d = Some n \<Longrightarrow> dn_origin n = Some g \<Longrightarrow>
    de_structs D g = Some gn \<Longrightarrow> list_all2 (has_shape D) (take (dn_ntyparams gn) (dn_args n)) ss \<Longrightarrow>
    has_shape D t (SInst (dn_module gn) (dn_name gn) ss)"
| classp: "ty_kind t = TY_CLASS \<Longrightarrow> ty_cdecl t = Some d \<Longrightarrow> de_classes D d = Some n \<Longrightarrow> dn_origin n = None \<Longrightarrow>
    has_shape D t (SDecl (dn_module n) (dn_name n))"
| classi: "ty_kind t = TY_CLASS \<Longrightarrow> ty_cdecl t = Some d \<Longrightarrow> de_classes D d = Some n \<Longrightarrow> dn_origin n = Some g \<Longrightarrow>
    de_classes D g = Some gn \<Longrightarrow> list_all2 (has_shape D) (take (dn_ntyparams gn) (dn_args n)) ss \<Longrightarrow>
    has_shape D t (SInst (dn_module gn) (dn_name gn) ss)"

lemma mangled_list:
  assumes "list_all2 (\<lambda>x y. m x = Some (Inr y)) xs ys" "\<And>x y. m x = Some (Inr y) \<Longrightarrow> \<exists>sh. has_shape D x sh \<and> y = joined (toks sh)"
  shows "\<exists>ss. list_all2 (has_shape D) xs ss \<and> ys = map (joined \<circ> toks) ss"
  using assms(1)
proof (induction rule: list_all2_induct)
  case (Cons x xs y ys)
  then obtain sh ss where "has_shape D x sh" "y = joined (toks sh)" "list_all2 (has_shape D) xs ss" "ys = map (joined \<circ> toks) ss"
    using assms(2) by blast
  then show ?case by (intro exI[of _ "sh # ss"]) simp
qed (simp add: exI[of _ "[]"])

lemma mangle_shape:
  fixes D :: decl_env
  assumes "mangle_into D t = Some r"
  shows "\<forall>s. r = Inr s \<longrightarrow> (\<exists>sh. has_shape D t sh \<and> s = joined (toks sh))"
  using assms
proof (rule mangle_into.raw_induct[rotated])
  fix m :: "decl_env \<Rightarrow> ty \<Rightarrow> string walk" and D t r
  assume IH: "\<And>D t r. m D t = Some r \<Longrightarrow> \<forall>s. r = Inr s \<longrightarrow> (\<exists>sh. has_shape D t sh \<and> s = joined (toks sh))"
    and step: "(case base_mangle (ty_kind t) of
        Some s \<Rightarrow> Some (Inr s)
      | None \<Rightarrow>
          if ty_kind t = TY_ARRAY
          then follow (ty_elem t) (\<lambda>e. bind_walk (m D e) (\<lambda>s. Some (Inr (''arr_'' @ s @ ''_E''))))
          else if ty_kind t = TY_MAP
          then follow (ty_elem t) (\<lambda>e. bind_walk (m D e) (\<lambda>s. Some (Inr (''map_'' @ s @ ''_E''))))
          else if ty_kind t = TY_FN
          then bind_walk (walk_all (m D) (ty_params t))
                 (\<lambda>ps. follow (ty_ret t) (\<lambda>r. bind_walk (m D r)
                   (\<lambda>s. Some (Inr (''fn'' @ dec_nat (length (ty_params t)) @ unders ps @ ''_r_'' @ s @ ''_E'')))))
          else if ty_kind t = TY_ENUM then follow (ty_edecl t) (\<lambda>d. follow (de_enums D d) (\<lambda>n. Some (Inr (''e_'' @ n))))
          else if ty_kind t = TY_STRUCT then follow (ty_sdecl t) (mangle_decl (de_structs D) (m D))
          else if ty_kind t = TY_CLASS then follow (ty_cdecl t) (mangle_decl (de_classes D) (m D))
          else Some (Inl (Fatal ''internal: cannot mangle unresolved type''))) = Some r"
  have IH': "\<exists>sh. has_shape D x sh \<and> y = joined (toks sh)" if "m D x = Some (Inr y)" for x y using IH[OF that] by simp
  have decl: "(\<exists>n. N d = Some n \<and> dn_origin n = None \<and> s = joined (toks (SDecl (dn_module n) (dn_name n)))) \<or>
      (\<exists>n g gn ss. N d = Some n \<and> dn_origin n = Some g \<and> N g = Some gn \<and>
        list_all2 (has_shape D) (take (dn_ntyparams gn) (dn_args n)) ss \<and> s = joined (toks (SInst (dn_module gn) (dn_name gn) ss)))"
    if md: "mangle_decl N (m D) d = Some (Inr s)" for N d s
  proof -
    obtain n where n: "N d = Some n" using md by (auto simp: mangle_decl_def)
    show ?thesis
    proof (cases "dn_origin n")
      case None
      then show ?thesis using md n by (auto simp: mangle_decl_def)
    next
      case (Some g)
      then obtain gn ys where g: "N g = Some gn" "list_all2 (\<lambda>x y. m D x = Some (Inr y)) (take (dn_ntyparams gn) (dn_args n)) ys"
        "s = dn_module gn @ ''_'' @ dn_name gn @ ''_I'' @ unders ys @ ''_E''"
        using md n by (auto simp: mangle_decl_def walk_all_ok)
      then obtain ss where "list_all2 (has_shape D) (take (dn_ntyparams gn) (dn_args n)) ss" "ys = map (joined \<circ> toks) ss"
        using mangled_list[OF g(2) IH'] by blast
      then show ?thesis using n Some g by (auto simp: unders_toks)
    qed
  qed
  show "\<forall>s. r = Inr s \<longrightarrow> (\<exists>sh. has_shape D t sh \<and> s = joined (toks sh))"
  proof (intro allI impI)
    fix s assume r: "r = Inr s"
    show "\<exists>sh. has_shape D t sh \<and> s = joined (toks sh)"
    proof (cases "base_mangle (ty_kind t)")
      case (Some b)
      then show ?thesis using step r by (intro exI[of _ "SBase b"]) (simp add: has_shape.base)
    next
      case None
      note st = step[unfolded None option.case r]
      consider (arr) e s' where "ty_kind t = TY_ARRAY" "ty_elem t = Some e" "m D e = Some (Inr s')" "s = ''arr_'' @ s' @ ''_E''"
        | (mapt) e s' where "ty_kind t = TY_MAP" "ty_elem t = Some e" "m D e = Some (Inr s')" "s = ''map_'' @ s' @ ''_E''"
        | (fnt) ps q s' where "ty_kind t = TY_FN" "list_all2 (\<lambda>x y. m D x = Some (Inr y)) (ty_params t) ps" "ty_ret t = Some q"
            "m D q = Some (Inr s')" "s = ''fn'' @ dec_nat (length (ty_params t)) @ unders ps @ ''_r_'' @ s' @ ''_E''"
        | (enumt) d n where "ty_kind t = TY_ENUM" "ty_edecl t = Some d" "de_enums D d = Some n" "s = ''e_'' @ n"
        | (structt) d where "ty_kind t = TY_STRUCT" "ty_sdecl t = Some d" "mangle_decl (de_structs D) (m D) d = Some (Inr s)"
        | (classt) d where "ty_kind t = TY_CLASS" "ty_cdecl t = Some d" "mangle_decl (de_classes D) (m D) d = Some (Inr s)"
        using st by (auto simp: walk_all_ok split: if_splits)
      then show ?thesis
      proof cases
        case arr
        obtain sh where sh: "has_shape D e sh" "s' = joined (toks sh)" using IH'[OF arr(3)] by blast
        then have "s = joined (toks (SArr sh))" using arr(4) unders_joined[of sh] by simp
        then show ?thesis using has_shape.arr[OF arr(1,2) sh(1)] by blast
      next
        case mapt
        obtain sh where sh: "has_shape D e sh" "s' = joined (toks sh)" using IH'[OF mapt(3)] by blast
        then have "s = joined (toks (SMap sh))" using mapt(4) unders_joined[of sh] by simp
        then show ?thesis using has_shape.mapt[OF mapt(1,2) sh(1)] by blast
      next
        case fnt
        obtain ss where ss: "list_all2 (has_shape D) (ty_params t) ss" "ps = map (joined \<circ> toks) ss"
          using mangled_list[OF fnt(2) IH'] by blast
        obtain sh where sh: "has_shape D q sh" "s' = joined (toks sh)" using IH'[OF fnt(4)] by blast
        have "length (ty_params t) = length ss" using ss(1) by (rule list_all2_lengthD)
        then have "s = joined (toks (SFn ss sh))"
          using fnt(5) ss(2) sh(2) unders_joined[of sh] by (simp add: unders_toks)
        then show ?thesis using has_shape.fnt[OF fnt(1) ss(1) fnt(3) sh(1)] by blast
      next
        case enumt
        then show ?thesis using has_shape.enumt[OF enumt(1-3)] by (intro exI[of _ "SEnum n"]) simp
      next
        case structt
        then show ?thesis using decl[OF structt(3)] has_shape.structp[OF structt(1,2)] has_shape.structi[OF structt(1,2)] by blast
      next
        case classt
        then show ?thesis using decl[OF classt(3)] has_shape.classp[OF classt(1,2)] has_shape.classi[OF classt(1,2)] by blast
      qed
    qed
  qed
qed

section \<open>Mangled names determine the type\<close>

definition base_words :: "string list" where
  "base_words = [''void'', ''int'', ''flt'', ''bool'', ''byte'', ''i8'', ''i16'', ''i32'', ''u16'', ''u32'', ''u64'', ''cl'', ''cul'', ''f32'',
     ''str'', ''cstr'', ''ptr'']"

text \<open>Words with a meaning of their own in a mangled name.\<close>

definition reserved :: "string \<Rightarrow> bool" where
  "reserved w \<longleftrightarrow>
     w \<in> set ([''I'', ''E'', ''r'', ''arr'', ''map'', ''e''] @ base_words) \<or> take 2 w = ''fn'' \<and> (\<forall>c\<in>set (drop 2 w). is_digit c)"

definition word_ok :: "string \<Rightarrow> bool" where
  "word_ok w \<longleftrightarrow> CHR ''_'' \<notin> set w"

fun shape_ok :: "shape \<Rightarrow> bool" where
  "shape_ok (SBase b) \<longleftrightarrow> b \<in> set base_words"
| "shape_ok (SArr s) \<longleftrightarrow> shape_ok s"
| "shape_ok (SMap s) \<longleftrightarrow> shape_ok s"
| "shape_ok (SFn ps r) \<longleftrightarrow> (\<forall>p\<in>set ps. shape_ok p) \<and> shape_ok r"
| "shape_ok (SEnum n) \<longleftrightarrow> word_ok n"
| "shape_ok (SDecl m n) \<longleftrightarrow> word_ok m \<and> word_ok n \<and> \<not> reserved m"
| "shape_ok (SInst m n ss) \<longleftrightarrow> word_ok m \<and> word_ok n \<and> \<not> reserved m \<and> (\<forall>s\<in>set ss. shape_ok s)"

lemma dec_nat_digits: "c \<in> set (dec_nat n) \<Longrightarrow> is_digit c"
  using u64_tmp_digits[of n] by (auto simp: dec_nat_def is_digit_def split: if_splits)

lemma is_digit_under: "\<not> is_digit CHR ''_''"
  by (simp add: is_digit_def)

lemma fn_reserved: "reserved (''fn'' @ dec_nat n)"
  using dec_nat_digits by (auto simp: reserved_def)

lemma words_joined:
  assumes "ws \<noteq> []" "vs \<noteq> []" "\<forall>w\<in>set ws. word_ok w" "\<forall>w\<in>set vs. word_ok w" "joined ws = joined vs"
  shows "ws = vs"
  using assms
proof (induction ws arbitrary: vs)
  case (Cons w ws)
  obtain v vs' where v: "vs = v # vs'" using Cons.prems(2) by (cases vs) auto
  have eq: "w @ unders ws = v @ unders vs'" using Cons.prems(5) v by simp
  have tw: "takeWhile (\<lambda>c. c \<noteq> CHR ''_'') (x @ unders xs) = x" if "word_ok x" for x xs
  proof -
    have "takeWhile (\<lambda>c. c \<noteq> CHR ''_'') (x @ unders xs) = x @ takeWhile (\<lambda>c. c \<noteq> CHR ''_'') (unders xs)"
      using that by (intro takeWhile_append2) (auto simp: word_ok_def)
    moreover have "takeWhile (\<lambda>c. c \<noteq> CHR ''_'') (unders xs) = []" by (cases xs) simp_all
    ultimately show ?thesis by simp
  qed
  have wv: "w = v" using tw[of w ws] tw[of v vs'] eq Cons.prems v by simp
  then have u: "unders ws = unders vs'" using eq by simp
  show ?case
  proof (cases "ws = [] \<or> vs' = []")
    case True
    then show ?thesis using u wv v by (cases ws; cases vs') auto
  next
    case False
    then have "joined ws = joined vs'" using u by (simp add: joined_def)
    then have "ws = vs'" using Cons.IH[of vs'] False Cons.prems v by simp
    then show ?thesis using wv v by simp
  qed
qed simp

lemma toks_words: "shape_ok s \<Longrightarrow> w \<in> set (toks s) \<Longrightarrow> word_ok w"
proof (induction s)
  case (SBase b)
  then show ?case by (auto simp: base_words_def word_ok_def)
next
  case (SFn ps r)
  have "word_ok (''fn'' @ dec_nat n)" for n using dec_nat_digits is_digit_under by (auto simp: word_ok_def)
  then show ?case using SFn by (auto simp: word_ok_def[of "''r''"] word_ok_def[of "''E''"])
qed (auto simp: word_ok_def[of "''arr''"] word_ok_def[of "''map''"] word_ok_def[of "''E''"] word_ok_def[of "''e''"] word_ok_def[of "''I''"])

lemma toks_head: "shape_ok s \<Longrightarrow> \<exists>w ws. toks s = w # ws \<and> w \<notin> {''I'', ''E'', ''r''}"
  by (cases s) (auto simp: base_words_def reserved_def)

text \<open>What may follow a type: not the mark of an instance.\<close>

definition no_inst :: "string list \<Rightarrow> bool" where
  "no_inst u \<longleftrightarrow> u = [] \<or> hd u \<noteq> ''I''"

lemma toks_list_follow: "\<forall>s\<in>set ss. shape_ok s \<Longrightarrow> x \<in> {''E'', ''r''} \<Longrightarrow> no_inst (concat (map toks ss) @ x # v)"
  using toks_head by (cases ss) (fastforce simp: no_inst_def)+

lemma toks_list:
  assumes "\<And>s s' u u'. s \<in> set ss \<Longrightarrow> shape_ok s' \<Longrightarrow> toks s @ u = toks s' @ u' \<Longrightarrow> no_inst u \<Longrightarrow> no_inst u' \<Longrightarrow> s = s' \<and> u = u'"
    and "\<forall>s\<in>set ss. shape_ok s" "\<forall>s\<in>set ss'. shape_ok s" "x \<in> {''E'', ''r''}"
    and "concat (map toks ss) @ x # v = concat (map toks ss') @ x # v'"
  shows "ss = ss' \<and> v = v'"
  using assms
proof (induction ss arbitrary: ss')
  case Nil
  then show ?case using toks_head by (cases ss') fastforce+
next
  case (Cons s ss)
  obtain w ws where w: "toks s = w # ws" "w \<notin> {''I'', ''E'', ''r''}" using toks_head[of s] Cons.prems(2) by auto
  then obtain s' ss1 where ss1: "ss' = s' # ss1" using Cons.prems(4,5) by (cases ss') auto
  have eq: "toks s @ concat (map toks ss) @ x # v = toks s' @ concat (map toks ss1) @ x # v'" using Cons.prems(5) ss1 by simp
  have "s = s' \<and> concat (map toks ss) @ x # v = concat (map toks ss1) @ x # v'"
  proof (rule Cons.prems(1)[OF _ _ eq])
    show "no_inst (concat (map toks ss) @ x # v)" by (rule toks_list_follow) (use Cons.prems(2-4) in simp_all)
    show "no_inst (concat (map toks ss1) @ x # v')" by (rule toks_list_follow) (use Cons.prems(2-4) ss1 in simp_all)
  qed (use Cons.prems(2-4) ss1 in simp_all)
  moreover from this have "ss = ss1 \<and> v = v'"
    by (intro Cons.IH[OF Cons.prems(1)[OF list.set_intros(2)]]) (use Cons.prems(2-4) ss1 in simp_all)
  ultimately show ?case using ss1 by simp
qed

text \<open>The first word tells the constructor, up to the mark of an instance.\<close>

definition head_kind :: "string \<Rightarrow> nat" where
  "head_kind w =
     (if w \<in> set base_words then 0 else if w = ''arr'' then 1 else if w = ''map'' then 2 else if w = ''e'' then 3
      else if reserved w then 4 else 5)"

fun shape_kind :: "shape \<Rightarrow> nat" where
  "shape_kind (SBase b) = 0" | "shape_kind (SArr s) = 1" | "shape_kind (SMap s) = 2" | "shape_kind (SEnum n) = 3"
| "shape_kind (SFn ps r) = 4" | "shape_kind (SDecl m n) = 5" | "shape_kind (SInst m n ss) = 5"

lemma head_kind_fn: "head_kind (''fn'' @ dec_nat n) = 4"
  using fn_reserved[of n] by (auto simp: head_kind_def base_words_def)

lemma head_kind_free: "\<not> reserved m \<Longrightarrow> head_kind m = 5"
  by (auto simp: head_kind_def reserved_def)

lemma head_kind_shape: "shape_ok s \<Longrightarrow> head_kind (hd (toks s)) = shape_kind s"
  by (cases s) (simp_all add: head_kind_fn[simplified] head_kind_free, simp_all add: head_kind_def base_words_def)

lemma toks_same_kind:
  assumes "shape_ok s" "shape_ok s'" "toks s @ u = toks s' @ u'"
  shows "shape_kind s' = shape_kind s"
proof -
  have "hd (toks s) = hd (toks s')" using assms(3) toks_ne[of s] toks_ne[of s'] by (metis hd_append2)
  then show ?thesis using head_kind_shape[OF assms(1)] head_kind_shape[OF assms(2)] by simp
qed

lemma no_inst_end: "no_inst (''E'' # u)"
  by (simp add: no_inst_def)

lemma toks_inj:
  "shape_ok s \<Longrightarrow> shape_ok s' \<Longrightarrow> toks s @ u = toks s' @ u' \<Longrightarrow> no_inst u \<Longrightarrow> no_inst u' \<Longrightarrow> s = s' \<and> u = u'"
proof (induction s arbitrary: s' u u')
  case (SBase b)
  show ?case using toks_same_kind[OF SBase.prems(1-3)] SBase.prems(3) by (cases s') simp_all
next
  case (SArr s)
  obtain r where r: "s' = SArr r" using toks_same_kind[OF SArr.prems(1-3)] by (cases s') simp_all
  have "s = r \<and> ''E'' # u = ''E'' # u'"
    by (rule SArr.IH) (use SArr.prems r in \<open>simp_all add: no_inst_end\<close>)
  then show ?case using r by simp
next
  case (SMap s)
  obtain r where r: "s' = SMap r" using toks_same_kind[OF SMap.prems(1-3)] by (cases s') simp_all
  have "s = r \<and> ''E'' # u = ''E'' # u'"
    by (rule SMap.IH) (use SMap.prems r in \<open>simp_all add: no_inst_end\<close>)
  then show ?case using r by simp
next
  case (SFn ps r)
  obtain qs q where q: "s' = SFn qs q" using toks_same_kind[OF SFn.prems(1-3)] by (cases s') simp_all
  have "ps = qs \<and> toks r @ ''E'' # u = toks q @ ''E'' # u'"
    by (rule toks_list[where x = "''r''", OF SFn.IH(1)]) (use SFn.prems q in simp_all)
  moreover from this have "r = q \<and> ''E'' # u = ''E'' # u'"
    by (intro SFn.IH(2)) (use SFn.prems q in \<open>simp_all add: no_inst_end\<close>)
  ultimately show ?case using q by simp
next
  case (SEnum n)
  show ?case using toks_same_kind[OF SEnum.prems(1-3)] SEnum.prems(3) by (cases s') simp_all
next
  case (SDecl m n)
  show ?case using toks_same_kind[OF SDecl.prems(1-3)] SDecl.prems(3-5) by (cases s') (simp_all add: no_inst_def)
next
  case (SInst m n ss)
  obtain ss' where s': "s' = SInst m n ss'"
    using toks_same_kind[OF SInst.prems(1-3)] SInst.prems(3-5) by (cases s') (auto simp: no_inst_def)
  have "ss = ss' \<and> u = u'"
    by (rule toks_list[where x = "''E''", OF SInst.IH]) (use SInst.prems s' in simp_all)
  then show ?case using s' by simp
qed

lemma mangled_shape_unique:
  assumes "shape_ok s" "shape_ok s'" "joined (toks s) = joined (toks s')"
  shows "s = s'"
proof -
  have "toks s = toks s'" by (rule words_joined) (use assms toks_ne toks_words in auto)
  then show ?thesis using toks_inj[OF assms(1,2), of "[]" "[]"] by (simp add: no_inst_def)
qed

text \<open>The type \<open>null\<close> of the null literal shares its word with \<open>rawptr\<close>.\<close>

fun has_null :: "ty \<Rightarrow> bool" where
  "has_null t \<longleftrightarrow>
     ty_kind t = TY_NULL \<or> (case ty_elem t of Some e \<Rightarrow> has_null e | None \<Rightarrow> False) \<or>
     (case ty_ret t of Some e \<Rightarrow> has_null e | None \<Rightarrow> False) \<or> (\<exists>p\<in>set (ty_params t). has_null p)"

declare has_null.simps [simp del]

definition plain_node :: "(nat \<rightharpoonup> decl_node) \<Rightarrow> nat \<Rightarrow> decl_node \<Rightarrow> bool" where
  "plain_node N d n \<longleftrightarrow> N d = Some n \<and> dn_origin n = None"

text \<open>Declarations of one module have different names, an instance comes from a declaration, and there is one instance for the same
  arguments (\<open>instantiate_struct\<close>, \<open>instantiate_class\<close>).\<close>

definition nodes_coherent :: "(nat \<rightharpoonup> decl_node) \<Rightarrow> bool" where
  "nodes_coherent N \<longleftrightarrow>
     (\<forall>d d' n n'. plain_node N d n \<and> plain_node N d' n' \<and> dn_module n = dn_module n' \<and> dn_name n = dn_name n' \<longrightarrow> d = d') \<and>
     (\<forall>d n g. N d = Some n \<and> dn_origin n = Some g \<longrightarrow> (\<exists>gn. plain_node N g gn) \<and> (\<forall>a\<in>set (dn_args n). \<not> has_null a)) \<and>
     (\<forall>d d' n n' g gn. N d = Some n \<and> N d' = Some n' \<and> dn_origin n = Some g \<and> dn_origin n' = Some g \<and> N g = Some gn \<and>
        list_all2 type_identical (take (dn_ntyparams gn) (dn_args n)) (take (dn_ntyparams gn) (dn_args n')) \<longrightarrow> d = d')"

definition coherent :: "decl_env \<Rightarrow> bool" where
  "coherent D \<longleftrightarrow>
     nodes_coherent (de_structs D) \<and> nodes_coherent (de_classes D) \<and>
     (\<forall>d d' n n'. plain_node (de_structs D) d n \<and> plain_node (de_classes D) d' n' \<longrightarrow> (dn_module n, dn_name n) \<noteq> (dn_module n', dn_name n')) \<and>
     (\<forall>d d' n. de_enums D d = Some n \<and> de_enums D d' = Some n \<longrightarrow> d = d')"

text \<open>Names without underscores, and modules not named like a word of the mangling.\<close>

definition clean_names :: "decl_env \<Rightarrow> bool" where
  "clean_names D \<longleftrightarrow>
     (\<forall>d n. plain_node (de_structs D) d n \<or> plain_node (de_classes D) d n \<longrightarrow>
        word_ok (dn_module n) \<and> word_ok (dn_name n) \<and> \<not> reserved (dn_module n)) \<and>
     (\<forall>d n. de_enums D d = Some n \<longrightarrow> word_ok n)"

definition unbase :: "string \<Rightarrow> type_kind" where
  "unbase w =
     (if w = ''void'' then TY_VOID else if w = ''int'' then TY_INT else if w = ''flt'' then TY_FLOAT else if w = ''bool'' then TY_BOOL
      else if w = ''byte'' then TY_BYTE else if w = ''i8'' then TY_I8 else if w = ''i16'' then TY_I16 else if w = ''i32'' then TY_I32
      else if w = ''u16'' then TY_U16 else if w = ''u32'' then TY_U32 else if w = ''u64'' then TY_U64 else if w = ''cl'' then TY_CLONG
      else if w = ''cul'' then TY_CULONG else if w = ''f32'' then TY_F32 else if w = ''str'' then TY_STRING
      else if w = ''cstr'' then TY_CSTRING else TY_RAWPTR)"

lemma unbase_norm: "base_mangle k \<noteq> None \<Longrightarrow> k \<noteq> TY_NULL \<Longrightarrow> unbase (the (base_mangle k)) = norm_kind k"
  by (cases k) (simp_all add: unbase_def norm_kind_def)

lemma base_mangle_word: "base_mangle k \<noteq> None \<Longrightarrow> the (base_mangle k) \<in> set base_words"
  by (cases k) (simp_all add: base_words_def)

lemma base_mangle_kinds:
  "base_mangle k \<noteq> None \<Longrightarrow> k \<notin> {TY_ENUM, TY_STRUCT, TY_CLASS, TY_TYPARAM, TY_ARRAY, TY_MAP, TY_FN}"
  by (cases k) simp_all

lemma list_all2_right: "list_all2 (\<lambda>x y. P x y \<and> Q y) xs ys \<Longrightarrow> \<forall>y\<in>set ys. Q y"
  by (induction rule: list_all2_induct) auto

inductive_cases has_shape_SBase: "has_shape D t (SBase b)"
inductive_cases has_shape_SArr: "has_shape D t (SArr s)"
inductive_cases has_shape_SMap: "has_shape D t (SMap s)"
inductive_cases has_shape_SFn: "has_shape D t (SFn ss s)"
inductive_cases has_shape_SEnum: "has_shape D t (SEnum n)"
inductive_cases has_shape_SDecl: "has_shape D t (SDecl m n)"
inductive_cases has_shape_SInst: "has_shape D t (SInst m n ss)"

lemma plain_unique: "nodes_coherent N \<Longrightarrow> plain_node N d n \<Longrightarrow> plain_node N d' n' \<Longrightarrow> dn_module n = dn_module n' \<Longrightarrow>
    dn_name n = dn_name n' \<Longrightarrow> d = d'"
  unfolding nodes_coherent_def by blast

lemma origin_plain:
  assumes "nodes_coherent N" "N d = Some n" "dn_origin n = Some g" "N g = Some gn"
  shows "plain_node N g gn"
proof -
  have "\<exists>gn. plain_node N g gn" using assms(1-3) unfolding nodes_coherent_def by blast
  then show ?thesis using assms(4) by (auto simp: plain_node_def)
qed

lemma coherent_nodes: "coherent D \<Longrightarrow> nodes_coherent (de_structs D)" "coherent D \<Longrightarrow> nodes_coherent (de_classes D)"
  by (simp_all add: coherent_def)

lemma has_shape_ok:
  assumes "clean_names D" "coherent D"
  shows "has_shape D t s \<Longrightarrow> shape_ok s"
proof (induction rule: has_shape.induct)
  case (base t b)
  then show ?case using base_mangle_word[of "ty_kind t"] by simp
next
  case (fnt t ss r s)
  then have "\<forall>s\<in>set ss. shape_ok s" using list_all2_right by blast
  then show ?case using fnt by simp
next
  case (enumt t d n)
  then show ?case using assms(1) by (auto simp: clean_names_def)
next
  case (structp t d n)
  then show ?case using assms(1) by (auto simp: clean_names_def plain_node_def)
next
  case (structi t d n g gn ss)
  have "plain_node (de_structs D) g gn" by (rule origin_plain[OF coherent_nodes(1)[OF assms(2)] structi(3,4,5)])
  moreover have "\<forall>s\<in>set ss. shape_ok s" using list_all2_right[OF structi(6)] .
  ultimately show ?case using assms(1) by (auto simp: clean_names_def)
next
  case (classp t d n)
  then show ?case using assms(1) by (auto simp: clean_names_def plain_node_def)
next
  case (classi t d n g gn ss)
  have "plain_node (de_classes D) g gn" by (rule origin_plain[OF coherent_nodes(2)[OF assms(2)] classi(3,4,5)])
  moreover have "\<forall>s\<in>set ss. shape_ok s" using list_all2_right[OF classi(6)] .
  ultimately show ?case using assms(1) by (auto simp: clean_names_def)
qed simp_all

lemma base_identical:
  assumes "base_mangle (ty_kind t) = Some b" "base_mangle (ty_kind t') = Some b" "ty_kind t \<noteq> TY_NULL" "ty_kind t' \<noteq> TY_NULL"
  shows "type_identical t t'"
proof -
  have "norm_kind (ty_kind t) = norm_kind (ty_kind t')"
    using unbase_norm[of "ty_kind t"] unbase_norm[of "ty_kind t'"] assms by simp
  moreover have "ty_kind t \<notin> {TY_ENUM, TY_STRUCT, TY_CLASS, TY_TYPARAM, TY_ARRAY, TY_MAP, TY_FN}"
    using base_mangle_kinds[of "ty_kind t"] assms(1) by simp
  ultimately show ?thesis by (subst type_identical.simps) simp
qed

lemma decl_identical:
  "ty_kind t = TY_STRUCT \<Longrightarrow> ty_kind t' = TY_STRUCT \<Longrightarrow> ty_sdecl t = ty_sdecl t' \<Longrightarrow> type_identical t t'"
  "ty_kind t = TY_CLASS \<Longrightarrow> ty_kind t' = TY_CLASS \<Longrightarrow> ty_cdecl t = ty_cdecl t' \<Longrightarrow> type_identical t t'"
  "ty_kind t = TY_ENUM \<Longrightarrow> ty_kind t' = TY_ENUM \<Longrightarrow> ty_edecl t = ty_edecl t' \<Longrightarrow> type_identical t t'"
  by (subst type_identical.simps; simp)+

lemma elem_identical:
  "ty_kind t = ty_kind t' \<Longrightarrow> ty_kind t \<in> {TY_ARRAY, TY_MAP} \<Longrightarrow> ty_elem t = Some e \<Longrightarrow> ty_elem t' = Some e' \<Longrightarrow> type_identical e e' \<Longrightarrow>
     type_identical t t'"
  by (subst type_identical.simps) auto

lemma fn_identical:
  "ty_kind t = TY_FN \<Longrightarrow> ty_kind t' = TY_FN \<Longrightarrow> ty_ret t = Some r \<Longrightarrow> ty_ret t' = Some r' \<Longrightarrow> type_identical r r' \<Longrightarrow>
     list_all2 type_identical (ty_params t) (ty_params t') \<Longrightarrow> type_identical t t'"
  by (subst type_identical.simps) (simp add: list_all2_lengthD)

lemma has_null_parts:
  "\<not> has_null t \<Longrightarrow> ty_kind t \<noteq> TY_NULL" "\<not> has_null t \<Longrightarrow> ty_elem t = Some e \<Longrightarrow> \<not> has_null e"
  "\<not> has_null t \<Longrightarrow> ty_ret t = Some e \<Longrightarrow> \<not> has_null e" "\<not> has_null t \<Longrightarrow> p \<in> set (ty_params t) \<Longrightarrow> \<not> has_null p"
  by (subst (asm) has_null.simps; simp)+

lemma shapes_identical_list:
  assumes "list_all2 (\<lambda>x s. has_shape D x s \<and> (\<forall>y. has_shape D y s \<longrightarrow> \<not> has_null x \<longrightarrow> \<not> has_null y \<longrightarrow> type_identical x y)) xs ss"
    and "list_all2 (has_shape D) ys ss" "\<forall>x\<in>set xs. \<not> has_null x" "\<forall>y\<in>set ys. \<not> has_null y"
  shows "list_all2 type_identical xs ys"
  using assms
proof (induction xs ss arbitrary: ys rule: list_all2_induct)
  case (Cons x xs s ss)
  then obtain y ys' where "ys = y # ys'" "has_shape D y s" "list_all2 (has_shape D) ys' ss" by (auto simp: list_all2_Cons2)
  then show ?case using Cons by simp
qed simp

lemma inst_unique:
  assumes N: "nodes_coherent N" and d: "N d = Some n" "dn_origin n = Some g" "N g = Some gn" and d': "N d' = Some n'" "dn_origin n' = Some g'" "N g' = Some gn'"
    and nm: "dn_module gn = dn_module gn'" "dn_name gn = dn_name gn'"
    and args: "list_all2 type_identical (take (dn_ntyparams gn) (dn_args n)) (take (dn_ntyparams gn') (dn_args n'))"
  shows "d = d'"
proof -
  have g: "g = g'" by (rule plain_unique[OF N origin_plain[OF N d] origin_plain[OF N d'] nm])
  moreover have gn: "gn = gn'" using g d(3) d'(3) by simp
  have "\<forall>d d' n n' g gn. N d = Some n \<and> N d' = Some n' \<and> dn_origin n = Some g \<and> dn_origin n' = Some g \<and> N g = Some gn \<and>
        list_all2 type_identical (take (dn_ntyparams gn) (dn_args n)) (take (dn_ntyparams gn) (dn_args n')) \<longrightarrow> d = d'"
    using N unfolding nodes_coherent_def by blast
  then show ?thesis using d d'(1,2) args unfolding g[symmetric] gn[symmetric] by blast
qed

lemma inst_args_null:
  assumes "nodes_coherent N" "N d = Some n" "dn_origin n = Some g"
  shows "\<forall>a\<in>set (take k (dn_args n)). \<not> has_null a"
proof -
  have "\<forall>a\<in>set (dn_args n). \<not> has_null a" using assms unfolding nodes_coherent_def by blast
  then show ?thesis by (auto dest: in_set_takeD)
qed

text \<open>The node of a struct or class type.\<close>

definition node_of :: "decl_env \<Rightarrow> ty \<Rightarrow> (nat \<rightharpoonup> decl_node) \<Rightarrow> nat \<Rightarrow> bool" where
  "node_of D t N d \<longleftrightarrow>
     ty_kind t = TY_STRUCT \<and> N = de_structs D \<and> ty_sdecl t = Some d \<or> ty_kind t = TY_CLASS \<and> N = de_classes D \<and> ty_cdecl t = Some d"

lemma shape_SDecl:
  assumes "has_shape D t (SDecl m k)"
  obtains N d n where "node_of D t N d" "plain_node N d n" "dn_module n = m" "dn_name n = k"
  using assms by (rule has_shape_SDecl) (use that in \<open>auto simp: node_of_def plain_node_def\<close>)

lemma shape_SInst:
  assumes "has_shape D t (SInst m k ss)"
  obtains N d n g gn where "node_of D t N d" "N d = Some n" "dn_origin n = Some g" "N g = Some gn" "dn_module gn = m" "dn_name gn = k"
    "list_all2 (has_shape D) (take (dn_ntyparams gn) (dn_args n)) ss"
  using assms by (rule has_shape_SInst) (use that in \<open>auto simp: node_of_def\<close>)

lemma node_coherent: "coherent D \<Longrightarrow> node_of D t N d \<Longrightarrow> nodes_coherent N"
  by (auto simp: node_of_def coherent_def)

lemma same_name_same_kind:
  assumes "coherent D" "node_of D t N d" "node_of D t' N' d'" "plain_node N g n" "plain_node N' g' n'"
    "dn_module n = dn_module n'" "dn_name n = dn_name n'"
  shows "N = N'"
  using assms unfolding node_of_def coherent_def by metis

lemma node_identical:
  assumes "node_of D t N d" "node_of D t' N d" "N d = Some n" "coherent D" "plain_node N g n'"
  shows "type_identical t t'"
proof -
  have "de_structs D \<noteq> de_classes D \<or> N \<noteq> de_structs D"
    using assms(4,5) unfolding coherent_def by metis
  then show ?thesis using assms(1,2) decl_identical unfolding node_of_def by metis
qed

lemma plain_shape_identical:
  assumes coh: "coherent D" and t: "node_of D t N d" "plain_node N d n" and t': "has_shape D t' (SDecl (dn_module n) (dn_name n))"
  shows "type_identical t t'"
proof -
  obtain N' d' n' where n': "node_of D t' N' d'" "plain_node N' d' n'" "dn_module n' = dn_module n" "dn_name n' = dn_name n"
    using shape_SDecl[OF t'] .
  have N: "N = N'" using same_name_same_kind[OF coh t(1) n'(1) t(2) n'(2)] n'(3,4) by simp
  then have "d = d'" using plain_unique[OF node_coherent[OF coh t(1)] t(2), of d' n'] n' by simp
  then show ?thesis using node_identical[OF t(1) _ _ coh t(2)] n'(1) N t(2) by (auto simp: plain_node_def)
qed

lemma inst_shape_identical:
  assumes coh: "coherent D" and t: "node_of D t N d" "N d = Some n" "dn_origin n = Some g" "N g = Some gn"
    and args: "list_all2 (\<lambda>x s. has_shape D x s \<and> (\<forall>y. has_shape D y s \<longrightarrow> \<not> has_null x \<longrightarrow> \<not> has_null y \<longrightarrow> type_identical x y))
      (take (dn_ntyparams gn) (dn_args n)) ss"
    and t': "has_shape D t' (SInst (dn_module gn) (dn_name gn) ss)"
  shows "type_identical t t'"
proof -
  obtain N' d' n' g' gn' where n': "node_of D t' N' d'" "N' d' = Some n'" "dn_origin n' = Some g'" "N' g' = Some gn'"
    "dn_module gn' = dn_module gn" "dn_name gn' = dn_name gn" "list_all2 (has_shape D) (take (dn_ntyparams gn') (dn_args n')) ss"
    using shape_SInst[OF t'] .
  note co = node_coherent[OF coh t(1)] node_coherent[OF coh n'(1)]
  note pl = origin_plain[OF co(1) t(2,3,4)] origin_plain[OF co(2) n'(2,3,4)]
  have N: "N' = N" using same_name_same_kind[OF coh t(1) n'(1) pl] n'(5,6) by simp
  have "list_all2 type_identical (take (dn_ntyparams gn) (dn_args n)) (take (dn_ntyparams gn') (dn_args n'))"
    by (rule shapes_identical_list[OF args n'(7) inst_args_null[OF co(1) t(2,3)] inst_args_null[OF co(2) n'(2,3)]])
  then have "d = d'" using inst_unique[OF co(1) t(2,3,4) n'(2,3,4)[unfolded N]] n'(5,6) by simp
  then show ?thesis using node_identical[OF t(1) _ t(2) coh pl(1)] n'(1) N by simp
qed

lemma same_shape_identical:
  assumes coh: "coherent D" and sh: "has_shape D t s"
  shows "\<forall>t'. has_shape D t' s \<longrightarrow> \<not> has_null t \<longrightarrow> \<not> has_null t' \<longrightarrow> type_identical t t'"
  using sh
proof (induction rule: has_shape.induct)
  case (base t b)
  show ?case
  proof (intro allI impI)
    fix t' assume "has_shape D t' (SBase b)" and null: "\<not> has_null t" "\<not> has_null t'"
    from this(1) have "base_mangle (ty_kind t') = Some b" by (rule has_shape_SBase)
    then show "type_identical t t'" using base_identical[OF base] null has_null_parts(1) by blast
  qed
next
  case (arr t e s)
  show ?case
  proof (intro allI impI)
    fix t' assume "has_shape D t' (SArr s)" and null: "\<not> has_null t" "\<not> has_null t'"
    from this(1) obtain e' where e: "ty_kind t' = TY_ARRAY" "ty_elem t' = Some e'" "has_shape D e' s" by (rule has_shape_SArr)
    have "type_identical e e'" using arr.IH e(3) has_null_parts(2)[OF null(1) arr(2)] has_null_parts(2)[OF null(2) e(2)] by blast
    then show "type_identical t t'" using elem_identical[OF _ _ arr(2) e(2)] arr(1) e(1) by simp
  qed
next
  case (mapt t e s)
  show ?case
  proof (intro allI impI)
    fix t' assume "has_shape D t' (SMap s)" and null: "\<not> has_null t" "\<not> has_null t'"
    from this(1) obtain e' where e: "ty_kind t' = TY_MAP" "ty_elem t' = Some e'" "has_shape D e' s" by (rule has_shape_SMap)
    have "type_identical e e'" using mapt.IH e(3) has_null_parts(2)[OF null(1) mapt(2)] has_null_parts(2)[OF null(2) e(2)] by blast
    then show "type_identical t t'" using elem_identical[OF _ _ mapt(2) e(2)] mapt(1) e(1) by simp
  qed
next
  case (fnt t ss r s)
  show ?case
  proof (intro allI impI)
    fix t' assume "has_shape D t' (SFn ss s)" and null: "\<not> has_null t" "\<not> has_null t'"
    from this(1) obtain r' where r: "ty_kind t' = TY_FN" "list_all2 (has_shape D) (ty_params t') ss" "ty_ret t' = Some r'" "has_shape D r' s"
      by (rule has_shape_SFn)
    have "type_identical r r'" using fnt.IH(2) r(4) has_null_parts(3)[OF null(1) \<open>ty_ret t = Some r\<close>] has_null_parts(3)[OF null(2) r(3)] by blast
    moreover have "list_all2 type_identical (ty_params t) (ty_params t')"
      by (rule shapes_identical_list[OF fnt.IH(1) r(2)]) (use has_null_parts(4) null in blast)+
    ultimately show "type_identical t t'" using fn_identical[OF fnt(1) r(1) \<open>ty_ret t = Some r\<close> r(3)] by blast
  qed
next
  case (enumt t d n)
  then show ?case using coh decl_identical(3) unfolding coherent_def by (auto elim!: has_shape_SEnum)
next
  case (structp t d n)
  then have "node_of D t (de_structs D) d" "plain_node (de_structs D) d n" by (simp_all add: node_of_def plain_node_def)
  then show ?case using plain_shape_identical[OF coh] by blast
next
  case (structi t d n g gn ss)
  then have "node_of D t (de_structs D) d" by (simp add: node_of_def)
  then show ?case using inst_shape_identical[OF coh _ structi(3,4,5,6)] by blast
next
  case (classp t d n)
  then have "node_of D t (de_classes D) d" "plain_node (de_classes D) d n" by (simp_all add: node_of_def plain_node_def)
  then show ?case using plain_shape_identical[OF coh] by blast
next
  case (classi t d n g gn ss)
  then have "node_of D t (de_classes D) d" by (simp add: node_of_def)
  then show ?case using inst_shape_identical[OF coh _ classi(3,4,5,6)] by blast
qed

lemma suffix_shapes:
  assumes "inst_suffix D ts = Some (Inr x)" "ts \<noteq> []"
  shows "\<exists>ss. list_all2 (has_shape D) ts ss \<and> x = ''__'' @ joined (concat (map toks ss))"
proof -
  obtain ys where ys: "list_all2 (\<lambda>x y. mangle_into D x = Some (Inr y)) ts ys" "x = ''__'' @ (case ys of [] \<Rightarrow> [] | s # ss \<Rightarrow> s @ unders ss)"
    using assms(1) by (auto simp: inst_suffix_def walk_all_ok)
  obtain ss where ss: "list_all2 (has_shape D) ts ss" "ys = map (joined \<circ> toks) ss"
    using mangled_list[OF ys(1)] mangle_shape by blast
  have "ss \<noteq> []" using ss(1) assms(2) by auto
  then obtain s ss' where s: "ss = s # ss'" by (cases ss) auto
  obtain w ws where w: "toks s = w # ws" using toks_ne[of s] by (cases "toks s") auto
  have "joined (concat (map toks ss)) = joined (toks s) @ unders (concat (map toks ss'))" by (simp add: s w)
  then have "x = ''__'' @ joined (concat (map toks ss))" using ys(2) ss(2) by (simp add: s unders_toks)
  then show ?thesis using ss(1) by blast
qed

lemma shape_lists_unique:
  assumes "\<forall>s\<in>set ss. shape_ok s" "\<forall>s\<in>set ss'. shape_ok s" "ss \<noteq> []" "ss' \<noteq> []"
    and "joined (concat (map toks ss)) = joined (concat (map toks ss'))"
  shows "ss = ss'"
proof -
  have ne: "concat (map toks ss) \<noteq> []" "concat (map toks ss') \<noteq> []" using assms(3,4) toks_ne by (cases ss; cases ss'; fastforce)+
  have "concat (map toks ss) = concat (map toks ss')"
    by (rule words_joined[OF ne _ _ assms(5)]) (use assms(1,2) toks_words in auto)
  then have e: "concat (map toks ss) @ ''E'' # [] = concat (map toks ss') @ ''E'' # []" by simp
  have "ss = ss' \<and> ([] :: string list) = []"
    by (rule toks_list[OF _ assms(1,2) _ e]) (use toks_inj assms(1) in blast, simp)
  then show ?thesis by simp
qed


text \<open>Without the condition on the names they do not: enums of the same name in two modules have the same word, and an underscore moves the
  border between module and name.\<close>

abbreviation no_loc :: loc where
  "no_loc \<equiv> \<lparr>l_file = None, l_line = 0, l_col = 0\<rparr>"

definition plain_struct :: "string \<Rightarrow> string \<Rightarrow> decl_node" where
  "plain_struct m n = \<lparr>dn_name = n, dn_module = m, dn_extern = False, dn_ntyparams = 0, dn_origin = None, dn_args = []\<rparr>"

definition names_demo :: decl_env where
  "names_demo = \<lparr>de_structs = [0 \<mapsto> plain_struct ''ui'' ''box_item'', 1 \<mapsto> plain_struct ''ui_box'' ''item''], de_classes = Map.empty,
     de_enums = [0 \<mapsto> ''Color'', 1 \<mapsto> ''Color'']\<rparr>"

abbreviation enum_ty :: "nat \<Rightarrow> ty" where
  "enum_ty d \<equiv> Type TY_ENUM False False False None None [] None no_loc None None (Some d)"

abbreviation struct_ty :: "nat \<Rightarrow> ty" where
  "struct_ty d \<equiv> Type TY_STRUCT False False False None None [] None no_loc (Some d) None None"

lemma mangle_enum:
  "ty_kind t = TY_ENUM \<Longrightarrow> mangle_into D t = follow (ty_edecl t) (\<lambda>d. follow (de_enums D d) (\<lambda>n. Some (Inr (''e_'' @ n))))"
  by (subst mangle_into.simps) simp

lemma mangle_plain_struct:
  "ty_kind t = TY_STRUCT \<Longrightarrow> ty_sdecl t = Some d \<Longrightarrow> plain_node (de_structs D) d n \<Longrightarrow>
     mangle_into D t = Some (Inr (dn_module n @ ''_'' @ dn_name n))"
  by (subst mangle_into.simps) (simp add: mangle_decl_def follow_def plain_node_def)

theorem mangle_collisions:
  "mangle_into names_demo (enum_ty 0) = mangle_into names_demo (enum_ty 1) \<and> \<not> type_identical (enum_ty 0) (enum_ty 1) \<and>
   mangle_into names_demo (struct_ty 0) = mangle_into names_demo (struct_ty 1) \<and> \<not> type_identical (struct_ty 0) (struct_ty 1)"
proof -
  have "\<not> type_identical (enum_ty 0) (enum_ty 1)" "\<not> type_identical (struct_ty 0) (struct_ty 1)"
    by (subst type_identical.simps; simp)+
  moreover have "mangle_into names_demo (enum_ty 0) = mangle_into names_demo (enum_ty 1)"
    by (simp add: mangle_enum names_demo_def follow_def)
  moreover have "mangle_into names_demo (struct_ty 0) = Some (Inr ''ui_box_item'')"
    using mangle_plain_struct[of "struct_ty 0" 0 names_demo "plain_struct ''ui'' ''box_item''"]
    by (simp add: names_demo_def plain_struct_def plain_node_def)
  moreover have "mangle_into names_demo (struct_ty 1) = Some (Inr ''ui_box_item'')"
    using mangle_plain_struct[of "struct_ty 1" 1 names_demo "plain_struct ''ui_box'' ''item''"]
    by (simp add: names_demo_def plain_struct_def plain_node_def)
  ultimately show ?thesis by simp
qed


end
