(* ===== verification/Vt_Generic.thy ===== *)
theory Vt_Generic
  imports Vt_Names
begin

text \<open>
  Generics (\<open>src/check.c\<close>: \<open>subst_type\<close>, \<open>type_has_typaram\<close>, \<open>typaram_index\<close>, \<open>unify\<close>, \<open>clone_expr\<close>, \<open>clone_stmt\<close>, \<open>clone_fn_into\<close>,
  \<open>pretty_inst_name\<close>, and the search for an instance in \<open>instantiate_fn\<close>, \<open>instantiate_struct\<close>, \<open>instantiate_class\<close>): substitution of types for type parameters,
  inference of type arguments by matching, and the copy of a template's body. The annotations the checker adds to the tree are not part of
  the trees here, so resetting them has no counterpart; names are interned and compared as strings.
\<close>

section \<open>Substitution\<close>

definition mk_type :: "type_kind \<Rightarrow> ty" where
  "mk_type k = Type k False False False None None [] None \<lparr>l_file = None, l_line = 0, l_col = 0\<rparr> None None None"

text \<open>\<open>Subst\<close>: the names and the types bound to them, \<open>None\<close> where not yet inferred.\<close>

record subst =
  su_names :: "string list"
  su_args :: "ty option list"

fun typaram_index :: "string list \<Rightarrow> string \<Rightarrow> nat option" where
  "typaram_index [] x = None"
| "typaram_index (n # ns) x = (if n = x then Some 0 else map_option Suc (typaram_index ns x))"

definition subst_param :: "subst \<Rightarrow> ty \<Rightarrow> ty" where
  "subst_param s t =
     (case typaram_index (su_names s) (the (ty_name t)) of
        None \<Rightarrow> t
      | Some i \<Rightarrow>
          (case su_args s ! i of
             None \<Rightarrow> t
           | Some a \<Rightarrow>
               if ty_weak t \<and> ty_kind a = TY_CLASS
               then Type TY_CLASS True (ty_nullable a) (ty_from_weak a) (ty_elem a) (ty_ret a) (ty_params a) (ty_name a) (ty_loc a)
                      (ty_sdecl a) (ty_cdecl a) (ty_edecl a)
               else a))"

fun subst_type :: "subst \<Rightarrow> ty \<Rightarrow> ty" where
  "subst_type s t =
     (if ty_kind t = TY_TYPARAM then subst_param s t
      else if ty_kind t = TY_ARRAY \<or> ty_kind t = TY_MAP
      then Type (ty_kind t) (ty_weak t) False False (map_option (subst_type s) (ty_elem t)) None [] None (ty_loc t) None None None
      else if ty_kind t = TY_FN
      then Type TY_FN False False False None (map_option (subst_type s) (ty_ret t)) (map (subst_type s) (ty_params t)) None (ty_loc t)
             None None None
      else if ty_kind t = TY_NAMED \<and> ty_params t \<noteq> []
      then Type TY_NAMED (ty_weak t) False False None None (map (subst_type s) (ty_params t)) (ty_name t) (ty_loc t) None None None
      else t)"

declare subst_type.simps [simp del]

fun type_has_typaram :: "ty \<Rightarrow> bool" where
  "type_has_typaram t =
     (if ty_kind t = TY_TYPARAM then True
      else if ty_kind t = TY_ARRAY \<or> ty_kind t = TY_MAP
      then (case ty_elem t of Some e \<Rightarrow> type_has_typaram e | None \<Rightarrow> False)
      else if ty_kind t = TY_FN
      then (\<exists>p\<in>set (ty_params t). type_has_typaram p) \<or> (case ty_ret t of Some r \<Rightarrow> type_has_typaram r | None \<Rightarrow> False)
      else if ty_kind t = TY_NAMED then \<exists>p\<in>set (ty_params t). type_has_typaram p
      else False)"

declare type_has_typaram.simps [simp del]

section \<open>Matching\<close>

text \<open>The type arguments of the instance an argument's type is, of the generic declaration of that name.\<close>

definition node_args :: "(nat \<rightharpoonup> decl_node) \<Rightarrow> nat option \<Rightarrow> string \<Rightarrow> nat \<Rightarrow> ty list option" where
  "node_args N d name k =
     (case Option.bind d N of
        None \<Rightarrow> None
      | Some n \<Rightarrow>
          (case Option.bind (dn_origin n) N of
             None \<Rightarrow> None
           | Some g \<Rightarrow> if dn_name g = name \<and> k = dn_ntyparams g then Some (take k (dn_args n)) else None))"

definition inst_args :: "decl_env \<Rightarrow> ty \<Rightarrow> string \<Rightarrow> nat \<Rightarrow> ty list option" where
  "inst_args D a name k =
     (if ty_kind a = TY_STRUCT then node_args (de_structs D) (ty_sdecl a) name k
      else if ty_kind a = TY_CLASS then node_args (de_classes D) (ty_cdecl a) name k
      else None)"

definition bind_param :: "decl_names \<Rightarrow> string list \<Rightarrow> loc \<Rightarrow> ty \<Rightarrow> ty \<Rightarrow> ty option list \<Rightarrow> ty option list cres" where
  "bind_param dn ns loc p a bs =
     (case typaram_index ns (the (ty_name p)) of
        None \<Rightarrow> Inr bs
      | Some i \<Rightarrow>
          (case bs ! i of
             None \<Rightarrow> Inr (bs[i := Some a])
           | Some b \<Rightarrow>
               if type_identical b a then Inr bs
               else Inl (FatalAt loc (''conflicting types for '' @ quoted (the (ty_name p)) @ '': '' @ type_str dn b @ '' vs '' @ type_str dn a))))"

lemma size_params: "size_list size (ty_params t) < size t"
  by (cases t) simp

function unify :: "decl_env \<Rightarrow> decl_names \<Rightarrow> string list \<Rightarrow> loc \<Rightarrow> ty \<Rightarrow> ty \<Rightarrow> ty option list \<Rightarrow> ty option list cres"
  and unify_all :: "decl_env \<Rightarrow> decl_names \<Rightarrow> string list \<Rightarrow> loc \<Rightarrow> ty list \<Rightarrow> ty list \<Rightarrow> ty option list \<Rightarrow> ty option list cres" where
  "unify D dn ns loc p a bs =
     (if ty_kind p = TY_TYPARAM then bind_param dn ns loc p a bs
      else if ty_kind p = TY_ARRAY \<or> ty_kind p = TY_MAP
      then (if ty_kind a = ty_kind p
            then (case (ty_elem p, ty_elem a) of (Some x, Some y) \<Rightarrow> unify D dn ns loc x y bs | _ \<Rightarrow> Inr bs)
            else Inr bs)
      else if ty_kind p = TY_FN
      then (if ty_kind a = TY_FN \<and> length (ty_params a) = length (ty_params p)
            then bind_res (unify_all D dn ns loc (ty_params p) (ty_params a) bs)
                   (\<lambda>bs. case (ty_ret p, ty_ret a) of (Some x, Some y) \<Rightarrow> unify D dn ns loc x y bs | _ \<Rightarrow> Inr bs)
            else Inr bs)
      else if ty_kind p = TY_NAMED
      then (case inst_args D a (the (ty_name p)) (length (ty_params p)) of
              Some as \<Rightarrow> unify_all D dn ns loc (ty_params p) as bs
            | None \<Rightarrow> Inr bs)
      else Inr bs)"
| "unify_all D dn ns loc [] as bs = Inr bs"
| "unify_all D dn ns loc (p # ps) [] bs = Inr bs"
| "unify_all D dn ns loc (p # ps) (a # as) bs = bind_res (unify D dn ns loc p a bs) (unify_all D dn ns loc ps as)"
  by pat_completeness auto
termination
  by (relation "measure (case_sum (\<lambda>(D, dn, ns, loc, p, a, bs). size p) (\<lambda>(D, dn, ns, loc, ps, as, bs). size_list size ps))")
    (auto simp: size_params size_ty_elem[OF sym] size_ty_ret[OF sym])

declare unify.simps [simp del]

section \<open>Inference finds the instance\<close>

text \<open>A substituted type matches a concrete one: it is the same type, where a generic reference \<open>Name<...>\<close> stands for the instance
  with matching arguments.\<close>

fun matches :: "decl_env \<Rightarrow> ty \<Rightarrow> ty \<Rightarrow> bool" where
  "matches D t a =
     (if ty_kind t = TY_ARRAY \<or> ty_kind t = TY_MAP
      then ty_kind a = ty_kind t \<and> (case (ty_elem t, ty_elem a) of (Some x, Some y) \<Rightarrow> matches D x y | _ \<Rightarrow> False)
      else if ty_kind t = TY_FN
      then ty_kind a = TY_FN \<and> list_all2 (matches D) (ty_params t) (ty_params a) \<and>
           (case (ty_ret t, ty_ret a) of (Some x, Some y) \<Rightarrow> matches D x y | _ \<Rightarrow> False)
      else if ty_kind t = TY_NAMED \<and> ty_params t \<noteq> []
      then (case inst_args D a (the (ty_name t)) (length (ty_params t)) of
              Some as \<Rightarrow> list_all2 (matches D) (ty_params t) as
            | None \<Rightarrow> False)
      else type_identical t a)"

declare matches.simps [simp del]

text \<open>The same with the type parameters as wild cards.\<close>

fun fits :: "decl_env \<Rightarrow> string list \<Rightarrow> ty \<Rightarrow> ty \<Rightarrow> bool" where
  "fits D ns t a =
     (if ty_kind t = TY_TYPARAM then the (ty_name t) \<in> set ns
      else if ty_kind t = TY_ARRAY \<or> ty_kind t = TY_MAP
      then ty_kind a = ty_kind t \<and> (case (ty_elem t, ty_elem a) of (Some x, Some y) \<Rightarrow> fits D ns x y | _ \<Rightarrow> False)
      else if ty_kind t = TY_FN
      then ty_kind a = TY_FN \<and> list_all2 (fits D ns) (ty_params t) (ty_params a) \<and>
           (case (ty_ret t, ty_ret a) of (Some x, Some y) \<Rightarrow> fits D ns x y | _ \<Rightarrow> False)
      else if ty_kind t = TY_NAMED \<and> ty_params t \<noteq> []
      then (case inst_args D a (the (ty_name t)) (length (ty_params t)) of
              Some as \<Rightarrow> list_all2 (fits D ns) (ty_params t) as
            | None \<Rightarrow> False)
      else type_identical t a)"

declare fits.simps [simp del]

text \<open>Resolved types: no names and no parameters.\<close>

fun concrete :: "ty \<Rightarrow> bool" where
  "concrete t \<longleftrightarrow>
     ty_kind t \<noteq> TY_NAMED \<and> ty_kind t \<noteq> TY_TYPARAM \<and>
     (ty_kind t = TY_ARRAY \<or> ty_kind t = TY_MAP \<longrightarrow> (case ty_elem t of Some e \<Rightarrow> concrete e | None \<Rightarrow> False)) \<and>
     (ty_kind t = TY_FN \<longrightarrow> (\<forall>p\<in>set (ty_params t). concrete p) \<and> (case ty_ret t of Some e \<Rightarrow> concrete e | None \<Rightarrow> False))"

declare concrete.simps [simp del]

definition env_concrete :: "decl_env \<Rightarrow> bool" where
  "env_concrete D \<longleftrightarrow>
     (\<forall>d n. de_structs D d = Some n \<or> de_classes D d = Some n \<longrightarrow> (\<forall>a\<in>set (dn_args n). concrete a))"

definition bound :: "string list \<Rightarrow> ty option list \<Rightarrow> string \<Rightarrow> bool" where
  "bound ns bs x \<longleftrightarrow> (\<forall>i. typaram_index ns x = Some i \<longrightarrow> bs ! i \<noteq> None)"

fun typarams :: "ty \<Rightarrow> string set" where
  "typarams t =
     (if ty_kind t = TY_TYPARAM then {the (ty_name t)}
      else if ty_kind t = TY_ARRAY \<or> ty_kind t = TY_MAP then (case ty_elem t of Some e \<Rightarrow> typarams e | None \<Rightarrow> {})
      else if ty_kind t = TY_FN
      then (\<Union>p\<in>set (ty_params t). typarams p) \<union> (case ty_ret t of Some e \<Rightarrow> typarams e | None \<Rightarrow> {})
      else if ty_kind t = TY_NAMED then (\<Union>p\<in>set (ty_params t). typarams p)
      else {})"

declare typarams.simps [simp del]

definition extends :: "ty option list \<Rightarrow> ty option list \<Rightarrow> bool" where
  "extends bs bs' \<longleftrightarrow> length bs' = length bs \<and> (\<forall>i<length bs. bs ! i \<noteq> None \<longrightarrow> bs' ! i = bs ! i)"

lemma typaram_index_Some: "typaram_index ns x = Some i \<Longrightarrow> i < length ns \<and> ns ! i = x"
  by (induction ns arbitrary: i) (auto split: if_splits)

lemma typaram_index_None: "typaram_index ns x = None \<longleftrightarrow> x \<notin> set ns"
  by (induction ns) auto

lemma bindings_extend_refl [simp]: "extends bs bs"
  by (simp add: extends_def)

lemma bindings_extend_trans: "extends a b \<Longrightarrow> extends b c \<Longrightarrow> extends a c"
  by (auto simp: extends_def)

lemma bound_extends: "bound ns bs x \<Longrightarrow> extends bs bs' \<Longrightarrow> length bs = length ns \<Longrightarrow> bound ns bs' x"
  unfolding bound_def extends_def using typaram_index_Some by metis

lemma typarams_parts:
  "ty_kind t = TY_ARRAY \<or> ty_kind t = TY_MAP \<Longrightarrow> ty_elem t = Some e \<Longrightarrow> typarams e = typarams t"
  "ty_kind t = TY_FN \<Longrightarrow> ty_ret t = Some e \<Longrightarrow> typarams e \<subseteq> typarams t"
  "ty_kind t = TY_FN \<or> ty_kind t = TY_NAMED \<Longrightarrow> p \<in> set (ty_params t) \<Longrightarrow> typarams p \<subseteq> typarams t"
  by (subst (2) typarams.simps; auto)+

text \<open>Substitution depends only on the bindings of the parameters that occur.\<close>

lemma subst_type_cong:
  "(\<And>x i. x \<in> typarams t \<Longrightarrow> typaram_index ns x = Some i \<Longrightarrow> bs ! i = bs' ! i) \<Longrightarrow>
     subst_type \<lparr>su_names = ns, su_args = bs\<rparr> t = subst_type \<lparr>su_names = ns, su_args = bs'\<rparr> t"
proof (induction t rule: measure_induct_rule[where f = size])
  case (less t)
  note e = subst_type.simps[of _ t] typarams.simps[of t]
  show ?case
  proof (cases "ty_kind t = TY_TYPARAM")
    case True
    then show ?thesis using less.prems unfolding e by (auto simp: subst_param_def split: option.splits)
  next
    case False
    have el: "map_option (subst_type \<lparr>su_names = ns, su_args = bs\<rparr>) (ty_elem t) = map_option (subst_type \<lparr>su_names = ns, su_args = bs'\<rparr>) (ty_elem t)"
      if "ty_kind t = TY_ARRAY \<or> ty_kind t = TY_MAP"
      using less.IH[OF size_ty_elem] less.prems that False unfolding e by (cases "ty_elem t") auto
    have rt: "map_option (subst_type \<lparr>su_names = ns, su_args = bs\<rparr>) (ty_ret t) = map_option (subst_type \<lparr>su_names = ns, su_args = bs'\<rparr>) (ty_ret t)"
      if "ty_kind t = TY_FN"
      using less.IH[OF size_ty_ret] less.prems that unfolding e by (cases "ty_ret t") auto
    have ps: "map (subst_type \<lparr>su_names = ns, su_args = bs\<rparr>) (ty_params t) = map (subst_type \<lparr>su_names = ns, su_args = bs'\<rparr>) (ty_params t)"
      if "ty_kind t = TY_FN \<or> ty_kind t = TY_NAMED"
    proof (rule map_cong[OF refl])
      fix p assume p: "p \<in> set (ty_params t)"
      show "subst_type \<lparr>su_names = ns, su_args = bs\<rparr> p = subst_type \<lparr>su_names = ns, su_args = bs'\<rparr> p"
        by (rule less.IH[OF size_ty_params[OF p]]) (use less.prems typarams_parts(3)[OF that p] in blast)
    qed
    show ?thesis unfolding e(1) using False el rt ps by simp
  qed
qed

lemma subst_type_extends:
  assumes "\<forall>x\<in>typarams t. bound ns bs x" "extends bs bs'" "length bs = length ns"
  shows "subst_type \<lparr>su_names = ns, su_args = bs'\<rparr> t = subst_type \<lparr>su_names = ns, su_args = bs\<rparr> t"
  by (rule subst_type_cong) (use assms typaram_index_Some in \<open>fastforce simp: bound_def extends_def\<close>)

lemma concrete_parts:
  "concrete t \<Longrightarrow> ty_kind t = TY_ARRAY \<or> ty_kind t = TY_MAP \<Longrightarrow> \<exists>e. ty_elem t = Some e \<and> concrete e"
  "concrete t \<Longrightarrow> ty_kind t = TY_FN \<Longrightarrow> (\<exists>e. ty_ret t = Some e \<and> concrete e) \<and> (\<forall>p\<in>set (ty_params t). concrete p)"
  "concrete t \<Longrightarrow> ty_kind t \<noteq> TY_NAMED \<and> ty_kind t \<noteq> TY_TYPARAM"
  by (subst (asm) concrete.simps; auto split: option.splits)+

lemma concrete_refl: "concrete t \<Longrightarrow> type_identical t t"
proof (induction t rule: measure_induct_rule[where f = size])
  case (less t)
  have "\<exists>x. ty_elem t = Some x \<and> type_identical x x" if "ty_kind t = TY_ARRAY \<or> ty_kind t = TY_MAP"
    using concrete_parts(1)[OF less.prems that] less.IH size_ty_elem by blast
  moreover have "(\<exists>x. ty_ret t = Some x \<and> type_identical x x) \<and> (\<forall>p\<in>set (ty_params t). type_identical p p)" if "ty_kind t = TY_FN"
    using concrete_parts(2)[OF less.prems that] less.IH size_ty_ret size_ty_params by blast
  ultimately show ?case
    unfolding type_identical_shape[of t t] same_shape_def by (auto simp: list_all2_same)
qed

lemma norm_kind_own:
  "norm_kind TY_ARRAY = norm_kind k \<longleftrightarrow> k = TY_ARRAY" "norm_kind TY_MAP = norm_kind k \<longleftrightarrow> k = TY_MAP"
  "norm_kind TY_FN = norm_kind k \<longleftrightarrow> k = TY_FN" "norm_kind TY_CLASS = norm_kind k \<longleftrightarrow> k = TY_CLASS"
  using norm_kind_simps by metis+

lemma identical_elem:
  "ty_kind t = TY_ARRAY \<or> ty_kind t = TY_MAP \<Longrightarrow> ty_elem t = Some e \<Longrightarrow>
     type_identical t a \<longleftrightarrow> ty_kind a = ty_kind t \<and> (\<exists>y. ty_elem a = Some y \<and> type_identical e y)"
  by (subst type_identical.simps) (auto simp: norm_kind_own split: option.splits)

lemma identical_fn:
  "ty_kind t = TY_FN \<Longrightarrow> ty_ret t = Some r \<Longrightarrow>
     type_identical t a \<longleftrightarrow>
       ty_kind a = TY_FN \<and> list_all2 type_identical (ty_params t) (ty_params a) \<and> (\<exists>y. ty_ret a = Some y \<and> type_identical r y)"
  by (subst type_identical.simps) (auto simp: norm_kind_own split: option.splits dest: list_all2_lengthD)

lemma identical_class: "ty_kind t = TY_CLASS \<Longrightarrow> type_identical t a \<longleftrightarrow> ty_kind a = TY_CLASS \<and> ty_cdecl t = ty_cdecl a"
  by (subst type_identical.simps) (auto simp: norm_kind_own)

lemma matches_concrete: "concrete t \<Longrightarrow> matches D t a \<longleftrightarrow> type_identical t a"
proof (induction t arbitrary: a rule: measure_induct_rule[where f = size])
  case (less t)
  consider (el) e where "ty_kind t = TY_ARRAY \<or> ty_kind t = TY_MAP" "ty_elem t = Some e" "concrete e"
    | (fn) r where "ty_kind t = TY_FN" "ty_ret t = Some r" "concrete r" "\<forall>p\<in>set (ty_params t). concrete p"
    | (oth) "ty_kind t \<notin> {TY_ARRAY, TY_MAP, TY_FN, TY_NAMED}"
    using concrete_parts[OF less.prems] by auto
  then show ?case
  proof cases
    case el
    have "matches D e y = type_identical e y" for y using less.IH[OF size_ty_elem[OF el(2)] el(3)] .
    then show ?thesis unfolding identical_elem[OF el(1,2)] using el by (subst matches.simps) (auto split: option.splits)
  next
    case fn
    have "matches D r y = type_identical r y" for y using less.IH[OF size_ty_ret[OF fn(2)] fn(3)] .
    moreover have "list_all2 (matches D) (ty_params t) bs = list_all2 type_identical (ty_params t) bs" for bs
      using less.IH[OF size_ty_params] fn(4) by (auto simp: list_all2_conv_all_nth)
    ultimately show ?thesis unfolding identical_fn[OF fn(1,2)] using fn by (subst matches.simps) (auto split: option.splits)
  next
    case oth
    then show ?thesis by (subst matches.simps) simp
  qed
qed

lemma inst_args_concrete: "env_concrete D \<Longrightarrow> inst_args D a x k = Some as \<Longrightarrow> \<forall>b\<in>set as. concrete b"
  unfolding env_concrete_def inst_args_def node_args_def
  by (auto split: if_splits option.splits bind_splits dest!: in_set_takeD)

lemma inst_args_length: "inst_args D a x k = Some as \<Longrightarrow> length as \<le> k"
  unfolding inst_args_def node_args_def by (auto split: if_splits option.splits)

text \<open>What a binding gives for a parameter is the type it was bound to, up to the weak mark.\<close>

lemma subst_param_identical:
  assumes "typaram_index ns (the (ty_name p)) = Some i" "bs ! i = Some b" "type_identical b a"
  shows "type_identical (subst_param \<lparr>su_names = ns, su_args = bs\<rparr> p) a"
proof -
  have "type_identical (Type TY_CLASS True (ty_nullable b) (ty_from_weak b) (ty_elem b) (ty_ret b) (ty_params b) (ty_name b) (ty_loc b)
      (ty_sdecl b) (ty_cdecl b) (ty_edecl b)) a" if "ty_kind b = TY_CLASS"
    using assms(3) that by (simp add: identical_class)
  then show ?thesis using assms by (simp add: subst_param_def)
qed

lemma subst_param_concrete:
  assumes "typaram_index ns (the (ty_name p)) = Some i" "bs ! i = Some b" "concrete b"
  shows "concrete (subst_param \<lparr>su_names = ns, su_args = bs\<rparr> p)"
  using assms by (simp add: subst_param_def concrete.simps[of "Type _ _ _ _ _ _ _ _ _ _ _ _"])

definition concrete_bindings :: "ty option list \<Rightarrow> bool" where
  "concrete_bindings bs \<longleftrightarrow> (\<forall>b. Some b \<in> set bs \<longrightarrow> concrete b)"

lemma bind_param_sound:
  assumes "bind_param dn ns loc p a bs = Inr bs'" "length bs = length ns" "concrete a" "concrete_bindings bs" "ty_kind p = TY_TYPARAM"
  shows "extends bs bs' \<and> concrete_bindings bs' \<and>
    (the (ty_name p) \<in> set ns \<longrightarrow> bound ns bs' (the (ty_name p)) \<and> matches D (subst_type \<lparr>su_names = ns, su_args = bs'\<rparr> p) a)"
proof (cases "typaram_index ns (the (ty_name p))")
  case None
  then have "the (ty_name p) \<notin> set ns" using typaram_index_None by blast
  then show ?thesis using assms None by (simp add: bind_param_def)
next
  case (Some i)
  then have i: "i < length bs" using typaram_index_Some assms(2) by metis
  have fin: ?thesis if "bs' ! i = Some b" "type_identical b a" "concrete b" "extends bs bs'" "concrete_bindings bs'" for b
  proof -
    have "matches D (subst_type \<lparr>su_names = ns, su_args = bs'\<rparr> p) a"
      using subst_param_identical[OF Some that(1,2)] subst_param_concrete[OF Some that(1,3)] matches_concrete assms(5)
      by (simp add: subst_type.simps[of _ p])
    then show ?thesis using that Some by (simp add: bound_def)
  qed
  show ?thesis
  proof (cases "bs ! i")
    case None
    then have "bs' = bs[i := Some a]" using assms(1) Some by (simp add: bind_param_def)
    moreover have "extends bs (bs[i := Some a])" using None by (auto simp: extends_def) (metis nth_list_update_neq option.distinct(1))
    moreover have "concrete_bindings (bs[i := Some a])"
      using assms(3,4) by (auto simp: concrete_bindings_def dest!: set_update_subset_insert[THEN subsetD])
    ultimately show ?thesis using fin[of a] i concrete_refl[OF assms(3)] assms(3) by simp
  next
    case (Some b)
    have "type_identical b a" "bs' = bs" using assms(1) Some \<open>typaram_index ns (the (ty_name p)) = Some i\<close>
      by (auto simp: bind_param_def split: if_splits)
    moreover have "concrete b" using assms(4) Some i unfolding concrete_bindings_def by (metis nth_mem)
    ultimately show ?thesis using fin[of b] Some assms(4) by simp
  qed
qed

lemma concrete_parts_of:
  "concrete a \<Longrightarrow> ty_kind a = TY_ARRAY \<or> ty_kind a = TY_MAP \<Longrightarrow> ty_elem a = Some e \<Longrightarrow> concrete e"
  "concrete a \<Longrightarrow> ty_kind a = TY_FN \<Longrightarrow> ty_ret a = Some e \<Longrightarrow> concrete e"
  "concrete a \<Longrightarrow> ty_kind a = TY_FN \<Longrightarrow> \<forall>p\<in>set (ty_params a). concrete p"
  using concrete_parts[of a] by auto

abbreviation sub :: "string list \<Rightarrow> ty option list \<Rightarrow> subst" where
  "sub ns bs \<equiv> \<lparr>su_names = ns, su_args = bs\<rparr>"

definition settled :: "decl_env \<Rightarrow> string list \<Rightarrow> ty option list \<Rightarrow> ty \<Rightarrow> ty \<Rightarrow> bool" where
  "settled D ns bs p a \<longleftrightarrow> (\<forall>x\<in>typarams p. bound ns bs x) \<and> matches D (subst_type (sub ns bs) p) a"

lemma settled_extends:
  assumes "settled D ns bs p a" "extends bs bs'" "length bs = length ns"
  shows "settled D ns bs' p a"
  using assms subst_type_extends[OF _ assms(2,3), of p] bound_extends[OF _ assms(2,3)] by (auto simp: settled_def)

lemma settled_elem:
  "ty_kind p = TY_ARRAY \<or> ty_kind p = TY_MAP \<Longrightarrow> ty_kind a = ty_kind p \<Longrightarrow> ty_elem p = Some x \<Longrightarrow> ty_elem a = Some y \<Longrightarrow>
     settled D ns bs x y \<Longrightarrow> settled D ns bs p a"
  by (subst settled_def, subst subst_type.simps, subst matches.simps) (auto simp: settled_def typarams_parts(1))

lemma settled_fn:
  assumes "ty_kind p = TY_FN" "ty_kind a = TY_FN" "list_all2 (settled D ns bs) (ty_params p) (ty_params a)"
    "ty_ret p = Some x" "ty_ret a = Some y" "settled D ns bs x y"
  shows "settled D ns bs p a"
proof -
  have "\<forall>q\<in>set (ty_params p). \<forall>x\<in>typarams q. bound ns bs x" "list_all2 (\<lambda>q b. matches D (subst_type (sub ns bs) q) b) (ty_params p) (ty_params a)"
    using assms(3) by (auto simp: settled_def list_all2_conv_all_nth in_set_conv_nth)
  then show ?thesis
    using assms unfolding settled_def by (subst typarams.simps, subst subst_type.simps, subst matches.simps) (auto simp: list.rel_map)
qed

lemma settled_named:
  assumes "ty_kind p = TY_NAMED" "ty_params p \<noteq> []" "inst_args D a (the (ty_name p)) (length (ty_params p)) = Some as"
    "list_all2 (settled D ns bs) (ty_params p) as"
  shows "settled D ns bs p a"
proof -
  have "\<forall>q\<in>set (ty_params p). \<forall>x\<in>typarams q. bound ns bs x" "list_all2 (\<lambda>q b. matches D (subst_type (sub ns bs) q) b) (ty_params p) as"
    using assms(4) by (auto simp: settled_def list_all2_conv_all_nth in_set_conv_nth)
  then show ?thesis
    using assms unfolding settled_def by (subst typarams.simps, subst subst_type.simps, subst matches.simps) (auto simp: list.rel_map)
qed

lemma settled_other:
  assumes "ty_kind p \<notin> {TY_TYPARAM, TY_ARRAY, TY_MAP, TY_FN}" "ty_kind p = TY_NAMED \<longrightarrow> ty_params p = []" "type_identical p a"
  shows "settled D ns bs p a"
  using assms unfolding settled_def by (subst typarams.simps, subst subst_type.simps, subst matches.simps) auto

text \<open>What a successful match of \<open>p\<close> with \<open>a\<close> makes of the bindings.\<close>

definition unified :: "decl_env \<Rightarrow> string list \<Rightarrow> ty option list \<Rightarrow> ty option list \<Rightarrow> ty \<Rightarrow> ty \<Rightarrow> bool" where
  "unified D ns bs bs' p a \<longleftrightarrow>
     extends bs bs' \<and> concrete_bindings bs' \<and> (fits D ns p a \<longrightarrow> settled D ns bs' p a)"

lemma unify_all_sound:
  assumes "\<And>p a bs bs'. p \<in> set ps \<Longrightarrow> unify D dn ns loc p a bs = Inr bs' \<Longrightarrow> length bs = length ns \<Longrightarrow> concrete a \<Longrightarrow>
      concrete_bindings bs \<Longrightarrow> unified D ns bs bs' p a"
    and "unify_all D dn ns loc ps as bs = Inr bs'" "length bs = length ns" "\<forall>a\<in>set as. concrete a" "concrete_bindings bs"
  shows "extends bs bs' \<and> concrete_bindings bs' \<and> (list_all2 (fits D ns) ps as \<longrightarrow> list_all2 (settled D ns bs') ps as)"
  using assms
proof (induction ps arbitrary: as bs)
  case (Cons p ps)
  show ?case
  proof (cases as)
    case Nil
    then show ?thesis using Cons.prems by simp
  next
    case (Cons a as')
    note as = this
    obtain bs1 where u: "unify D dn ns loc p a bs = Inr bs1" "unify_all D dn ns loc ps as' bs1 = Inr bs'"
      using Cons.prems(2) as by auto
    have p: "unified D ns bs bs1 p a" by (rule Cons.prems(1)[OF _ u(1)]) (use Cons.prems(3-5) as in auto)
    then have e: "extends bs bs1" "concrete_bindings bs1" "length bs1 = length ns" using Cons.prems(3) by (auto simp: unified_def extends_def)
    have r: "extends bs1 bs' \<and> concrete_bindings bs' \<and> (list_all2 (fits D ns) ps as' \<longrightarrow> list_all2 (settled D ns bs') ps as')"
      by (rule Cons.IH[OF Cons.prems(1)[OF list.set_intros(2)] u(2) e(3) _ e(2)]) (use Cons.prems(4) as in auto)
    then show ?thesis
      using p as bindings_extend_trans[OF e(1)] settled_extends[OF _ _ e(3)] by (auto simp: unified_def)
  qed
qed simp

lemma unify_sound:
  assumes D: "env_concrete D"
  shows "unify D dn ns loc p a bs = Inr bs' \<Longrightarrow> length bs = length ns \<Longrightarrow> concrete a \<Longrightarrow> concrete_bindings bs \<Longrightarrow> unified D ns bs bs' p a"
proof (induction p arbitrary: a bs bs' rule: measure_induct_rule[where f = size])
  case (less p)
  note u = less.prems(1)[unfolded unify.simps[of D dn ns loc p]]
  note all = unify_all_sound[of "ty_params p" D dn ns loc, OF less.IH[OF size_ty_params]]
  have keep: ?case if "bs' = bs" "\<not> fits D ns p a \<or> settled D ns bs p a" using that less.prems(4) by (auto simp: unified_def)
  consider (par) "ty_kind p = TY_TYPARAM" | (el) "ty_kind p = TY_ARRAY \<or> ty_kind p = TY_MAP" | (fn) "ty_kind p = TY_FN"
    | (named) "ty_kind p = TY_NAMED" | (oth) "ty_kind p \<notin> {TY_TYPARAM, TY_ARRAY, TY_MAP, TY_FN, TY_NAMED}" by blast
  then show ?case
  proof cases
    case par
    then have "bind_param dn ns loc p a bs = Inr bs'" using u by simp
    from bind_param_sound[OF this less.prems(2-4) par, of D] show ?thesis
      using par by (auto simp: unified_def settled_def fits.simps[of D ns p] typarams.simps[of p])
  next
    case el
    show ?thesis
    proof (cases "ty_kind a = ty_kind p \<and> ty_elem p \<noteq> None \<and> ty_elem a \<noteq> None")
      case True
      then obtain x y where xy: "ty_elem p = Some x" "ty_elem a = Some y" by auto
      have "unify D dn ns loc x y bs = Inr bs'" using u el True xy by auto
      moreover have "concrete y" using concrete_parts_of(1)[OF less.prems(3) _ xy(2)] el True by simp
      ultimately have "unified D ns bs bs' x y" using less.IH[OF size_ty_elem[OF xy(1)]] less.prems by blast
      then show ?thesis
        using settled_elem[OF el _ xy] el True xy by (auto simp: unified_def fits.simps[of D ns p])
    next
      case False
      then show ?thesis using u el by (intro keep) (auto simp: fits.simps[of D ns p] split: option.splits if_splits)
    qed
  next
    case fn
    show ?thesis
    proof (cases "ty_kind a = TY_FN \<and> length (ty_params a) = length (ty_params p)")
      case True
      then obtain bs1 where u1: "unify_all D dn ns loc (ty_params p) (ty_params a) bs = Inr bs1"
        and u2: "(case (ty_ret p, ty_ret a) of (Some x, Some y) \<Rightarrow> unify D dn ns loc x y bs1 | _ \<Rightarrow> Inr bs1) = Inr bs'"
        using u fn by auto
      have ps: "extends bs bs1 \<and> concrete_bindings bs1 \<and>
          (list_all2 (fits D ns) (ty_params p) (ty_params a) \<longrightarrow> list_all2 (settled D ns bs1) (ty_params p) (ty_params a))"
        by (rule all[OF _ _ _ _ _ u1]) (use less.prems concrete_parts_of(3) True in auto)
      then have len: "length bs1 = length ns" using less.prems(2) by (simp add: extends_def)
      show ?thesis
      proof (cases "ty_ret p \<noteq> None \<and> ty_ret a \<noteq> None")
        case True
        then obtain x y where xy: "ty_ret p = Some x" "ty_ret a = Some y" by auto
        have "concrete y" using concrete_parts_of(2)[OF less.prems(3) _ xy(2)] \<open>ty_kind a = TY_FN \<and> _\<close> by simp
        then have r: "unified D ns bs1 bs' x y" using less.IH[OF size_ty_ret[OF xy(1)], of y bs1 bs'] u2 xy ps len by simp
        have "settled D ns bs' p a" if "fits D ns p a"
        proof (rule settled_fn[OF fn _ _ xy])
          have f: "list_all2 (fits D ns) (ty_params p) (ty_params a)" "fits D ns x y"
            using that fn xy by (auto simp: fits.simps[of D ns p])
          then show "list_all2 (settled D ns bs') (ty_params p) (ty_params a)"
            using ps r settled_extends[OF _ _ len] by (auto simp: unified_def elim: list_all2_mono)
          show "settled D ns bs' x y" using r f(2) by (simp add: unified_def)
        qed (use \<open>ty_kind a = TY_FN \<and> _\<close> in simp)
        then show ?thesis using ps r bindings_extend_trans by (auto simp: unified_def)
      next
        case False
        then have "bs' = bs1" "\<not> fits D ns p a" using u2 fn by (auto simp: fits.simps[of D ns p] split: option.splits)
        then show ?thesis using ps by (simp add: unified_def)
      qed
    next
      case False
      then show ?thesis using u fn by (intro keep) (auto simp: fits.simps[of D ns p] dest: list_all2_lengthD split: if_splits)
    qed
  next
    case named
    show ?thesis
    proof (cases "inst_args D a (the (ty_name p)) (length (ty_params p))")
      case None
      then show ?thesis
        using u named settled_other[of p a D ns bs] by (intro keep) (auto simp: fits.simps[of D ns p])
    next
      case (Some as)
      have ua: "unify_all D dn ns loc (ty_params p) as bs = Inr bs'" using u named Some by simp
      have ps: "extends bs bs' \<and> concrete_bindings bs' \<and>
          (list_all2 (fits D ns) (ty_params p) as \<longrightarrow> list_all2 (settled D ns bs') (ty_params p) as)"
        by (rule all[OF _ _ _ _ _ ua]) (use less.prems inst_args_concrete[OF D Some] in auto)
      have "settled D ns bs' p a" if "fits D ns p a"
      proof (cases "ty_params p = []")
        case True
        then show ?thesis using that named settled_other[of p a D ns bs'] by (auto simp: fits.simps[of D ns p])
      next
        case False
        then show ?thesis using settled_named[OF named False Some] ps that named Some by (auto simp: fits.simps[of D ns p])
      qed
      then show ?thesis using ps by (simp add: unified_def)
    qed
  next
    case oth
    then show ?thesis using u settled_other[of p a D ns bs] by (intro keep) (auto simp: fits.simps[of D ns p])
  qed
qed

text \<open>Conversely, when some bindings make the parameter's type match, matching succeeds and finds these bindings.\<close>

definition agrees :: "ty option list \<Rightarrow> ty option list \<Rightarrow> bool" where
  "agrees bs cs \<longleftrightarrow> length bs = length cs \<and> (\<forall>i<length bs. \<forall>b. bs ! i = Some b \<longrightarrow> (\<exists>c. cs ! i = Some c \<and> type_identical c b))"

definition solvable :: "decl_env \<Rightarrow> decl_names \<Rightarrow> string list \<Rightarrow> loc \<Rightarrow> ty option list \<Rightarrow> ty \<Rightarrow> ty \<Rightarrow> bool" where
  "solvable D dn ns loc cs p a \<longleftrightarrow>
     fits D ns p a \<and> (\<forall>bs. agrees bs cs \<longrightarrow> (\<exists>bs'. unify D dn ns loc p a bs = Inr bs' \<and> agrees bs' cs))"

lemma solvable_all:
  assumes "list_all2 (solvable D dn ns loc cs) ps as" "agrees bs cs"
  shows "\<exists>bs'. unify_all D dn ns loc ps as bs = Inr bs' \<and> agrees bs' cs"
  using assms
proof (induction arbitrary: bs rule: list_all2_induct)
  case (Cons p ps a as)
  then obtain bs1 where "unify D dn ns loc p a bs = Inr bs1" "agrees bs1 cs" unfolding solvable_def by blast
  then show ?case using Cons.IH by simp
qed simp

lemma solvable_keep: "fits D ns p a \<Longrightarrow> (\<And>bs. unify D dn ns loc p a bs = Inr bs) \<Longrightarrow> solvable D dn ns loc cs p a"
  by (auto simp: solvable_def)

lemma typaram_not_concrete:
  assumes "ty_kind t = TY_TYPARAM" "type_identical t a"
  shows "\<not> concrete a"
proof -
  have "norm_kind (ty_kind t) = norm_kind (ty_kind a)" using assms(2) type_identical_shape by blast
  then have "ty_kind a = TY_TYPARAM" using assms(1) norm_kind_simps(4) by metis
  then show ?thesis using concrete_parts(3) by blast
qed

lemma solvable_param:
  assumes p: "ty_kind p = TY_TYPARAM" and m: "matches D (subst_type (sub ns cs) p) a" and a: "concrete a"
    and cs: "length cs = length ns" "concrete_bindings cs"
  shows "solvable D dn ns loc cs p a"
proof -
  have m': "matches D (subst_param (sub ns cs) p) a" using m p by (simp add: subst_type.simps[of _ p])
  have np: "\<not> matches D p a"
    using typaram_not_concrete[OF p] a p by (auto simp: matches.simps[of D p])
  obtain i c where i: "typaram_index ns (the (ty_name p)) = Some i" and c: "cs ! i = Some c"
    using m' np by (auto simp: subst_param_def split: option.splits)
  have il: "i < length cs" using typaram_index_Some[OF i] cs(1) by simp
  have cc: "concrete c" using cs(2) c il unfolding concrete_bindings_def by (metis nth_mem)
  have ca: "type_identical c a"
  proof -
    let ?s = "subst_param (sub ns cs) p"
    have "type_identical ?s c" by (rule subst_param_identical[OF i c concrete_refl[OF cc]])
    moreover have "type_identical ?s a" using m' matches_concrete[OF subst_param_concrete[OF i c cc]] by blast
    ultimately show ?thesis using type_identical_sym type_identical_trans by blast
  qed
  have "\<exists>bs'. bind_param dn ns loc p a bs = Inr bs' \<and> agrees bs' cs" if bs: "agrees bs cs" for bs
  proof (cases "bs ! i")
    case None
    then show ?thesis using i bs ca c il by (auto simp: bind_param_def agrees_def nth_list_update)
  next
    case (Some b)
    then have "type_identical c b" using bs c il unfolding agrees_def by fastforce
    then have "type_identical b a" using ca type_identical_sym type_identical_trans by blast
    then show ?thesis using i Some bs by (simp add: bind_param_def)
  qed
  moreover have "the (ty_name p) \<in> set ns" using i typaram_index_None[of ns "the (ty_name p)"] by auto
  ultimately show ?thesis using p by (simp add: solvable_def unify.simps[of D dn ns loc p] fits.simps[of D ns p])
qed

lemma unify_complete:
  assumes D: "env_concrete D" and cs: "length cs = length ns" "concrete_bindings cs"
  shows "matches D (subst_type (sub ns cs) p) a \<Longrightarrow> concrete a \<Longrightarrow> solvable D dn ns loc cs p a"
proof (induction p arbitrary: a rule: measure_induct_rule[where f = size])
  case (less p)
  note st = subst_type.simps[of "sub ns cs" p]
  have all: "list_all2 (solvable D dn ns loc cs) (ty_params p) as"
    if "list_all2 (matches D) (map (subst_type (sub ns cs)) (ty_params p)) as" "\<forall>b\<in>set as. concrete b" for as
    using that less.IH[OF size_ty_params] by (auto simp: list_all2_conv_all_nth)
  have fs: "list_all2 (fits D ns) ps as" if "list_all2 (solvable D dn ns loc cs) ps as" for ps as
    using that by (rule list_all2_mono) (simp add: solvable_def)
  consider (par) "ty_kind p = TY_TYPARAM" | (el) "ty_kind p = TY_ARRAY \<or> ty_kind p = TY_MAP" | (fn) "ty_kind p = TY_FN"
    | (named) "ty_kind p = TY_NAMED" "ty_params p \<noteq> []"
    | (oth) "ty_kind p \<notin> {TY_TYPARAM, TY_ARRAY, TY_MAP, TY_FN}" "ty_kind p = TY_NAMED \<longrightarrow> ty_params p = []" by blast
  then show ?case
  proof cases
    case par
    then show ?thesis using solvable_param less.prems cs by blast
  next
    case el
    then obtain x y where xy: "ty_elem p = Some x" "ty_elem a = Some y" "ty_kind a = ty_kind p" "matches D (subst_type (sub ns cs) x) y"
      using less.prems(1) unfolding st by (auto simp: matches.simps[of D "Type _ _ _ _ _ _ _ _ _ _ _ _"] split: option.splits)
    have "concrete y" using concrete_parts_of(1)[OF less.prems(2) _ xy(2)] el xy(3) by simp
    then have "solvable D dn ns loc cs x y" using less.IH[OF size_ty_elem[OF xy(1)] xy(4)] by blast
    then show ?thesis using el xy by (auto simp: solvable_def unify.simps[of D dn ns loc p] fits.simps[of D ns p])
  next
    case fn
    then obtain x y where xy: "ty_ret p = Some x" "ty_ret a = Some y" "ty_kind a = TY_FN" "matches D (subst_type (sub ns cs) x) y"
        "list_all2 (matches D) (map (subst_type (sub ns cs)) (ty_params p)) (ty_params a)"
      using less.prems(1) unfolding st by (auto simp: matches.simps[of D "Type _ _ _ _ _ _ _ _ _ _ _ _"] split: option.splits)
    have "solvable D dn ns loc cs x y"
      using less.IH[OF size_ty_ret[OF xy(1)] xy(4)] concrete_parts_of(2)[OF less.prems(2) xy(3,2)] by blast
    moreover have ps: "list_all2 (solvable D dn ns loc cs) (ty_params p) (ty_params a)"
      by (rule all[OF xy(5) concrete_parts_of(3)[OF less.prems(2) xy(3)]])
    ultimately show ?thesis
      using fn xy(1,2,3) fs[OF ps] solvable_all[OF ps] list_all2_lengthD[OF ps]
      unfolding solvable_def unify.simps[of D dn ns loc p] fits.simps[of D ns p] by (simp, blast)
  next
    case named
    then obtain as where as: "inst_args D a (the (ty_name p)) (length (ty_params p)) = Some as"
        "list_all2 (matches D) (map (subst_type (sub ns cs)) (ty_params p)) as"
      using less.prems(1) unfolding st by (auto simp: matches.simps[of D "Type _ _ _ _ _ _ _ _ _ _ _ _"] split: option.splits)
    have ps: "list_all2 (solvable D dn ns loc cs) (ty_params p) as"
      by (rule all[OF as(2) inst_args_concrete[OF D as(1)]])
    then show ?thesis
      using named as(1) fs[OF ps] solvable_all[OF ps]
      unfolding solvable_def unify.simps[of D dn ns loc p] fits.simps[of D ns p] by simp
  next
    case oth
    have "fits D ns p a" using less.prems(1) oth unfolding st by (auto simp: fits.simps[of D ns p] matches.simps[of D p])
    then show ?thesis using oth by (intro solvable_keep) (auto simp: unify.simps[of D dn ns loc p] split: option.splits)
  qed
qed

lemma inference_solves:
  assumes D: "env_concrete D" and a: "concrete a" and f: "fits D ns p a" "unify D dn ns loc p a (replicate (length ns) None) = Inr bs"
  shows "length bs = length ns \<and> concrete_bindings bs \<and> matches D (subst_type (sub ns bs) p) a"
proof -
  have "concrete_bindings (replicate (length ns) None)" by (simp add: concrete_bindings_def)
  then show ?thesis using unify_sound[OF D f(2) _ a] f(1) by (auto simp: unified_def settled_def extends_def)
qed

lemma inference_finds:
  assumes D: "env_concrete D" and a: "concrete a" and cs: "length cs = length ns" "concrete_bindings cs" "matches D (subst_type (sub ns cs) p) a"
  shows "fits D ns p a \<and> (\<exists>bs. unify D dn ns loc p a (replicate (length ns) None) = Inr bs \<and> agrees bs cs)"
proof -
  have "agrees (replicate (length ns) None) cs" using cs(1) by (simp add: agrees_def)
  then show ?thesis using unify_complete[OF D cs a, of dn loc] unfolding solvable_def by blast
qed


abbreviation simple_ty :: "type_kind \<Rightarrow> ty" where
  "simple_ty k \<equiv> Type k False False False None None [] None no_loc None None None"

abbreviation param_ty :: "string \<Rightarrow> ty" where
  "param_ty x \<equiv> Type TY_TYPARAM False False False None None [] (Some x) no_loc None None None"

abbreviation array_ty :: "ty \<Rightarrow> ty" where
  "array_ty t \<equiv> Type TY_ARRAY False False False (Some t) None [] None no_loc None None None"


text \<open>Substitution forgets the mark of a nullable type: an array rebuilt, or the type bound to a parameter, has the mark of
  neither the template's type nor, for the array, of anything else.\<close>

theorem subst_drops_nullable:
  "\<not> ty_nullable (subst_type s (Type TY_ARRAY w True f e r ps n l sd cd ed)) \<and>
   (ty_kind c = TY_CLASS \<longrightarrow> \<not> ty_nullable c \<longrightarrow>
     \<not> ty_nullable (subst_type (sub [x] [Some c]) (Type TY_TYPARAM w True f e r ps (Some x) l sd cd ed)))"
  by (simp add: subst_type.simps subst_param_def)

section \<open>Instances\<close>

text \<open>The list of instances of a generic function, from the newest: the one for the arguments, or a new one, unless instantiations are
  nested too deeply; \<open>depth\<close> is the number of those under way. The clone and what is resolved in it are the argument \<open>fresh\<close>.\<close>

definition GENERIC_DEPTH_MAX :: nat where "GENERIC_DEPTH_MAX = 64"

definition find_inst :: "('i \<times> ty list) list \<Rightarrow> ty list \<Rightarrow> 'i option" where
  "find_inst insts args = map_option fst (List.find (\<lambda>it. list_all2 type_identical (snd it) args) insts)"

definition instantiate :: "nat \<Rightarrow> loc \<Rightarrow> string \<Rightarrow> 'i \<Rightarrow> ('i \<times> ty list) list \<Rightarrow> ty list \<Rightarrow> ('i \<times> ('i \<times> ty list) list) cres" where
  "instantiate depth use name fresh insts args =
     (case find_inst insts args of
        Some i \<Rightarrow> Inr (i, insts)
      | None \<Rightarrow>
          if depth + 1 > GENERIC_DEPTH_MAX
          then Inl (FatalAt use (''generic instantiation nested too deeply (is '' @ quoted name @ '' self-referential?)''))
          else Inr (fresh, (fresh, args) # insts))"

definition insts_distinct :: "('i \<times> ty list) list \<Rightarrow> bool" where
  "insts_distinct insts \<longleftrightarrow> sorted_wrt (\<lambda>x y. \<not> list_all2 type_identical (snd y) (snd x)) insts"

lemma instantiate_distinct:
  assumes "insts_distinct insts" "instantiate depth use name fresh insts args = Inr (i, insts')"
  shows "insts_distinct insts'"
  using assms
  by (auto simp: insts_distinct_def instantiate_def find_inst_def find_None_iff split: option.splits if_splits)

lemma find_inst_Some:
  assumes "find_inst insts args = Some i"
  shows "\<exists>args'. (i, args') \<in> set insts \<and> list_all2 type_identical args' args"
proof -
  obtain it where "List.find (\<lambda>it. list_all2 type_identical (snd it) args) insts = Some it" "fst it = i"
    using assms by (auto simp: find_inst_def)
  then have it: "it \<in> set insts" "list_all2 type_identical (snd it) args" "fst it = i" by (auto simp: find_Some_iff)
  then show ?thesis by (intro exI[of _ "snd it"]) auto
qed

lemma instantiate_same:
  assumes "instantiate depth use name fresh insts args = Inr (i, insts')" "\<forall>a\<in>set args. concrete a"
  shows "\<exists>args'. (i, args') \<in> set insts' \<and> list_all2 type_identical args' args"
proof (cases "find_inst insts args")
  case None
  have "list_all2 type_identical args args" using assms(2) concrete_refl by (simp add: list_all2_same)
  then show ?thesis using assms(1) None by (auto simp: instantiate_def split: if_splits)
next
  case (Some j)
  then show ?thesis using find_inst_Some[OF Some] assms(1) by (simp add: instantiate_def)
qed

lemma identical_all_sym: "list_all2 type_identical as bs \<Longrightarrow> list_all2 type_identical bs as"
  using type_identical_sym unfolding list_all2_conv_all_nth by metis

lemma identical_all_trans: "list_all2 type_identical as bs \<Longrightarrow> list_all2 type_identical bs cs \<Longrightarrow> list_all2 type_identical as cs"
  using list_all2_trans[of type_identical type_identical type_identical] type_identical_trans by blast

text \<open>Asking again for identical arguments gives the same instance, whatever was asked for in between.\<close>

lemma find_inst_stable:
  assumes "find_inst insts args = Some i" "find_inst insts args' = None" "list_all2 type_identical as args"
  shows "find_inst ((j, args') # insts) as = Some i"
proof -
  have eq: "list_all2 type_identical xs as = list_all2 type_identical xs args" for xs
    using identical_all_trans identical_all_sym assms(3) by blast
  obtain xs where xs: "(i, xs) \<in> set insts" "list_all2 type_identical xs args" using find_inst_Some[OF assms(1)] by blast
  then have "\<not> list_all2 type_identical args' args"
    using identical_all_trans[OF xs(2) identical_all_sym] assms(2) by (auto simp: find_inst_def find_None_iff)
  then show ?thesis using assms(1) by (simp add: find_inst_def eq)
qed

end
