(* ===== verification/Vt_Clone.thy ===== *)
theory Vt_Clone
  imports Vt_Generic
begin

text \<open>
  The copy of a generic template's body (\<open>src/check.c\<close>: \<open>clone_expr\<close>, \<open>clone_expr_list\<close>, \<open>clone_stmt\<close>, \<open>clone_stmt_list\<close>, \<open>clone_fn_into\<close>). The counter of the
  module from which arrow functions take their numbers is passed along, in the order in which the code copies the
  parts.
\<close>

section \<open>Copying\<close>

text \<open>Copies run one after the other.\<close>

type_synonym 'a copy = "nat \<Rightarrow> 'a \<times> nat"

fun copies :: "'a copy list \<Rightarrow> 'a list copy" where
  "copies [] k = ([], k)"
| "copies (c # cs) k = (let (x, k1) = c k; (xs, k2) = copies cs k1 in (x # xs, k2))"

definition copy_opt :: "'a copy option \<Rightarrow> 'a option copy" where
  "copy_opt c k = (case c of None \<Rightarrow> (None, k) | Some f \<Rightarrow> let (x, k1) = f k in (Some x, k1))"

primrec clone_expr :: "subst \<Rightarrow> expr \<Rightarrow> expr copy"
  and clone_stmt :: "subst \<Rightarrow> stmt \<Rightarrow> stmt copy"
  and clone_arm :: "subst \<Rightarrow> switch_arm \<Rightarrow> switch_arm copy"
  and clone_param :: "subst \<Rightarrow> param \<Rightarrow> param copy"
  and clone_fn_into :: "subst \<Rightarrow> fn_decl \<Rightarrow> string option \<Rightarrow> string option \<Rightarrow> fn_decl copy" where
  "clone_expr s (EX_INT l v) = Pair (EX_INT l v)"
| "clone_expr s (EX_FLOAT l v) = Pair (EX_FLOAT l v)"
| "clone_expr s (EX_STR l v) = Pair (EX_STR l v)"
| "clone_expr s (EX_BOOL l v) = Pair (EX_BOOL l v)"
| "clone_expr s (EX_NULL l) = Pair (EX_NULL l)"
| "clone_expr s (EX_IDENT l n) = Pair (EX_IDENT l n)"
| "clone_expr s (EX_THIS l) = Pair (EX_THIS l)"
| "clone_expr s (EX_BIN l t a b) = (\<lambda>k. let (a, k) = clone_expr s a k; (b, k) = clone_expr s b k in (EX_BIN l t a b, k))"
| "clone_expr s (EX_UN l t a) = (\<lambda>k. let (a, k) = clone_expr s a k in (EX_UN l t a, k))"
| "clone_expr s (EX_ASSIGN l t a b) = (\<lambda>k. let (a, k) = clone_expr s a k; (b, k) = clone_expr s b k in (EX_ASSIGN l t a b, k))"
| "clone_expr s (EX_CALL l c m su tys as ns) =
     (\<lambda>k. let (c, k) = copy_opt (map_option (clone_expr s) c) k; (as, k) = copies (map (clone_expr s) as) k
          in (EX_CALL l c m su (map (subst_type s) tys) as ns, k))"
| "clone_expr s (EX_INDEX l a b) = (\<lambda>k. let (a, k) = clone_expr s a k; (b, k) = clone_expr s b k in (EX_INDEX l a b, k))"
| "clone_expr s (EX_MEMBER l a n) = (\<lambda>k. let (a, k) = clone_expr s a k in (EX_MEMBER l a n, k))"
| "clone_expr s (EX_NEW l rg mt c tys as ns) =
     (\<lambda>k. let (as, k) = copies (map (clone_expr s) as) k
          in (EX_NEW l rg (map_option (subst_type s) mt) c (map (subst_type s) tys) as ns, k))"
| "clone_expr s (EX_ARROW l f) = (\<lambda>k. let (f, k) = clone_fn_into s f None None k in (EX_ARROW l f, k))"
| "clone_expr s (EX_ARRAYLIT l as) = (\<lambda>k. let (as, k) = copies (map (clone_expr s) as) k in (EX_ARRAYLIT l as, k))"
| "clone_expr s (EX_TSTR l as) = (\<lambda>k. let (as, k) = copies (map (clone_expr s) as) k in (EX_TSTR l as, k))"
| "clone_expr s (EX_AS l a t) = (\<lambda>k. let (a, k) = clone_expr s a k in (EX_AS l a (subst_type s t), k))"
| "clone_stmt s (ST_LET l n t e) =
     (\<lambda>k. let (e, k) = clone_expr s e k in (ST_LET l n (map_option (subst_type s) t) e, k))"
| "clone_stmt s (ST_EXPR l e) = (\<lambda>k. let (e, k) = clone_expr s e k in (ST_EXPR l e, k))"
| "clone_stmt s (ST_IF l e b c) =
     (\<lambda>k. let (e, k) = clone_expr s e k; (b, k) = copies (map (clone_stmt s) b) k; (c, k) = copies (map (clone_stmt s) c) k
          in (ST_IF l e b c, k))"
| "clone_stmt s (ST_WHILE l e b) =
     (\<lambda>k. let (e, k) = clone_expr s e k; (b, k) = copies (map (clone_stmt s) b) k in (ST_WHILE l e b, k))"
| "clone_stmt s (ST_FOR_RANGE l n lo hi b) =
     (\<lambda>k. let (lo, k) = clone_expr s lo k; (hi, k) = clone_expr s hi k; (b, k) = copies (map (clone_stmt s) b) k
          in (ST_FOR_RANGE l n lo hi b, k))"
| "clone_stmt s (ST_FOR_EACH l n e b) =
     (\<lambda>k. let (e, k) = clone_expr s e k; (b, k) = copies (map (clone_stmt s) b) k in (ST_FOR_EACH l n e b, k))"
| "clone_stmt s (ST_RETURN l e) = (\<lambda>k. let (e, k) = copy_opt (map_option (clone_expr s) e) k in (ST_RETURN l e, k))"
| "clone_stmt s (ST_BREAK l) = Pair (ST_BREAK l)"
| "clone_stmt s (ST_CONTINUE l) = Pair (ST_CONTINUE l)"
| "clone_stmt s (ST_BLOCK l b) = (\<lambda>k. let (b, k) = copies (map (clone_stmt s) b) k in (ST_BLOCK l b, k))"
| "clone_stmt s (ST_SWITCH l e arms) =
     (\<lambda>k. let (e, k) = clone_expr s e k; (arms, k) = copies (map (clone_arm s) arms) k in (ST_SWITCH l e arms, k))"
| "clone_stmt s (ST_ARENA l n b) = (\<lambda>k. let (b, k) = copies (map (clone_stmt s) b) k in (ST_ARENA l n b, k))"
| "clone_arm s (SwitchArm l d vs b) =
     (\<lambda>k. let (vs, k) = copies (map (clone_expr s) vs) k; (b, k) = copies (map (clone_stmt s) b) k in (SwitchArm l d vs b, k))"
| "clone_param s (Param n t l d) =
     (\<lambda>k. let (d, k) = copy_opt (map_option (clone_expr s) d) k in (Param n (map_option (subst_type s) t) l d, k))"
| "clone_fn_into s (FnDecl h ps r b) =
     (\<lambda>owner sowner k.
        let k = (if fd_name h = None then k + 1 else k);
            h = h\<lparr>fd_owner := owner, fd_sowner := sowner, fd_typarams := [], arrow_id := (if fd_name h = None then k else arrow_id h)\<rparr>;
            (ps, k) = copies (map (clone_param s) ps) k;
            (b, k) = copies (map (clone_stmt s) b) k
        in (FnDecl h ps (map_option (subst_type s) r) b, k))"

section \<open>What a copy is\<close>

text \<open>The types written in a tree, the numbers of its arrow functions, and the tree without them, read in the order of
  the copy.\<close>

definition opt_list :: "'a list option \<Rightarrow> 'a list" where
  "opt_list x = (case x of None \<Rightarrow> [] | Some xs \<Rightarrow> xs)"

primrec expr_types :: "expr \<Rightarrow> ty list" and stmt_types :: "stmt \<Rightarrow> ty list" and arm_types :: "switch_arm \<Rightarrow> ty list"
  and param_types :: "param \<Rightarrow> ty list" and fn_types :: "fn_decl \<Rightarrow> ty list" where
  "expr_types (EX_INT l v) = []"
| "expr_types (EX_FLOAT l v) = []"
| "expr_types (EX_STR l v) = []"
| "expr_types (EX_BOOL l v) = []"
| "expr_types (EX_NULL l) = []"
| "expr_types (EX_IDENT l n) = []"
| "expr_types (EX_THIS l) = []"
| "expr_types (EX_BIN l t a b) = expr_types a @ expr_types b"
| "expr_types (EX_UN l t a) = expr_types a"
| "expr_types (EX_ASSIGN l t a b) = expr_types a @ expr_types b"
| "expr_types (EX_CALL l c m su tys as ns) = opt_list (map_option expr_types c) @ concat (map expr_types as) @ tys"
| "expr_types (EX_INDEX l a b) = expr_types a @ expr_types b"
| "expr_types (EX_MEMBER l a n) = expr_types a"
| "expr_types (EX_NEW l rg mt c tys as ns) = concat (map expr_types as) @ opt_list (map_option (\<lambda>t. [t]) mt) @ tys"
| "expr_types (EX_ARROW l f) = fn_types f"
| "expr_types (EX_ARRAYLIT l as) = concat (map expr_types as)"
| "expr_types (EX_TSTR l as) = concat (map expr_types as)"
| "expr_types (EX_AS l a t) = expr_types a @ [t]"
| "stmt_types (ST_LET l n t e) = opt_list (map_option (\<lambda>t. [t]) t) @ expr_types e"
| "stmt_types (ST_EXPR l e) = expr_types e"
| "stmt_types (ST_IF l e b c) = expr_types e @ concat (map stmt_types b) @ concat (map stmt_types c)"
| "stmt_types (ST_WHILE l e b) = expr_types e @ concat (map stmt_types b)"
| "stmt_types (ST_FOR_RANGE l n lo hi b) = expr_types lo @ expr_types hi @ concat (map stmt_types b)"
| "stmt_types (ST_FOR_EACH l n e b) = expr_types e @ concat (map stmt_types b)"
| "stmt_types (ST_RETURN l e) = opt_list (map_option expr_types e)"
| "stmt_types (ST_BREAK l) = []"
| "stmt_types (ST_CONTINUE l) = []"
| "stmt_types (ST_BLOCK l b) = concat (map stmt_types b)"
| "stmt_types (ST_SWITCH l e arms) = expr_types e @ concat (map arm_types arms)"
| "stmt_types (ST_ARENA l n b) = concat (map stmt_types b)"
| "arm_types (SwitchArm l d vs b) = concat (map expr_types vs) @ concat (map stmt_types b)"
| "param_types (Param n t l d) = opt_list (map_option (\<lambda>t. [t]) t) @ opt_list (map_option expr_types d)"
| "fn_types (FnDecl h ps r b) =
     concat (map param_types ps) @ opt_list (map_option (\<lambda>t. [t]) r) @ concat (map stmt_types b)"

primrec expr_arrows :: "expr \<Rightarrow> nat list" and stmt_arrows :: "stmt \<Rightarrow> nat list" and arm_arrows :: "switch_arm \<Rightarrow> nat list"
  and param_arrows :: "param \<Rightarrow> nat list" and fn_arrows :: "fn_decl \<Rightarrow> nat list" where
  "expr_arrows (EX_INT l v) = []"
| "expr_arrows (EX_FLOAT l v) = []"
| "expr_arrows (EX_STR l v) = []"
| "expr_arrows (EX_BOOL l v) = []"
| "expr_arrows (EX_NULL l) = []"
| "expr_arrows (EX_IDENT l n) = []"
| "expr_arrows (EX_THIS l) = []"
| "expr_arrows (EX_BIN l t a b) = expr_arrows a @ expr_arrows b"
| "expr_arrows (EX_UN l t a) = expr_arrows a"
| "expr_arrows (EX_ASSIGN l t a b) = expr_arrows a @ expr_arrows b"
| "expr_arrows (EX_CALL l c m su tys as ns) = opt_list (map_option expr_arrows c) @ concat (map expr_arrows as)"
| "expr_arrows (EX_INDEX l a b) = expr_arrows a @ expr_arrows b"
| "expr_arrows (EX_MEMBER l a n) = expr_arrows a"
| "expr_arrows (EX_NEW l rg mt c tys as ns) = concat (map expr_arrows as)"
| "expr_arrows (EX_ARROW l f) = fn_arrows f"
| "expr_arrows (EX_ARRAYLIT l as) = concat (map expr_arrows as)"
| "expr_arrows (EX_TSTR l as) = concat (map expr_arrows as)"
| "expr_arrows (EX_AS l a t) = expr_arrows a"
| "stmt_arrows (ST_LET l n t e) = expr_arrows e"
| "stmt_arrows (ST_EXPR l e) = expr_arrows e"
| "stmt_arrows (ST_IF l e b c) = expr_arrows e @ concat (map stmt_arrows b) @ concat (map stmt_arrows c)"
| "stmt_arrows (ST_WHILE l e b) = expr_arrows e @ concat (map stmt_arrows b)"
| "stmt_arrows (ST_FOR_RANGE l n lo hi b) = expr_arrows lo @ expr_arrows hi @ concat (map stmt_arrows b)"
| "stmt_arrows (ST_FOR_EACH l n e b) = expr_arrows e @ concat (map stmt_arrows b)"
| "stmt_arrows (ST_RETURN l e) = opt_list (map_option expr_arrows e)"
| "stmt_arrows (ST_BREAK l) = []"
| "stmt_arrows (ST_CONTINUE l) = []"
| "stmt_arrows (ST_BLOCK l b) = concat (map stmt_arrows b)"
| "stmt_arrows (ST_SWITCH l e arms) = expr_arrows e @ concat (map arm_arrows arms)"
| "stmt_arrows (ST_ARENA l n b) = concat (map stmt_arrows b)"
| "arm_arrows (SwitchArm l d vs b) = concat (map expr_arrows vs) @ concat (map stmt_arrows b)"
| "param_arrows (Param n t l d) = opt_list (map_option expr_arrows d)"
| "fn_arrows (FnDecl h ps r b) =
     (if fd_name h = None then [arrow_id h] else []) @ concat (map param_arrows ps) @ concat (map stmt_arrows b)"

primrec erase_expr :: "expr \<Rightarrow> expr" and erase_stmt :: "stmt \<Rightarrow> stmt" and erase_arm :: "switch_arm \<Rightarrow> switch_arm"
  and erase_param :: "param \<Rightarrow> param" and erase_fn :: "fn_decl \<Rightarrow> fn_decl" where
  "erase_expr (EX_INT l v) = EX_INT l v"
| "erase_expr (EX_FLOAT l v) = EX_FLOAT l v"
| "erase_expr (EX_STR l v) = EX_STR l v"
| "erase_expr (EX_BOOL l v) = EX_BOOL l v"
| "erase_expr (EX_NULL l) = EX_NULL l"
| "erase_expr (EX_IDENT l n) = EX_IDENT l n"
| "erase_expr (EX_THIS l) = EX_THIS l"
| "erase_expr (EX_BIN l t a b) = EX_BIN l t (erase_expr a) (erase_expr b)"
| "erase_expr (EX_UN l t a) = EX_UN l t (erase_expr a)"
| "erase_expr (EX_ASSIGN l t a b) = EX_ASSIGN l t (erase_expr a) (erase_expr b)"
| "erase_expr (EX_CALL l c m su tys as ns) = EX_CALL l (map_option erase_expr c) m su (map (\<lambda>t. mk_type TY_VOID) tys) (map erase_expr as) ns"
| "erase_expr (EX_INDEX l a b) = EX_INDEX l (erase_expr a) (erase_expr b)"
| "erase_expr (EX_MEMBER l a n) = EX_MEMBER l (erase_expr a) n"
| "erase_expr (EX_NEW l rg mt c tys as ns) = EX_NEW l rg (map_option (\<lambda>t. mk_type TY_VOID) mt) c (map (\<lambda>t. mk_type TY_VOID) tys) (map erase_expr as) ns"
| "erase_expr (EX_ARROW l f) = EX_ARROW l (erase_fn f)"
| "erase_expr (EX_ARRAYLIT l as) = EX_ARRAYLIT l (map erase_expr as)"
| "erase_expr (EX_TSTR l as) = EX_TSTR l (map erase_expr as)"
| "erase_expr (EX_AS l a t) = EX_AS l (erase_expr a) (mk_type TY_VOID)"
| "erase_stmt (ST_LET l n t e) = ST_LET l n (map_option (\<lambda>t. mk_type TY_VOID) t) (erase_expr e)"
| "erase_stmt (ST_EXPR l e) = ST_EXPR l (erase_expr e)"
| "erase_stmt (ST_IF l e b c) = ST_IF l (erase_expr e) (map erase_stmt b) (map erase_stmt c)"
| "erase_stmt (ST_WHILE l e b) = ST_WHILE l (erase_expr e) (map erase_stmt b)"
| "erase_stmt (ST_FOR_RANGE l n lo hi b) = ST_FOR_RANGE l n (erase_expr lo) (erase_expr hi) (map erase_stmt b)"
| "erase_stmt (ST_FOR_EACH l n e b) = ST_FOR_EACH l n (erase_expr e) (map erase_stmt b)"
| "erase_stmt (ST_RETURN l e) = ST_RETURN l (map_option erase_expr e)"
| "erase_stmt (ST_BREAK l) = ST_BREAK l"
| "erase_stmt (ST_CONTINUE l) = ST_CONTINUE l"
| "erase_stmt (ST_BLOCK l b) = ST_BLOCK l (map erase_stmt b)"
| "erase_stmt (ST_SWITCH l e arms) = ST_SWITCH l (erase_expr e) (map erase_arm arms)"
| "erase_stmt (ST_ARENA l n b) = ST_ARENA l n (map erase_stmt b)"
| "erase_arm (SwitchArm l d vs b) = SwitchArm l d (map erase_expr vs) (map erase_stmt b)"
| "erase_param (Param n t l d) = Param n (map_option (\<lambda>t. mk_type TY_VOID) t) l (map_option erase_expr d)"
| "erase_fn (FnDecl h ps r b) = FnDecl (h\<lparr>fd_owner := None, fd_sowner := None, fd_typarams := [], arrow_id := (if fd_name h = None then 0 else arrow_id h)\<rparr>) (map erase_param ps) (map_option (\<lambda>t. mk_type TY_VOID) r) (map erase_stmt b)"


lemma upt_join: "k \<le> k1 \<Longrightarrow> k1 \<le> k2 \<Longrightarrow> [Suc k..<Suc k1] @ [Suc k1..<Suc k2] = [Suc k..<Suc k2]"
  using upt_add_eq_append[of "Suc k" "Suc k1" "k2 - k1"] by simp

text \<open>The types of a copy are those of the template, substituted; its arrow functions have the next numbers of the
  counter, in order; otherwise it is the template.\<close>

definition good :: "('a \<Rightarrow> ty list) \<Rightarrow> ('a \<Rightarrow> nat list) \<Rightarrow> ('a \<Rightarrow> 'a) \<Rightarrow> subst \<Rightarrow> 'a \<Rightarrow> 'a copy \<Rightarrow> bool" where
  "good ty ar er s x c \<longleftrightarrow>
     (\<forall>k x' k'. c k = (x', k') \<longrightarrow>
        ty x' = map (subst_type s) (ty x) \<and> ar x' = [Suc k..<Suc k'] \<and> k \<le> k' \<and> er x' = er x)"

lemma good_copies:
  assumes "\<And>x. x \<in> set xs \<Longrightarrow> good ty ar er s x (f x)"
  shows "copies (map f xs) k = (xs', k') \<Longrightarrow>
     concat (map ty xs') = map (subst_type s) (concat (map ty xs)) \<and> concat (map ar xs') = [Suc k..<Suc k'] \<and> k \<le> k' \<and> map er xs' = map er xs"
  using assms
proof (induction xs arbitrary: k xs')
  case (Cons x xs)
  obtain y k1 where y: "f x k = (y, k1)" by fastforce
  obtain ys where ys: "copies (map f xs) k1 = (ys, k')" "xs' = y # ys" using Cons.prems(1) y by (auto split: prod.splits)
  have "ty y = map (subst_type s) (ty x) \<and> ar y = [Suc k..<Suc k1] \<and> k \<le> k1 \<and> er y = er x"
    using Cons.prems(2)[of x] y unfolding good_def by auto
  moreover have "concat (map ty ys) = map (subst_type s) (concat (map ty xs)) \<and> concat (map ar ys) = [Suc k1..<Suc k'] \<and> k1 \<le> k' \<and> map er ys = map er xs"
    using Cons.IH[OF ys(1)] Cons.prems(2) by auto
  ultimately show ?case using ys(2) upt_join[of k k1 k'] by (simp del: upt_Suc)
qed simp

lemma good_opt:
  assumes "\<And>x. x \<in> set_option o' \<Longrightarrow> good ty ar er s x (f x)" "copy_opt (map_option f o') k = (p, k')"
  shows "opt_list (map_option ty p) = map (subst_type s) (opt_list (map_option ty o')) \<and> opt_list (map_option ar p) = [Suc k..<Suc k'] \<and>
     k \<le> k' \<and> map_option er p = map_option er o'"
  using assms by (cases o') (auto simp: copy_opt_def opt_list_def good_def split: prod.splits)

lemma goodD: "c k = (x', k') \<Longrightarrow> good ty ar er s x c \<Longrightarrow>
    ty x' = map (subst_type s) (ty x) \<and> ar x' = [Suc k..<Suc k'] \<and> k \<le> k' \<and> er x' = er x"
  unfolding good_def by blast

lemma goodI: "(\<And>k x' k'. c k = (x', k') \<Longrightarrow>
    ty x' = map (subst_type s) (ty x) \<and> ar x' = [Suc k..<Suc k'] \<and> k \<le> k' \<and> er x' = er x) \<Longrightarrow> good ty ar er s x c"
  unfolding good_def by blast

lemma good_map: "copies (map f xs) k = (xs', k') \<Longrightarrow> (\<And>x. x \<in> set xs \<Longrightarrow> good ty ar er s x (f x)) \<Longrightarrow>
     concat (map ty xs') = map (subst_type s) (concat (map ty xs)) \<and> concat (map ar xs') = [Suc k..<Suc k'] \<and> k \<le> k' \<and> map er xs' = map er xs"
  using good_copies[of xs ty ar er s f k xs' k'] by blast

lemma good_map_option: "copy_opt (map_option f o') k = (p, k') \<Longrightarrow> (\<And>x. x \<in> set_option o' \<Longrightarrow> good ty ar er s x (f x)) \<Longrightarrow>
   opt_list (map_option ty p) = map (subst_type s) (opt_list (map_option ty o')) \<and> opt_list (map_option ar p) = [Suc k..<Suc k'] \<and>
     k \<le> k' \<and> map_option er p = map_option er o'"
  using good_opt[of o' ty ar er s f k p k'] by blast

lemma opt_list_types: "opt_list (map_option (\<lambda>t. [t]) (map_option f x)) = map f (opt_list (map_option (\<lambda>t. [t]) x))"
  by (cases x) (simp_all add: opt_list_def)

lemma erase_types: "map_option (\<lambda>t. mk_type TY_VOID) (map_option f x) = map_option (\<lambda>t. mk_type TY_VOID) x"
  by (cases x) simp_all

lemmas copy_simps = upt_join opt_list_types erase_types

lemma clone_good:
  "good expr_types expr_arrows erase_expr s e (clone_expr s e)"
  "good stmt_types stmt_arrows erase_stmt s st (clone_stmt s st)"
  "good arm_types arm_arrows erase_arm s ar (clone_arm s ar)"
  "good param_types param_arrows erase_param s pm (clone_param s pm)"
  "\<forall>ow so. good fn_types fn_arrows erase_fn s f (clone_fn_into s f ow so)"
proof (induction e and st and ar and pm and f rule: expr.induct stmt.induct switch_arm.induct param.induct fn_decl.induct)
  case (EX_BIN l t a b)
  show ?case by (rule goodI) (auto split: prod.splits simp: copy_simps simp del: upt_Suc dest!: goodD[OF _ EX_BIN(1)] goodD[OF _ EX_BIN(2)])
next
  case (EX_UN l t a)
  show ?case by (rule goodI) (auto split: prod.splits simp: copy_simps simp del: upt_Suc dest!: goodD[OF _ EX_UN])
next
  case (EX_ASSIGN l t a b)
  show ?case by (rule goodI) (auto split: prod.splits simp: copy_simps simp del: upt_Suc dest!: goodD[OF _ EX_ASSIGN(1)] goodD[OF _ EX_ASSIGN(2)])
next
  case (EX_CALL l c m su tys as ns)
  show ?case by (rule goodI) (auto split: prod.splits simp: copy_simps simp del: upt_Suc dest!: good_map_option[OF _ EX_CALL(1)] good_map[OF _ EX_CALL(2)])
next
  case (EX_INDEX l a b)
  show ?case by (rule goodI) (auto split: prod.splits simp: copy_simps simp del: upt_Suc dest!: goodD[OF _ EX_INDEX(1)] goodD[OF _ EX_INDEX(2)])
next
  case (EX_MEMBER l a n)
  show ?case by (rule goodI) (auto split: prod.splits simp: copy_simps simp del: upt_Suc dest!: goodD[OF _ EX_MEMBER])
next
  case (EX_NEW l rg mt c tys as ns)
  show ?case by (rule goodI) (auto split: prod.splits simp: copy_simps simp del: upt_Suc dest!: good_map[OF _ EX_NEW])
next
  case (EX_ARROW l f)
  show ?case by (rule goodI) (auto split: prod.splits simp: copy_simps simp del: upt_Suc dest!: goodD[OF _ EX_ARROW[THEN spec, THEN spec]])
next
  case (EX_ARRAYLIT l as)
  show ?case by (rule goodI) (auto split: prod.splits simp: copy_simps simp del: upt_Suc dest!: good_map[OF _ EX_ARRAYLIT])
next
  case (EX_TSTR l as)
  show ?case by (rule goodI) (auto split: prod.splits simp: copy_simps simp del: upt_Suc dest!: good_map[OF _ EX_TSTR])
next
  case (EX_AS l a t)
  show ?case by (rule goodI) (auto split: prod.splits simp: copy_simps simp del: upt_Suc dest!: goodD[OF _ EX_AS])
next
  case (ST_LET l n t e)
  show ?case by (rule goodI) (auto split: prod.splits simp: copy_simps simp del: upt_Suc dest!: goodD[OF _ ST_LET])
next
  case (ST_EXPR l e)
  show ?case by (rule goodI) (auto split: prod.splits simp: copy_simps simp del: upt_Suc dest!: goodD[OF _ ST_EXPR])
next
  case (ST_IF l e b c)
  show ?case by (rule goodI) (auto split: prod.splits simp: copy_simps simp del: upt_Suc dest!: goodD[OF _ ST_IF(1)] good_map[where xs = b, OF _ ST_IF(2)] good_map[where xs = c, OF _ ST_IF(3)])
next
  case (ST_WHILE l e b)
  show ?case by (rule goodI) (auto split: prod.splits simp: copy_simps simp del: upt_Suc dest!: goodD[OF _ ST_WHILE(1)] good_map[OF _ ST_WHILE(2)])
next
  case (ST_FOR_RANGE l n lo hi b)
  show ?case by (rule goodI) (auto split: prod.splits simp: copy_simps simp del: upt_Suc dest!: goodD[OF _ ST_FOR_RANGE(1)] goodD[OF _ ST_FOR_RANGE(2)] good_map[OF _ ST_FOR_RANGE(3)])
next
  case (ST_FOR_EACH l n e b)
  show ?case by (rule goodI) (auto split: prod.splits simp: copy_simps simp del: upt_Suc dest!: goodD[OF _ ST_FOR_EACH(1)] good_map[OF _ ST_FOR_EACH(2)])
next
  case (ST_RETURN l e)
  show ?case by (rule goodI) (auto split: prod.splits simp: copy_simps simp del: upt_Suc dest!: good_map_option[OF _ ST_RETURN])
next
  case (ST_BLOCK l b)
  show ?case by (rule goodI) (auto split: prod.splits simp: copy_simps simp del: upt_Suc dest!: good_map[OF _ ST_BLOCK])
next
  case (ST_SWITCH l e arms)
  show ?case by (rule goodI) (auto split: prod.splits simp: copy_simps simp del: upt_Suc dest!: goodD[OF _ ST_SWITCH(1)] good_map[OF _ ST_SWITCH(2)])
next
  case (ST_ARENA l n b)
  show ?case by (rule goodI) (auto split: prod.splits simp: copy_simps simp del: upt_Suc dest!: good_map[OF _ ST_ARENA])
next
  case (SwitchArm l d vs b)
  show ?case by (rule goodI) (auto split: prod.splits simp: copy_simps simp del: upt_Suc dest!: good_map[OF _ SwitchArm(1)] good_map[OF _ SwitchArm(2)])
next
  case (Param n t l d)
  show ?case by (rule goodI) (auto split: prod.splits simp: copy_simps simp del: upt_Suc dest!: good_map_option[OF _ Param])
next
  case (FnDecl h ps r b)
  show ?case
    by (intro allI, rule goodI)
      (auto split: prod.splits if_splits simp: copy_simps Let_def upt_conv_Cons simp del: upt_Suc
        dest!: good_map[OF _ FnDecl(1)] good_map[OF _ FnDecl(2)])
qed (rule goodI; simp)+

section \<open>Instances are monomorphic\<close>

lemma typarams_empty: "type_has_typaram t \<longleftrightarrow> typarams t \<noteq> {}"
proof (induction t rule: measure_induct_rule[where f = size])
  case (less t)
  have "(\<exists>p\<in>set (ty_params t). type_has_typaram p) \<longleftrightarrow> (\<exists>p\<in>set (ty_params t). typarams p \<noteq> {})"
    using less.IH[OF size_ty_params] by blast
  moreover have "type_has_typaram e \<longleftrightarrow> typarams e \<noteq> {}" if "ty_elem t = Some e \<or> ty_ret t = Some e" for e
    using less.IH that size_ty_elem size_ty_ret by blast
  ultimately show ?case
    by (subst type_has_typaram.simps, subst typarams.simps) (auto split: option.splits)
qed

definition closing :: "subst \<Rightarrow> bool" where
  "closing s \<longleftrightarrow>
     length (su_args s) = length (su_names s) \<and> (\<forall>a\<in>set (su_args s). \<exists>t. a = Some t \<and> typarams t = {})"

lemma typarams_weak: "typarams (Type TY_CLASS w n f e r ps x l sd cd ed) = {}"
  by (subst typarams.simps) simp

lemma subst_closes:
  assumes s: "closing s"
  shows "typarams t \<subseteq> set (su_names s) \<Longrightarrow> typarams (subst_type s t) = {}"
proof (induction t rule: measure_induct_rule[where f = size])
  case (less t)
  consider (par) "ty_kind t = TY_TYPARAM" | (el) "ty_kind t = TY_ARRAY \<or> ty_kind t = TY_MAP" | (fn) "ty_kind t = TY_FN"
    | (named) "ty_kind t = TY_NAMED" "ty_params t \<noteq> []"
    | (oth) "ty_kind t \<notin> {TY_TYPARAM, TY_ARRAY, TY_MAP, TY_FN}" "ty_kind t = TY_NAMED \<longrightarrow> ty_params t = []" by blast
  then show ?case
  proof cases
    case par
    then have "the (ty_name t) \<in> set (su_names s)" using less.prems by (simp add: typarams.simps[of t])
    then obtain i where i: "typaram_index (su_names s) (the (ty_name t)) = Some i"
      using typaram_index_None[of "su_names s"] by fastforce
    then have "i < length (su_args s)" using typaram_index_Some[OF i] s by (simp add: closing_def)
    then obtain a where "su_args s ! i = Some a" "typarams a = {}" using s unfolding closing_def by (metis nth_mem)
    then show ?thesis using par i by (simp add: subst_type.simps[of s t] subst_param_def typarams_weak)
  next
    case el
    have "typarams (subst_type s e) = {}" if "ty_elem t = Some e" for e
      using less.IH[OF size_ty_elem[OF that]] less.prems typarams_parts(1)[OF el that] by simp
    then show ?thesis using el by (subst subst_type.simps, subst typarams.simps) (auto split: option.splits)
  next
    case fn
    have "typarams (subst_type s e) = {}" if "ty_ret t = Some e" for e
      using less.IH[OF size_ty_ret[OF that]] less.prems typarams_parts(2)[OF fn that] by blast
    moreover have "typarams (subst_type s p) = {}" if "p \<in> set (ty_params t)" for p
      using less.IH[OF size_ty_params[OF that]] less.prems typarams_parts(3)[OF _ that] fn by blast
    ultimately show ?thesis using fn by (subst subst_type.simps, subst typarams.simps) (auto split: option.splits)
  next
    case named
    have "typarams (subst_type s p) = {}" if "p \<in> set (ty_params t)" for p
      using less.IH[OF size_ty_params[OF that]] less.prems typarams_parts(3)[OF _ that] named by blast
    then show ?thesis using named by (subst subst_type.simps, subst typarams.simps) auto
  next
    case oth
    then have "subst_type s t = t" by (subst subst_type.simps) auto
    moreover have "typarams t = {}" using oth by (subst typarams.simps) auto
    ultimately show ?thesis by simp
  qed
qed

text \<open>C36: The copy of a template that an instance is made from is the template with the type arguments put in: once every parameter is bound to a
  closed type, no type written anywhere in the copy mentions a type parameter; its arrow functions get the next numbers of
  the module's counter, each its own; and apart from types, numbers and owner it is the template.\<close>

theorem clone_instantiates:
  assumes "closing s" "\<forall>t\<in>set (fn_types f). typarams t \<subseteq> set (su_names s)" "clone_fn_into s f ow so k = (f', k')"
  shows "(\<forall>t\<in>set (fn_types f'). \<not> type_has_typaram t) \<and> fn_types f' = map (subst_type s) (fn_types f) \<and>
    fn_arrows f' = [Suc k..<Suc k'] \<and> erase_fn f' = erase_fn f"
proof -
  have g: "fn_types f' = map (subst_type s) (fn_types f) \<and> fn_arrows f' = [Suc k..<Suc k'] \<and> k \<le> k' \<and> erase_fn f' = erase_fn f"
    using goodD[OF assms(3) clone_good(5)[THEN spec, THEN spec]] .
  moreover have "\<forall>t\<in>set (fn_types f'). \<not> type_has_typaram t"
    using g subst_closes[OF assms(1)] assms(2) by (auto simp: typarams_empty)
  ultimately show ?thesis by blast
qed

text \<open>\<open>fn f<T>(x: T) { return (y: T) => ...; }\<close> at \<open>int\<close>.\<close>

theorem clone_instantiates_witness:
  "\<exists>f f'. clone_fn_into (sub [''T''] [Some (simple_ty TY_INT)]) f None None 4 = (f', 5) \<and>
     fn_types f = [param_ty ''T'', param_ty ''T''] \<and> fn_types f' = [simple_ty TY_INT, simple_ty TY_INT] \<and> fn_arrows f' = [5]"
proof -
  define h where "h = \<lparr>fd_name = Some ''f'', fd_loc = no_loc, is_virtual = False, is_override = False, is_extern = False, is_builder = False,
    is_static = False, fd_owner = None, fd_sowner = None, vslot = -1, arrow_id = 0, fd_typarams = [''T'']\<rparr>"
  define g where "g = FnDecl (h\<lparr>fd_name := None\<rparr>) [Param ''y'' (Some (param_ty ''T'')) no_loc None] None []"
  define f where "f = FnDecl h [Param ''x'' (Some (param_ty ''T'')) no_loc None] None [ST_RETURN no_loc (Some (EX_ARROW no_loc g))]"
  define s where "s = sub [''T''] [Some (simple_ty TY_INT)]"
  obtain f' k' where c: "clone_fn_into s f None None 4 = (f', k')" by fastforce
  have k: "k' = 5" using c by (auto simp: f_def g_def h_def copy_opt_def Let_def split: prod.splits)
  have ty: "fn_types f = [param_ty ''T'', param_ty ''T'']" by (simp add: f_def g_def opt_list_def)
  have cl: "closing s" by (simp add: closing_def s_def typarams.simps[of "simple_ty TY_INT"])
  have "\<forall>t\<in>set (fn_types f). typarams t \<subseteq> set (su_names s)" by (simp add: ty s_def typarams.simps[of "param_ty ''T''"])
  from clone_instantiates[OF cl this c] have "fn_types f' = map (subst_type s) (fn_types f)" "fn_arrows f' = [Suc 4..<Suc k']" by blast+
  moreover have "subst_type s (param_ty ''T'') = simple_ty TY_INT" by (simp add: subst_type.simps s_def subst_param_def)
  ultimately have "fn_types f' = [simple_ty TY_INT, simple_ty TY_INT]" "fn_arrows f' = [5]" using ty k by simp_all
  then show ?thesis using c k ty unfolding s_def by blast
qed

end
