(* ===== verification/Vt_Load.thy ===== *)
theory Vt_Load
  imports Vt_Parse "HOL-Library.List_Lexorder" "HOL-Library.Char_ord" "HOL-Library.Multiset"
begin

text \<open>
  The module loader of the driver (\<open>src/main.c\<close>): search roots, the names of modules, the resolution of imports
  and the recursive loading of the files of a program with the parser of \<open>Vt_Parse\<close>. The file system and
  the environment are arguments: what \<open>stat\<close>, \<open>realpath\<close>, \<open>read_file\<close>, \<open>readdir\<close>, \<open>getenv\<close> and \<open>readlink\<close> answer. Strings
  live in the compiler's arena, whose exhaustion is not modelled here. A module is its
  canonical path: \<open>load_module\<close> keeps one per path.
\<close>

section \<open>Paths\<close>

abbreviation SLASH :: char where
  "SLASH \<equiv> CHR 0x2F"

abbreviation DOT :: char where
  "DOT \<equiv> CHR 0x2E"

text \<open>The part of a string before the last occurrence of a character, and the part after it; \<open>strrchr\<close> finds it.\<close>

definition before_last :: "char \<Rightarrow> string \<Rightarrow> string" where
  "before_last c s = rev (tl (dropWhile (\<lambda>x. x \<noteq> c) (rev s)))"

definition after_last :: "char \<Rightarrow> string \<Rightarrow> string" where
  "after_last c s = rev (takeWhile (\<lambda>x. x \<noteq> c) (rev s))"

definition trim_slashes :: "string \<Rightarrow> string" where
  "trim_slashes s = rev (dropWhile (\<lambda>x. x = SLASH) (rev s))"

text \<open>\<open>dirname\<close> and \<open>basename\<close> of \<open>libgen.h\<close>.\<close>

definition dirname :: "string \<Rightarrow> string" where
  "dirname s =
     (let t = trim_slashes s
      in if t = [] then (if s = [] then ''.'' else ''/'')
         else if SLASH \<notin> set t then ''.''
         else (let d = trim_slashes (before_last SLASH t) in if d = [] then ''/'' else d))"

definition basename :: "string \<Rightarrow> string" where
  "basename s =
     (let t = trim_slashes s
      in if t = [] then (if s = [] then ''.'' else ''/'')
         else after_last SLASH t)"

definition dir_of :: "string \<Rightarrow> string" where
  "dir_of path = dirname path"

definition strip_ext :: "string \<Rightarrow> string" where
  "strip_ext s = (if DOT \<in> set s then before_last DOT s else s)"

definition stem_of :: "string \<Rightarrow> string" where
  "stem_of path = strip_ext (basename path)"

definition alnum :: "char \<Rightarrow> bool" where
  "alnum c \<longleftrightarrow> (97 \<le> (of_char c :: nat) \<and> (of_char c :: nat) \<le> 122) \<or> (65 \<le> (of_char c :: nat) \<and> (of_char c :: nat) \<le> 90) \<or>
     (48 \<le> (of_char c :: nat) \<and> (of_char c :: nat) \<le> 57)"

definition sanitize :: "string \<Rightarrow> string" where
  "sanitize s =
     (let out = map (\<lambda>c. if alnum c then c else CHR ''_'') s
      in case out of
           c # _ \<Rightarrow> if 48 \<le> (of_char c :: nat) \<and> (of_char c :: nat) \<le> 57 then CHR ''m'' # out else out
         | [] \<Rightarrow> out)"

text \<open>The name of the last directory of a path, given the part before the last slash.\<close>

definition root_module_name :: "string \<Rightarrow> string \<Rightarrow> string" where
  "root_module_name root canon =
     (let rel = dropWhile (\<lambda>c. c = SLASH) (drop (length root) canon);
          p = strip_ext rel;
          p = (if SLASH \<in> set p
               then (let dirs = before_last SLASH p; leaf = after_last SLASH p
                     in if leaf = after_last SLASH dirs then dirs else p)
               else p)
      in sanitize p)"

section \<open>The file system and the search roots\<close>

record fs =
  fs_exists :: "string \<Rightarrow> bool"
  fs_isdir :: "string \<Rightarrow> bool"
  fs_real :: "string \<Rightarrow> string option"
  fs_read :: "string \<Rightarrow> string option"
  fs_isreg :: "string \<Rightarrow> bool"
  fs_list :: "string \<Rightarrow> string list option"

record env =
  VYTO_HOME :: "string option"
  VYTO_PATH :: "string option"
  exe_link :: "string option"

definition file_exists :: "fs \<Rightarrow> string \<Rightarrow> bool" where
  "file_exists F p = fs_exists F p"

definition dir_exists :: "fs \<Rightarrow> string \<Rightarrow> bool" where
  "dir_exists F p \<longleftrightarrow> fs_exists F p \<and> fs_isdir F p"

definition usable_dir :: "fs \<Rightarrow> string \<Rightarrow> string option" where
  "usable_dir F p = (if file_exists F p then fs_real F p else None)"

definition or_else :: "'a option \<Rightarrow> 'a option \<Rightarrow> 'a option" where
  "or_else a b = (case a of Some x \<Rightarrow> Some x | None \<Rightarrow> b)"

definition find_lib_dir :: "fs \<Rightarrow> env \<Rightarrow> string option" where
  "find_lib_dir F E =
     or_else (case VYTO_HOME E of Some h \<Rightarrow> usable_dir F (h @ ''/lib'') | None \<Rightarrow> None)
     (case exe_link E of
        Some x \<Rightarrow> or_else (usable_dir F (dir_of x @ ''/lib'')) (usable_dir F (dir_of x @ ''/../lib''))
      | None \<Rightarrow> None)"

definition MAX_ROOTS :: nat where
  "MAX_ROOTS = 64"

record root =
  rt_path :: string
  rt_why :: string

text \<open>The list of roots and whether the directory was registered.\<close>

definition add_root :: "fs \<Rightarrow> string option \<Rightarrow> string \<Rightarrow> root list \<Rightarrow> bool \<times> root list" where
  "add_root F dir why rs =
     (case dir of
        None \<Rightarrow> (False, rs)
      | Some d \<Rightarrow>
          if d = [] \<or> length rs \<ge> MAX_ROOTS then (False, rs)
          else if \<not> dir_exists F d then (False, rs)
          else (case fs_real F d of
                  None \<Rightarrow> (False, rs)
                | Some canon \<Rightarrow>
                    if canon \<in> rt_path ` set rs then (False, rs)
                    else (True, rs @ [\<lparr>rt_path = canon, rt_why = why\<rparr>])))"

definition parent_dir :: "string \<Rightarrow> string" where
  "parent_dir d = (let b = before_last SLASH d in if b = [] then ''/'' else b)"

lemma before_last_shorter: "c \<in> set s \<Longrightarrow> length (before_last c s) < length s"
proof -
  assume "c \<in> set s"
  then have "dropWhile (\<lambda>x. x \<noteq> c) (rev s) \<noteq> []" by auto
  then have "0 < length (dropWhile (\<lambda>x. x \<noteq> c) (rev s))" by blast
  then show ?thesis using length_dropWhile_le[of "\<lambda>x. x \<noteq> c" "rev s"] 
    by (simp add: before_last_def del: length_greater_0_conv)
qed

lemma parent_dir_shorter: "SLASH \<in> set d \<Longrightarrow> d \<noteq> ''/'' \<Longrightarrow> length (parent_dir d) < length d"
proof -
  assume s: "SLASH \<in> set d" "d \<noteq> ''/''"
  then obtain c cs where d: "d = c # cs" by (cases d) auto
  have "cs \<noteq> []" using s d by auto
  then show ?thesis using before_last_shorter[OF s(1)] d by (auto simp: parent_dir_def Let_def)
qed

function modules_roots_from :: "fs \<Rightarrow> string \<Rightarrow> root list \<Rightarrow> root list" where
  "modules_roots_from F d rs =
     (let rs = snd (add_root F (Some (d @ ''/vyto_modules'')) ''vyto_modules'' rs)
      in if d = ''/'' then rs
         else if SLASH \<notin> set d then rs
         else modules_roots_from F (parent_dir d) rs)"
  by pat_completeness auto
termination
  by (relation "measure (\<lambda>(F, d, rs). length d)") (auto simp: parent_dir_shorter)

declare modules_roots_from.simps [simp del]

definition add_vyto_modules_roots :: "fs \<Rightarrow> string \<Rightarrow> root list \<Rightarrow> root list" where
  "add_vyto_modules_roots F start rs =
     (case fs_real F start of None \<Rightarrow> rs | Some d \<Rightarrow> modules_roots_from F d rs)"

text \<open>The non-empty pieces between separators, as \<open>strtok\<close> yields them.\<close>

fun strtok_all :: "char \<Rightarrow> string \<Rightarrow> string \<Rightarrow> string list" where
  "strtok_all c acc [] = (if acc = [] then [] else [rev acc])"
| "strtok_all c acc (x # xs) =
     (if x = c then (if acc = [] then strtok_all c [] xs else rev acc # strtok_all c [] xs)
      else strtok_all c (x # acc) xs)"

definition add_roots :: "fs \<Rightarrow> string \<Rightarrow> string list \<Rightarrow> root list \<Rightarrow> root list" where
  "add_roots F why ds rs = fold (\<lambda>d rs. snd (add_root F (Some d) why rs)) ds rs"

text \<open>The registration of roots in \<open>main\<close>, from the directories given by \<open>--modpath\<close>.\<close>

definition register_roots :: "fs \<Rightarrow> env \<Rightarrow> string list \<Rightarrow> string \<Rightarrow> root list" where
  "register_roots F E modpath input =
     (let rs = add_roots F ''--modpath'' modpath [];
          rs = (if modpath = []
                then (case VYTO_PATH E of Some v \<Rightarrow> add_roots F ''VYTO_PATH'' (strtok_all (CHR 0x3A) [] v) rs | None \<Rightarrow> rs)
                else rs);
          rs = add_vyto_modules_roots F (dir_of input) rs
      in snd (add_root F (find_lib_dir F E) ''the stdlib'' rs))"

section \<open>Loading\<close>

definition probe_import :: "fs \<Rightarrow> string \<Rightarrow> string \<Rightarrow> string option" where
  "probe_import F dir imp =
     (let p = dir @ ''/'' @ imp @ ''.vt''
      in if file_exists F p then Some p
         else (let p = dir @ ''/'' @ imp @ ''/'' @ basename imp @ ''.vt''
               in if file_exists F p then Some p else None))"

fun probe_roots :: "fs \<Rightarrow> root list \<Rightarrow> string \<Rightarrow> string option" where
  "probe_roots F [] imp = None"
| "probe_roots F (r # rs) imp = or_else (probe_import F (rt_path r) imp) (probe_roots F rs imp)"

text \<open>The modules loaded, newest first, and the field \<open>import_module\<close> of each import, by the path of
  the importing module and the number of the declaration.\<close>

record loader =
  g_modules :: "module list"
  import_module :: "string \<times> nat \<Rightarrow> string option"

definition module_named :: "fs \<Rightarrow> root list \<Rightarrow> string \<Rightarrow> string" where
  "module_named F rs path =
     (case find (\<lambda>r. take (length (rt_path r)) path = rt_path r \<and> length (rt_path r) < length path \<and>
                     path ! length (rt_path r) = SLASH) rs of
        Some r \<Rightarrow> root_module_name (rt_path r) path
      | None \<Rightarrow> sanitize (stem_of path))"

definition canonical :: "fs \<Rightarrow> string \<Rightarrow> string" where
  "canonical F path = (case fs_real F path of Some r \<Rightarrow> r | None \<Rightarrow> path)"

abbreviation NL :: string where
  "NL \<equiv> [CHR 0x0A]"

abbreviation em_dash :: string where
  "em_dash \<equiv> [CHR 0xE2, CHR 0x80, CHR 0x94]"

definition not_resolved :: "root list \<Rightarrow> string option \<Rightarrow> string \<Rightarrow> string \<Rightarrow> string" where
  "not_resolved rs lib basedir imp =
     ''cannot resolve import '' @ [CHR 0x22] @ imp @ [CHR 0x22] @ ''; searched:'' @
     NL @ ''  '' @ basedir @ '' (the importing file'' @ [CHR 0x27] @ ''s directory)'' @
     concat (map (\<lambda>r. NL @ ''  '' @ rt_path r @ '' ('' @ rt_why r @ '')'') rs) @
     (if lib = None then NL @ ''  (no stdlib found '' @ em_dash @ '' set VYTO_HOME)'' else [])"

definition name_clash :: "string \<Rightarrow> string \<Rightarrow> string \<Rightarrow> string" where
  "name_clash nm p q =
     ''two modules both compile to the name '' @ [CHR 0x27] @ nm @ [CHR 0x27] @ '':'' @ NL @ ''  '' @ p @ NL @ ''  '' @ q @ NL @
     ''a module name is global (it prefixes every emitted C symbol), so these cannot be built together. '' @
     ''A file under a package root is named by its root-relative path, one outside every root by its bare stem '' @
     em_dash @ '' move one under a root, or rename it.''"

definition find_import :: "fs \<Rightarrow> root list \<Rightarrow> string \<Rightarrow> string \<Rightarrow> string option" where
  "find_import F rs basedir imp = or_else (probe_import F basedir imp) (probe_roots F rs imp)"

text \<open>One declaration in the loop of \<open>resolve_imports\<close>; \<open>load\<close> is the recursive call.\<close>

definition resolve_import ::
  "fs \<Rightarrow> root list \<Rightarrow> string option \<Rightarrow> (string \<Rightarrow> loader \<Rightarrow> (string \<times> loader) cres) \<Rightarrow> string \<Rightarrow> string \<Rightarrow> nat \<times> decl \<Rightarrow> loader \<Rightarrow> loader cres" where
  "resolve_import F rs lib load mpath basedir = (\<lambda>(i, d) st.
     case d of
       D_IMPORT l ns imp \<Rightarrow>
         (case find_import F rs basedir imp of
            None \<Rightarrow> Inl (FatalAt l (not_resolved rs lib basedir imp))
          | Some path \<Rightarrow> bind_res (load path st) (\<lambda>(q, st). Inr (st\<lparr>import_module := (import_module st)((mpath, i) \<mapsto> q)\<rparr>)))
     | _ \<Rightarrow> Inr st)"

definition resolve_imports ::
  "fs \<Rightarrow> root list \<Rightarrow> string option \<Rightarrow> (string \<Rightarrow> loader \<Rightarrow> (string \<times> loader) cres) \<Rightarrow> module \<Rightarrow> string \<Rightarrow> loader \<Rightarrow> loader cres" where
  "resolve_imports F rs lib load m basedir st =
     run_all (resolve_import F rs lib load (m_path m) basedir) (enumerate 0 (m_decls m)) st"

text \<open>\<open>junk\<close> is what the uninitialised fields of the parser hold for each file.\<close>

fun load_module :: "nat \<Rightarrow> fs \<Rightarrow> root list \<Rightarrow> string option \<Rightarrow> (string \<Rightarrow> string list) \<Rightarrow> string \<Rightarrow> loader \<Rightarrow> (string \<times> loader) cres" where
  "load_module 0 F rs lib junk path st = Inl OutOfFuel"
| "load_module (Suc n) F rs lib junk path st =
     (let path = canonical F path
      in if path \<in> m_path ` set (g_modules st) then Inr (path, st)
         else (case fs_read F path of
                 None \<Rightarrow> Inl (Fatal (''cannot open '' @ path))
               | Some src \<Rightarrow>
                   bind_res (parse_module (junk path) path (module_named F rs path) src) (\<lambda>m.
                   case find (\<lambda>x. m_name x = m_name m) (g_modules st) of
                     Some x \<Rightarrow> Inl (Fatal (name_clash (m_name m) (m_path x) (m_path m)))
                   | None \<Rightarrow>
                       bind_res (resolve_imports F rs lib (load_module n F rs lib junk) m (dir_of path)
                                   (st\<lparr>g_modules := m # g_modules st\<rparr>)) (\<lambda>st.
                       Inr (m_path m, st)))))"

declare load_module.simps [simp del]

definition no_modules :: loader where
  "no_modules = \<lparr>g_modules = [], import_module = Map.empty\<rparr>"

text \<open>The front end in \<open>main\<close> up to the checker: the roots are complete before the first file is loaded.\<close>

definition load_program :: "nat \<Rightarrow> fs \<Rightarrow> env \<Rightarrow> (string \<Rightarrow> string list) \<Rightarrow> string list \<Rightarrow> string \<Rightarrow> (string \<times> loader) cres" where
  "load_program n F E junk modpath input =
     load_module n F (register_roots F E modpath input) (find_lib_dir F E) junk input no_modules"

section \<open>The digest of a directory\<close>

text \<open>\<open>strcmp (a, b) > 0\<close>, and the insertion sort that uses it: each name goes behind the last one not greater.\<close>

fun strcmp_gt :: "string \<Rightarrow> string \<Rightarrow> bool" where
  "strcmp_gt [] b = False"
| "strcmp_gt (x # a) [] = True"
| "strcmp_gt (x # a) (y # b) = (if x = y then strcmp_gt a b else (of_char x :: nat) > of_char y)"

definition insert_name :: "string \<Rightarrow> string list \<Rightarrow> string list" where
  "insert_name k xs =
     rev (dropWhile (\<lambda>x. strcmp_gt x k) (rev xs)) @ k # rev (takeWhile (\<lambda>x. strcmp_gt x k) (rev xs))"

definition sort_names :: "string list \<Rightarrow> string list" where
  "sort_names xs = foldl (\<lambda>acc k. insert_name k acc) [] xs"

definition mentions :: "string \<Rightarrow> string \<Rightarrow> bool" where
  "mentions needle s \<longleftrightarrow> (let t = takeWhile (\<lambda>c. c \<noteq> NUL) s in list_ex (\<lambda>i. take (length needle) (drop i t) = needle) [0..<Suc (length t)])"

record macro_uses =
  USES_LIBDIR :: bool
  USES_APPDIR :: bool

definition hash_step :: "u64 \<Rightarrow> u64 \<Rightarrow> u64" where
  "hash_step h x = (h XOR x) * 1099511628211"

definition digest_file :: "string \<Rightarrow> u64 \<times> macro_uses \<Rightarrow> u64 \<times> macro_uses" where
  "digest_file src = (\<lambda>(h, u). (hash_step h (fnv1a src),
     u\<lparr>USES_LIBDIR := USES_LIBDIR u \<or> mentions ''VYTO_LIBDIR'' src, USES_APPDIR := USES_APPDIR u \<or> mentions ''VYTO_APPDIR'' src\<rparr>))"

text \<open>The first argument is the number of levels left before the guard on the depth; the digest and the macros seen.\<close>

fun dir_digest_at :: "nat \<Rightarrow> fs \<Rightarrow> string \<Rightarrow> macro_uses \<Rightarrow> u64 \<times> macro_uses" where
  "dir_digest_at 0 F d u = (0, u)"
| "dir_digest_at (Suc k) F d u =
     (case fs_list F d of
        None \<Rightarrow> (0, u)
      | Some es \<Rightarrow>
          foldl (\<lambda>(h, u) nm.
            let p = d @ ''/'' @ nm
            in if \<not> fs_exists F p then (h, u)
               else let h = hash_step h (fnv1a nm)
                    in if fs_isdir F p then (let (x, u) = dir_digest_at k F p u in (hash_step h x, u))
                       else if \<not> fs_isreg F p then (h, u)
                       else (case fs_read F p of None \<Rightarrow> (h, u) | Some src \<Rightarrow> digest_file src (h, u)))
            (1469598103934665603, u)
            (sort_names (take 1024 (filter (\<lambda>nm. nm = [] \<or> nm ! 0 \<noteq> DOT) es))))"

definition dir_digest :: "fs \<Rightarrow> string \<Rightarrow> u64 \<times> macro_uses" where
  "dir_digest F d = dir_digest_at 9 F d \<lparr>USES_LIBDIR = False, USES_APPDIR = False\<rparr>"

section \<open>Writing generated files\<close>

text \<open>The files are a map from paths to contents, \<open>opens\<close> says which can be opened for writing; the result is the
  return value and \<open>*changed\<close>, which is not set when the file cannot be opened.\<close>

definition write_if_changed ::
  "(string \<Rightarrow> bool) \<Rightarrow> string \<Rightarrow> string \<Rightarrow> (string \<rightharpoonup> string) \<Rightarrow> bool \<times> bool option \<times> (string \<rightharpoonup> string)" where
  "write_if_changed opens path data disk =
     (if disk path = Some data then (True, Some False, disk)
      else if \<not> opens path then (False, None, disk)
      else (True, Some True, disk(path \<mapsto> data)))"

section \<open>What loading establishes\<close>

definition files :: "fs \<Rightarrow> string set" where
  "files F = {q. fs_read F q \<noteq> None \<and> (\<exists>p. q = canonical F p)}"

abbreviation loaded :: "loader \<Rightarrow> string set" where
  "loaded st \<equiv> m_path ` set (g_modules st)"

definition parsed_from :: "fs \<Rightarrow> root list \<Rightarrow> (string \<Rightarrow> string list) \<Rightarrow> module \<Rightarrow> bool" where
  "parsed_from F rs junk m \<longleftrightarrow> m_path m \<in> files F \<and>
     parse_module (junk (m_path m)) (m_path m) (module_named F rs (m_path m)) (the (fs_read F (m_path m))) = Inr m"

definition import_at :: "module \<Rightarrow> nat \<Rightarrow> string \<Rightarrow> bool" where
  "import_at m i imp \<longleftrightarrow> i < length (m_decls m) \<and> (\<exists>l ns. m_decls m ! i = D_IMPORT l ns imp)"

definition import_linked :: "fs \<Rightarrow> root list \<Rightarrow> loader \<Rightarrow> module \<Rightarrow> nat \<Rightarrow> string \<Rightarrow> bool" where
  "import_linked F rs st m i imp \<longleftrightarrow>
     (\<exists>p. find_import F rs (dir_of (m_path m)) imp = Some p \<and> import_module st (m_path m, i) = Some (canonical F p) \<and>
          canonical F p \<in> loaded st)"

definition complete :: "fs \<Rightarrow> root list \<Rightarrow> loader \<Rightarrow> module \<Rightarrow> bool" where
  "complete F rs st m \<longleftrightarrow> (\<forall>i imp. import_at m i imp \<longrightarrow> import_linked F rs st m i imp)"

definition link_of_import :: "fs \<Rightarrow> root list \<Rightarrow> loader \<Rightarrow> string \<Rightarrow> nat \<Rightarrow> string \<Rightarrow> bool" where
  "link_of_import F rs st p i q \<longleftrightarrow>
     (\<exists>m \<in> set (g_modules st). \<exists>imp f. m_path m = p \<and> import_at m i imp \<and> find_import F rs (dir_of p) imp = Some f \<and>
        q = canonical F f)"

definition loader_inv :: "fs \<Rightarrow> root list \<Rightarrow> (string \<Rightarrow> string list) \<Rightarrow> loader \<Rightarrow> bool" where
  "loader_inv F rs junk st \<longleftrightarrow>
     distinct (map m_path (g_modules st)) \<and> distinct (map m_name (g_modules st)) \<and>
     list_all (parsed_from F rs junk) (g_modules st) \<and>
     (\<forall>p i q. import_module st (p, i) = Some q \<longrightarrow> q \<in> loaded st \<and> link_of_import F rs st p i q)"

definition imports_rel :: "loader \<Rightarrow> (string \<times> string) set" where
  "imports_rel st = {(p, q). \<exists>i. import_module st (p, i) = Some q}"

definition ld_grows :: "fs \<Rightarrow> root list \<Rightarrow> string \<Rightarrow> loader \<Rightarrow> loader \<Rightarrow> bool" where
  "ld_grows F rs q st st' \<longleftrightarrow>
     (\<exists>new. g_modules st' = new @ g_modules st \<and> import_module st \<subseteq>\<^sub>m import_module st' \<and>
        (\<forall>m \<in> set new. complete F rs st' m \<and> (q, m_path m) \<in> (imports_rel st')\<^sup>*))"

lemma parse_module_fields:
  "parse_module junk path nm src = Inr m \<Longrightarrow> m_path m = path \<and> m_name m = nm"
  by (auto simp: parse_module_def Let_def)

lemma imports_rel_mono: "import_module st \<subseteq>\<^sub>m import_module st' \<Longrightarrow> (imports_rel st)\<^sup>* \<subseteq> (imports_rel st')\<^sup>*"
  by (rule rtrancl_mono) (auto simp: imports_rel_def map_le_def dom_def, metis option.distinct(1))

lemma import_linked_mono:
  "import_linked F rs st m i imp \<Longrightarrow> import_module st \<subseteq>\<^sub>m import_module st' \<Longrightarrow> loaded st \<subseteq> loaded st' \<Longrightarrow>
   import_linked F rs st' m i imp"
  unfolding import_linked_def map_le_def by (elim exE conjE, rename_tac p, rule_tac x = p in exI) (auto simp: dom_def)

lemma complete_mono:
  "complete F rs st m \<Longrightarrow> import_module st \<subseteq>\<^sub>m import_module st' \<Longrightarrow> loaded st \<subseteq> loaded st' \<Longrightarrow> complete F rs st' m"
  unfolding complete_def by (intro allI impI) (rule import_linked_mono[of F rs st], blast+)

lemma ld_grows_refl: "ld_grows F rs q st st"
  by (simp add: ld_grows_def)

lemma ld_grows_loaded: "ld_grows F rs q st st' \<Longrightarrow> loaded st \<subseteq> loaded st'"
  by (auto simp: ld_grows_def)

lemma ld_grows_links: "ld_grows F rs q st st' \<Longrightarrow> import_module st \<subseteq>\<^sub>m import_module st'"
  by (auto simp: ld_grows_def)

lemma ld_grows_trans:
  assumes "ld_grows F rs q st st1" "ld_grows F rs q st1 st2"
  shows "ld_grows F rs q st st2"
proof -
  obtain n1 where 1: "g_modules st1 = n1 @ g_modules st" "import_module st \<subseteq>\<^sub>m import_module st1"
    "\<forall>m \<in> set n1. complete F rs st1 m \<and> (q, m_path m) \<in> (imports_rel st1)\<^sup>*"
    using assms(1) unfolding ld_grows_def by blast
  obtain n2 where 2: "g_modules st2 = n2 @ g_modules st1" "import_module st1 \<subseteq>\<^sub>m import_module st2"
    "\<forall>m \<in> set n2. complete F rs st2 m \<and> (q, m_path m) \<in> (imports_rel st2)\<^sup>*"
    using assms(2) unfolding ld_grows_def by blast
  have "complete F rs st2 m \<and> (q, m_path m) \<in> (imports_rel st2)\<^sup>*" if "m \<in> set n1" for m
    using 1(3) that complete_mono[of F rs st1 m st2] imports_rel_mono[OF 2(2)] 2 by auto
  then show ?thesis using 1 2 map_le_trans unfolding ld_grows_def
    by (intro exI[of _ "n2 @ n1"]) auto
qed

lemma ld_grows_from:
  assumes "ld_grows F rs q st st'" "(r, q) \<in> (imports_rel st')\<^sup>*"
  shows "ld_grows F rs r st st'"
proof -
  obtain new where n: "g_modules st' = new @ g_modules st" "import_module st \<subseteq>\<^sub>m import_module st'"
    "\<forall>m \<in> set new. complete F rs st' m \<and> (q, m_path m) \<in> (imports_rel st')\<^sup>*"
    using assms(1) unfolding ld_grows_def by blast
  then have "\<forall>m \<in> set new. (r, m_path m) \<in> (imports_rel st')\<^sup>*" using rtrancl_trans[OF assms(2)] by blast
  then show ?thesis using n unfolding ld_grows_def by blast
qed

lemma ld_grows_push:
  assumes "ld_grows F rs q st1 st'" "complete F rs st' m" "m_path m = q" "st1 = st\<lparr>g_modules := m # g_modules st\<rparr>"
  shows "ld_grows F rs q st st'"
proof -
  obtain new where n: "g_modules st' = new @ g_modules st1" "import_module st1 \<subseteq>\<^sub>m import_module st'"
    "\<forall>m \<in> set new. complete F rs st' m \<and> (q, m_path m) \<in> (imports_rel st')\<^sup>*"
    using assms(1) unfolding ld_grows_def by blast
  then show ?thesis using assms(2-4) unfolding ld_grows_def by (intro exI[of _ "new @ [m]"]) auto
qed

text \<open>The link set after an import was loaded is one the state may already have, or a new one.\<close>

lemma link_inv:
  assumes inv: "loader_inv F rs junk st" and m: "m \<in> set (g_modules st)" and i: "import_at m i imp"
    and f: "find_import F rs (dir_of (m_path m)) imp = Some f" and q: "canonical F f \<in> loaded st"
    and st': "st' = st\<lparr>import_module := (import_module st)((m_path m, i) \<mapsto> canonical F f)\<rparr>"
  shows "loader_inv F rs junk st'" "import_module st \<subseteq>\<^sub>m import_module st'" "import_linked F rs st' m i imp"
proof -
  have L: "link_of_import F rs st (m_path m) i (canonical F f)" using m i f unfolding link_of_import_def by blast
  then show "loader_inv F rs junk st'"
    using inv q unfolding loader_inv_def st' link_of_import_def by auto
  have "q' = canonical F f" if l: "import_module st (m_path m, i) = Some q'" for q'
  proof -
    obtain m' imp' f' where m': "m' \<in> set (g_modules st)" "m_path m' = m_path m" "import_at m' i imp'"
      "find_import F rs (dir_of (m_path m)) imp' = Some f'" "q' = canonical F f'"
      using inv l unfolding loader_inv_def link_of_import_def by blast
    have "m' = m" using inv m m'(1,2) unfolding loader_inv_def by (meson distinct_map inj_onD)
    then have "imp' = imp" using i m'(3) unfolding import_at_def by auto
    then show ?thesis using f m' by simp
  qed
  then show "import_module st \<subseteq>\<^sub>m import_module st'"
    unfolding st' map_le_def by auto
  show "import_linked F rs st' m i imp" using f q unfolding import_linked_def st' by simp
qed

text \<open>What one call of \<open>load_module\<close> with \<open>n\<close> nested calls left does.\<close>

definition load_spec :: "nat \<Rightarrow> fs \<Rightarrow> root list \<Rightarrow> (string \<Rightarrow> string list) \<Rightarrow> (string \<Rightarrow> loader \<Rightarrow> (string \<times> loader) cres) \<Rightarrow> bool" where
  "load_spec n F rs junk load \<longleftrightarrow>
     (\<forall>path st. loader_inv F rs junk st \<longrightarrow>
        (case load path st of
           Inl e \<Rightarrow> finite (files F) \<longrightarrow> card (files F - loaded st) < n \<longrightarrow> e \<noteq> OutOfFuel
         | Inr (q, st') \<Rightarrow> q = canonical F path \<and> q \<in> loaded st' \<and> loader_inv F rs junk st' \<and> ld_grows F rs q st st'))"

lemma load_specD:
  assumes "load_spec n F rs junk load" "loader_inv F rs junk st"
  shows "load path st = Inl e \<Longrightarrow> finite (files F) \<Longrightarrow> card (files F - loaded st) < n \<Longrightarrow> e \<noteq> OutOfFuel"
    and "load path st = Inr (q, st') \<Longrightarrow>
      q = canonical F path \<and> q \<in> loaded st' \<and> loader_inv F rs junk st' \<and> ld_grows F rs q st st'"
  using assms(1)[unfolded load_spec_def, rule_format, of st path] assms(2) by auto

lemma resolve_import_spec:
  assumes load: "load_spec n F rs junk load" and inv: "loader_inv F rs junk st" and m: "m \<in> set (g_modules st)"
    and d: "m_decls m ! i = d" "i < length (m_decls m)"
  shows "case resolve_import F rs lib load (m_path m) (dir_of (m_path m)) (i, d) st of
      Inl e \<Rightarrow> finite (files F) \<longrightarrow> card (files F - loaded st) < n \<longrightarrow> e \<noteq> OutOfFuel
    | Inr st' \<Rightarrow> loader_inv F rs junk st' \<and> ld_grows F rs (m_path m) st st' \<and>
        (\<forall>imp. import_at m i imp \<longrightarrow> import_linked F rs st' m i imp)"
proof (cases "\<exists>l ns imp. d = D_IMPORT l ns imp")
  case False
  then have r: "resolve_import F rs lib load (m_path m) (dir_of (m_path m)) (i, d) st = Inr st"
    by (cases d) (auto simp: resolve_import_def)
  have "\<not> import_at m i imp" for imp using False d by (simp add: import_at_def)
  then show ?thesis unfolding r using inv ld_grows_refl by simp
next
  case True
  then obtain l ns imp where D: "d = D_IMPORT l ns imp" by blast
  have i: "import_at m i imp" using D d by (simp add: import_at_def)
  show ?thesis
  proof (cases "find_import F rs (dir_of (m_path m)) imp")
    case None
    then show ?thesis by (simp add: resolve_import_def D)
  next
    case f: (Some f)
    show ?thesis
    proof (cases "load f st")
      case (Inl e)
      then show ?thesis using load_specD(1)[OF load inv Inl] by (simp add: resolve_import_def D f)
    next
      case (Inr r)
      then obtain q st1 where ld: "load f st = Inr (q, st1)" by (cases r) auto
      let ?st' = "st1\<lparr>import_module := (import_module st1)((m_path m, i) \<mapsto> canonical F f)\<rparr>"
      have post: "q = canonical F f" "q \<in> loaded st1" "loader_inv F rs junk st1" "ld_grows F rs q st st1"
        using load_specD(2)[OF load inv ld] by blast+
      have m1: "m \<in> set (g_modules st1)" using post(4) m unfolding ld_grows_def by auto
      note lk = link_inv[OF post(3) m1 i f, OF _ refl]
      have q1: "canonical F f \<in> loaded st1" using post by simp
      have "(m_path m, q) \<in> imports_rel ?st'" using post(1) unfolding imports_rel_def by auto
      then have reach: "(m_path m, q) \<in> (imports_rel ?st')\<^sup>*" by blast
      have "ld_grows F rs q st ?st'"
        using lk(2)[OF q1] by (intro ld_grows_trans[OF post(4)]) (simp add: ld_grows_def)
      then have "ld_grows F rs (m_path m) st ?st'" using ld_grows_from reach by blast
      moreover have "import_at m i imp' \<Longrightarrow> imp' = imp" for imp' using i unfolding import_at_def by auto
      ultimately show ?thesis using lk[OF q1] ld f post(1) by (auto simp: resolve_import_def D)
    qed
  qed
qed

lemma resolve_loop_spec:
  assumes load: "load_spec n F rs junk load"
  shows "loader_inv F rs junk st \<Longrightarrow> m \<in> set (g_modules st) \<Longrightarrow>
    (\<forall>(i, d) \<in> set ps. i < length (m_decls m) \<and> m_decls m ! i = d) \<Longrightarrow>
    (case run_all (resolve_import F rs lib load (m_path m) (dir_of (m_path m))) ps st of
      Inl e \<Rightarrow> finite (files F) \<longrightarrow> card (files F - loaded st) < n \<longrightarrow> e \<noteq> OutOfFuel
    | Inr st' \<Rightarrow> loader_inv F rs junk st' \<and> ld_grows F rs (m_path m) st st' \<and>
        (\<forall>(i, d) \<in> set ps. \<forall>imp. import_at m i imp \<longrightarrow> import_linked F rs st' m i imp))"
proof (induction ps arbitrary: st)
  case Nil
  then show ?case by (simp add: ld_grows_refl)
next
  case (Cons p ps)
  obtain i d where p: "p = (i, d)" by (cases p)
  let ?step = "resolve_import F rs lib load (m_path m) (dir_of (m_path m))"
  have one: "case ?step (i, d) st of
      Inl e \<Rightarrow> finite (files F) \<longrightarrow> card (files F - loaded st) < n \<longrightarrow> e \<noteq> OutOfFuel
    | Inr st' \<Rightarrow> loader_inv F rs junk st' \<and> ld_grows F rs (m_path m) st st' \<and>
        (\<forall>imp. import_at m i imp \<longrightarrow> import_linked F rs st' m i imp)"
    by (rule resolve_import_spec[OF load Cons.prems(1,2)]) (use Cons.prems(3) p in auto)
  show ?case
  proof (cases "?step (i, d) st")
    case (Inl e)
    then show ?thesis using one p by simp
  next
    case (Inr st1)
    then have s1: "loader_inv F rs junk st1" "ld_grows F rs (m_path m) st st1"
      "\<And>imp. import_at m i imp \<Longrightarrow> import_linked F rs st1 m i imp" using one by auto
    have m1: "m \<in> set (g_modules st1)" using s1(2) Cons.prems(2) unfolding ld_grows_def by auto
    have fewer: "finite (files F) \<Longrightarrow> card (files F - loaded st1) \<le> card (files F - loaded st)"
      by (rule card_mono) (use ld_grows_loaded[OF s1(2)] in auto)
    have IH: "case run_all ?step ps st1 of
        Inl e \<Rightarrow> finite (files F) \<longrightarrow> card (files F - loaded st1) < n \<longrightarrow> e \<noteq> OutOfFuel
      | Inr st' \<Rightarrow> loader_inv F rs junk st' \<and> ld_grows F rs (m_path m) st1 st' \<and>
        (\<forall>(i, d) \<in> set ps. \<forall>imp. import_at m i imp \<longrightarrow> import_linked F rs st' m i imp)"
      by (rule Cons.IH[OF s1(1) m1]) (use Cons.prems(3) in auto)
    show ?thesis
    proof (cases "run_all ?step ps st1")
      case e: (Inl e)
      then show ?thesis using IH fewer Inr p by (auto dest: le_less_trans)
    next
      case ok: (Inr st2)
      then have g2: "ld_grows F rs (m_path m) st1 st2" using IH by simp
      have "import_at m i imp \<Longrightarrow> import_linked F rs st2 m i imp" for imp
        by (rule import_linked_mono[OF s1(3) ld_grows_links[OF g2] ld_grows_loaded[OF g2]])
      then show ?thesis using IH ok Inr p ld_grows_trans[OF s1(2) g2] by auto
    qed
  qed
qed

lemma enumerate_nth_decls: "(i, d) \<in> set (enumerate 0 xs) \<Longrightarrow> i < length xs \<and> xs ! i = d"
  by (auto simp: in_set_enumerate_eq)

lemma push_inv:
  assumes "loader_inv F rs junk st" "parsed_from F rs junk m" "m_path m \<notin> loaded st" "m_name m \<notin> m_name ` set (g_modules st)"
  shows "loader_inv F rs junk (st\<lparr>g_modules := m # g_modules st\<rparr>)"
  using assms unfolding loader_inv_def link_of_import_def by auto

lemma load_module_spec: "load_spec n F rs junk (load_module n F rs lib junk)"
proof (induction n)
  case 0
  then show ?case by (simp add: load_spec_def load_module.simps)
next
  case (Suc n)
  show ?case unfolding load_spec_def
  proof (intro allI impI)
    fix path st assume inv: "loader_inv F rs junk st"
    let ?p = "canonical F path" and ?load = "load_module n F rs lib junk"
    let ?parse = "\<lambda>src. parse_module (junk ?p) ?p (module_named F rs ?p) src"
    let ?post = "\<lambda>r. case r of
        Inl e \<Rightarrow> finite (files F) \<longrightarrow> card (files F - loaded st) < Suc n \<longrightarrow> e \<noteq> OutOfFuel
      | Inr (q, st') \<Rightarrow> q = ?p \<and> q \<in> loaded st' \<and> loader_inv F rs junk st' \<and> ld_grows F rs q st st'"
    show "?post (load_module (Suc n) F rs lib junk path st)"
    proof (cases "?p \<in> loaded st")
      case True
      then show ?thesis using inv ld_grows_refl by (simp add: load_module.simps Let_def)
    next
      case new: False
      show ?thesis
      proof (cases "fs_read F ?p")
        case None
        then show ?thesis using new by (simp add: load_module.simps Let_def)
      next
        case src: (Some src)
        show ?thesis
        proof (cases "?parse src")
          case (Inl e)
          then show ?thesis using new src parse_module_gives[where junk = "junk ?p" and f = ?p and modname = "module_named F rs ?p" and src = src]
            by (auto simp: load_module.simps Let_def diag_in_def)
        next
          case m: (Inr m)
          note mf = parse_module_fields[OF m]
          show ?thesis
          proof (cases "find (\<lambda>x. m_name x = m_name m) (g_modules st)")
            case (Some x)
            then show ?thesis using new src m by (simp add: load_module.simps Let_def)
          next
            case fresh: None
            let ?st1 = "st\<lparr>g_modules := m # g_modules st\<rparr>"
            let ?run = "resolve_imports F rs lib ?load m (dir_of ?p) ?st1"
            have pf: "?p \<in> files F" "parsed_from F rs junk m" using src m mf unfolding files_def parsed_from_def by auto
            have "m_name m \<notin> m_name ` set (g_modules st)" using fresh by (auto simp: find_None_iff)
            then have inv1: "loader_inv F rs junk ?st1" using push_inv[OF inv pf(2)] mf new by simp
            have loop: "case ?run of
                Inl e \<Rightarrow> finite (files F) \<longrightarrow> card (files F - loaded ?st1) < n \<longrightarrow> e \<noteq> OutOfFuel
              | Inr st' \<Rightarrow> loader_inv F rs junk st' \<and> ld_grows F rs ?p ?st1 st' \<and>
                  (\<forall>(i, d) \<in> set (enumerate 0 (m_decls m)). \<forall>imp. import_at m i imp \<longrightarrow> import_linked F rs st' m i imp)"
              unfolding resolve_imports_def mf[THEN conjunct1, symmetric]
              by (rule resolve_loop_spec[OF Suc.IH inv1]) (auto dest: enumerate_nth_decls)
            have eq: "load_module (Suc n) F rs lib junk path st = bind_res ?run (\<lambda>st. Inr (m_path m, st))"
              using new src m fresh by (simp add: load_module.simps Let_def)
            show ?thesis
            proof (cases ?run)
              case e: (Inl e)
              have "card (files F - loaded ?st1) < n" if "finite (files F)" "card (files F - loaded st) < Suc n"
              proof -
                have "files F - loaded ?st1 = (files F - loaded st) - {?p}" using mf by auto
                then show ?thesis using that pf(1) new card_Diff1_less[of "files F - loaded st" ?p] by simp
              qed
              then show ?thesis unfolding eq using e loop by simp
            next
              case ok: (Inr st')
              then have g: "loader_inv F rs junk st'" "ld_grows F rs ?p ?st1 st'" using loop by simp_all
              have all: "import_linked F rs st' m i imp" if "import_at m i imp" for i imp
              proof -
                have "(i, m_decls m ! i) \<in> set (enumerate 0 (m_decls m))"
                  using that by (simp add: in_set_enumerate_eq import_at_def)
                then show ?thesis using loop ok that by fastforce
              qed
              have "ld_grows F rs ?p st st'"
                using ld_grows_push[OF g(2) _ _ refl] all mf unfolding complete_def by blast
              then show ?thesis unfolding eq using ok g mf ld_grows_loaded[OF g(2)] by auto
            qed
          qed
        qed
      qed
    qed
  qed
qed

section \<open>More calls change nothing\<close>

lemma run_all_more:
  assumes "\<And>x s. op x s \<noteq> Inl OutOfFuel \<Longrightarrow> op' x s = op x s"
  shows "run_all op xs s \<noteq> Inl OutOfFuel \<Longrightarrow> run_all op' xs s = run_all op xs s"
proof (induction xs arbitrary: s)
  case (Cons x xs)
  have "op x s \<noteq> Inl OutOfFuel" using Cons.prems by auto
  then show ?case using assms[of x s] Cons by (cases "op x s") auto
qed simp

lemma resolve_import_more:
  assumes "\<And>p s. load p s \<noteq> Inl OutOfFuel \<Longrightarrow> load' p s = load p s"
  shows "resolve_import F rs lib load mp bd x s \<noteq> Inl OutOfFuel \<Longrightarrow>
    resolve_import F rs lib load' mp bd x s = resolve_import F rs lib load mp bd x s"
proof -
  assume n: "resolve_import F rs lib load mp bd x s \<noteq> Inl OutOfFuel"
  obtain i d where x: "x = (i, d)" by (cases x)
  have "load p s \<noteq> Inl OutOfFuel" if "d = D_IMPORT l ns imp" "find_import F rs bd imp = Some p" for l ns imp p
    using n that by (auto simp: x resolve_import_def)
  then show ?thesis using assms by (auto simp: x resolve_import_def split: decl.split option.split)
qed

lemma load_module_more:
  "load_module n F rs lib junk path st \<noteq> Inl OutOfFuel \<Longrightarrow>
   load_module (Suc n) F rs lib junk path st = load_module n F rs lib junk path st"
proof (induction n arbitrary: path st)
  case 0
  then show ?case by (simp add: load_module.simps)
next
  case (Suc n)
  have same: "resolve_imports F rs lib (load_module (Suc n) F rs lib junk) m bd s = resolve_imports F rs lib (load_module n F rs lib junk) m bd s"
    if "resolve_imports F rs lib (load_module n F rs lib junk) m bd s \<noteq> Inl OutOfFuel" for m bd s
    using that unfolding resolve_imports_def by (intro run_all_more resolve_import_more Suc.IH)
  let ?p = "canonical F path"
  show ?case
  proof (cases "?p \<in> loaded st \<or> fs_read F ?p = None")
    case True
    then show ?thesis by (auto simp: load_module.simps Let_def)
  next
    case False
    then obtain src where r: "?p \<notin> loaded st" "fs_read F ?p = Some src" by auto
    show ?thesis
    proof (cases "parse_module (junk ?p) ?p (module_named F rs ?p) src")
      case (Inr m)
      show ?thesis
      proof (cases "find (\<lambda>x. m_name x = m_name m) (g_modules st)")
        case None
        have "resolve_imports F rs lib (load_module n F rs lib junk) m (dir_of ?p) (st\<lparr>g_modules := m # g_modules st\<rparr>) \<noteq> Inl OutOfFuel"
          using Suc.prems r Inr None by (auto simp: load_module.simps(2)[of n] Let_def)
        then show ?thesis using same r Inr None by (simp add: load_module.simps(2)[of n] load_module.simps(2)[of "Suc n"] Let_def)
      qed (use r Inr in \<open>simp add: load_module.simps Let_def\<close>)
    qed (use r in \<open>simp add: load_module.simps Let_def\<close>)
  qed
qed

lemma load_module_enough:
  assumes "load_module n F rs lib junk path st \<noteq> Inl OutOfFuel" "n \<le> k"
  shows "load_module k F rs lib junk path st = load_module n F rs lib junk path st"
  using assms(2,1) by (induction k rule: dec_induct) (simp_all add: load_module_more)

lemma no_modules_inv: "loader_inv F rs junk no_modules"
  by (simp add: loader_inv_def no_modules_def)

section \<open>Roots\<close>

definition roots_ok :: "fs \<Rightarrow> root list \<Rightarrow> bool" where
  "roots_ok F rs \<longleftrightarrow> distinct (map rt_path rs) \<and> length rs \<le> MAX_ROOTS \<and>
     (\<forall>r \<in> set rs. \<exists>d. dir_exists F d \<and> fs_real F d = Some (rt_path r))"

lemma add_root_ok: "roots_ok F rs \<Longrightarrow> roots_ok F (snd (add_root F d why rs))"
  by (auto simp: add_root_def roots_ok_def split: option.split)

lemma add_root_why: "r \<in> set (snd (add_root F d why rs)) \<Longrightarrow> r \<in> set rs \<or> rt_why r = why"
  by (auto simp: add_root_def split: option.split_asm if_splits)

lemma add_roots_ok: "roots_ok F rs \<Longrightarrow> roots_ok F (add_roots F why ds rs)"
  unfolding add_roots_def by (induction ds arbitrary: rs) (auto simp: add_root_ok)

lemma add_roots_why: "r \<in> set (add_roots F why ds rs) \<Longrightarrow> r \<in> set rs \<or> rt_why r = why"
  unfolding add_roots_def by (induction ds arbitrary: rs) (auto dest: add_root_why)

lemma modules_roots_ok:
  "(roots_ok F rs \<longrightarrow> roots_ok F (modules_roots_from F d rs)) \<and>
   (\<forall>r \<in> set (modules_roots_from F d rs). r \<in> set rs \<or> rt_why r = ''vyto_modules'')"
proof (induction F d rs rule: modules_roots_from.induct)
  case (1 F d rs)
  let ?rs = "snd (add_root F (Some (d @ ''/vyto_modules'')) ''vyto_modules'' rs)"
  show ?case
  proof (cases "d = ''/'' \<or> SLASH \<notin> set d")
    case True
    then show ?thesis using add_root_ok[of F rs] add_root_why by (auto simp: modules_roots_from.simps[of F d] Let_def)
  next
    case False
    then have "modules_roots_from F d rs = modules_roots_from F (parent_dir d) ?rs"
      by (simp add: modules_roots_from.simps[of F d] Let_def)
    moreover have "(roots_ok F ?rs \<longrightarrow> roots_ok F (modules_roots_from F (parent_dir d) ?rs)) \<and>
        (\<forall>r \<in> set (modules_roots_from F (parent_dir d) ?rs). r \<in> set ?rs \<or> rt_why r = ''vyto_modules'')"
      by (rule 1[OF refl]) (use False in auto)
    ultimately show ?thesis using add_root_ok[of F rs] add_root_why by metis
  qed
qed

lemma add_vyto_modules_ok:
  assumes "roots_ok F rs" "\<forall>r \<in> set rs. rt_why r \<noteq> ''the stdlib''"
  shows "roots_ok F (add_vyto_modules_roots F d rs) \<and> (\<forall>r \<in> set (add_vyto_modules_roots F d rs). rt_why r \<noteq> ''the stdlib'')"
proof (cases "fs_real F d")
  case (Some x)
  have "rt_why r \<noteq> ''the stdlib''" if "r \<in> set (modules_roots_from F x rs)" for r
    using modules_roots_ok[of F rs x] that assms(2) by auto
  then show ?thesis using modules_roots_ok[of F rs x] assms(1) Some by (simp add: add_vyto_modules_roots_def)
qed (use assms in \<open>simp add: add_vyto_modules_roots_def\<close>)

text \<open>The roots before the stdlib is added.\<close>

definition package_roots :: "fs \<Rightarrow> env \<Rightarrow> string list \<Rightarrow> string \<Rightarrow> root list" where
  "package_roots F E modpath input =
     add_vyto_modules_roots F (dir_of input)
       (if modpath = []
        then (case VYTO_PATH E of Some v \<Rightarrow> add_roots F ''VYTO_PATH'' (strtok_all (CHR 0x3A) [] v) [] | None \<Rightarrow> [])
        else add_roots F ''--modpath'' modpath [])"

lemma register_roots_eq:
  "register_roots F E modpath input = snd (add_root F (find_lib_dir F E) ''the stdlib'' (package_roots F E modpath input))"
  by (cases "modpath = []"; cases "VYTO_PATH E") (simp_all add: register_roots_def package_roots_def add_roots_def Let_def)

lemma package_roots_ok:
  "roots_ok F (package_roots F E modpath input) \<and> (\<forall>r \<in> set (package_roots F E modpath input). rt_why r \<noteq> ''the stdlib'')"
proof -
  let ?rs = "if modpath = []
        then (case VYTO_PATH E of Some v \<Rightarrow> add_roots F ''VYTO_PATH'' (strtok_all (CHR 0x3A) [] v) [] | None \<Rightarrow> [])
        else add_roots F ''--modpath'' modpath []"
  have n: "roots_ok F []" by (simp add: roots_ok_def)
  have "roots_ok F ?rs" using add_roots_ok[OF n] n by (auto split: option.split)
  moreover have "\<forall>r \<in> set ?rs. rt_why r \<noteq> ''the stdlib''" by (auto split: option.split_asm dest!: add_roots_why)
  ultimately show ?thesis unfolding package_roots_def by (rule add_vyto_modules_ok)
qed

lemma or_else_simps [simp]: "or_else (Some x) b = Some x" "or_else None b = b"
  by (simp_all add: or_else_def)

lemma probe_roots_first:
  "probe_roots F rs imp = Some p \<longleftrightarrow>
   (\<exists>pre d post. map rt_path rs = pre @ d # post \<and> probe_import F d imp = Some p \<and> (\<forall>x \<in> set pre. probe_import F x imp = None))"
proof (induction rs)
  case (Cons r rs)
  show ?case
  proof (cases "probe_import F (rt_path r) imp")
    case None
    have "(\<exists>pre d post. map rt_path (r # rs) = pre @ d # post \<and> probe_import F d imp = Some p \<and> (\<forall>x \<in> set pre. probe_import F x imp = None)) \<longleftrightarrow>
        (\<exists>pre d post. map rt_path rs = pre @ d # post \<and> probe_import F d imp = Some p \<and> (\<forall>x \<in> set pre. probe_import F x imp = None))"
      (is "?L \<longleftrightarrow> ?R")
    proof
      assume ?L
      then obtain pre d post where l: "map rt_path (r # rs) = pre @ d # post" "probe_import F d imp = Some p"
        "\<forall>x \<in> set pre. probe_import F x imp = None" by blast
      then obtain pre' where "pre = rt_path r # pre'" using None by (cases pre) auto
      then show ?R using l by (intro exI[of _ pre'] exI[of _ d] exI[of _ post]) simp
    next
      assume ?R
      then obtain pre d post where l: "map rt_path rs = pre @ d # post" "probe_import F d imp = Some p"
        "\<forall>x \<in> set pre. probe_import F x imp = None" by blast
      then show ?L using None by (intro exI[of _ "rt_path r # pre"] exI[of _ d] exI[of _ post]) simp
    qed
    then show ?thesis using Cons None by simp
  next
    case (Some q)
    have "q = p" if "map rt_path (r # rs) = pre @ d # post" "probe_import F d imp = Some p"
      "\<forall>x \<in> set pre. probe_import F x imp = None" for pre d post
      using that Some by (cases pre) auto
    moreover have "map rt_path (r # rs) = [] @ rt_path r # map rt_path rs" by simp
    ultimately show ?thesis using Some by (metis empty_iff list.set(1) option.inject or_else_simps(1) probe_roots.simps(2))
  qed
qed simp

lemma sanitize_ident: "\<forall>c \<in> set (sanitize s). alnum c \<or> c = CHR ''_''"
  by (auto simp: sanitize_def Let_def alnum_def split: list.split if_splits)

lemma module_named_ident: "list_all (\<lambda>c. alnum c \<or> c = CHR ''_'') (module_named F rs p)"
  using sanitize_ident by (simp add: module_named_def root_module_name_def Let_def list_all_iff split: option.split)

section \<open>The digest does not depend on the order of entries\<close>

lemma strcmp_gt_less: "strcmp_gt a b \<longleftrightarrow> b < a"
  by (induction a b rule: strcmp_gt.induct) (auto simp: less_char_def)

lemma insert_name_mset: "mset (insert_name k xs) = add_mset k (mset xs)"
proof -
  have "mset xs = mset (takeWhile (\<lambda>x. strcmp_gt x k) (rev xs) @ dropWhile (\<lambda>x. strcmp_gt x k) (rev xs))" by simp
  then show ?thesis unfolding insert_name_def by (simp only: mset_append mset_rev mset.simps) simp
qed

lemma insert_name_sorted: "sorted xs \<Longrightarrow> sorted (insert_name k xs)"
proof -
  assume s: "sorted xs"
  let ?big = "\<lambda>x. strcmp_gt x k"
  have split: "xs = rev (dropWhile ?big (rev xs)) @ rev (takeWhile ?big (rev xs))"
    by (metis rev_append rev_rev_ident takeWhile_dropWhile_id)
  have big: "\<forall>y \<in> set (rev (takeWhile ?big (rev xs))). k \<le> y"
    by (auto simp: strcmp_gt_less dest!: set_takeWhileD)
  have small: "\<forall>x \<in> set (rev (dropWhile ?big (rev xs))). x \<le> k"
  proof (cases "dropWhile ?big (rev xs)")
    case (Cons y ys)
    have "\<not> ?big y" using Cons hd_dropWhile[of ?big "rev xs"] by auto
    moreover have "sorted (rev ys @ [y])" using s split Cons by (metis rev.simps(2) sorted_append)
    ultimately show ?thesis using Cons by (auto simp: strcmp_gt_less sorted_append)
  next
    case Nil
    show ?thesis unfolding Nil by simp
  qed
  have "sorted (rev (dropWhile ?big (rev xs)))" "sorted (rev (takeWhile ?big (rev xs)))"
    using s split by (metis sorted_append)+
  then show ?thesis unfolding insert_name_def using big small by (auto simp: sorted_append intro: order_trans)
qed

lemma sort_names_sort: "sort_names xs = sort xs"
proof -
  have "sorted (foldl (\<lambda>acc k. insert_name k acc) ys xs) \<and> mset (foldl (\<lambda>acc k. insert_name k acc) ys xs) = mset ys + mset xs"
    if "sorted ys" for ys
    using that by (induction xs arbitrary: ys) (auto simp: insert_name_sorted insert_name_mset)
  from this[of "[]"] show ?thesis unfolding sort_names_def by (metis empty_neutral(1) mset.simps(1) properties_for_sort sorted_simps(1))
qed

lemma sort_names_perm: "mset xs = mset ys \<Longrightarrow> sort_names xs = sort_names ys"
  unfolding sort_names_sort by (metis mset_sort properties_for_sort sorted_sort)

definition visible :: "string list \<Rightarrow> string list" where
  "visible es = filter (\<lambda>nm. nm = [] \<or> nm ! 0 \<noteq> DOT) es"

text \<open>Two file systems with the same files whose directories list the same entries in different orders.\<close>

definition relisted :: "fs \<Rightarrow> fs \<Rightarrow> bool" where
  "relisted F G \<longleftrightarrow> fs_exists G = fs_exists F \<and> fs_isdir G = fs_isdir F \<and> fs_read G = fs_read F \<and> fs_isreg G = fs_isreg F \<and>
     (\<forall>d. rel_option (\<lambda>xs ys. mset xs = mset ys \<and> length (visible xs) \<le> 1024) (fs_list F d) (fs_list G d))"

lemma visible_perm: "mset xs = mset ys \<Longrightarrow> mset (visible xs) = mset (visible ys)"
  by (simp add: visible_def)

lemma dir_digest_at_perm: "relisted F G \<Longrightarrow> dir_digest_at k G d u = dir_digest_at k F d u"
proof (induction k arbitrary: d u)
  case (Suc k)
  have rel: "rel_option (\<lambda>xs ys. mset xs = mset ys \<and> length (visible xs) \<le> 1024) (fs_list F d) (fs_list G d)"
    using Suc.prems by (simp add: relisted_def)
  show ?case
  proof (cases "fs_list F d")
    case (Some xs)
    then obtain ys where y: "fs_list G d = Some ys" "mset xs = mset ys" "length (visible xs) \<le> 1024"
      using rel by (cases "fs_list G d") auto
    then have "length (visible ys) \<le> 1024" by (metis mset_eq_length visible_perm)
    then have "sort_names (take 1024 (visible ys)) = sort_names (take 1024 (visible xs))"
      using y(3) sort_names_perm[OF visible_perm[OF y(2)]] by simp
    moreover have IH: "dir_digest_at k G d u = dir_digest_at k F d u" for d u by (rule Suc.IH[OF Suc.prems])
    moreover have "fs_exists G = fs_exists F" "fs_isdir G = fs_isdir F" "fs_read G = fs_read F" "fs_isreg G = fs_isreg F"
      using Suc.prems by (simp_all add: relisted_def)
    ultimately show ?thesis using Some y(1) by (simp add: visible_def cong: if_cong)
  qed (use rel in simp)
qed simp

section \<open>Properties\<close>

text \<open>C39: Loading a program ends on every finite file system, also when modules import each other in
  cycles: the nesting of calls never exceeds the number of files, and the result does not
  depend on the bound chosen beyond that.\<close>

theorem loading_terminates:
  assumes "finite (files F)"
  shows "\<exists>r. r \<noteq> Inl OutOfFuel \<and> (\<forall>n > card (files F). load_program n F E junk modpath input = r)"
proof -
  let ?load = "\<lambda>n. load_program n F E junk modpath input"
  have "?load (Suc (card (files F))) \<noteq> Inl OutOfFuel"
    using load_specD(1)[OF load_module_spec no_modules_inv] assms
    unfolding load_program_def by (fastforce simp: no_modules_def)
  then show ?thesis
    using load_module_enough unfolding load_program_def by (metis Suc_leI)
qed

text \<open>C38: What a successful load leaves behind: the entry file and exactly the files it reaches through imports,
  each loaded once under its canonical path and parsed from its text under the name the roots give
  it, a run of letters, digits and underscores, no two with the same name, and every import of every module linked to the module that the search
  order names.\<close>

theorem loaded_program_closed:
  assumes "load_program n F E junk modpath input = Inr (q, st)"
  defines "rs \<equiv> register_roots F E modpath input"
  shows "q = canonical F input \<and> q \<in> loaded st \<and>
    distinct (map m_path (g_modules st)) \<and> distinct (map m_name (g_modules st)) \<and>
    (\<forall>m \<in> set (g_modules st). parsed_from F rs junk m \<and> m_name m = module_named F rs (m_path m) \<and>
       list_all (\<lambda>c. alnum c \<or> c = CHR ''_'') (m_name m) \<and> (q, m_path m) \<in> (imports_rel st)\<^sup>* \<and>
       (\<forall>i imp. import_at m i imp \<longrightarrow>
          (\<exists>p. find_import F rs (dir_of (m_path m)) imp = Some p \<and>
               import_module st (m_path m, i) = Some (canonical F p) \<and> canonical F p \<in> loaded st)))"
proof -
  have post: "q = canonical F input \<and> q \<in> loaded st \<and> loader_inv F rs junk st \<and> ld_grows F rs q no_modules st"
    using load_specD(2)[OF load_module_spec no_modules_inv] assms(1) unfolding load_program_def rs_def by blast
  have "complete F rs st m \<and> (q, m_path m) \<in> (imports_rel st)\<^sup>*" if "m \<in> set (g_modules st)" for m
    using post that unfolding ld_grows_def no_modules_def by auto
  moreover have p: "parsed_from F rs junk m \<and> m_name m = module_named F rs (m_path m)" if "m \<in> set (g_modules st)" for m
    using post that parse_module_fields unfolding loader_inv_def list_all_iff parsed_from_def by blast
  moreover have "list_all (\<lambda>c. alnum c \<or> c = CHR ''_'') (m_name m)" if "m \<in> set (g_modules st)" for m
    using p[OF that] module_named_ident[of F rs "m_path m"] by simp
  ultimately show ?thesis
    using post unfolding loader_inv_def complete_def import_linked_def by blast
qed

text \<open>The search roots are at most 64 distinct canonical directories, the stdlib last among them, if there is room for it.
  An import is the file found in the first directory of the list that has it, with the directory of the importing file
  in front: the stdlib shadows nothing and every other directory shadows the stdlib.\<close>

theorem search_order:
  "roots_ok F (register_roots F E modpath input) \<and>
   (register_roots F E modpath input = package_roots F E modpath input \<or>
    (\<exists>d. register_roots F E modpath input = package_roots F E modpath input @ [\<lparr>rt_path = d, rt_why = ''the stdlib''\<rparr>])) \<and>
   rt_why ` set (package_roots F E modpath input) \<subseteq> - {''the stdlib''} \<and>
   (find_import F (register_roots F E modpath input) basedir imp = Some p \<longleftrightarrow>
     (\<exists>pre d post. basedir # map rt_path (register_roots F E modpath input) = pre @ d # post \<and>
        probe_import F d imp = Some p \<and> set pre \<subseteq> {x. probe_import F x imp = None}))"
proof -
  let ?rs = "register_roots F E modpath input" and ?b = "\<lparr>rt_path = basedir, rt_why = []\<rparr>"
  have "find_import F ?rs basedir imp = probe_roots F (?b # ?rs) imp" by (simp add: find_import_def)
  then have "find_import F ?rs basedir imp = Some p \<longleftrightarrow>
     (\<exists>pre d post. basedir # map rt_path ?rs = pre @ d # post \<and> probe_import F d imp = Some p \<and> set pre \<subseteq> {x. probe_import F x imp = None})"
    using probe_roots_first[of F "?b # ?rs" imp p] by (simp add: subset_eq)
  moreover have "?rs = package_roots F E modpath input \<or> (\<exists>d. ?rs = package_roots F E modpath input @ [\<lparr>rt_path = d, rt_why = ''the stdlib''\<rparr>])"
    unfolding register_roots_eq by (auto simp: add_root_def split: option.split)
  ultimately show ?thesis
    using package_roots_ok[of F E modpath input] add_root_ok[of F "package_roots F E modpath input"]
    unfolding register_roots_eq[symmetric] by (auto simp: register_roots_eq)
qed

text \<open>The digest that keys a cached object is a function of the files: it does not depend on the order in which
  directories list their entries, in any directory of at most 1024 visible ones, whatever the nesting. Generated files are rewritten exactly when
  their text changed, and hold it afterwards.\<close>

theorem digest_deterministic:
  assumes "relisted F G"
  shows "dir_digest G d = dir_digest F d \<and>
    (case write_if_changed opens path data disk of
       (ok, changed, disk') \<Rightarrow> (ok \<longleftrightarrow> disk' path = Some data) \<and> (ok \<longrightarrow> changed = Some (disk path \<noteq> Some data)) \<and>
         disk' |` (- {path}) = disk |` (- {path}) \<and> (disk path = Some data \<longrightarrow> disk' = disk))"
  using dir_digest_at_perm[OF assms] by (auto simp: dir_digest_def write_if_changed_def)

text \<open>Two files that import each other.\<close>

definition cycle_text :: "string \<Rightarrow> string option" where
  "cycle_text p = (if p = ''/p/a.vt'' then Some (''import{}from'' @ [CHR 0x22] @ ''b'' @ [CHR 0x22] @ '';'')
     else if p = ''/p/b.vt'' then Some (''import{}from'' @ [CHR 0x22] @ ''a'' @ [CHR 0x22] @ '';'') else None)"

definition cycle_fs :: fs where
  "cycle_fs = \<lparr>fs_exists = (\<lambda>p. cycle_text p \<noteq> None), fs_isdir = (\<lambda>p. False),
     fs_real = (\<lambda>p. if cycle_text p \<noteq> None then Some p else None), fs_read = cycle_text,
     fs_isreg = (\<lambda>p. True), fs_list = (\<lambda>d. None)\<rparr>"

definition bare_env :: env where
  "bare_env = \<lparr>VYTO_HOME = None, VYTO_PATH = None, exe_link = None\<rparr>"

lemma cycle_loads:
  "case load_program 3 cycle_fs bare_env (\<lambda>_. []) [] ''/p/a.vt'' of
     Inr (q, st) \<Rightarrow> q = ''/p/a.vt'' \<and> map m_path (g_modules st) = [''/p/b.vt'', ''/p/a.vt''] \<and>
       import_module st (''/p/b.vt'', 0) = Some ''/p/a.vt''
   | Inl _ \<Rightarrow> False"
  by code_simp

lemma cycle_files: "files cycle_fs \<subseteq> {''/p/a.vt'', ''/p/b.vt''}"
  by (auto simp: files_def cycle_fs_def cycle_text_def split: if_splits)

theorem loading_terminates_witness:
  "finite (files cycle_fs) \<and>
   (\<exists>r. r \<noteq> Inl OutOfFuel \<and> (\<forall>n > card (files cycle_fs). load_program n cycle_fs bare_env (\<lambda>_. []) [] ''/p/a.vt'' = r))"
  using loading_terminates[of cycle_fs bare_env "\<lambda>_. []" "[]" "''/p/a.vt''"] finite_subset[OF cycle_files] by simp

theorem loaded_program_closed_witness:
  "\<exists>q st. load_program 3 cycle_fs bare_env (\<lambda>_. []) [] ''/p/a.vt'' = Inr (q, st) \<and> q = canonical cycle_fs ''/p/a.vt'' \<and>
     length (g_modules st) = 2 \<and> (\<forall>m \<in> set (g_modules st). (q, m_path m) \<in> (imports_rel st)\<^sup>*)"
proof -
  obtain q st where l: "load_program 3 cycle_fs bare_env (\<lambda>_. []) [] ''/p/a.vt'' = Inr (q, st)"
    "map m_path (g_modules st) = [''/p/b.vt'', ''/p/a.vt'']"
    using cycle_loads by (auto split: sum.split_asm prod.split_asm)
  moreover have "length (g_modules st) = 2" using arg_cong[OF l(2), of length] by simp
  ultimately show ?thesis using loaded_program_closed[OF l(1)] by blast
qed

text \<open>A directory with two files, listed in both orders.\<close>

definition listing_fs :: "string list \<Rightarrow> fs" where
  "listing_fs es = \<lparr>fs_exists = (\<lambda>p. True), fs_isdir = (\<lambda>p. p = ''/d''), fs_real = Some, fs_read = (\<lambda>p. Some p),
     fs_isreg = (\<lambda>p. True), fs_list = (\<lambda>d. if d = ''/d'' then Some es else None)\<rparr>"

theorem digest_deterministic_witness:
  "relisted (listing_fs [''x.c'', ''y.h'']) (listing_fs [''y.h'', ''x.c'']) \<and>
   dir_digest (listing_fs [''y.h'', ''x.c'']) ''/d'' = dir_digest (listing_fs [''x.c'', ''y.h'']) ''/d''"
proof -
  have "relisted (listing_fs [''x.c'', ''y.h'']) (listing_fs [''y.h'', ''x.c''])"
    by (simp add: relisted_def listing_fs_def visible_def)
  then show ?thesis using digest_deterministic[of "listing_fs [''x.c'', ''y.h'']"] by blast
qed

end
