(* ===== verification/Vt_Bind.thy ===== *)
theory Vt_Bind
  imports Vt_Types
begin

text \<open>
  The binding generator \<open>src/vytobind.c\<close>: it reads the preprocessed text of a C header, keeps the declarations it
  understands and prints an \<open>extern\<close> block in Vyto. The whole program is modelled: the command line, the tokens, the parser of
  declarations, the integer macros, the mapping of types, the filters and the text printed. What the preprocessor
  prints is an argument, a string without the terminating zero byte. Interned names are compared by address in the code, by text here.
\<close>

section \<open>Tokens\<close>

datatype ctok_kind = CT_EOF | CT_IDENT | CT_NUM | CT_STR | CT_CHR | CT_PUNCT

text \<open>The field \<open>s\<close> is NULL, here empty, for strings, characters and the end.\<close>

record ctok =
  ct_kind :: ctok_kind
  ct_s :: string
  ct_ival :: i64
  ct_is_int :: bool

definition mk_tok :: "ctok_kind \<Rightarrow> string \<Rightarrow> ctok" where
  "mk_tok k s = \<lparr>ct_kind = k, ct_s = s, ct_ival = 0, ct_is_int = False\<rparr>"

definition c_isspace :: "char \<Rightarrow> bool" where
  "c_isspace c \<longleftrightarrow> (of_char c :: nat) = 32 \<or> (9 \<le> (of_char c :: nat) \<and> (of_char c :: nat) \<le> 13)"

definition c_isalpha :: "char \<Rightarrow> bool" where
  "c_isalpha c \<longleftrightarrow> (97 \<le> (of_char c :: nat) \<and> (of_char c :: nat) \<le> 122) \<or> (65 \<le> (of_char c :: nat) \<and> (of_char c :: nat) \<le> 90)"

definition c_isdigit :: "char \<Rightarrow> bool" where
  "c_isdigit c \<longleftrightarrow> 48 \<le> (of_char c :: nat) \<and> (of_char c :: nat) \<le> 57"

definition c_isxdigit :: "char \<Rightarrow> bool" where
  "c_isxdigit c \<longleftrightarrow> 0 \<le> hexval c"

definition name_char :: "char \<Rightarrow> bool" where
  "name_char c \<longleftrightarrow> c_isalpha c \<or> c_isdigit c \<or> c = CHR ''_''"

text \<open>\<open>strtoll\<close> with base 0: white space, a sign, the prefix of the base, and the digits up to the first character
  that is none, saturating at the limits of 64 bits.\<close>

definition digits_of :: "nat \<Rightarrow> string \<Rightarrow> nat list" where
  "digits_of base s = takeWhile (\<lambda>d. d < base) (map (\<lambda>c. if hexval c < 0 then 16 else nat (hexval c)) s)"

definition is_hex_prefix :: "string \<Rightarrow> bool" where
  "is_hex_prefix s \<longleftrightarrow> (case s of a # b # _ \<Rightarrow> a = CHR ''0'' \<and> (b = CHR ''x'' \<or> b = CHR ''X'') | _ \<Rightarrow> False)"

definition strtoll_digits :: "string \<Rightarrow> nat" where
  "strtoll_digits s =
     (let (base, t) = (if is_hex_prefix s \<and> digits_of 16 (drop 2 s) \<noteq> [] then (16, drop 2 s)
                       else if s \<noteq> [] \<and> s ! 0 = CHR ''0'' then (8, s) else (10, s))
      in foldl (\<lambda>v d. v * base + d) 0 (digits_of base t))"

definition strtoll :: "string \<Rightarrow> i64" where
  "strtoll s =
     (let s = dropWhile c_isspace s;
          neg = (s \<noteq> [] \<and> s ! 0 = CHR ''-'');
          t = (if s \<noteq> [] \<and> (s ! 0 = CHR ''-'' \<or> s ! 0 = CHR ''+'') then tl s else s);
          v = int (strtoll_digits t)
      in word_of_int (if neg then max (- (2 ^ 63)) (- v) else min (2 ^ 63 - 1) v))"

text \<open>A number: its text, whether it is an integer, and what follows it.\<close>

definition scan_cnum :: "string \<Rightarrow> string \<times> bool \<times> string" where
  "scan_cnum p =
     (let (isint, rest) =
            (if is_hex_prefix p then (True, dropWhile c_isxdigit (drop 2 p))
             else (let q = dropWhile c_isdigit p
                   in case q of
                        c # _ \<Rightarrow> if c \<in> {CHR ''.'', CHR ''e'', CHR ''E''}
                                then (False, dropWhile (\<lambda>c. c_isdigit c \<or> c \<in> {CHR ''.'', CHR ''e'', CHR ''E'', CHR ''+'', CHR ''-''}) q)
                                else (True, q)
                      | [] \<Rightarrow> (True, q)));
          rest = dropWhile c_isalpha rest
      in (take (length p - length rest) p, isint, rest))"

definition num_tok :: "string \<Rightarrow> bool \<Rightarrow> ctok" where
  "num_tok s isint = \<lparr>ct_kind = CT_NUM, ct_s = s, ct_ival = (if length s < 64 then strtoll s else 0), ct_is_int = isint\<rparr>"

text \<open>The rest after a string or character literal whose opening quote has been read.\<close>

fun skip_quoted :: "char \<Rightarrow> string \<Rightarrow> string" where
  "skip_quoted q [] = []"
| "skip_quoted q (c # cs) =
     (if c = q then cs
      else if c = CHR 0x5C then (case cs of [] \<Rightarrow> [] | _ # r \<Rightarrow> skip_quoted q r)
      else skip_quoted q cs)"

lemma skip_quoted_le: "length (skip_quoted q s) \<le> length s"
proof (induction q s rule: skip_quoted.induct)
  case (2 q c cs)
  consider "c = q" | "c \<noteq> q" "c = CHR 0x5C" | "c \<noteq> q" "c \<noteq> CHR 0x5C" by blast
  then show ?case
  proof cases
    case 2
    then show ?thesis using "2.IH"(1)[OF 2] by (cases cs) auto
  next
    case 3
    then show ?thesis using "2.IH"(2)[OF 3] by simp
  qed simp
qed simp

lemma scan_cnum_less:
  assumes "p \<noteq> []" "c_isdigit (hd p) \<or> (hd p = CHR ''.'')"
  shows "length (snd (snd (scan_cnum p))) < length p"
proof -
  obtain c cs where p: "p = c # cs" using assms(1) by (cases p) auto
  have d: "length (dropWhile P xs) \<le> length xs" for P and xs :: string by (rule length_dropWhile_le)
  show ?thesis
  proof (cases "is_hex_prefix p")
    case True
    then show ?thesis
      using le_trans[OF d d, of c_isalpha c_isxdigit "drop 2 p"] p by (simp add: scan_cnum_def Let_def)
  next
    case False
    show ?thesis
    proof (cases "c_isdigit c")
      case True
      have "length (dropWhile c_isalpha (dropWhile P (dropWhile c_isdigit cs))) \<le> length cs" for P
        using d le_trans by metis
      moreover have "length (dropWhile c_isalpha (dropWhile c_isdigit cs)) \<le> length cs" using d le_trans by metis
      ultimately show ?thesis using False True p
        by (simp add: scan_cnum_def Let_def less_Suc_eq_le split: list.split)
    next
      case no: False
      then have c: "c = CHR ''.''" using assms p by simp
      have "length (dropWhile c_isalpha (dropWhile P cs)) \<le> length cs" for P using d le_trans by metis
      then show ?thesis using False no c p by (simp add: scan_cnum_def Let_def less_Suc_eq_le)
    qed
  qed
qed

text \<open>The tokens of a text. The code stores one token of kind \<open>CT_EOF\<close> after the last; here the list ends.\<close>

function tokenize :: "string \<Rightarrow> ctok list" where
  "tokenize [] = []"
| "tokenize (c # cs) =
     (if c_isspace c then tokenize cs
      else if c = CHR ''#'' then tokenize (dropWhile (\<lambda>x. x \<noteq> CHR 0x0A) cs)
      else if c_isalpha c \<or> c = CHR ''_''
      then mk_tok CT_IDENT (takeWhile name_char (c # cs)) # tokenize (dropWhile name_char cs)
      else if c_isdigit c \<or> (c = CHR ''.'' \<and> cs \<noteq> [] \<and> c_isdigit (hd cs))
      then (let (s, isint, rest) = scan_cnum (c # cs) in num_tok s isint # tokenize rest)
      else if c = CHR 0x22 then mk_tok CT_STR [] # tokenize (skip_quoted c cs)
      else if c = CHR 0x27 then mk_tok CT_CHR [] # tokenize (skip_quoted c cs)
      else if take 3 (c # cs) = ''...'' then mk_tok CT_PUNCT ''...'' # tokenize (drop 2 cs)
      else mk_tok CT_PUNCT [c] # tokenize cs)"
  by pat_completeness auto
termination
proof (relation "measure length", goal_cases)
  case (5 c cs x s y isint rest)
  then have "rest = snd (snd (scan_cnum (c # cs)))" by (metis snd_conv)
  then show ?case using scan_cnum_less[of "c # cs"] 5 by auto
qed (auto simp: less_Suc_eq_le length_dropWhile_le skip_quoted_le)

section \<open>C types and the state of the generator\<close>

datatype cbase =
    B_UNKNOWN | B_VOID | B_BOOL | B_CHAR | B_SCHAR | B_UCHAR | B_SHORT | B_USHORT | B_INT | B_UINT
  | B_LONG | B_ULONG | B_LLONG | B_ULLONG | B_FLOAT | B_DOUBLE | B_LDOUBLE | B_STRUCT | B_UNION
  | B_ENUM | B_FNPTR

record ctype =
  cy_base :: cbase
  cy_ptr :: nat
  cy_tag :: "string option"

record cstruct =
  cs_name :: string
  cs_fields :: "(string \<times> ctype) list"
  cs_mappable :: bool
  cs_has_body :: bool
  cs_emitted :: bool
  cs_value_used :: bool

record cfn =
  cf_name :: string
  cf_ret :: ctype
  cf_params :: "(string option \<times> ctype) list"

text \<open>The globals of the file: the tokens from \<open>pos\<close> on, the lists in the order of their links (the
  typedefs newest first). A pointer to a struct is its position in the list, which only grows.\<close>

record bgen =
  b_rest :: "ctok list"
  b_pos :: nat
  b_structs :: "cstruct list"
  b_fns :: "cfn list"
  b_typedefs :: "(string \<times> ctype) list"
  b_consts :: "(string \<times> i64) list"
  b_skips :: "(string \<times> string) list"
  saw_asm_rename :: bool

definition rem :: "bgen \<Rightarrow> nat" where
  "rem b = length (b_rest b)"

lemma rem_upd [simp]:
  "rem (b\<lparr>b_structs := ss\<rparr>) = rem b" "rem (b\<lparr>b_fns := fs\<rparr>) = rem b" "rem (b\<lparr>b_typedefs := ts\<rparr>) = rem b"
  "rem (b\<lparr>b_consts := cs\<rparr>) = rem b" "rem (b\<lparr>b_skips := ks\<rparr>) = rem b" "rem (b\<lparr>saw_asm_rename := a\<rparr>) = rem b"
  by (simp_all add: rem_def)

definition cur_tok :: "bgen \<Rightarrow> ctok" where
  "cur_tok b = (case b_rest b of [] \<Rightarrow> mk_tok CT_EOF [] | t # _ \<Rightarrow> t)"

definition peek :: "nat \<Rightarrow> bgen \<Rightarrow> ctok" where
  "peek n b = (if n < rem b then b_rest b ! n else mk_tok CT_EOF [])"

definition advc :: "bgen \<Rightarrow> bgen" where
  "advc b = (case b_rest b of [] \<Rightarrow> b | _ # ts \<Rightarrow> b\<lparr>b_rest := ts, b_pos := b_pos b + 1\<rparr>)"

definition at_eof :: "bgen \<Rightarrow> bool" where
  "at_eof b \<longleftrightarrow> b_rest b = []"

definition is_p :: "string \<Rightarrow> bgen \<Rightarrow> bool" where
  "is_p s b \<longleftrightarrow> ct_kind (cur_tok b) = CT_PUNCT \<and> ct_s (cur_tok b) = s"

definition is_kw :: "string \<Rightarrow> bgen \<Rightarrow> bool" where
  "is_kw s b \<longleftrightarrow> ct_kind (cur_tok b) = CT_IDENT \<and> ct_s (cur_tok b) = s"

definition is_kw_of :: "string list \<Rightarrow> bgen \<Rightarrow> bool" where
  "is_kw_of ss b \<longleftrightarrow> list_ex (\<lambda>s. is_kw s b) ss"

definition eat_p :: "string \<Rightarrow> bgen \<Rightarrow> bool \<times> bgen" where
  "eat_p s b = (if is_p s b then (True, advc b) else (False, b))"

definition eat_kw :: "string \<Rightarrow> bgen \<Rightarrow> bgen" where
  "eat_kw s b = (if is_kw s b then advc b else b)"

lemma rem_advc [simp]: "rem (advc b) = rem b - 1"
  by (simp add: advc_def rem_def split: list.split)

lemma at_eof_rem: "at_eof b \<longleftrightarrow> rem b = 0"
  by (simp add: at_eof_def rem_def)

lemma not_eof_rem: "\<not> at_eof b \<Longrightarrow> 0 < rem b"
  by (simp add: at_eof_rem)

lemma kind_rem: "ct_kind (cur_tok b) \<noteq> CT_EOF \<Longrightarrow> 0 < rem b"
  by (auto simp: cur_tok_def mk_tok_def rem_def split: list.splits)

lemma is_p_rem: "is_p s b \<Longrightarrow> 0 < rem b"
  by (rule kind_rem) (simp add: is_p_def)

lemma is_kw_rem: "is_kw s b \<Longrightarrow> 0 < rem b"
  by (rule kind_rem) (simp add: is_kw_def)

lemma is_kw_of_rem: "is_kw_of ss b \<Longrightarrow> 0 < rem b"
  by (auto simp: is_kw_of_def list_ex_iff dest: is_kw_rem)

lemma rem_eat_p: "rem (snd (eat_p s b)) \<le> rem b"
  by (simp add: eat_p_def)

lemma rem_eat_kw: "rem (eat_kw s b) \<le> rem b"
  by (simp add: eat_kw_def)

section \<open>Skipping\<close>

definition next_depth :: "string \<Rightarrow> string \<Rightarrow> bgen \<Rightarrow> int \<Rightarrow> int" where
  "next_depth op cl b depth = (if is_p op b then depth + 1 else if is_p cl b then depth - 1 else depth)"

function skip_balanced_from :: "int \<Rightarrow> string \<Rightarrow> string \<Rightarrow> bgen \<Rightarrow> bgen" where
  "skip_balanced_from depth op cl b =
     (if next_depth op cl b depth > 0 \<and> \<not> at_eof (advc b)
      then skip_balanced_from (next_depth op cl b depth) op cl (advc b) else advc b)"
  by pat_completeness auto
termination
  by (relation "measure (\<lambda>(d, op, cl, b). rem b)") (auto simp: at_eof_rem)

declare skip_balanced_from.simps [simp del]

definition skip_balanced :: "string \<Rightarrow> string \<Rightarrow> bgen \<Rightarrow> bgen" where
  "skip_balanced op cl b = skip_balanced_from 0 op cl b"

lemma skip_balanced_from_le: "rem (skip_balanced_from d op cl b) \<le> rem b - 1"
proof (induction d op cl b rule: skip_balanced_from.induct)
  case (1 depth op cl b)
  then show ?case by (auto simp: skip_balanced_from.simps[of depth op cl b])
qed

lemma skip_balanced_le: "rem (skip_balanced op cl b) \<le> rem b - 1"
  unfolding skip_balanced_def by (rule skip_balanced_from_le)

function skip_to_semi :: "bgen \<Rightarrow> bgen" where
  "skip_to_semi b =
     (if at_eof b then b
      else if is_p ''{'' b then skip_to_semi (skip_balanced ''{'' ''}'' b)
      else if is_p '';'' b then advc b
      else skip_to_semi (advc b))"
  by pat_completeness auto
termination
proof (relation "measure rem", goal_cases)
  case (2 b)
  then show ?case using skip_balanced_le[of "''{''" "''}''" b] not_eof_rem[of b] by simp
next
  case (3 b)
  then show ?case using not_eof_rem[of b] by simp
qed simp

declare skip_to_semi.simps [simp del]

definition noise_words :: "string list" where
  "noise_words = [''__extension__'', ''__restrict'', ''__restrict__'', ''restrict'', ''__inline'', ''__inline__'',
     ''inline'', ''_Noreturn'', ''__volatile__'', ''volatile'', ''register'']"

definition asm_words :: "string list" where
  "asm_words = [''__asm__'', ''__asm'', ''asm'']"

definition paren_words :: "string list" where
  "paren_words = [''__attribute__'', ''__attribute'', ''_Alignas''] @ asm_words @ [''__declspec'']"

text \<open>One word of the second group with its parenthesised argument.\<close>

definition skip_attr :: "bgen \<Rightarrow> bgen" where
  "skip_attr b =
     (let asm = is_kw_of asm_words b;
          b = advc b;
          b = (if is_p ''('' b then skip_balanced ''('' '')'' b else b)
      in if asm then b\<lparr>saw_asm_rename := True\<rparr> else b)"

lemma skip_attr_le: "rem (skip_attr b) \<le> rem b - 1"
  using skip_balanced_le[of "''(''" "'')''" "advc b"] by (auto simp: skip_attr_def Let_def)

function skip_noise :: "bgen \<Rightarrow> bgen" where
  "skip_noise b =
     (if is_kw_of noise_words b then skip_noise (advc b)
      else if is_kw_of paren_words b then skip_noise (skip_attr b)
      else b)"
  by pat_completeness auto
termination
proof (relation "measure rem", goal_cases)
  case (2 b)
  then show ?case using is_kw_of_rem[of noise_words b] by simp
next
  case (3 b)
  then show ?case using is_kw_of_rem[of paren_words b] skip_attr_le[of b] by simp
qed simp

declare skip_noise.simps [simp del]

lemma skip_noise_le: "rem (skip_noise b) \<le> rem b"
proof (induction b rule: skip_noise.induct)
  case (1 b)
  then show ?case using skip_attr_le[of b] by (auto simp: skip_noise.simps[of b] intro: le_trans)
qed

lemma skip_to_semi_le: "rem (skip_to_semi b) \<le> rem b"
proof (induction b rule: skip_to_semi.induct)
  case (1 b)
  then show ?case using skip_balanced_le[of "''{''" "''}''" b] by (auto simp: skip_to_semi.simps[of b] intro: le_trans)
qed

lemma skip_to_semi_less: "\<not> at_eof b \<Longrightarrow> rem (skip_to_semi b) < rem b"
  using skip_to_semi_le[of "advc b"] skip_to_semi_le[of "skip_balanced ''{'' ''}'' b"]
    skip_balanced_le[of "''{''" "''}''" b] not_eof_rem[of b]
  by (auto simp: skip_to_semi.simps[of b])

section \<open>Declarations of structs, functions, types\<close>

definition add_skip :: "string \<Rightarrow> string \<Rightarrow> bgen \<Rightarrow> bgen" where
  "add_skip nm why b = (if nm \<in> fst ` set (b_skips b) then b else b\<lparr>b_skips := b_skips b @ [(nm, why)]\<rparr>)"

fun index_of :: "string \<Rightarrow> cstruct list \<Rightarrow> nat option" where
  "index_of nm [] = None"
| "index_of nm (s # ss) = (if cs_name s = nm then Some 0 else map_option Suc (index_of nm ss))"

definition find_struct :: "string \<Rightarrow> bgen \<Rightarrow> nat option" where
  "find_struct nm b = index_of nm (b_structs b)"

definition get_struct :: "string \<Rightarrow> bgen \<Rightarrow> nat \<times> bgen" where
  "get_struct nm b =
     (case find_struct nm b of
        Some i \<Rightarrow> (i, b)
      | None \<Rightarrow> (length (b_structs b), b\<lparr>b_structs := b_structs b @
          [\<lparr>cs_name = nm, cs_fields = [], cs_mappable = True, cs_has_body = False, cs_emitted = False, cs_value_used = False\<rparr>]\<rparr>))"

definition find_typedef :: "string \<Rightarrow> bgen \<Rightarrow> ctype option" where
  "find_typedef nm b = map_of (b_typedefs b) nm"

definition upd_struct :: "nat \<Rightarrow> (cstruct \<Rightarrow> cstruct) \<Rightarrow> bgen \<Rightarrow> bgen" where
  "upd_struct i f b = b\<lparr>b_structs := (b_structs b)[i := f (b_structs b ! i)]\<rparr>"

section \<open>Declarators\<close>

text \<open>The stars of a declarator: how many there are and the state behind them.\<close>

function stars :: "bgen \<Rightarrow> nat \<times> bgen" where
  "stars b =
     (if is_p ''*'' (skip_noise b)
      then (let (k, b') = stars (eat_kw ''const'' (advc (skip_noise b))) in (Suc k, b'))
      else (0, skip_noise b))"
  by pat_completeness auto
termination
proof (relation "measure rem", goal_cases)
  case (2 b)
  then show ?case
    using is_p_rem[OF 2] skip_noise_le[of b] rem_eat_kw[of "''const''" "advc (skip_noise b)"] by simp
qed simp

declare stars.simps [simp del]

lemma stars_le: "rem (snd (stars b)) \<le> rem b"
proof (induction b rule: stars.induct)
  case (1 b)
  then show ?case
    using skip_noise_le[of b] rem_eat_kw[of "''const''" "advc (skip_noise b)"]
    by (cases "is_p ''*'' (skip_noise b)") (auto simp: stars.simps[of b] split: prod.split)
qed

text \<open>The array suffixes, each of which counts as one more star.\<close>

function brackets :: "bgen \<Rightarrow> nat \<times> bgen" where
  "brackets b =
     (if is_p ''['' b then (let (k, b') = brackets (skip_balanced ''['' '']'' b) in (Suc k, b')) else (0, b))"
  by pat_completeness auto
termination
proof (relation "measure rem", goal_cases)
  case (2 b)
  then show ?case using is_p_rem[OF 2] skip_balanced_le[of "''[''" "'']''" b] by simp
qed simp

declare brackets.simps [simp del]

lemma brackets_le: "rem (snd (brackets b)) \<le> rem b"
proof (induction b rule: brackets.induct)
  case (1 b)
  then show ?case
    using skip_balanced_le[of "''[''" "'']''" b]
    by (cases "is_p ''['' b") (auto simp: brackets.simps[of b] split: prod.split)
qed

definition parse_declarator :: "ctype \<Rightarrow> bgen \<Rightarrow> string option \<times> ctype \<times> bgen" where
  "parse_declarator t b =
     (let (k, b) = stars b;
          t = t\<lparr>cy_ptr := cy_ptr t + k\<rparr>;
          b = skip_noise b
      in if is_p ''('' b
         then (let b = skip_balanced ''('' '')'' b;
                   b = (if is_p ''('' b then skip_balanced ''('' '')'' b else b)
               in (None, t\<lparr>cy_base := B_FNPTR, cy_ptr := 0\<rparr>, b))
         else (let (nm, b) = (if ct_kind (cur_tok b) = CT_IDENT then (Some (ct_s (cur_tok b)), advc b) else (None, b));
                   b = skip_noise b;
                   (k, b) = brackets b
               in (nm, t\<lparr>cy_ptr := cy_ptr t + k\<rparr>, b)))"

lemma skip_balanced_le': "rem (skip_balanced op cl b) \<le> rem b"
  using skip_balanced_le[of op cl b] by simp

lemma parse_declarator_le: "rem (snd (snd (parse_declarator t b))) \<le> rem b"
proof -
  obtain k b1 where s: "stars b = (k, b1)" by (cases "stars b")
  then have 1: "rem (skip_noise b1) \<le> rem b" using stars_le[of b] skip_noise_le[of b1] by simp
  let ?b = "skip_noise b1"
  show ?thesis
  proof (cases "is_p ''('' ?b")
    case True
    then show ?thesis
      using 1 s skip_balanced_le'[of "''(''" "'')''" ?b] skip_balanced_le'[of "''(''" "'')''" "skip_balanced ''('' '')'' ?b"]
      by (auto simp: parse_declarator_def Let_def)
  next
    case False
    let ?c = "if ct_kind (cur_tok ?b) = CT_IDENT then advc ?b else ?b"
    have "rem (snd (brackets (skip_noise ?c))) \<le> rem ?b"
      using brackets_le[of "skip_noise ?c"] skip_noise_le[of ?c] by (auto split: if_splits intro: le_trans)
    then show ?thesis using 1 s False by (auto simp: parse_declarator_def Let_def split: prod.split)
  qed
qed

section \<open>Base types\<close>

record specs =
  n_long :: nat
  n_short :: nat
  n_signed :: nat
  n_unsigned :: nat
  got_char :: bool
  got_float :: bool
  got_double :: bool
  got_void :: bool
  got_bool :: bool
  any_spec :: bool

definition specs0 :: specs where
  "specs0 = \<lparr>n_long = 0, n_short = 0, n_signed = 0, n_unsigned = 0, got_char = False, got_float = False, got_double = False,
     got_void = False, got_bool = False, any_spec = False\<rparr>"

definition spec_word :: "string \<Rightarrow> (specs \<Rightarrow> specs) option" where
  "spec_word s = map_of
     [(''void'', \<lambda>p. p\<lparr>got_void := True\<rparr>), (''_Bool'', \<lambda>p. p\<lparr>got_bool := True\<rparr>), (''char'', \<lambda>p. p\<lparr>got_char := True\<rparr>),
      (''int'', \<lambda>p. p), (''float'', \<lambda>p. p\<lparr>got_float := True\<rparr>), (''double'', \<lambda>p. p\<lparr>got_double := True\<rparr>),
      (''long'', \<lambda>p. p\<lparr>n_long := n_long p + 1\<rparr>), (''short'', \<lambda>p. p\<lparr>n_short := n_short p + 1\<rparr>),
      (''signed'', \<lambda>p. p\<lparr>n_signed := n_signed p + 1\<rparr>), (''__signed__'', \<lambda>p. p\<lparr>n_signed := n_signed p + 1\<rparr>),
      (''unsigned'', \<lambda>p. p\<lparr>n_unsigned := n_unsigned p + 1\<rparr>)] s"

definition spec_base :: "specs \<Rightarrow> cbase" where
  "spec_base p =
     (if got_void p then B_VOID
      else if got_bool p then B_BOOL
      else if got_char p then (if n_unsigned p > 0 then B_UCHAR else if n_signed p > 0 then B_SCHAR else B_CHAR)
      else if got_float p then B_FLOAT
      else if got_double p then (if n_long p > 0 then B_LDOUBLE else B_DOUBLE)
      else if n_short p > 0 then (if n_unsigned p > 0 then B_USHORT else B_SHORT)
      else if n_long p \<ge> 2 then (if n_unsigned p > 0 then B_ULLONG else B_LLONG)
      else if n_long p = 1 then (if n_unsigned p > 0 then B_ULONG else B_LONG)
      else if n_unsigned p > 0 then B_UINT else B_INT)"

text \<open>The end of \<open>parse_base\<close>, after its loop: a combination of specifiers, a typedef name, or nothing.\<close>

definition base_finish :: "specs \<Rightarrow> bgen \<Rightarrow> ctype option \<times> bgen" where
  "base_finish p b =
     (if any_spec p then (Some \<lparr>cy_base = spec_base p, cy_ptr = 0, cy_tag = None\<rparr>, b)
      else if ct_kind (cur_tok b) = CT_IDENT
      then (case find_typedef (ct_s (cur_tok b)) b of Some t \<Rightarrow> (Some t, advc b) | None \<Rightarrow> (None, b))
      else (None, b))"

function to_comma :: "bgen \<Rightarrow> bgen" where
  "to_comma b = (if is_p '','' b \<or> is_p ''}'' b \<or> at_eof b then b else to_comma (advc b))"
  by pat_completeness auto
termination
proof (relation "measure rem", goal_cases)
  case (2 b)
  then show ?case using not_eof_rem[of b] by simp
qed simp

declare to_comma.simps [simp del]

lemma to_comma_le: "rem (to_comma b) \<le> rem b"
proof (induction b rule: to_comma.induct)
  case (1 b)
  then show ?case by (cases "is_p '','' b \<or> is_p ''}'' b \<or> at_eof b") (auto simp: to_comma.simps[of b])
qed

text \<open>The value of an enumerator, after its name: the next value, whether values are known, and the state.\<close>

definition enum_value :: "i64 \<Rightarrow> bool \<Rightarrow> bgen \<Rightarrow> i64 \<times> bool \<times> bgen" where
  "enum_value nxt valid b =
     (if is_p ''='' b
      then (let (neg, b) = eat_p ''-'' (advc b)
            in if ct_kind (cur_tok b) = CT_NUM \<and> ct_is_int (cur_tok b)
               then (let nxt = (if neg then - ct_ival (cur_tok b) else ct_ival (cur_tok b));
                         b = advc b
                     in if is_p '','' b \<or> is_p ''}'' b then (nxt, True, b) else (nxt, False, to_comma b))
               else (nxt, False, to_comma b))
      else (nxt, valid, b))"

lemma enum_value_le: "rem (snd (snd (enum_value nxt valid b))) \<le> rem b"
proof -
  obtain neg b1 where e: "eat_p ''-'' (advc b) = (neg, b1)" by (cases "eat_p ''-'' (advc b)")
  then have "rem b1 \<le> rem b" using rem_eat_p[of "''-''" "advc b"] by simp
  then show ?thesis using e to_comma_le[of b1] to_comma_le[of "advc b1"] by (auto simp: enum_value_def Let_def)
qed

definition push_const :: "string \<Rightarrow> i64 \<Rightarrow> bgen \<Rightarrow> bgen" where
  "push_const nm v b = b\<lparr>b_consts := b_consts b @ [(nm, v)]\<rparr>"

lemma rem_push_const [simp]: "rem (push_const nm v b) = rem b"
  by (simp add: push_const_def)

text \<open>One enumerator that starts with its name.\<close>

definition enumerator :: "i64 \<Rightarrow> bool \<Rightarrow> bgen \<Rightarrow> i64 \<times> bool \<times> bgen" where
  "enumerator nxt valid b =
     (let en = ct_s (cur_tok b);
          (nxt, valid, b) = enum_value nxt valid (advc b);
          b = (if valid \<and> take 1 en \<noteq> ''_'' then push_const en nxt b else b)
      in (nxt + 1, valid, snd (eat_p '','' b)))"

lemma enumerator_less: "0 < rem b \<Longrightarrow> rem (snd (snd (enumerator nxt valid b))) < rem b"
proof -
  assume r: "0 < rem b"
  obtain n v c where e: "enum_value nxt valid (advc b) = (n, v, c)" by (cases "enum_value nxt valid (advc b)") auto
  let ?c = "if v \<and> take 1 (ct_s (cur_tok b)) \<noteq> ''_'' then push_const (ct_s (cur_tok b)) n c else c"
  have "rem (snd (eat_p '','' ?c)) \<le> rem c" using rem_eat_p[of "'',''" ?c] by (auto split: if_splits)
  then show ?thesis using e r enum_value_le[of nxt valid "advc b"] by (simp add: enumerator_def Let_def)
qed

function enum_loop :: "i64 \<Rightarrow> bool \<Rightarrow> bgen \<Rightarrow> bgen" where
  "enum_loop nxt valid b =
     (if is_p ''}'' b \<or> at_eof b then b
      else if ct_kind (cur_tok b) \<noteq> CT_IDENT then enum_loop nxt valid (advc b)
      else (case enumerator nxt valid b of (nxt, valid, b) \<Rightarrow> enum_loop nxt valid b))"
  by pat_completeness auto
termination
proof (relation "measure (\<lambda>(n, v, b). rem b)", goal_cases)
  case (2 nxt valid b)
  then show ?case using not_eof_rem[of b] by simp
next
  case (3 nxt valid b n v b')
  then show ?case using enumerator_less[OF not_eof_rem[of b], of nxt valid] by (auto split: prod.split)
qed simp

declare enum_loop.simps [simp del]

definition enum_spec :: "bgen \<Rightarrow> ctype \<times> bgen" where
  "enum_spec b =
     (let b = skip_noise (advc b);
          (tag, b) = (if ct_kind (cur_tok b) = CT_IDENT then (Some (ct_s (cur_tok b)), advc b) else (None, b));
          b = (if is_p ''{'' b then snd (eat_p ''}'' (enum_loop 0 True (advc b))) else b)
      in (\<lparr>cy_base = B_ENUM, cy_ptr = 0, cy_tag = tag\<rparr>, b))"

text \<open>\<open>struct\<close> and \<open>union\<close>; \<open>body\<close> is \<open>parse_struct_body\<close>. The outer option is empty when the bound on the nesting of the
  model is exceeded.\<close>

definition record_body :: "(nat \<Rightarrow> bgen \<Rightarrow> (bool \<times> bgen) option) \<Rightarrow> bool \<Rightarrow> nat \<Rightarrow> bgen \<Rightarrow> bgen option" where
  "record_body body is_union i b =
     (if is_union
      then Some (upd_struct i (\<lambda>s. s\<lparr>cs_has_body := True\<rparr>)
             (skip_balanced ''{'' ''}'' (upd_struct i (\<lambda>s. s\<lparr>cs_mappable := False\<rparr>) b)))
      else (case body i b of
              None \<Rightarrow> None
            | Some (ok, b) \<Rightarrow> Some (if ok then b else upd_struct i (\<lambda>s. s\<lparr>cs_mappable := False\<rparr>) b)))"

definition record_spec :: "(nat \<Rightarrow> bgen \<Rightarrow> (bool \<times> bgen) option) \<Rightarrow> bgen \<Rightarrow> (ctype \<times> bgen) option" where
  "record_spec body b =
     (let is_union = is_kw ''union'' b;
          base = (if is_union then B_UNION else B_STRUCT);
          b = skip_noise (advc b);
          (sc, b) = (if ct_kind (cur_tok b) = CT_IDENT
                     then (let (i, b) = get_struct (ct_s (cur_tok b)) (advc b) in (Some i, b)) else (None, b))
      in if is_p ''{'' b
         then (let (i, b) = (case sc of Some i \<Rightarrow> (i, b) | None \<Rightarrow> get_struct (''_anon'' @ u64_text (of_nat (b_pos b))) b)
               in case record_body body is_union i b of
                    None \<Rightarrow> None
                  | Some b \<Rightarrow> Some (\<lparr>cy_base = base, cy_ptr = 0, cy_tag = Some (cs_name (b_structs b ! i))\<rparr>, b))
         else Some (\<lparr>cy_base = base, cy_ptr = 0, cy_tag = map_option (\<lambda>i. cs_name (b_structs b ! i)) sc\<rparr>, b))"

function base_loop :: "(nat \<Rightarrow> bgen \<Rightarrow> (bool \<times> bgen) option) \<Rightarrow> specs \<Rightarrow> bgen \<Rightarrow> (ctype option \<times> bgen) option" where
  "base_loop body p b0 =
     (let b = skip_noise b0
      in if is_kw ''const'' b \<or> is_kw ''__const'' b then base_loop body p (advc b)
         else if is_kw ''struct'' b \<or> is_kw ''union'' b then map_option (map_prod Some (\<lambda>x. x)) (record_spec body b)
         else if is_kw ''enum'' b then Some (map_prod Some (\<lambda>x. x) (enum_spec b))
         else if ct_kind (cur_tok b) = CT_IDENT \<and> spec_word (ct_s (cur_tok b)) \<noteq> None
         then base_loop body ((the (spec_word (ct_s (cur_tok b))) p)\<lparr>any_spec := True\<rparr>) (advc b)
         else Some (base_finish p b))"
  by pat_completeness auto
termination
proof (relation "measure (\<lambda>(body, p, b). rem b)", goal_cases)
  case (2 body p b0 b)
  then have "0 < rem (skip_noise b0)" using is_kw_rem by blast
  then show ?case using 2 skip_noise_le[of b0] by simp
next
  case (3 body p b0 b)
  then have "0 < rem (skip_noise b0)" using kind_rem[of "skip_noise b0"] by simp
  then show ?case using 3 skip_noise_le[of b0] by simp
qed simp

declare base_loop.simps [simp del]

section \<open>Struct bodies\<close>

definition field_mappable :: "ctype \<Rightarrow> bool" where
  "field_mappable t \<longleftrightarrow>
     cy_base t = B_FNPTR \<or>
     \<not> (cy_base t = B_LDOUBLE \<or> cy_base t = B_UNION \<or> cy_base t = B_UNKNOWN) \<and> \<not> (cy_ptr t = 0 \<and> cy_base t = B_VOID)"

text \<open>One declarator of a field line, once it is known not to be a bit field.\<close>

definition add_field :: "nat \<Rightarrow> string option \<Rightarrow> ctype \<Rightarrow> bool \<Rightarrow> bgen \<Rightarrow> bool \<times> bgen" where
  "add_field i nm ft ok b =
     (case nm of
        Some f \<Rightarrow> if \<not> field_mappable ft \<or> length (cs_fields (b_structs b ! i)) \<ge> 64 then (False, b)
                  else (ok, upd_struct i (\<lambda>s. s\<lparr>cs_fields := cs_fields s @ [(f, ft)]\<rparr>) b)
      | None \<Rightarrow> (False, b))"

lemma rem_upd_struct [simp]: "rem (upd_struct i f b) = rem b"
  by (simp add: upd_struct_def)

lemma rem_add_field [simp]: "rem (snd (add_field i nm ft ok b)) = rem b"
  by (simp add: add_field_def split: option.split)

text \<open>The declarators of a field line; the second result tells whether a bit field ended the line.\<close>

function field_decls :: "nat \<Rightarrow> ctype \<Rightarrow> bool \<Rightarrow> bgen \<Rightarrow> bool \<times> bool \<times> bgen" where
  "field_decls i base ok b0 =
     (let (nm, ft, b1) = parse_declarator base b0;
          b = skip_noise b1
      in if is_p '':'' b then (False, True, skip_to_semi b)
         else if is_p '','' (snd (add_field i nm ft ok b))
         then field_decls i base (fst (add_field i nm ft ok b)) (advc (snd (add_field i nm ft ok b)))
         else (fst (add_field i nm ft ok b), False, snd (add_field i nm ft ok b)))"
  by pat_completeness auto
termination
proof (relation "measure (\<lambda>(i, t, ok, b). rem b)", goal_cases)
  case (2 i base ok b0 d nm ft' ft b1 b)
  have "0 < rem (snd (add_field i nm ft ok b))" using 2 is_p_rem by blast
  moreover have "rem b1 \<le> rem b0" using parse_declarator_le[of base b0] 2 by (metis snd_conv)
  moreover have "rem b \<le> rem b1" using 2 skip_noise_le by simp
  ultimately show ?case by simp
qed simp

declare field_decls.simps [simp del]

text \<open>The loop over the lines of a body, with \<open>pb\<close> for \<open>parse_base\<close>.\<close>

fun field_lines :: "nat \<Rightarrow> (bgen \<Rightarrow> (ctype option \<times> bgen) option) \<Rightarrow> nat \<Rightarrow> bool \<Rightarrow> bgen \<Rightarrow> (bool \<times> bgen) option" where
  "field_lines 0 pb i ok b = None"
| "field_lines (Suc k) pb i ok b =
     (if is_p ''}'' b \<or> at_eof b then Some (ok, b)
      else (case pb b of
              None \<Rightarrow> None
            | Some (None, b) \<Rightarrow> field_lines k pb i False (skip_to_semi b)
            | Some (Some t, b) \<Rightarrow>
                (let (ok, bitfield, b) = field_decls i t ok b
                 in if bitfield then field_lines k pb i ok b
                    else if is_p '';'' b then field_lines k pb i ok (advc b)
                    else field_lines k pb i False (skip_to_semi b))))"

definition parse_struct_body :: "(bgen \<Rightarrow> (ctype option \<times> bgen) option) \<Rightarrow> nat \<Rightarrow> bgen \<Rightarrow> (bool \<times> bgen) option" where
  "parse_struct_body pb i b =
     (case field_lines (Suc (rem b)) pb i True (upd_struct i (\<lambda>s. s\<lparr>cs_has_body := True\<rparr>) (advc b)) of
        None \<Rightarrow> None
      | Some (ok, b) \<Rightarrow>
          (let b = snd (eat_p ''}'' b)
           in Some (ok, if ok then b else upd_struct i (\<lambda>s. s\<lparr>cs_mappable := False\<rparr>) b)))"

fun parse_base_n :: "nat \<Rightarrow> bgen \<Rightarrow> (ctype option \<times> bgen) option" where
  "parse_base_n 0 b = None"
| "parse_base_n (Suc n) b = base_loop (parse_struct_body (parse_base_n n)) specs0 b"

text \<open>Structs nest at most as deep as there are tokens left.\<close>

definition parse_base :: "bgen \<Rightarrow> (ctype option \<times> bgen) option" where
  "parse_base b = parse_base_n (Suc (rem b)) b"

section \<open>Top-level declarations\<close>

text \<open>A named typedef also names the anonymous struct it stands for.\<close>

definition is_anon :: "string \<Rightarrow> bool" where
  "is_anon s \<longleftrightarrow> take 5 s = ''_anon''"

definition add_typedef :: "string \<Rightarrow> ctype \<Rightarrow> bgen \<Rightarrow> bgen" where
  "add_typedef nm t b =
     (let b = b\<lparr>b_typedefs := (nm, t) # b_typedefs b\<rparr>
      in if cy_base t = B_STRUCT \<and> cy_ptr t = 0
         then (case cy_tag t of
                 None \<Rightarrow> b
               | Some tag \<Rightarrow>
                   (case find_struct tag b of
                      None \<Rightarrow> b
                    | Some i \<Rightarrow> if cs_name (b_structs b ! i) \<noteq> nm \<and> is_anon (cs_name (b_structs b ! i))
                                then upd_struct i (\<lambda>s. s\<lparr>cs_name := nm\<rparr>) b else b))
         else b)"

lemma rem_add_typedef [simp]: "rem (add_typedef nm t b) = rem b"
  by (simp add: add_typedef_def Let_def split: option.split)

function typedef_decls :: "ctype \<Rightarrow> bgen \<Rightarrow> bgen" where
  "typedef_decls base b0 =
     (let (nm, t, b1) = parse_declarator base b0;
          b = (case nm of Some s \<Rightarrow> add_typedef s t b1 | None \<Rightarrow> b1)
      in if is_p '','' b then typedef_decls base (advc b) else b)"
  by pat_completeness auto
termination
proof (relation "measure (\<lambda>(t, b). rem b)", goal_cases)
  case (2 base b0 d nm t' t b1 b)
  have "0 < rem b" using 2 is_p_rem by blast
  moreover have "rem b1 \<le> rem b0" using parse_declarator_le[of base b0] 2 by (metis snd_conv)
  moreover have "rem b = rem b1" using 2 by (simp split: option.split)
  ultimately show ?case by simp
qed simp

declare typedef_decls.simps [simp del]

definition parse_typedef :: "bgen \<Rightarrow> bgen option" where
  "parse_typedef b =
     (case parse_base (advc b) of
        None \<Rightarrow> None
      | Some (None, b) \<Rightarrow> Some (skip_to_semi b)
      | Some (Some t, b) \<Rightarrow> Some (skip_to_semi (typedef_decls t b)))"

text \<open>The parameters of a function: whether it is unusable, the parameters kept, the state, and whether a
  parameter could not be parsed, in which case the state is behind the declaration.\<close>

fun cparams_loop :: "nat \<Rightarrow> string \<Rightarrow> bool \<Rightarrow> (string option \<times> ctype) list \<Rightarrow> bgen \<Rightarrow>
    (bool \<times> (string option \<times> ctype) list \<times> bool \<times> bgen) option" where
  "cparams_loop 0 nm bad ps b = None"
| "cparams_loop (Suc k) nm bad ps b =
     (if is_p '')'' b \<or> at_eof b then Some (bad, ps, False, b)
      else if is_p ''...'' b then cparams_loop k nm True ps (advc (add_skip nm ''varargs'' b))
      else (case parse_base b of
              None \<Rightarrow> None
            | Some (None, b) \<Rightarrow> Some (True, ps, True, skip_to_semi (add_skip nm ''unparsable parameter'' b))
            | Some (Some t, b) \<Rightarrow>
                (let (pn, pt, b) = parse_declarator t b;
                     (bad, ps) = (if length ps < 32 then (bad, ps @ [(pn, pt)]) else (True, ps))
                 in if is_p '','' b then cparams_loop k nm bad ps (advc b) else Some (bad, ps, False, b))))"

definition asm_why :: string where
  "asm_why = ''__asm__ rename: declared name is not the link symbol''"

definition add_fn :: "cfn \<Rightarrow> bgen \<Rightarrow> bgen" where
  "add_fn f b = (if cf_name f \<in> cf_name ` set (b_fns b) then b else b\<lparr>b_fns := b_fns b @ [f]\<rparr>)"

text \<open>A function declaration, from its opening parenthesis on: a lone \<open>void\<close>, the parameters, what follows them.\<close>

definition skip_void :: "bgen \<Rightarrow> bgen" where
  "skip_void b =
     (if is_kw ''void'' b \<and> ct_kind (peek 1 b) = CT_PUNCT \<and> ct_s (peek 1 b) = '')'' then advc b else b)"

definition fn_decl_tail :: "string \<Rightarrow> ctype \<Rightarrow> bool \<Rightarrow> (string option \<times> ctype) list \<Rightarrow> bgen \<Rightarrow> bgen" where
  "fn_decl_tail nm ret bad ps b =
     (let b = skip_noise (snd (eat_p '')'' b))
      in if is_p ''{'' b then skip_balanced ''{'' ''}'' b
         else (let b = skip_to_semi b
               in if saw_asm_rename b then add_skip nm asm_why b
                  else if bad then b
                  else add_fn \<lparr>cf_name = nm, cf_ret = ret, cf_params = ps\<rparr> b))"

definition fn_decl_rest :: "string \<Rightarrow> ctype \<Rightarrow> bgen \<Rightarrow> bgen option" where
  "fn_decl_rest nm ret b =
     (let b = skip_void (advc b)
      in case cparams_loop (Suc (rem b)) nm False [] b of
           None \<Rightarrow> None
         | Some (bad, ps, failed, b) \<Rightarrow> Some (if failed then b else fn_decl_tail nm ret bad ps b))"

text \<open>One round of the loop of \<open>parse_top\<close>.\<close>

definition top_decl :: "bgen \<Rightarrow> bgen option" where
  "top_decl b =
     (let b = skip_noise (b\<lparr>saw_asm_rename := False\<rparr>)
      in if is_p '';'' b then Some (advc b)
         else if is_kw ''typedef'' b then parse_typedef b
         else (case parse_base (skip_noise (eat_kw ''static'' (eat_kw ''extern'' b))) of
                 None \<Rightarrow> None
               | Some (None, b) \<Rightarrow> Some (skip_to_semi b)
               | Some (Some t, b) \<Rightarrow>
                   (let b = skip_noise b
                    in if is_p '';'' b then Some (advc b)
                       else (let (nm, t, b) = parse_declarator t b
                             in case nm of
                                  Some f \<Rightarrow> if is_p ''('' b then fn_decl_rest f t b else Some (skip_to_semi b)
                                | None \<Rightarrow> Some (skip_to_semi b)))))"

fun parse_top :: "nat \<Rightarrow> bgen \<Rightarrow> bgen option" where
  "parse_top 0 b = None"
| "parse_top (Suc k) b = (if at_eof b then Some b else (case top_decl b of None \<Rightarrow> None | Some b \<Rightarrow> parse_top k b))"

section \<open>Integer macros\<close>

definition starts :: "char \<Rightarrow> string \<Rightarrow> bool" where
  "starts c s \<longleftrightarrow> take 1 s = [c]"

definition is_suffix_char :: "char \<Rightarrow> bool" where
  "is_suffix_char c \<longleftrightarrow> c \<in> {CHR ''u'', CHR ''U'', CHR ''l'', CHR ''L''}"

definition is_blank :: "char \<Rightarrow> bool" where
  "is_blank c \<longleftrightarrow> c = CHR '' '' \<or> c = CHR 0x09"

text \<open>The rest of a line after \<open>#define\<close> and a space: the constant it defines, if any, and the text behind it.\<close>

definition define_line :: "string \<Rightarrow> (string \<times> i64) option \<times> string" where
  "define_line p =
     (let ns = takeWhile name_char p;
          q = dropWhile name_char p
      in if ns = [] \<or> starts (CHR ''('') q \<or> starts (CHR ''_'') ns then (None, q)
         else (let q = dropWhile is_blank q;
                   paren = starts (CHR ''('') q;
                   vs = (if paren then tl q else q);
                   ds = (if starts (CHR ''-'') vs then tl vs else vs);
                   q = (if is_hex_prefix ds then dropWhile c_isxdigit (drop 2 ds) else dropWhile c_isdigit ds);
                   got = (length q < length ds);
                   q = dropWhile is_suffix_char q;
                   q = (if paren \<and> starts (CHR '')'') q then tl q else q);
                   q = dropWhile (\<lambda>c. is_blank c \<or> c = CHR 0x0D) q
               in if got \<and> starts (CHR 0x0A) q
                  then (Some (ns, strtoll (take 63 (filter (\<lambda>c. \<not> is_suffix_char c \<and> c \<noteq> CHR '')'') (take (length vs - length q) vs)))), q)
                  else (None, q)))"

lemma dropWhile_le: "length s \<le> n \<Longrightarrow> length (dropWhile P s) \<le> n"
  using length_dropWhile_le[of P s] by simp

lemma shorten_le:
  "length s \<le> n \<Longrightarrow> length (tl s) \<le> n" "length s \<le> n \<Longrightarrow> length (drop k s) \<le> n"
  "length s \<le> n \<Longrightarrow> length t \<le> n \<Longrightarrow> length (if c then s else t) \<le> n"
  by (auto intro: le_trans[OF diff_le_self])

lemma define_line_le: "length (snd (define_line p)) \<le> length p"
  unfolding define_line_def Let_def if_distrib[of snd] snd_conv by (intro shorten_le dropWhile_le order.refl)

function parse_defines :: "string \<Rightarrow> (string \<times> i64) list" where
  "parse_defines p =
     (if p = [] then []
      else let (c, q) = (if take 8 p = ''#define '' then define_line (drop 8 p) else (None, p))
           in (case c of Some x \<Rightarrow> [x] | None \<Rightarrow> []) @ parse_defines (drop 1 (dropWhile (\<lambda>x. x \<noteq> CHR 0x0A) q)))"
  by pat_completeness auto
termination
proof (relation "measure length", goal_cases)
  case (2 p d c q)
  have "(c, q) = (if take 8 p = ''#define '' then define_line (drop 8 p) else (None, p))" using 2 by simp
  then have "q = (if take 8 p = ''#define '' then snd (define_line (drop 8 p)) else p)" by (metis snd_conv)
  then have "length q \<le> length p" using define_line_le[of "drop 8 p"] by (auto split: if_splits)
  then have "length (dropWhile (\<lambda>x. x \<noteq> CHR 0x0A) q) \<le> length p" by (rule dropWhile_le)
  moreover have "0 < length p" using 2(1) by simp
  ultimately have "length (drop 1 (dropWhile (\<lambda>x. x \<noteq> CHR 0x0A) q)) < length p" by (simp del: length_greater_0_conv)
  then show ?case by (simp only: in_measure)
qed simp

declare parse_defines.simps [simp del]

section \<open>The mapping of types\<close>

definition vyto_keywords :: "string list" where
  "vyto_keywords = [
    ''fn'', ''let'', ''const'', ''struct'', ''class'', ''extends'', ''virtual'', ''override'', ''init'',
    ''deinit'', ''new'', ''weak'', ''import'', ''export'', ''from'', ''extern'', ''if'', ''else'', ''while'',
    ''for'', ''in'', ''return'', ''break'', ''continue'', ''true'', ''false'', ''null'', ''this'', ''as'',
    ''super'', ''Map'', ''int'', ''float'', ''bool'', ''byte'', ''string'', ''cstring'', ''rawptr'', ''void'',
    ''i8'', ''i16'', ''i32'', ''i64'', ''u8'', ''u16'', ''u32'', ''u64'', ''f32'', ''f64'', ''print'', ''panic'',
    ''str'', ''len'', ''push'', ''pop'', ''set'', ''get'', ''has'', ''remove'', ''cstr'']"

definition is_vyto_keyword :: "string \<Rightarrow> bool" where
  "is_vyto_keyword s \<longleftrightarrow> s \<in> set vyto_keywords"

definition scalar_type :: "cbase \<Rightarrow> string option" where
  "scalar_type k = map_of
     [(B_BOOL, ''bool''), (B_CHAR, ''i8''), (B_SCHAR, ''i8''), (B_UCHAR, ''u8''), (B_SHORT, ''i16''), (B_USHORT, ''u16''),
      (B_INT, ''i32''), (B_UINT, ''u32''), (B_LONG, ''clong''), (B_ULONG, ''culong''), (B_LLONG, ''i64''), (B_ULLONG, ''u64''),
      (B_FLOAT, ''f32''), (B_DOUBLE, ''f64''), (B_ENUM, ''i32'')] k"

definition vyto_type :: "ctype \<Rightarrow> bool \<Rightarrow> bgen \<Rightarrow> string option \<times> bgen" where
  "vyto_type t is_ret b =
     (if cy_base t = B_FNPTR then (Some ''rawptr'', b)
      else if cy_ptr t > 0
      then (if (cy_base t = B_CHAR \<or> cy_base t = B_SCHAR) \<and> cy_ptr t = 1 then (Some ''cstring'', b) else (Some ''rawptr'', b))
      else if cy_base t = B_VOID then ((if is_ret then Some ''void'' else None), b)
      else if cy_base t = B_STRUCT
      then (case Option.bind (cy_tag t) (\<lambda>tag. find_struct tag b) of
              Some i \<Rightarrow> if cs_has_body (b_structs b ! i) \<and> cs_mappable (b_structs b ! i)
                        then (Some (cs_name (b_structs b ! i)), upd_struct i (\<lambda>s. s\<lparr>cs_value_used := True\<rparr>) b)
                        else (None, b)
            | None \<Rightarrow> (None, b))
      else (scalar_type (cy_base t), b))"

section \<open>Selection and output\<close>

definition pass_filter :: "string list \<Rightarrow> string \<Rightarrow> bool" where
  "pass_filter filters nm \<longleftrightarrow>
     \<not> starts (CHR ''_'') nm \<and>
     (filters = [] \<or>
      list_ex (\<lambda>f. if f \<noteq> [] \<and> last f = CHR ''*'' then take (length f - 1) nm = butlast f else nm = f) filters)"

fun params_ok :: "string \<Rightarrow> (string option \<times> ctype) list \<Rightarrow> bgen \<Rightarrow> bool \<times> bgen" where
  "params_ok nm [] b = (True, b)"
| "params_ok nm (p # ps) b =
     (case vyto_type (snd p) False b of
        (None, b) \<Rightarrow> (False, add_skip nm ''unmappable parameter type'' b)
      | (Some _, b) \<Rightarrow> params_ok nm ps b)"

definition void_params :: "cfn \<Rightarrow> bool" where
  "void_params f \<longleftrightarrow> (case cf_params f of [p] \<Rightarrow> cy_base (snd p) = B_VOID \<and> cy_ptr (snd p) = 0 | _ \<Rightarrow> False)"

definition select_fn :: "string list \<Rightarrow> cfn \<Rightarrow> cfn list \<times> bgen \<Rightarrow> cfn list \<times> bgen" where
  "select_fn filters f = (\<lambda>(sels, b).
     if \<not> pass_filter filters (cf_name f) then (sels, b)
     else if is_vyto_keyword (cf_name f) then (sels, add_skip (cf_name f) ''name is a Vyto keyword'' b)
     else (case vyto_type (cf_ret f) True b of
             (None, b) \<Rightarrow> (sels, add_skip (cf_name f) ''unmappable return type'' b)
           | (Some _, b) \<Rightarrow>
               (let f = (if void_params f then f\<lparr>cf_params := []\<rparr> else f);
                    (ok, b) = params_ok (cf_name f) (cf_params f) b
                in if ok \<and> length sels < 4096 then (sels @ [f], b) else (sels, b))))"

definition select_fns :: "string list \<Rightarrow> bgen \<Rightarrow> cfn list \<times> bgen" where
  "select_fns filters b = fold (select_fn filters) (b_fns b) ([], b)"

definition field_text :: "string \<times> ctype \<Rightarrow> string \<times> bgen \<Rightarrow> string \<times> bgen" where
  "field_text = (\<lambda>(nm, t) (out, b).
     (let (vt, b) = vyto_type t False b
      in (out @ '' '' @ (if is_vyto_keyword nm then nm @ ''_'' else nm) @ '': '' @ (case vt of Some v \<Rightarrow> v | None \<Rightarrow> ''rawptr'') @ '';'', b)))"

definition struct_text :: "nat \<Rightarrow> string \<times> bgen \<Rightarrow> string \<times> bgen" where
  "struct_text i = (\<lambda>(out, b).
     (let s = b_structs b ! i
      in if \<not> cs_value_used s \<or> \<not> cs_mappable s \<or> \<not> cs_has_body s \<or> cs_emitted s then (out, b)
         else if is_vyto_keyword (cs_name s) \<or> starts (CHR ''_'') (cs_name s) then (out, b)
         else (let b = upd_struct i (\<lambda>s. s\<lparr>cs_emitted := True\<rparr>) b;
                   (fs, b) = fold field_text (cs_fields s) ([], b)
               in (out @ ''    struct '' @ cs_name s @ '' {'' @ fs @ '' }'' @ [CHR 0x0A], b))))"

definition structs_text :: "bgen \<Rightarrow> string \<times> bgen" where
  "structs_text b = fold struct_text [0..<length (b_structs b)] ([], b)"

definition param_name :: "nat \<Rightarrow> string option \<Rightarrow> string" where
  "param_name k pn = (case pn of Some nm \<Rightarrow> if is_vyto_keyword nm then CHR ''a'' # u64_text (of_nat k) else nm
     | None \<Rightarrow> CHR ''a'' # u64_text (of_nat k))"

text \<open>A missing type name would be passed to \<open>printf\<close> as NULL: the text is then undefined.\<close>

fun params_text :: "nat \<Rightarrow> (string option \<times> ctype) list \<Rightarrow> bgen \<Rightarrow> string option" where
  "params_text k [] b = Some []"
| "params_text k (p # ps) b =
     (case (fst (vyto_type (snd p) False b), params_text (Suc k) ps b) of
        (Some v, Some rest) \<Rightarrow> Some ((if k = 0 then [] else '', '') @ param_name k (fst p) @ '': '' @ v @ rest)
      | _ \<Rightarrow> None)"

definition fn_text :: "bgen \<Rightarrow> cfn \<Rightarrow> string option" where
  "fn_text b f =
     (case (params_text 0 (cf_params f) b, fst (vyto_type (cf_ret f) True b)) of
        (Some ps, Some rt) \<Rightarrow>
          Some (''    fn '' @ cf_name f @ ''('' @ ps @ (if rt = ''void'' then '')'' else ''): '' @ rt) @ '';'' @ [CHR 0x0A])
      | _ \<Rightarrow> None)"

fun all_text :: "string option list \<Rightarrow> string option" where
  "all_text [] = Some []"
| "all_text (x # xs) = (case (x, all_text xs) of (Some s, Some r) \<Rightarrow> Some (s @ r) | _ \<Rightarrow> None)"

fun first_consts :: "string list \<Rightarrow> (string \<times> i64) list \<Rightarrow> (string \<times> i64) list" where
  "first_consts seen [] = []"
| "first_consts seen (c # cs) = (if fst c \<in> set seen then first_consts seen cs else c # first_consts (fst c # seen) cs)"

definition shown_consts :: "string list \<Rightarrow> (string \<times> i64) list \<Rightarrow> (string \<times> i64) list" where
  "shown_consts filters cs = filter (\<lambda>c. pass_filter filters (fst c) \<and> \<not> is_vyto_keyword (fst c)) (first_consts [] cs)"

definition consts_text :: "string list \<Rightarrow> (string \<times> i64) list \<Rightarrow> string" where
  "consts_text filters cs =
     (let ks = shown_consts filters cs
      in (if ks = [] then [] else [CHR 0x0A]) @
         concat (map (\<lambda>(nm, v). ''const '' @ nm @ '': i64 = '' @ i64_text v @ '';'' @ [CHR 0x0A]) ks))"

definition skips_text :: "string list \<Rightarrow> (string \<times> string) list \<Rightarrow> string" where
  "skips_text filters ks =
     (if ks = [] then []
      else [CHR 0x0A] @ ''// Skipped (not representable in Vyto v0.1):'' @ [CHR 0x0A] @
        concat (map (\<lambda>(nm, why). ''//   '' @ nm @ '' '' @ [CHR 0xE2, CHR 0x80, CHR 0x94] @ '' '' @ why @ [CHR 0x0A])
          (filter (\<lambda>k. pass_filter filters (fst k)) ks)))"

definition bgen0 :: "string \<Rightarrow> bgen" where
  "bgen0 pp = \<lparr>b_rest = tokenize pp, b_pos = 0, b_structs = [], b_fns = [], b_typedefs = [], b_consts = [], b_skips = [],
     saw_asm_rename = False\<rparr>"

text \<open>From the preprocessed header and the list of macros to the state after parsing, and to the text printed after the
  heading.\<close>

definition parse_header :: "string \<Rightarrow> string \<Rightarrow> bgen option" where
  "parse_header pp dm =
     map_option (\<lambda>b. b\<lparr>b_consts := b_consts b @ parse_defines dm\<rparr>) (parse_top (Suc (length (tokenize pp))) (bgen0 pp))"

definition bindings_text :: "string list \<Rightarrow> bgen \<Rightarrow> string option" where
  "bindings_text filters b =
     (let (sels, b) = select_fns filters b;
          (ss, b) = structs_text b
      in map_option (\<lambda>fs. ''extern '' @ [CHR 0x22] @ ''C'' @ [CHR 0x22] @ '' {'' @ [CHR 0x0A] @ ss @ fs @ ''}'' @ [CHR 0x0A] @
             consts_text filters (b_consts b) @ skips_text filters (b_skips b))
           (all_text (map (fn_text b) sels)))"

section \<open>Parsing a header always ends\<close>

text \<open>What holds of the state throughout: no struct has more than 64 fields and no function more than 32 parameters, so the
  fixed arrays are never overrun, and functions and skipped names are listed once.\<close>

definition bgen_inv :: "bgen \<Rightarrow> bool" where
  "bgen_inv b \<longleftrightarrow>
     list_all (\<lambda>s. length (cs_fields s) \<le> 64) (b_structs b) \<and>
     distinct (map cf_name (b_fns b)) \<and> list_all (\<lambda>f. length (cf_params f) \<le> 32) (b_fns b) \<and>
     distinct (map fst (b_skips b))"

text \<open>A step that consumes tokens or none and keeps the invariant.\<close>

definition ev :: "bgen \<Rightarrow> bgen \<Rightarrow> bool" where
  "ev b b' \<longleftrightarrow> rem b' \<le> rem b \<and> (bgen_inv b \<longrightarrow> bgen_inv b')"

named_theorems bind_ev \<open>steps of the generator that keep its invariant\<close>

lemma ev_refl [bind_ev]: "ev b b"
  by (simp add: ev_def)

lemma ev_trans: "ev b c \<Longrightarrow> ev c d \<Longrightarrow> ev b d"
  by (auto simp: ev_def)

lemma ev_rem: "ev b b' \<Longrightarrow> rem b' \<le> rem b"
  by (simp add: ev_def)

lemma bgen_inv_cong:
  "b_structs b' = b_structs b \<Longrightarrow> b_fns b' = b_fns b \<Longrightarrow> b_skips b' = b_skips b \<Longrightarrow> bgen_inv b' \<longleftrightarrow> bgen_inv b"
  by (simp add: bgen_inv_def)

lemma ev_advc [bind_ev]: "ev b (advc b)"
proof -
  have "bgen_inv (advc b) \<longleftrightarrow> bgen_inv b" by (rule bgen_inv_cong) (simp_all add: advc_def split: list.split)
  then show ?thesis by (simp add: ev_def)
qed

lemma ev_if [bind_ev]: "ev b c \<Longrightarrow> ev b d \<Longrightarrow> ev b (if P then c else d)"
  by simp

lemma ev_upd [bind_ev]: "ev b (b\<lparr>saw_asm_rename := x\<rparr>)" "ev b (b\<lparr>b_typedefs := ts\<rparr>)" "ev b (b\<lparr>b_consts := cs\<rparr>)"
  by (simp_all add: ev_def bgen_inv_def)

lemma ev_skip_balanced_from: "ev b (skip_balanced_from d op cl b)"
proof (induction d op cl b rule: skip_balanced_from.induct)
  case (1 depth op cl b)
  then show ?case using ev_trans[OF ev_advc[of b]] ev_advc[of b] by (auto simp: skip_balanced_from.simps[of depth op cl b])
qed

lemma ev_skip_balanced [bind_ev]: "ev b (skip_balanced op cl b)"
  unfolding skip_balanced_def by (rule ev_skip_balanced_from)

lemma ev_skip_to_semi [bind_ev]: "ev b (skip_to_semi b)"
proof (induction b rule: skip_to_semi.induct)
  case (1 b)
  then show ?case
    using ev_trans[OF ev_advc[of b]] ev_trans[OF ev_skip_balanced[of b "''{''" "''}''"]] bind_ev
    by (auto simp: skip_to_semi.simps[of b])
qed

lemma ev_skip_attr: "ev b (skip_attr b)"
  unfolding skip_attr_def Let_def
  by (auto intro!: bind_ev intro: ev_trans[OF ev_advc] ev_trans[OF ev_trans[OF ev_advc ev_skip_balanced]])

lemma ev_skip_noise [bind_ev]: "ev b (skip_noise b)"
proof (induction b rule: skip_noise.induct)
  case (1 b)
  then show ?case
    using ev_trans[OF ev_advc[of b]] ev_trans[OF ev_skip_attr[of b]] ev_refl by (auto simp: skip_noise.simps[of b])
qed

lemma ev_eat [bind_ev]: "ev b (snd (eat_p s b))" "ev b (eat_kw s b)"
  by (simp_all add: eat_p_def eat_kw_def bind_ev)

lemma ev_stars [bind_ev]: "ev b (snd (stars b))"
proof (induction b rule: stars.induct)
  case (1 b)
  let ?b = "eat_kw ''const'' (advc (skip_noise b))"
  have "ev b ?b" by (rule ev_trans[OF ev_skip_noise ev_trans[OF ev_advc ev_eat(2)]])
  then show ?case using 1 ev_trans[of b ?b] ev_skip_noise[of b]
    by (cases "is_p ''*'' (skip_noise b)") (auto simp: stars.simps[of b] split: prod.split)
qed

lemma ev_brackets [bind_ev]: "ev b (snd (brackets b))"
proof (induction b rule: brackets.induct)
  case (1 b)
  then show ?case using ev_trans[OF ev_skip_balanced[of b "''[''" "'']''"]] ev_refl[of b]
    by (cases "is_p ''['' b") (auto simp: brackets.simps[of b] split: prod.split)
qed

lemma ev_parse_declarator [bind_ev]: "ev b (snd (snd (parse_declarator t b)))"
proof -
  obtain k b1 where s: "stars b = (k, b1)" by (cases "stars b")
  let ?b = "skip_noise b1"
  have 1: "ev b ?b" using ev_stars[of b] ev_trans[OF _ ev_skip_noise] s by simp
  show ?thesis
  proof (cases "is_p ''('' ?b")
    case True
    have "ev ?b (skip_balanced ''('' '')'' ?b)" "ev ?b (skip_balanced ''('' '')'' (skip_balanced ''('' '')'' ?b))"
      by (rule ev_skip_balanced ev_trans[OF ev_skip_balanced ev_skip_balanced])+
    then show ?thesis using 1 s True ev_trans by (auto simp: parse_declarator_def Let_def)
  next
    case False
    let ?c = "if ct_kind (cur_tok ?b) = CT_IDENT then advc ?b else ?b"
    have "ev ?b (snd (brackets (skip_noise ?c)))"
      by (rule ev_trans[OF _ ev_trans[OF ev_skip_noise ev_brackets]]) (intro bind_ev)
    then show ?thesis using ev_trans[OF 1] s False by (auto simp: parse_declarator_def Let_def split: prod.split)
  qed
qed

lemma ev_parse_declarator_eq: "parse_declarator t b = (nm, t', b') \<Longrightarrow> ev b b'"
  using ev_parse_declarator[of b t] by simp

lemma ev_to_comma [bind_ev]: "ev b (to_comma b)"
proof (induction b rule: to_comma.induct)
  case (1 b)
  then show ?case using ev_trans[OF ev_advc[of b]] ev_refl[of b]
    by (cases "is_p '','' b \<or> is_p ''}'' b \<or> at_eof b") (auto simp: to_comma.simps[of b])
qed

lemma ev_enum_value: "ev b (snd (snd (enum_value nxt valid b)))"
proof -
  obtain neg b1 where e: "eat_p ''-'' (advc b) = (neg, b1)" by (cases "eat_p ''-'' (advc b)")
  then have 1: "ev b b1" using ev_trans[OF ev_advc ev_eat(1), of b "''-''"] by simp
  have "ev b (advc b1)" "ev b (to_comma b1)" "ev b (to_comma (advc b1))"
    using ev_trans[OF 1 ev_advc] ev_trans[OF 1 ev_to_comma] ev_trans[OF 1 ev_trans[OF ev_advc ev_to_comma]] by simp_all
  then show ?thesis using e ev_refl[of b] by (auto simp: enum_value_def Let_def)
qed

lemma ev_push_const [bind_ev]: "ev b (push_const nm v b)"
  by (simp add: push_const_def bind_ev)

lemma ev_enumerator: "ev b (snd (snd (enumerator nxt valid b)))"
proof -
  obtain n v c where e: "enum_value nxt valid (advc b) = (n, v, c)" by (cases "enum_value nxt valid (advc b)") auto
  let ?c = "if v \<and> take 1 (ct_s (cur_tok b)) \<noteq> ''_'' then push_const (ct_s (cur_tok b)) n c else c"
  have "ev b c" using ev_trans[OF ev_advc ev_enum_value, of b nxt valid] e by simp
  moreover have "ev c (snd (eat_p '','' ?c))" by (rule ev_trans[OF _ ev_eat(1)]) (intro bind_ev)
  ultimately have "ev b (snd (eat_p '','' ?c))" by (rule ev_trans)
  moreover have "snd (snd (enumerator nxt valid b)) = snd (eat_p '','' ?c)" by (simp add: enumerator_def Let_def e)
  ultimately show ?thesis by simp
qed

lemma ev_enum_loop: "ev b (enum_loop nxt valid b)"
proof (induction nxt valid b rule: enum_loop.induct)
  case (1 nxt valid b)
  show ?case
  proof (cases "is_p ''}'' b \<or> at_eof b")
    case True
    then show ?thesis using ev_refl by (simp add: enum_loop.simps[of nxt valid b])
  next
    case go: False
    show ?thesis
    proof (cases "ct_kind (cur_tok b) = CT_IDENT")
      case True
      obtain n v c where e: "enumerator nxt valid b = (n, v, c)" by (cases "enumerator nxt valid b") auto
      have "ev c (enum_loop n v c)" using "1.IH"(2)[OF go] True e by simp
      then show ?thesis using go True e ev_trans ev_enumerator[of b nxt valid] by (simp add: enum_loop.simps[of nxt valid b])
    next
      case False
      then show ?thesis using "1.IH"(1)[OF go False] ev_trans[OF ev_advc] go by (simp add: enum_loop.simps[of nxt valid b])
    qed
  qed
qed

lemma ev_enum_spec: "ev (advc b) (snd (enum_spec b))"
proof -
  let ?b = "skip_noise (advc b)"
  let ?c = "if ct_kind (cur_tok ?b) = CT_IDENT then advc ?b else ?b"
  let ?d = "if is_p ''{'' ?c then snd (eat_p ''}'' (enum_loop 0 True (advc ?c))) else ?c"
  have "ev ?c (snd (eat_p ''}'' (enum_loop 0 True (advc ?c))))"
    by (rule ev_trans[OF ev_advc ev_trans[OF ev_enum_loop ev_eat(1)]])
  then have "ev ?c ?d" using ev_refl by simp
  moreover have "ev (advc b) ?c" by (rule ev_trans[OF ev_skip_noise]) (intro bind_ev)
  ultimately have "ev (advc b) ?d" using ev_trans by blast
  moreover have "snd (enum_spec b) = ?d" by (cases "ct_kind (cur_tok ?b) = CT_IDENT") (simp_all add: enum_spec_def Let_def)
  ultimately show ?thesis by simp
qed

lemma ev_upd_struct:
  assumes "\<And>s. length (cs_fields s) \<le> 64 \<Longrightarrow> length (cs_fields (f s)) \<le> 64 \<or> s \<noteq> b_structs b ! i"
  shows "ev b (upd_struct i f b)"
proof -
  have "list_all (\<lambda>s. length (cs_fields s) \<le> 64) ((b_structs b)[i := f (b_structs b ! i)])"
    if "list_all (\<lambda>s. length (cs_fields s) \<le> 64) (b_structs b)"
  proof (cases "i < length (b_structs b)")
    case True
    then have "length (cs_fields (f (b_structs b ! i))) \<le> 64" using that assms[of "b_structs b ! i"] by (simp add: list_all_length)
    then show ?thesis using that True by (simp add: list_all_length nth_list_update)
  next
    case False
    then show ?thesis using that by (simp add: list_update_beyond)
  qed
  then show ?thesis by (simp add: ev_def bgen_inv_def upd_struct_def rem_def)
qed

lemma ev_flags [bind_ev]:
  "ev b (upd_struct i (\<lambda>s. s\<lparr>cs_has_body := x\<rparr>) b)" "ev b (upd_struct i (\<lambda>s. s\<lparr>cs_mappable := x\<rparr>) b)"
  "ev b (upd_struct i (\<lambda>s. s\<lparr>cs_name := nm\<rparr>) b)"
  by (rule ev_upd_struct; simp)+

lemma ev_add_field [bind_ev]: "ev b (snd (add_field i nm ft ok b))"
proof -
  have "ev b (upd_struct i (\<lambda>s. s\<lparr>cs_fields := cs_fields s @ [(f, ft)]\<rparr>) b)" if "length (cs_fields (b_structs b ! i)) < 64" for f
    by (rule ev_upd_struct) (use that in auto)
  then show ?thesis using ev_refl by (auto simp: add_field_def split: option.split)
qed

lemma ev_get_struct [bind_ev]: "ev b (snd (get_struct nm b))"
  by (simp add: get_struct_def ev_def bgen_inv_def rem_def split: option.split)

lemma ev_add_skip [bind_ev]: "ev b (add_skip nm why b)"
  by (auto simp: add_skip_def ev_def bgen_inv_def rem_def)

lemma ev_add_fn: "length (cf_params f) \<le> 32 \<Longrightarrow> ev b (add_fn f b)"
  by (auto simp: add_fn_def ev_def bgen_inv_def rem_def)

lemma ev_add_typedef [bind_ev]: "ev b (add_typedef nm t b)"
proof -
  let ?b = "b\<lparr>b_typedefs := (nm, t) # b_typedefs b\<rparr>"
  have "ev b ?b" "ev b (upd_struct i (\<lambda>s. s\<lparr>cs_name := nm\<rparr>) ?b)" for i
    using ev_trans[OF ev_upd(2) ev_flags(3)] by (auto intro: bind_ev)
  then show ?thesis by (auto simp: add_typedef_def Let_def split: option.split)
qed

definition body_ok :: "nat \<Rightarrow> (nat \<Rightarrow> bgen \<Rightarrow> (bool \<times> bgen) option) \<Rightarrow> bool" where
  "body_ok N body \<longleftrightarrow> (\<forall>i b. rem b < N \<longrightarrow> (\<exists>ok b'. body i b = Some (ok, b') \<and> ev b b'))"

definition base_ok :: "nat \<Rightarrow> (bgen \<Rightarrow> (ctype option \<times> bgen) option) \<Rightarrow> bool" where
  "base_ok N pb \<longleftrightarrow> (\<forall>b. rem b < N \<longrightarrow> (\<exists>t b'. pb b = Some (t, b') \<and> ev b b' \<and> (t \<noteq> None \<longrightarrow> rem b' < rem b)))"

lemma record_body_ok:
  assumes "body_ok N body" "rem b < N"
  shows "\<exists>b'. record_body body u i b = Some b' \<and> ev b b'"
proof (cases u)
  case True
  let ?b = "upd_struct i (\<lambda>s. s\<lparr>cs_mappable := False\<rparr>) b"
  have "ev b (upd_struct i (\<lambda>s. s\<lparr>cs_has_body := True\<rparr>) (skip_balanced ''{'' ''}'' ?b))"
    by (rule ev_trans[OF ev_flags(2) ev_trans[OF ev_skip_balanced ev_flags(1)]])
  then show ?thesis using True by (simp add: record_body_def)
next
  case False
  obtain ok b' where "body i b = Some (ok, b')" "ev b b'" using assms unfolding body_ok_def by blast
  then show ?thesis using False ev_trans[OF _ ev_flags(2)] by (auto simp: record_body_def)
qed

lemma record_spec_ok:
  assumes "body_ok N body" "rem b \<le> N" "0 < rem b"
  shows "\<exists>t b'. record_spec body b = Some (t, b') \<and> ev (advc b) b'"
proof -
  let ?b = "skip_noise (advc b)"
  obtain sc c where c: "(if ct_kind (cur_tok ?b) = CT_IDENT
      then (let (i, b) = get_struct (ct_s (cur_tok ?b)) (advc ?b) in (Some i, b)) else (None, ?b)) = (sc, c)"
    by fastforce
  have "ev ?b c" using c ev_refl[of ?b] ev_trans[OF ev_advc ev_get_struct, of ?b "ct_s (cur_tok ?b)"]
    by (auto simp: Let_def split: if_splits prod.splits)
  then have e: "ev (advc b) c" using ev_trans[OF ev_skip_noise] by blast
  show ?thesis
  proof (cases "is_p ''{'' c")
    case True
    obtain i d where d: "(case sc of Some i \<Rightarrow> (i, c) | None \<Rightarrow> get_struct (''_anon'' @ u64_text (of_nat (b_pos c))) c) = (i, d)"
      by fastforce
    have "ev c d" using d ev_refl[of c] ev_get_struct[of c "''_anon'' @ u64_text (of_nat (b_pos c))"] by (auto split: option.splits)
    then have ed: "ev (advc b) d" using e ev_trans by blast
    then have "rem d < N" using ev_rem[OF ed] assms(2,3) by simp
    then obtain b' where "record_body body (is_kw ''union'' b) i d = Some b'" "ev d b'" using record_body_ok[OF assms(1)] by blast
    then show ?thesis using True c d ev_trans[OF ed] by (auto simp: record_spec_def Let_def)
  next
    case False
    then show ?thesis using c e by (auto simp: record_spec_def Let_def)
  qed
qed

lemma base_finish_ok: "base_finish p b = (t, b') \<Longrightarrow> ev b b' \<and> (t \<noteq> None \<longrightarrow> any_spec p \<or> rem b' < rem b)"
  using ev_refl[of b] ev_advc[of b] kind_rem[of b] by (auto simp: base_finish_def split: if_splits option.splits)

lemma base_loop_ok:
  "body_ok N body \<Longrightarrow> rem b \<le> N \<Longrightarrow>
   \<exists>t b'. base_loop body p b = Some (t, b') \<and> ev b b' \<and> (t \<noteq> None \<longrightarrow> any_spec p \<or> rem b' < rem b)"
proof (induction body p b rule: base_loop.induct)
  case (1 body p b0)
  let ?b = "skip_noise b0" and ?w = "ct_s (cur_tok (skip_noise b0))"
  have n: "rem ?b \<le> N" "ev b0 ?b" "rem ?b \<le> rem b0" using 1(4) skip_noise_le[of b0] ev_skip_noise by auto
  have step: "ev b0 b' \<and> rem b' < rem b0" if "ev (advc ?b) b'" "0 < rem ?b" for b'
    using that ev_trans[OF n(2) ev_trans[OF ev_advc that(1)]] ev_rem[OF that(1)] n(3) by simp
  consider (const) "is_kw ''const'' ?b \<or> is_kw ''__const'' ?b"
    | (rec) "\<not> (is_kw ''const'' ?b \<or> is_kw ''__const'' ?b)" "is_kw ''struct'' ?b \<or> is_kw ''union'' ?b"
    | (enum) "\<not> (is_kw ''const'' ?b \<or> is_kw ''__const'' ?b)" "\<not> (is_kw ''struct'' ?b \<or> is_kw ''union'' ?b)" "is_kw ''enum'' ?b"
    | (word) "\<not> (is_kw ''const'' ?b \<or> is_kw ''__const'' ?b)" "\<not> (is_kw ''struct'' ?b \<or> is_kw ''union'' ?b)" "\<not> is_kw ''enum'' ?b"
        "ct_kind (cur_tok ?b) = CT_IDENT \<and> spec_word ?w \<noteq> None"
    | (fin) "\<not> (is_kw ''const'' ?b \<or> is_kw ''__const'' ?b)" "\<not> (is_kw ''struct'' ?b \<or> is_kw ''union'' ?b)" "\<not> is_kw ''enum'' ?b"
        "\<not> (ct_kind (cur_tok ?b) = CT_IDENT \<and> spec_word ?w \<noteq> None)" by blast
  then show ?case
  proof cases
    case const
    have r: "0 < rem ?b" using const is_kw_rem by blast
    have "\<exists>t b'. base_loop body p (advc ?b) = Some (t, b') \<and> ev (advc ?b) b' \<and> (t \<noteq> None \<longrightarrow> any_spec p \<or> rem b' < rem (advc ?b))"
      by (rule 1(1)[OF refl const 1(3)]) (use n in simp)
    then obtain t b' where "base_loop body p (advc ?b) = Some (t, b')" "ev (advc ?b) b'" by blast
    then show ?thesis using step[OF _ r] const by (simp add: base_loop.simps[of body p b0] Let_def)
  next
    case rec
    then have r: "0 < rem ?b" using is_kw_rem by blast
    obtain t b' where "record_spec body ?b = Some (t, b')" "ev (advc ?b) b'" using record_spec_ok[OF 1(3) n(1) r] by blast
    then show ?thesis using step[OF _ r] rec by (simp add: base_loop.simps[of body p b0] Let_def)
  next
    case enum
    obtain t b' where e: "enum_spec ?b = (t, b')" by (cases "enum_spec ?b")
    then have "ev (advc ?b) b'" using ev_enum_spec[of ?b] by simp
    then show ?thesis using step[OF _ is_kw_rem[OF enum(3)]] enum e by (simp add: base_loop.simps[of body p b0] Let_def)
  next
    case word
    have r: "0 < rem ?b" using word(4) kind_rem[of ?b] by simp
    let ?p = "(the (spec_word ?w) p)\<lparr>any_spec := True\<rparr>"
    have "\<exists>t b'. base_loop body ?p (advc ?b) = Some (t, b') \<and> ev (advc ?b) b' \<and> (t \<noteq> None \<longrightarrow> any_spec ?p \<or> rem b' < rem (advc ?b))"
      by (rule 1(2)[OF refl word 1(3)]) (use n in simp)
    then obtain t b' where "base_loop body ?p (advc ?b) = Some (t, b')" "ev (advc ?b) b'" by blast
    then show ?thesis using step[OF _ r] word by (simp add: base_loop.simps[of body p b0] Let_def)
  next
    case fin
    obtain t b' where e: "base_finish p ?b = (t, b')" by (cases "base_finish p ?b")
    have "ev b0 b' \<and> (t \<noteq> None \<longrightarrow> any_spec p \<or> rem b' < rem b0)" using base_finish_ok[OF e] n(3) ev_trans[OF n(2)] by auto
    moreover have "base_loop body p b0 = Some (t, b')" using fin e by (auto simp: base_loop.simps[of body p b0] Let_def)
    ultimately show ?thesis by blast
  qed
qed

lemma ev_field_decls: "ev b (snd (snd (field_decls i t ok b)))"
proof (induction i t ok b rule: field_decls.induct)
  case (1 i base ok b0)
  obtain nm ft b1 where d: "parse_declarator base b0 = (nm, ft, b1)" by (cases "parse_declarator base b0") auto
  let ?b = "skip_noise b1"
  let ?c = "snd (add_field i nm ft ok ?b)"
  have 1: "ev b0 ?b" by (rule ev_trans[OF ev_parse_declarator_eq[OF d] ev_skip_noise])
  have c: "ev b0 ?c" by (rule ev_trans[OF 1 ev_add_field])
  show ?case
  proof (cases "is_p '':'' ?b")
    case True
    then show ?thesis using d ev_trans[OF 1 ev_skip_to_semi] by (simp add: field_decls.simps[of i base ok b0] Let_def)
  next
    case nb: False
    show ?thesis
    proof (cases "is_p '','' ?c")
      case True
      have "ev (advc ?c) (snd (snd (field_decls i base (fst (add_field i nm ft ok ?b)) (advc ?c))))"
        by (rule "1.IH"[OF d[symmetric] refl refl refl nb True])
      then show ?thesis using d nb True ev_trans[OF c ev_trans[OF ev_advc]] by (simp add: field_decls.simps[of i base ok b0] Let_def)
    next
      case False
      then show ?thesis using d nb c by (simp add: field_decls.simps[of i base ok b0] Let_def)
    qed
  qed
qed

lemma field_lines_ok:
  "base_ok N pb \<Longrightarrow> rem b < k \<Longrightarrow> rem b < N \<Longrightarrow> \<exists>ok' b'. field_lines k pb i ok b = Some (ok', b') \<and> ev b b'"
proof (induction k arbitrary: ok b)
  case (Suc k)
  show ?case
  proof (cases "is_p ''}'' b \<or> at_eof b")
    case True
    then show ?thesis using ev_refl by simp
  next
    case go: False
    obtain t b1 where p: "pb b = Some (t, b1)" "ev b b1" "t \<noteq> None \<Longrightarrow> rem b1 < rem b"
      using Suc.prems unfolding base_ok_def by blast
    have next_line: "\<exists>ok' b'. field_lines k pb i ok2 b2 = Some (ok', b') \<and> ev b b'" if "ev b b2" "rem b2 < rem b" for ok2 b2
    proof -
      have "\<exists>ok' b'. field_lines k pb i ok2 b2 = Some (ok', b') \<and> ev b2 b'"
        by (rule Suc.IH[OF Suc.prems(1)]) (use that Suc.prems in auto)
      then show ?thesis using ev_trans[OF that(1)] by blast
    qed
    show ?thesis
    proof (cases t)
      case None
      have "rem (skip_to_semi b1) < rem b"
        using skip_to_semi_less[of b1] skip_to_semi_le[of b1] ev_rem[OF p(2)] go by (cases "at_eof b1") (auto simp: at_eof_rem)
      then show ?thesis using next_line[OF ev_trans[OF p(2) ev_skip_to_semi]] go p(1) None by simp
    next
      case (Some ty)
      obtain ok2 bf c where f: "field_decls i ty ok b1 = (ok2, bf, c)" by (cases "field_decls i ty ok b1") auto
      have c: "ev b c" using ev_trans[OF p(2) ev_field_decls[of b1 i ty ok]] f by simp
      have "rem c < rem b" using ev_rem[OF ev_field_decls[of b1 i ty ok]] f p(3) Some by simp
      then have "rem (advc c) < rem b" "rem (skip_to_semi c) < rem b" using skip_to_semi_le[of c] by simp_all
      then show ?thesis
        using next_line[OF c \<open>rem c < rem b\<close>] next_line[OF ev_trans[OF c ev_advc]] next_line[OF ev_trans[OF c ev_skip_to_semi]]
          go p(1) Some f by simp
    qed
  qed
qed simp

lemma parse_struct_body_ok:
  assumes "base_ok N pb"
  shows "body_ok N (parse_struct_body pb)"
  unfolding body_ok_def
proof (intro allI impI)
  fix i b assume r: "rem b < N"
  let ?b = "upd_struct i (\<lambda>s. s\<lparr>cs_has_body := True\<rparr>) (advc b)"
  have e: "ev b ?b" by (rule ev_trans[OF ev_advc ev_flags(1)])
  obtain ok c where f: "field_lines (Suc (rem b)) pb i True ?b = Some (ok, c)" "ev ?b c"
    using field_lines_ok[OF assms, of ?b "Suc (rem b)" i True] less_Suc_eq_le less_imp_diff_less[OF r] by (simp del: field_lines.simps) blast
  have c: "ev b (snd (eat_p ''}'' c))" by (rule ev_trans[OF e ev_trans[OF f(2) ev_eat(1)]])
  then show "\<exists>ok b'. parse_struct_body pb i b = Some (ok, b') \<and> ev b b'"
    using f(1) ev_trans[OF c ev_flags(2)] by (auto simp: parse_struct_body_def Let_def)
qed

lemma base_ok_mono: "base_ok N pb \<Longrightarrow> M \<le> N \<Longrightarrow> base_ok M pb"
  unfolding base_ok_def by auto

lemma parse_base_n_ok: "base_ok n (parse_base_n n)"
proof (induction n)
  case (Suc n)
  show ?case unfolding base_ok_def
  proof (intro allI impI)
    fix b assume "rem b < Suc n"
    then show "\<exists>t b'. parse_base_n (Suc n) b = Some (t, b') \<and> ev b b' \<and> (t \<noteq> None \<longrightarrow> rem b' < rem b)"
      using base_loop_ok[OF parse_struct_body_ok[OF Suc.IH], of b specs0] by (auto simp: specs0_def)
  qed
qed (simp add: base_ok_def)

lemma parse_base_ok: "\<exists>t b'. parse_base b = Some (t, b') \<and> ev b b' \<and> (t \<noteq> None \<longrightarrow> rem b' < rem b)"
  using parse_base_n_ok[of "Suc (rem b)"] unfolding base_ok_def parse_base_def by blast

lemma ev_typedef_decls: "ev b (typedef_decls t b)"
proof (induction t b rule: typedef_decls.induct)
  case (1 base b0)
  obtain nm t b1 where d: "parse_declarator base b0 = (nm, t, b1)" by (cases "parse_declarator base b0") auto
  let ?b = "case nm of Some s \<Rightarrow> add_typedef s t b1 | None \<Rightarrow> b1"
  have "ev b1 ?b" by (cases nm) (simp_all add: bind_ev)
  then have b: "ev b0 ?b" by (rule ev_trans[OF ev_parse_declarator_eq[OF d]])
  show ?case
  proof (cases "is_p '','' ?b")
    case True
    have "ev (advc ?b) (typedef_decls base (advc ?b))" by (rule 1[OF d[symmetric] refl refl refl True])
    then show ?thesis using d True ev_trans[OF b ev_trans[OF ev_advc]] by (simp add: typedef_decls.simps[of base b0] Let_def)
  next
    case False
    then show ?thesis using d b by (simp add: typedef_decls.simps[of base b0] Let_def)
  qed
qed

lemma parse_typedef_ok: "\<exists>b'. parse_typedef b = Some b' \<and> ev (advc b) b'"
proof -
  obtain t c where p: "parse_base (advc b) = Some (t, c)" "ev (advc b) c" using parse_base_ok by blast
  show ?thesis
  proof (cases t)
    case None
    then show ?thesis using p ev_trans[OF p(2) ev_skip_to_semi] by (simp add: parse_typedef_def)
  next
    case (Some ty)
    then show ?thesis using p ev_trans[OF p(2) ev_trans[OF ev_typedef_decls ev_skip_to_semi]] by (simp add: parse_typedef_def)
  qed
qed

lemma cparams_loop_ok:
  "rem b < k \<Longrightarrow> length ps \<le> 32 \<Longrightarrow>
   \<exists>bad' ps' failed b'. cparams_loop k nm bad ps b = Some (bad', ps', failed, b') \<and> ev b b' \<and> length ps' \<le> 32"
proof (induction k arbitrary: bad ps b)
  case (Suc k)
  have more: "\<exists>bad' ps' failed b'. cparams_loop k nm bad2 ps2 b2 = Some (bad', ps', failed, b') \<and> ev b b' \<and> length ps' \<le> 32"
    if "ev b b2" "rem b2 < rem b" "length ps2 \<le> 32" for bad2 ps2 b2
  proof -
    have "\<exists>bad' ps' failed b'. cparams_loop k nm bad2 ps2 b2 = Some (bad', ps', failed, b') \<and> ev b2 b' \<and> length ps' \<le> 32"
      by (rule Suc.IH) (use that Suc.prems in auto)
    then show ?thesis using ev_trans[OF that(1)] by blast
  qed
  consider "is_p '')'' b \<or> at_eof b" | "\<not> (is_p '')'' b \<or> at_eof b)" "is_p ''...'' b" | "\<not> (is_p '')'' b \<or> at_eof b)" "\<not> is_p ''...'' b" by blast
  then show ?case
  proof cases
    case 1
    then show ?thesis using ev_refl Suc.prems by (simp add: ex_bool_eq)
  next
    case 2
    let ?b = "advc (add_skip nm ''varargs'' b)"
    have "rem ?b < rem b" using is_p_rem[OF 2(2)] ev_rem[OF ev_add_skip[of b nm "''varargs''"]] by simp
    then show ?thesis using more[OF ev_trans[OF ev_add_skip ev_advc]] 2 Suc.prems by simp
  next
    case 3
    obtain t c where p: "parse_base b = Some (t, c)" "ev b c" "t \<noteq> None \<Longrightarrow> rem c < rem b" using parse_base_ok by blast
    show ?thesis
    proof (cases t)
      case None
      then show ?thesis using p 3 Suc.prems ev_trans[OF p(2) ev_trans[OF ev_add_skip ev_skip_to_semi]] by (simp add: ex_bool_eq)
    next
      case (Some ty)
      obtain pn pt d where q: "parse_declarator ty c = (pn, pt, d)" by (cases "parse_declarator ty c") auto
      have d: "ev b d" by (rule ev_trans[OF p(2) ev_parse_declarator_eq[OF q]])
      have r: "rem (advc d) < rem b" using ev_rem[OF ev_parse_declarator_eq[OF q]] p(3) Some by simp
      show ?thesis using p(1) 3 Some q d Suc.prems(2) more[OF ev_trans[OF d ev_advc] r] by (simp add: ex_bool_eq)
    qed
  qed
qed simp

lemma ev_fn_decl_tail: "length ps \<le> 32 \<Longrightarrow> ev b (fn_decl_tail nm ret bad ps b)"
proof -
  assume ps: "length ps \<le> 32"
  let ?c = "skip_noise (snd (eat_p '')'' b))"
  have c: "ev b ?c" by (rule ev_trans[OF ev_eat(1) ev_skip_noise])
  have d: "ev b (skip_to_semi ?c)" by (rule ev_trans[OF c ev_skip_to_semi])
  have "ev b (add_skip nm asm_why (skip_to_semi ?c))" by (rule ev_trans[OF d ev_add_skip])
  moreover have "ev b (add_fn \<lparr>cf_name = nm, cf_ret = ret, cf_params = ps\<rparr> (skip_to_semi ?c))"
    by (rule ev_trans[OF d ev_add_fn]) (simp add: ps)
  ultimately show ?thesis using d ev_trans[OF c ev_skip_balanced] unfolding fn_decl_tail_def Let_def by (intro ev_if)
qed

lemma fn_decl_rest_ok: "\<exists>b'. fn_decl_rest nm ret b = Some b' \<and> ev b b'"
proof -
  let ?b = "skip_void (advc b)"
  have "ev (advc b) ?b" unfolding skip_void_def by (intro bind_ev)
  then have e: "ev b ?b" by (rule ev_trans[OF ev_advc])
  obtain bad ps failed c where l: "cparams_loop (Suc (rem ?b)) nm False [] ?b = Some (bad, ps, failed, c)" "ev ?b c" "length ps \<le> 32"
    using cparams_loop_ok[of ?b "Suc (rem ?b)" "[]" nm False] by (simp del: cparams_loop.simps) blast
  have "ev b c" by (rule ev_trans[OF e l(2)])
  then have "ev b (if failed then c else fn_decl_tail nm ret bad ps c)"
    using ev_trans[OF _ ev_fn_decl_tail[OF l(3)]] by simp
  then show ?thesis using l(1) by (simp add: fn_decl_rest_def Let_def del: cparams_loop.simps)
qed

lemma top_decl_ok:
  assumes "\<not> at_eof b"
  shows "\<exists>b'. top_decl b = Some b' \<and> ev b b' \<and> rem b' < rem b"
proof -
  let ?b = "skip_noise (b\<lparr>saw_asm_rename := False\<rparr>)"
  have b: "ev b ?b" by (rule ev_trans[OF ev_upd(1) ev_skip_noise])
  have step: "\<exists>b'. r = Some b' \<and> ev b b' \<and> rem b' < rem b" if "r = Some c" "ev (advc ?b) c" "0 < rem ?b" for r c
    using that ev_trans[OF b ev_trans[OF ev_advc that(2)]] ev_rem[OF that(2)] ev_rem[OF b] by simp
  consider "is_p '';'' ?b" | "\<not> is_p '';'' ?b" "is_kw ''typedef'' ?b" | "\<not> is_p '';'' ?b" "\<not> is_kw ''typedef'' ?b" by blast
  then show ?thesis
  proof cases
    case 1
    then show ?thesis using step[OF _ ev_refl is_p_rem[OF 1]] by (simp add: top_decl_def Let_def)
  next
    case 2
    then show ?thesis using parse_typedef_ok[of ?b] step is_kw_rem by (simp add: top_decl_def Let_def) blast
  next
    case 3
    let ?c = "skip_noise (eat_kw ''static'' (eat_kw ''extern'' ?b))"
    have c: "ev b ?c" by (rule ev_trans[OF b ev_trans[OF ev_eat(2) ev_trans[OF ev_eat(2) ev_skip_noise]]])
    obtain t d where p: "parse_base ?c = Some (t, d)" "ev ?c d" "t \<noteq> None \<Longrightarrow> rem d < rem ?c" using parse_base_ok by blast
    have d: "ev b d" by (rule ev_trans[OF c p(2)])
    show ?thesis
    proof (cases t)
      case None
      have "rem (skip_to_semi d) < rem b"
        using skip_to_semi_less[of d] skip_to_semi_le[of d] ev_rem[OF d] assms by (cases "at_eof d") (auto simp: at_eof_rem)
      then show ?thesis using 3 p(1) None ev_trans[OF d ev_skip_to_semi] by (simp add: top_decl_def Let_def)
    next
      case (Some ty)
      have less: "rem d < rem b" using p(3) Some ev_rem[OF c] by simp
      let ?d = "skip_noise d"
      have e: "ev b ?d" "rem ?d < rem b" using ev_trans[OF d ev_skip_noise] skip_noise_le[of d] less by auto
      have fin: "\<exists>b'. r = Some b' \<and> ev b b' \<and> rem b' < rem b" if "r = Some x" "ev ?d x" for r x
        using that ev_trans[OF e(1) that(2)] ev_rem[OF that(2)] e(2) by simp
      obtain nm ty' f where q: "parse_declarator ty ?d = (nm, ty', f)" by (cases "parse_declarator ty ?d") auto
      have f: "ev ?d f" by (rule ev_parse_declarator_eq[OF q])
      have top: "top_decl b = (if is_p '';'' ?d then Some (advc ?d)
          else (case nm of Some n \<Rightarrow> if is_p ''('' f then fn_decl_rest n ty' f else Some (skip_to_semi f) | None \<Rightarrow> Some (skip_to_semi f)))"
        unfolding top_decl_def Let_def using 3 p(1) Some q by simp
      obtain g where g: "is_p ''('' f \<Longrightarrow> nm = Some n \<Longrightarrow> fn_decl_rest n ty' f = Some (g n)" "ev f (g n)" for n
        using fn_decl_rest_ok[of _ ty' f] by metis
      show ?thesis
        unfolding top using fin[OF _ ev_advc] fin[OF _ ev_trans[OF f ev_skip_to_semi]] fin[OF _ ev_trans[OF f g(2)]] g(1)
        by (simp split: option.split)
    qed
  qed
qed

lemma parse_top_ok: "rem b < k \<Longrightarrow> \<exists>b'. parse_top k b = Some b' \<and> ev b b'"
proof (induction k arbitrary: b)
  case (Suc k)
  show ?case
  proof (cases "at_eof b")
    case False
    obtain c where c: "top_decl b = Some c" "ev b c" "rem c < rem b" using top_decl_ok[OF False] by blast
    then obtain d where "parse_top k c = Some d" "ev c d" using Suc.IH[of c] Suc.prems by auto
    then show ?thesis using False c ev_trans by auto
  qed (simp add: ev_refl)
qed simp

section \<open>What is printed is defined\<close>

text \<open>The part of the structs that decides how a type is mapped.\<close>

definition view :: "bgen \<Rightarrow> (string \<times> bool \<times> bool) list" where
  "view b = map (\<lambda>s. (cs_name s, cs_has_body s, cs_mappable s)) (b_structs b)"

lemma index_of_names: "map cs_name xs = map cs_name ys \<Longrightarrow> index_of nm xs = index_of nm ys"
proof (induction xs arbitrary: ys)
  case (Cons x xs)
  then show ?case by (cases ys) auto
qed simp

lemma index_of_less: "index_of nm xs = Some i \<Longrightarrow> i < length xs"
  by (induction xs arbitrary: i) (auto split: if_splits)

lemma view_nth: "view b = view b' \<Longrightarrow> i < length (b_structs b) \<Longrightarrow>
  cs_name (b_structs b ! i) = cs_name (b_structs b' ! i) \<and> cs_has_body (b_structs b ! i) = cs_has_body (b_structs b' ! i) \<and>
  cs_mappable (b_structs b ! i) = cs_mappable (b_structs b' ! i)"
proof -
  assume v: "view b = view b'" and i: "i < length (b_structs b)"
  have "length (b_structs b) = length (b_structs b')" using arg_cong[OF v, of length] by (simp add: view_def)
  moreover have "view b ! i = view b' ! i" using v by simp
  ultimately show ?thesis using i by (simp add: view_def)
qed

lemma view_names: "view b = view b' \<Longrightarrow> map cs_name (b_structs b) = map cs_name (b_structs b')"
proof -
  assume "view b = view b'"
  then have "map fst (view b) = map fst (view b')" by simp
  then show ?thesis by (simp add: view_def comp_def)
qed

lemma vyto_type_view:
  assumes "view b = view b'"
  shows "fst (vyto_type t r b) = fst (vyto_type t r b')"
proof -
  have f: "find_struct nm b = find_struct nm b'" for nm
    unfolding find_struct_def by (rule index_of_names[OF view_names[OF assms]])
  show ?thesis
  proof (cases "Option.bind (cy_tag t) (\<lambda>tag. find_struct tag b)")
    case None
    then show ?thesis by (simp add: vyto_type_def f)
  next
    case (Some i)
    then have "i < length (b_structs b)" by (auto simp: bind_eq_Some_conv find_struct_def dest: index_of_less)
    then show ?thesis using Some view_nth[OF assms] by (simp add: vyto_type_def f)
  qed
qed

lemma view_upd: "(\<And>s. cs_name (f s) = cs_name s \<and> cs_has_body (f s) = cs_has_body s \<and> cs_mappable (f s) = cs_mappable s) \<Longrightarrow>
  view (upd_struct i f b) = view b"
proof -
  assume f: "\<And>s. cs_name (f s) = cs_name s \<and> cs_has_body (f s) = cs_has_body s \<and> cs_mappable (f s) = cs_mappable s"
  show ?thesis
  proof (cases "i < length (b_structs b)")
    case True
    then show ?thesis using f by (simp add: view_def upd_struct_def map_update list_update_same_conv)
  qed (simp add: view_def upd_struct_def list_update_beyond)
qed

lemma vyto_type_keeps: "view (snd (vyto_type t r b)) = view b"
  by (auto simp: vyto_type_def view_upd split: option.split)

lemma add_skip_view [simp]: "view (add_skip nm why b) = view b"
  by (simp add: add_skip_def view_def)

lemma params_ok_view:
  "params_ok nm ps b = (ok, b') \<Longrightarrow> view b' = view b \<and> (ok \<longrightarrow> list_all (\<lambda>p. fst (vyto_type (snd p) False b) \<noteq> None) ps)"
proof (induction ps arbitrary: b)
  case (Cons p ps)
  obtain v c where v: "vyto_type (snd p) False b = (v, c)" by (cases "vyto_type (snd p) False b")
  have c: "view c = view b" using vyto_type_keeps[of "snd p" False b] v by simp
  show ?case
  proof (cases v)
    case None
    then show ?thesis using Cons.prems v c by auto
  next
    case (Some x)
    then have "view b' = view c \<and> (ok \<longrightarrow> list_all (\<lambda>p. fst (vyto_type (snd p) False c) \<noteq> None) ps)"
      using Cons.IH Cons.prems v by simp
    then show ?thesis using c v Some by (simp add: vyto_type_view[OF c])
  qed
qed simp

definition usable :: "bgen \<Rightarrow> cfn \<Rightarrow> bool" where
  "usable b f \<longleftrightarrow> fst (vyto_type (cf_ret f) True b) \<noteq> None \<and> list_all (\<lambda>p. fst (vyto_type (snd p) False b) \<noteq> None) (cf_params f)"

lemma usable_view: "view b = view b' \<Longrightarrow> usable b f = usable b' f"
  unfolding usable_def by (simp add: vyto_type_view[of b b'])

definition selected_ok :: "string list \<Rightarrow> bgen \<Rightarrow> cfn \<Rightarrow> bool" where
  "selected_ok filters b f \<longleftrightarrow> usable b f \<and> pass_filter filters (cf_name f) \<and> \<not> is_vyto_keyword (cf_name f)"

text \<open>One function considered: it is left out, or chosen in a form that can be printed.\<close>

lemma select_fn_step:
  assumes "select_fn filters f (sels, b) = (sels', b')"
  shows "view b' = view b \<and> (sels' = sels \<or>
    (\<exists>g. sels' = sels @ [g] \<and> length sels < 4096 \<and> cf_name g = cf_name f \<and> length (cf_params g) \<le> length (cf_params f) \<and>
         selected_ok filters b g))"
proof (cases "pass_filter filters (cf_name f) \<and> \<not> is_vyto_keyword (cf_name f)")
  case False
  then show ?thesis using assms by (auto simp: select_fn_def split: if_splits)
next
  case go: True
  obtain v c where v: "vyto_type (cf_ret f) True b = (v, c)" by (cases "vyto_type (cf_ret f) True b")
  have c: "view c = view b" using vyto_type_keeps[of "cf_ret f" True b] v by simp
  show ?thesis
  proof (cases v)
    case None
    then show ?thesis using assms go v c by (auto simp: select_fn_def)
  next
    case (Some x)
    let ?f = "if void_params f then f\<lparr>cf_params := []\<rparr> else f"
    obtain ok d where p: "params_ok (cf_name ?f) (cf_params ?f) c = (ok, d)" by (cases "params_ok (cf_name ?f) (cf_params ?f) c")
    have r: "(sels', b') = (if ok \<and> length sels < 4096 then (sels @ [?f], d) else (sels, d))"
      using assms go v Some p by (simp add: select_fn_def Let_def split: if_splits)
    have d: "view d = view b" "ok \<Longrightarrow> usable b ?f"
      using params_ok_view[OF p] c v Some vyto_type_view[OF c] by (auto simp: usable_def)
    have "cf_name ?f = cf_name f" "length (cf_params ?f) \<le> length (cf_params f)" by simp_all
    then show ?thesis using r d go unfolding selected_ok_def by (metis prod.inject)
  qed
qed

lemma select_fold:
  assumes "fold (select_fn filters) fs (sels, b) = (sels', b')"
    and "distinct (map cf_name sels @ map cf_name fs)" "list_all (selected_ok filters b) sels" "length sels \<le> 4096"
    and "list_all (\<lambda>f. length (cf_params f) \<le> 32) (sels @ fs)"
  shows "view b' = view b \<and> distinct (map cf_name sels') \<and> list_all (selected_ok filters b) sels' \<and> length sels' \<le> 4096 \<and>
    list_all (\<lambda>f. length (cf_params f) \<le> 32) sels'"
  using assms
proof (induction fs arbitrary: sels b)
  case (Cons f fs)
  obtain sels1 b1 where s: "select_fn filters f (sels, b) = (sels1, b1)" by (cases "select_fn filters f (sels, b)")
  note st = select_fn_step[OF s]
  have same: "selected_ok filters b1 = selected_ok filters b"
    using st usable_view[of b1 b] by (auto simp: selected_ok_def fun_eq_iff)
  have "view b' = view b1 \<and> distinct (map cf_name sels') \<and> list_all (selected_ok filters b1) sels' \<and> length sels' \<le> 4096 \<and>
      list_all (\<lambda>f. length (cf_params f) \<le> 32) sels'"
  proof (rule Cons.IH)
    show "fold (select_fn filters) fs (sels1, b1) = (sels', b')" using Cons.prems(1) s by simp
    have "sels1 = sels \<or> (\<exists>g. sels1 = sels @ [g] \<and> cf_name g = cf_name f)" using st by blast
    then show "distinct (map cf_name sels1 @ map cf_name fs)" using Cons.prems(2) by fastforce
    show "list_all (selected_ok filters b1) sels1" unfolding same using st Cons.prems(3) by auto
    show "length sels1 \<le> 4096" using st Cons.prems(4) by auto
    show "list_all (\<lambda>f. length (cf_params f) \<le> 32) (sels1 @ fs)" using st Cons.prems(5) by auto
  qed
  then show ?case using st same by simp
qed auto

lemma field_text_view: "view (snd (field_text p (out, b))) = view b"
  using vyto_type_keeps[of "snd p" False b] by (auto simp: field_text_def Let_def split: prod.splits)

lemma fold_view:
  assumes "\<And>x s. view (snd (f x s)) = view (snd s)"
  shows "view (snd (fold f xs s)) = view (snd s)"
  using assms by (induction xs arbitrary: s) simp_all

lemma struct_text_view: "view (snd (struct_text i s)) = view (snd s)"
proof -
  obtain out b where s: "s = (out, b)" by (cases s)
  have f: "view (snd (field_text p s)) = view (snd s)" for p s using field_text_view by (cases s) simp
  have "view (snd (fold field_text fs ([], upd_struct i (\<lambda>s. s\<lparr>cs_emitted := True\<rparr>) b))) = view b" for fs
    using fold_view[of field_text, OF f] by (simp add: view_upd)
  then show ?thesis by (auto simp: s struct_text_def Let_def split: prod.split) (metis snd_conv)
qed

lemma structs_text_view: "view (snd (structs_text b)) = view b"
  unfolding structs_text_def using fold_view[of struct_text, OF struct_text_view] by simp

lemma params_text_some: "list_all (\<lambda>p. fst (vyto_type (snd p) False b) \<noteq> None) ps \<Longrightarrow> params_text k ps b \<noteq> None"
proof (induction ps arbitrary: k)
  case (Cons p ps)
  obtain v where v: "fst (vyto_type (snd p) False b) = Some v" using Cons.prems by auto
  obtain r where r: "params_text (Suc k) ps b = Some r" using Cons.IH[of "Suc k"] Cons.prems by auto
  show ?case by (simp add: v r)
qed simp

lemma fn_text_some: "usable b f \<Longrightarrow> fn_text b f \<noteq> None"
  using params_text_some[of b "cf_params f" 0] by (auto simp: usable_def fn_text_def split: option.split)

lemma all_text_some: "list_all (\<lambda>x. x \<noteq> None) xs \<Longrightarrow> all_text xs \<noteq> None"
  by (induction xs) (auto split: option.split)

lemma first_consts_distinct: "distinct (map fst (first_consts seen cs)) \<and> fst ` set (first_consts seen cs) \<inter> set seen = {}"
  by (induction cs arbitrary: seen) (auto, fastforce+)

lemma shown_consts_distinct: "distinct (map fst (shown_consts filters cs))"
  using first_consts_distinct[of "[]" cs] by (simp add: shown_consts_def distinct_map_filter)

lemma bgen0_inv: "bgen_inv (bgen0 pp)"
  by (simp add: bgen0_def bgen_inv_def)

section \<open>The command line and the heading\<close>

record bargs =
  ba_header :: "string option"
  ba_cc :: string
  ba_libs :: "string list"
  ba_filters :: "string list"
  ba_incs :: string

definition bargs0 :: bargs where
  "bargs0 = \<lparr>ba_header = None, ba_cc = ''cc'', ba_libs = [], ba_filters = [], ba_incs = []\<rparr>"

fun bind_args :: "string list \<Rightarrow> bargs \<Rightarrow> bargs cres" where
  "bind_args [] a = Inr a"
| "bind_args (x # xs) a =
     (if x \<in> {''--lib'', ''--filter'', ''--cc'', ''-I''} \<and> xs \<noteq> []
      then (if x = ''--lib''
            then (if length (ba_libs a) \<ge> 16 then Inl (Fatal ''too many --lib flags (max 16)'')
                  else bind_args (tl xs) (a\<lparr>ba_libs := ba_libs a @ [hd xs]\<rparr>))
            else if x = ''--filter''
            then (if length (ba_filters a) \<ge> 64 then Inl (Fatal ''too many --filter flags (max 64)'')
                  else bind_args (tl xs) (a\<lparr>ba_filters := ba_filters a @ [hd xs]\<rparr>))
            else if x = ''--cc'' then bind_args (tl xs) (a\<lparr>ba_cc := hd xs\<rparr>)
            else bind_args (tl xs) (a\<lparr>ba_incs := ba_incs a @ '' -I'' @ [CHR 0x27] @ hd xs @ [CHR 0x27]\<rparr>))
      else if ba_header a = None then bind_args xs (a\<lparr>ba_header := Some x\<rparr>)
      else Inl (Fatal (''unexpected argument '' @ [CHR 0x27] @ x @ [CHR 0x27])))"

definition link_text :: "string \<Rightarrow> string" where
  "link_text lib =
     (if CHR ''@'' \<in> set lib
      then ''#link '' @ [CHR 0x22] @ takeWhile (\<lambda>c. c \<noteq> CHR ''@'') lib @ [CHR 0x22] @ '' if '' @ [CHR 0x22] @
             tl (dropWhile (\<lambda>c. c \<noteq> CHR ''@'') lib) @ [CHR 0x22]
      else ''#link '' @ [CHR 0x22] @ lib @ [CHR 0x22]) @ [CHR 0x0A]"

definition heading_text :: "string \<Rightarrow> string list \<Rightarrow> string list \<Rightarrow> string" where
  "heading_text header argv libs =
     ''// Generated by vytobind from '' @ header @ '' '' @ [CHR 0xE2, CHR 0x80, CHR 0x94] @ '' do not edit.'' @ [CHR 0x0A] @
     ''// vytobind'' @ concat (map (\<lambda>x. CHR '' '' # x) argv) @ [CHR 0x0A, CHR 0x0A] @
     concat (map link_text libs) @ (if libs = [] then [] else [CHR 0x0A])"

text \<open>The program. What the shell does with a command is an argument: it cannot be started, it fails, or it prints a text.\<close>

datatype shell_result = NotStarted | Failed | Output string

definition run_capture :: "(string \<Rightarrow> shell_result) \<Rightarrow> string \<Rightarrow> string cres" where
  "run_capture sh cmd =
     (case sh cmd of
        NotStarted \<Rightarrow> Inl (Fatal (''cannot run: '' @ cmd))
      | Failed \<Rightarrow> Inl (Fatal (''preprocessor failed ('' @ cmd @ '')''))
      | Output s \<Rightarrow> Inr s)"

definition pp_command :: "bargs \<Rightarrow> string \<Rightarrow> string \<Rightarrow> string" where
  "pp_command a flags h = ba_cc a @ flags @ ba_incs a @ '' '' @ [CHR 0x27] @ h @ [CHR 0x27] @ '' 2>/dev/null''"

definition vytobind :: "(string \<Rightarrow> shell_result) \<Rightarrow> string list \<Rightarrow> string cres" where
  "vytobind sh argv =
     bind_res (bind_args argv bargs0) (\<lambda>a.
     case ba_header a of
       None \<Rightarrow> Inl (Fatal ''usage: vytobind <header.h> [--lib name] [--filter prefix*] [-I dir] [--cc cc]'')
     | Some h \<Rightarrow>
         bind_res (run_capture sh (pp_command a '' -E -P'' h)) (\<lambda>pp.
         bind_res (run_capture sh (pp_command a '' -dM -E'' h)) (\<lambda>dm.
         case parse_header pp dm of
           None \<Rightarrow> Inl OutOfFuel
         | Some b \<Rightarrow>
             (case bindings_text (ba_filters a) b of
                None \<Rightarrow> Inl Undefined
              | Some out \<Rightarrow> Inr (heading_text h argv (ba_libs a) @ out)))))"

lemma run_capture_error: "run_capture sh cmd = Inl e \<Longrightarrow> \<exists>m. e = Fatal m"
  by (auto simp: run_capture_def split: shell_result.splits)

lemma bind_args_bounds:
  "bind_args xs a = Inr a' \<Longrightarrow> length (ba_libs a) \<le> 16 \<Longrightarrow> length (ba_filters a) \<le> 64 \<Longrightarrow>
   length (ba_libs a') \<le> 16 \<and> length (ba_filters a') \<le> 64"
  by (induction xs a rule: bind_args.induct) (auto split: if_splits)

lemma bind_args_error: "bind_args xs a = Inl e \<Longrightarrow> \<exists>m. e = Fatal m"
  by (induction xs a rule: bind_args.induct) (auto split: if_splits)

section \<open>Properties\<close>

lemma bindings_ok:
  "\<exists>b out. parse_header pp dm = Some b \<and> bgen_inv b \<and> bindings_text filters b = Some out \<and>
     length (fst (select_fns filters b)) \<le> 4096 \<and> distinct (map cf_name (fst (select_fns filters b))) \<and>
     list_all (\<lambda>f. usable b f \<and> length (cf_params f) \<le> 32 \<and> pass_filter filters (cf_name f) \<and> \<not> is_vyto_keyword (cf_name f))
       (fst (select_fns filters b)) \<and>
     distinct (map fst (shown_consts filters (b_consts b)))"
proof -
  have "rem (bgen0 pp) < Suc (length (tokenize pp))" by (simp add: rem_def bgen0_def)
  then obtain b1 where b1: "parse_top (Suc (length (tokenize pp))) (bgen0 pp) = Some b1" "ev (bgen0 pp) b1"
    using parse_top_ok by blast
  define b where "b = b1\<lparr>b_consts := b_consts b1 @ parse_defines dm\<rparr>"
  have b: "parse_header pp dm = Some b" "bgen_inv b"
    using b1 bgen0_inv ev_upd(3) unfolding parse_header_def b_def ev_def by (simp_all del: parse_top.simps)
  obtain sels c where s: "select_fns filters b = (sels, c)" by (cases "select_fns filters b")
  have sel: "view c = view b \<and> distinct (map cf_name sels) \<and> list_all (selected_ok filters b) sels \<and> length sels \<le> 4096 \<and>
      list_all (\<lambda>f. length (cf_params f) \<le> 32) sels"
    by (rule select_fold[OF s[unfolded select_fns_def]]) (use b(2) in \<open>auto simp: bgen_inv_def\<close>)
  obtain ss d where d: "structs_text c = (ss, d)" by (cases "structs_text c")
  have "view d = view b" using structs_text_view[of c] d sel by simp
  then have "list_all (\<lambda>x. x \<noteq> None) (map (fn_text d) sels)"
    using sel fn_text_some usable_view[of d b] by (auto simp: list_all_iff selected_ok_def)
  then obtain fs where "all_text (map (fn_text d) sels) = Some fs" using all_text_some by blast
  then have "\<exists>out. bindings_text filters b = Some out" using s d by (simp add: bindings_text_def)
  then show ?thesis using b s sel shown_consts_distinct unfolding selected_ok_def by (auto simp: list_all_iff)
qed

lemma vytobind_error: "vytobind sh argv = Inl e \<Longrightarrow> \<exists>m. e = Fatal m"
proof -
  assume e: "vytobind sh argv = Inl e"
  show ?thesis
  proof (cases "bind_args argv bargs0")
    case (Inl e')
    then show ?thesis using e bind_args_error[OF Inl] by (simp add: vytobind_def)
  next
    case a: (Inr a)
    show ?thesis
    proof (cases "ba_header a")
      case None
      then show ?thesis using e a by (auto simp: vytobind_def)
    next
      case h: (Some h)
      consider (pp) e' where "run_capture sh (pp_command a '' -E -P'' h) = Inl e'"
        | (dm) pp e' where "run_capture sh (pp_command a '' -E -P'' h) = Inr pp" "run_capture sh (pp_command a '' -dM -E'' h) = Inl e'"
        | (both) pp dm where "run_capture sh (pp_command a '' -E -P'' h) = Inr pp" "run_capture sh (pp_command a '' -dM -E'' h) = Inr dm"
        by (meson sum.exhaust)
      then show ?thesis
      proof cases
        case both
        obtain b ls where "parse_header pp dm = Some b" "bindings_text (ba_filters a) b = Some ls"
          using bindings_ok[of pp dm "ba_filters a"] by blast
        then show ?thesis using e a h both by (simp add: vytobind_def)
      qed (use e a h run_capture_error in \<open>auto simp: vytobind_def\<close>)
    qed
  qed
qed


text \<open>The size in bytes and the signedness of the C integer types on the 64-bit targets.\<close>

definition c_int :: "cbase \<Rightarrow> (nat \<times> bool) option" where
  "c_int k = map_of
     [(B_CHAR, (1, True)), (B_SCHAR, (1, True)), (B_UCHAR, (1, False)), (B_SHORT, (2, True)), (B_USHORT, (2, False)),
      (B_INT, (4, True)), (B_UINT, (4, False)), (B_LONG, (8, True)), (B_ULONG, (8, False)),
      (B_LLONG, (8, True)), (B_ULLONG, (8, False)), (B_ENUM, (4, True))] k"

definition mapped_well :: "cbase \<Rightarrow> bool" where
  "mapped_well k \<longleftrightarrow>
     (case scalar_type k of
        None \<Rightarrow> True
      | Some v \<Rightarrow>
          (case map_of prims v of
             None \<Rightarrow> False
           | Some kd \<Rightarrow> ffi_safe_type (type_new kd loc0) \<and> (type_is_int (type_new kd loc0) \<longleftrightarrow> c_int k \<noteq> None) \<and>
               (case c_int k of None \<Rightarrow> True | Some (w, sg) \<Rightarrow> int_width kd = w \<and> int_is_signed kd = sg)))"

lemma mapped_well_all: "mapped_well k"
proof -
  have "list_all mapped_well [B_UNKNOWN, B_VOID, B_BOOL, B_CHAR, B_SCHAR, B_UCHAR, B_SHORT, B_USHORT, B_INT, B_UINT, B_LONG, B_ULONG,
      B_LLONG, B_ULLONG, B_FLOAT, B_DOUBLE, B_LDOUBLE, B_STRUCT, B_UNION, B_ENUM, B_FNPTR]"
    by code_simp
  then show ?thesis by (cases k) (simp_all only: list.pred_inject)
qed

text \<open>The scalar types keep their meaning across the boundary: the name printed for a C type is a primitive type of the
  language that may cross the C interface, an integer type exactly for the C integer types, with the
  width and the sign the checker computes equal to those of C.\<close>

theorem scalar_mapping_exact:
  assumes "scalar_type k = Some v"
  shows "\<exists>kd. map_of prims v = Some kd \<and> ffi_safe_type (type_new kd l) \<and>
    (type_is_int (type_new kd l) \<longleftrightarrow> c_int k \<noteq> None) \<and>
    (\<forall>w sg. c_int k = Some (w, sg) \<longrightarrow> int_width kd = w \<and> int_is_signed kd = sg)"
proof -
  obtain kd where kd: "map_of prims v = Some kd" "ffi_safe_type (type_new kd loc0)" "type_is_int (type_new kd loc0) \<longleftrightarrow> c_int k \<noteq> None"
    "\<forall>w sg. c_int k = Some (w, sg) \<longrightarrow> int_width kd = w \<and> int_is_signed kd = sg"
    using mapped_well_all[of k] assms unfolding mapped_well_def by (auto split: option.splits)
  moreover have "type_is_int (type_new kd l) = type_is_int (type_new kd loc0)" "ffi_safe_type (type_new kd l) = ffi_safe_type (type_new kd loc0)"
    by (simp_all add: ffi_safe_type_def type_new_def type_is_num_def type_is_int_def type_is_float_def)
  ultimately show ?thesis by simp
qed

theorem scalar_mapping_exact_witness:
  "scalar_type B_ULONG = Some ''culong'' \<and> (\<exists>kd. map_of prims ''culong'' = Some kd \<and> ffi_safe_type (type_new kd loc0) \<and>
     int_width kd = 8 \<and> \<not> int_is_signed kd)"
proof -
  have "scalar_type B_ULONG = Some ''culong''" by (simp add: scalar_type_def)
  then show ?thesis using scalar_mapping_exact[of B_ULONG "''culong''" loc0] by (auto simp: c_int_def)
qed

text \<open>Struct layouts are not kept in three cases: an array member becomes a pointer, a member of a struct type that cannot be
  mapped becomes a pointer, and a struct used only inside a later one is not printed. A typedef
  of an anonymous struct makes the functions that use it by value disappear. Two keywords of the
  language are not in the table of names to avoid.\<close>

definition printed :: "string \<Rightarrow> string option" where
  "printed pp = Option.bind (parse_header pp []) (bindings_text [])"

definition block_of :: "string list \<Rightarrow> string" where
  "block_of ls = ''extern '' @ [CHR 0x22] @ ''C'' @ [CHR 0x22] @ '' {'' @ [CHR 0x0A] @ concat (map (\<lambda>l. ''    '' @ l @ [CHR 0x0A]) ls) @ ''}'' @ [CHR 0x0A]"

theorem binding_defects:
  "printed ''struct S{char n[4];};void f(struct S s);'' = Some (block_of [''struct S { n: cstring; }'', ''fn f(s: S);''])"
  "printed ''struct B{struct V v;};void f(struct B b);'' = Some (block_of [''struct B { v: rawptr; }'', ''fn f(b: B);''])"
  "printed ''struct A{int x;};struct B{struct A a;};void f(struct B b);'' = Some (block_of [''struct B { a: A; }'', ''fn f(b: B);''])"
  "printed ''void f(int arena);'' = Some (block_of [''fn f(arena: i32);''])"
  "filter (\<lambda>w. \<not> is_vyto_keyword w) (map fst keyword_table) = [''builder'', ''arena'', ''switch'', ''case'', ''default'', ''enum'', ''static'']"
  by code_simp+

theorem anonymous_struct_lost:
  "map_option (\<lambda>b. fst (select_fns [] b)) (parse_header ''typedef struct{int x;}P;P f(void);'' []) = Some []"
  by code_simp

text \<open>Part of the header of the example library, preprocessed, gives the corresponding lines of the text the repository keeps
  as the expected output.\<close>

lemma greeter_golden:
  "printed ''typedef struct GreetStats{int calls;double avg_len;}GreetStats;GreetStats greeter_stats(void);'' =
   Some (block_of [''struct GreetStats { calls: i32; avg_len: f64; }'', ''fn greeter_stats(): GreetStats;''])"
  by code_simp

end
